(* ===== verification/JsPrelude.thy ===== *)
theory JsPrelude
  imports Complex_Main "HOL-Library.AList"
begin

text \<open>
  The shared base of the development: the JavaScript values the enclave's modules pass
  around, the operations of the language and its standard library that they use, and the
  lemmas and hint collections that the component theories build on.

  A parsed JSON value, or any value the code computes from one, is a \<open>jsv\<close>. Numbers are
  the finite doubles (as exact rationals), the two infinities and NaN: the modelled code
  compares them, takes minima, floors and divides small integers, and never depends on
  rounding. A string is the list of its code units; the model covers the units below 256,
  which is the range of \<open>char\<close>. An object is the association list of its own enumerable
  properties in \<open>Object.keys\<close> order.
\<close>

subsection \<open>Hint collections\<close>

named_theorems js_simps \<open>evaluation rules for reads and writes of JavaScript values\<close>
named_theorems str_simps \<open>facts about the string operations\<close>

subsection \<open>Values\<close>

datatype jsnum = Fin rat | PosInf | NegInf | NaN

datatype jsv =
    JUndef
  | JNull
  | JBool bool
  | JNum jsnum
  | JStr string
  | JArr "jsv list"
  | JObj "(string \<times> jsv) list"

type_synonym js_fields = "(string \<times> jsv) list"

abbreviation jint :: "int \<Rightarrow> jsv" where
  "jint i \<equiv> JNum (Fin (of_int i))"

abbreviation jnat :: "nat \<Rightarrow> jsv" where
  "jnat n \<equiv> JNum (Fin (of_nat n))"

abbreviation JTrue :: jsv where "JTrue \<equiv> JBool True"
abbreviation JFalse :: jsv where "JFalse \<equiv> JBool False"

text \<open>\<open>x?.k\<close>: the property of an object, \<open>undefined\<close> when there is none or \<open>x\<close> is not an
  object. The keys the code reads by name are never members of \<open>Object.prototype\<close>; the
  lookups whose key is data go through \<open>table_get\<close> below.\<close>

fun fld :: "string \<Rightarrow> jsv \<Rightarrow> jsv" where
  "fld k (JObj kvs) = (case map_of kvs k of None \<Rightarrow> JUndef | Some v \<Rightarrow> v)"
| "fld k _ = JUndef"

fun has_fld :: "string \<Rightarrow> jsv \<Rightarrow> bool" where
  "has_fld k (JObj kvs) = (k \<in> fst ` set kvs)"
| "has_fld k _ = False"

text \<open>\<open>x.k = v\<close>: in place when the property exists, appended otherwise; \<open>delete x.k\<close>.\<close>

fun set_fld :: "string \<Rightarrow> jsv \<Rightarrow> jsv \<Rightarrow> jsv" where
  "set_fld k v (JObj kvs) = JObj (AList.update k v kvs)"
| "set_fld k v x = x"

fun del_fld :: "string \<Rightarrow> jsv \<Rightarrow> jsv" where
  "del_fld k (JObj kvs) = JObj (AList.delete k kvs)"
| "del_fld k x = x"

fun is_obj :: "jsv \<Rightarrow> bool" where
  "is_obj (JObj kvs) = True" | "is_obj _ = False"

fun is_arr :: "jsv \<Rightarrow> bool" where
  "is_arr (JArr xs) = True" | "is_arr _ = False"

fun is_str :: "jsv \<Rightarrow> bool" where
  "is_str (JStr s) = True" | "is_str _ = False"

fun is_bool :: "jsv \<Rightarrow> bool" where
  "is_bool (JBool b) = True" | "is_bool _ = False"

fun is_num :: "jsv \<Rightarrow> bool" where
  "is_num (JNum n) = True" | "is_num _ = False"

text \<open>\<open>x !== null && typeof x === 'object'\<close>: an object or an array.\<close>

fun typeof_object :: "jsv \<Rightarrow> bool" where
  "typeof_object (JArr xs) = True"
| "typeof_object (JObj kvs) = True"
| "typeof_object _ = False"

fun truthy :: "jsv \<Rightarrow> bool" where
  "truthy JUndef = False"
| "truthy JNull = False"
| "truthy (JBool b) = b"
| "truthy (JNum n) = (n \<noteq> Fin 0 \<and> n \<noteq> NaN)"
| "truthy (JStr s) = (s \<noteq> [])"
| "truthy (JArr xs) = True"
| "truthy (JObj kvs) = True"

fun elems :: "jsv \<Rightarrow> jsv list" where
  "elems (JArr xs) = xs" | "elems _ = []"

fun str_of :: "jsv \<Rightarrow> string" where
  "str_of (JStr s) = s" | "str_of _ = []"

text \<open>\<open>x ?? d\<close>.\<close>

fun nullish :: "jsv \<Rightarrow> jsv \<Rightarrow> jsv" where
  "nullish JUndef d = d" | "nullish JNull d = d" | "nullish x d = x"

fun num_finite :: "jsv \<Rightarrow> bool" where
  "num_finite (JNum (Fin q)) = True" | "num_finite _ = False"

fun num_integer :: "jsv \<Rightarrow> bool" where
  "num_integer (JNum (Fin q)) = (q = of_int \<lfloor>q\<rfloor>)" | "num_integer _ = False"

fun num_rat :: "jsv \<Rightarrow> rat" where
  "num_rat (JNum (Fin q)) = q" | "num_rat _ = 0"

subsection \<open>Strings\<close>

definition starts_with :: "string \<Rightarrow> string \<Rightarrow> bool" where
  "starts_with s p \<longleftrightarrow> take (length p) s = p"

definition ends_with :: "string \<Rightarrow> string \<Rightarrow> bool" where
  "ends_with s p \<longleftrightarrow> length p \<le> length s \<and> drop (length s - length p) s = p"

fun str_includes :: "string \<Rightarrow> string \<Rightarrow> bool" where
  "str_includes [] p = (p = [])"
| "str_includes (c # cs) p = (starts_with (c # cs) p \<or> str_includes cs p)"

text \<open>\<open>s.indexOf(c)\<close> for one character, \<open>None\<close> for -1.\<close>

fun index_of :: "string \<Rightarrow> char \<Rightarrow> nat option" where
  "index_of [] c = None"
| "index_of (d # ds) c = (if d = c then Some 0 else map_option Suc (index_of ds c))"

text \<open>\<open>s.split(c)\<close> for one separator character: never empty.\<close>

fun split_char :: "char \<Rightarrow> string \<Rightarrow> string list" where
  "split_char c [] = [[]]"
| "split_char c (d # ds) =
     (if d = c then [] # split_char c ds
      else (case split_char c ds of [] \<Rightarrow> [[d]] | w # ws \<Rightarrow> (d # w) # ws))"

text \<open>\<open>toLowerCase\<close> on code units below 256 (ASCII and the Latin-1 capitals).\<close>

definition lower_char :: "char \<Rightarrow> char" where
  "lower_char c =
     (let n = of_char c :: nat
      in if (65 \<le> n \<and> n \<le> 90) \<or> (192 \<le> n \<and> n \<le> 222 \<and> n \<noteq> 215) then char_of (n + 32) else c)"

definition lower :: "string \<Rightarrow> string" where
  "lower = map lower_char"

text \<open>The white space of \<open>trim\<close> and of \<open>\s\<close>, in the same range.\<close>

definition is_space :: "char \<Rightarrow> bool" where
  "is_space c \<longleftrightarrow> (of_char c :: nat) \<in> {9, 10, 11, 12, 13, 32, 160}"

definition trim :: "string \<Rightarrow> string" where
  "trim s = rev (dropWhile is_space (rev (dropWhile is_space s)))"

definition is_digit :: "char \<Rightarrow> bool" where
  "is_digit c \<longleftrightarrow> 48 \<le> (of_char c :: nat) \<and> (of_char c :: nat) \<le> 57"

definition is_lower_az :: "char \<Rightarrow> bool" where
  "is_lower_az c \<longleftrightarrow> 97 \<le> (of_char c :: nat) \<and> (of_char c :: nat) \<le> 122"

definition is_upper_az :: "char \<Rightarrow> bool" where
  "is_upper_az c \<longleftrightarrow> 65 \<le> (of_char c :: nat) \<and> (of_char c :: nat) \<le> 90"

definition is_alnum :: "char \<Rightarrow> bool" where
  "is_alnum c \<longleftrightarrow> is_digit c \<or> is_lower_az c \<or> is_upper_az c"

definition digit_char :: "nat \<Rightarrow> char" where
  "digit_char d = char_of (48 + d)"

text \<open>\<open>String(n)\<close> of a natural number.\<close>

fun num_str :: "nat \<Rightarrow> string" where
  "num_str n = (if n < 10 then [digit_char n] else num_str (n div 10) @ [digit_char (n mod 10)])"

declare num_str.simps [simp del]

text \<open>\<open>Number(s)\<close> of a string of decimal digits.\<close>

definition digits_value :: "string \<Rightarrow> nat" where
  "digits_value s = foldl (\<lambda>n c. 10 * n + (of_char c - 48)) 0 s"

definition str_join :: "string \<Rightarrow> string list \<Rightarrow> string" where
  "str_join sep ws = (case ws of [] \<Rightarrow> [] | w # rest \<Rightarrow> w @ concat (map (\<lambda>v. sep @ v) rest))"

text \<open>\<open>{...x}\<close>: the own enumerable properties that a spread copies.\<close>

definition spread :: "jsv \<Rightarrow> js_fields" where
  "spread x =
     (case x of
        JObj kvs \<Rightarrow> kvs
      | JArr xs \<Rightarrow> zip (map num_str [0 ..< length xs]) xs
      | JStr s \<Rightarrow> zip (map num_str [0 ..< length s]) (map (\<lambda>c. JStr [c]) s)
      | _ \<Rightarrow> [])"

text \<open>\<open>Object.keys(x)\<close> of an object or an array.\<close>

definition obj_keys :: "jsv \<Rightarrow> string list" where
  "obj_keys x = map fst (spread x)"

subsection \<open>Exceptions\<close>

text \<open>An exception is a \<open>TypeError\<close> of the language or an error the code throws; a computation
  that may raise one returns \<open>Inl\<close> of it.\<close>

datatype js_error = TypeError | Thrown string

definition bind_js :: "'e + 'a \<Rightarrow> ('a \<Rightarrow> 'e + 'b) \<Rightarrow> 'e + 'b" where
  "bind_js m f = (case m of Inl e \<Rightarrow> Inl e | Inr a \<Rightarrow> f a)"

text \<open>\<open>TABLE[k]\<close> for an object literal \<open>TABLE\<close> and a key that is data. A name that
  \<open>Object.prototype\<close> defines is found there, as a function or an object that is none of the
  table's values.\<close>

definition proto_members :: "string list" where
  "proto_members =
     [''constructor'', ''hasOwnProperty'', ''isPrototypeOf'', ''propertyIsEnumerable'',
      ''toLocaleString'', ''toString'', ''valueOf'', ''__proto__'', ''__defineGetter__'',
      ''__defineSetter__'', ''__lookupGetter__'', ''__lookupSetter__'']"

datatype 'a table_entry = Own 'a | Inherited | Missing

definition table_get :: "(string \<times> 'a) list \<Rightarrow> string \<Rightarrow> 'a table_entry" where
  "table_get t k =
     (case map_of t k of
        Some v \<Rightarrow> Own v
      | None \<Rightarrow> if k \<in> set proto_members then Inherited else Missing)"

subsection \<open>Lemmas on reads and writes\<close>

lemma fld_set_fld [js_simps]:
  "is_obj x \<Longrightarrow> fld k (set_fld k' v x) = (if k = k' then v else fld k x)"
  by (cases x) (auto simp: update_conv')

lemma fld_del_fld [js_simps]: "fld k (del_fld k' x) = (if k = k' then JUndef else fld k x)"
  by (cases x) (auto simp: delete_conv' split: option.splits)

lemma is_obj_set_fld [js_simps, simp]: "is_obj (set_fld k v x) = is_obj x"
  by (cases x) auto

lemma is_obj_del_fld [js_simps, simp]: "is_obj (del_fld k x) = is_obj x"
  by (cases x) auto

lemma has_fld_set_fld [js_simps]:
  "is_obj x \<Longrightarrow> has_fld k (set_fld k' v x) = (k = k' \<or> has_fld k x)"
  by (cases x) (auto simp: dom_update)

lemma has_fld_del_fld [js_simps]: "has_fld k (del_fld k' x) = (k \<noteq> k' \<and> has_fld k x)"
  by (cases x) (force simp: delete_conv AList.delete_eq)+

lemma fld_not_has: "\<not> has_fld k x \<Longrightarrow> fld k x = JUndef"
  by (cases x) (force split: option.splits dest: map_of_SomeD)+

lemma truthy_fld_has: "truthy (fld k x) \<Longrightarrow> has_fld k x"
  using fld_not_has by fastforce

lemma typeof_object_iff: "typeof_object x \<longleftrightarrow> is_obj x \<or> is_arr x"
  by (cases x) auto

lemma bind_js_simps [simp]: "bind_js (Inl e) f = Inl e" "bind_js (Inr a) f = f a"
  by (simp_all add: bind_js_def)

lemma bind_js_Inr_iff: "bind_js m f = Inr b \<longleftrightarrow> (\<exists>a. m = Inr a \<and> f a = Inr b)"
  by (cases m) auto

subsection \<open>Lemmas on strings\<close>

lemma starts_with_append [str_simps, simp]: "starts_with (p @ s) p"
  by (simp add: starts_with_def)

lemma starts_with_iff: "starts_with s p \<longleftrightarrow> (\<exists>t. s = p @ t)"
  by (metis append_eq_conv_conj append_take_drop_id starts_with_def)

lemma starts_with_Nil [str_simps, simp]: "starts_with s []"
  by (simp add: starts_with_def)

lemma starts_with_Cons [str_simps]:
  "starts_with (c # cs) (p # ps) \<longleftrightarrow> c = p \<and> starts_with cs ps"
  by (auto simp: starts_with_def)

lemma starts_with_trans: "starts_with s p \<Longrightarrow> starts_with p q \<Longrightarrow> starts_with s q"
  by (auto simp: starts_with_iff)

lemma starts_with_comparable:
  "starts_with m p \<Longrightarrow> starts_with m q \<Longrightarrow> starts_with p q \<or> starts_with q p"
  by (auto simp: starts_with_iff append_eq_append_conv2)

lemma str_includes_iff: "str_includes s p \<longleftrightarrow> (\<exists>a b. s = a @ p @ b)"
proof (induction s)
  case Nil
  then show ?case by auto
next
  case (Cons c cs)
  show ?case
  proof
    assume "str_includes (c # cs) p"
    then show "\<exists>a b. c # cs = a @ p @ b"
      using Cons by (auto simp: starts_with_iff) (metis append_Cons append_Nil)+
  next
    assume "\<exists>a b. c # cs = a @ p @ b"
    then obtain a b where ab: "c # cs = a @ p @ b" by blast
    show "str_includes (c # cs) p"
    proof (cases a)
      case Nil
      with ab have "starts_with (c # cs) p" by (auto simp: starts_with_iff)
      then show ?thesis by simp
    next
      case (Cons x xs)
      with ab have "cs = xs @ p @ b" by simp
      then show ?thesis using Cons.IH by auto
    qed
  qed
qed

lemma split_char_not_Nil [simp]: "split_char c s \<noteq> []"
  by (induction s) (auto split: list.splits)

lemma index_of_None_iff: "index_of s c = None \<longleftrightarrow> c \<notin> set s"
  by (induction s) auto

lemma lower_char_idem [simp]: "lower_char (lower_char c) = lower_char c"
  by (auto simp: lower_char_def Let_def)

lemma lower_char_not_tilde: "c \<noteq> CHR ''~'' \<Longrightarrow> lower_char c \<noteq> CHR ''~''"
proof -
  assume c: "c \<noteq> CHR ''~''"
  have t: "(of_char (CHR ''~'') :: nat) = 126" by code_simp
  have "(of_char (lower_char c) :: nat) \<noteq> 126"
    using c of_char_eq_iff [of c "CHR ''~''", where 'a = nat]
    by (auto simp: lower_char_def Let_def t)
  then show ?thesis using t by metis
qed

lemma lower_idem [simp]: "lower (lower s) = lower s"
  by (simp add: lower_def)

lemma length_lower [simp]: "length (lower s) = length s"
  by (simp add: lower_def)

lemma of_digit_char: "d < 10 \<Longrightarrow> (of_char (digit_char d) :: nat) = 48 + d"
  by (simp add: digit_char_def)

lemma is_digit_digit_char: "d < 10 \<Longrightarrow> is_digit (digit_char d)"
  by (simp add: is_digit_def of_digit_char)

lemma num_str_digits: "list_all is_digit (num_str n)"
proof (induction n rule: num_str.induct)
  case (1 n)
  then show ?case
    by (subst num_str.simps) (simp add: is_digit_digit_char)
qed

lemma num_str_not_Nil [simp]: "num_str n \<noteq> []"
  by (subst num_str.simps) simp

lemma digits_value_append1:
  "digits_value (s @ [c]) = 10 * digits_value s + (of_char c - 48)"
  by (simp add: digits_value_def)

lemma digits_value_num_str [simp]: "digits_value (num_str n) = n"
proof (induction n rule: num_str.induct)
  case (1 n)
  show ?case
  proof (cases "n < 10")
    case True
    then show ?thesis
      by (subst num_str.simps) (simp add: digits_value_def of_digit_char)
  next
    case False
    then show ?thesis
      using 1 by (subst num_str.simps) (simp add: digits_value_append1 of_digit_char)
  qed
qed

lemma num_str_head: "n \<noteq> 0 \<Longrightarrow> hd (num_str n) \<noteq> CHR ''0''"
proof (induction n rule: num_str.induct)
  case (1 n)
  have z: "(of_char (CHR ''0'') :: nat) = 48" by code_simp
  show ?case
  proof (cases "n < 10")
    case True
    then have "(of_char (hd (num_str n)) :: nat) \<noteq> 48"
      using 1 by (subst num_str.simps) (simp add: of_digit_char)
    then show ?thesis using z by metis
  next
    case False
    then show ?thesis
      using 1 by (subst num_str.simps) simp
  qed
qed

lemma length_num_str_le: "n < 10 ^ Suc k \<Longrightarrow> length (num_str n) \<le> Suc k"
proof (induction k arbitrary: n)
  case 0
  then show ?case by (subst num_str.simps) simp
next
  case (Suc k)
  then have "n div 10 < 10 ^ Suc k" by (simp add: less_mult_imp_div_less mult.commute)
  then show ?case
    using Suc.IH [of "n div 10"] by (subst num_str.simps) simp
qed

lemma digit_not: "is_digit c \<Longrightarrow> of_char d < (48::nat) \<or> 57 < (of_char d :: nat) \<Longrightarrow> c \<noteq> d"
  by (auto simp: is_digit_def)

lemma split_char_none: "c \<notin> set s \<Longrightarrow> split_char c s = [s]"
  by (induction s) auto

lemma split_char_append: "c \<notin> set s \<Longrightarrow> split_char c (s @ c # t) = s # split_char c t"
  by (induction s) auto

lemma split_char_no_sep: "w \<in> set (split_char c s) \<Longrightarrow> c \<notin> set w"
proof (induction s arbitrary: w)
  case Nil
  then show ?case by simp
next
  case (Cons d ds)
  then show ?case by (auto split: if_splits list.splits)
qed

lemma split_char_subset: "w \<in> set (split_char c s) \<Longrightarrow> set w \<subseteq> set s"
proof (induction s arbitrary: w)
  case Nil
  then show ?case by simp
next
  case (Cons d ds)
  then show ?case by (fastforce split: if_splits list.splits)
qed

lemma spread_fld:
  assumes "\<not> list_all is_digit k"
  shows "fld k (JObj (spread x)) = fld k x"
proof -
  have "map_of (zip (map num_str ns) vs) k = None" for ns and vs :: "jsv list"
  proof -
    have "k \<notin> set (map num_str ns)" using assms num_str_digits by auto
    then have "k \<notin> fst ` set (zip (map num_str ns) vs)" by (auto dest: set_zip_leftD)
    then show ?thesis by (simp add: map_of_eq_None_iff)
  qed
  then show ?thesis by (cases x) (simp_all add: spread_def)
qed

lemma fld_update_spread:
  "\<not> list_all is_digit k \<Longrightarrow>
     fld k (JObj (AList.update k' v (spread x))) = (if k = k' then v else fld k x)"
  using spread_fld [of k x] by (simp add: update_conv')

end
