(* ===== verification/UpstreamBinding.thy ===== *)
theory UpstreamBinding
  imports JsPrelude
begin

text \<open>
  The two candidate checks of \<open>enclave/src/upstreamBinding.mjs\<close>: the family binding, which
  ties the vendor namespace of a model id to the hosts that may serve it, and the provider
  binding, which ties a candidate's provider, host, key reference and wire dialect together.
  The tables are the code's constants; a candidate is the parsed JSON value that horse-power
  sent.
\<close>

subsection \<open>Family binding\<close>

definition universal_host :: string where
  "universal_host = ''openrouter.ai''"

definition family_bindings :: "(string \<times> string list) list" where
  "family_bindings =
     [(''anthropic/'', [''api.anthropic.com'']),
      (''openai/'',
        [''bedrock-mantle.us-east-1.api.aws'',
         ''bedrock-mantle.us-east-2.api.aws'',
         ''bedrock-mantle.us-west-2.api.aws'',
         ''api.openai.com'']),
      (''google/'', [''aiplatform.googleapis.com'']),
      (''private/'', [''inference.tinfoil.sh'']),
      (''venice/'', [''api.venice.ai''])]"

text \<open>\<open>model.toLowerCase().replace(/^~/, '')\<close>: one leading tilde is removed.\<close>

definition strip_tilde :: "string \<Rightarrow> string" where
  "strip_tilde s = (case s of [] \<Rightarrow> [] | c # cs \<Rightarrow> if c = CHR ''~'' then cs else s)"

definition binding_model_id :: "string \<Rightarrow> string" where
  "binding_model_id m = strip_tilde (lower m)"

record binding_verdict =
  bv_allowed :: bool
  bv_family :: "string option"
  bv_permitted :: "string list"

definition bv_ok :: binding_verdict where
  "bv_ok = \<lparr>bv_allowed = True, bv_family = None, bv_permitted = []\<rparr>"

text \<open>The loop over \<open>Object.entries(FAMILY_BINDINGS)\<close>: the first matching family decides.\<close>

fun family_loop :: "string \<Rightarrow> string \<Rightarrow> (string \<times> string list) list \<Rightarrow> binding_verdict" where
  "family_loop m h [] = bv_ok"
| "family_loop m h ((family, hosts) # rest) =
     (if starts_with m family
      then \<lparr>bv_allowed = h \<in> set hosts, bv_family = Some family,
            bv_permitted = hosts @ [universal_host]\<rparr>
      else family_loop m h rest)"

definition check_binding :: "jsv \<Rightarrow> jsv \<Rightarrow> binding_verdict" where
  "check_binding requested_model host =
     (case host of
        JStr h \<Rightarrow>
          if h = [] then bv_ok
          else if h = universal_host then bv_ok
          else (case requested_model of
                  JStr m \<Rightarrow> family_loop (binding_model_id m) h family_bindings
                | _ \<Rightarrow> bv_ok)
      | _ \<Rightarrow> bv_ok)"

text \<open>\<open>checkBindings\<close>: the first refusal, with the id that refused.\<close>

fun check_bindings :: "jsv list \<Rightarrow> jsv \<Rightarrow> (jsv \<times> binding_verdict) option" where
  "check_bindings [] host = None"
| "check_bindings (i # is) host =
     (let r = check_binding i host
      in if \<not> bv_allowed r then Some (i, r) else check_bindings is host)"

subsection \<open>Provider binding\<close>

record provider_rule =
  pr_hosts :: "string list"
  pr_key_ref :: string
  pr_api_style :: string
  pr_also_styles :: "string list"

definition provider_bindings :: "(string \<times> provider_rule) list" where
  "provider_bindings =
     [(''openrouter'', \<lparr>pr_hosts = [''openrouter.ai''], pr_key_ref = ''openrouter'',
         pr_api_style = ''openai'', pr_also_styles = []\<rparr>),
      (''fireworks'', \<lparr>pr_hosts = [''api.fireworks.ai''], pr_key_ref = ''fireworks'',
         pr_api_style = ''openai'', pr_also_styles = []\<rparr>),
      (''foundry'', \<lparr>pr_hosts = [''ppq-foundry.services.ai.azure.com''], pr_key_ref = ''foundry'',
         pr_api_style = ''openai'', pr_also_styles = []\<rparr>),
      (''venice'', \<lparr>pr_hosts = [''api.venice.ai''], pr_key_ref = ''venice'',
         pr_api_style = ''openai'', pr_also_styles = []\<rparr>),
      (''anthropic'', \<lparr>pr_hosts = [''api.anthropic.com''], pr_key_ref = ''anthropic'',
         pr_api_style = ''anthropic'', pr_also_styles = []\<rparr>),
      (''bedrock'', \<lparr>pr_hosts = [''bedrock-mantle.us-east-1.api.aws'',
           ''bedrock-mantle.us-east-2.api.aws'', ''bedrock-mantle.us-west-2.api.aws''],
         pr_key_ref = ''bedrock'', pr_api_style = ''bedrock'', pr_also_styles = []\<rparr>),
      (''openai'', \<lparr>pr_hosts = [''api.openai.com''], pr_key_ref = ''openai'',
         pr_api_style = ''openai-responses'', pr_also_styles = []\<rparr>),
      (''vertex'', \<lparr>pr_hosts = [''aiplatform.googleapis.com''], pr_key_ref = ''vertex'',
         pr_api_style = ''openai'', pr_also_styles = []\<rparr>),
      (''tinfoil'', \<lparr>pr_hosts = [''inference.tinfoil.sh''], pr_key_ref = ''tinfoil'',
         pr_api_style = ''openai'', pr_also_styles = [''speech'']\<rparr>),
      (''deepgram'', \<lparr>pr_hosts = [''api.deepgram.com''], pr_key_ref = ''deepgram'',
         pr_api_style = ''speech'', pr_also_styles = []\<rparr>),
      (''elevenlabs'', \<lparr>pr_hosts = [''api.elevenlabs.io''], pr_key_ref = ''elevenlabs'',
         pr_api_style = ''speech'', pr_also_styles = []\<rparr>)]"

datatype provider_refusal =
  ProviderUnknown | ProviderHostMismatch | ProviderKeyMismatch | ProviderApiStyleMismatch

text \<open>\<open>candidateLabel\<close>: a bounded string, or the name of the type.\<close>

definition candidate_label :: "jsv \<Rightarrow> string" where
  "candidate_label v =
     (case v of
        JStr s \<Rightarrow> if length s \<le> 128 then s else take 125 s @ ''...''
      | JUndef \<Rightarrow> ''undefined''
      | JNull \<Rightarrow> ''null''
      | JArr _ \<Rightarrow> ''<array>''
      | JObj _ \<Rightarrow> ''<object>''
      | JNum _ \<Rightarrow> ''<number>''
      | JBool _ \<Rightarrow> ''<boolean>'')"

definition style_ok :: "provider_rule \<Rightarrow> jsv \<Rightarrow> bool" where
  "style_ok rule api_style \<longleftrightarrow>
     api_style = JStr (pr_api_style rule)
     \<or> (api_style = JUndef \<and> pr_api_style rule = ''openai'')
     \<or> (case api_style of JStr s \<Rightarrow> s \<in> set (pr_also_styles rule) | _ \<Rightarrow> False)"

definition names_foreign_host :: "provider_rule \<Rightarrow> jsv \<Rightarrow> bool" where
  "names_foreign_host rule host \<longleftrightarrow>
     (case host of JStr h \<Rightarrow> h \<noteq> [] \<and> h \<notin> set (pr_hosts rule) | _ \<Rightarrow> False)"

definition own_rule :: "jsv \<Rightarrow> provider_rule option" where
  "own_rule provider = (case provider of JStr p \<Rightarrow> map_of provider_bindings p | _ \<Rightarrow> None)"

text \<open>\<open>None\<close> is \<open>{ allowed: true }\<close>; \<open>Some\<close> carries the reason and the offending field.\<close>

definition check_provider_binding :: "jsv \<Rightarrow> (provider_refusal \<times> string) option" where
  "check_provider_binding candidate =
     (let provider = fld ''provider'' candidate
      in case own_rule provider of
           None \<Rightarrow> Some (ProviderUnknown, candidate_label provider)
         | Some rule \<Rightarrow>
             if names_foreign_host rule (fld ''host'' candidate)
             then Some (ProviderHostMismatch, str_of (fld ''host'' candidate))
             else if fld ''key_ref'' candidate \<noteq> JStr (pr_key_ref rule)
             then Some (ProviderKeyMismatch, candidate_label (fld ''key_ref'' candidate))
             else if \<not> style_ok rule (fld ''api_style'' candidate)
             then Some (ProviderApiStyleMismatch, candidate_label (fld ''api_style'' candidate))
             else None)"

subsection \<open>The tables\<close>

text \<open>No family prefix is a prefix of another, so at most one rule applies to an id.\<close>

lemma families_prefix_free_table:
  "list_all (\<lambda>x. list_all (\<lambda>y. x = y \<or> \<not> starts_with (fst x) (fst y)) family_bindings)
     family_bindings"
  by code_simp

lemma families_prefix_free:
  assumes "(f, hs) \<in> set family_bindings" and "(f', hs') \<in> set family_bindings"
    and "starts_with m f" and "starts_with m f'"
  shows "(f, hs) = (f', hs')"
proof -
  have *: "x = y \<or> \<not> starts_with (fst x) (fst y)"
    if "x \<in> set family_bindings" "y \<in> set family_bindings" for x y
    using families_prefix_free_table that unfolding list_all_iff by blast
  show ?thesis
    using * [OF assms(1,2)] * [OF assms(2,1)] starts_with_comparable [OF assms(3,4)] by simp blast
qed

lemma family_loop_allowed:
  assumes "\<And>f hs f' hs'. (f, hs) \<in> set fs \<Longrightarrow> (f', hs') \<in> set fs
             \<Longrightarrow> starts_with m f \<Longrightarrow> starts_with m f' \<Longrightarrow> (f, hs) = (f', hs')"
  shows "bv_allowed (family_loop m h fs) \<longleftrightarrow>
           (\<forall>(f, hs) \<in> set fs. starts_with m f \<longrightarrow> h \<in> set hs)"
  using assms
proof (induction fs)
  case Nil
  then show ?case by (simp add: bv_ok_def)
next
  case (Cons p fs)
  obtain f hs where p: "p = (f, hs)" by (cases p)
  show ?case
  proof (cases "starts_with m f")
    case True
    then have "(f', hs') = (f, hs)" if "(f', hs') \<in> set fs" "starts_with m f'" for f' hs'
      using Cons.prems [of f' hs' f hs] that p by auto
    with True p show ?thesis by fastforce
  next
    case False
    have "bv_allowed (family_loop m h fs) \<longleftrightarrow>
            (\<forall>(f, hs) \<in> set fs. starts_with m f \<longrightarrow> h \<in> set hs)"
      by (rule Cons.IH, rule Cons.prems) auto
    with False p show ?thesis by simp
  qed
qed

lemma distinct_providers: "distinct (map fst provider_bindings)"
  by code_simp

text \<open>A host belongs to one provider only.\<close>

lemma host_owner_table:
  "list_all (\<lambda>x. list_all (\<lambda>y. x = y \<or>
       list_all (\<lambda>h. \<not> List.member (pr_hosts (snd y)) h) (pr_hosts (snd x))) provider_bindings)
     provider_bindings"
  by code_simp

lemma host_owner_unique:
  assumes "(p, r) \<in> set provider_bindings" and "(p', r') \<in> set provider_bindings"
    and "h \<in> set (pr_hosts r)" and "h \<in> set (pr_hosts r')"
  shows "(p, r) = (p', r')"
proof -
  have "x = y \<or> h \<notin> set (pr_hosts (snd y)) \<or> h \<notin> set (pr_hosts (snd x))"
    if "x \<in> set provider_bindings" "y \<in> set provider_bindings" for x y
    using host_owner_table that unfolding list_all_iff List.member_iff by blast
  from this [OF assms(1,2)] show ?thesis using assms(3,4) by simp
qed

lemma own_rule_SomeD:
  "own_rule provider = Some r \<Longrightarrow> \<exists>p. provider = JStr p \<and> (p, r) \<in> set provider_bindings"
  by (auto simp: own_rule_def dest: map_of_SomeD split: jsv.splits)

lemma check_provider_binding_NoneD:
  assumes "check_provider_binding c = None"
  obtains p r where "fld ''provider'' c = JStr p" "(p, r) \<in> set provider_bindings"
    "map_of provider_bindings p = Some r"
    "\<not> names_foreign_host r (fld ''host'' c)" "fld ''key_ref'' c = JStr (pr_key_ref r)"
    "style_ok r (fld ''api_style'' c)"
  using assms
  by (auto simp: check_provider_binding_def own_rule_def Let_def dest: map_of_SomeD
      split: option.splits if_splits jsv.splits)

subsection \<open>Properties\<close>

lemma check_binding_allowed_iff:
  "bv_allowed (check_binding (JStr m) (JStr h)) \<longleftrightarrow>
     h = [] \<or> h = universal_host \<or>
     (\<forall>(f, hs) \<in> set family_bindings. starts_with (binding_model_id m) f \<longrightarrow> h \<in> set hs)"
  unfolding check_binding_def
  using family_loop_allowed [of family_bindings "binding_model_id m" h, OF families_prefix_free]
  by (simp add: bv_ok_def)

lemma check_bindings_None_iff:
  "check_bindings is host = None \<longleftrightarrow> (\<forall>i \<in> set is. bv_allowed (check_binding i host))"
  by (induction "is") (auto simp: Let_def)

lemma family_loop_refusal:
  "\<not> bv_allowed (family_loop k h fs) \<Longrightarrow>
     \<exists>f hs. (f, hs) \<in> set fs \<and> starts_with k f \<and> h \<notin> set hs
       \<and> bv_family (family_loop k h fs) = Some f
       \<and> bv_permitted (family_loop k h fs) = hs @ [universal_host]"
proof (induction fs)
  case Nil
  then show ?case by (simp add: bv_ok_def)
next
  case (Cons x fs)
  then show ?case by (cases x) (auto split: if_splits)
qed

text \<open>The family check is exactly the published table. A non-empty host other than
  OpenRouter is permitted for a model id if and only if every family whose prefix the
  normalised id carries lists that host; and when it refuses, the refusal names a family the
  id really belongs to, together with that family's full permitted list.\<close>

theorem family_binding_exact:
  "bv_allowed (check_binding (JStr m) (JStr h)) =
     (h = [] \<or> h = universal_host \<or>
      (\<forall>(f, hs) \<in> set family_bindings. starts_with (binding_model_id m) f \<longrightarrow> h \<in> set hs))
   \<and> (bv_allowed (check_binding (JStr m) (JStr h))
      \<or> (\<exists>(f, hs) \<in> set family_bindings. starts_with (binding_model_id m) f \<and> h \<notin> set hs
            \<and> bv_family (check_binding (JStr m) (JStr h)) = Some f
            \<and> bv_permitted (check_binding (JStr m) (JStr h)) = hs @ [universal_host]))"
proof -
  let ?r = "check_binding (JStr m) (JStr h)"
  have "bv_allowed ?r \<or>
      (\<exists>f hs. (f, hs) \<in> set family_bindings \<and> starts_with (binding_model_id m) f
         \<and> h \<notin> set hs \<and> bv_family ?r = Some f \<and> bv_permitted ?r = hs @ [universal_host])"
    using family_loop_refusal [of "binding_model_id m" h family_bindings]
    by (auto simp: check_binding_def bv_ok_def)
  then show ?thesis
    using check_binding_allowed_iff [of m h] by blast
qed

theorem family_binding_exact_witness:
  "bv_family (check_binding (JStr ''anthropic/x'') (JStr ''api.fireworks.ai'')) = Some ''anthropic/''
   \<and> bv_permitted (check_binding (JStr ''anthropic/x'') (JStr ''api.fireworks.ai''))
       = [''api.anthropic.com'', universal_host]"
proof -
  have "\<not> bv_allowed (check_binding (JStr ''anthropic/x'') (JStr ''api.fireworks.ai''))"
    by code_simp
  then obtain f hs where "(f, hs) \<in> set family_bindings"
      "bv_family (check_binding (JStr ''anthropic/x'') (JStr ''api.fireworks.ai'')) = Some f"
    using family_binding_exact [of "''anthropic/x''" "''api.fireworks.ai''"] by blast
  show ?thesis by code_simp
qed

text \<open>The spelling of the client's id cannot turn the family check off: upper case letters
  and one leading alias tilde make no difference to the verdict for any host.\<close>

theorem family_binding_spelling:
  assumes "\<not> starts_with m ''~''"
  shows "check_binding (JStr (CHR ''~'' # m)) host = check_binding (JStr m) host
       \<and> check_binding (JStr (lower m)) host = check_binding (JStr m) host"
proof -
  have "binding_model_id (CHR ''~'' # m) = lower m"
  proof -
    have "lower_char (CHR ''~'') = CHR ''~''" by code_simp
    then show ?thesis by (simp add: binding_model_id_def lower_def strip_tilde_def)
  qed
  moreover have "binding_model_id m = lower m"
  proof (cases m)
    case Nil
    then show ?thesis by (simp add: binding_model_id_def strip_tilde_def lower_def)
  next
    case (Cons c cs)
    with assms have "c \<noteq> CHR ''~''" by (auto simp: starts_with_Cons)
    then have "lower_char c \<noteq> CHR ''~''" by (rule lower_char_not_tilde)
    with Cons show ?thesis by (simp add: binding_model_id_def strip_tilde_def lower_def)
  qed
  moreover have "binding_model_id (lower m) = binding_model_id m"
    by (simp add: binding_model_id_def)
  ultimately show ?thesis by (auto simp: check_binding_def split: jsv.splits)
qed

theorem family_binding_spelling_witness:
  "\<not> starts_with ''Anthropic/x'' ''~''
   \<and> \<not> bv_allowed (check_binding (JStr ''~Anthropic/x'') (JStr ''api.fireworks.ai''))"
proof -
  have h: "\<not> starts_with ''Anthropic/x'' ''~''" by code_simp
  have "\<not> bv_allowed (check_binding (JStr ''Anthropic/x'') (JStr ''api.fireworks.ai''))"
    by code_simp
  with h family_binding_spelling [OF h, of "JStr ''api.fireworks.ai''"] show ?thesis by simp
qed

text \<open>C10: A credential cannot be misdirected. Two accepted candidates that name the same
  non-empty host name the same provider and present the same key reference, and that host is
  one of the provider's own.\<close>

theorem same_host_same_credential:
  assumes "check_provider_binding c = None" and "check_provider_binding c' = None"
    and "fld ''host'' c = JStr h" and "fld ''host'' c' = JStr h" and "h \<noteq> []"
  shows "fld ''provider'' c = fld ''provider'' c' \<and> fld ''key_ref'' c = fld ''key_ref'' c'
       \<and> (\<exists>p r. fld ''provider'' c = JStr p \<and> map_of provider_bindings p = Some r
              \<and> h \<in> set (pr_hosts r) \<and> fld ''key_ref'' c = JStr (pr_key_ref r))"
proof -
  obtain p r where c: "fld ''provider'' c = JStr p" "(p, r) \<in> set provider_bindings"
      "map_of provider_bindings p = Some r" "\<not> names_foreign_host r (fld ''host'' c)"
      "fld ''key_ref'' c = JStr (pr_key_ref r)"
    using assms(1) by (rule check_provider_binding_NoneD)
  obtain p' r' where c': "fld ''provider'' c' = JStr p'" "(p', r') \<in> set provider_bindings"
      "\<not> names_foreign_host r' (fld ''host'' c')" "fld ''key_ref'' c' = JStr (pr_key_ref r')"
    using assms(2) by (rule check_provider_binding_NoneD)
  have h: "h \<in> set (pr_hosts r)" "h \<in> set (pr_hosts r')"
    using c(4) c'(3) assms(3-5) by (simp_all add: names_foreign_host_def)
  have "(p, r) = (p', r')"
    using c(2) c'(2) h by (rule host_owner_unique)
  with c c' h show ?thesis by auto
qed

definition sample_candidate :: jsv where
  "sample_candidate =
     JObj [(''provider'', JStr ''venice''), (''host'', JStr ''api.venice.ai''),
           (''key_ref'', JStr ''venice''), (''api_style'', JStr ''openai'')]"

theorem same_host_same_credential_witness:
  "check_provider_binding sample_candidate = None
   \<and> fld ''provider'' sample_candidate = JStr ''venice''
   \<and> fld ''key_ref'' sample_candidate = JStr ''venice''"
proof -
  have a: "check_provider_binding sample_candidate = None" by code_simp
  have h: "fld ''host'' sample_candidate = JStr ''api.venice.ai''" by code_simp
  have "\<exists>p r. fld ''provider'' sample_candidate = JStr p
         \<and> map_of provider_bindings p = Some r \<and> ''api.venice.ai'' \<in> set (pr_hosts r)
         \<and> fld ''key_ref'' sample_candidate = JStr (pr_key_ref r)"
    using same_host_same_credential [OF a a h h] by simp
  with a show ?thesis by (simp add: sample_candidate_def)
qed

text \<open>The providers whose hosts the family table lists for each namespace.\<close>

definition family_providers :: "(string \<times> string list) list" where
  "family_providers =
     [(''anthropic/'', [''anthropic'']), (''openai/'', [''bedrock'', ''openai'']),
      (''google/'', [''vertex'']), (''private/'', [''tinfoil'']), (''venice/'', [''venice''])]"

lemma family_providers_table:
  "list_all (\<lambda>(f, hs). list_all (\<lambda>(p, r). list_all (\<lambda>h. List.member (pr_hosts r) h \<longrightarrow>
       List.member (the (map_of family_providers f)) p) hs) provider_bindings) family_bindings"
  by code_simp

lemma openrouter_host_table:
  "list_all (\<lambda>(p, r). List.member (pr_hosts r) universal_host \<longrightarrow> p = ''openrouter'')
     provider_bindings"
  by code_simp

text \<open>C9: Substitution is refused whatever horse-power resolves the model to. If a candidate
  with a non-empty host passes both checks, and the client's literal id lies in a published
  family, then the provider that will be billed is OpenRouter or one of that family's own,
  for every resolved id and every further id judged.\<close>

theorem substitution_refused:
  assumes "check_provider_binding c = None" and "fld ''host'' c = JStr h" and "h \<noteq> []"
    and "check_bindings (JStr literal # others) (JStr h) = None"
    and "(f, hs) \<in> set family_bindings" and "starts_with (binding_model_id literal) f"
  shows "fld ''provider'' c = JStr ''openrouter''
       \<or> (\<exists>p \<in> set (the (map_of family_providers f)). fld ''provider'' c = JStr p)"
proof -
  obtain p r where c: "fld ''provider'' c = JStr p" "(p, r) \<in> set provider_bindings"
      "\<not> names_foreign_host r (fld ''host'' c)"
    using assms(1) by (rule check_provider_binding_NoneD)
  have own: "h \<in> set (pr_hosts r)"
    using c(3) assms(2,3) by (simp add: names_foreign_host_def)
  have "bv_allowed (check_binding (JStr literal) (JStr h))"
    using assms(4) by (simp add: check_bindings_None_iff del: check_bindings.simps)
  then have "h = universal_host \<or> h \<in> set hs"
    using assms(3,5,6) by (auto simp: check_binding_allowed_iff)
  then show ?thesis
  proof
    assume "h = universal_host"
    then have "p = ''openrouter''"
      using openrouter_host_table c(2) own unfolding list_all_iff List.member_iff by blast
    with c(1) show ?thesis by simp
  next
    assume "h \<in> set hs"
    then have "p \<in> set (the (map_of family_providers f))"
      using family_providers_table c(2) own assms(5) unfolding list_all_iff List.member_iff by blast
    with c(1) show ?thesis by blast
  qed
qed

theorem substitution_refused_witness:
  "check_bindings [JStr ''~venice/x'', JStr ''vendor/x''] (JStr ''api.venice.ai'') = None
   \<and> fld ''provider'' sample_candidate = JStr ''venice''"
proof -
  have a: "check_provider_binding sample_candidate = None" by code_simp
  have h: "fld ''host'' sample_candidate = JStr ''api.venice.ai''" by code_simp
  have b: "check_bindings [JStr ''~venice/x'', JStr ''vendor/x''] (JStr ''api.venice.ai'') = None"
    by code_simp
  have f: "(''venice/'', [''api.venice.ai'']) \<in> set family_bindings"
    by (simp add: family_bindings_def)
  have p: "starts_with (binding_model_id ''~venice/x'') ''venice/''" by code_simp
  have "the (map_of family_providers ''venice/'') = [''venice'']" by code_simp
  then show ?thesis
    using substitution_refused [OF a h _ b f p] b by (simp add: sample_candidate_def)
qed

end
