(* ===== verification/Transition.thy ===== *)
theory Transition
  imports Main
begin

text \<open>
  State machines shared by the stateful components: reachability under a step relation, and
  the interface every component provides for it, an invariant that holds at the start and is
  kept by every step.
\<close>

inductive reachable :: "('s \<Rightarrow> bool) \<Rightarrow> ('s \<Rightarrow> 's \<Rightarrow> bool) \<Rightarrow> 's \<Rightarrow> bool"
  for start :: "'s \<Rightarrow> bool" and step :: "'s \<Rightarrow> 's \<Rightarrow> bool" where
  reach_start: "start s \<Longrightarrow> reachable start step s"
| reach_step: "reachable start step s \<Longrightarrow> step s t \<Longrightarrow> reachable start step t"

lemma reach_one: "start s \<Longrightarrow> step s t \<Longrightarrow> reachable start step t"
  by (rule reach_step [OF reach_start])

locale invariant_system =
  fixes start :: "'s \<Rightarrow> bool"
    and step :: "'s \<Rightarrow> 's \<Rightarrow> bool"
    and inv :: "'s \<Rightarrow> bool"
  assumes inv_start: "start s \<Longrightarrow> inv s"
    and inv_step: "inv s \<Longrightarrow> step s t \<Longrightarrow> inv t"
begin

lemma inv_reachable: "reachable start step s \<Longrightarrow> inv s"
  by (induction rule: reachable.induct) (auto intro: inv_start inv_step)

lemma inv_star: "step\<^sup>*\<^sup>* s t \<Longrightarrow> inv s \<Longrightarrow> inv t"
  by (induction rule: rtranclp_induct) (auto intro: inv_step)

end

text \<open>A machine whose steps are the application of a list of events.\<close>

locale event_system = invariant_system start step inv
  for start :: "'s \<Rightarrow> bool" and step :: "'s \<Rightarrow> 's \<Rightarrow> bool" and inv +
  fixes apply_event :: "'e \<Rightarrow> 's \<Rightarrow> 's"
  assumes event_is_step: "step s (apply_event e s) \<or> apply_event e s = s"
begin

lemma inv_event: "inv s \<Longrightarrow> inv (apply_event e s)"
  using event_is_step [of s e] inv_step by metis

lemma inv_run: "inv s \<Longrightarrow> inv (fold apply_event es s)"
  by (induction es arbitrary: s) (auto intro: inv_event)

lemma run_reachable: "reachable start step s \<Longrightarrow> reachable start step (fold apply_event es s)"
proof (induction es arbitrary: s)
  case Nil
  then show ?case by simp
next
  case (Cons e es)
  have "reachable start step (apply_event e s)"
    using Cons.prems event_is_step [of s e] by (metis reach_step)
  then show ?case using Cons.IH by simp
qed

end

end
