(* ===== verification/SettleQueue.thy ===== *)
theory SettleQueue
  imports Transition
begin

text \<open>
  The settlement retry queue of \<open>enclave/src/settleQueue.mjs\<close>. A queued settle is a mutable
  object that the queue, and the callback of a post in flight, both hold: an item keeps its
  identity (a number) in a store, and the queue is the list of identities. The clock, the
  outcome of a post and the order in which callbacks run are the environment's.

  The log holds what the queue reports: \<open>SqLost\<close> is a call of \<open>onPermanentFailure\<close>,
  \<open>SqAcked\<close> a settle that horse-power acknowledged.
\<close>

datatype settle_outcome = SettleOk | SettlePermanent | SettleTransient

definition classify_settle_status :: "int \<Rightarrow> settle_outcome" where
  "classify_settle_status status =
     (if 200 \<le> status \<and> status < 300 then SettleOk
      else if status = 400 \<or> status = 401 then SettlePermanent
      else SettleTransient)"

definition backoff_ms :: "nat \<Rightarrow> nat \<Rightarrow> nat \<Rightarrow> nat" where
  "backoff_ms attempts base limit = min limit (base * 2 ^ attempts)"

definition default_backoff :: "nat \<Rightarrow> nat" where
  "default_backoff attempts = backoff_ms attempts 1000 120000"

record 'm sq_item =
  it_meta :: 'm
  it_attempts :: nat
  it_next_at :: nat
  it_in_flight :: bool

datatype loss_reason = LossPermanent | LossGaveUp | LossDropped

text \<open>The identity in an event is \<open>None\<close> for a settle that was never queued; the meta is
  \<open>None\<close> where the code passes \<open>undefined\<close>.\<close>

datatype 'm sq_event =
    SqLost "nat option" "'m option" loss_reason
  | SqAcked "nat option" 'm

record 'm sq_state =
  sq_store :: "nat \<Rightarrow> 'm sq_item option"
  sq_queue :: "nat list"
  sq_fresh :: nat
  sq_log :: "'m sq_event list"
  sq_posting :: "nat list"

record sq_config =
  sq_max_attempts :: nat
  sq_cap :: nat

definition sq_init :: "'m sq_state" where
  "sq_init = \<lparr>sq_store = Map.empty, sq_queue = [], sq_fresh = 0, sq_log = [], sq_posting = []\<rparr>"

subsection \<open>Operations\<close>

definition sq_remove :: "nat \<Rightarrow> 'm sq_state \<Rightarrow> 'm sq_state" where
  "sq_remove i s = s\<lparr>sq_queue := remove1 i (sq_queue s)\<rparr>"

definition sq_lose :: "nat option \<Rightarrow> 'm option \<Rightarrow> loss_reason \<Rightarrow> 'm sq_state \<Rightarrow> 'm sq_state" where
  "sq_lose i m r s = s\<lparr>sq_log := sq_log s @ [SqLost i m r]\<rparr>"

definition sq_ack :: "nat option \<Rightarrow> 'm \<Rightarrow> 'm sq_state \<Rightarrow> 'm sq_state" where
  "sq_ack i m s = s\<lparr>sq_log := sq_log s @ [SqAcked i m]\<rparr>"

text \<open>\<open>queue.shift()\<close> and the report of what it dropped.\<close>

definition sq_drop_oldest :: "'m sq_state \<Rightarrow> 'm sq_state" where
  "sq_drop_oldest s =
     (case sq_queue s of
        [] \<Rightarrow> sq_lose None None LossDropped s
      | i # rest \<Rightarrow>
          sq_lose (Some i) (map_option it_meta (sq_store s i)) LossDropped (s\<lparr>sq_queue := rest\<rparr>))"

definition sq_push :: "nat \<Rightarrow> 'm \<Rightarrow> nat \<Rightarrow> 'm sq_state \<Rightarrow> 'm sq_state" where
  "sq_push now m attempts s =
     s\<lparr>sq_store := (sq_store s)(sq_fresh s \<mapsto>
          \<lparr>it_meta = m, it_attempts = attempts, it_next_at = now + default_backoff attempts,
           it_in_flight = False\<rparr>),
       sq_queue := sq_queue s @ [sq_fresh s],
       sq_fresh := Suc (sq_fresh s)\<rparr>"

definition sq_enqueue :: "sq_config \<Rightarrow> nat \<Rightarrow> 'm \<Rightarrow> nat \<Rightarrow> 'm sq_state \<Rightarrow> 'm sq_state" where
  "sq_enqueue cfg now m attempts s =
     sq_push now m attempts (if sq_cap cfg \<le> length (sq_queue s) then sq_drop_oldest s else s)"

text \<open>\<open>submit\<close>: what the callback of the first post does with its outcome.\<close>

fun sq_submit_done :: "sq_config \<Rightarrow> nat \<Rightarrow> 'm \<Rightarrow> settle_outcome \<Rightarrow> 'm sq_state \<Rightarrow> 'm sq_state" where
  "sq_submit_done cfg now m SettleTransient s = sq_enqueue cfg now m 1 s"
| "sq_submit_done cfg now m SettlePermanent s = sq_lose None (Some m) LossPermanent s"
| "sq_submit_done cfg now m SettleOk s = sq_ack None m s"

definition sq_due :: "nat \<Rightarrow> 'm sq_state \<Rightarrow> nat \<Rightarrow> bool" where
  "sq_due t s i =
     (case sq_store s i of
        None \<Rightarrow> False
      | Some it \<Rightarrow> \<not> (it_in_flight it \<or> t < it_next_at it))"

definition sq_mark :: "nat \<Rightarrow> 'm sq_state \<Rightarrow> 'm sq_state" where
  "sq_mark i s =
     (case sq_store s i of
        None \<Rightarrow> s
      | Some it \<Rightarrow> s\<lparr>sq_store := (sq_store s)(i \<mapsto> it\<lparr>it_in_flight := True\<rparr>),
                     sq_posting := i # sq_posting s\<rparr>)"

text \<open>\<open>drainTick\<close>: one pass over a copy of the queue; the posts it starts are \<open>sq_posting\<close>.\<close>

definition sq_drain_tick :: "nat \<Rightarrow> 'm sq_state \<Rightarrow> 'm sq_state" where
  "sq_drain_tick t s = fold (\<lambda>i u. if sq_due t u i then sq_mark i u else u) (sq_queue s) s"

text \<open>The callback of a post that \<open>drainTick\<close> started, run at time \<open>now\<close>.\<close>

definition sq_drain_done ::
    "sq_config \<Rightarrow> nat \<Rightarrow> nat \<Rightarrow> settle_outcome \<Rightarrow> 'm sq_state \<Rightarrow> 'm sq_state" where
  "sq_drain_done cfg now i outcome s =
     (case sq_store s i of
        None \<Rightarrow> s
      | Some it \<Rightarrow>
          let it1 = it\<lparr>it_in_flight := False\<rparr>;
              s1 = s\<lparr>sq_store := (sq_store s)(i \<mapsto> it1), sq_posting := remove1 i (sq_posting s)\<rparr>
          in case outcome of
               SettleOk \<Rightarrow> sq_ack (Some i) (it_meta it) (sq_remove i s1)
             | SettlePermanent \<Rightarrow>
                 sq_remove i (sq_lose (Some i) (Some (it_meta it)) LossPermanent s1)
             | SettleTransient \<Rightarrow>
                 let n = Suc (it_attempts it);
                     s2 = s1\<lparr>sq_store := (sq_store s1)(i \<mapsto> it1\<lparr>it_attempts := n\<rparr>)\<rparr>
                 in if sq_max_attempts cfg < n
                    then sq_lose (Some i) (Some (it_meta it)) LossGaveUp (sq_remove i s2)
                    else s2\<lparr>sq_store := (sq_store s2)(i \<mapsto>
                              it1\<lparr>it_attempts := n, it_next_at := now + default_backoff n\<rparr>)\<rparr>)"

text \<open>Every interleaving: a first post resolves, the timer fires, a retry resolves.\<close>

inductive sq_step :: "sq_config \<Rightarrow> 'm sq_state \<Rightarrow> 'm sq_state \<Rightarrow> bool" for cfg :: sq_config where
  step_submit: "sq_step cfg s (sq_submit_done cfg now m outcome s)"
| step_tick: "sq_step cfg s (sq_drain_tick now s)"
| step_done: "i \<in> set (sq_posting s) \<Longrightarrow> sq_step cfg s (sq_drain_done cfg now i outcome s)"

subsection \<open>One pass of the timer\<close>

lemma sq_mark_fields [simp]:
  "sq_queue (sq_mark i s) = sq_queue s" "sq_fresh (sq_mark i s) = sq_fresh s"
  "sq_log (sq_mark i s) = sq_log s"
  by (simp_all add: sq_mark_def split: option.splits)

lemma sq_due_mark_other: "i \<noteq> j \<Longrightarrow> sq_due t (sq_mark i s) j = sq_due t s j"
  by (auto simp: sq_due_def sq_mark_def split: option.splits)

lemma sq_due_mark_same [simp]: "\<not> sq_due t (sq_mark i s) i"
  by (auto simp: sq_due_def sq_mark_def split: option.splits)

lemma sq_mark_due:
  "sq_due t s i \<Longrightarrow> \<exists>it. sq_store s i = Some it \<and> \<not> it_in_flight it
     \<and> sq_mark i s = s\<lparr>sq_store := (sq_store s)(i \<mapsto> it\<lparr>it_in_flight := True\<rparr>),
                       sq_posting := i # sq_posting s\<rparr>"
  by (auto simp: sq_due_def sq_mark_def split: option.splits)

definition marked :: "'m sq_item option \<Rightarrow> 'm sq_item option" where
  "marked x = map_option (\<lambda>it. it\<lparr>it_in_flight := True\<rparr>) x"

lemma drain_fold:
  "distinct is \<Longrightarrow>
     (let u = fold (\<lambda>i u. if sq_due t u i then sq_mark i u else u) is s
      in sq_queue u = sq_queue s \<and> sq_fresh u = sq_fresh s \<and> sq_log u = sq_log s
       \<and> sq_posting u = rev (filter (sq_due t s) is) @ sq_posting s
       \<and> sq_store u = (\<lambda>j. if j \<in> set is \<and> sq_due t s j then marked (sq_store s j) else sq_store s j))"
proof (induction "is" arbitrary: s)
  case Nil
  then show ?case by simp
next
  case (Cons i "is")
  let ?s = "if sq_due t s i then sq_mark i s else s"
  have due: "sq_due t ?s j = sq_due t s j" if "j \<in> set is" for j
    using Cons.prems that sq_due_mark_other [of i j t s] by auto
  have f: "filter (sq_due t ?s) is = filter (sq_due t s) is"
    by (rule filter_cong [OF refl due])
  show ?case
  proof (cases "sq_due t s i")
    case True
    then obtain it where it: "sq_store s i = Some it"
      "sq_mark i s = s\<lparr>sq_store := (sq_store s)(i \<mapsto> it\<lparr>it_in_flight := True\<rparr>),
                       sq_posting := i # sq_posting s\<rparr>"
      using sq_mark_due by blast
    show ?thesis
      using Cons.IH [of ?s] Cons.prems due f True it
      by (auto simp: Let_def marked_def fun_eq_iff)
  next
    case False
    then show ?thesis using Cons.IH [of s] Cons.prems by (auto simp: Let_def fun_eq_iff)
  qed
qed

lemma drain_tick_fields:
  assumes "distinct (sq_queue s)"
  shows "sq_queue (sq_drain_tick t s) = sq_queue s"
    and "sq_fresh (sq_drain_tick t s) = sq_fresh s"
    and "sq_log (sq_drain_tick t s) = sq_log s"
    and "sq_posting (sq_drain_tick t s) = rev (filter (sq_due t s) (sq_queue s)) @ sq_posting s"
    and "sq_store (sq_drain_tick t s) =
           (\<lambda>j. if j \<in> set (sq_queue s) \<and> sq_due t s j then marked (sq_store s j) else sq_store s j)"
  using drain_fold [OF assms, of t s] by (simp_all add: sq_drain_tick_def Let_def)

subsection \<open>The invariant\<close>

definition reported :: "nat \<Rightarrow> 'm sq_event \<Rightarrow> bool" where
  "reported i e = (case e of SqLost j _ _ \<Rightarrow> j = Some i | SqAcked j _ \<Rightarrow> j = Some i)"

definition sq_inv :: "sq_config \<Rightarrow> 'm sq_state \<Rightarrow> bool" where
  "sq_inv cfg s \<longleftrightarrow>
     distinct (sq_queue s)
   \<and> (\<forall>i. sq_store s i \<noteq> None \<longleftrightarrow> i < sq_fresh s)
   \<and> set (sq_queue s) \<subseteq> {i. i < sq_fresh s}
   \<and> distinct (sq_posting s)
   \<and> (\<forall>i. i \<in> set (sq_posting s) \<longleftrightarrow> (\<exists>it. sq_store s i = Some it \<and> it_in_flight it))
   \<and> length (sq_queue s) \<le> max 1 (sq_cap cfg)
   \<and> (\<forall>i it. i \<in> set (sq_queue s) \<and> sq_store s i = Some it \<longrightarrow>
        1 \<le> it_attempts it \<and> it_attempts it \<le> max 1 (sq_max_attempts cfg))
   \<and> (\<forall>i < sq_fresh s. i \<in> set (sq_queue s) \<or> (\<exists>e \<in> set (sq_log s). reported i e))
   \<and> (\<forall>e \<in> set (sq_log s). \<forall>i. reported i e \<longrightarrow> i < sq_fresh s \<and> i \<notin> set (sq_queue s))"

lemma reported_simps [simp]:
  "reported i (SqLost j m r) \<longleftrightarrow> j = Some i" "reported i (SqAcked j m') \<longleftrightarrow> j = Some i"
  by (simp_all add: reported_def)

lemma sq_invI:
  assumes "distinct (sq_queue s)"
    and "\<And>i. sq_store s i \<noteq> None \<longleftrightarrow> i < sq_fresh s"
    and "\<And>i. i \<in> set (sq_queue s) \<Longrightarrow> i < sq_fresh s"
    and "distinct (sq_posting s)"
    and "\<And>i. i \<in> set (sq_posting s) \<longleftrightarrow> (\<exists>it. sq_store s i = Some it \<and> it_in_flight it)"
    and "length (sq_queue s) \<le> max 1 (sq_cap cfg)"
    and "\<And>i it. i \<in> set (sq_queue s) \<Longrightarrow> sq_store s i = Some it \<Longrightarrow>
           1 \<le> it_attempts it \<and> it_attempts it \<le> max 1 (sq_max_attempts cfg)"
    and "\<And>i. i < sq_fresh s \<Longrightarrow> i \<in> set (sq_queue s) \<or> (\<exists>e \<in> set (sq_log s). reported i e)"
    and "\<And>e i. e \<in> set (sq_log s) \<Longrightarrow> reported i e \<Longrightarrow> i < sq_fresh s \<and> i \<notin> set (sq_queue s)"
  shows "sq_inv cfg s"
  unfolding sq_inv_def using assms by blast

lemma sq_invD:
  assumes "sq_inv cfg s"
  shows "distinct (sq_queue s)"
    and "sq_store s i \<noteq> None \<longleftrightarrow> i < sq_fresh s"
    and "i \<in> set (sq_queue s) \<Longrightarrow> i < sq_fresh s"
    and "distinct (sq_posting s)"
    and "i \<in> set (sq_posting s) \<longleftrightarrow> (\<exists>it. sq_store s i = Some it \<and> it_in_flight it)"
    and "length (sq_queue s) \<le> max 1 (sq_cap cfg)"
    and "i \<in> set (sq_queue s) \<Longrightarrow> sq_store s i = Some it \<Longrightarrow>
           1 \<le> it_attempts it \<and> it_attempts it \<le> max 1 (sq_max_attempts cfg)"
    and "i < sq_fresh s \<Longrightarrow> i \<in> set (sq_queue s) \<or> (\<exists>e \<in> set (sq_log s). reported i e)"
    and "e \<in> set (sq_log s) \<Longrightarrow> reported i e \<Longrightarrow> i < sq_fresh s \<and> i \<notin> set (sq_queue s)"
  using assms unfolding sq_inv_def by blast+

lemma sq_inv_lose_None: "sq_inv cfg s \<Longrightarrow> sq_inv cfg (sq_lose None m r s)"
  by (auto simp: sq_inv_def sq_lose_def)

lemma sq_inv_ack_None: "sq_inv cfg s \<Longrightarrow> sq_inv cfg (sq_ack None m s)"
  by (auto simp: sq_inv_def sq_ack_def)

lemma sq_inv_drop: "sq_inv cfg s \<Longrightarrow> sq_inv cfg (sq_drop_oldest s)"
  by (cases "sq_queue s") (auto simp: sq_inv_def sq_drop_oldest_def sq_lose_def)

lemma sq_drop_length: "length (sq_queue (sq_drop_oldest s)) = length (sq_queue s) - 1"
  by (cases "sq_queue s") (auto simp: sq_drop_oldest_def sq_lose_def)

lemma sq_inv_push:
  assumes "sq_inv cfg s" and "length (sq_queue s) < max 1 (sq_cap cfg)"
  shows "sq_inv cfg (sq_push now m 1 s)"
proof -
  have "sq_fresh s \<notin> set (sq_queue s)" "sq_fresh s \<notin> set (sq_posting s)"
    using assms(1) by (auto simp: sq_inv_def)
  then show ?thesis
    using assms by (auto simp: sq_inv_def sq_push_def less_Suc_eq)
qed

lemma sq_inv_enqueue: "sq_inv cfg s \<Longrightarrow> sq_inv cfg (sq_enqueue cfg now m 1 s)"
proof -
  assume inv: "sq_inv cfg s"
  then have len: "length (sq_queue s) \<le> max 1 (sq_cap cfg)" by (simp add: sq_inv_def)
  show "sq_inv cfg (sq_enqueue cfg now m 1 s)"
  proof (cases "sq_cap cfg \<le> length (sq_queue s)")
    case True
    have "length (sq_queue (sq_drop_oldest s)) < max 1 (sq_cap cfg)"
      using len by (simp add: sq_drop_length)
    with True sq_inv_push [OF sq_inv_drop [OF inv]] show ?thesis by (simp add: sq_enqueue_def)
  next
    case False
    then have "length (sq_queue s) < max 1 (sq_cap cfg)" by simp
    with False sq_inv_push [OF inv] show ?thesis by (simp add: sq_enqueue_def)
  qed
qed

lemma sq_inv_tick:
  assumes inv: "sq_inv cfg s"
  shows "sq_inv cfg (sq_drain_tick t s)"
proof -
  note d = sq_invD [OF inv]
  note f = drain_tick_fields [OF d(1)]
  have due: "sq_due t s i \<Longrightarrow> \<exists>it. sq_store s i = Some it \<and> \<not> it_in_flight it" for i
    by (auto simp: sq_due_def split: option.splits)
  have post: "i \<in> set (sq_posting (sq_drain_tick t s)) \<longleftrightarrow>
      (\<exists>it. sq_store (sq_drain_tick t s) i = Some it \<and> it_in_flight it)" for i
    using d(5) [of i] due [of i] by (auto simp: f marked_def)
  have "distinct (rev (filter (sq_due t s) (sq_queue s)) @ sq_posting s)"
    using d(1,4) d(5) due by fastforce
  moreover have "sq_store (sq_drain_tick t s) i \<noteq> None \<longleftrightarrow> i < sq_fresh s" for i
    using d(2) [of i] by (auto simp: f marked_def)
  moreover have "1 \<le> it_attempts it \<and> it_attempts it \<le> max 1 (sq_max_attempts cfg)"
    if i: "i \<in> set (sq_queue s)" and st: "sq_store (sq_drain_tick t s) i = Some it" for i it
  proof -
    obtain it0 where "sq_store s i = Some it0" "it_attempts it0 = it_attempts it"
      using st by (auto simp: f marked_def split: if_splits)
    then show ?thesis using d(7) [OF i] by metis
  qed
  ultimately show ?thesis
    by (intro sq_invI) (use d(1,3,6,8,9) post in \<open>simp_all only: f(1-4) simp_thms\<close>)
qed

text \<open>The callback of a retry: the item leaves the posts in flight, and it stays queued only
  after a transient failure that leaves attempts to spare.\<close>

lemma sq_drain_done_cases:
  assumes "sq_store s i = Some it"
  shows "sq_drain_done cfg now i outcome s =
    (case outcome of
       SettleOk \<Rightarrow>
         s\<lparr>sq_store := (sq_store s)(i \<mapsto> it\<lparr>it_in_flight := False\<rparr>),
           sq_posting := remove1 i (sq_posting s), sq_queue := remove1 i (sq_queue s),
           sq_log := sq_log s @ [SqAcked (Some i) (it_meta it)]\<rparr>
     | SettlePermanent \<Rightarrow>
         s\<lparr>sq_store := (sq_store s)(i \<mapsto> it\<lparr>it_in_flight := False\<rparr>),
           sq_posting := remove1 i (sq_posting s), sq_queue := remove1 i (sq_queue s),
           sq_log := sq_log s @ [SqLost (Some i) (Some (it_meta it)) LossPermanent]\<rparr>
     | SettleTransient \<Rightarrow>
         if it_attempts it < sq_max_attempts cfg
         then s\<lparr>sq_store := (sq_store s)(i \<mapsto>
                  it\<lparr>it_in_flight := False, it_attempts := Suc (it_attempts it),
                     it_next_at := now + default_backoff (Suc (it_attempts it))\<rparr>),
                sq_posting := remove1 i (sq_posting s)\<rparr>
         else s\<lparr>sq_store := (sq_store s)(i \<mapsto>
                  it\<lparr>it_in_flight := False, it_attempts := Suc (it_attempts it)\<rparr>),
                sq_posting := remove1 i (sq_posting s), sq_queue := remove1 i (sq_queue s),
                sq_log := sq_log s @ [SqLost (Some i) (Some (it_meta it)) LossGaveUp]\<rparr>)"
  using assms
  by (auto simp: sq_drain_done_def sq_ack_def sq_lose_def sq_remove_def Let_def
      split: settle_outcome.splits)

lemma sq_inv_remove_report:
  assumes "sq_inv cfg s" and "sq_store s i = Some it" and "i \<in> set (sq_posting s)"
    and "\<not> it_in_flight it'" and "reported i e" and "\<And>j. reported j e \<Longrightarrow> j = i"
  shows "sq_inv cfg (s\<lparr>sq_store := (sq_store s)(i \<mapsto> it'),
           sq_posting := remove1 i (sq_posting s), sq_queue := remove1 i (sq_queue s),
           sq_log := sq_log s @ [e]\<rparr>)"
proof -
  note d = sq_invD [OF assms(1)]
  let ?t = "s\<lparr>sq_store := (sq_store s)(i \<mapsto> it'),
           sq_posting := remove1 i (sq_posting s), sq_queue := remove1 i (sq_queue s),
           sq_log := sq_log s @ [e]\<rparr>"
  have q: "j \<in> set (remove1 i (sq_queue s)) \<longleftrightarrow> j \<in> set (sq_queue s) \<and> j \<noteq> i"
    and p: "j \<in> set (remove1 i (sq_posting s)) \<longleftrightarrow> j \<in> set (sq_posting s) \<and> j \<noteq> i" for j
    using d(1,4) by auto
  have i: "i < sq_fresh s" using assms(2) d(2) [of i] by simp
  show ?thesis
  proof (rule sq_invI)
    show "j \<in> set (sq_posting ?t) \<longleftrightarrow> (\<exists>it. sq_store ?t j = Some it \<and> it_in_flight it)" for j
      using d(5) [of j] assms(4) by (simp add: p)
    show "length (sq_queue ?t) \<le> max 1 (sq_cap cfg)"
      using d(6) length_remove1 [of i "sq_queue s"] by (auto split: if_splits)
    show "j \<in> set (sq_queue ?t) \<Longrightarrow> sq_store ?t j = Some x \<Longrightarrow>
        1 \<le> it_attempts x \<and> it_attempts x \<le> max 1 (sq_max_attempts cfg)" for j x
      using d(7) [of j x] by (simp add: q)
    show "j < sq_fresh ?t \<Longrightarrow> j \<in> set (sq_queue ?t) \<or> (\<exists>e \<in> set (sq_log ?t). reported j e)" for j
      using d(8) [of j] assms(5) by (auto simp: q)
    show "x \<in> set (sq_log ?t) \<Longrightarrow> reported j x \<Longrightarrow> j < sq_fresh ?t \<and> j \<notin> set (sq_queue ?t)" for x j
      using d(9) [of x j] assms(6) [of j] i by (auto simp: q)
  qed (use d(1,2,3,4) i in \<open>auto simp: q\<close>)
qed

lemma sq_inv_done:
  assumes inv: "sq_inv cfg s" and i: "i \<in> set (sq_posting s)"
  shows "sq_inv cfg (sq_drain_done cfg now i outcome s)"
proof -
  obtain it where it: "sq_store s i = Some it"
    using inv i by (auto simp: sq_inv_def)
  note rr = sq_inv_remove_report [OF inv it i]
  show ?thesis
  proof (cases outcome)
    case SettleOk
    show ?thesis
      unfolding sq_drain_done_cases [OF it] SettleOk settle_outcome.case by (rule rr) simp_all
  next
    case SettlePermanent
    show ?thesis
      unfolding sq_drain_done_cases [OF it] SettlePermanent settle_outcome.case
      by (rule rr) simp_all
  next
    case SettleTransient
    show ?thesis
    proof (cases "it_attempts it < sq_max_attempts cfg")
      case True
      with SettleTransient inv it show ?thesis
        by (auto simp: sq_drain_done_cases [OF it] sq_inv_def)
    next
      case False
      show ?thesis
        unfolding sq_drain_done_cases [OF it] SettleTransient settle_outcome.case if_not_P [OF False]
        by (rule rr) simp_all
    qed
  qed
qed

lemma sq_inv_submit: "sq_inv cfg s \<Longrightarrow> sq_inv cfg (sq_submit_done cfg now m outcome s)"
  by (cases outcome)
    (simp_all add: sq_inv_enqueue sq_inv_lose_None sq_inv_ack_None del: One_nat_def)

lemma sq_inv_init: "sq_inv cfg sq_init"
  by (simp add: sq_inv_def sq_init_def)

interpretation sq: invariant_system "\<lambda>s. s = sq_init" "sq_step cfg" "sq_inv cfg" for cfg
proof
  show "sq_inv cfg s" if "s = sq_init" for s
    using that by (simp add: sq_inv_init)
  show "sq_inv cfg t" if "sq_inv cfg s" "sq_step cfg s t" for s t
    using that(2,1) by cases (auto intro: sq_inv_submit sq_inv_tick sq_inv_done)
qed

subsection \<open>The retry delay\<close>

text \<open>What the queue relies on in a delay policy.\<close>

locale delay_policy =
  fixes delay :: "nat \<Rightarrow> nat" and limit :: nat
  assumes delay_le: "delay n \<le> limit"
    and delay_mono: "m \<le> n \<Longrightarrow> delay m \<le> delay n"
    and delay_pos: "0 < delay n"
begin

lemma delay_total: "n * delay 0 \<le> sum_list (map delay [0 ..< n]) \<and> sum_list (map delay [0 ..< n]) \<le> n * limit"
proof (induction n)
  case 0
  then show ?case by simp
next
  case (Suc n)
  then show ?case using delay_le [of n] delay_mono [of 0 n] by simp
qed

end

interpretation settle_delay: delay_policy default_backoff 120000
proof
  show "default_backoff n \<le> 120000" for n by (simp add: default_backoff_def backoff_ms_def)
  show "default_backoff m \<le> default_backoff n" if "m \<le> n" for m n
    unfolding default_backoff_def backoff_ms_def
    using that by (intro min.mono mult_le_mono power_increasing) auto
  show "0 < default_backoff n" for n by (simp add: default_backoff_def backoff_ms_def)
qed

subsection \<open>Properties\<close>

text \<open>In every reachable state of the settle queue, whatever the interleaving of first
  posts, timer passes and retry callbacks: no item is queued twice, no item has two posts in
  flight at once, at most \<open>cap\<close> items are held (one when the cap is 0), and a queued item has
  been tried between once and \<open>maxAttempts\<close> times.\<close>

theorem settle_queue_bounded:
  assumes "reachable (\<lambda>s. s = sq_init) (sq_step cfg) s"
  shows "distinct (sq_queue s) \<and> distinct (sq_posting s)
       \<and> length (sq_queue s) \<le> max 1 (sq_cap cfg)
       \<and> (\<forall>i \<in> set (sq_queue s). \<exists>it. sq_store s i = Some it \<and> 1 \<le> it_attempts it
             \<and> it_attempts it \<le> max 1 (sq_max_attempts cfg))"
proof -
  have inv: "sq_inv cfg s" using assms by (rule sq.inv_reachable)
  have "\<exists>it. sq_store s i = Some it \<and> 1 \<le> it_attempts it
      \<and> it_attempts it \<le> max 1 (sq_max_attempts cfg)" if i: "i \<in> set (sq_queue s)" for i
  proof -
    obtain it where "sq_store s i = Some it"
      using sq_invD(2,3) [OF inv, of i] i by auto
    with sq_invD(7) [OF inv i] show ?thesis by blast
  qed
  then show ?thesis using sq_invD(1,4,6) [OF inv] by blast
qed

definition sample_cfg :: sq_config where
  "sample_cfg = \<lparr>sq_max_attempts = 2, sq_cap = 1\<rparr>"

definition sample_one :: "nat sq_state" where
  "sample_one = sq_submit_done sample_cfg 0 7 SettleTransient sq_init"

definition sample_two :: "nat sq_state" where
  "sample_two = sq_submit_done sample_cfg 5000 8 SettleTransient (sq_drain_tick 4000 sample_one)"

lemmas sq_defs = sq_init_def sq_enqueue_def sq_push_def sq_drop_oldest_def sq_lose_def sq_ack_def
  sq_remove_def sq_mark_def sq_due_def default_backoff_def backoff_ms_def sample_cfg_def

lemma sample_one_eq:
  "sample_one = \<lparr>sq_store = [0 \<mapsto> \<lparr>it_meta = 7, it_attempts = 1, it_next_at = 2000,
       it_in_flight = False\<rparr>], sq_queue = [0], sq_fresh = 1, sq_log = [], sq_posting = []\<rparr>"
  by (simp add: sample_one_def sq_defs)

lemma sample_tick_eq:
  "sq_drain_tick 4000 sample_one = \<lparr>sq_store = [0 \<mapsto> \<lparr>it_meta = 7, it_attempts = 1,
       it_next_at = 2000, it_in_flight = True\<rparr>], sq_queue = [0], sq_fresh = 1, sq_log = [],
     sq_posting = [0]\<rparr>"
  by (simp add: sample_one_eq sq_drain_tick_def sq_defs)

lemma sample_two_eq:
  "sample_two = \<lparr>sq_store = [0 \<mapsto> \<lparr>it_meta = 7, it_attempts = 1, it_next_at = 2000,
       it_in_flight = True\<rparr>, 1 \<mapsto> \<lparr>it_meta = 8, it_attempts = 1, it_next_at = 7000,
       it_in_flight = False\<rparr>], sq_queue = [1], sq_fresh = 2,
     sq_log = [SqLost (Some 0) (Some 7) LossDropped], sq_posting = [0]\<rparr>"
  by (simp add: sample_two_def sample_tick_eq sq_defs numeral_2_eq_2 fun_eq_iff)

lemma sample_one_reachable: "reachable (\<lambda>s. s = sq_init) (sq_step sample_cfg) sample_one"
proof -
  have "reachable (\<lambda>s. s = sq_init) (sq_step sample_cfg) (sq_init :: nat sq_state)"
    by (rule reach_start) (rule refl)
  then show ?thesis unfolding sample_one_def using step_submit by (rule reach_step)
qed

lemma sample_tick_reachable:
  "reachable (\<lambda>s. s = sq_init) (sq_step sample_cfg) (sq_drain_tick 4000 sample_one)"
  using sample_one_reachable step_tick by (rule reach_step)

lemma sample_two_reachable: "reachable (\<lambda>s. s = sq_init) (sq_step sample_cfg) sample_two"
  unfolding sample_two_def using sample_tick_reachable step_submit by (rule reach_step)

theorem settle_queue_bounded_witness:
  "sq_queue sample_two = [1] \<and> length (sq_queue sample_two) \<le> max 1 (sq_cap sample_cfg)"
proof -
  have "sq_queue sample_two = [1]" by (simp add: sample_two_eq)
  with settle_queue_bounded [OF sample_two_reachable] show ?thesis by simp
qed

text \<open>C16: No settle disappears silently. In every reachable state each item that was ever
  queued is either still queued or has been reported, as acknowledged or as lost, and never
  both.\<close>

theorem settle_never_silent:
  assumes "reachable (\<lambda>s. s = sq_init) (sq_step cfg) s" and "i < sq_fresh s"
  shows "i \<in> set (sq_queue s) \<longleftrightarrow> \<not> (\<exists>e \<in> set (sq_log s). reported i e)"
proof -
  have inv: "sq_inv cfg s" using assms(1) by (rule sq.inv_reachable)
  show ?thesis using sq_invD(8,9) [OF inv] assms(2) by blast
qed

theorem settle_never_silent_witness:
  "0 < sq_fresh sample_two \<and> (\<exists>e \<in> set (sq_log sample_two). reported 0 e)"
proof -
  have h: "0 < sq_fresh sample_two" by (simp add: sample_two_eq)
  have "0 \<notin> set (sq_queue sample_two)" by (simp add: sample_two_eq)
  then show ?thesis using settle_never_silent [OF sample_two_reachable h] h by blast
qed

text \<open>A timer pass posts exactly the queued items that are due and not already in flight,
  changes nothing else, and a second pass at the same time posts nothing more.\<close>

theorem drain_tick_exact:
  assumes "distinct (sq_queue s)"
  shows "sq_posting (sq_drain_tick t s) = rev (filter (sq_due t s) (sq_queue s)) @ sq_posting s
       \<and> sq_queue (sq_drain_tick t s) = sq_queue s \<and> sq_log (sq_drain_tick t s) = sq_log s
       \<and> sq_drain_tick t (sq_drain_tick t s) = sq_drain_tick t s"
proof -
  note f = drain_tick_fields [OF assms, of t]
  let ?u = "sq_drain_tick t s"
  have d: "distinct (sq_queue ?u)" using assms f(1) by simp
  have no: "\<not> sq_due t ?u i" if "i \<in> set (sq_queue s)" for i
    using that by (auto simp: sq_due_def f marked_def split: option.splits)
  have "filter (sq_due t ?u) (sq_queue ?u) = []"
    using no f(1) by (auto simp: filter_empty_conv)
  moreover have "sq_store (sq_drain_tick t ?u) = sq_store ?u"
    using no f(1) by (auto simp: drain_tick_fields(5) [OF d] fun_eq_iff)
  ultimately have "sq_drain_tick t ?u = ?u"
    using drain_tick_fields(1-4) [OF d, of t] by (auto intro: sq_state.equality)
  with f show ?thesis by blast
qed

theorem drain_tick_exact_witness:
  "sq_posting (sq_drain_tick 4000 sample_one) = [0]"
proof -
  have h: "distinct (sq_queue sample_one)" by (simp add: sample_one_eq)
  have "rev (filter (sq_due 4000 sample_one) (sq_queue sample_one)) @ sq_posting sample_one = [0]"
    by (simp add: sample_one_eq sq_due_def)
  then show ?thesis using drain_tick_exact [OF h, of 4000] by simp
qed

text \<open>The outcome of a retry decides the item's fate on every branch. An acknowledged
  settle leaves the queue, a permanent failure leaves it with a loss report, and a transient
  failure either counts one more attempt and reschedules the item within the two-minute cap or,
  on the last attempt, drops it with a report that it gave up.\<close>

theorem retry_outcome:
  assumes "reachable (\<lambda>s. s = sq_init) (sq_step cfg) s" and "i \<in> set (sq_posting s)"
    and "sq_store s i = Some it"
  shows "i \<notin> set (sq_posting (sq_drain_done cfg now i outcome s))
   \<and> (outcome \<noteq> SettleTransient \<or> sq_max_attempts cfg \<le> it_attempts it \<longrightarrow>
        i \<notin> set (sq_queue (sq_drain_done cfg now i outcome s))
        \<and> sq_log (sq_drain_done cfg now i outcome s) = sq_log s @
            [case outcome of
               SettleOk \<Rightarrow> SqAcked (Some i) (it_meta it)
             | SettlePermanent \<Rightarrow> SqLost (Some i) (Some (it_meta it)) LossPermanent
             | SettleTransient \<Rightarrow> SqLost (Some i) (Some (it_meta it)) LossGaveUp])
   \<and> (outcome = SettleTransient \<and> it_attempts it < sq_max_attempts cfg \<longrightarrow>
        sq_queue (sq_drain_done cfg now i outcome s) = sq_queue s
        \<and> sq_log (sq_drain_done cfg now i outcome s) = sq_log s
        \<and> (\<exists>it'. sq_store (sq_drain_done cfg now i outcome s) i = Some it'
             \<and> it_attempts it' = Suc (it_attempts it)
             \<and> now < it_next_at it' \<and> it_next_at it' \<le> now + 120000))"
proof -
  have inv: "sq_inv cfg s" using assms(1) by (rule sq.inv_reachable)
  note d = sq_invD(1,4) [OF inv]
  show ?thesis
    using d settle_delay.delay_pos [of "Suc (it_attempts it)"]
      settle_delay.delay_le [of "Suc (it_attempts it)"]
    by (cases outcome) (auto simp: sq_drain_done_cases [OF assms(3)])
qed

theorem retry_outcome_witness:
  "0 \<notin> set (sq_queue (sq_drain_done sample_cfg 9000 0 SettleOk (sq_drain_tick 4000 sample_one)))"
proof -
  let ?s = "sq_drain_tick 4000 sample_one"
  have p: "0 \<in> set (sq_posting ?s)" by (simp add: sample_tick_eq)
  have "sq_store ?s 0 = Some \<lparr>it_meta = 7, it_attempts = 1, it_next_at = 2000, it_in_flight = True\<rparr>"
    by (simp add: sample_tick_eq)
  from retry_outcome [OF sample_tick_reachable p this, of 9000 SettleOk] show ?thesis by simp
qed

text \<open>The loss report is not exact when the queue overflows while a retry is in flight: the
  dropped item's post can still succeed, so the same settle is reported as lost revenue and is
  also billed. There is a reachable state with both reports for one item.\<close>

theorem dropped_yet_delivered:
  "\<exists>s :: nat sq_state. reachable (\<lambda>s. s = sq_init) (sq_step sample_cfg) s
     \<and> SqLost (Some 0) (Some 7) LossDropped \<in> set (sq_log s) \<and> SqAcked (Some 0) 7 \<in> set (sq_log s)"
proof -
  let ?t = "sq_drain_done sample_cfg 6000 0 SettleOk sample_two"
  have "0 \<in> set (sq_posting sample_two)" by (simp add: sample_two_eq)
  then have r: "reachable (\<lambda>s. s = sq_init) (sq_step sample_cfg) ?t"
    by (rule reach_step [OF sample_two_reachable step_done])
  have "sq_log ?t = [SqLost (Some 0) (Some 7) LossDropped, SqAcked (Some 0) 7]"
    by (simp add: sample_two_eq sq_drain_done_def sq_defs)
  then have "SqLost (Some 0) (Some 7) LossDropped \<in> set (sq_log ?t)"
    "SqAcked (Some 0) 7 \<in> set (sq_log ?t)" by simp_all
  with r show ?thesis by blast
qed

end
