(* ===== verification/BalanceBackoff.thy ===== *)
theory BalanceBackoff
  imports JsPrelude Transition
begin

text \<open>
  The enclave's memory of horse-power's balance backoff, \<open>enclave/src/balanceBackoff.mjs\<close>:
  which refusals are remembered, under which key and for how long. The \<open>Map\<close> is its list of
  entries in insertion order. SHA-256 is a parameter (\<open>sha\<close>); times are milliseconds.
\<close>

definition max_retry_after_seconds :: nat where "max_retry_after_seconds = 60"
definition balance_backoff_code :: string where "balance_backoff_code = ''balance_backoff''"
definition max_tracked_credentials :: nat where "max_tracked_credentials = 10000"

subsection \<open>The presented credential\<close>

definition is_blank :: "char \<Rightarrow> bool" where
  "is_blank c \<longleftrightarrow> c = CHR '' '' \<or> c = CHR 0x09"

definition is_line_end :: "char \<Rightarrow> bool" where
  "is_line_end c \<longleftrightarrow> c = CHR 0x0A \<or> c = CHR 0x0D"

text \<open>\<open>/^bearer[ \t]+(\S.*)$/i\<close>: the token after the scheme and its blanks.\<close>

definition bearer_token :: "string \<Rightarrow> string option" where
  "bearer_token s =
     (if lower (take 6 s) = ''bearer''
      then (let rest = drop 6 s; tok = dropWhile is_blank rest
            in if takeWhile is_blank rest \<noteq> [] \<and> tok \<noteq> [] \<and> \<not> is_space (hd tok)
                  \<and> \<not> list_ex is_line_end tok
               then Some tok else None)
      else None)"

definition nonempty_str :: "jsv \<Rightarrow> string option" where
  "nonempty_str v = (case v of JStr s \<Rightarrow> if s = [] then None else Some s | _ \<Rightarrow> None)"

definition first_some :: "'a option \<Rightarrow> 'a option \<Rightarrow> 'a option" where
  "first_some a b = (case a of None \<Rightarrow> b | Some _ \<Rightarrow> a)"

definition presented_credential :: "jsv \<Rightarrow> string option" where
  "presented_credential headers =
     (if \<not> typeof_object headers then None
      else first_some
             (case fld ''authorization'' headers of JStr s \<Rightarrow> bearer_token s | _ \<Rightarrow> None)
             (first_some (nonempty_str (fld ''x-credit-id'' headers))
                (nonempty_str (fld ''x-api-key'' headers))))"

definition presented_credential_key :: "(string \<Rightarrow> string) \<Rightarrow> jsv \<Rightarrow> string option" where
  "presented_credential_key sha headers = map_option sha (presented_credential headers)"

subsection \<open>The bounded wait\<close>

text \<open>\<open>/^\d{1,6}$/\<close> on the trimmed text, and the number it spells.\<close>

definition delta_seconds :: "string \<Rightarrow> jsv" where
  "delta_seconds raw =
     (let s = trim raw
      in if 1 \<le> length s \<and> length s \<le> 6 \<and> list_all is_digit s
         then jnat (digits_value s) else JNum NaN)"

definition usable_seconds :: "jsv \<Rightarrow> nat option" where
  "usable_seconds raw =
     (case (case raw of JStr s \<Rightarrow> delta_seconds s | _ \<Rightarrow> raw) of
        JNum (Fin q) \<Rightarrow> if 1 \<le> q then Some (min max_retry_after_seconds (nat \<lfloor>q\<rfloor>)) else None
      | _ \<Rightarrow> None)"

definition retry_after_seconds :: "jsv \<Rightarrow> jsv \<Rightarrow> nat option" where
  "retry_after_seconds header_value body_value =
     first_some (usable_seconds header_value) (usable_seconds body_value)"

definition is_balance_backoff_refusal :: "jsv \<Rightarrow> jsv \<Rightarrow> bool" where
  "is_balance_backoff_refusal status body \<longleftrightarrow>
     status = jint 429 \<and> typeof_object body \<and> fld ''code'' body = JStr balance_backoff_code"

subsection \<open>The held refusals\<close>

record held =
  held_until :: nat
  held_body :: jsv

type_synonym held_map = "(string \<times> held) list"

definition bb_sweep :: "nat \<Rightarrow> held_map \<Rightarrow> held_map" where
  "bb_sweep t m = filter (\<lambda>(k, v). \<not> held_until v \<le> t) m"

text \<open>The \<open>while\<close> loop that deletes the oldest entries.\<close>

fun bb_evict :: "nat \<Rightarrow> held_map \<Rightarrow> held_map" where
  "bb_evict mx [] = []"
| "bb_evict mx (e # m) = (if mx \<le> length (e # m) then bb_evict mx m else e # m)"

definition bb_make_room :: "string \<Rightarrow> nat \<Rightarrow> held_map \<Rightarrow> held_map" where
  "bb_make_room key t m =
     (if max_tracked_credentials \<le> length m \<and> map_of m key = None
      then bb_evict max_tracked_credentials (bb_sweep t m) else m)"

definition valid_seconds :: "jsv \<Rightarrow> bool" where
  "valid_seconds s \<longleftrightarrow> num_integer s \<and> 1 \<le> num_rat s \<and> num_rat s \<le> of_nat max_retry_after_seconds"

definition bb_remember :: "nat \<Rightarrow> jsv \<Rightarrow> jsv \<Rightarrow> jsv \<Rightarrow> held_map \<Rightarrow> bool \<times> held_map" where
  "bb_remember t key seconds body m =
     (case nonempty_str key of
        None \<Rightarrow> (False, m)
      | Some k \<Rightarrow>
          if \<not> valid_seconds seconds then (False, m)
          else (True, AList.update k
                  \<lparr>held_until = t + nat \<lfloor>num_rat seconds\<rfloor> * 1000, held_body = body\<rparr>
                  (bb_make_room k t m)))"

record local_answer =
  la_status :: nat
  la_body :: jsv
  la_seconds :: nat

definition bb_lookup :: "nat \<Rightarrow> jsv \<Rightarrow> held_map \<Rightarrow> local_answer option \<times> held_map" where
  "bb_lookup t key m =
     (case nonempty_str key of
        None \<Rightarrow> (None, m)
      | Some k \<Rightarrow>
          (case map_of m k of
             None \<Rightarrow> (None, m)
           | Some e \<Rightarrow>
               if held_until e \<le> t then (None, AList.delete k m)
               else (Some \<lparr>la_status = 429, la_body = held_body e,
                        la_seconds = max 1 ((held_until e - t + 999) div 1000)\<rparr>, m)))"

definition bb_size :: "held_map \<Rightarrow> nat" where "bb_size m = length m"

definition bb_clear :: "held_map \<Rightarrow> held_map" where "bb_clear m = []"

inductive bb_step :: "held_map \<Rightarrow> held_map \<Rightarrow> bool" where
  bb_step_remember: "bb_step m (snd (bb_remember t key seconds body m))"
| bb_step_lookup: "bb_step m (snd (bb_lookup t key m))"
| bb_step_clear: "bb_step m (bb_clear m)"

subsection \<open>The map stays bounded\<close>

definition bb_inv :: "held_map \<Rightarrow> bool" where
  "bb_inv m \<longleftrightarrow> distinct (map fst m) \<and> length m \<le> max_tracked_credentials"

lemma bb_evict_suffix: "\<exists>p. m = p @ bb_evict mx m"
proof (induction m)
  case Nil
  then show ?case by simp
next
  case (Cons e m)
  then obtain p where "m = p @ bb_evict mx m" by blast
  then have "e # m = (e # p) @ bb_evict mx m" by simp
  then show ?case by (metis append_Nil bb_evict.simps(2))
qed

lemma bb_evict_length: "0 < mx \<Longrightarrow> length (bb_evict mx m) < mx"
  by (induction m) auto

lemma bb_evict_distinct: "distinct (map fst m) \<Longrightarrow> distinct (map fst (bb_evict mx m))"
  using bb_evict_suffix [of m mx] by (metis distinct_append map_append)

lemma length_AList_update:
  "length (AList.update k v m) = (if k \<in> fst ` set m then length m else Suc (length m))"
  by (induction m) auto

lemma length_AList_delete_le: "length (AList.delete k m) \<le> length m"
  by (simp add: AList.delete_eq)

lemma bb_make_room_inv:
  assumes "bb_inv m"
  shows "distinct (map fst (bb_make_room k t m))
       \<and> length (bb_make_room k t m) \<le> max_tracked_credentials
       \<and> (map_of m k = None \<longrightarrow> length (bb_make_room k t m) < max_tracked_credentials)"
proof (cases "max_tracked_credentials \<le> length m \<and> map_of m k = None")
  case True
  have "distinct (map fst (bb_sweep t m))"
    using assms by (simp add: bb_inv_def bb_sweep_def distinct_map_filter)
  moreover have "length (bb_evict max_tracked_credentials (bb_sweep t m)) < max_tracked_credentials"
    by (rule bb_evict_length) (simp add: max_tracked_credentials_def)
  ultimately show ?thesis
    using True bb_evict_distinct by (auto simp: bb_make_room_def)
next
  case False
  then show ?thesis using assms by (auto simp: bb_make_room_def bb_inv_def)
qed

lemma bb_inv_remember: "bb_inv m \<Longrightarrow> bb_inv (snd (bb_remember t key seconds body m))"
proof (cases "nonempty_str key")
  case (Some k)
  assume inv: "bb_inv m"
  let ?r = "bb_make_room k t m"
  note r = bb_make_room_inv [OF inv, of k t]
  have "map_of m k \<noteq> None \<Longrightarrow> ?r = m" by (auto simp: bb_make_room_def)
  then have "length (AList.update k v ?r) \<le> max_tracked_credentials" for v
    using r by (cases "map_of m k = None") (auto simp: length_AList_update map_of_eq_None_iff)
  moreover have "distinct (map fst (AList.update k v ?r))" for v
    using r by (simp add: distinct_update)
  ultimately show ?thesis using Some inv by (simp add: bb_remember_def bb_inv_def)
qed (simp add: bb_remember_def)

lemma bb_inv_delete: "bb_inv m \<Longrightarrow> bb_inv (AList.delete k m)"
  using length_AList_delete_le [of k m] by (simp add: bb_inv_def distinct_delete)

lemma bb_inv_lookup: "bb_inv m \<Longrightarrow> bb_inv (snd (bb_lookup t key m))"
  by (simp add: bb_lookup_def bb_inv_delete split: option.splits)

interpretation bb: invariant_system "\<lambda>m. m = []" bb_step bb_inv
proof
  show "bb_inv m" if "m = []" for m using that by (simp add: bb_inv_def)
  show "bb_inv n" if "bb_inv m" "bb_step m n" for m n
    using that(2,1)
  proof cases
    case (bb_step_remember t key seconds body)
    with that(1) show ?thesis by (simp add: bb_inv_remember)
  next
    case (bb_step_lookup t key)
    with that(1) show ?thesis by (simp add: bb_inv_lookup)
  next
    case bb_step_clear
    then show ?thesis by (simp add: bb_clear_def bb_inv_def)
  qed
qed

subsection \<open>The window a refusal opens\<close>

text \<open>What the request handler relies on: a refusal held for \<open>n\<close> seconds answers until exactly
  then, and only for the key it was held under.\<close>

locale refusal_window =
  fixes inv :: "'s \<Rightarrow> bool"
    and hold :: "nat \<Rightarrow> 'k \<Rightarrow> nat \<Rightarrow> 'v \<Rightarrow> 's \<Rightarrow> 's"
    and ask :: "nat \<Rightarrow> 'k \<Rightarrow> 's \<Rightarrow> ('v \<times> nat) option"
    and key_ok :: "'k \<Rightarrow> bool" and limit :: nat
  assumes ask_hold: "key_ok k \<Longrightarrow> 1 \<le> n \<Longrightarrow> n \<le> limit \<Longrightarrow>
      ask t' k (hold t k n v s) =
        (if t' < t + n * 1000 then Some (v, max 1 ((t + n * 1000 - t' + 999) div 1000)) else None)"
    and ask_other: "inv s \<Longrightarrow> key_ok k \<Longrightarrow> k' \<noteq> k \<Longrightarrow>
      ask t' k' (hold t k n v s) = ask t' k' s \<or> ask t' k' (hold t k n v s) = None"
begin

lemma told_wait_covers:
  assumes "key_ok k" "1 \<le> n" "n \<le> limit" "ask t' k (hold t k n v s) = Some (u, w)"
  shows "u = v \<and> t + n * 1000 \<le> t' + w * 1000 \<and> 1 \<le> w \<and> (t \<le> t' \<longrightarrow> w \<le> n)"
proof -
  have a: "t' < t + n * 1000" "u = v" "w = max 1 ((t + n * 1000 - t' + 999) div 1000)"
    using assms by (auto simp: ask_hold split: if_splits)
  then show ?thesis using assms(2) by auto
qed

lemma forgotten_after_limit:
  "key_ok k \<Longrightarrow> 1 \<le> n \<Longrightarrow> n \<le> limit \<Longrightarrow> t + limit * 1000 \<le> t' \<Longrightarrow> ask t' k (hold t k n v s) = None"
  using mult_le_mono1 [of n limit 1000] by (simp add: ask_hold)

end

definition bb_hold :: "nat \<Rightarrow> string \<Rightarrow> nat \<Rightarrow> jsv \<Rightarrow> held_map \<Rightarrow> held_map" where
  "bb_hold t k n body m = snd (bb_remember t (JStr k) (jnat n) body m)"

definition bb_ask :: "nat \<Rightarrow> string \<Rightarrow> held_map \<Rightarrow> (jsv \<times> nat) option" where
  "bb_ask t k m = map_option (\<lambda>a. (la_body a, la_seconds a)) (fst (bb_lookup t (JStr k) m))"

lemma valid_seconds_int: "valid_seconds (jnat n) \<longleftrightarrow> 1 \<le> n \<and> n \<le> max_retry_after_seconds"
  by (simp add: valid_seconds_def)

lemma bb_hold_valid:
  "k \<noteq> [] \<Longrightarrow> 1 \<le> n \<Longrightarrow> n \<le> max_retry_after_seconds \<Longrightarrow>
     bb_hold t k n body m = AList.update k \<lparr>held_until = t + n * 1000, held_body = body\<rparr>
       (bb_make_room k t m)"
  by (simp add: bb_hold_def bb_remember_def nonempty_str_def valid_seconds_int)

lemma bb_hold_invalid:
  "\<not> (1 \<le> n \<and> n \<le> max_retry_after_seconds) \<Longrightarrow> bb_hold t k n body m = m"
  by (auto simp: bb_hold_def bb_remember_def valid_seconds_int split: option.splits)

lemma map_of_sub:
  "distinct (map fst m) \<Longrightarrow> set m' \<subseteq> set m \<Longrightarrow> map_of m' k = Some e \<Longrightarrow> map_of m k = Some e"
  by (meson map_of_SomeD map_of_is_SomeI subsetD)

lemma bb_make_room_sub: "set (bb_make_room k t m) \<subseteq> set m"
proof -
  have "set (bb_evict mx w) \<subseteq> set w" for mx w
    using bb_evict_suffix [of w mx] by (metis Un_upper2 set_append)
  moreover have "set (bb_sweep t m) \<subseteq> set m" by (auto simp: bb_sweep_def)
  ultimately show ?thesis by (simp add: bb_make_room_def) (meson subset_trans)
qed

lemma bb_ask_Some:
  "k \<noteq> [] \<Longrightarrow> bb_ask t k m = (case map_of m k of None \<Rightarrow> None
     | Some e \<Rightarrow> if held_until e \<le> t then None
               else Some (held_body e, max 1 ((held_until e - t + 999) div 1000)))"
  by (simp add: bb_ask_def bb_lookup_def nonempty_str_def split: option.splits)

lemma bb_ask_empty_key: "bb_ask t [] m = None"
  by (simp add: bb_ask_def bb_lookup_def nonempty_str_def)

interpretation bw: refusal_window bb_inv bb_hold bb_ask "\<lambda>k. k \<noteq> []" max_retry_after_seconds
proof
  show "bb_ask t' k (bb_hold t k n v m) =
      (if t' < t + n * 1000 then Some (v, max 1 ((t + n * 1000 - t' + 999) div 1000)) else None)"
    if "k \<noteq> []" "1 \<le> n" "n \<le> max_retry_after_seconds" for k n t' t v m
    using that by (simp add: bb_hold_valid bb_ask_Some update_conv')
  show "bb_ask t' k' (bb_hold t k n v m) = bb_ask t' k' m \<or> bb_ask t' k' (bb_hold t k n v m) = None"
    if inv: "bb_inv m" and k: "k \<noteq> []" "k' \<noteq> k" for m k k' t' t n v
  proof (cases "1 \<le> n \<and> n \<le> max_retry_after_seconds")
    case True
    have "map_of (bb_make_room k t m) k' = Some e \<Longrightarrow> map_of m k' = Some e" for e
      by (rule map_of_sub [OF _ bb_make_room_sub]) (use inv in \<open>simp_all add: bb_inv_def\<close>)
    then show ?thesis
      using True k by (cases "k' = []")
        (auto simp: bb_hold_valid bb_ask_Some bb_ask_empty_key update_conv' split: option.splits)
  next
    case False
    then show ?thesis by (simp add: bb_hold_invalid)
  qed
qed

subsection \<open>Properties\<close>

text \<open>A remembered backoff refusal is answered locally for exactly the seconds horse-power
  named, and never longer than a minute. Inside the window the answer is the same body with
  status 429 and a wait that covers what is left of the window without exceeding what was
  named; from its end on horse-power is asked again, and the entry is forgotten.\<close>

theorem backoff_window_exact:
  assumes "k \<noteq> []" and "1 \<le> n" and "n \<le> max_retry_after_seconds" and "t \<le> t'"
  shows "(if t' < t + n * 1000
     then \<exists>w. fst (bb_lookup t' (JStr k) (bb_hold t k n body m)) =
                  Some \<lparr>la_status = 429, la_body = body, la_seconds = w\<rparr>
            \<and> t + n * 1000 \<le> t' + w * 1000 \<and> 1 \<le> w \<and> w \<le> n
     else fst (bb_lookup t' (JStr k) (bb_hold t k n body m)) = None
          \<and> map_of (snd (bb_lookup t' (JStr k) (bb_hold t k n body m))) k = None)
   \<and> (t + 60 * 1000 \<le> t' \<longrightarrow> bb_ask t' k (bb_hold t k n body m) = None)"
proof -
  have "bb_ask t' k (bb_hold t k n body m) = None" if "t + 60 * 1000 \<le> t'"
    using bw.forgotten_after_limit [OF assms(1-3)] that by (simp add: max_retry_after_seconds_def)
  moreover have "w = max 1 ((t + n * 1000 - t' + 999) div 1000) \<Longrightarrow>
      t' < t + n * 1000 \<Longrightarrow> t + n * 1000 \<le> t' + w * 1000 \<and> 1 \<le> w \<and> w \<le> n" for w
    using bw.told_wait_covers [OF assms(1-3), of t' t body m body w] assms(1-4)
    by (simp add: bw.ask_hold)
  ultimately show ?thesis
    using assms(1-3)
    by (auto simp: bb_hold_valid bb_lookup_def nonempty_str_def update_conv' delete_conv')
qed

theorem backoff_window_exact_witness:
  "fst (bb_lookup 59999 (JStr ''k'') (bb_hold 0 ''k'' 60 JNull [])) \<noteq> None
   \<and> fst (bb_lookup 60000 (JStr ''k'') (bb_hold 0 ''k'' 60 JNull [])) = None"
proof -
  have h: "''k'' \<noteq> []" "(1::nat) \<le> 60" "60 \<le> max_retry_after_seconds" "0 \<le> (59999::nat)"
    "0 \<le> (60000::nat)"
    by (simp_all add: max_retry_after_seconds_def)
  show ?thesis
    using backoff_window_exact [OF h(1-4), of JNull "[]"]
      backoff_window_exact [OF h(1-3,5), of JNull "[]"] by auto
qed

text \<open>A refusal is never answered to another credential. Remembering a refusal under one key
  leaves every other key's answer as it was, or turns it into \<^emph>\<open>ask horse-power\<close> when a full
  map had to make room.\<close>

theorem backoff_isolated:
  assumes "reachable (\<lambda>m. m = []) bb_step m" and "k \<noteq> []" and "k' \<noteq> k"
  shows "bb_ask t' k' (bb_hold t k n body m) \<in> {bb_ask t' k' m, None}
       \<and> (length m < max_tracked_credentials \<longrightarrow>
            bb_ask t' k' (bb_hold t k n body m) = bb_ask t' k' m)"
proof -
  have inv: "bb_inv m" using assms(1) by (rule bb.inv_reachable)
  have "bb_ask t' k' (bb_hold t k n body m) = bb_ask t' k' m" if "length m < max_tracked_credentials"
  proof (cases "k' = [] \<or> \<not> (1 \<le> n \<and> n \<le> max_retry_after_seconds)")
    case True
    then show ?thesis by (auto simp: bb_ask_empty_key bb_hold_invalid)
  next
    case False
    then show ?thesis
      using assms(2,3) that by (simp add: bb_hold_valid bb_ask_Some bb_make_room_def update_conv')
  qed
  then show ?thesis using bw.ask_other [OF inv assms(2,3)] by auto
qed

theorem backoff_isolated_witness:
  "bb_ask 5 ''b'' (bb_hold 0 ''a'' 60 JNull []) = None"
proof -
  have r: "reachable (\<lambda>m. m = []) bb_step []" by (rule reach_start) simp
  have "bb_ask 5 ''b'' [] = None" by code_simp
  then show ?thesis using backoff_isolated [OF r, of "''a''" "''b''" 5 0 60 JNull] by simp
qed

text \<open>The map of held refusals never holds a key twice and never grows past its cap, in
  every state the operations can reach.\<close>

theorem backoff_bounded:
  assumes "reachable (\<lambda>m. m = []) bb_step m"
  shows "distinct (map fst m) \<and> bb_size m \<le> max_tracked_credentials"
  using bb.inv_reachable [OF assms] by (simp add: bb_inv_def bb_size_def)

theorem backoff_bounded_witness: "bb_size (snd (bb_remember 0 (JStr ''k'') (jnat 1) JNull [])) \<le> 10000"
proof -
  have r: "reachable (\<lambda>m. m = []) bb_step (snd (bb_remember 0 (JStr ''k'') (jnat 1) JNull []))"
    using refl bb_step_remember by (rule reach_one)
  show ?thesis using backoff_bounded [OF r] by (simp add: max_tracked_credentials_def)
qed

lemma usable_seconds_bounds: "usable_seconds raw = Some n \<Longrightarrow> 1 \<le> n \<and> n \<le> max_retry_after_seconds"
  by (auto simp: usable_seconds_def max_retry_after_seconds_def le_nat_iff le_floor_iff
      split: jsv.splits jsnum.splits if_splits)

text \<open>The wait taken from an answer is always one the store accepts: a whole number of seconds
  between 1 and 60, taken from the header whenever the header is usable and from the body only
  otherwise.\<close>

theorem retry_after_accepted:
  assumes "retry_after_seconds header_value body_value = Some n" and "key = JStr k" and "k \<noteq> []"
  shows "1 \<le> n \<and> n \<le> 60 \<and> fst (bb_remember t key (jnat n) body m)
       \<and> (if usable_seconds header_value \<noteq> None then usable_seconds header_value = Some n
          else usable_seconds body_value = Some n)"
proof -
  have b: "1 \<le> n \<and> n \<le> max_retry_after_seconds"
    using assms(1) usable_seconds_bounds
    by (auto simp: retry_after_seconds_def first_some_def split: option.splits)
  then show ?thesis
    using assms by (auto simp: retry_after_seconds_def first_some_def bb_remember_def
        nonempty_str_def valid_seconds_int max_retry_after_seconds_def split: option.splits)
qed

theorem retry_after_accepted_witness:
  "fst (bb_remember 0 (JStr ''k'') (jnat 60) JNull [])"
proof -
  have h: "retry_after_seconds (JStr '' 3600 '') (jint 5) = Some 60"
    by (simp add: retry_after_seconds_def first_some_def usable_seconds_def delta_seconds_def
        trim_def is_space_def is_digit_def digits_value_def max_retry_after_seconds_def)
  show ?thesis using retry_after_accepted [OF h refl, of "''k''"] by simp
qed

end
