(* ===== verification/Counters.thy ===== *)
theory Counters
  imports JsPrelude Transition
begin

text \<open>
  The per-worker request counters of \<open>enclave/src/counters.mjs\<close>. The closure that
  \<open>beginRequest\<close> returns is its request's number, and the \<open>done\<close> flags of all closures are
  part of the state; every counter map is the list of its entries.
\<close>

type_synonym count_map = "(string \<times> nat) list"

definition counter_max_keys :: nat where "counter_max_keys = 64"

definition is_key_char :: "char \<Rightarrow> bool" where
  "is_key_char c \<longleftrightarrow> is_lower_az c \<or> is_digit c \<or> c = CHR ''_''"

text \<open>\<open>KEY_RE = /^[a-z0-9_]{1,64}$/\<close>.\<close>

definition key_re :: "string \<Rightarrow> bool" where
  "key_re s \<longleftrightarrow> 1 \<le> length s \<and> length s \<le> 64 \<and> list_all is_key_char s"

definition named_keys :: "count_map \<Rightarrow> nat" where
  "named_keys m = length (filter (\<lambda>(k, _). k \<noteq> ''other'') m)"

definition bump_key :: "count_map \<Rightarrow> jsv \<Rightarrow> string" where
  "bump_key m key =
     (let k = (case key of JStr s \<Rightarrow> if key_re s then s else ''other'' | _ \<Rightarrow> ''other'')
      in if k \<noteq> ''other'' \<and> map_of m k = None \<and> counter_max_keys - 1 \<le> named_keys m
         then ''other'' else k)"

definition bump :: "count_map \<Rightarrow> jsv \<Rightarrow> count_map" where
  "bump m key =
     (let k = bump_key m key
      in AList.update k (Suc (case map_of m k of None \<Rightarrow> 0 | Some n \<Rightarrow> n)) m)"

record pii_counters =
  pc_redacted :: nat
  pc_detector_calls :: nat
  pc_input_tokens :: nat
  pc_estimated_calls :: nat
  pc_texts :: nat
  pc_entities :: nat
  pc_latency_sum :: nat
  pc_latency_max :: nat
  pc_latency :: count_map
  pc_failures :: count_map
  pc_restorations :: nat
  pc_restoration_misses :: nat
  pc_unbilled_calls :: nat
  pc_unbilled_tokens :: nat

record counters =
  ct_requests :: nat
  ct_by_outcome :: count_map
  ct_by_provider :: count_map
  ct_error_reports :: count_map
  ct_ehbp :: nat
  ct_streaming :: nat
  ct_open_streams :: int
  ct_settle_failures :: nat
  ct_pii :: pii_counters
  ct_done :: "bool list"

definition create_counters :: counters where
  "create_counters =
     \<lparr>ct_requests = 0, ct_by_outcome = [], ct_by_provider = [], ct_error_reports = [], ct_ehbp = 0,
      ct_streaming = 0, ct_open_streams = 0, ct_settle_failures = 0,
      ct_pii = \<lparr>pc_redacted = 0, pc_detector_calls = 0, pc_input_tokens = 0,
        pc_estimated_calls = 0, pc_texts = 0, pc_entities = 0, pc_latency_sum = 0,
        pc_latency_max = 0, pc_latency = [], pc_failures = [], pc_restorations = 0,
        pc_restoration_misses = 0, pc_unbilled_calls = 0, pc_unbilled_tokens = 0\<rparr>,
      ct_done = []\<rparr>"

subsection \<open>Operations\<close>

definition begin_request :: "counters \<Rightarrow> nat \<times> counters" where
  "begin_request c =
     (length (ct_done c), c\<lparr>ct_requests := Suc (ct_requests c), ct_done := ct_done c @ [False]\<rparr>)"

definition finalize :: "nat \<Rightarrow> jsv \<Rightarrow> counters \<Rightarrow> counters" where
  "finalize r outcome c =
     (if r < length (ct_done c) \<and> \<not> ct_done c ! r
      then c\<lparr>ct_done := (ct_done c)[r := True], ct_by_outcome := bump (ct_by_outcome c) outcome\<rparr>
      else c)"

definition error_report :: "jsv \<Rightarrow> counters \<Rightarrow> counters" where
  "error_report code c = c\<lparr>ct_error_reports := bump (ct_error_reports c) code\<rparr>"

definition count_provider :: "jsv \<Rightarrow> counters \<Rightarrow> counters" where
  "count_provider name c = c\<lparr>ct_by_provider := bump (ct_by_provider c) name\<rparr>"

definition count_ehbp :: "counters \<Rightarrow> counters" where
  "count_ehbp c = c\<lparr>ct_ehbp := Suc (ct_ehbp c)\<rparr>"

definition count_streaming :: "counters \<Rightarrow> counters" where
  "count_streaming c = c\<lparr>ct_streaming := Suc (ct_streaming c)\<rparr>"

definition stream_opened :: "counters \<Rightarrow> counters" where
  "stream_opened c = c\<lparr>ct_open_streams := ct_open_streams c + 1\<rparr>"

definition stream_closed :: "counters \<Rightarrow> counters" where
  "stream_closed c =
     (if ct_open_streams c > 0 then c\<lparr>ct_open_streams := ct_open_streams c - 1\<rparr> else c)"

definition settle_permanent_failure :: "counters \<Rightarrow> counters" where
  "settle_permanent_failure c = c\<lparr>ct_settle_failures := Suc (ct_settle_failures c)\<rparr>"

text \<open>\<open>Number.isFinite(v) && v > 0 ? Math.floor(v) : 0\<close>.\<close>

definition count_of :: "jsv \<Rightarrow> nat" where
  "count_of v = (case v of JNum (Fin q) \<Rightarrow> if q > 0 then nat \<lfloor>q\<rfloor> else 0 | _ \<Rightarrow> 0)"

definition latency_bucket :: "nat \<Rightarrow> string" where
  "latency_bucket ms =
     (if ms \<le> 1000 then ''le_1000'' else if ms \<le> 5000 then ''le_5000''
      else if ms \<le> 15000 then ''le_15000'' else if ms \<le> 60000 then ''le_60000'' else ''gt_60000'')"

record redaction =
  rd_calls :: jsv
  rd_input_tokens :: jsv
  rd_estimated :: jsv
  rd_texts :: jsv
  rd_entities :: jsv
  rd_latency_ms :: jsv

definition pii_redacted :: "redaction \<Rightarrow> counters \<Rightarrow> counters" where
  "pii_redacted r c =
     (let p = ct_pii c; ms = count_of (rd_latency_ms r)
      in c\<lparr>ct_pii := p\<lparr>
           pc_redacted := Suc (pc_redacted p),
           pc_detector_calls := pc_detector_calls p + count_of (rd_calls r),
           pc_input_tokens := pc_input_tokens p + count_of (rd_input_tokens r),
           pc_estimated_calls := pc_estimated_calls p +
             (if rd_estimated r = JTrue \<and> count_of (rd_calls r) > 0 then count_of (rd_calls r) else 0),
           pc_texts := pc_texts p + count_of (rd_texts r),
           pc_entities := pc_entities p + count_of (rd_entities r),
           pc_latency_sum := pc_latency_sum p + ms,
           pc_latency_max := (if pc_latency_max p < ms then ms else pc_latency_max p),
           pc_latency := bump (pc_latency p) (JStr (latency_bucket ms))\<rparr>\<rparr>)"

definition pii_failure :: "jsv \<Rightarrow> counters \<Rightarrow> counters" where
  "pii_failure reason c =
     (let p = ct_pii c; k = (case reason of JStr s \<Rightarrow> JStr (lower s) | _ \<Rightarrow> JStr ''other'')
      in c\<lparr>ct_pii := p\<lparr>pc_failures := bump (pc_failures p) k\<rparr>\<rparr>)"

definition positive_int :: "jsv \<Rightarrow> nat" where
  "positive_int v = (if num_integer v \<and> num_rat v > 0 then nat \<lfloor>num_rat v\<rfloor> else 0)"

definition pii_unbilled :: "jsv \<Rightarrow> jsv \<Rightarrow> counters \<Rightarrow> counters" where
  "pii_unbilled calls input_tokens c =
     (let p = ct_pii c
      in c\<lparr>ct_pii := p\<lparr>pc_unbilled_calls := pc_unbilled_calls p + positive_int calls,
            pc_unbilled_tokens := pc_unbilled_tokens p + positive_int input_tokens\<rparr>\<rparr>)"

definition pii_restored :: "jsv \<Rightarrow> counters \<Rightarrow> counters" where
  "pii_restored misses c =
     (let p = ct_pii c
      in c\<lparr>ct_pii := p\<lparr>pc_restorations := Suc (pc_restorations p),
            pc_restoration_misses := pc_restoration_misses p + positive_int misses\<rparr>\<rparr>)"

record health_snapshot =
  hs_requests :: nat
  hs_by_outcome :: count_map
  hs_by_provider :: count_map
  hs_error_reports :: count_map
  hs_ehbp :: nat
  hs_streaming :: nat
  hs_open_streams :: int
  hs_settle_queued :: nat
  hs_settle_failures :: nat

definition counters_snapshot :: "jsv \<Rightarrow> counters \<Rightarrow> health_snapshot" where
  "counters_snapshot settle_queued c =
     \<lparr>hs_requests = ct_requests c, hs_by_outcome = ct_by_outcome c,
      hs_by_provider = ct_by_provider c, hs_error_reports = ct_error_reports c,
      hs_ehbp = ct_ehbp c, hs_streaming = ct_streaming c, hs_open_streams = ct_open_streams c,
      hs_settle_queued = count_of settle_queued, hs_settle_failures = ct_settle_failures c\<rparr>"

definition pii_snapshot :: "counters \<Rightarrow> pii_counters" where
  "pii_snapshot c = ct_pii c"

text \<open>The server's calls, in any order and with any arguments.\<close>

datatype counter_op =
    BeginRequest | Finalize nat jsv | ErrorReport jsv | Provider jsv | Ehbp | Streaming
  | StreamOpened | StreamClosed | SettlePermanentFailure | PiiRedacted redaction
  | PiiFailure jsv | PiiUnbilled jsv jsv | PiiRestored jsv

fun counter_op_step :: "counter_op \<Rightarrow> counters \<Rightarrow> counters" where
  "counter_op_step BeginRequest c = snd (begin_request c)"
| "counter_op_step (Finalize r outcome) c = finalize r outcome c"
| "counter_op_step (ErrorReport code) c = error_report code c"
| "counter_op_step (Provider name) c = count_provider name c"
| "counter_op_step Ehbp c = count_ehbp c"
| "counter_op_step Streaming c = count_streaming c"
| "counter_op_step StreamOpened c = stream_opened c"
| "counter_op_step StreamClosed c = stream_closed c"
| "counter_op_step SettlePermanentFailure c = settle_permanent_failure c"
| "counter_op_step (PiiRedacted r) c = pii_redacted r c"
| "counter_op_step (PiiFailure reason) c = pii_failure reason c"
| "counter_op_step (PiiUnbilled a b) c = pii_unbilled a b c"
| "counter_op_step (PiiRestored n) c = pii_restored n c"

inductive counter_step :: "counters \<Rightarrow> counters \<Rightarrow> bool" where
  "counter_step c (counter_op_step e c)"

subsection \<open>One counter map\<close>

definition total :: "count_map \<Rightarrow> nat" where
  "total m = sum_list (map snd m)"

definition map_ok :: "count_map \<Rightarrow> bool" where
  "map_ok m \<longleftrightarrow> distinct (map fst m) \<and> named_keys m \<le> counter_max_keys - 1
     \<and> (\<forall>k \<in> fst ` set m. key_re k)"

lemma key_re_other: "key_re ''other''" by code_simp

lemma bump_key_cases:
  "bump_key m key = ''other'' \<or>
     (bump_key m key \<noteq> ''other'' \<and> key_re (bump_key m key)
      \<and> (map_of m (bump_key m key) = None \<longrightarrow> named_keys m < counter_max_keys - 1))"
  by (auto simp: bump_key_def Let_def split: jsv.splits if_splits)

lemma total_update:
  "distinct (map fst m) \<Longrightarrow>
     total (AList.update k (Suc (case map_of m k of None \<Rightarrow> 0 | Some n \<Rightarrow> n)) m) = Suc (total m)"
proof (induction m)
  case Nil
  then show ?case by (simp add: total_def)
next
  case (Cons e m)
  obtain k' n where e: "e = (k', n)" by (cases e)
  show ?case
  proof (cases "k = k'")
    case True
    with e show ?thesis by (simp add: total_def)
  next
    case False
    with e Cons show ?thesis by (simp add: total_def)
  qed
qed

lemma total_bump: "distinct (map fst m) \<Longrightarrow> total (bump m key) = Suc (total m)"
  by (simp add: bump_def Let_def total_update)

lemma named_update:
  "named_keys (AList.update k v m) =
     (if k = ''other'' \<or> k \<in> fst ` set m then named_keys m else Suc (named_keys m))"
  by (induction m) (auto simp: named_keys_def)

lemma map_ok_bump: "map_ok m \<Longrightarrow> map_ok (bump m key)"
  using bump_key_cases [of m key] key_re_other
  by (auto simp: map_ok_def bump_def Let_def distinct_update named_update dom_update
      map_of_eq_None_iff)

lemma others_le_one: "distinct (map fst m) \<Longrightarrow> length (filter (\<lambda>(k, _). k = ''other'') m) \<le> 1"
proof (induction m)
  case Nil
  then show ?case by simp
next
  case (Cons e m)
  show ?case
  proof (cases "fst e = ''other''")
    case True
    have "fst e' \<noteq> ''other''" if "e' \<in> set m" for e'
      using Cons.prems True that by (auto simp: image_iff)
    then have "filter (\<lambda>(k, _). k = ''other'') m = []"
      by (fastforce simp: filter_empty_conv)
    moreover obtain b where "e = (''other'', b)" using True by (cases e) simp
    ultimately show ?thesis by simp
  next
    case False
    then show ?thesis using Cons by (simp add: case_prod_beta)
  qed
qed

lemma map_ok_length: "map_ok m \<Longrightarrow> length m \<le> counter_max_keys"
proof -
  assume m: "map_ok m"
  have "length m = named_keys m + length (filter (\<lambda>(k, _). k = ''other'') m)"
    by (induction m) (auto simp: named_keys_def)
  then show ?thesis using m others_le_one [of m] by (simp add: map_ok_def counter_max_keys_def)
qed

lemma map_ok_Nil: "map_ok []"
  by (simp add: map_ok_def named_keys_def)

lemma total_Nil: "total [] = 0"
  by (simp add: total_def)

lemma map_ok_distinct: "map_ok m \<Longrightarrow> distinct (map fst m)"
  by (simp add: map_ok_def)

lemmas map_ok_facts = map_ok_Nil map_ok_bump total_Nil total_bump [OF map_ok_distinct]

subsection \<open>The invariant\<close>

definition finished :: "counters \<Rightarrow> nat" where
  "finished c = length (filter id (ct_done c))"

definition pii_ok :: "pii_counters \<Rightarrow> bool" where
  "pii_ok p \<longleftrightarrow> map_ok (pc_latency p) \<and> map_ok (pc_failures p)
     \<and> total (pc_latency p) = pc_redacted p \<and> pc_latency_max p \<le> pc_latency_sum p
     \<and> pc_estimated_calls p \<le> pc_detector_calls p"

definition counters_ok :: "counters \<Rightarrow> bool" where
  "counters_ok c \<longleftrightarrow> map_ok (ct_by_outcome c) \<and> map_ok (ct_by_provider c)
     \<and> map_ok (ct_error_reports c) \<and> length (ct_done c) = ct_requests c
     \<and> total (ct_by_outcome c) = finished c \<and> 0 \<le> ct_open_streams c \<and> pii_ok (ct_pii c)"

lemma finished_update:
  "r < length ds \<Longrightarrow> \<not> ds ! r \<Longrightarrow> length (filter id (ds[r := True])) = Suc (length (filter id ds))"
proof (induction ds arbitrary: r)
  case Nil
  then show ?case by simp
next
  case (Cons d ds)
  then show ?case by (cases r) auto
qed

lemma counters_ok_start: "counters_ok create_counters"
  by (simp add: counters_ok_def create_counters_def pii_ok_def finished_def map_ok_facts)

lemma counters_ok_finalize: "counters_ok c \<Longrightarrow> counters_ok (finalize r outcome c)"
  by (simp add: counters_ok_def finalize_def finished_def map_ok_facts finished_update)

lemma pii_ok_redacted: "counters_ok c \<Longrightarrow> counters_ok (pii_redacted r c)"
  by (simp add: counters_ok_def pii_redacted_def Let_def pii_ok_def finished_def map_ok_facts)

lemma counters_ok_step: "counters_ok c \<Longrightarrow> counters_ok (counter_op_step e c)"
proof (cases e)
  case (Finalize r outcome)
  then show "counters_ok c \<Longrightarrow> ?thesis" by (simp add: counters_ok_finalize)
next
  case (PiiRedacted r)
  then show "counters_ok c \<Longrightarrow> ?thesis" by (simp add: pii_ok_redacted)
qed (auto simp: counters_ok_def pii_ok_def finished_def begin_request_def error_report_def
    count_provider_def count_ehbp_def count_streaming_def stream_opened_def stream_closed_def
    settle_permanent_failure_def pii_failure_def pii_unbilled_def pii_restored_def Let_def map_ok_facts)

inductive_cases counter_stepE: "counter_step c d"

interpretation ctr: event_system "\<lambda>c. c = create_counters" counter_step counters_ok counter_op_step
proof unfold_locales
  show "c = create_counters \<Longrightarrow> counters_ok c" for c by (simp add: counters_ok_start)
  show "counters_ok c \<Longrightarrow> counter_step c d \<Longrightarrow> counters_ok d" for c d
    by (auto elim: counter_stepE intro: counters_ok_step)
  show "counter_step c (counter_op_step e c) \<or> counter_op_step e c = c" for c e
    by (auto intro: counter_step.intros)
qed

definition counters_after :: "counter_op list \<Rightarrow> counters" where
  "counters_after es = fold counter_op_step es create_counters"

lemma counters_after_ok: "counters_ok (counters_after es)"
  using ctr.inv_run [OF counters_ok_start] by (simp add: counters_after_def)

lemma done_mono: "r < length (ct_done c) \<Longrightarrow> ct_done c ! r \<Longrightarrow>
   r < length (ct_done (counter_op_step e c)) \<and> ct_done (counter_op_step e c) ! r"
  by (cases e) (auto simp: begin_request_def finalize_def error_report_def
    count_provider_def count_ehbp_def count_streaming_def stream_opened_def stream_closed_def
    settle_permanent_failure_def pii_failure_def pii_unbilled_def pii_restored_def pii_redacted_def
    Let_def nth_append nth_list_update)

lemma done_mono_run: "r < length (ct_done c) \<Longrightarrow> ct_done c ! r \<Longrightarrow>
   r < length (ct_done (fold counter_op_step es c)) \<and> ct_done (fold counter_op_step es c) ! r"
proof (induction es arbitrary: c)
  case (Cons e es)
  then show ?case using done_mono [of r c e] by simp
qed simp

lemma finished_le: "finished c \<le> length (ct_done c)"
  by (simp add: finished_def)

lemma finished_all: "finished c = length (ct_done c) \<longleftrightarrow> (\<forall>d \<in> set (ct_done c). d)"
proof
  show "finished c = length (ct_done c)" if "\<forall>d \<in> set (ct_done c). d"
    using that by (simp add: finished_def)
  show "\<forall>d \<in> set (ct_done c). d" if "finished c = length (ct_done c)"
  proof -
    have "False \<notin> set (ct_done c)"
      using that length_filter_less [of False "ct_done c" id] by (auto simp: finished_def)
    then show ?thesis by (metis (full_types))
  qed
qed

subsection \<open>Properties\<close>



text \<open>Content-free and bounded: whatever keys are counted, every map of the health and PII
  snapshots holds each key once, at most 64 keys, and only keys of the enclave's own lower-case
  alphabet.\<close>

theorem counter_keys_bounded:
  "\<forall>m \<in> {hs_by_outcome h, hs_by_provider h, hs_error_reports h, pc_latency p, pc_failures p}.
     h = counters_snapshot q (counters_after es) \<longrightarrow> p = pii_snapshot (counters_after es) \<longrightarrow>
       length m \<le> 64 \<and> distinct (map fst m) \<and> (\<forall>k \<in> set (map fst m). key_re k)"
proof -
  have "length m \<le> 64 \<and> distinct (map fst m) \<and> (\<forall>k \<in> set (map fst m). key_re k)"
    if "map_ok m" for m
    using that map_ok_length [OF that] by (simp add: map_ok_def counter_max_keys_def)
  then show ?thesis
    using counters_after_ok [of es]
    by (auto simp: counters_ok_def pii_ok_def counters_snapshot_def pii_snapshot_def)
qed

theorem counter_keys_bounded_witness:
  "length (hs_by_provider (counters_snapshot JUndef (counters_after [Provider (JStr ''Bad key'')]))) \<le> 64"
  using counter_keys_bounded
    [of "counters_snapshot JUndef (counters_after [Provider (JStr ''Bad key'')])" _ JUndef
      "[Provider (JStr ''Bad key'')]"]
  by simp

text \<open>The PII counters agree with each other: each redaction falls in exactly one latency
  bucket, the largest latency never exceeds their sum, the estimated calls never exceed the
  detector calls, and the open-stream gauge never goes below zero however closes and opens
  interleave.\<close>

theorem pii_counters_consistent:
  "total (pc_latency (pii_snapshot (counters_after es))) = pc_redacted (pii_snapshot (counters_after es))
   \<and> pc_latency_max (pii_snapshot (counters_after es)) \<le> pc_latency_sum (pii_snapshot (counters_after es))
   \<and> pc_estimated_calls (pii_snapshot (counters_after es))
       \<le> pc_detector_calls (pii_snapshot (counters_after es))
   \<and> 0 \<le> hs_open_streams (counters_snapshot q (counters_after es))"
  using counters_after_ok [of es]
  by (simp add: counters_ok_def pii_ok_def counters_snapshot_def pii_snapshot_def)

end
