(* ===== verification/ProxyProtocol.thy ===== *)
theory ProxyProtocol
  imports JsPrelude "HOL-Library.Word"
begin

unbundle bit_operations_syntax

text \<open>
  The PROXY protocol header parser of \<open>enclave/src/proxyProtocol.mjs\<close>, versions 1 and 2, on
  the bytes received so far. Buffers are lists of 8-bit words; \<open>net.isIP\<close> of the runtime is
  written out as the grammar of its address literals.
\<close>

type_synonym bytes = "8 word list"

definition byte_char :: "8 word \<Rightarrow> char" where
  "byte_char b = char_of (unat b)"

definition latin1 :: "bytes \<Rightarrow> string" where
  "latin1 = map byte_char"

definition to_latin1 :: "string \<Rightarrow> bytes" where
  "to_latin1 = map (\<lambda>c. of_nat (of_char c))"

definition proxy_v2_signature :: bytes where
  "proxy_v2_signature = [13, 10, 13, 10, 0, 13, 10, 81, 85, 73, 84, 10]"

definition proxy_v1_prefix :: bytes where
  "proxy_v1_prefix = [80, 82, 79, 88, 89, 32]"

definition proxy_v1_max_line :: nat where "proxy_v1_max_line = 107"
definition header_fixed :: nat where "header_fixed = 16"
definition addr_len_tcp4 :: nat where "addr_len_tcp4 = 12"
definition addr_len_tcp6 :: nat where "addr_len_tcp6 = 36"
definition proxy_v2_max_block :: nat where "proxy_v2_max_block = addr_len_tcp6 + 512"

datatype proxy_command = CmdProxy | CmdLocal
datatype proxy_family = TCP4 | TCP6 | Unspec

record proxy_header =
  ph_version :: nat
  ph_length :: nat
  ph_command :: proxy_command
  ph_family :: proxy_family
  ph_ip :: "string option"
  ph_port :: "nat option"

datatype proxy_result = Incomplete nat | Invalid | Ok proxy_header

subsection \<open>Addresses as text\<close>

definition hex_char :: "nat \<Rightarrow> char" where
  "hex_char d = (if d < 10 then char_of (48 + d) else char_of (87 + d))"

text \<open>\<open>g.toString(16)\<close>.\<close>

fun hex_str :: "nat \<Rightarrow> string" where
  "hex_str n = (if n < 16 then [hex_char n] else hex_str (n div 16) @ [hex_char (n mod 16)])"

declare hex_str.simps [simp del]

definition u16 :: "8 word \<Rightarrow> 8 word \<Rightarrow> nat" where
  "u16 hi lo = unat (push_bit 8 (ucast hi :: 16 word) OR ucast lo)"

fun ipv6_groups :: "bytes \<Rightarrow> nat list" where
  "ipv6_groups (hi # lo # rest) = u16 hi lo # ipv6_groups rest"
| "ipv6_groups _ = []"

definition dotted :: "bytes \<Rightarrow> string" where
  "dotted bs = str_join ''.'' (map (\<lambda>b. num_str (unat b)) bs)"

text \<open>The scan for the longest run of zero groups: \<open>i\<close> is the next index, \<open>(bs, bl)\<close> the best
  run so far.\<close>

definition zero_run :: "nat list \<Rightarrow> nat" where
  "zero_run gs = length (takeWhile (\<lambda>g. g = 0) gs)"

function best_run :: "nat list \<Rightarrow> nat \<Rightarrow> nat \<Rightarrow> nat \<Rightarrow> nat \<times> nat" where
  "best_run gs i bs bl =
     (if length gs \<le> i then (bs, bl)
      else if gs ! i \<noteq> 0 then best_run gs (i + 1) bs bl
      else let r = zero_run (drop i gs)
           in if bl < r then best_run gs (i + r) i r else best_run gs (i + r) bs bl)"
  by pat_completeness auto
termination
proof (relation "measure (\<lambda>(gs, i, bs, bl). length gs - i)", goal_cases)
  case 1
  then show ?case by simp
next
  case (2 gs i bs bl)
  then show ?case by auto
next
  case (3 gs i bs bl r)
  then have "0 < zero_run (drop i gs)" by (simp add: zero_run_def Cons_nth_drop_Suc [symmetric])
  with 3 show ?case by auto
next
  case (4 gs i bs bl r)
  then have "0 < zero_run (drop i gs)" by (simp add: zero_run_def Cons_nth_drop_Suc [symmetric])
  with 4 show ?case by auto
qed

declare best_run.simps [simp del]

definition format_groups :: "nat list \<Rightarrow> string" where
  "format_groups gs =
     (case best_run gs 0 0 0 of
        (bs, bl) \<Rightarrow>
          let hex = map hex_str gs
          in if bl < 2 then str_join '':'' hex
             else str_join '':'' (take bs hex) @ ''::'' @ str_join '':'' (drop (bs + bl) hex))"

definition format_ipv6 :: "bytes \<Rightarrow> string" where
  "format_ipv6 bs =
     (let gs = ipv6_groups bs
      in if take 6 gs = [0, 0, 0, 0, 0, 0xffff] then dotted (take 4 (drop 12 bs))
         else format_groups gs)"

definition format_ipv4 :: "bytes \<Rightarrow> string" where
  "format_ipv4 bs = dotted (take 4 bs)"

subsection \<open>\<open>net.isIP\<close>\<close>

definition v4_seg :: "string \<Rightarrow> bool" where
  "v4_seg p \<longleftrightarrow> p \<noteq> [] \<and> list_all is_digit p \<and> length p \<le> 3
     \<and> (length p = 1 \<or> hd p \<noteq> CHR ''0'') \<and> digits_value p \<le> 255"

definition is_ipv4 :: "string \<Rightarrow> bool" where
  "is_ipv4 s = (let ps = split_char (CHR ''.'') s in length ps = 4 \<and> list_all v4_seg ps)"

definition is_hex_digit :: "char \<Rightarrow> bool" where
  "is_hex_digit c \<longleftrightarrow> is_digit c \<or> (let n = of_char c :: nat in (65 \<le> n \<and> n \<le> 70) \<or> (97 \<le> n \<and> n \<le> 102))"

definition v6_seg :: "string \<Rightarrow> bool" where
  "v6_seg p \<longleftrightarrow> p \<noteq> [] \<and> length p \<le> 4 \<and> list_all is_hex_digit p"

text \<open>The number of groups that a colon-separated part names, where only the very last one of
  an address may be a dotted quad (which counts for two).\<close>

definition part_groups :: "bool \<Rightarrow> string list \<Rightarrow> nat option" where
  "part_groups last_part ps =
     (if ps = [] then Some 0
      else if list_all v6_seg ps then Some (length ps)
      else if last_part \<and> list_all v6_seg (butlast ps) \<and> is_ipv4 (last ps) then Some (length ps + 1)
      else None)"

text \<open>\<open>s.split('::')\<close>.\<close>

fun split_double :: "string \<Rightarrow> string list" where
  "split_double [] = [[]]"
| "split_double [c] = [[c]]"
| "split_double (c # d # cs) =
     (if c = CHR '':'' \<and> d = CHR '':'' then [] # split_double cs
      else (case split_double (d # cs) of [] \<Rightarrow> [[c]] | w # ws \<Rightarrow> (c # w) # ws))"

definition colon_parts :: "string \<Rightarrow> string list" where
  "colon_parts s = (if s = [] then [] else split_char (CHR '':'') s)"

definition is_zone_char :: "char \<Rightarrow> bool" where
  "is_zone_char c \<longleftrightarrow> is_alnum c \<or> c = CHR ''-'' \<or> c = CHR ''.'' \<or> c = CHR '':''"

definition v6_body :: "string \<Rightarrow> bool" where
  "v6_body s =
     (case split_double s of
        [w] \<Rightarrow> part_groups True (colon_parts w) = Some 8
      | [a, b] \<Rightarrow>
          (case (part_groups False (colon_parts a), part_groups True (colon_parts b)) of
             (Some m, Some n) \<Rightarrow> m + n \<le> 7
           | _ \<Rightarrow> False)
      | _ \<Rightarrow> False)"

definition is_ipv6 :: "string \<Rightarrow> bool" where
  "is_ipv6 s =
     (case index_of s (CHR ''%'') of
        None \<Rightarrow> v6_body s
      | Some i \<Rightarrow> v6_body (take i s) \<and> drop (i + 1) s \<noteq> [] \<and> list_all is_zone_char (drop (i + 1) s))"

definition is_ip :: "string \<Rightarrow> nat" where
  "is_ip s = (if is_ipv4 s then 4 else if is_ipv6 s then 6 else 0)"

subsection \<open>The parsers\<close>

definition invalid_magic :: "bytes \<Rightarrow> bytes \<Rightarrow> bool" where
  "invalid_magic magic buf \<longleftrightarrow>
     (let n = min (length buf) (length magic) in take n buf \<noteq> take n magic)"

definition v2_header :: "nat \<Rightarrow> proxy_command \<Rightarrow> proxy_family \<Rightarrow> string option \<Rightarrow> nat option \<Rightarrow> proxy_header" where
  "v2_header len cmd fam ip port =
     \<lparr>ph_version = 2, ph_length = len, ph_command = cmd, ph_family = fam, ph_ip = ip, ph_port = port\<rparr>"

text \<open>What the fixed 16 bytes alone can prove wrong.\<close>

definition v2_refused :: "8 word \<Rightarrow> 8 word \<Rightarrow> nat \<Rightarrow> bool" where
  "v2_refused cmd family len \<longleftrightarrow>
     proxy_v2_max_block < len
     \<or> (cmd = 1 \<and>
         (if family = 0x11 then len < addr_len_tcp4
          else if family = 0x21 then len < addr_len_tcp6
          else family \<noteq> 0))"

definition parse_proxy_v2 :: "bytes \<Rightarrow> proxy_result" where
  "parse_proxy_v2 buf =
     (if invalid_magic proxy_v2_signature buf then Invalid
      else if length buf < header_fixed then Incomplete header_fixed
      else
        let ver_cmd = buf ! 12; cmd = ver_cmd AND 0x0f; family = buf ! 13;
            len = u16 (buf ! 14) (buf ! 15); header_length = header_fixed + len
        in if drop_bit 4 ver_cmd \<noteq> 2 then Invalid
           else if cmd \<noteq> 0 \<and> cmd \<noteq> 1 then Invalid
           else if v2_refused cmd family len then Invalid
           else if length buf < header_length then Incomplete header_length
           else if cmd = 0 then Ok (v2_header header_length CmdLocal Unspec None None)
           else if family = 0x11 then
             Ok (v2_header header_length CmdProxy TCP4 (Some (format_ipv4 (take 4 (drop 16 buf))))
                  (Some (u16 (buf ! 24) (buf ! 25))))
           else if family = 0x21 then
             Ok (v2_header header_length CmdProxy TCP6 (Some (format_ipv6 (take 16 (drop 16 buf))))
                  (Some (u16 (buf ! 48) (buf ! 49))))
           else Ok (v2_header header_length CmdProxy Unspec None None))"

text \<open>\<open>buf.indexOf('\r\n')\<close>.\<close>

fun crlf_index :: "bytes \<Rightarrow> nat option" where
  "crlf_index (a # b # bs) =
     (if a = 13 \<and> b = 10 then Some 0 else map_option Suc (crlf_index (b # bs)))"
| "crlf_index _ = None"

definition printable :: "char \<Rightarrow> bool" where
  "printable c \<longleftrightarrow> 0x20 \<le> (of_char c :: nat) \<and> (of_char c :: nat) \<le> 0x7e"

definition port_re :: "string \<Rightarrow> bool" where
  "port_re s \<longleftrightarrow> s = ''0'' \<or>
     (1 \<le> length s \<and> length s \<le> 5 \<and> list_all is_digit s \<and> hd s \<noteq> CHR ''0'')"

definition v1_header :: "nat \<Rightarrow> proxy_family \<Rightarrow> string option \<Rightarrow> nat option \<Rightarrow> proxy_header" where
  "v1_header len fam ip port =
     \<lparr>ph_version = 1, ph_length = len, ph_command = CmdProxy, ph_family = fam, ph_ip = ip, ph_port = port\<rparr>"

definition v1_address :: "nat \<Rightarrow> string \<Rightarrow> string list \<Rightarrow> proxy_result" where
  "v1_address header_length proto ws =
     (if length ws \<noteq> 6 then Invalid
      else
        let src = ws ! 2; dst = ws ! 3; sport = ws ! 4; dport = ws ! 5;
            fam = (if proto = ''TCP4'' then 4 else 6)
        in if is_ip src \<noteq> fam \<or> is_ip dst \<noteq> fam then Invalid
           else if \<not> port_re sport \<or> \<not> port_re dport then Invalid
           else if 65535 < digits_value sport \<or> 65535 < digits_value dport then Invalid
           else Ok (v1_header header_length (if proto = ''TCP4'' then TCP4 else TCP6) (Some src)
                      (Some (digits_value sport))))"

definition v1_line :: "nat \<Rightarrow> string \<Rightarrow> proxy_result" where
  "v1_line header_length line =
     (if \<not> list_all printable line then Invalid
      else
        let ws = split_char (CHR '' '') line
        in if ws ! 0 \<noteq> ''PROXY'' \<or> length ws < 2 then Invalid
           else if ws ! 1 = ''UNKNOWN'' then Ok (v1_header header_length Unspec None None)
           else if ws ! 1 \<noteq> ''TCP4'' \<and> ws ! 1 \<noteq> ''TCP6'' then Invalid
           else v1_address header_length (ws ! 1) ws)"

definition parse_proxy_v1 :: "bytes \<Rightarrow> proxy_result" where
  "parse_proxy_v1 buf =
     (if invalid_magic proxy_v1_prefix buf then Invalid
      else case crlf_index buf of
        None \<Rightarrow> if proxy_v1_max_line \<le> length buf then Invalid else Incomplete (length buf + 1)
      | Some crlf \<Rightarrow>
          if proxy_v1_max_line < crlf + 2 then Invalid
          else v1_line (crlf + 2) (latin1 (take crlf buf)))"

definition parse_proxy_header :: "bytes \<Rightarrow> proxy_result" where
  "parse_proxy_header buf =
     (if buf = [] then Incomplete 1
      else if hd buf = hd proxy_v2_signature then parse_proxy_v2 buf
      else if hd buf = hd proxy_v1_prefix then parse_proxy_v1 buf
      else Invalid)"

text \<open>\<open>buildProxyV1\<close>.\<close>

definition build_proxy_v1 :: "string \<Rightarrow> string \<Rightarrow> string \<Rightarrow> nat \<Rightarrow> nat \<Rightarrow> bytes" where
  "build_proxy_v1 proto src dst sport dport =
     (if proto = ''UNKNOWN'' then to_latin1 (''PROXY UNKNOWN'' @ [CHR 0x0D, CHR 0x0A])
      else to_latin1 (''PROXY '' @ proto @ '' '' @ src @ '' '' @ dst @ '' '' @ num_str sport
             @ '' '' @ num_str dport @ [CHR 0x0D, CHR 0x0A]))"

text \<open>The part of \<open>buildProxyV2\<close> that lays out the packet: \<open>src\<close> and \<open>dst\<close> are the 4 or 16 bytes
  the two literals were read to.\<close>

definition be16 :: "nat \<Rightarrow> bytes" where
  "be16 n = [of_nat (n div 256), of_nat (n mod 256)]"

definition proxy_v2_local :: bytes where
  "proxy_v2_local = proxy_v2_signature @ [0x20 OR 0, 0] @ be16 0"

definition proxy_v2_packet :: "bytes \<Rightarrow> bytes \<Rightarrow> nat \<Rightarrow> nat \<Rightarrow> bytes \<Rightarrow> bytes" where
  "proxy_v2_packet src dst port dst_port tlvs =
     (let body = src @ dst @ be16 port @ be16 dst_port @ tlvs
      in proxy_v2_signature @ [0x20 OR 1, if length src = 16 then 0x21 else 0x11]
           @ be16 (length body) @ body)"

subsection \<open>The grammar interface\<close>

text \<open>What a reader that consumes a header piece by piece needs of the parser: progress, a header
  never longer than the bytes given, verdicts that more bytes never change, and a request for
  more bytes that never reaches past the header.\<close>

locale header_grammar =
  fixes parse :: "bytes \<Rightarrow> proxy_result" and first_read max_header :: nat
  assumes progress: "parse b = Incomplete n \<Longrightarrow> length b < n"
    and within: "parse b = Ok h \<Longrightarrow> ph_length h \<le> length b"
    and ok_stable: "parse b = Ok h \<Longrightarrow> parse (b @ c) = Ok h"
    and invalid_stable: "parse b = Invalid \<Longrightarrow> parse (b @ c) = Invalid"
    and need_within: "parse b = Incomplete n \<Longrightarrow> parse (b @ c) = Ok h \<Longrightarrow> n \<le> ph_length h"
    and first_within: "parse b = Ok h \<Longrightarrow> first_read \<le> ph_length h"
    and need_bounded: "parse b = Incomplete n \<Longrightarrow> n \<le> max_header"
    and first_pos: "0 < first_read"

lemma not_invalid_magic_append:
  "\<not> invalid_magic m (b @ c) \<Longrightarrow> \<not> invalid_magic m b"
proof -
  assume "\<not> invalid_magic m (b @ c)"
  then have "take (min (length b) (length m)) (take (min (length (b @ c)) (length m)) (b @ c))
      = take (min (length b) (length m)) (take (min (length (b @ c)) (length m)) m)"
    by (simp add: invalid_magic_def Let_def)
  then show ?thesis
    by (simp add: invalid_magic_def Let_def min_def take_append split: if_splits)
qed

lemma invalid_magic_append:
  "length m \<le> length b \<Longrightarrow> invalid_magic m (b @ c) = invalid_magic m b"
  by (simp add: invalid_magic_def Let_def min_def)

lemma length_signature [simp]: "length proxy_v2_signature = 12"
  by (simp add: proxy_v2_signature_def)

lemma length_v1_prefix [simp]: "length proxy_v1_prefix = 6"
  by (simp add: proxy_v1_prefix_def)

lemma v2_refused_addr: "\<not> v2_refused 1 family len \<Longrightarrow> family = 0x11 \<Longrightarrow> 12 \<le> len"
  "\<not> v2_refused 1 family len \<Longrightarrow> family = 0x21 \<Longrightarrow> 36 \<le> len"
  "\<not> v2_refused cmd family len \<Longrightarrow> len \<le> 548"
  by (auto simp: v2_refused_def addr_len_tcp4_def addr_len_tcp6_def proxy_v2_max_block_def split: if_splits)

lemma v2_long: "16 \<le> length b \<Longrightarrow> parse_proxy_v2 b =
   (if invalid_magic proxy_v2_signature b then Invalid
    else
        let ver_cmd = b ! 12; cmd = ver_cmd AND 0x0f; family = b ! 13;
            len = u16 (b ! 14) (b ! 15); header_length = 16 + len
        in if drop_bit 4 ver_cmd \<noteq> 2 then Invalid
           else if cmd \<noteq> 0 \<and> cmd \<noteq> 1 then Invalid
           else if v2_refused cmd family len then Invalid
           else if length b < header_length then Incomplete header_length
           else if cmd = 0 then Ok (v2_header header_length CmdLocal Unspec None None)
           else if family = 0x11 then
             Ok (v2_header header_length CmdProxy TCP4 (Some (format_ipv4 (take 4 (drop 16 b))))
                  (Some (u16 (b ! 24) (b ! 25))))
           else if family = 0x21 then
             Ok (v2_header header_length CmdProxy TCP6 (Some (format_ipv6 (take 16 (drop 16 b))))
                  (Some (u16 (b ! 48) (b ! 49))))
           else Ok (v2_header header_length CmdProxy Unspec None None))"
  by (simp add: parse_proxy_v2_def header_fixed_def Let_def)

lemma v2_short: "length b < 16 \<Longrightarrow> parse_proxy_v2 b =
   (if invalid_magic proxy_v2_signature b then Invalid else Incomplete 16)"
  by (simp add: parse_proxy_v2_def header_fixed_def)

lemma v2_Incomplete: "parse_proxy_v2 b = Incomplete n \<Longrightarrow>
   length b < n \<and> 16 \<le> n \<and> n \<le> 564 \<and> (16 \<le> length b \<longrightarrow> n = 16 + u16 (b ! 14) (b ! 15))"
  by (cases "length b < 16")
    (auto simp: v2_short v2_long Let_def dest: v2_refused_addr split: if_splits)

lemma v2_Ok: "parse_proxy_v2 b = Ok h \<Longrightarrow>
   ph_length h = 16 + u16 (b ! 14) (b ! 15) \<and> ph_length h \<le> length b \<and> ph_length h \<le> 564"
  by (cases "length b < 16")
    (auto simp: v2_short v2_long Let_def v2_header_def dest: v2_refused_addr split: if_splits)

lemma v2_Ok_stable: "parse_proxy_v2 b = Ok h \<Longrightarrow> parse_proxy_v2 (b @ c) = Ok h"
proof -
  assume h: "parse_proxy_v2 b = Ok h"
  have l: "16 \<le> length b" using h by (rule contrapos_pp) (simp add: v2_short)
  have n: "(b @ c) ! k = b ! k" if "k < length b" for k using that by (simp add: nth_append)
  from h l show ?thesis
    by (auto simp: v2_long Let_def invalid_magic_append n take_append dest: v2_refused_addr split: if_splits)
qed

lemma v2_Invalid_stable: "parse_proxy_v2 b = Invalid \<Longrightarrow> parse_proxy_v2 (b @ c) = Invalid"
proof (cases "length b < 16")
  case True
  assume "parse_proxy_v2 b = Invalid"
  with True have "invalid_magic proxy_v2_signature b" by (simp add: v2_short split: if_splits)
  then have "invalid_magic proxy_v2_signature (b @ c)" using not_invalid_magic_append by blast
  then show ?thesis by (simp add: parse_proxy_v2_def)
next
  case False
  assume "parse_proxy_v2 b = Invalid"
  with False show ?thesis
    by (auto simp: v2_long Let_def invalid_magic_append nth_append split: if_splits)
qed

lemma crlf_index_Some: "crlf_index b = Some i \<Longrightarrow> i + 2 \<le> length b \<and> crlf_index (b @ c) = Some i"
  by (induction b arbitrary: i rule: crlf_index.induct) (auto split: if_splits)

lemma crlf_index_later: "crlf_index b = None \<Longrightarrow> crlf_index (b @ c) = Some i \<Longrightarrow> length b \<le> i + 1"
proof (induction b arbitrary: i rule: crlf_index.induct)
  case (1 a b bs)
  then show ?case by (auto split: if_splits)
qed auto

lemma crlf_index_min: "crlf_index b = Some i \<Longrightarrow> b ! i = 13 \<and> b ! (i + 1) = 10"
  by (induction b arbitrary: i rule: crlf_index.induct) (auto split: if_splits)

lemma v1_line_Ok: "v1_line n l = Ok h \<Longrightarrow> ph_length h = n"
  by (auto simp: v1_line_def v1_address_def v1_header_def Let_def split: if_splits)

lemma v1_line_not_Incomplete: "v1_line n l \<noteq> Incomplete k"
  by (simp add: v1_line_def v1_address_def Let_def)

lemma v1_Incomplete: "parse_proxy_v1 b = Incomplete n \<Longrightarrow>
   n = length b + 1 \<and> n \<le> 107 \<and> crlf_index b = None"
  by (auto simp: parse_proxy_v1_def proxy_v1_max_line_def v1_line_not_Incomplete
      split: if_splits option.splits)

lemma v1_Ok: "parse_proxy_v1 b = Ok h \<Longrightarrow> \<exists>i. crlf_index b = Some i \<and> ph_length h = i + 2
   \<and> \<not> invalid_magic proxy_v1_prefix b \<and> i + 2 \<le> 107"
  by (auto simp: parse_proxy_v1_def proxy_v1_max_line_def dest: v1_line_Ok
      split: if_splits option.splits)

lemma v1_within: "parse_proxy_v1 b = Ok h \<Longrightarrow> ph_length h \<le> length b"
  using v1_Ok [of b h] crlf_index_Some [of b] by fastforce

text \<open>A complete v1 line is longer than its prefix: the CRLF cannot stand inside it.\<close>

lemma v1_Ok_length: "parse_proxy_v1 b = Ok h \<Longrightarrow> 6 \<le> ph_length h"
proof -
  assume "parse_proxy_v1 b = Ok h"
  then obtain i where i: "crlf_index b = Some i" "ph_length h = i + 2"
    "\<not> invalid_magic proxy_v1_prefix b" using v1_Ok by blast
  have l: "i + 2 \<le> length b" using crlf_index_Some [OF i(1)] by blast
  have "\<not> i < 4"
  proof
    assume "i < 4"
    have "take (min (length b) 6) b = take (min (length b) 6) proxy_v1_prefix"
      using i(3) by (simp add: invalid_magic_def Let_def)
    then have "take (min (length b) 6) b ! i = take (min (length b) 6) proxy_v1_prefix ! i" by simp
    then have "b ! i = proxy_v1_prefix ! i" using l \<open>i < 4\<close> by simp
    moreover have "b ! i = 13" using crlf_index_min [OF i(1)] by blast
    moreover have "i = 0 \<or> i = 1 \<or> i = 2 \<or> i = 3" using \<open>i < 4\<close> by linarith
    ultimately show False by (auto simp: proxy_v1_prefix_def)
  qed
  then show ?thesis using i by simp
qed

lemma v1_Ok_stable: "parse_proxy_v1 b = Ok h \<Longrightarrow> parse_proxy_v1 (b @ c) = Ok h"
proof -
  assume h: "parse_proxy_v1 b = Ok h"
  then obtain i where i: "crlf_index b = Some i" using v1_Ok by blast
  have s: "crlf_index (b @ c) = Some i" "i + 2 \<le> length b"
    using crlf_index_Some [OF i] by blast+
  have m: "invalid_magic proxy_v1_prefix (b @ c) = invalid_magic proxy_v1_prefix b"
    using h v1_Ok_length [OF h] v1_Ok [OF h] i s(2) by (intro invalid_magic_append) auto
  show ?thesis using h s i m by (auto simp: parse_proxy_v1_def split: if_splits)
qed

lemma v1_Invalid_stable: "parse_proxy_v1 b = Invalid \<Longrightarrow> parse_proxy_v1 (b @ c) = Invalid"
proof -
  assume h: "parse_proxy_v1 b = Invalid"
  show ?thesis
  proof (cases "invalid_magic proxy_v1_prefix b")
    case True
    then show ?thesis using not_invalid_magic_append by (auto simp: parse_proxy_v1_def)
  next
    case F: False
    show ?thesis
    proof (cases "crlf_index b")
      case None
      then have "107 \<le> length b"
        using h F by (simp add: parse_proxy_v1_def proxy_v1_max_line_def split: if_splits)
      then show ?thesis
        using crlf_index_later [OF None, of c]
        by (fastforce simp: parse_proxy_v1_def proxy_v1_max_line_def split: option.splits)
    next
      case (Some i)
      have s: "crlf_index (b @ c) = Some i" "i + 2 \<le> length b"
        using crlf_index_Some [OF Some] by blast+
      show ?thesis using h F Some s by (auto simp: parse_proxy_v1_def)
    qed
  qed
qed

lemma parse_dispatch:
  "parse_proxy_header b =
     (if b = [] then Incomplete 1
      else if hd b = 13 then parse_proxy_v2 b
      else if hd b = 80 then parse_proxy_v1 b else Invalid)"
  by (simp add: parse_proxy_header_def proxy_v2_signature_def proxy_v1_prefix_def)

lemma u16_bound: "u16 a b < 65536"
  using unsigned_less [of "push_bit 8 (ucast a :: 16 word) OR ucast b"] by (simp add: u16_def)

interpretation pp: header_grammar parse_proxy_header 6 564
proof unfold_locales
  show "parse_proxy_header b = Incomplete n \<Longrightarrow> length b < n" for b n
    by (auto simp: parse_dispatch dest: v1_Incomplete v2_Incomplete split: if_splits)
  show "parse_proxy_header b = Ok h \<Longrightarrow> ph_length h \<le> length b" for b h
    by (auto simp: parse_dispatch dest: v1_within v2_Ok split: if_splits)
  show "parse_proxy_header b = Ok h \<Longrightarrow> parse_proxy_header (b @ c) = Ok h" for b c h
    by (auto simp: parse_dispatch v1_Ok_stable v2_Ok_stable split: if_splits)
  show "parse_proxy_header b = Invalid \<Longrightarrow> parse_proxy_header (b @ c) = Invalid" for b c
    by (auto simp: parse_dispatch v1_Invalid_stable v2_Invalid_stable split: if_splits)
  show "parse_proxy_header b = Ok h \<Longrightarrow> 6 \<le> ph_length h" for b h
    by (auto simp: parse_dispatch dest: v1_Ok_length v2_Ok split: if_splits)
  show "parse_proxy_header b = Incomplete n \<Longrightarrow> n \<le> 564" for b n
    by (auto simp: parse_dispatch dest: v1_Incomplete v2_Incomplete split: if_splits)
  show "n \<le> ph_length h" if inc: "parse_proxy_header b = Incomplete n" and ok: "parse_proxy_header (b @ c) = Ok h" for b c n h
  proof -
    consider "b = []" | "b \<noteq> []" "hd b = 13" | "b \<noteq> []" "hd b = 80"
      using inc by (cases "b = []"; cases "hd b = 13"; cases "hd b = 80") (auto simp: parse_dispatch)
    then show ?thesis
    proof cases
      case 1
      then show ?thesis
        using inc ok \<open>\<And>b h. parse_proxy_header b = Ok h \<Longrightarrow> 6 \<le> ph_length h\<close> [of "b @ c" h]
        by (simp add: parse_dispatch)
    next
      case 2
      then have v: "parse_proxy_v2 b = Incomplete n" "parse_proxy_v2 (b @ c) = Ok h"
        using inc ok by (simp_all add: parse_dispatch)
      show ?thesis
        using v2_Incomplete [OF v(1)] v2_Ok [OF v(2)] v(1)
        by (cases "length b < 16") (auto simp: v2_short nth_append split: if_splits)
    next
      case 3
      then have v: "parse_proxy_v1 b = Incomplete n" "parse_proxy_v1 (b @ c) = Ok h"
        using inc ok by (simp_all add: parse_dispatch)
      show ?thesis
        using v1_Incomplete [OF v(1)] v1_Ok [OF v(2)] crlf_index_later [of b c] by auto
    qed
  qed
qed simp

subsection \<open>The text of an address\<close>

lemma str_join_Nil [simp]: "str_join sep [] = []"
  by (simp add: str_join_def)

lemma str_join_single [simp]: "str_join sep [w] = w"
  by (simp add: str_join_def)

lemma str_join_Cons2 [simp]: "str_join sep (w # v # ws) = w @ sep @ str_join sep (v # ws)"
  by (simp add: str_join_def)

lemma split_join:
  "ws \<noteq> [] \<Longrightarrow> (\<forall>w \<in> set ws. c \<notin> set w) \<Longrightarrow> split_char c (str_join [c] ws) = ws"
proof (induction ws rule: induct_list012)
  case (3 w v ws)
  then show ?case by (simp add: split_char_append)
qed (auto simp: split_char_none)

lemma v4_seg_num_str: "n < 256 \<Longrightarrow> v4_seg (num_str n)"
proof -
  assume n: "n < 256"
  have "length (num_str n) = 1 \<or> hd (num_str n) \<noteq> CHR ''0''"
    using num_str_head [of n] by (cases "n = 0") (simp_all add: num_str.simps [of 0])
  then show ?thesis
    using n length_num_str_le [of n 2] by (simp add: v4_seg_def num_str_digits)
qed

lemma char_not_digit: "\<not> is_digit c \<Longrightarrow> list_all is_digit s \<Longrightarrow> c \<notin> set s"
  by (auto simp: list_all_iff)

lemma sep_not_digit [simp]: "\<not> is_digit (CHR ''.'')" "\<not> is_digit (CHR '':'')" "\<not> is_digit (CHR '' '')"
  by code_simp+

lemma dotted_split:
  "bs \<noteq> [] \<Longrightarrow> split_char (CHR ''.'') (dotted bs) = map (\<lambda>b. num_str (unat b)) bs"
  unfolding dotted_def by (rule split_join) (auto simp: char_not_digit num_str_digits)

lemma is_ipv4_dotted: "length bs = 4 \<Longrightarrow> is_ipv4 (dotted bs)"
proof -
  assume l: "length bs = 4"
  have "unat b < 256" for b :: "8 word" using unsigned_less [of b] by simp
  moreover have "bs \<noteq> []" using l by auto
  ultimately show ?thesis
    using l dotted_split [of bs] by (auto simp: is_ipv4_def Let_def list_all_iff v4_seg_num_str)
qed

lemma dotted_inj: "dotted a = dotted b \<Longrightarrow> a \<noteq> [] \<Longrightarrow> b \<noteq> [] \<Longrightarrow> a = b"
proof -
  assume "dotted a = dotted b" "a \<noteq> []" "b \<noteq> []"
  then have "map digits_value (map (\<lambda>b. num_str (unat b)) a)
      = map digits_value (map (\<lambda>b. num_str (unat b)) b)"
    using dotted_split [of a] dotted_split [of b] by simp
  then have "map unat a = map unat b" by (simp add: comp_def)
  then show "a = b" by (rule map_injective) (simp add: inj_def word_unat_eq_iff)
qed

text \<open>Hexadecimal groups.\<close>

definition hex_digit_value :: "char \<Rightarrow> nat" where
  "hex_digit_value c = (let n = of_char c in if n \<le> 57 then n - 48 else n - 87)"

definition hex_value :: "string \<Rightarrow> nat" where
  "hex_value s = foldl (\<lambda>n c. 16 * n + hex_digit_value c) 0 s"

lemma of_hex_char: "d < 16 \<Longrightarrow> (of_char (hex_char d) :: nat) = (if d < 10 then 48 + d else 87 + d)"
  by (simp add: hex_char_def)

lemma hex_digit_hex_char: "d < 16 \<Longrightarrow> is_hex_digit (hex_char d) \<and> hex_digit_value (hex_char d) = d"
  by (simp add: is_hex_digit_def is_digit_def of_hex_char hex_digit_value_def Let_def)

lemma hex_str_digits: "list_all is_hex_digit (hex_str n)"
proof (induction n rule: hex_str.induct)
  case (1 n)
  then show ?case by (subst hex_str.simps) (simp add: hex_digit_hex_char)
qed

lemma hex_str_not_Nil [simp]: "hex_str n \<noteq> []"
  by (subst hex_str.simps) simp

lemma hex_value_hex_str [simp]: "hex_value (hex_str n) = n"
proof (induction n rule: hex_str.induct)
  case (1 n)
  then show ?case
    by (subst hex_str.simps) (simp add: hex_value_def hex_digit_hex_char)
qed

lemma length_hex_str_le: "n < 16 ^ Suc k \<Longrightarrow> length (hex_str n) \<le> Suc k"
proof (induction k arbitrary: n)
  case 0
  then show ?case by (subst hex_str.simps) simp
next
  case (Suc k)
  then have "n div 16 < 16 ^ Suc k" by (simp add: less_mult_imp_div_less mult.commute)
  then show ?case using Suc.IH [of "n div 16"] by (subst hex_str.simps) simp
qed

lemma v6_seg_hex_str: "n < 65536 \<Longrightarrow> v6_seg (hex_str n)"
  using length_hex_str_le [of n 3] by (simp add: v6_seg_def hex_str_digits)

lemma not_hex_digit [simp]: "\<not> is_hex_digit (CHR '':'')" "\<not> is_hex_digit (CHR ''.'')"
  "\<not> is_hex_digit (CHR ''%'')"
  by code_simp+

lemma hex_str_no: "\<not> is_hex_digit c \<Longrightarrow> c \<notin> set (hex_str n)"
  using hex_str_digits [of n] by (auto simp: list_all_iff)

text \<open>Texts without \<open>::\<close> that do not end in a colon.\<close>

fun simple_text :: "string \<Rightarrow> bool" where
  "simple_text [] = True"
| "simple_text [c] = (c \<noteq> CHR '':'')"
| "simple_text (c # d # cs) = (\<not> (c = CHR '':'' \<and> d = CHR '':'') \<and> simple_text (d # cs))"

lemma split_double_simple: "simple_text s \<Longrightarrow> split_double s = [s]"
  by (induction s rule: simple_text.induct) auto

lemma split_double_append: "simple_text s \<Longrightarrow> split_double (s @ ''::'' @ t) = s # split_double t"
proof (induction s rule: simple_text.induct)
  case (3 c d cs)
  then show ?case by (cases cs) auto
qed (auto split: list.splits)

lemma simple_text_word: "CHR '':'' \<notin> set w \<Longrightarrow> simple_text w"
  by (induction w rule: simple_text.induct) auto

lemma simple_text_append:
  "CHR '':'' \<notin> set w \<Longrightarrow> w \<noteq> [] \<Longrightarrow> simple_text s \<Longrightarrow> s \<noteq> [] \<Longrightarrow> hd s \<noteq> CHR '':''
     \<Longrightarrow> simple_text (w @ CHR '':'' # s)"
proof (induction w rule: simple_text.induct)
  case (2 c)
  then show ?case by (cases s) auto
qed auto

definition hex_groups :: "nat list \<Rightarrow> string" where
  "hex_groups gs = str_join '':'' (map hex_str gs)"

lemma hex_groups_head: "gs \<noteq> [] \<Longrightarrow> hex_groups gs \<noteq> [] \<and> hd (hex_groups gs) \<noteq> CHR '':''"
proof (cases gs)
  case (Cons g hs)
  have "hd (hex_str g) \<noteq> CHR '':''"
    using hex_str_no [of "CHR '':''" g] hd_in_set [OF hex_str_not_Nil, of g] by force
  with Cons show ?thesis by (cases hs) (auto simp: hex_groups_def)
qed simp

lemma simple_hex_groups: "simple_text (hex_groups gs)"
proof (induction gs rule: induct_list012)
  case (3 g h gs)
  then show ?case
    using hex_groups_head [of "h # gs"]
    by (simp add: hex_groups_def simple_text_append hex_str_no)
qed (simp_all add: hex_groups_def simple_text_word hex_str_no)

lemma parts_hex_groups: "colon_parts (hex_groups gs) = map hex_str gs"
proof (cases "gs = []")
  case True
  then show ?thesis by (simp add: hex_groups_def colon_parts_def)
next
  case False
  then show ?thesis
    using hex_groups_head [OF False] split_join [of "map hex_str gs" "CHR '':''"]
    by (simp add: colon_parts_def hex_groups_def hex_str_no)
qed

subsection \<open>The collapsed run\<close>

definition is_run :: "nat list \<Rightarrow> nat \<Rightarrow> nat \<Rightarrow> bool" where
  "is_run gs k m \<longleftrightarrow> k + m \<le> length gs \<and> (\<forall>j. k \<le> j \<and> j < k + m \<longrightarrow> gs ! j = 0)"

lemma zero_run_is_run: "i \<le> length gs \<Longrightarrow> is_run gs i (zero_run (drop i gs))"
proof -
  assume i: "i \<le> length gs"
  let ?t = "takeWhile (\<lambda>g. g = 0) (drop i gs)"
  have len: "length ?t \<le> length gs - i" using length_takeWhile_le [of _ "drop i gs"] by simp
  have "gs ! j = 0" if "i \<le> j" "j < i + length ?t" for j
  proof -
    have "?t ! (j - i) = drop i gs ! (j - i)" using that by (intro takeWhile_nth) simp
    moreover have "?t ! (j - i) \<in> set ?t" using that by (intro nth_mem) simp
    moreover have "drop i gs ! (j - i) = gs ! j" using i that by simp
    ultimately show ?thesis by (metis set_takeWhileD)
  qed
  then show ?thesis using i len by (simp add: is_run_def zero_run_def)
qed

lemma zero_run_stops:
  "i + zero_run (drop i gs) < length gs \<Longrightarrow> gs ! (i + zero_run (drop i gs)) \<noteq> 0"
  using nth_length_takeWhile [of "\<lambda>g. g = 0" "drop i gs"] by (simp add: zero_run_def)

lemma run_inside:
  "is_run gs k m \<Longrightarrow> i \<le> k \<Longrightarrow> k < i + zero_run (drop i gs) \<Longrightarrow> i \<le> length gs
     \<Longrightarrow> k + m \<le> i + zero_run (drop i gs)"
  using zero_run_stops [of i gs] unfolding is_run_def by (metis leI less_or_eq_imp_le order_less_le_trans)

lemma best_run_inv:
  assumes "i \<le> length gs" and "is_run gs bs bl" and "bs + bl \<le> i"
    and "\<And>k m. k < i \<Longrightarrow> is_run gs k m \<Longrightarrow> m \<le> bl \<and> (m = bl \<longrightarrow> bs \<le> k)"
    and "best_run gs i bs bl = (rs, rl)"
  shows "is_run gs rs rl \<and> (\<forall>k m. k < length gs \<longrightarrow> is_run gs k m \<longrightarrow> m \<le> rl \<and> (m = rl \<longrightarrow> rs \<le> k))"
  using assms
proof (induction gs i bs bl rule: best_run.induct)
  case (1 gs i bs bl)
  let ?r = "zero_run (drop i gs)"
  show ?case
  proof (cases "length gs \<le> i")
    case True
    then show ?thesis using 1(4-8) by (subst (asm) best_run.simps) auto
  next
    case i: False
    show ?thesis
    proof (cases "gs ! i = 0")
      case False
      have "m \<le> bl \<and> (m = bl \<longrightarrow> bs \<le> k)" if "k < i + 1" "is_run gs k m" for k m
      proof (cases "k < i")
        case True
        then show ?thesis using 1(7) that by simp
      next
        case F: False
        have k: "k = i" using that F by simp
        have "m = 0"
        proof (rule ccontr)
          assume "m \<noteq> 0"
          then have "gs ! i = 0" using that(2) k by (simp add: is_run_def)
          then show False using False by simp
        qed
        then show ?thesis using F 1(6) by simp
      qed
      then show ?thesis
        using 1(1) [OF i False] 1(4-6,8) i False by (subst (asm) best_run.simps) simp
    next
      case z: True
      have run: "is_run gs i ?r" using i by (intro zero_run_is_run) simp
      then have le: "i + ?r \<le> length gs" by (simp add: is_run_def)
      have inside: "m \<le> ?r \<and> (m = ?r \<longrightarrow> k = i)" if "i \<le> k" "k < i + ?r" "is_run gs k m" for k m
        using run_inside [OF that(3,1,2)] i that(1) by auto
      show ?thesis
      proof (cases "bl < ?r")
        case True
        have "m \<le> ?r \<and> (m = ?r \<longrightarrow> i \<le> k)" if "k < i + ?r" "is_run gs k m" for k m
          using inside [of k m] 1(7) [of k m] that True by (cases "k < i") auto
        then show ?thesis
          using 1(2) [OF i _ refl True] 1(8) i z run le True
          by (subst (asm) best_run.simps) (simp add: Let_def)
      next
        case False
        have "m \<le> bl \<and> (m = bl \<longrightarrow> bs \<le> k)" if "k < i + ?r" "is_run gs k m" for k m
          using inside [of k m] 1(7) [of k m] 1(6) that False by (cases "k < i") auto
        then show ?thesis
          using 1(3) [OF i _ refl False] 1(5,6,8) i z le False
          by (subst (asm) best_run.simps) (simp add: Let_def)
      qed
    qed
  qed
qed

lemma best_run_ok:
  assumes "best_run gs 0 0 0 = (rs, rl)"
  shows "is_run gs rs rl" and "k < length gs \<Longrightarrow> is_run gs k m \<Longrightarrow> m \<le> rl \<and> (m = rl \<longrightarrow> rs \<le> k)"
  using best_run_inv [of 0 gs 0 0 rs rl] assms by (auto simp: is_run_def)

lemma run_split: "is_run gs k m \<Longrightarrow> gs = take k gs @ replicate m 0 @ drop (k + m) gs"
proof -
  assume r: "is_run gs k m"
  have "take m (drop k gs) = replicate m 0"
    using r by (intro nth_equalityI) (auto simp: is_run_def)
  then show ?thesis
    by (metis append_take_drop_id drop_drop add.commute)
qed

subsection \<open>The text is an address, and names one address only\<close>

text \<open>A reader of the canonical text, to state that nothing is lost.\<close>

definition read_groups :: "string \<Rightarrow> nat list" where
  "read_groups s =
     (case split_double s of
        [w] \<Rightarrow> map hex_value (colon_parts w)
      | a # b # ws \<Rightarrow>
          (let h = map hex_value (colon_parts a); t = map hex_value (colon_parts b)
           in h @ replicate (8 - length h - length t) 0 @ t)
      | _ \<Rightarrow> [])"

lemma format_groups_eq:
  assumes "best_run gs 0 0 0 = (bs, bl)"
  shows "format_groups gs =
     (if bl < 2 then hex_groups gs
      else hex_groups (take bs gs) @ ''::'' @ hex_groups (drop (bs + bl) gs))"
  using assms by (simp add: format_groups_def hex_groups_def Let_def take_map drop_map)

lemma split_double_hex: "split_double (hex_groups gs) = [hex_groups gs]"
  by (rule split_double_simple [OF simple_hex_groups])

lemma split_double_hex2:
  "split_double (hex_groups gs @ ''::'' @ hex_groups hs) = [hex_groups gs, hex_groups hs]"
  using split_double_append [OF simple_hex_groups] split_double_hex by simp

lemma map_hex_value: "map hex_value (map hex_str gs) = gs"
  by (induction gs) simp_all

lemma read_format_groups: "length gs = 8 \<Longrightarrow> read_groups (format_groups gs) = gs"
proof -
  assume l: "length gs = 8"
  obtain bs bl where b: "best_run gs 0 0 0 = (bs, bl)" by (cases "best_run gs 0 0 0")
  have r: "is_run gs bs bl" using best_run_ok(1) [OF b] .
  then have le: "bs + bl \<le> 8" using l by (simp add: is_run_def)
  show ?thesis
  proof (cases "bl < 2")
    case True
    then show ?thesis
      by (simp add: format_groups_eq [OF b] read_groups_def split_double_hex parts_hex_groups map_hex_value
          del: map_map)
  next
    case False
    have "length (take bs gs) + length (drop (bs + bl) gs) + bl = 8" using l le by simp
    then have "8 - length (take bs gs) - length (drop (bs + bl) gs) = bl" by linarith
    then have "read_groups (format_groups gs) = take bs gs @ replicate bl 0 @ drop (bs + bl) gs"
      using False split_double_hex2 [of "take bs gs" "drop (bs + bl) gs"]
      by (simp add: format_groups_eq [OF b] read_groups_def parts_hex_groups map_hex_value Let_def
          del: map_map)
    then show ?thesis using run_split [OF r] by simp
  qed
qed

lemma part_groups_hex: "\<forall>g \<in> set gs. g < 65536 \<Longrightarrow> part_groups lp (map hex_str gs) = Some (length gs)"
  by (auto simp: part_groups_def list_all_iff v6_seg_hex_str)

lemma v6_body_format_groups:
  assumes "length gs = 8" and "\<forall>g \<in> set gs. g < 65536"
  shows "v6_body (format_groups gs)"
proof -
  obtain bs bl where b: "best_run gs 0 0 0 = (bs, bl)" by (cases "best_run gs 0 0 0")
  have le: "bs + bl \<le> 8" using best_run_ok(1) [OF b] assms(1) by (simp add: is_run_def)
  have t: "\<forall>g \<in> set (take bs gs). g < 65536" "\<forall>g \<in> set (drop (bs + bl) gs). g < 65536"
    using assms(2) by (auto dest: in_set_takeD in_set_dropD)
  show ?thesis
    using assms le t split_double_hex2 [of "take bs gs" "drop (bs + bl) gs"]
    by (auto simp: format_groups_eq [OF b] v6_body_def split_double_hex parts_hex_groups part_groups_hex)
qed

lemma hex_groups_no: "\<not> is_hex_digit c \<Longrightarrow> c \<noteq> CHR '':'' \<Longrightarrow> c \<notin> set (hex_groups gs)"
proof (induction gs rule: induct_list012)
  case (3 g h gs)
  then show ?case by (simp add: hex_groups_def hex_str_no)
qed (simp_all add: hex_groups_def hex_str_no)

lemma format_groups_no: "\<not> is_hex_digit c \<Longrightarrow> c \<noteq> CHR '':'' \<Longrightarrow> c \<notin> set (format_groups gs)"
  by (cases "best_run gs 0 0 0") (auto simp: format_groups_eq hex_groups_no)

lemma ipv6_groups_length: "length (ipv6_groups bs) = length bs div 2"
  by (induction bs rule: ipv6_groups.induct) auto

lemma ipv6_groups_bound: "g \<in> set (ipv6_groups bs) \<Longrightarrow> g < 65536"
  by (induction bs rule: ipv6_groups.induct) (auto simp: u16_bound)

lemma shift_or_nat: "b < 256 \<Longrightarrow> push_bit 8 a OR b = 256 * a + (b::nat)"
proof -
  assume b: "b < 256"
  have "take_bit 8 b = b" using b by (simp add: take_bit_nat_eq_self)
  then have t: "bit b n \<Longrightarrow> n < 8" for n by (metis bit_take_bit_iff)
  have "push_bit 8 a + b = push_bit 8 a OR b"
    by (rule disjunctive_add_eq_or, rule bit_eqI) (auto simp: bit_and_iff bit_push_bit_iff dest: t)
  then show ?thesis by (simp add: push_bit_eq_mult)
qed
lemma u16_eq: "u16 a b = 256 * unat a + unat b"
proof -
  have ab: "unat a < 256" "unat b < 256" using unsigned_less [of a] unsigned_less [of b] by simp_all
  then have l: "256 * unat a + unat b < 65536" by linarith
  have p: "unat (push_bit 8 (ucast a :: 16 word)) = push_bit 8 (unat a)"
    using ab by (subst unsigned_push_bit_eq) (simp add: unsigned_ucast_eq take_bit_nat_eq_self push_bit_eq_mult)
  have q: "unat (ucast b :: 16 word) = unat b"
    using ab by (simp add: unsigned_ucast_eq take_bit_nat_eq_self)
  show ?thesis unfolding u16_def unsigned_or_eq p q by (rule shift_or_nat [OF ab(2)])
qed

lemma u16_inj: "u16 a b = u16 c d \<Longrightarrow> a = c \<and> b = d"
proof -
  assume e: "u16 a b = u16 c d"
  have "unat b < 256" "unat d < 256" using unsigned_less [of b] unsigned_less [of d] by simp_all
  moreover have "(256 * unat a + unat b) mod 256 = (256 * unat c + unat d) mod 256"
    using e unfolding u16_eq by simp
  ultimately have "unat b = unat d" by simp
  then have "unat a = unat c \<and> unat b = unat d" using e unfolding u16_eq by simp
  then show ?thesis by (simp add: word_unat_eq_iff)
qed

lemma ipv6_groups_inj:
  "ipv6_groups a = ipv6_groups b \<Longrightarrow> length a = length b \<Longrightarrow> even (length a) \<Longrightarrow> a = b"
proof (induction a arbitrary: b rule: induct_list012)
  case (3 hi lo rest)
  then obtain x y r where b: "b = x # y # r" by (cases b rule: ipv6_groups.cases) auto
  show ?case using 3(1) [of r] 3(3-5) b u16_inj [of hi lo x y] by auto
next
  case (2 x)
  then show ?case by (metis One_nat_def length_Cons list.size(3) odd_one)
qed simp

lemma dotted_no_colon: "CHR '':'' \<notin> set (dotted bs)"
proof (induction bs rule: induct_list012)
  case (3 x y zs)
  then show ?case by (simp add: dotted_def char_not_digit num_str_digits)
qed (simp_all add: dotted_def char_not_digit num_str_digits)

lemma is_ipv4_dot: "is_ipv4 s \<Longrightarrow> CHR ''.'' \<in> set s"
  by (rule ccontr) (simp add: is_ipv4_def split_char_none)

lemma mapped_bytes: "length bs = 16 \<Longrightarrow> bs = take 12 bs @ take 4 (drop 12 bs)"
  by simp

lemma groups_take: "ipv6_groups (take (2 * n) bs) = take n (ipv6_groups bs)"
proof (induction bs arbitrary: n rule: induct_list012)
  case (2 b)
  then show ?case by (cases n) auto
next
  case (3 hi lo rest)
  then show ?case by (cases n) auto
qed simp

lemma format_ipv6_valid:
  assumes "length bs = 16"
  shows "is_ip (format_ipv6 bs) =
     (if take 6 (ipv6_groups bs) = [0, 0, 0, 0, 0, 0xffff] then 4 else 6)"
proof -
  let ?gs = "ipv6_groups bs"
  have l: "length ?gs = 8" using assms by (simp add: ipv6_groups_length)
  have v: "v6_body (format_groups ?gs)" by (rule v6_body_format_groups [OF l]) (auto intro: ipv6_groups_bound)
  have n: "CHR ''.'' \<notin> set (format_groups ?gs)" "CHR ''%'' \<notin> set (format_groups ?gs)"
    by (simp_all add: format_groups_no)
  then have "is_ipv6 (format_groups ?gs)" using v by (simp add: is_ipv6_def index_of_None_iff [THEN iffD2])
  then have "is_ip (format_groups ?gs) = 6" using n is_ipv4_dot by (auto simp: is_ip_def)
  moreover have "is_ip (dotted (take 4 (drop 12 bs))) = 4"
    using assms by (simp add: is_ip_def is_ipv4_dotted)
  ultimately show ?thesis by (simp add: format_ipv6_def)
qed

lemma format_ipv6_inj:
  assumes "length a = 16" and "length b = 16" and "format_ipv6 a = format_ipv6 b"
  shows "a = b"
proof (cases "take 6 (ipv6_groups a) = [0, 0, 0, 0, 0, 0xffff]")
  case True
  then have bt: "take 6 (ipv6_groups b) = take 6 (ipv6_groups a)"
    using format_ipv6_valid [OF assms(1)] format_ipv6_valid [OF assms(2)] assms(3)
    by (simp split: if_splits)
  then have "dotted (take 4 (drop 12 a)) = dotted (take 4 (drop 12 b))"
    using assms(3) True by (simp add: format_ipv6_def)
  then have "take 4 (drop 12 a) = take 4 (drop 12 b)"
    by (rule dotted_inj) (use assms in auto)
  moreover have "take 12 a = take 12 b"
    using bt groups_take [of 6 a] groups_take [of 6 b] assms
    by (intro ipv6_groups_inj) simp_all
  ultimately show ?thesis using mapped_bytes [OF assms(1)] mapped_bytes [OF assms(2)] by metis
next
  case False
  then have bf: "take 6 (ipv6_groups b) \<noteq> [0, 0, 0, 0, 0, 0xffff]"
    using format_ipv6_valid [OF assms(1)] format_ipv6_valid [OF assms(2)] assms(3)
    by (simp split: if_splits)
  then have "format_groups (ipv6_groups a) = format_groups (ipv6_groups b)"
    using assms(3) False by (simp add: format_ipv6_def)
  then have "ipv6_groups a = ipv6_groups b"
    using read_format_groups assms(1,2) by (metis ipv6_groups_length numeral_Bit0_div_2 div_mult_self1_is_m
        nonzero_mult_div_cancel_left)
  then show ?thesis using assms by (intro ipv6_groups_inj) simp_all
qed

subsection \<open>The characters of an address\<close>

definition addr_char :: "char \<Rightarrow> bool" where
  "addr_char c \<longleftrightarrow> is_alnum c \<or> c = CHR ''-'' \<or> c = CHR ''.'' \<or> c = CHR '':'' \<or> c = CHR ''%''"

lemma split_char_covers: "x \<in> set s \<Longrightarrow> x = c \<or> (\<exists>w \<in> set (split_char c s). x \<in> set w)"
proof (induction s)
  case (Cons d ds)
  then show ?case by (cases "split_char c ds") auto
qed simp

lemma split_double_covers: "x \<in> set s \<Longrightarrow> x = CHR '':'' \<or> (\<exists>w \<in> set (split_double s). x \<in> set w)"
proof (induction s rule: split_double.induct)
  case (3 c d cs)
  then show ?case by (cases "split_double (d # cs)") (auto split: if_splits)
qed auto

lemma v4_seg_addr: "v4_seg p \<Longrightarrow> x \<in> set p \<Longrightarrow> addr_char x"
  by (auto simp: v4_seg_def addr_char_def is_alnum_def list_all_iff)

lemma is_ipv4_addr: "is_ipv4 s \<Longrightarrow> x \<in> set s \<Longrightarrow> addr_char x"
  using split_char_covers [of x s "CHR ''.''"] v4_seg_addr
  by (auto simp: is_ipv4_def Let_def list_all_iff addr_char_def)

lemma v6_seg_addr: "v6_seg p \<Longrightarrow> x \<in> set p \<Longrightarrow> addr_char x"
  by (auto simp: v6_seg_def addr_char_def is_alnum_def is_hex_digit_def is_lower_az_def is_upper_az_def
      list_all_iff Let_def)

lemma part_groups_addr:
  assumes "part_groups lp (colon_parts w) = Some n" and "x \<in> set w"
  shows "addr_char x"
proof (cases "x = CHR '':''")
  case True
  then show ?thesis by (simp add: addr_char_def)
next
  case False
  have cp: "colon_parts w = split_char (CHR '':'') w" using assms(2) by (auto simp: colon_parts_def)
  obtain p where p: "p \<in> set (colon_parts w)" "x \<in> set p"
    using split_char_covers [OF assms(2), of "CHR '':''"] False cp by auto
  have "v6_seg p \<or> is_ipv4 p"
  proof (cases "list_all v6_seg (colon_parts w)")
    case True
    then show ?thesis using p by (simp add: list_all_iff)
  next
    case F: False
    then have "list_all v6_seg (butlast (colon_parts w))" "is_ipv4 (last (colon_parts w))"
      using assms(1) p by (auto simp: part_groups_def split: if_splits)
    moreover have "p \<in> set (butlast (colon_parts w)) \<or> p = last (colon_parts w)"
      using p(1) by (metis append_butlast_last_id empty_iff empty_set in_set_conv_decomp
          rotate1.simps(2) set_ConsD set_rotate1 length_pos_if_in_set list.size(3) less_numeral_extra(3))
    ultimately show ?thesis by (auto simp: list_all_iff)
  qed
  then show ?thesis using p(2) v6_seg_addr is_ipv4_addr by blast
qed

lemma v6_body_addr: "v6_body s \<Longrightarrow> x \<in> set s \<Longrightarrow> addr_char x"
  using split_double_covers [of x s] part_groups_addr
  by (fastforce simp: v6_body_def addr_char_def split: list.splits option.splits)

lemma is_ipv6_addr:
  assumes "is_ipv6 s" and "x \<in> set s"
  shows "addr_char x"
proof (cases "index_of s (CHR ''%'')")
  case None
  then show ?thesis using assms v6_body_addr by (simp add: is_ipv6_def)
next
  case (Some i)
  have "x \<in> set (take i s) \<or> x = s ! i \<or> x \<in> set (drop (Suc i) s)"
    using assms(2) by (metis append_take_drop_id Un_iff set_append Cons_nth_drop_Suc set_ConsD
        drop_all leI empty_iff empty_set)
  moreover have "s ! i = CHR ''%''" using Some
    by (induction s arbitrary: i) (auto split: if_splits)
  ultimately show ?thesis
    using assms(1) Some v6_body_addr [of "take i s"]
    by (auto simp: is_ipv6_def addr_char_def is_zone_char_def list_all_iff)
qed

lemma is_ip_addr: "is_ip s = 4 \<or> is_ip s = 6 \<Longrightarrow> list_all addr_char s"
  using is_ipv4_addr is_ipv6_addr by (auto simp: is_ip_def list_all_iff split: if_splits)

lemma special_of_char: "of_char (CHR ''-'') = (45::nat)" "of_char (CHR ''.'') = (46::nat)"
  "of_char (CHR '':'') = (58::nat)" "of_char (CHR ''%'') = (37::nat)" "of_char (CHR '' '') = (32::nat)"
  by code_simp+

lemma addr_char_plain: "addr_char c \<Longrightarrow> printable c \<and> c \<noteq> CHR '' '' \<and> (of_char c :: nat) \<noteq> 13"
  by (auto simp: addr_char_def printable_def is_alnum_def is_digit_def is_lower_az_def is_upper_az_def
      special_of_char)

lemma latin1_to_latin1: "latin1 (to_latin1 s) = s"
proof -
  have "byte_char (of_nat (of_char c)) = c" for c
  proof -
    have "(of_char c :: nat) < 256" by simp
    then have "unat (of_nat (of_char c) :: 8 word) = of_char c"
      by (simp add: unsigned_of_nat take_bit_nat_eq_self)
    then show ?thesis by (simp add: byte_char_def)
  qed
  then show ?thesis by (simp add: latin1_def to_latin1_def comp_def)
qed

lemma cr_in_latin1: "13 \<in> set (to_latin1 s) \<Longrightarrow> \<exists>c \<in> set s. of_char c = (13 :: nat)"
proof -
  assume "13 \<in> set (to_latin1 s)"
  then obtain c where c: "c \<in> set s" "(of_nat (of_char c) :: 8 word) = 13" by (auto simp: to_latin1_def)
  have "(of_char c :: nat) < 256" by simp
  then have "unat (of_nat (of_char c) :: 8 word) = of_char c"
    by (simp add: unsigned_of_nat take_bit_nat_eq_self)
  then have "of_char c = unat (13 :: 8 word)" using c(2) by simp
  then show ?thesis using c(1) by auto
qed

lemma crlf_index_line: "13 \<notin> set l \<Longrightarrow> crlf_index (l @ 13 # 10 # r) = Some (length l)"
proof (induction l)
  case (Cons a l)
  then show ?case by (cases l) auto
qed simp

definition v1_text :: "string \<Rightarrow> string \<Rightarrow> string \<Rightarrow> nat \<Rightarrow> nat \<Rightarrow> string" where
  "v1_text proto src dst sport dport =
     str_join '' '' [''PROXY'', proto, src, dst, num_str sport, num_str dport]"

lemma build_v1_text:
  "proto \<noteq> ''UNKNOWN'' \<Longrightarrow> build_proxy_v1 proto src dst sport dport
     = to_latin1 (v1_text proto src dst sport dport) @ [13, 10]"
  by (simp add: build_proxy_v1_def v1_text_def to_latin1_def)

lemma list_all_join:
  "list_all (\<lambda>c. P c \<or> c = s) (str_join [s] ws) = list_all (list_all (\<lambda>c. P c \<or> c = s)) ws"
  by (induction ws rule: induct_list012) auto

lemma v1_text_fields:
  assumes "proto = ''TCP4'' \<or> proto = ''TCP6''" and "list_all addr_char src" and "list_all addr_char dst"
  shows "split_char (CHR '' '') (v1_text proto src dst sport dport)
           = [''PROXY'', proto, src, dst, num_str sport, num_str dport]"
    and "list_all printable (v1_text proto src dst sport dport)"
proof -
  have plain: "list_all (\<lambda>c. printable c \<and> c \<noteq> CHR '' '') w" if "list_all addr_char w" for w
    using that addr_char_plain by (auto simp: list_all_iff)
  have digits: "list_all addr_char (num_str n)" for n
    using num_str_digits [of n] by (auto simp: list_all_iff addr_char_def is_alnum_def)
  have word: "list_all addr_char ''PROXY''" "list_all addr_char proto"
    using assms(1) by (auto simp: addr_char_def is_alnum_def is_upper_az_def is_digit_def)
  let ?ws = "[''PROXY'', proto, src, dst, num_str sport, num_str dport]"
  have "\<forall>w \<in> set ?ws. list_all addr_char w" using assms(2,3) digits word by simp
  then have all: "\<forall>w \<in> set ?ws. list_all (\<lambda>c. printable c \<and> c \<noteq> CHR '' '') w"
    using plain by blast
  have "CHR '' '' \<notin> set w" if "w \<in> set ?ws" for w
    using bspec [OF all that] by (auto simp: list_all_iff)
  then show "split_char (CHR '' '') (v1_text proto src dst sport dport)
           = [''PROXY'', proto, src, dst, num_str sport, num_str dport]"
    unfolding v1_text_def by (intro split_join) blast+
  have sp: "printable (CHR '' '')" by (simp add: printable_def)
  have "list_all (\<lambda>c. printable c \<or> c = CHR '' '') w" if "w \<in> set ?ws" for w
    using bspec [OF all that] by (auto simp: list_all_iff)
  then have "list_all (list_all (\<lambda>c. printable c \<or> c = CHR '' '')) ?ws"
    unfolding list_all_iff [of "list_all _"] by blast
  then have "list_all (\<lambda>c. printable c \<or> c = CHR '' '') (v1_text proto src dst sport dport)"
    unfolding v1_text_def by (simp only: list_all_join)
  then show "list_all printable (v1_text proto src dst sport dport)"
    using sp by (auto simp: list_all_iff)
qed

lemma port_re_num_str: "n \<le> 65535 \<Longrightarrow> port_re (num_str n)"
proof (cases "n = 0")
  case True
  moreover have "digit_char 0 = CHR ''0''" by code_simp
  ultimately show ?thesis by (simp add: port_re_def num_str.simps [of 0])
next
  case False
  assume "n \<le> 65535"
  then show ?thesis
    using False num_str_head [of n] length_num_str_le [of n 4]
    by (auto simp: port_re_def num_str_digits Suc_le_eq)
qed

lemma proto_fam: "is_ip x = (if proto = ''TCP4'' then 4 else 6) \<Longrightarrow> list_all addr_char x"
  by (rule is_ip_addr) (simp split: if_splits)

subsection \<open>Properties\<close>

text \<open>Version 1 round trip: the line built for two addresses of the declared family and two
  16-bit ports is read back, whatever bytes follow it, as exactly that source address and port,
  and its length is the whole line with its CRLF.\<close>

theorem proxy_v1_roundtrip:
  assumes proto: "proto = ''TCP4'' \<or> proto = ''TCP6''"
    and ips: "is_ip src = (if proto = ''TCP4'' then 4 else 6)"
      "is_ip dst = (if proto = ''TCP4'' then 4 else 6)"
    and ports: "sport \<le> 65535" "dport \<le> 65535"
    and fits: "length (build_proxy_v1 proto src dst sport dport) \<le> proxy_v1_max_line"
  shows "parse_proxy_header (build_proxy_v1 proto src dst sport dport @ rest) =
     Ok (v1_header (length (build_proxy_v1 proto src dst sport dport))
           (if proto = ''TCP4'' then TCP4 else TCP6) (Some src) (Some sport))"
proof -
  let ?t = "v1_text proto src dst sport dport"
  have b: "build_proxy_v1 proto src dst sport dport = to_latin1 ?t @ [13, 10]"
    using proto by (auto simp: build_v1_text)
  note f = v1_text_fields [OF proto proto_fam [OF ips(1)] proto_fam [OF ips(2)], of sport dport]
  have "13 \<notin> set (to_latin1 ?t)"
    using cr_in_latin1 [of ?t] f(2) by (fastforce simp: list_all_iff printable_def)
  then have i: "crlf_index ((to_latin1 ?t @ [13, 10]) @ rest) = Some (length (to_latin1 ?t))"
    by (simp add: crlf_index_line)
  have "take 6 (to_latin1 ?t) = proxy_v1_prefix"
    by (simp add: v1_text_def to_latin1_def proxy_v1_prefix_def)
  moreover have "6 \<le> length (to_latin1 ?t)" by (simp add: v1_text_def to_latin1_def)
  ultimately have m: "\<not> invalid_magic proxy_v1_prefix ((to_latin1 ?t @ [13, 10]) @ rest)"
    by (simp add: invalid_magic_def)
  have h: "hd ((to_latin1 ?t @ [13, 10]) @ rest) = 80" "(to_latin1 ?t @ [13, 10]) @ rest \<noteq> []"
    by (simp_all add: v1_text_def to_latin1_def)
  have "v1_line n ?t = Ok (v1_header n (if proto = ''TCP4'' then TCP4 else TCP6) (Some src) (Some sport))" for n
    using proto ips ports f port_re_num_str by (auto simp: v1_line_def v1_address_def Let_def)
  then show ?thesis
    using i m h fits unfolding b by (simp add: parse_dispatch parse_proxy_v1_def latin1_to_latin1)
qed

theorem proxy_v1_roundtrip_witness:
  "parse_proxy_header (build_proxy_v1 ''TCP4'' ''10.0.0.1'' ''10.0.0.2'' 50000 443 @ [22, 3, 1]) =
     Ok (v1_header 40 TCP4 (Some ''10.0.0.1'') (Some 50000))"
proof -
  have a: "is_ip ''10.0.0.1'' = 4" "is_ip ''10.0.0.2'' = 4" by code_simp+
  have l: "length (build_proxy_v1 ''TCP4'' ''10.0.0.1'' ''10.0.0.2'' 50000 443) = 40"
    by (simp add: build_proxy_v1_def to_latin1_def num_str.simps)
  show ?thesis
    using proxy_v1_roundtrip [of "''TCP4''" "''10.0.0.1''" "''10.0.0.2''" 50000 443 "[22, 3, 1]"] a l
    by (simp add: proxy_v1_max_line_def)
qed

lemma u16_be16: "n < 65536 \<Longrightarrow> u16 (of_nat (n div 256)) (of_nat (n mod 256)) = n"
  by (simp add: u16_eq unsigned_of_nat take_bit_nat_eq_self)

lemma v2_bits: "drop_bit 4 (0x21 :: 8 word) = 2" "drop_bit 4 (0x20 :: 8 word) = 2"
  "(0x21 :: 8 word) AND 15 = 1" "(0x20 :: 8 word) AND 15 = 0" "(0x20 :: 8 word) OR 1 = 0x21"
  by code_simp+

lemma magic_signature: "\<not> invalid_magic proxy_v2_signature (proxy_v2_signature @ r)"
  by (simp add: invalid_magic_def)

lemma nth_signature: "k \<ge> 12 \<Longrightarrow> (proxy_v2_signature @ r) ! k = r ! (k - 12)"
  by (simp add: nth_append)

lemma parse_packet:
  assumes "length src = 4 \<or> length src = 16" and "length dst = length src"
    and "port < 65536" and "dst_port < 65536"
    and "2 * length src + 4 + length tlvs \<le> proxy_v2_max_block"
  shows "parse_proxy_header (proxy_v2_packet src dst port dst_port tlvs @ rest) =
     Ok (v2_header (20 + 2 * length src + length tlvs) CmdProxy (if length src = 16 then TCP6 else TCP4)
           (Some (if length src = 16 then format_ipv6 src else format_ipv4 src)) (Some port))
   \<and> parse_proxy_header (proxy_v2_local @ rest) = Ok (v2_header 16 CmdLocal Unspec None None)"
proof -
  let ?n = "2 * length src + 4 + length tlvs"
  let ?fam = "if length src = 16 then 0x21 else 0x11 :: 8 word"
  let ?q = "src @ dst @ be16 port @ be16 dst_port @ tlvs @ rest"
  let ?b = "proxy_v2_signature @ [0x21, ?fam, of_nat (?n div 256), of_nat (?n mod 256)] @ ?q"
  have n: "?n \<le> 548" using assms(5) by (simp add: proxy_v2_max_block_def addr_len_tcp6_def)
  then have u: "u16 (of_nat (?n div 256)) (of_nat (?n mod 256)) = ?n" by (intro u16_be16) simp
  have b: "proxy_v2_packet src dst port dst_port tlvs @ rest = ?b"
    using assms(2) by (simp add: proxy_v2_packet_def Let_def be16_def v2_bits algebra_simps)
  have at: "?b ! 12 = 0x21" "?b ! 13 = ?fam" "?b ! 14 = of_nat (?n div 256)" "?b ! 15 = of_nat (?n mod 256)"
    by (simp_all add: nth_signature)
  have d: "drop 16 ?b = ?q" by simp
  have p: "u16 (?b ! (16 + 2 * length src)) (?b ! (17 + 2 * length src)) = port"
    using assms(2,3) u16_be16 [of port] by (simp add: nth_signature nth_append be16_def)
  have r: "\<not> v2_refused 1 ?fam ?n"
    using n assms(1) by (auto simp: v2_refused_def addr_len_tcp4_def addr_len_tcp6_def proxy_v2_max_block_def)
  have len: "16 + ?n \<le> length ?b" using assms(2) by (simp add: be16_def)
  have h: "hd ?b = 13" "?b \<noteq> []" by (simp_all add: proxy_v2_signature_def)
  have "parse_proxy_v2 ?b = Ok (v2_header (16 + ?n) CmdProxy (if length src = 16 then TCP6 else TCP4)
           (Some (if length src = 16 then format_ipv6 src else format_ipv4 src)) (Some port))"
    using assms(1) at d p r len u v2_bits magic_signature [of "[0x21, ?fam, of_nat (?n div 256), of_nat (?n mod 256)] @ ?q"]
    by (subst v2_long) (auto simp: Let_def)
  moreover have "parse_proxy_header (proxy_v2_local @ rest) = Ok (v2_header 16 CmdLocal Unspec None None)"
    using magic_signature [of "[0x20, 0, 0, 0] @ rest"]
    by (simp add: parse_dispatch proxy_v2_local_def be16_def v2_long Let_def nth_signature v2_bits
        u16_eq v2_refused_def proxy_v2_max_block_def addr_len_tcp6_def)
      (simp add: proxy_v2_signature_def)
  ultimately show ?thesis
    using h unfolding b by (simp add: parse_dispatch algebra_simps)
qed

text \<open>C23: Version 2 round trip: the packet for a source and a destination of 4 or of 16 bytes, two
  ports and any type-length-value block the parser admits is read back, whatever bytes follow it,
  as that source address and port over the right family, and its length is the whole packet. The
  health-check packet is read back as a local connection without an address.\<close>

theorem proxy_v2_roundtrip:
  assumes "length src = 4 \<or> length src = 16" and "length dst = length src"
    and "port < 65536" and "dst_port < 65536"
    and "2 * length src + 4 + length tlvs \<le> proxy_v2_max_block"
  shows "parse_proxy_header (proxy_v2_packet src dst port dst_port tlvs @ rest) =
     Ok (v2_header (20 + 2 * length src + length tlvs) CmdProxy (if length src = 16 then TCP6 else TCP4)
           (Some (if length src = 16 then format_ipv6 src else format_ipv4 src)) (Some port))
   \<and> parse_proxy_header (proxy_v2_local @ rest) = Ok (v2_header 16 CmdLocal Unspec None None)"
  using assms by (rule parse_packet)

theorem proxy_v2_roundtrip_witness:
  "parse_proxy_header (proxy_v2_packet [10, 0, 0, 1] [10, 0, 0, 2] 50000 443 [] @ [22, 3, 1]) =
     Ok (v2_header 28 CmdProxy TCP4 (Some (format_ipv4 [10, 0, 0, 1])) (Some 50000))"
  using proxy_v2_roundtrip [of "[10, 0, 0, 1]" "[10, 0, 0, 2]" 50000 443 "[]" "[22, 3, 1]"]
  by (simp add: proxy_v2_max_block_def addr_len_tcp6_def)

definition address_ok :: "proxy_header \<Rightarrow> bool" where
  "address_ok h \<longleftrightarrow>
     (case ph_ip h of None \<Rightarrow> ph_family h = Unspec \<and> ph_port h = None
      | Some ip \<Rightarrow> ph_command h = CmdProxy \<and> is_ip ip \<in> (if ph_family h = TCP4 then {4} else {4, 6})
          \<and> ph_family h \<noteq> Unspec \<and> (\<exists>p < 65536. ph_port h = Some p))"

lemma v1_line_address: "v1_line n l = Ok h \<Longrightarrow> address_ok h"
  by (auto simp: address_ok_def v1_line_def v1_address_def v1_header_def Let_def split: if_splits)

lemma v1_address_ok: "parse_proxy_v1 b = Ok h \<Longrightarrow> address_ok h"
  by (auto simp: parse_proxy_v1_def intro: v1_line_address split: if_splits option.splits)

lemma v2_address_ok: "parse_proxy_v2 b = Ok h \<Longrightarrow> address_ok h"
proof -
  assume h: "parse_proxy_v2 b = Ok h"
  have l: "16 \<le> length b" using h by (rule contrapos_pp) (simp add: v2_short)
  have i4: "is_ip (format_ipv4 (take 4 (drop 16 b))) = 4" if "16 + u16 (b ! 14) (b ! 15) \<le> length b" "12 \<le> u16 (b ! 14) (b ! 15)"
    using that by (simp add: is_ip_def format_ipv4_def is_ipv4_dotted)
  have i6: "is_ip (format_ipv6 (take 16 (drop 16 b))) \<in> {4, 6}" if "16 + u16 (b ! 14) (b ! 15) \<le> length b" "36 \<le> u16 (b ! 14) (b ! 15)"
    using that by (simp add: format_ipv6_valid)
  show ?thesis
    using h l i4 i6 u16_bound
    by (auto simp: address_ok_def v2_long Let_def v2_header_def dest: v2_refused_addr split: if_splits)
qed

text \<open>What an accepted header says: it is never longer than the bytes given nor than 564 bytes;
  an address is present exactly when the family is not unspecified, only for a relayed connection,
  is a literal that \<open>net.isIP\<close> accepts (an IPv4 one for TCP4), and comes with a 16-bit port.\<close>

theorem proxy_address_valid:
  assumes "parse_proxy_header b = Ok h"
  shows "ph_length h \<le> length b \<and> ph_length h \<le> 564
     \<and> (ph_ip h = None \<longleftrightarrow> ph_family h = Unspec)
     \<and> (case ph_ip h of None \<Rightarrow> ph_port h = None
        | Some ip \<Rightarrow> ph_command h = CmdProxy \<and> is_ip ip \<in> (if ph_family h = TCP4 then {4} else {4, 6})
            \<and> (\<exists>p < 65536. ph_port h = Some p))"
proof -
  have "ph_length h \<le> length b" using assms by (rule pp.within)
  moreover have "ph_length h \<le> 564"
    using assms by (auto simp: parse_dispatch dest: v1_Ok v2_Ok split: if_splits)
  moreover have "address_ok h"
    using assms by (auto simp: parse_dispatch intro: v1_address_ok v2_address_ok split: if_splits)
  ultimately show ?thesis by (auto simp: address_ok_def split: option.splits)
qed

theorem proxy_address_valid_witness:
  "\<exists>h. parse_proxy_header (proxy_v2_packet [10, 0, 0, 1] [10, 0, 0, 2] 50000 443 []) = Ok h
     \<and> ph_length h \<le> 28"
proof -
  have "parse_proxy_header (proxy_v2_packet [10, 0, 0, 1] [10, 0, 0, 2] 50000 443 []) =
     Ok (v2_header 28 CmdProxy TCP4 (Some (format_ipv4 [10, 0, 0, 1])) (Some 50000))"
    using parse_packet [of "[10, 0, 0, 1]" "[10, 0, 0, 2]" 50000 443 "[]" "[]"]
    by (simp add: proxy_v2_max_block_def addr_len_tcp6_def)
  from this proxy_address_valid [OF this] show ?thesis
    by (simp add: proxy_v2_packet_def Let_def be16_def)
qed

text \<open>The text of an IPv6 source loses nothing: two 16-byte addresses have the same text only
  if they are equal, the text is an IPv4 literal exactly for an IPv4-mapped address and an IPv6
  literal otherwise, and the zero groups it collapses are a longest run, the first of its length.\<close>

theorem ipv6_text_faithful:
  assumes "length a = 16" and "length b = 16" and "best_run (ipv6_groups a) 0 0 0 = (bs, bl)"
  shows "(format_ipv6 a = format_ipv6 b \<longleftrightarrow> a = b)
     \<and> is_ip (format_ipv6 a) = (if take 6 (ipv6_groups a) = [0, 0, 0, 0, 0, 0xffff] then 4 else 6)
     \<and> is_run (ipv6_groups a) bs bl
     \<and> (\<forall>k < 8. \<forall>m. is_run (ipv6_groups a) k m \<longrightarrow> m \<le> bl \<and> (m = bl \<longrightarrow> bs \<le> k))"
  using format_ipv6_inj [OF assms(1,2)] format_ipv6_valid [OF assms(1)] best_run_ok [OF assms(3)] assms(1)
  by (auto simp: ipv6_groups_length)

theorem ipv6_text_faithful_witness:
  "is_ip (format_ipv6 [0x20, 1, 0xd, 0xb8, 0, 0, 0, 0, 0, 0, 0, 0, 0, 0, 0, 1]) = 6"
proof -
  let ?a = "[0x20, 1, 0xd, 0xb8, 0, 0, 0, 0, 0, 0, 0, 0, 0, 0, 0, 1]"
  have g: "ipv6_groups ?a = [8193, 3512, 0, 0, 0, 0, 0, 1]" by (simp add: u16_eq)
  have b: "best_run (ipv6_groups ?a) 0 0 0 = (2, 5)"
    unfolding g by (simp add: best_run.simps zero_run_def)
  show ?thesis using ipv6_text_faithful [OF _ _ b, of "replicate 16 0"] by (simp add: u16_eq)
qed

end
