(* ===== verification/ProxyListener.thy ===== *)
theory ProxyListener
  imports ProxyProtocol
begin

text \<open>
  The listener of \<open>enclave/src/proxyListener.mjs\<close> that reads a PROXY header off a connection
  before its TLS handshake: the read loop of one accepted socket, driven by the events of the
  socket, and the address tables that the TLS server's connection hook reads.
\<close>

definition first_read :: nat where "first_read = 6"

datatype accept_status = Reading | Dropped string | HandedOver

text \<open>\<open>ac_buffered\<close> is the socket's own readable buffer, \<open>ac_buf\<close> what the listener has taken
  from it, \<open>ac_ip\<close> the address it registers for the socket.\<close>

record accept_state =
  ac_status :: accept_status
  ac_buffered :: bytes
  ac_ended :: bool
  ac_buf :: bytes
  ac_want :: nat
  ac_ip :: "string option"

definition accept_init :: accept_state where
  "accept_init = \<lparr>ac_status = Reading, ac_buffered = [], ac_ended = False, ac_buf = [],
     ac_want = first_read, ac_ip = None\<rparr>"

text \<open>\<open>socket.read(n)\<close>: exactly \<open>n\<close> bytes when they are buffered, what is left when the peer has
  ended, else null.\<close>

definition sock_read :: "nat \<Rightarrow> accept_state \<Rightarrow> (bytes \<times> accept_state) option" where
  "sock_read n st =
     (if n = 0 then None
      else if n \<le> length (ac_buffered st)
        then Some (take n (ac_buffered st), st\<lparr>ac_buffered := drop n (ac_buffered st)\<rparr>)
      else if ac_ended st \<and> ac_buffered st \<noteq> []
        then Some (ac_buffered st, st\<lparr>ac_buffered := []\<rparr>)
      else None)"

definition accept_drop :: "string \<Rightarrow> accept_state \<Rightarrow> accept_state" where
  "accept_drop why st = (if ac_status st = Reading then st\<lparr>ac_status := Dropped why\<rparr> else st)"

definition accept_hand_over :: "proxy_header \<Rightarrow> accept_state \<Rightarrow> accept_state" where
  "accept_hand_over h st =
     st\<lparr>ac_status := HandedOver,
        ac_ip := (case ph_ip h of
            Some ip \<Rightarrow> if ph_command h = CmdProxy \<and> ip \<noteq> [] then Some ip else None
          | None \<Rightarrow> None)\<rparr>"

lemma sock_read_shrinks: "sock_read n st = Some (chunk, st') \<Longrightarrow>
    length (ac_buffered st') < length (ac_buffered st)"
  by (auto simp: sock_read_def split: if_splits)

text \<open>\<open>onReadable\<close>, for the header parser \<open>parse\<close>.\<close>

function on_readable :: "(bytes \<Rightarrow> proxy_result) \<Rightarrow> accept_state \<Rightarrow> accept_state" where
  "on_readable parse st =
     (case sock_read (ac_want st) st of
        None \<Rightarrow> st
      | Some (chunk, st1) \<Rightarrow>
          let st2 = st1\<lparr>ac_buf := ac_buf st @ chunk\<rparr>
          in case parse (ac_buf st2) of
               Invalid \<Rightarrow> accept_drop ''invalid header'' st2
             | Incomplete need \<Rightarrow>
                 if need \<le> length (ac_buf st2) then accept_drop ''header parser made no progress'' st2
                 else on_readable parse (st2\<lparr>ac_want := need - length (ac_buf st2)\<rparr>)
             | Ok h \<Rightarrow>
                 if length (ac_buf st2) \<noteq> ph_length h then accept_drop ''consumed past the header'' st2
                 else accept_hand_over h st2)"
  by pat_completeness auto
termination
  by (relation "measure (\<lambda>(parse, st). length (ac_buffered st))") (auto dest: sock_read_shrinks)

declare on_readable.simps [simp del]

datatype sock_event = Data bytes | Ended | SockError | HeaderTimeout

definition accept_event :: "(bytes \<Rightarrow> proxy_result) \<Rightarrow> sock_event \<Rightarrow> accept_state \<Rightarrow> accept_state" where
  "accept_event parse e st =
     (case e of
        Data bs \<Rightarrow>
          (let st1 = st\<lparr>ac_buffered := ac_buffered st @ bs\<rparr>
           in if ac_status st = Reading then on_readable parse st1
              else if ac_status st = HandedOver then st1 else st)
      | Ended \<Rightarrow>
          (let st1 = st\<lparr>ac_ended := True\<rparr>
           in if ac_status st = Reading
              then accept_drop ''connection ended before the header completed'' (on_readable parse st1)
              else st1)
      | SockError \<Rightarrow> accept_drop ''socket error before the header completed'' st
      | HeaderTimeout \<Rightarrow> accept_drop ''no complete header within timeout'' st)"

text \<open>One accepted connection of \<open>listenWithProxyProtocol\<close>.\<close>

definition listen_with_proxy_protocol :: "sock_event list \<Rightarrow> accept_state" where
  "listen_with_proxy_protocol es = fold (accept_event parse_proxy_header) es accept_init"

subsection \<open>The reader over any header grammar\<close>

definition waits :: "(bytes \<Rightarrow> proxy_result) \<Rightarrow> nat \<Rightarrow> accept_state \<Rightarrow> bool" where
  "waits parse first st \<longleftrightarrow> ac_status st = Reading \<and> 0 < ac_want st \<and> ac_ip st = None
     \<and> (ac_buf st = [] \<and> ac_want st = first
        \<or> parse (ac_buf st) = Incomplete (length (ac_buf st) + ac_want st))"

text \<open>What the state must be when the bytes received so far are \<open>recv\<close>.\<close>

definition header_ip :: "proxy_header \<Rightarrow> string option" where
  "header_ip h = (case ph_ip h of
      Some ip \<Rightarrow> if ph_command h = CmdProxy \<and> ip \<noteq> [] then Some ip else None | None \<Rightarrow> None)"

definition reads :: "(bytes \<Rightarrow> proxy_result) \<Rightarrow> nat \<Rightarrow> bytes \<Rightarrow> accept_state \<Rightarrow> bool" where
  "reads parse first recv st \<longleftrightarrow>
     (case ac_status st of
        Reading \<Rightarrow> waits parse first st \<and> recv = ac_buf st @ ac_buffered st
          \<and> length (ac_buffered st) < ac_want st
      | Dropped why \<Rightarrow> parse recv = Invalid \<and> why = ''invalid header'' \<and> ac_ip st = None
      | HandedOver \<Rightarrow> (\<exists>h. parse recv = Ok h \<and> ac_buf st = take (ph_length h) recv
          \<and> ac_buffered st = drop (ph_length h) recv \<and> ac_ip st = header_ip h))"

context header_grammar
begin

lemma settle_ok:
  assumes "waits parse first_read st" and "parse (ac_buf st @ c) = Ok h"
  shows "length (ac_buf st) + ac_want st \<le> ph_length h"
  using assms need_within [of "ac_buf st" _ c h] first_within [of c h]
  by (auto simp: waits_def)

lemma on_readable_step:
  assumes "0 < ac_want st" and "ac_want st \<le> length (ac_buffered st)" and "ac_status st = Reading"
  defines "st2 \<equiv> st\<lparr>ac_buffered := drop (ac_want st) (ac_buffered st),
      ac_buf := ac_buf st @ take (ac_want st) (ac_buffered st)\<rparr>"
  shows "on_readable parse st =
     (case parse (ac_buf st2) of
        Invalid \<Rightarrow> st2\<lparr>ac_status := Dropped ''invalid header''\<rparr>
      | Incomplete need \<Rightarrow>
          if need \<le> length (ac_buf st2) then accept_drop ''header parser made no progress'' st2
          else on_readable parse (st2\<lparr>ac_want := need - length (ac_buf st2)\<rparr>)
      | Ok h \<Rightarrow>
          if length (ac_buf st2) \<noteq> ph_length h then accept_drop ''consumed past the header'' st2
          else accept_hand_over h st2)"
  using assms
  by (subst on_readable.simps)
    (auto simp: sock_read_def st2_def Let_def accept_drop_def split: proxy_result.splits)

lemma on_readable_reads:
  "waits parse first_read st \<Longrightarrow> \<not> ac_ended st
     \<Longrightarrow> reads parse first_read (ac_buf st @ ac_buffered st) (on_readable parse st)"
proof (induction st rule: measure_induct_rule [of "\<lambda>st. length (ac_buffered st)"])
  case (less st)
  let ?n = "ac_want st" and ?b = "ac_buffered st"
  have w: "ac_status st = Reading" "0 < ?n" "ac_ip st = None" using less.prems by (auto simp: waits_def)
  show ?case
  proof (cases "?n \<le> length ?b")
    case False
    then have "on_readable parse st = st"
      using less.prems by (subst on_readable.simps) (simp add: sock_read_def)
    then show ?thesis using less.prems False w by (auto simp: reads_def)
  next
    case True
    let ?st2 = "st\<lparr>ac_buffered := drop ?n ?b, ac_buf := ac_buf st @ take ?n ?b\<rparr>"
    let ?buf = "ac_buf st @ take ?n ?b"
    note step = on_readable_step [OF w(2) True w(1)]
    show ?thesis
    proof (cases "parse ?buf")
      case (Incomplete need)
      then have p: "length ?buf < need" by (rule progress)
      let ?st3 = "?st2\<lparr>ac_want := need - length ?buf\<rparr>"
      have "waits parse first_read ?st3"
        using Incomplete p w by (auto simp: waits_def)
      moreover have "length (ac_buffered ?st3) < length ?b" using True w(2) by simp
      ultimately have "reads parse first_read (ac_buf ?st3 @ ac_buffered ?st3) (on_readable parse ?st3)"
        using less.IH [of ?st3] less.prems(2) by simp
      moreover have "on_readable parse st = on_readable parse ?st3"
        unfolding step using Incomplete p by simp
      ultimately show ?thesis by simp
    next
      case Invalid
      then have "parse (?buf @ drop ?n ?b) = Invalid" by (rule invalid_stable)
      then show ?thesis using Invalid w unfolding step by (simp add: reads_def)
    next
      case (Ok h)
      have "ph_length h \<le> length ?buf" using Ok by (rule within)
      moreover have "length (ac_buf st) + ?n \<le> ph_length h" using less.prems(1) Ok by (rule settle_ok)
      ultimately have l: "ph_length h = length ?buf" using True by simp
      have "parse (?buf @ drop ?n ?b) = Ok h" using Ok by (rule ok_stable)
      then show ?thesis
        using Ok l w True unfolding step
        by (auto simp: reads_def accept_hand_over_def header_ip_def min.absorb2)
    qed
  qed
qed

lemma reads_data:
  assumes "reads parse first_read recv st" and "\<not> ac_ended st"
  shows "reads parse first_read (recv @ bs) (accept_event parse (Data bs) st)"
proof (cases "ac_status st")
  case Reading
  let ?st1 = "st\<lparr>ac_buffered := ac_buffered st @ bs\<rparr>"
  have "waits parse first_read ?st1" and r: "recv = ac_buf st @ ac_buffered st"
    using assms(1) Reading by (auto simp: reads_def waits_def)
  then have "reads parse first_read (ac_buf ?st1 @ ac_buffered ?st1) (on_readable parse ?st1)"
    using assms(2) by (intro on_readable_reads) simp_all
  then show ?thesis using Reading r by (simp add: accept_event_def)
next
  case (Dropped why)
  then show ?thesis
    using assms(1) invalid_stable by (auto simp: reads_def accept_event_def)
next
  case HandedOver
  then obtain h where h: "parse recv = Ok h" "ac_buf st = take (ph_length h) recv"
    "ac_buffered st = drop (ph_length h) recv" "ac_ip st = header_ip h"
    using assms(1) by (auto simp: reads_def)
  have "ph_length h \<le> length recv" using h(1) by (rule within)
  then show ?thesis using h HandedOver ok_stable [OF h(1)] by (simp add: reads_def accept_event_def)
qed

lemma on_readable_ended: "ac_ended (on_readable parse st) = ac_ended st"
proof (induction st rule: measure_induct_rule [of "\<lambda>st. length (ac_buffered st)"])
  case (less st)
  show ?case
  proof (cases "sock_read (ac_want st) st")
    case None
    then show ?thesis by (simp add: on_readable.simps)
  next
    case (Some r)
    obtain chunk st1 where r: "r = (chunk, st1)" by (cases r)
    have e: "ac_ended st1 = ac_ended st" using Some r by (auto simp: sock_read_def split: if_splits)
    have "length (ac_buffered st1) < length (ac_buffered st)" using Some r sock_read_shrinks by blast
    then show ?thesis
      using less [of "st1\<lparr>ac_buf := ac_buf st @ chunk, ac_want := n\<rparr>" for n] Some r e
      by (subst on_readable.simps)
        (auto simp: Let_def accept_drop_def accept_hand_over_def split: proxy_result.splits)
  qed
qed

lemma reads_chunks:
  "reads parse first_read recv st \<Longrightarrow> \<not> ac_ended st \<Longrightarrow>
     reads parse first_read (recv @ concat chunks) (fold (accept_event parse) (map Data chunks) st)"
proof (induction chunks arbitrary: recv st)
  case (Cons bs chunks)
  have "\<not> ac_ended (accept_event parse (Data bs) st)"
    using Cons.prems(2) by (auto simp: accept_event_def on_readable_ended Let_def)
  then show ?case
    using Cons.IH [OF reads_data [OF Cons.prems, of bs]] by simp
qed simp

lemma reads_verdict:
  assumes "reads parse first_read recv st"
  shows "ac_status st = HandedOver \<longleftrightarrow> (\<exists>h. parse recv = Ok h)"
    and "parse recv = Ok h \<Longrightarrow> ac_buffered st = drop (ph_length h) recv \<and> ac_ip st = header_ip h"
    and "ac_status st \<noteq> HandedOver \<Longrightarrow> ac_ip st = None"
    and "ac_status st = Dropped why \<Longrightarrow> parse recv = Invalid \<and> why = ''invalid header''"
proof -
  have "\<not> (\<exists>h. parse recv = Ok h)" if r: "ac_status st = Reading"
  proof
    assume ex: "\<exists>h. parse recv = Ok h"
    obtain h where h: "parse (ac_buf st @ ac_buffered st) = Ok h"
      using assms r ex by (auto simp: reads_def)
    then have "length (ac_buf st) + ac_want st \<le> ph_length h"
      using assms r by (intro settle_ok) (auto simp: reads_def)
    then show False using within [OF h] assms r by (auto simp: reads_def)
  qed
  then show "ac_status st = HandedOver \<longleftrightarrow> (\<exists>h. parse recv = Ok h)"
    using assms by (auto simp: reads_def split: accept_status.splits)
  then show "parse recv = Ok h \<Longrightarrow> ac_buffered st = drop (ph_length h) recv \<and> ac_ip st = header_ip h"
    using assms by (auto simp: reads_def)
  show "ac_status st \<noteq> HandedOver \<Longrightarrow> ac_ip st = None"
    using assms by (auto simp: reads_def waits_def split: accept_status.splits)
  show "ac_status st = Dropped why \<Longrightarrow> parse recv = Invalid \<and> why = ''invalid header''"
    using assms by (auto simp: reads_def)
qed

lemma on_readable_at_end:
  assumes "reads parse first_read recv st" and "ac_status st = Reading"
  shows "ac_status (on_readable parse (st\<lparr>ac_ended := True\<rparr>)) \<noteq> HandedOver
       \<and> ac_ip (on_readable parse (st\<lparr>ac_ended := True\<rparr>)) = None"
proof -
  have w: "waits parse first_read st" and short: "length (ac_buffered st) < ac_want st"
    using assms by (auto simp: reads_def)
  have ip: "ac_ip st = None" using w by (simp add: waits_def)
  show ?thesis
  proof (cases "ac_buffered st = []")
    case True
    then show ?thesis using assms short ip by (subst on_readable.simps, subst on_readable.simps) (simp add: sock_read_def)
  next
    case False
    let ?st = "st\<lparr>ac_ended := True, ac_buffered := [], ac_buf := ac_buf st @ ac_buffered st\<rparr>"
    have r: "sock_read (ac_want st) (st\<lparr>ac_ended := True\<rparr>) = Some (ac_buffered st, st\<lparr>ac_ended := True, ac_buffered := []\<rparr>)"
      using False short by (simp add: sock_read_def)
    have no: "parse (ac_buf st @ ac_buffered st) \<noteq> Ok h" for h
      using settle_ok [OF w, of "ac_buffered st" h] within [of "ac_buf st @ ac_buffered st" h] short by auto
    have stop: "on_readable parse (?st\<lparr>ac_want := n\<rparr>) = ?st\<lparr>ac_want := n\<rparr>" for n
      by (subst on_readable.simps) (simp add: sock_read_def)
    have "on_readable parse (st\<lparr>ac_ended := True\<rparr>) =
       (case parse (ac_buf st @ ac_buffered st) of
          Invalid \<Rightarrow> accept_drop ''invalid header'' ?st
        | Incomplete need \<Rightarrow>
            if need \<le> length (ac_buf st @ ac_buffered st) then accept_drop ''header parser made no progress'' ?st
            else ?st\<lparr>ac_want := need - length (ac_buf st @ ac_buffered st)\<rparr>
        | Ok h \<Rightarrow> ?st)"
      using r no stop by (subst on_readable.simps) (auto simp: Let_def split: proxy_result.splits)
    then show ?thesis
      using assms(2) ip no by (auto simp: accept_drop_def split: proxy_result.splits)
  qed
qed

end

subsection \<open>The listener over the PROXY grammar\<close>

lemma first_read_eq: "first_read = 6"
  by (simp add: first_read_def)

lemma reads_init: "reads parse_proxy_header 6 [] accept_init"
  by (simp add: reads_def waits_def accept_init_def first_read_def)

lemma listen_reads:
  "reads parse_proxy_header 6 (concat chunks) (listen_with_proxy_protocol (map Data chunks))"
  using pp.reads_chunks [OF reads_init, of chunks]
  by (simp add: listen_with_proxy_protocol_def accept_init_def)

fun is_data :: "sock_event \<Rightarrow> bool" where
  "is_data (Data bs) = True" | "is_data _ = False"

fun data_of :: "sock_event \<Rightarrow> bytes" where
  "data_of (Data bs) = bs" | "data_of _ = []"

text \<open>The bytes that arrive before the first event that is not data.\<close>

definition received :: "sock_event list \<Rightarrow> bytes" where
  "received es = concat (map data_of (takeWhile is_data es))"

lemma map_data_of: "list_all is_data ds \<Longrightarrow> map Data (map data_of ds) = ds"
proof (induction ds)
  case (Cons e es)
  then show ?case by (cases e) simp_all
qed simp

lemma takeWhile_data: "map Data (map data_of (takeWhile is_data es)) = takeWhile is_data es"
  by (rule map_data_of) (auto simp: list_all_iff dest: set_takeWhileD)

lemma settled_event:
  assumes "ac_status st \<noteq> Reading"
  shows "ac_status (accept_event p e st) = ac_status st \<and> ac_ip (accept_event p e st) = ac_ip st"
  using assms by (auto simp: accept_event_def accept_drop_def Let_def split: sock_event.splits)

lemma settled_events:
  "ac_status st \<noteq> Reading \<Longrightarrow>
     ac_status (fold (accept_event p) es st) = ac_status st \<and> ac_ip (fold (accept_event p) es st) = ac_ip st"
  using settled_event by (induction es arbitrary: st) auto

lemma terminal_event:
  assumes "reads parse_proxy_header 6 recv st" and "\<not> is_data e"
  shows "ac_status (accept_event parse_proxy_header e st) \<noteq> Reading
     \<and> (ac_status (accept_event parse_proxy_header e st) = HandedOver \<longleftrightarrow> ac_status st = HandedOver)
     \<and> ac_ip (accept_event parse_proxy_header e st) = ac_ip st"
proof (cases "ac_status st = Reading")
  case False
  then show ?thesis using settled_event by simp
next
  case True
  have "ac_ip st = None" using pp.reads_verdict(3) [OF assms(1)] True by simp
  then show ?thesis
    using True assms(2) pp.on_readable_at_end [OF assms(1) True]
    by (cases e) (auto simp: accept_event_def accept_drop_def Let_def)
qed

lemma listen_verdict:
  fixes es :: "sock_event list"
  defines "st \<equiv> listen_with_proxy_protocol es"
  shows "(ac_status st = HandedOver \<longleftrightarrow> (\<exists>h. parse_proxy_header (received es) = Ok h))
     \<and> (ac_status st = HandedOver \<longrightarrow> (\<forall>h. parse_proxy_header (received es) = Ok h \<longrightarrow> ac_ip st = header_ip h))
     \<and> (ac_status st \<noteq> HandedOver \<longrightarrow> ac_ip st = None)
     \<and> (ac_status st = Reading \<longrightarrow> list_all is_data es)"
proof -
  let ?pre = "map data_of (takeWhile is_data es)"
  let ?st0 = "listen_with_proxy_protocol (map Data ?pre)"
  have r: "reads parse_proxy_header 6 (received es) ?st0"
    unfolding received_def by (rule listen_reads)
  note v = pp.reads_verdict [OF r]
  have es: "es = map Data ?pre @ dropWhile is_data es"
    using takeWhile_data takeWhile_dropWhile_id by metis
  have st: "st = fold (accept_event parse_proxy_header) (dropWhile is_data es) ?st0"
    unfolding st_def listen_with_proxy_protocol_def by (subst es) (simp only: fold_append comp_apply)
  show ?thesis
  proof (cases "dropWhile is_data es")
    case Nil
    then have "list_all is_data es" by (simp add: list_all_iff dropWhile_eq_Nil_conv)
    then show ?thesis using v st Nil by auto
  next
    case (Cons e es')
    then have "\<not> is_data e" by (metis hd_dropWhile list.distinct(1) list.sel(1))
    note t = terminal_event [OF r this]
    have "ac_status st = ac_status (accept_event parse_proxy_header e ?st0)
        \<and> ac_ip st = ac_ip (accept_event parse_proxy_header e ?st0)"
      using st Cons settled_events t by simp
    then show ?thesis using t v by auto
  qed
qed

subsection \<open>The address tables of the TLS server\<close>

text \<open>Sockets are numbered; \<open>by_peer\<close> and \<open>via_peer\<close> are keyed by the peer tuple as text.\<close>

record proxy_table =
  by_raw :: "(nat \<times> string) list"
  by_peer :: "(string \<times> string) list"
  via_raw :: "nat list"
  via_peer :: "string list"

definition empty_table :: proxy_table where
  "empty_table = \<lparr>by_raw = [], by_peer = [], via_raw = [], via_peer = []\<rparr>"

definition table_register :: "nat \<Rightarrow> string \<Rightarrow> string \<Rightarrow> proxy_table \<Rightarrow> proxy_table" where
  "table_register sock peer ip t =
     \<lparr>by_raw = AList.update sock ip (by_raw t), by_peer = AList.update peer ip (by_peer t),
      via_raw = List.insert sock (via_raw t), via_peer = List.insert peer (via_peer t)\<rparr>"

definition table_close :: "string \<Rightarrow> proxy_table \<Rightarrow> proxy_table" where
  "table_close peer t =
     t\<lparr>by_peer := AList.delete peer (by_peer t), via_peer := removeAll peer (via_peer t)\<rparr>"

text \<open>The \<open>secureConnection\<close> hook: the \<open>clientIp\<close> and \<open>viaProxyProtocol\<close> it sets on a TLS socket
  whose raw socket is \<open>raw\<close> (when the runtime exposes it) and whose peer tuple is \<open>peer\<close>.\<close>

definition secure_connection :: "nat option \<Rightarrow> string \<Rightarrow> proxy_table \<Rightarrow> string option \<times> bool" where
  "secure_connection raw peer t =
     (let found = (case raw of None \<Rightarrow> None | Some s \<Rightarrow> map_of (by_raw t) s);
          ip = (case found of None \<Rightarrow> map_of (by_peer t) peer | Some i \<Rightarrow> Some i)
      in (case ip of Some i \<Rightarrow> if i \<noteq> [] then Some i else None | None \<Rightarrow> None,
          case raw of Some s \<Rightarrow> s \<in> set (via_raw t) | None \<Rightarrow> peer \<in> set (via_peer t)))"

datatype table_event = Register nat string string | Close string

fun table_event_step :: "table_event \<Rightarrow> proxy_table \<Rightarrow> proxy_table" where
  "table_event_step (Register s p ip) t = table_register s p ip t"
| "table_event_step (Close p) t = table_close p t"

definition table_after :: "table_event list \<Rightarrow> proxy_table" where
  "table_after es = fold table_event_step es empty_table"

fun registers :: "nat \<Rightarrow> table_event \<Rightarrow> bool" where
  "registers s (Register s' p ip) = (s = s')" | "registers s (Close p) = False"

text \<open>The peers that are registered and not closed since.\<close>

fun peer_open :: "string \<Rightarrow> table_event list \<Rightarrow> bool" where
  "peer_open p [] = False"
| "peer_open p (Close p' # es) = (p \<noteq> p' \<and> peer_open p es)"
| "peer_open p (Register s p' ip # es) = (p = p' \<or> peer_open p es)"

lemma via_raw_after:
  "s \<in> set (via_raw (fold table_event_step es t)) \<longleftrightarrow> s \<in> set (via_raw t) \<or> (\<exists>e \<in> set es. registers s e)"
proof (induction es arbitrary: t)
  case (Cons e es)
  then show ?case by (cases e) (auto simp: table_register_def table_close_def)
qed simp

lemma by_raw_untouched:
  "(\<forall>e \<in> set es. \<not> registers s e) \<Longrightarrow>
     map_of (by_raw (fold table_event_step es t)) s = map_of (by_raw t) s"
proof (induction es arbitrary: t)
  case (Cons e es)
  then show ?case by (cases e) (auto simp: table_register_def table_close_def update_conv')
qed simp

lemma by_peer_after: "map_of (by_peer (table_after es)) p \<noteq> None \<longleftrightarrow> peer_open p (rev es)"
proof -
  have "map_of (by_peer (foldr table_event_step es empty_table)) p \<noteq> None \<longleftrightarrow> peer_open p es" for es
  proof (induction es)
    case (Cons e es)
    then show ?case
      by (cases e) (auto simp: table_register_def table_close_def update_conv' delete_conv' empty_table_def)
  qed (simp add: empty_table_def)
  from this [of "rev es"] show ?thesis by (simp add: table_after_def foldr_conv_fold)
qed

lemma by_peer_nonempty:
  "\<forall>v q i. Register v q i \<in> set es \<longrightarrow> i \<noteq> [] \<Longrightarrow> map_of (by_peer (table_after es)) p \<noteq> Some []"
proof -
  have "\<forall>v q i. Register v q i \<in> set es \<longrightarrow> i \<noteq> [] \<Longrightarrow>
      map_of (by_peer (foldr table_event_step es empty_table)) p \<noteq> Some []" for es
  proof (induction es)
    case (Cons e es)
    then show ?case
      by (cases e) (auto simp: table_register_def table_close_def update_conv' delete_conv')
  qed (simp add: empty_table_def)
  from this [of "rev es"]
  show "\<forall>v q i. Register v q i \<in> set es \<longrightarrow> i \<noteq> [] \<Longrightarrow> map_of (by_peer (table_after es)) p \<noteq> Some []"
    by (simp add: table_after_def foldr_conv_fold)
qed

subsection \<open>Properties\<close>

text \<open>C19: The read loop is exact. However the bytes of a connection are cut into segments, the
  socket is handed to TLS exactly when a complete header has arrived; then precisely the header has
  been taken from the socket and every byte after it is still there; and a connection is dropped
  only for a header that no continuation can make valid, never for reading too far or for a parser
  that makes no progress.\<close>

theorem header_consumed_exactly:
  fixes chunks :: "bytes list"
  defines "st \<equiv> listen_with_proxy_protocol (map Data chunks)"
  shows "(ac_status st = HandedOver \<longleftrightarrow> (\<exists>h. parse_proxy_header (concat chunks) = Ok h))
     \<and> (\<forall>h. parse_proxy_header (concat chunks) = Ok h \<longrightarrow>
          ac_buffered st = drop (ph_length h) (concat chunks) \<and> ac_ip st = header_ip h)
     \<and> (\<forall>why. ac_status st = Dropped why \<longrightarrow>
          why = ''invalid header'' \<and> (\<forall>more. parse_proxy_header (concat chunks @ more) = Invalid))"
  using pp.reads_verdict [OF listen_reads [of chunks]] pp.invalid_stable
  unfolding st_def by blast

theorem header_consumed_exactly_witness:
  "ac_buffered (listen_with_proxy_protocol
     [Data (proxy_v2_signature @ [0x20]), Data [0, 0], Data [0, 22, 3, 1]]) = [22, 3, 1]"
proof -
  have "parse_proxy_header (concat [proxy_v2_signature @ [0x20], [0, 0], [0, 22, 3, 1]])
      = Ok (v2_header 16 CmdLocal Unspec None None)" by code_simp
  then show ?thesis
    using header_consumed_exactly [of "[proxy_v2_signature @ [0x20], [0, 0], [0, 22, 3, 1]]"]
    by (simp add: v2_header_def proxy_v2_signature_def)
qed

text \<open>The client address comes from the header alone. For any events of the socket, in any
  order, an address is registered only if the bytes received before the first end, error or timeout
  start with a complete relayed header, and then it is that header's address; after such an event a
  connection never stays undecided.\<close>

theorem address_only_from_header:
  "(ac_ip (listen_with_proxy_protocol es) = Some ip \<longleftrightarrow>
      (\<exists>h. parse_proxy_header (received es) = Ok h \<and> header_ip h = Some ip))
   \<and> (ac_status (listen_with_proxy_protocol es) = HandedOver \<longleftrightarrow>
      (\<exists>h. parse_proxy_header (received es) = Ok h))
   \<and> (ac_status (listen_with_proxy_protocol es) = Reading \<longrightarrow> list_all is_data es)"
proof (cases "ac_status (listen_with_proxy_protocol es) = HandedOver")
  case True
  then obtain h where "parse_proxy_header (received es) = Ok h" using listen_verdict [of es] by blast
  then show ?thesis using listen_verdict [of es] True by simp
next
  case False
  then show ?thesis using listen_verdict [of es] by simp
qed

theorem address_only_from_header_witness:
  "ac_status (listen_with_proxy_protocol [HeaderTimeout]) \<noteq> Reading"
  using address_only_from_header [of "[HeaderTimeout]" "''1.2.3.4''"] by simp

text \<open>The address a TLS connection is given. A raw socket carries its own header's address and
  the marker whatever happened to other sockets since; one that never registered carries no
  marker, but it is given an address exactly when a registered connection with the same peer tuple
  is still open.\<close>

theorem connection_attribution:
  assumes "\<forall>e \<in> set es2. \<not> registers s e" and "ip \<noteq> []"
    and "es = es1 @ Register s p' ip # es2"
    and "\<forall>e \<in> set es. \<not> registers u e" and "\<forall>v q i. Register v q i \<in> set es \<longrightarrow> i \<noteq> []"
  shows "secure_connection (Some s) p (table_after es) = (Some ip, True)
     \<and> snd (secure_connection (Some u) p (table_after es)) = False
     \<and> (fst (secure_connection (Some u) p (table_after es)) \<noteq> None \<longleftrightarrow> peer_open p (rev es))"
proof -
  have "map_of (by_raw (table_after es)) s = Some ip"
    using by_raw_untouched [OF assms(1)] assms(3)
    by (simp add: table_after_def table_register_def update_conv')
  moreover have "map_of (by_raw (table_after es)) u = None"
    using by_raw_untouched [OF assms(4), of empty_table] by (simp add: table_after_def empty_table_def)
  moreover have "s \<in> set (via_raw (table_after es))" "u \<notin> set (via_raw (table_after es))"
    using via_raw_after [of _ es empty_table] assms(3,4)
    by (auto simp: table_after_def empty_table_def)
  moreover have "map_of (by_peer (table_after es)) p \<noteq> Some []"
    using by_peer_nonempty [OF assms(5)] .
  ultimately show ?thesis
    using by_peer_after [of es p] assms(2)
    by (auto simp: secure_connection_def Let_def split: option.splits)
qed

theorem connection_attribution_witness:
  "secure_connection (Some 2) ''127.0.0.1:5000'' (table_after [Register 1 ''127.0.0.1:5000'' ''9.9.9.9''])
     \<noteq> (None, False)"
  using connection_attribution
    [of "[]" 1 "''9.9.9.9''" "[Register 1 ''127.0.0.1:5000'' ''9.9.9.9'']" "[]" "''127.0.0.1:5000''" 2
      "''127.0.0.1:5000''"]
  by auto

end
