(* ===== verification/WebSearch.thy ===== *)
theory WebSearch
  imports JsPrelude
begin

text \<open>
  The web-search transforms of \<open>enclave/src/webSearchTransforms.mjs\<close>, on the request payload as
  a \<open>jsv\<close> object. Each function returns the payload it leaves, in place of the mutation.
\<close>

definition is_web_tool :: "jsv \<Rightarrow> bool" where
  "is_web_tool t \<longleftrightarrow> fld ''type'' t = JStr ''openrouter:web_search''"

definition has_web_search_tool :: "jsv \<Rightarrow> bool" where
  "has_web_search_tool payload \<longleftrightarrow>
     is_arr (fld ''tools'' payload) \<and> list_ex is_web_tool (elems (fld ''tools'' payload))"

definition is_active_web_plugin :: "jsv \<Rightarrow> bool" where
  "is_active_web_plugin p \<longleftrightarrow> fld ''id'' p = JStr ''web'' \<and> fld ''enabled'' p \<noteq> JFalse"

definition is_active_plugin :: "jsv \<Rightarrow> bool" where
  "is_active_plugin p \<longleftrightarrow> fld ''enabled'' p \<noteq> JFalse"

definition tool_choice_targets_web_search :: "jsv \<Rightarrow> bool" where
  "tool_choice_targets_web_search choice \<longleftrightarrow>
     fld ''type'' choice = JStr ''openrouter:web_search''
     \<or> fld ''name'' (fld ''function'' choice) = JStr ''openrouter:web_search''"

definition choice_allows_search :: "jsv \<Rightarrow> bool" where
  "choice_allows_search choice \<longleftrightarrow>
     choice \<noteq> JStr ''none'' \<and> \<not> (typeof_object choice \<and> \<not> tool_choice_targets_web_search choice)"

definition web_search_tool_active :: "jsv \<Rightarrow> bool" where
  "web_search_tool_active payload \<longleftrightarrow>
     has_web_search_tool payload \<and> choice_allows_search (fld ''tool_choice'' payload)"

definition has_active_web_plugin :: "jsv \<Rightarrow> bool" where
  "has_active_web_plugin payload \<longleftrightarrow>
     is_arr (fld ''plugins'' payload) \<and> list_ex is_active_web_plugin (elems (fld ''plugins'' payload))"

definition has_web_search :: "jsv \<Rightarrow> bool" where
  "has_web_search payload \<longleftrightarrow> has_active_web_plugin payload \<or> web_search_tool_active payload"

definition is_perplexity :: "jsv \<Rightarrow> bool" where
  "is_perplexity model = (case model of JStr m \<Rightarrow> starts_with m ''perplexity/'' | _ \<Rightarrow> False)"

definition default_engine :: "jsv \<Rightarrow> jsv" where
  "default_engine p =
     (if \<not> is_active_web_plugin p then p
      else
        let p1 = (if fld ''engine'' p = JUndef then set_fld ''engine'' (JStr ''exa'') p else p)
        in if fld ''engine'' p1 = JStr ''exa'' \<and> fld ''mode'' p1 = JUndef
           then set_fld ''mode'' (JStr ''fast'') p1 else p1)"

definition apply_web_search_engine :: "jsv \<Rightarrow> jsv" where
  "apply_web_search_engine payload =
     (if is_perplexity (fld ''model'' payload) then payload
      else case fld ''plugins'' payload of
        JArr ps \<Rightarrow> set_fld ''plugins'' (JArr (map default_engine ps)) payload
      | _ \<Rightarrow> payload)"

definition model_namespace :: "jsv \<Rightarrow> string" where
  "model_namespace model =
     (case model of
        JStr m \<Rightarrow>
          (let l = lower m;
               slug = (case l of [] \<Rightarrow> [] | c # cs \<Rightarrow> if c = CHR ''~'' then cs else l)
           in case index_of slug (CHR ''/'') of None \<Rightarrow> [] | Some i \<Rightarrow> take (i + 1) slug)
      | _ \<Rightarrow> [])"

definition web_plugin_broken_models :: "string list" where
  "web_plugin_broken_models = [''fable'', ''claude-opus-5'', ''claude-opus-4.8'', ''claude-sonnet-5'']"

definition web_plugin_breaks_model :: "jsv \<Rightarrow> bool" where
  "web_plugin_breaks_model model \<longleftrightarrow>
     model_namespace model = ''anthropic/''
     \<and> list_ex (\<lambda>frag. str_includes (str_of model) frag) web_plugin_broken_models"

definition is_web_entry :: "jsv \<Rightarrow> bool" where
  "is_web_entry p \<longleftrightarrow> fld ''id'' p = JStr ''web''"

definition max_results_field :: "jsv \<Rightarrow> js_fields" where
  "max_results_field src =
     (if is_num (fld ''max_results'' src) then [(''max_results'', fld ''max_results'' src)] else [])"

definition swap_web_plugin_for_server_tool :: "jsv \<Rightarrow> jsv" where
  "swap_web_plugin_for_server_tool payload =
     (case fld ''plugins'' payload of
        JArr ps \<Rightarrow>
          (case List.find is_active_web_plugin ps of
             None \<Rightarrow> payload
           | Some web \<Rightarrow>
               if fld ''engine'' web \<noteq> JUndef \<and> fld ''engine'' web \<noteq> JStr ''exa'' then payload
               else
                 let ps1 = filter (\<lambda>p. \<not> is_web_entry p) ps;
                     payload1 = (if ps1 = [] then del_fld ''plugins'' payload
                                 else set_fld ''plugins'' (JArr ps1) payload)
                 in if has_web_search_tool payload1 then payload1
                    else set_fld ''tools''
                           (JArr (elems (fld ''tools'' payload1)
                              @ [JObj [(''type'', JStr ''openrouter:web_search''),
                                       (''parameters'', JObj (max_results_field web))]])) payload1)
      | _ \<Rightarrow> payload)"

definition fast_native_search_namespaces :: "string list" where
  "fast_native_search_namespaces = [''anthropic/'', ''perplexity/'']"

definition model_has_fast_native_search :: "jsv \<Rightarrow> bool" where
  "model_has_fast_native_search model \<longleftrightarrow> List.member fast_native_search_namespaces (model_namespace model)"

text \<open>The second half of \<open>swapWebSearchToolForPlugin\<close>: the payload without its web-search tools
  and without a choice that would dangle, then the plugin in their place.\<close>

definition drop_web_tools :: "jsv \<Rightarrow> jsv" where
  "drop_web_tools payload =
     (let ts = filter (\<lambda>t. \<not> is_web_tool t) (elems (fld ''tools'' payload));
          payload1 = (if ts = [] then del_fld ''tools'' payload else set_fld ''tools'' (JArr ts) payload)
      in if ts = [] \<or> tool_choice_targets_web_search (fld ''tool_choice'' payload1)
         then del_fld ''tool_choice'' payload1 else payload1)"

definition add_web_plugin :: "jsv \<Rightarrow> jsv \<Rightarrow> jsv" where
  "add_web_plugin web_tool payload =
     (if has_active_web_plugin payload then payload
      else set_fld ''plugins''
             (JArr (filter (\<lambda>p. \<not> is_web_entry p) (elems (fld ''plugins'' payload))
                @ [JObj ((''id'', JStr ''web'') # max_results_field (fld ''parameters'' web_tool))])) payload)"

definition swap_web_search_tool_for_plugin :: "jsv \<Rightarrow> jsv" where
  "swap_web_search_tool_for_plugin payload =
     (case fld ''tools'' payload of
        JArr ts \<Rightarrow>
          if model_has_fast_native_search (fld ''model'' payload) then payload
          else (case List.find is_web_tool ts of
             None \<Rightarrow> payload
           | Some web_tool \<Rightarrow>
               if \<not> web_search_tool_active payload then payload
               else
                 let engine = fld ''engine'' (fld ''parameters'' web_tool)
                 in if engine \<noteq> JUndef \<and> engine \<noteq> JStr ''exa'' then payload
                    else add_web_plugin web_tool (drop_web_tools payload))
      | _ \<Rightarrow> payload)"

subsection \<open>Transforms and the fields they touch\<close>

text \<open>Every transform of a payload keeps it an object and leaves all fields but a few alone; the
  fields of a composition are the union.\<close>

locale frame_transform =
  fixes f :: "jsv \<Rightarrow> jsv" and touched :: "string set"
  assumes keeps_obj: "is_obj p \<Longrightarrow> is_obj (f p)"
    and keeps_fld: "is_obj p \<Longrightarrow> k \<notin> touched \<Longrightarrow> fld k (f p) = fld k p"
begin

lemma keeps_wider: "is_obj p \<Longrightarrow> touched \<subseteq> s \<Longrightarrow> k \<notin> s \<Longrightarrow> fld k (f p) = fld k p"
  using keeps_fld by blast

lemma keeps_when: "is_obj p \<Longrightarrow> k \<notin> touched \<Longrightarrow> fld k (if b then f p else p) = fld k p"
  using keeps_fld by simp

end

locale frame_pair = one: frame_transform f s + two: frame_transform g t
  for f g :: "jsv \<Rightarrow> jsv" and s t :: "string set"
begin

lemma comp_obj: "is_obj p \<Longrightarrow> is_obj (g (f p))"
  using one.keeps_obj two.keeps_obj by blast

lemma comp_fld: "is_obj p \<Longrightarrow> k \<notin> s \<union> t \<Longrightarrow> fld k (g (f p)) = fld k p"
  using one.keeps_obj one.keeps_fld two.keeps_fld by simp

end

sublocale frame_pair \<subseteq> comp: frame_transform "\<lambda>p. g (f p)" "s \<union> t"
  by unfold_locales (auto simp: comp_obj comp_fld)

lemmas frame_simps = js_simps Let_def

interpretation engine: frame_transform apply_web_search_engine "{''plugins''}"
  by unfold_locales (auto simp: apply_web_search_engine_def frame_simps split: jsv.split)

interpretation to_tool: frame_transform swap_web_plugin_for_server_tool "{''plugins'', ''tools''}"
  by unfold_locales
    (auto simp: swap_web_plugin_for_server_tool_def frame_simps split: jsv.split option.split)

interpretation drop_tools: frame_transform drop_web_tools "{''tools'', ''tool_choice''}"
  by unfold_locales (auto simp: drop_web_tools_def frame_simps)

interpretation add_plugin: frame_transform "add_web_plugin t" "{''plugins''}" for t
  by unfold_locales (auto simp: add_web_plugin_def frame_simps)

interpretation drop_add: frame_pair drop_web_tools "add_web_plugin t" "{''tools'', ''tool_choice''}" "{''plugins''}" for t
  by unfold_locales

interpretation to_plugin: frame_transform swap_web_search_tool_for_plugin
  "{''tools'', ''tool_choice'', ''plugins''}"
  by unfold_locales
    (auto simp: swap_web_search_tool_for_plugin_def Let_def drop_add.comp_obj drop_add.comp_fld
       split: jsv.split option.split)

subsection \<open>Lemmas\<close>

lemma is_arr_iff: "is_arr v \<longleftrightarrow> (\<exists>xs. v = JArr xs)"
  by (cases v) auto

lemma has_active_add_web_plugin: "is_obj q \<Longrightarrow> has_active_web_plugin (add_web_plugin t q)"
  by (auto simp: add_web_plugin_def has_active_web_plugin_def is_active_web_plugin_def fld_set_fld
      max_results_field_def)

lemma tool_active_if_swapped:
  assumes "swap_web_search_tool_for_plugin p \<noteq> p"
  shows "web_search_tool_active p
       \<and> (\<exists>t. swap_web_search_tool_for_plugin p = add_web_plugin t (drop_web_tools p))"
  using assms
  by (auto simp: swap_web_search_tool_for_plugin_def Let_def split: jsv.splits option.splits if_splits)

lemma breaks_keeps_tool:
  assumes "web_plugin_breaks_model (fld ''model'' q)"
  shows "swap_web_search_tool_for_plugin q = q"
proof -
  have "model_has_fast_native_search (fld ''model'' q)"
    using assms unfolding web_plugin_breaks_model_def model_has_fast_native_search_def
    by (simp add: fast_native_search_namespaces_def List.member_iff)
  then show ?thesis by (simp add: swap_web_search_tool_for_plugin_def split: jsv.split)
qed

lemma default_engine_idem: "default_engine (default_engine p) = default_engine p"
proof (cases "is_active_web_plugin p")
  case False
  then show ?thesis by (simp add: default_engine_def)
next
  case True
  then have "is_obj p" by (cases p) (auto simp: is_active_web_plugin_def)
  then show ?thesis
    using True by (auto simp: default_engine_def is_active_web_plugin_def fld_set_fld Let_def)
qed

lemma default_engine_keeps:
  "fld k p \<noteq> JUndef \<or> k \<notin> {''engine'', ''mode''} \<Longrightarrow> fld k (default_engine p) = fld k p"
proof -
  assume k: "fld k p \<noteq> JUndef \<or> k \<notin> {''engine'', ''mode''}"
  show ?thesis
  proof (cases "is_active_web_plugin p")
    case False
    then show ?thesis by (simp add: default_engine_def)
  next
    case True
    then have "is_obj p" by (cases p) (auto simp: is_active_web_plugin_def)
    then show ?thesis using True k by (auto simp: default_engine_def fld_set_fld Let_def)
  qed
qed

lemma set_fld_same: "is_obj x \<Longrightarrow> set_fld k v (set_fld k w x) = set_fld k v x"
  by (cases x) (auto simp: update_last)

lemma map_default_engine_idem: "map default_engine (map default_engine ps) = map default_engine ps"
  by (simp add: default_engine_idem)

lemma collapse_search:
  assumes "is_obj p"
  shows "has_web_search (swap_web_search_tool_for_plugin p) = has_web_search p
     \<and> (swap_web_search_tool_for_plugin p \<noteq> p \<longrightarrow>
          \<not> has_web_search_tool (swap_web_search_tool_for_plugin p)
          \<and> \<not> tool_choice_targets_web_search (fld ''tool_choice'' (swap_web_search_tool_for_plugin p)))"
proof (cases "swap_web_search_tool_for_plugin p = p")
  case False
  then obtain t where a: "web_search_tool_active p"
    and t: "swap_web_search_tool_for_plugin p = add_web_plugin t (drop_web_tools p)"
    using tool_active_if_swapped by blast
  have o: "is_obj (drop_web_tools p)" using assms by (rule drop_tools.keeps_obj)
  have f: "fld k (add_web_plugin t (drop_web_tools p)) = fld k (drop_web_tools p)" if "k \<noteq> ''plugins''" for k
    using o that by (intro add_plugin.keeps_fld) simp_all
  have "\<not> has_web_search_tool (drop_web_tools p)"
    "\<not> tool_choice_targets_web_search (fld ''tool_choice'' (drop_web_tools p))"
    using assms
    by (auto simp: drop_web_tools_def has_web_search_tool_def tool_choice_targets_web_search_def
        Let_def fld_set_fld fld_del_fld list_ex_iff)
  then show ?thesis
    using a t f [of "''tools''"] f [of "''tool_choice''"] has_active_add_web_plugin [OF o]
    by (simp add: has_web_search_def has_web_search_tool_def)
qed simp

lemma has_web_search_cong:
  "fld ''plugins'' p = fld ''plugins'' q \<Longrightarrow> fld ''tools'' p = fld ''tools'' q
     \<Longrightarrow> fld ''tool_choice'' p = fld ''tool_choice'' q \<Longrightarrow> has_web_search p = has_web_search q"
  by (simp add: has_web_search_def has_active_web_plugin_def web_search_tool_active_def has_web_search_tool_def)

lemma is_active_default_engine: "is_active_web_plugin (default_engine p) = is_active_web_plugin p"
  by (simp add: is_active_web_plugin_def default_engine_keeps)

lemma engine_keeps_search: "is_obj p \<Longrightarrow> has_web_search (apply_web_search_engine p) = has_web_search p"
proof -
  assume o: "is_obj p"
  have "has_active_web_plugin (apply_web_search_engine p) = has_active_web_plugin p"
    using o by (cases "fld ''plugins'' p")
      (auto simp: apply_web_search_engine_def has_active_web_plugin_def fld_set_fld list_ex_iff
        is_active_default_engine)
  then show ?thesis
    using o engine.keeps_fld [OF o, of "''tools''"] engine.keeps_fld [OF o, of "''tool_choice''"]
    by (simp add: has_web_search_def web_search_tool_active_def has_web_search_tool_def)
qed

subsection \<open>Properties\<close>

text \<open>Collapsing the search tool into the plugin never changes whether a search runs: whatever
  the tools, the plugins and the tool choice, a request searches after the collapse exactly when it
  searched before, and a collapsed request keeps no search tool and no choice that names one.\<close>

theorem collapse_keeps_search:
  assumes "is_obj p"
  shows "has_web_search (swap_web_search_tool_for_plugin p) = has_web_search p
     \<and> (swap_web_search_tool_for_plugin p \<noteq> p \<longrightarrow>
          \<not> has_web_search_tool (swap_web_search_tool_for_plugin p)
          \<and> \<not> tool_choice_targets_web_search (fld ''tool_choice'' (swap_web_search_tool_for_plugin p)))"
  using assms by (rule collapse_search)

theorem collapse_keeps_search_witness:
  "has_web_search (swap_web_search_tool_for_plugin
     (JObj [(''model'', JStr ''openai/gpt-4o''), (''tools'', JArr [JObj [(''type'', JStr ''openrouter:web_search'')]])]))"
proof -
  let ?p = "JObj [(''model'', JStr ''openai/gpt-4o''), (''tools'', JArr [JObj [(''type'', JStr ''openrouter:web_search'')]])]"
  have "has_web_search ?p" by code_simp
  then show ?thesis using collapse_keeps_search [of ?p] by simp
qed

text \<open>On a Claude model that the plugin breaks, the swap carries the search as the server tool:
  no web plugin is left, the tool is declared, the second swap leaves the result alone, and the
  search still runs exactly when the request's tool choice lets the tool be called.\<close>

theorem plugin_swap_carries_search:
  assumes "is_obj p" and "web_plugin_breaks_model (fld ''model'' p)"
    and "fld ''plugins'' p = JArr ps" and "List.find is_active_web_plugin ps = Some web"
    and "fld ''engine'' web = JUndef \<or> fld ''engine'' web = JStr ''exa''"
  defines "q \<equiv> swap_web_plugin_for_server_tool p"
  shows "list_all (\<lambda>e. \<not> is_web_entry e) (elems (fld ''plugins'' q)) \<and> has_web_search_tool q
     \<and> swap_web_search_tool_for_plugin q = q
     \<and> (has_web_search q \<longleftrightarrow> choice_allows_search (fld ''tool_choice'' p))"
proof -
  let ?ps = "filter (\<lambda>e. \<not> is_web_entry e) ps"
  let ?p1 = "if ?ps = [] then del_fld ''plugins'' p else set_fld ''plugins'' (JArr ?ps) p"
  have q: "q = (if has_web_search_tool ?p1 then ?p1
      else set_fld ''tools'' (JArr (elems (fld ''tools'' ?p1)
        @ [JObj [(''type'', JStr ''openrouter:web_search''), (''parameters'', JObj (max_results_field web))]])) ?p1)"
    using assms(3-5) unfolding q_def swap_web_plugin_for_server_tool_def by (auto simp: Let_def)
  have o: "is_obj ?p1" using assms(1) by simp
  have plugins: "list_all (\<lambda>e. \<not> is_web_entry e) (elems (fld ''plugins'' q))"
    unfolding q using assms(1) o by (auto simp: fld_set_fld fld_del_fld list_all_iff)
  have tool: "has_web_search_tool q"
    unfolding q using o by (auto simp: has_web_search_tool_def fld_set_fld is_web_tool_def)
  have other: "fld k q = fld k p" if "k \<notin> {''plugins'', ''tools''}" for k
    unfolding q_def using assms(1) that by (rule to_tool.keeps_fld)
  have "\<not> has_active_web_plugin q"
    using plugins
    by (auto simp: has_active_web_plugin_def list_ex_iff list_all_iff is_web_entry_def is_active_web_plugin_def)
  moreover have "swap_web_search_tool_for_plugin q = q"
    using other [of "''model''"] assms(2) by (intro breaks_keeps_tool) simp
  ultimately show ?thesis
    using plugins tool other [of "''tool_choice''"]
    by (simp add: has_web_search_def web_search_tool_active_def)
qed

theorem plugin_swap_carries_search_witness:
  "\<not> has_web_search (swap_web_plugin_for_server_tool
     (JObj [(''model'', JStr ''anthropic/claude-opus-5''), (''plugins'', JArr [JObj [(''id'', JStr ''web'')]]),
            (''tool_choice'', JStr ''none'')]))"
proof -
  let ?p = "JObj [(''model'', JStr ''anthropic/claude-opus-5''), (''plugins'', JArr [JObj [(''id'', JStr ''web'')]]),
            (''tool_choice'', JStr ''none'')]"
  have h: "is_obj ?p" "web_plugin_breaks_model (fld ''model'' ?p)"
    "fld ''plugins'' ?p = JArr [JObj [(''id'', JStr ''web'')]]"
    "List.find is_active_web_plugin [JObj [(''id'', JStr ''web'')]] = Some (JObj [(''id'', JStr ''web'')])"
    "fld ''engine'' (JObj [(''id'', JStr ''web'')]) = JUndef \<or> fld ''engine'' (JObj [(''id'', JStr ''web'')]) = JStr ''exa''"
    "\<not> choice_allows_search (fld ''tool_choice'' ?p)"
    by code_simp+
  show ?thesis using plugin_swap_carries_search [OF h(1-5)] h(6) by blast
qed

text \<open>The engine defaults only supply what is missing: applying them twice is applying them once,
  every plugin keeps its place and each field it had, and nothing but the plugins changes.\<close>

theorem engine_defaults_only:
  assumes "is_obj p"
  shows "apply_web_search_engine (apply_web_search_engine p) = apply_web_search_engine p
     \<and> length (elems (fld ''plugins'' (apply_web_search_engine p))) = length (elems (fld ''plugins'' p))
     \<and> (\<forall>i k. i < length (elems (fld ''plugins'' p)) \<and> fld k (elems (fld ''plugins'' p) ! i) \<noteq> JUndef \<longrightarrow>
          fld k (elems (fld ''plugins'' (apply_web_search_engine p)) ! i) = fld k (elems (fld ''plugins'' p) ! i))
     \<and> (\<forall>k. k \<noteq> ''plugins'' \<longrightarrow> fld k (apply_web_search_engine p) = fld k p)"
proof (cases "fld ''plugins'' p")
  case (JArr ps)
  have m: "fld ''model'' (set_fld ''plugins'' v p) = fld ''model'' p" for v
    using assms by (simp add: fld_set_fld)
  have "apply_web_search_engine (apply_web_search_engine p) = apply_web_search_engine p"
    using assms JArr m
    by (simp add: apply_web_search_engine_def fld_set_fld set_fld_same default_engine_idem comp_def)
  moreover have "fld k (apply_web_search_engine p) = fld k p" if "k \<noteq> ''plugins''" for k
    using assms that by (intro engine.keeps_fld) simp_all
  ultimately show ?thesis
    using assms JArr by (simp add: apply_web_search_engine_def fld_set_fld default_engine_keeps)
qed (simp_all add: apply_web_search_engine_def)

theorem engine_defaults_only_witness:
  "fld ''model'' (apply_web_search_engine (JObj [(''model'', JStr ''x''), (''plugins'', JArr [])])) = JStr ''x''"
  using engine_defaults_only [of "JObj [(''model'', JStr ''x''), (''plugins'', JArr [])]"] by simp

end
