(* ===== verification/CacheMarks.thy ===== *)
theory CacheMarks
  imports JsPrelude
begin

text \<open>
  The prompt-cache breakpoints of \<open>enclave/src/routing.mjs\<close> (\<open>addCachePromptMarks\<close>). The code
  collects target messages by identity and marks them in place; the model collects their indices.
\<close>

definition max_injected_cache_marks :: nat where "max_injected_cache_marks = 3"

definition is_cacheable_text_part :: "jsv \<Rightarrow> bool" where
  "is_cacheable_text_part part \<longleftrightarrow>
     fld ''type'' part = JStr ''text''
     \<and> (case fld ''text'' part of JStr s \<Rightarrow> trim s \<noteq> [] | _ \<Rightarrow> False)"

definition is_cacheable_tool_result :: "jsv \<Rightarrow> bool" where
  "is_cacheable_tool_result part \<longleftrightarrow>
     fld ''type'' part = JStr ''tool_result''
     \<and> (case fld ''content'' part of
          JStr s \<Rightarrow> trim s \<noteq> [] | JArr xs \<Rightarrow> list_ex is_cacheable_text_part xs | _ \<Rightarrow> False)"

definition cacheable :: "jsv \<Rightarrow> bool" where
  "cacheable part \<longleftrightarrow> is_cacheable_text_part part \<or> is_cacheable_tool_result part"

definition has_mark :: "jsv \<Rightarrow> bool" where
  "has_mark x \<longleftrightarrow> fld ''cache_control'' x \<noteq> JUndef"

definition block_has_caller_mark :: "jsv \<Rightarrow> bool" where
  "block_has_caller_mark block \<longleftrightarrow>
     has_mark block
     \<or> (fld ''type'' block = JStr ''tool_result'' \<and> list_ex has_mark (elems (fld ''content'' block)))"

definition has_caller_mark :: "jsv \<Rightarrow> bool" where
  "has_caller_mark msg \<longleftrightarrow>
     has_mark msg \<or> list_ex block_has_caller_mark (elems (fld ''content'' msg))"

definition has_cacheable_block :: "jsv \<Rightarrow> bool" where
  "has_cacheable_block msg \<longleftrightarrow>
     (case fld ''content'' msg of
        JStr s \<Rightarrow> trim s \<noteq> [] | JArr xs \<Rightarrow> list_ex cacheable xs | _ \<Rightarrow> False)"

definition ephemeral :: jsv where
  "ephemeral = JObj [(''type'', JStr ''ephemeral'')]"

fun mark_first :: "jsv list \<Rightarrow> jsv list" where
  "mark_first [] = []"
| "mark_first (x # xs) =
     (if cacheable x then set_fld ''cache_control'' ephemeral x # xs else x # mark_first xs)"

text \<open>The blocks that carry a message's content once a string has become a one-part array.\<close>

definition content_blocks :: "jsv \<Rightarrow> jsv list" where
  "content_blocks msg =
     (case fld ''content'' msg of
        JStr s \<Rightarrow> [JObj [(''type'', JStr ''text''), (''text'', JStr s)]]
      | JArr xs \<Rightarrow> xs
      | _ \<Rightarrow> [])"

definition mark_last_cacheable_block :: "jsv \<Rightarrow> jsv" where
  "mark_last_cacheable_block msg =
     (if \<not> has_cacheable_block msg then msg
      else set_fld ''content'' (JArr (rev (mark_first (rev (content_blocks msg))))) msg)"

definition add_target :: "jsv list \<Rightarrow> nat \<Rightarrow> nat list \<Rightarrow> nat list" where
  "add_target ms i ts = (if has_cacheable_block (ms ! i) \<and> i \<notin> set ts then ts @ [i] else ts)"

definition user_anchors :: "jsv list \<Rightarrow> nat list" where
  "user_anchors ms =
     filter (\<lambda>i. fld ''role'' (ms ! i) = JStr ''user'' \<and> has_cacheable_block (ms ! i)) [0 ..< length ms]"

definition last_two :: "'a list \<Rightarrow> 'a list" where
  "last_two xs = drop (length xs - 2) xs"

definition add_tail :: "jsv list \<Rightarrow> nat list \<Rightarrow> nat list" where
  "add_tail ms ts =
     (case List.find (\<lambda>i. has_cacheable_block (ms ! i)) (rev [0 ..< length ms]) of
        None \<Rightarrow> ts | Some i \<Rightarrow> add_target ms i ts)"

function drop_over_budget :: "nat list \<Rightarrow> nat list" where
  "drop_over_budget ts =
     (if max_injected_cache_marks < length ts then drop_over_budget (take 1 ts @ drop 2 ts) else ts)"
  by pat_completeness auto
termination by (relation "measure length") (auto simp: max_injected_cache_marks_def)

declare drop_over_budget.simps [simp del]

definition cache_targets :: "jsv list \<Rightarrow> nat list" where
  "cache_targets ms =
     drop_over_budget (add_tail ms (fold (add_target ms) (last_two (user_anchors ms)) (add_target ms 0 [])))"

definition add_cache_prompt_marks :: "jsv list \<Rightarrow> jsv list" where
  "add_cache_prompt_marks ms =
     (if ms = [] then ms
      else if list_ex has_caller_mark ms then ms
      else map (\<lambda>i. if i \<in> set (cache_targets ms) then mark_last_cacheable_block (ms ! i) else ms ! i)
             [0 ..< length ms])"

subsection \<open>The targets\<close>

lemma set_add_target: "set (add_target ms i ts) \<subseteq> insert i (set ts)"
  by (auto simp: add_target_def)

lemma add_target_cacheable:
  "\<forall>j \<in> set ts. j < length ms \<and> has_cacheable_block (ms ! j) \<Longrightarrow> i < length ms
     \<Longrightarrow> \<forall>j \<in> set (add_target ms i ts). j < length ms \<and> has_cacheable_block (ms ! j)"
  by (auto simp: add_target_def)

lemma add_target_distinct: "distinct ts \<Longrightarrow> distinct (add_target ms i ts)"
  by (simp add: add_target_def)

lemma set_drop_over_budget: "set (drop_over_budget ts) \<subseteq> set ts"
proof (induction ts rule: drop_over_budget.induct)
  case (1 ts)
  then show ?case
    by (subst drop_over_budget.simps) (auto dest: in_set_takeD in_set_dropD)
qed

lemma length_drop_over_budget: "length (drop_over_budget ts) \<le> 3"
proof (induction ts rule: drop_over_budget.induct)
  case (1 ts)
  then show ?case
    by (subst drop_over_budget.simps) (auto simp: max_injected_cache_marks_def)
qed

lemma drop_over_budget_distinct: "distinct ts \<Longrightarrow> distinct (drop_over_budget ts)"
proof (induction ts rule: drop_over_budget.induct)
  case (1 ts)
  then show ?case
    by (cases ts; cases "tl ts") (subst drop_over_budget.simps, auto simp: max_injected_cache_marks_def)+
qed

text \<open>The first and the last target survive the budget.\<close>

lemma drop_over_budget_ends:
  "ts \<noteq> [] \<Longrightarrow> drop_over_budget ts \<noteq> [] \<and> hd (drop_over_budget ts) = hd ts \<and> last (drop_over_budget ts) = last ts"
proof (induction ts rule: drop_over_budget.induct)
  case (1 ts)
  show ?case
  proof (cases "max_injected_cache_marks < length ts")
    case False
    then show ?thesis using 1(2) by (simp add: drop_over_budget.simps)
  next
    case True
    then obtain a b c cs where ts: "ts = a # b # c # cs"
      by (cases ts rule: remdups_adj.cases; cases "tl (tl ts)") (auto simp: max_injected_cache_marks_def)
    have "drop_over_budget ts = drop_over_budget (a # c # cs)"
      using True ts by (subst drop_over_budget.simps) simp
    then show ?thesis using 1(1) [OF True] ts by simp
  qed
qed

lemma find_last_upt:
  "List.find P (rev [0 ..< n]) = Some i \<longleftrightarrow> i < n \<and> P i \<and> (\<forall>j. i < j \<and> j < n \<longrightarrow> \<not> P j)"
proof (induction n)
  case (Suc n)
  then show ?case by (auto simp: less_Suc_eq)
qed simp

lemma find_last_None: "List.find P (rev [0 ..< n]) = None \<longleftrightarrow> (\<forall>j < n. \<not> P j)"
  by (auto simp: find_None_iff)

lemma targets_ok:
  assumes "ms \<noteq> []"
  shows "\<forall>i \<in> set (cache_targets ms). i < length ms \<and> has_cacheable_block (ms ! i)"
proof -
  let ?ok = "\<lambda>ts. \<forall>i \<in> set ts. i < length ms \<and> has_cacheable_block (ms ! i)"
  have fold: "?ok (fold (add_target ms) is ts)" if "?ok ts" "\<forall>i \<in> set is. i < length ms" for "is" ts
    using that
  proof (induction "is" arbitrary: ts)
    case (Cons i "is")
    have i: "i < length ms" and "is": "\<forall>i \<in> set is. i < length ms" using Cons.prems(2) by simp_all
    have "?ok (add_target ms i ts)" by (rule add_target_cacheable [OF Cons.prems(1) i])
    from Cons.IH [OF this "is"] show ?case by (simp only: fold_simps)
  qed simp
  have "?ok (add_target ms 0 [])" using assms by (auto simp: add_target_def)
  moreover have "\<forall>i \<in> set (last_two (user_anchors ms)). i < length ms"
    by (auto simp: last_two_def user_anchors_def dest: in_set_dropD)
  ultimately have "?ok (fold (add_target ms) (last_two (user_anchors ms)) (add_target ms 0 []))"
    by (intro fold)
  note pre = this
  have "?ok (add_tail ms ts)" if ts: "?ok ts" for ts
  proof (cases "List.find (\<lambda>i. has_cacheable_block (ms ! i)) (rev [0 ..< length ms])")
    case None
    then show ?thesis using ts by (simp add: add_tail_def)
  next
    case (Some i)
    then have "i < length ms" by (simp add: find_last_upt)
    then have "?ok (add_target ms i ts)" by (rule add_target_cacheable [OF ts])
    then show ?thesis using Some by (simp add: add_tail_def)
  qed
  from this [OF pre] show ?thesis
    using set_drop_over_budget unfolding cache_targets_def by blast
qed

lemma card_targets: "card (set (cache_targets ms)) \<le> 3"
  using card_length [of "cache_targets ms"] length_drop_over_budget
  by (metis cache_targets_def le_trans)

lemma hd_fold_add_target: "ts \<noteq> [] \<Longrightarrow> fold (add_target ms) is ts \<noteq> [] \<and> hd (fold (add_target ms) is ts) = hd ts"
proof (induction "is" arbitrary: ts)
  case (Cons i "is")
  have "add_target ms i ts \<noteq> [] \<and> hd (add_target ms i ts) = hd ts"
    using Cons.prems by (simp add: add_target_def)
  then show ?case using Cons.IH [of "add_target ms i ts"] by simp
qed simp

text \<open>The first message and the last markable one are always among the targets.\<close>

lemma first_is_target:
  assumes "has_cacheable_block (ms ! 0)"
  shows "0 \<in> set (cache_targets ms)"
proof -
  let ?ts = "fold (add_target ms) (last_two (user_anchors ms)) [0]"
  have "add_target ms 0 [] = [0]" using assms by (simp add: add_target_def)
  moreover have t: "?ts \<noteq> [] \<and> hd ?ts = 0" using hd_fold_add_target [of "[0]"] by simp
  moreover have "add_tail ms ?ts \<noteq> [] \<and> hd (add_tail ms ?ts) = 0"
    using t by (auto simp: add_tail_def add_target_def split: option.splits)
  ultimately have "hd (cache_targets ms) = 0 \<and> cache_targets ms \<noteq> []"
    using drop_over_budget_ends by (simp add: cache_targets_def)
  then show ?thesis by (metis list.set_sel(1))
qed


lemma length_fold_add_target: "length (fold (add_target ms) is ts) \<le> length ts + length is"
proof (induction "is" arbitrary: ts)
  case (Cons i "is")
  have "length (add_target ms i ts) \<le> Suc (length ts)" by (simp add: add_target_def)
  then show ?case using Cons.IH [of "add_target ms i ts"] by simp
qed simp

lemma last_is_target:
  assumes "i < length ms" and "has_cacheable_block (ms ! i)"
    and "\<forall>j. i < j \<and> j < length ms \<longrightarrow> \<not> has_cacheable_block (ms ! j)"
  shows "i \<in> set (cache_targets ms)"
proof -
  let ?ts = "fold (add_target ms) (last_two (user_anchors ms)) (add_target ms 0 [])"
  have f: "List.find (\<lambda>i. has_cacheable_block (ms ! i)) (rev [0 ..< length ms]) = Some i"
    using assms by (simp add: find_last_upt)
  have "length (last_two (user_anchors ms)) \<le> 2" by (simp add: last_two_def)
  moreover have "length (add_target ms 0 []) \<le> 1" by (simp add: add_target_def)
  ultimately have l: "length ?ts \<le> 3"
    using length_fold_add_target [of ms "last_two (user_anchors ms)" "add_target ms 0 []"] by linarith
  have t: "add_tail ms ?ts = (if i \<in> set ?ts then ?ts else ?ts @ [i])"
    using f assms(2) by (simp add: add_tail_def add_target_def)
  show ?thesis
  proof (cases "i \<in> set ?ts")
    case True
    then have "cache_targets ms = ?ts"
      using l t by (simp add: cache_targets_def drop_over_budget.simps max_injected_cache_marks_def)
    then show ?thesis using True by simp
  next
    case False
    then have "last (cache_targets ms) = i \<and> cache_targets ms \<noteq> []"
      using t drop_over_budget_ends [of "?ts @ [i]"] by (simp add: cache_targets_def)
    then show ?thesis using last_in_set by metis
  qed
qed

subsection \<open>One message\<close>

lemma mark_first_at:
  "list_ex cacheable xs \<Longrightarrow> \<exists>k < length xs. cacheable (xs ! k) \<and> (\<forall>j < k. \<not> cacheable (xs ! j))
     \<and> mark_first xs = xs[k := set_fld ''cache_control'' ephemeral (xs ! k)]"
proof (induction xs)
  case (Cons x xs)
  show ?case
  proof (cases "cacheable x")
    case True
    then show ?thesis by (intro exI [of _ 0]) simp
  next
    case False
    then obtain k where "k < length xs" "cacheable (xs ! k)" "\<forall>j < k. \<not> cacheable (xs ! j)"
      "mark_first xs = xs[k := set_fld ''cache_control'' ephemeral (xs ! k)]"
      using Cons by auto
    then show ?thesis using False by (intro exI [of _ "Suc k"]) (auto simp: nth_Cons split: nat.split)
  qed
qed simp

definition marked_once :: "jsv \<Rightarrow> jsv \<Rightarrow> bool" where
  "marked_once m m' \<longleftrightarrow>
     (\<exists>k < length (content_blocks m). cacheable (content_blocks m ! k)
        \<and> (\<forall>j. k < j \<and> j < length (content_blocks m) \<longrightarrow> \<not> cacheable (content_blocks m ! j))
        \<and> fld ''content'' m' = JArr ((content_blocks m)[k := set_fld ''cache_control'' ephemeral (content_blocks m ! k)]))
     \<and> (\<forall>f. f \<noteq> ''content'' \<longrightarrow> fld f m' = fld f m)"

lemma has_cacheable_obj: "has_cacheable_block m \<Longrightarrow> is_obj m"
  by (cases m) (auto simp: has_cacheable_block_def)

lemma has_cacheable_blocks: "has_cacheable_block m \<longleftrightarrow> list_ex cacheable (content_blocks m)"
  by (auto simp: has_cacheable_block_def content_blocks_def cacheable_def is_cacheable_text_part_def
      is_cacheable_tool_result_def split: jsv.split)

lemma mark_message:
  assumes "has_cacheable_block m"
  shows "marked_once m (mark_last_cacheable_block m)"
proof -
  let ?bs = "content_blocks m"
  have "list_ex cacheable (rev ?bs)" using assms by (simp add: has_cacheable_blocks)
  then obtain k where k: "k < length ?bs" "cacheable (rev ?bs ! k)" "\<forall>j < k. \<not> cacheable (rev ?bs ! j)"
    "mark_first (rev ?bs) = (rev ?bs)[k := set_fld ''cache_control'' ephemeral (rev ?bs ! k)]"
    using mark_first_at [of "rev ?bs"] by auto
  let ?k = "length ?bs - Suc k"
  have "rev (mark_first (rev ?bs)) = ?bs[?k := set_fld ''cache_control'' ephemeral (?bs ! ?k)]"
    using k(1) unfolding k(4) by (simp add: rev_update rev_nth)
  moreover have "\<not> cacheable (?bs ! j)" if "?k < j" "j < length ?bs" for j
  proof -
    have "length ?bs - Suc j < k" using that k(1) by linarith
    then have "\<not> cacheable (rev ?bs ! (length ?bs - Suc j))" using k(3) by blast
    then show ?thesis using that by (simp add: rev_nth)
  qed
  moreover have "cacheable (?bs ! ?k)" using k(1,2) by (simp add: rev_nth)
  moreover have "?k < length ?bs" using k(1) by simp
  ultimately show ?thesis
    using assms has_cacheable_obj [OF assms]
    unfolding marked_once_def mark_last_cacheable_block_def by (auto simp: fld_set_fld)
qed

lemma marked_has_caller_mark: "marked_once m m' \<Longrightarrow> has_caller_mark m'"
proof -
  assume "marked_once m m'"
  then obtain k where k: "k < length (content_blocks m)" "cacheable (content_blocks m ! k)"
    "fld ''content'' m' = JArr ((content_blocks m)[k := set_fld ''cache_control'' ephemeral (content_blocks m ! k)])"
    by (auto simp: marked_once_def)
  have "is_obj (content_blocks m ! k)"
    using k(2) by (cases "content_blocks m ! k")
      (auto simp: cacheable_def is_cacheable_text_part_def is_cacheable_tool_result_def)
  then have "block_has_caller_mark (set_fld ''cache_control'' ephemeral (content_blocks m ! k))"
    by (simp add: block_has_caller_mark_def has_mark_def fld_set_fld ephemeral_def)
  moreover have "set_fld ''cache_control'' ephemeral (content_blocks m ! k) \<in> set (elems (fld ''content'' m'))"
    using k(1,3) by (simp add: set_update_memI)
  ultimately show ?thesis by (auto simp: has_caller_mark_def list_ex_iff)
qed

subsection \<open>Properties\<close>

text \<open>The injected cache breakpoints. A conversation in which the caller marked anything is left
  as it is. Otherwise at most three messages change, each only by one mark on the last of its
  blocks that may carry one, the first message and the last markable message are among them
  whenever they can carry a mark, and marking twice is marking once.\<close>

theorem cache_marks_bounded:
  fixes ms :: "jsv list"
  defines "out \<equiv> add_cache_prompt_marks ms"
  shows "length out = length ms
     \<and> (list_ex has_caller_mark ms \<longrightarrow> out = ms)
     \<and> (\<exists>T. card T \<le> 3 \<and> (\<forall>i < length ms. if i \<in> T then marked_once (ms ! i) (out ! i) else out ! i = ms ! i)
          \<and> (\<forall>i < length ms. \<not> list_ex has_caller_mark ms \<and> has_cacheable_block (ms ! i)
               \<and> (i = 0 \<or> (\<forall>j. i < j \<and> j < length ms \<longrightarrow> \<not> has_cacheable_block (ms ! j))) \<longrightarrow> i \<in> T))
     \<and> add_cache_prompt_marks out = out"
proof (cases "ms = [] \<or> list_ex has_caller_mark ms")
  case True
  then have "out = ms" by (auto simp: out_def add_cache_prompt_marks_def)
  then show ?thesis using True by (auto simp: out_def intro!: exI [of _ "{}"])
next
  case False
  let ?T = "set (cache_targets ms)"
  have ok: "i < length ms \<and> has_cacheable_block (ms ! i)" if "i \<in> ?T" for i
    using targets_ok False that by blast
  have out: "out = map (\<lambda>i. if i \<in> ?T then mark_last_cacheable_block (ms ! i) else ms ! i) [0 ..< length ms]"
    using False by (simp add: out_def add_cache_prompt_marks_def)
  have len: "length out = length ms" by (simp add: out)
  have each: "if i \<in> ?T then marked_once (ms ! i) (out ! i) else out ! i = ms ! i" if "i < length ms" for i
    using that ok mark_message by (simp add: out)
  have ends: "i \<in> ?T" if "i < length ms" "has_cacheable_block (ms ! i)"
      "i = 0 \<or> (\<forall>j. i < j \<and> j < length ms \<longrightarrow> \<not> has_cacheable_block (ms ! j))" for i
    using that first_is_target last_is_target by blast
  have idem: "add_cache_prompt_marks out = out"
  proof (cases "?T = {}")
    case True
    then have "out = ms" using each len by (intro nth_equalityI) auto
    then show ?thesis by (simp add: out_def)
  next
    case F: False
    then obtain i where "i \<in> ?T" by (metis ex_in_conv)
    then have "has_caller_mark (out ! i)" "i < length out"
      using each [of i] ok [of i] len marked_has_caller_mark by auto
    then have "list_ex has_caller_mark out" by (auto simp: list_ex_iff)
    then show ?thesis by (simp add: add_cache_prompt_marks_def)
  qed
  then show ?thesis
    using False len each ends card_targets by (intro conjI) (auto intro!: exI [of _ ?T])
qed

theorem cache_marks_bounded_witness:
  "add_cache_prompt_marks [JObj [(''role'', JStr ''user''), (''content'', JStr ''hi''), (''cache_control'', ephemeral)]]
     = [JObj [(''role'', JStr ''user''), (''content'', JStr ''hi''), (''cache_control'', ephemeral)]]"
proof -
  have "list_ex has_caller_mark
      [JObj [(''role'', JStr ''user''), (''content'', JStr ''hi''), (''cache_control'', ephemeral)]]"
    by (simp add: has_caller_mark_def has_mark_def ephemeral_def)
  then show ?thesis using cache_marks_bounded by blast
qed

end
