(* ===== verification/Routing.thy ===== *)
theory Routing
  imports WebSearch CacheMarks
begin

text \<open>
  The shaping of the OpenRouter body: \<open>enclave/src/routing.mjs\<close>, and the order in which
  \<open>enclave/src/server.mjs\<close> applies its transforms to an authorized request. Each function
  returns the payload it leaves; HMAC-SHA256 is the parameter \<open>hmac\<close>.
\<close>

subsection \<open>Model and engine labels\<close>

definition exa_web_plugin_requested :: "jsv \<Rightarrow> bool" where
  "exa_web_plugin_requested payload \<longleftrightarrow>
     (case fld ''plugins'' payload of
        JArr ps \<Rightarrow> list_ex (\<lambda>p. typeof_object p \<and> is_active_web_plugin p \<and> fld ''engine'' p = JStr ''exa'') ps
      | _ \<Rightarrow> False)"

definition web_search_engine_of :: "jsv \<Rightarrow> (jsv \<Rightarrow> bool) \<Rightarrow> string option" where
  "web_search_engine_of payload has_search =
     (if exa_web_plugin_requested payload then Some ''exa''
      else if has_search payload then Some ''native'' else None)"

definition invalid_model :: "js_error + jsv" where
  "invalid_model = Inl (Thrown ''Invalid payload: model must be a string'')"

definition resolve_model :: "jsv \<Rightarrow> js_error + jsv" where
  "resolve_model payload =
     (let m = fld ''model'' payload;
          p = (if typeof_object m \<and> truthy (fld ''id'' m) then set_fld ''model'' (fld ''id'' m) payload
               else payload)
      in if is_str (fld ''model'' p) then Inr p else invalid_model)"

subsection \<open>\<open>transformPayload\<close>\<close>

definition caller_zdr :: "jsv \<Rightarrow> bool" where
  "caller_zdr payload \<longleftrightarrow> fld ''zdr'' (fld ''provider'' payload) = JTrue"

definition jstrs :: "string list \<Rightarrow> jsv" where
  "jstrs ws = JArr (map JStr ws)"

definition glm_fast :: "jsv \<Rightarrow> jsv" where
  "glm_fast payload =
     (if fld ''model'' payload = JStr ''z-ai/glm-5.2-fast'' \<or> fld ''model'' payload = JStr ''glm-5.2-fast''
      then set_fld ''provider''
             (JObj [(''order'', jstrs [''fireworks/fast'', ''fireworks'']), (''allow_fallbacks'', JTrue)])
             (set_fld ''model'' (JStr ''z-ai/glm-5.2'') payload)
      else payload)"

definition mark_messages :: "jsv \<Rightarrow> jsv" where
  "mark_messages payload =
     (case fld ''messages'' payload of
        JArr ms \<Rightarrow> set_fld ''messages'' (JArr (add_cache_prompt_marks ms)) payload
      | _ \<Rightarrow> payload)"

definition has_active_plugin :: "jsv \<Rightarrow> bool" where
  "has_active_plugin payload \<longleftrightarrow>
     is_arr (fld ''plugins'' payload) \<and> list_ex is_active_plugin (elems (fld ''plugins'' payload))"

definition opus48_web :: "jsv \<Rightarrow> bool" where
  "opus48_web payload \<longleftrightarrow>
     (has_active_web_plugin payload \<or> web_search_tool_active payload)
     \<and> fld ''model'' payload = JStr ''anthropic/claude-opus-4.8''"

definition anthropic_provider :: "jsv \<Rightarrow> jsv" where
  "anthropic_provider payload =
     (let bedrock_unavailable = (fld ''model'' payload = JStr ''anthropic/claude-opus-5'');
          only_anthropic = JObj [(''order'', jstrs [''anthropic'']), (''allow_fallbacks'', JFalse)]
      in if str_includes (str_of (fld ''model'' payload)) ''fable'' then only_anthropic
         else if has_active_web_plugin payload \<and> bedrock_unavailable then only_anthropic
         else if has_active_plugin payload \<or> web_search_tool_active payload \<or> bedrock_unavailable
           then JObj [(''ignore'', jstrs [''amazon-bedrock''])]
         else JObj [(''order'', jstrs [''amazon-bedrock'']),
                    (''ignore'', jstrs [''amazon-bedrock/claude-on-aws'']), (''allow_fallbacks'', JFalse)])"

text \<open>The anthropic block, returning also whether ZDR is suppressed for Opus 4.8 with search.\<close>

definition anthropic_block :: "jsv \<Rightarrow> jsv \<times> bool" where
  "anthropic_block payload =
     (if str_includes (str_of (fld ''model'' payload)) ''anthropic'' then
        let p1 = mark_messages payload;
            p2 = (if web_plugin_breaks_model (fld ''model'' p1) then swap_web_plugin_for_server_tool p1 else p1)
        in (set_fld ''provider'' (anthropic_provider p2) p2, opus48_web p2)
      else (payload, False))"

definition exclude_venice :: "jsv \<Rightarrow> jsv" where
  "exclude_venice payload =
     (let m = str_of (fld ''model'' payload); provider = fld ''provider'' payload
      in if \<not> str_includes m ''anthropic''
            \<and> \<not> starts_with m ''cognitivecomputations/dolphin-mistral-24b-venice-edition''
         then
           let existing = elems (fld ''ignore'' provider)
           in set_fld ''provider''
                (JObj (AList.update ''ignore''
                   (JArr (if List.member existing (JStr ''venice'') then existing else existing @ [JStr ''venice'']))
                   (spread provider))) payload
         else payload)"

definition reapply_zdr :: "bool \<Rightarrow> jsv \<Rightarrow> jsv" where
  "reapply_zdr z payload =
     (if z then set_fld ''provider'' (JObj (AList.update ''zdr'' JTrue (spread (fld ''provider'' payload)))) payload
      else payload)"

definition include_usage :: "jsv \<Rightarrow> jsv" where
  "include_usage payload =
     set_fld ''usage''
       (JObj (AList.update ''include'' JTrue
          (if truthy (fld ''usage'' payload) then spread (fld ''usage'' payload) else []))) payload"

definition transform_payload :: "jsv \<Rightarrow> js_error + jsv" where
  "transform_payload payload =
     (if \<not> is_str (fld ''model'' payload) then invalid_model
      else
        let zdr = caller_zdr payload; (p, opus) = anthropic_block (glm_fast payload)
        in Inr (include_usage (apply_web_search_engine (swap_web_search_tool_for_plugin
                  (reapply_zdr (zdr \<and> \<not> opus) (exclude_venice p))))))"

subsection \<open>Directives and strips\<close>

definition is_open_ai_family_model :: "jsv \<Rightarrow> bool" where
  "is_open_ai_family_model model =
     (case model of JStr m \<Rightarrow> starts_with m ''openai/'' \<and> \<not> starts_with m ''openai/gpt-oss'' | _ \<Rightarrow> False)"

definition compute_safety_identifier :: "(string \<Rightarrow> string \<Rightarrow> string) \<Rightarrow> jsv \<Rightarrow> string \<Rightarrow> string option" where
  "compute_safety_identifier hmac credit_id secret =
     (case credit_id of
        JStr c \<Rightarrow> if c = [] \<or> secret = [] then None else Some (hmac secret c) | _ \<Rightarrow> None)"

definition apply_safety_identifier :: "(string \<Rightarrow> string \<Rightarrow> string) \<Rightarrow> jsv \<Rightarrow> string \<Rightarrow> jsv \<Rightarrow> jsv" where
  "apply_safety_identifier hmac credit_id secret payload =
     (if \<not> is_open_ai_family_model (fld ''model'' payload) then payload
      else case compute_safety_identifier hmac credit_id secret of
        None \<Rightarrow> payload
      | Some ident \<Rightarrow> del_fld ''safety_identifier'' (set_fld ''user'' (JStr ident) payload))"

definition cost_tiers :: "string list" where
  "cost_tiers = [''low'', ''medium'', ''high'', ''xhigh'', ''max'']"

definition max_allowed_models :: nat where "max_allowed_models = 100"

definition model_pattern :: "string \<Rightarrow> bool" where
  "model_pattern s =
     (case s of [] \<Rightarrow> False
      | c # cs \<Rightarrow> (is_alnum c \<or> c = CHR ''*'') \<and> length cs \<le> 127
          \<and> list_all (\<lambda>d. is_alnum d \<or> List.member ''_.:/*-'' d) cs)"

definition parse_auto_router :: "jsv \<Rightarrow> (jsv \<times> string) option" where
  "parse_auto_router raw =
     (case (fld ''allowed_models'' raw, fld ''cost_tier'' raw) of
        (JArr models, JStr tier) \<Rightarrow>
          if models = [] \<or> max_allowed_models < length models
             \<or> \<not> list_all (\<lambda>m. case m of JStr s \<Rightarrow> model_pattern s | _ \<Rightarrow> False) models
             \<or> \<not> List.member cost_tiers tier
          then None else Some (JArr models, tier)
      | _ \<Rightarrow> None)"

definition apply_auto_router_config :: "(jsv \<times> string) option \<Rightarrow> jsv \<Rightarrow> jsv" where
  "apply_auto_router_config settings payload =
     (case settings of
        None \<Rightarrow> payload
      | Some (models, tier) \<Rightarrow>
          let ps = elems (fld ''plugins'' payload)
          in if list_ex (\<lambda>p. fld ''id'' p = JStr ''auto-router'') ps
             then payload
             else set_fld ''plugins''
                    (JArr (ps @ [JObj [(''id'', JStr ''auto-router''), (''allowed_models'', models),
                                       (''cost_tier'', JStr tier)]])) payload)"

definition quantization_pattern :: "string \<Rightarrow> bool" where
  "quantization_pattern s \<longleftrightarrow>
     2 \<le> length s \<and> length s \<le> 12 \<and> list_all (\<lambda>c. is_lower_az c \<or> is_digit c) s"

definition max_floor_quantizations :: nat where "max_floor_quantizations = 16"

definition parse_provider_floor :: "jsv \<Rightarrow> jsv list option" where
  "parse_provider_floor raw =
     (case fld ''quantizations'' raw of
        JArr q \<Rightarrow>
          if q = [] \<or> max_floor_quantizations < length q
             \<or> \<not> list_all (\<lambda>v. case v of JStr s \<Rightarrow> quantization_pattern s | _ \<Rightarrow> False) q
          then None else Some q
      | _ \<Rightarrow> None)"

definition zdr_field :: "bool \<Rightarrow> js_fields \<Rightarrow> js_fields" where
  "zdr_field z kvs = (if z then AList.update ''zdr'' JTrue kvs else kvs)"

definition apply_provider_directive :: "jsv \<Rightarrow> jsv \<Rightarrow> jsv" where
  "apply_provider_directive directive payload =
     (case directive of
        JObj d \<Rightarrow> set_fld ''provider'' (JObj (zdr_field (caller_zdr payload) d)) payload
      | _ \<Rightarrow> payload)"

definition apply_hard_provider_pin :: "jsv \<Rightarrow> jsv \<Rightarrow> jsv \<times> bool" where
  "apply_hard_provider_pin directive body =
     (case directive of
        JObj d \<Rightarrow>
          if \<not> typeof_object body then (body, False)
          else if elems (fld ''only'' directive) = [] then (body, False)
          else (set_fld ''provider'' (JObj (zdr_field (caller_zdr body) d)) body, True)
      | _ \<Rightarrow> (body, False))"

definition hard_pinned :: "jsv \<Rightarrow> bool" where
  "hard_pinned p \<longleftrightarrow>
     fld ''quantizations'' p \<noteq> JUndef \<or> fld ''only'' p \<noteq> JUndef \<or> fld ''zdr'' p = JTrue
     \<or> (is_arr (fld ''order'' p) \<and> fld ''allow_fallbacks'' p = JFalse)"

definition apply_provider_floor :: "jsv list option \<Rightarrow> jsv \<Rightarrow> jsv" where
  "apply_provider_floor flr payload =
     (case flr of
        None \<Rightarrow> payload
      | Some q \<Rightarrow>
          let p = fld ''provider'' payload
          in if q = [] \<or> \<not> (nullish p JNull = JNull \<or> is_obj p) \<or> hard_pinned p then payload
             else set_fld ''provider'' (JObj (AList.update ''quantizations'' (JArr q) (spread p))) payload)"

subsection \<open>The spend cap\<close>

definition is_nullish :: "jsv \<Rightarrow> bool" where
  "is_nullish v \<longleftrightarrow> v = JUndef \<or> v = JNull"

definition capped_length :: "rat \<Rightarrow> jsv \<Rightarrow> rat" where
  "capped_length cap payload =
     (let requested = nullish (fld ''max_tokens'' payload) (fld ''max_completion_tokens'' payload)
      in if num_finite requested \<and> 0 < num_rat requested then min (num_rat requested) cap else cap)"

definition cap_length :: "rat \<Rightarrow> jsv \<Rightarrow> jsv" where
  "cap_length cap payload =
     (let v = JNum (Fin (capped_length cap payload))
      in if \<not> is_nullish (fld ''max_completion_tokens'' payload) \<and> is_nullish (fld ''max_tokens'' payload)
         then set_fld ''max_completion_tokens'' v payload
         else if \<not> is_nullish (fld ''max_completion_tokens'' payload)
         then set_fld ''max_completion_tokens'' v (set_fld ''max_tokens'' v payload)
         else set_fld ''max_tokens'' v payload)"

definition apply_spend_cap :: "rat \<Rightarrow> jsv \<Rightarrow> jsv \<times> int option" where
  "apply_spend_cap cap payload =
     (let p = cap_length cap payload; n = fld ''n'' p
      in if n = JUndef then (p, None)
         else if \<not> num_integer n \<or> num_rat n < 1 then (del_fld ''n'' p, None)
         else if num_rat n = 1 then (p, None)
         else
           let per_choice = max 1 (capped_length cap payload); bounded = max 1 \<lfloor>cap / per_choice\<rfloor>
           in if num_rat n \<le> of_int bounded then (p, None)
              else (set_fld ''n'' (jint bounded) p, Some bounded))"

subsection \<open>The strips\<close>

definition is_paid_web_search_tool :: "jsv \<Rightarrow> bool" where
  "is_paid_web_search_tool t =
     (case fld ''type'' t of
        JStr s \<Rightarrow> s = ''openrouter:web_search'' \<or> starts_with s ''web_search'' | _ \<Rightarrow> False)"

definition choice_targets_paid_search :: "jsv \<Rightarrow> bool" where
  "choice_targets_paid_search choice \<longleftrightarrow>
     is_paid_web_search_tool choice
     \<or> fld ''name'' (fld ''function'' choice) = JStr ''openrouter:web_search''
     \<or> (fld ''type'' choice = JStr ''tool'' \<and> fld ''name'' choice = JStr ''web_search'')"

definition strip_search_tools :: "jsv \<Rightarrow> jsv" where
  "strip_search_tools payload =
     (case fld ''tools'' payload of
        JArr ts \<Rightarrow>
          let kept = filter (\<lambda>t. \<not> is_paid_web_search_tool t) ts;
              p = (if kept = [] then del_fld ''tools'' payload else set_fld ''tools'' (JArr kept) payload)
          in if list_ex is_paid_web_search_tool ts
                \<and> (kept = [] \<or> choice_targets_paid_search (fld ''tool_choice'' p))
             then del_fld ''tool_choice'' p else p
      | _ \<Rightarrow> payload)"

definition apply_free_model_strip :: "jsv \<Rightarrow> jsv" where
  "apply_free_model_strip payload =
     strip_search_tools (if truthy (fld ''plugins'' payload) then del_fld ''plugins'' payload else payload)"

definition apply_web_plugin_directive :: "jsv \<Rightarrow> jsv" where
  "apply_web_plugin_directive payload =
     (let ps = elems (fld ''plugins'' payload)
      in if list_ex is_active_web_plugin ps then payload
         else set_fld ''plugins''
                (JArr (filter (\<lambda>p. \<not> is_web_entry p) ps @ [JObj [(''id'', JStr ''web'')]])) payload)"

definition apply_tool_strip :: "jsv \<Rightarrow> jsv" where
  "apply_tool_strip payload =
     (if elems (fld ''tools'' payload) \<noteq> [] then del_fld ''tool_choice'' (del_fld ''tools'' payload) else payload)"

subsection \<open>The order of the server\<close>

text \<open>The directives horse-power's authorize answer carries, as \<open>server.mjs\<close> reads them.\<close>

record auth_directives =
  au_max_tokens_cap :: "nat option"
  au_web_search :: bool
  au_provider_directive :: jsv
  au_auto_router :: "(jsv \<times> string) option"
  au_is_free :: bool
  au_strip_tools :: bool
  au_provider_floor :: "jsv list option"

text \<open>The neutral body, the snapshot that direct providers are served from.\<close>

definition neutral_payload :: "auth_directives \<Rightarrow> jsv \<Rightarrow> jsv" where
  "neutral_payload auth payload =
     (let p = (case au_max_tokens_cap auth of
                 None \<Rightarrow> payload
               | Some cap \<Rightarrow> if cap = 0 then payload else fst (apply_spend_cap (of_nat cap) payload))
      in if au_web_search auth then apply_web_plugin_directive p else p)"

text \<open>The OpenRouter body built from it.\<close>

definition post_transform :: "(string \<Rightarrow> string \<Rightarrow> string) \<Rightarrow> auth_directives \<Rightarrow> jsv \<Rightarrow> string \<Rightarrow> jsv \<Rightarrow> jsv" where
  "post_transform hmac auth credit_id secret q =
     (let a = apply_auto_router_config (au_auto_router auth) q;
          b = (if au_is_free auth then apply_free_model_strip a else a);
          c = (if au_strip_tools auth then apply_tool_strip b else b)
      in apply_safety_identifier hmac credit_id secret (apply_provider_floor (au_provider_floor auth) c))"

definition openrouter_body :: "(string \<Rightarrow> string \<Rightarrow> string) \<Rightarrow> auth_directives \<Rightarrow> jsv \<Rightarrow> string \<Rightarrow> jsv \<Rightarrow> js_error + jsv" where
  "openrouter_body hmac auth credit_id secret neutral =
     bind_js (transform_payload (apply_provider_directive (au_provider_directive auth) neutral))
       (\<lambda>q. Inr (post_transform hmac auth credit_id secret q))"

subsection \<open>Frames\<close>

interpretation glm: frame_transform glm_fast "{''provider'', ''model''}"
  by unfold_locales (auto simp: glm_fast_def frame_simps)

interpretation marks: frame_transform mark_messages "{''messages''}"
  by unfold_locales (auto simp: mark_messages_def frame_simps split: jsv.split)

interpretation venice: frame_transform exclude_venice "{''provider''}"
  by unfold_locales (auto simp: exclude_venice_def frame_simps)

interpretation zdr_tr: frame_transform "reapply_zdr z" "{''provider''}" for z
  by unfold_locales (auto simp: reapply_zdr_def frame_simps)

interpretation usage_tr: frame_transform include_usage "{''usage''}"
  by unfold_locales (auto simp: include_usage_def frame_simps)

interpretation safety: frame_transform "apply_safety_identifier h c s" "{''user'', ''safety_identifier''}" for h c s
  by unfold_locales (auto simp: apply_safety_identifier_def frame_simps split: option.split)

interpretation auto_router: frame_transform "apply_auto_router_config s" "{''plugins''}" for s
  by unfold_locales (auto simp: apply_auto_router_config_def frame_simps split: option.split prod.split)

interpretation directive: frame_transform "apply_provider_directive d" "{''provider''}" for d
  by unfold_locales (auto simp: apply_provider_directive_def frame_simps split: jsv.split)

interpretation pfloor: frame_transform "apply_provider_floor f" "{''provider''}" for f
  by unfold_locales (auto simp: apply_provider_floor_def frame_simps split: option.split)

interpretation cap_len: frame_transform "cap_length c" "{''max_tokens'', ''max_completion_tokens''}" for c
  by unfold_locales (auto simp: cap_length_def frame_simps)

interpretation free_strip: frame_transform apply_free_model_strip "{''plugins'', ''tools'', ''tool_choice''}"
  by unfold_locales
    (auto simp: apply_free_model_strip_def strip_search_tools_def frame_simps split: jsv.split)

interpretation web_directive: frame_transform apply_web_plugin_directive "{''plugins''}"
  by unfold_locales (auto simp: apply_web_plugin_directive_def frame_simps)

interpretation tool_strip: frame_transform apply_tool_strip "{''tools'', ''tool_choice''}"
  by unfold_locales (auto simp: apply_tool_strip_def frame_simps)

lemma anthropic_block_frame:
  assumes "is_obj p"
  shows "is_obj (fst (anthropic_block p))"
    and "k \<notin> {''messages'', ''plugins'', ''tools'', ''provider''} \<Longrightarrow> fld k (fst (anthropic_block p)) = fld k p"
proof -
  have o: "is_obj (mark_messages p)" using assms by (rule marks.keeps_obj)
  let ?q = "if web_plugin_breaks_model (fld ''model'' (mark_messages p))
      then swap_web_plugin_for_server_tool (mark_messages p) else mark_messages p"
  have oq: "is_obj ?q" using o to_tool.keeps_obj by simp
  then show "is_obj (fst (anthropic_block p))" using assms by (simp add: anthropic_block_def Let_def)
  assume k: "k \<notin> {''messages'', ''plugins'', ''tools'', ''provider''}"
  then have "fld k ?q = fld k (mark_messages p)" using o by (intro to_tool.keeps_when) simp_all
  also have "\<dots> = fld k p" using assms k by (intro marks.keeps_fld) simp_all
  finally show "fld k (fst (anthropic_block p)) = fld k p"
    using oq k by (simp add: anthropic_block_def Let_def fld_set_fld)
qed

text \<open>The tail of the transform, after the anthropic block.\<close>

definition transform_tail :: "bool \<Rightarrow> jsv \<Rightarrow> jsv" where
  "transform_tail z p =
     include_usage (apply_web_search_engine (swap_web_search_tool_for_plugin (reapply_zdr z (exclude_venice p))))"

lemma transform_payload_eq:
  "transform_payload p = Inr q \<longleftrightarrow> is_str (fld ''model'' p)
     \<and> q = transform_tail (caller_zdr p \<and> \<not> snd (anthropic_block (glm_fast p))) (fst (anthropic_block (glm_fast p)))"
  by (auto simp: transform_payload_def transform_tail_def invalid_model_def Let_def split: prod.splits)

lemma transform_tail_frame:
  assumes "is_obj p"
  shows "is_obj (transform_tail z p)"
    and "k \<notin> {''plugins'', ''tools'', ''tool_choice'', ''usage'', ''provider''} \<Longrightarrow> fld k (transform_tail z p) = fld k p"
    and "fld ''provider'' (transform_tail z p) = fld ''provider'' (reapply_zdr z (exclude_venice p))"
proof -
  have o1: "is_obj (exclude_venice p)" using assms by (rule venice.keeps_obj)
  then have o2: "is_obj (reapply_zdr z (exclude_venice p))" by (rule zdr_tr.keeps_obj)
  then have o3: "is_obj (swap_web_search_tool_for_plugin (reapply_zdr z (exclude_venice p)))"
    by (rule to_plugin.keeps_obj)
  then have o4: "is_obj (apply_web_search_engine (swap_web_search_tool_for_plugin (reapply_zdr z (exclude_venice p))))"
    by (rule engine.keeps_obj)
  then show "is_obj (transform_tail z p)" unfolding transform_tail_def by (rule usage_tr.keeps_obj)
  have f: "fld k (transform_tail z p) = fld k (reapply_zdr z (exclude_venice p))"
    if "k \<notin> {''plugins'', ''tools'', ''tool_choice'', ''usage''}" for k
    using that usage_tr.keeps_fld [OF o4, of k] engine.keeps_fld [OF o3, of k] to_plugin.keeps_fld [OF o2, of k]
    by (simp add: transform_tail_def)
  then show "fld ''provider'' (transform_tail z p) = fld ''provider'' (reapply_zdr z (exclude_venice p))" by simp
  assume "k \<notin> {''plugins'', ''tools'', ''tool_choice'', ''usage'', ''provider''}"
  then show "fld k (transform_tail z p) = fld k p"
    using f zdr_tr.keeps_fld [OF o1, of k] venice.keeps_fld [OF assms, of k] by simp
qed

lemma transform_frame:
  assumes "transform_payload p = Inr q" and "is_obj p"
  shows "is_obj q"
    and "k \<notin> {''provider'', ''model'', ''messages'', ''plugins'', ''tools'', ''tool_choice'', ''usage''}
      \<Longrightarrow> fld k q = fld k p"
    and "fld ''model'' q = fld ''model'' (glm_fast p)"
proof -
  let ?g = "glm_fast p" and ?b = "fst (anthropic_block (glm_fast p))"
  have g: "is_obj ?g" using assms(2) by (rule glm.keeps_obj)
  have b: "is_obj ?b" using anthropic_block_frame(1) [OF g] .
  obtain z where q: "q = transform_tail z ?b" using assms(1) by (auto simp: transform_payload_eq)
  show "is_obj q" unfolding q using b by (rule transform_tail_frame)
  show "fld ''model'' q = fld ''model'' ?g"
    using transform_tail_frame(2) [OF b, of "''model''" z] anthropic_block_frame(2) [OF g, of "''model''"]
    by (simp add: q)
  assume "k \<notin> {''provider'', ''model'', ''messages'', ''plugins'', ''tools'', ''tool_choice'', ''usage''}"
  then show "fld k q = fld k p"
    using transform_tail_frame(2) [OF b, of k z] anthropic_block_frame(2) [OF g, of k]
      glm.keeps_fld [OF assms(2), of k] by (simp add: q)
qed

lemma floor_provider_cong:
  "is_obj c \<Longrightarrow> is_obj q \<Longrightarrow> fld ''provider'' c = fld ''provider'' q \<Longrightarrow>
     fld ''provider'' (apply_provider_floor f c) = fld ''provider'' (apply_provider_floor f q)"
  by (simp add: apply_provider_floor_def Let_def fld_set_fld split: option.split)

lemma post_transform_frame:
  assumes "is_obj q"
  shows "is_obj (post_transform h auth c s q)"
    and "k \<notin> {''plugins'', ''tools'', ''tool_choice'', ''provider'', ''user'', ''safety_identifier''}
      \<Longrightarrow> fld k (post_transform h auth c s q) = fld k q"
    and "fld ''provider'' (post_transform h auth c s q)
      = fld ''provider'' (apply_provider_floor (au_provider_floor auth) q)"
proof -
  let ?a = "apply_auto_router_config (au_auto_router auth) q"
  let ?b = "if au_is_free auth then apply_free_model_strip ?a else ?a"
  let ?c = "if au_strip_tools auth then apply_tool_strip ?b else ?b"
  let ?d = "apply_provider_floor (au_provider_floor auth) ?c"
  have e: "post_transform h auth c s q = apply_safety_identifier h c s ?d"
    by (simp add: post_transform_def Let_def)
  have a: "is_obj ?a" using assms by (rule auto_router.keeps_obj)
  then have b: "is_obj ?b" using free_strip.keeps_obj by simp
  then have c: "is_obj ?c" using tool_strip.keeps_obj by simp
  then have d: "is_obj ?d" by (rule pfloor.keeps_obj)
  then show "is_obj (post_transform h auth c s q)" unfolding e by (rule safety.keeps_obj)
  have f: "fld k ?c = fld k q" if "k \<notin> {''plugins'', ''tools'', ''tool_choice''}" for k
    using that tool_strip.keeps_when [OF b, of k] free_strip.keeps_when [OF a, of k]
      auto_router.keeps_fld [OF assms, of k] by simp
  show "fld ''provider'' (post_transform h auth c s q) = fld ''provider'' (apply_provider_floor (au_provider_floor auth) q)"
  proof -
    have "fld ''provider'' ?c = fld ''provider'' q" by (rule f) simp
    from floor_provider_cong [OF c assms this]
    have "fld ''provider'' ?d = fld ''provider'' (apply_provider_floor (au_provider_floor auth) q)" .
    moreover have "fld ''provider'' (apply_safety_identifier h c s ?d) = fld ''provider'' ?d"
      by (rule safety.keeps_fld [OF d]) simp
    ultimately show ?thesis unfolding e by (rule trans [rotated])
  qed
  assume "k \<notin> {''plugins'', ''tools'', ''tool_choice'', ''provider'', ''user'', ''safety_identifier''}"
  then show "fld k (post_transform h auth c s q) = fld k q"
    using f [of k] pfloor.keeps_fld [OF c, of k] safety.keeps_fld [OF d, of k] by (simp add: e)
qed

subsection \<open>Zero data retention\<close>

lemma not_digits: "\<not> list_all is_digit ''zdr''" "\<not> list_all is_digit ''ignore''"
  "\<not> list_all is_digit ''quantizations''" "\<not> list_all is_digit ''include''" "\<not> list_all is_digit ''only''"
  "\<not> list_all is_digit ''order''" "\<not> list_all is_digit ''allow_fallbacks''"
  by code_simp+

lemmas named_fld =
  fld_update_spread [OF not_digits(1)] fld_update_spread [OF not_digits(2)]
  fld_update_spread [OF not_digits(3)] fld_update_spread [OF not_digits(4)]
  fld_update_spread [OF not_digits(5)] fld_update_spread [OF not_digits(6)]
  fld_update_spread [OF not_digits(7)]

lemma zdr_exclude_venice: "is_obj p \<Longrightarrow> caller_zdr (exclude_venice p) = caller_zdr p"
  by (simp add: caller_zdr_def exclude_venice_def Let_def fld_set_fld named_fld del: fld.simps)

lemma zdr_reapply: "is_obj p \<Longrightarrow> caller_zdr (reapply_zdr z p) = (z \<or> caller_zdr p)"
  by (simp add: caller_zdr_def reapply_zdr_def fld_set_fld named_fld del: fld.simps)

lemma zdr_anthropic:
  "is_obj p \<Longrightarrow> caller_zdr (fst (anthropic_block p)) =
     (\<not> str_includes (str_of (fld ''model'' p)) ''anthropic'' \<and> caller_zdr p)"
proof -
  assume o: "is_obj p"
  let ?q = "if web_plugin_breaks_model (fld ''model'' (mark_messages p))
      then swap_web_plugin_for_server_tool (mark_messages p) else mark_messages p"
  have "is_obj ?q" using o marks.keeps_obj to_tool.keeps_obj by simp
  moreover have "fld ''zdr'' (anthropic_provider q) = JUndef" for q
    by (simp add: anthropic_provider_def Let_def)
  ultimately show ?thesis by (simp add: anthropic_block_def Let_def caller_zdr_def fld_set_fld)
qed

lemma zdr_glm: "is_obj p \<Longrightarrow> caller_zdr (glm_fast p) \<Longrightarrow> caller_zdr p"
  by (auto simp: glm_fast_def caller_zdr_def fld_set_fld split: if_splits)

lemma glm_anthropic:
  assumes "str_includes (str_of (fld ''model'' (glm_fast p))) ''anthropic''" and "is_obj p"
  shows "glm_fast p = p"
proof (rule ccontr)
  assume "glm_fast p \<noteq> p"
  then have "fld ''model'' (glm_fast p) = JStr ''z-ai/glm-5.2''"
    using assms(2) by (auto simp: glm_fast_def fld_set_fld split: if_splits)
  then show False using assms(1) by (simp add: starts_with_def)
qed

lemma tail_keeps_search:
  assumes "is_obj p"
  shows "has_web_search (transform_tail z p) = has_web_search p"
proof -
  let ?v = "reapply_zdr z (exclude_venice p)"
  have v: "is_obj ?v" using assms venice.keeps_obj zdr_tr.keeps_obj by blast
  have s: "is_obj (swap_web_search_tool_for_plugin ?v)" using v by (rule to_plugin.keeps_obj)
  then have e: "is_obj (apply_web_search_engine (swap_web_search_tool_for_plugin ?v))" by (rule engine.keeps_obj)
  have "has_web_search (transform_tail z p) = has_web_search (apply_web_search_engine (swap_web_search_tool_for_plugin ?v))"
    unfolding transform_tail_def by (rule has_web_search_cong; rule usage_tr.keeps_fld [OF e]) simp_all
  also have "\<dots> = has_web_search (swap_web_search_tool_for_plugin ?v)" using s by (rule engine_keeps_search)
  also have "\<dots> = has_web_search ?v" using collapse_search [OF v] by blast
  also have "\<dots> = has_web_search p"
    using zdr_tr.keeps_fld [OF venice.keeps_obj [OF assms]] venice.keeps_fld [OF assms]
    by (intro has_web_search_cong) simp_all
  finally show ?thesis .
qed

lemma opus_flag:
  "is_obj p \<Longrightarrow> snd (anthropic_block p) \<longleftrightarrow>
     fld ''model'' p = JStr ''anthropic/claude-opus-4.8'' \<and> has_web_search (fst (anthropic_block p))"
proof -
  assume o: "is_obj p"
  let ?q = "if web_plugin_breaks_model (fld ''model'' (mark_messages p))
      then swap_web_plugin_for_server_tool (mark_messages p) else mark_messages p"
  have om: "is_obj (mark_messages p)" using o by (rule marks.keeps_obj)
  then have oq: "is_obj ?q" using to_tool.keeps_obj by simp
  have "fld ''model'' ?q = fld ''model'' p"
    using to_tool.keeps_when [OF om, of "''model''"] marks.keeps_fld [OF o, of "''model''"] by simp
  moreover have "has_web_search (set_fld ''provider'' v ?q) = has_web_search ?q" for v
    using oq by (intro has_web_search_cong) (simp_all add: fld_set_fld)
  moreover have "str_includes ''anthropic/claude-opus-4.8'' ''anthropic''"
    by (simp add: starts_with_def)
  ultimately show ?thesis
    by (auto simp: anthropic_block_def Let_def opus48_web_def has_web_search_def)
qed

lemma transform_zdr:
  assumes "transform_payload p = Inr q" and "is_obj p"
  shows "caller_zdr q \<longleftrightarrow>
     caller_zdr p \<and> \<not> (fld ''model'' q = JStr ''anthropic/claude-opus-4.8'' \<and> has_web_search q)"
proof -
  let ?g = "glm_fast p"
  let ?b = "fst (anthropic_block ?g)" and ?o = "snd (anthropic_block ?g)"
  have g: "is_obj ?g" using assms(2) by (rule glm.keeps_obj)
  have b: "is_obj ?b" using anthropic_block_frame(1) [OF g] .
  have q: "q = transform_tail (caller_zdr p \<and> \<not> ?o) ?b" using assms(1) by (simp add: transform_payload_eq)
  have z: "caller_zdr q = (caller_zdr p \<and> \<not> ?o \<or> caller_zdr ?b)"
    unfolding q caller_zdr_def transform_tail_frame(3) [OF b]
    using zdr_reapply [OF venice.keeps_obj [OF b]] zdr_exclude_venice [OF b] by (simp add: caller_zdr_def)
  have m: "fld ''model'' q = fld ''model'' ?g" using transform_frame(3) [OF assms] .
  have o: "?o \<longleftrightarrow> fld ''model'' q = JStr ''anthropic/claude-opus-4.8'' \<and> has_web_search q"
    using opus_flag [OF g] tail_keeps_search [OF b] m q by simp
  have "caller_zdr ?b \<Longrightarrow> caller_zdr p \<and> \<not> ?o"
    using zdr_anthropic [OF g] zdr_glm [OF assms(2)] by (auto simp: anthropic_block_def Let_def)
  then show ?thesis using z o by blast
qed

lemma zdr_floor: "is_obj q \<Longrightarrow> caller_zdr (apply_provider_floor f q) = caller_zdr q"
  by (auto simp: apply_provider_floor_def caller_zdr_def fld_set_fld named_fld Let_def simp del: fld.simps
      split: option.split)

lemma zdr_directive:
  "is_obj p \<Longrightarrow> caller_zdr (apply_provider_directive d p) =
     (caller_zdr p \<or> (is_obj d \<and> fld ''zdr'' d = JTrue))"
  by (cases d)
    (auto simp: apply_provider_directive_def caller_zdr_def fld_set_fld zdr_field_def update_conv')

lemma openrouter_body_Inr:
  "openrouter_body h auth c s p = Inr r \<longleftrightarrow>
     (\<exists>q. transform_payload (apply_provider_directive (au_provider_directive auth) p) = Inr q
        \<and> r = post_transform h auth c s q)"
  by (auto simp: openrouter_body_def bind_js_Inr_iff)

lemma zdr_post: "is_obj q \<Longrightarrow> caller_zdr (post_transform h auth c s q) = caller_zdr q"
  using post_transform_frame(3) [of q h auth c s] zdr_floor by (simp add: caller_zdr_def)

subsection \<open>The spend cap\<close>

definition ask_length :: "jsv \<Rightarrow> jsv" where
  "ask_length q = nullish (fld ''max_tokens'' q) (fld ''max_completion_tokens'' q)"

definition ask_choices :: "jsv \<Rightarrow> rat" where
  "ask_choices q = (if fld ''n'' q = JUndef then 1 else num_rat (fld ''n'' q))"

text \<open>What a capped body may ask for: a positive finite length under every name it uses, a whole
  number of choices, and no more output in all than the cap.\<close>

definition within_cap :: "nat \<Rightarrow> jsv \<Rightarrow> bool" where
  "within_cap cap q \<longleftrightarrow>
     num_finite (ask_length q) \<and> 0 < num_rat (ask_length q)
     \<and> (\<forall>f \<in> {''max_tokens'', ''max_completion_tokens''}.
          is_nullish (fld f q) \<or> (num_finite (fld f q) \<and> num_rat (fld f q) \<le> of_nat cap))
     \<and> (fld ''n'' q = JUndef \<or> num_integer (fld ''n'' q) \<and> 1 \<le> num_rat (fld ''n'' q))
     \<and> ask_choices q * num_rat (ask_length q) \<le> of_nat cap"

lemma capped_length_bounds: "0 < cap \<Longrightarrow> 0 < capped_length cap p \<and> capped_length cap p \<le> cap"
  by (simp add: capped_length_def Let_def)

lemma cap_length_fields:
  assumes "is_obj p"
  shows "ask_length (cap_length cap p) = JNum (Fin (capped_length cap p))"
    and "f \<in> {''max_tokens'', ''max_completion_tokens''} \<Longrightarrow>
      is_nullish (fld f (cap_length cap p)) \<or> fld f (cap_length cap p) = JNum (Fin (capped_length cap p))"
  using assms
  by (auto simp: cap_length_def ask_length_def Let_def fld_set_fld is_nullish_def)

lemma choices_bound:
  fixes cap l n :: rat
  assumes "0 < l" and "l \<le> cap" and "1 \<le> n" and "n \<le> of_int (max 1 \<lfloor>cap / max 1 l\<rfloor>)"
  shows "n * l \<le> cap"
proof (cases "1 \<le> \<lfloor>cap / max 1 l\<rfloor>")
  case True
  then have "n \<le> of_int \<lfloor>cap / max 1 l\<rfloor>" using assms(4) by (simp add: max_def split: if_splits)
  then have "n \<le> cap / max 1 l" by linarith
  then have "n * max 1 l \<le> cap" by (simp add: pos_le_divide_eq)
  moreover have "n * l \<le> n * max 1 l" using assms(3) by (intro mult_left_mono) simp_all
  ultimately show ?thesis by linarith
next
  case False
  then have "n \<le> 1" using assms(4) by (simp add: max_def split: if_splits)
  then have "n = 1" using assms(3) by simp
  then show ?thesis using assms(2) by simp
qed

lemma spend_cap_within:
  assumes "is_obj p" and "0 < cap"
  shows "within_cap cap (fst (apply_spend_cap (of_nat cap) p))"
proof -
  let ?c = "of_nat cap :: rat"
  let ?p = "cap_length ?c p" and ?l = "capped_length ?c p"
  have o: "is_obj ?p" using assms(1) by (rule cap_len.keeps_obj)
  have l: "0 < ?l" "?l \<le> ?c" using capped_length_bounds [of ?c p] assms(2) by simp_all
  note f = cap_length_fields [OF assms(1), where cap = ?c]
  have ok: "within_cap cap q"
    if "\<And>f. f \<in> {''max_tokens'', ''max_completion_tokens''} \<Longrightarrow> fld f q = fld f ?p"
      and "fld ''n'' q = JUndef \<or> num_integer (fld ''n'' q) \<and> 1 \<le> num_rat (fld ''n'' q)
        \<and> (num_rat (fld ''n'' q) = 1 \<or> num_rat (fld ''n'' q) \<le> of_int (max 1 \<lfloor>?c / max 1 ?l\<rfloor>))" for q
  proof -
    have a: "ask_length q = JNum (Fin ?l)" using that(1) f(1) by (simp add: ask_length_def)
    have "ask_choices q * ?l \<le> ?c"
      using that(2) l choices_bound [OF l, of "num_rat (fld ''n'' q)"]
      by (auto simp: ask_choices_def)
    then show ?thesis
      using a that f(2) l by (fastforce simp: within_cap_def)
  qed
  show ?thesis
    unfolding apply_spend_cap_def Let_def
    using o by (auto intro!: ok simp: fld_set_fld fld_del_fld)
qed

lemma within_cap_cong:
  "fld ''max_tokens'' q = fld ''max_tokens'' p \<Longrightarrow> fld ''max_completion_tokens'' q = fld ''max_completion_tokens'' p
     \<Longrightarrow> fld ''n'' q = fld ''n'' p \<Longrightarrow> within_cap cap q = within_cap cap p"
  by (simp add: within_cap_def ask_length_def ask_choices_def)

lemma spend_cap_obj: "is_obj p \<Longrightarrow> is_obj (fst (apply_spend_cap c p))"
  using cap_len.keeps_obj by (simp add: apply_spend_cap_def Let_def)

lemma neutral_obj: "is_obj p \<Longrightarrow> is_obj (neutral_payload auth p)"
  using spend_cap_obj web_directive.keeps_obj
  by (simp add: neutral_payload_def Let_def split: option.split)

lemma neutral_within:
  assumes "is_obj p" and "au_max_tokens_cap auth = Some cap" and "0 < cap"
  shows "within_cap cap (neutral_payload auth p)"
proof -
  let ?q = "fst (apply_spend_cap (of_nat cap) p)"
  have "is_obj ?q" using assms(1) by (rule spend_cap_obj)
  then have "within_cap cap (apply_web_plugin_directive ?q) = within_cap cap ?q"
    by (intro within_cap_cong; intro web_directive.keeps_fld) simp_all
  then show ?thesis
    using spend_cap_within [OF assms(1,3)] assms(2,3) by (simp add: neutral_payload_def Let_def)
qed

lemma openrouter_frame:
  assumes "openrouter_body h auth c s p = Inr r" and "is_obj p"
    and "k \<notin> {''provider'', ''model'', ''messages'', ''plugins'', ''tools'', ''tool_choice'', ''usage'', ''user'',
      ''safety_identifier''}"
  shows "fld k r = fld k p"
proof -
  obtain q where q: "transform_payload (apply_provider_directive (au_provider_directive auth) p) = Inr q"
    "r = post_transform h auth c s q" using assms(1) by (auto simp: openrouter_body_Inr)
  have o: "is_obj (apply_provider_directive (au_provider_directive auth) p)"
    using assms(2) by (rule directive.keeps_obj)
  show ?thesis
    using assms(3) q(2) post_transform_frame(2) [OF transform_frame(1) [OF q(1) o], of k h auth c s]
      transform_frame(2) [OF q(1) o, of k] directive.keeps_fld [OF assms(2), of k]
    by simp
qed

subsection \<open>The provider object\<close>

lemma fld_provider_transform:
  assumes "transform_payload p = Inr q" and "is_obj p"
  shows "fld ''provider'' q =
     fld ''provider'' (reapply_zdr (caller_zdr p \<and> \<not> snd (anthropic_block (glm_fast p)))
        (exclude_venice (fst (anthropic_block (glm_fast p)))))"
proof -
  have "is_obj (fst (anthropic_block (glm_fast p)))"
    using anthropic_block_frame(1) [OF glm.keeps_obj [OF assms(2)]] .
  then show ?thesis using assms(1) transform_tail_frame(3) by (simp add: transform_payload_eq)
qed

definition provider_keys :: "string set" where
  "provider_keys = {''order'', ''ignore'', ''allow_fallbacks'', ''zdr''}"

lemma anthropic_provider_fields:
  "is_obj (anthropic_provider p)"
  "fld k (anthropic_provider p) \<noteq> JUndef \<Longrightarrow> k \<in> provider_keys"
  "JStr ''amazon-bedrock'' \<in> set (elems (fld ''order'' (anthropic_provider p))) \<Longrightarrow>
     JStr ''amazon-bedrock/claude-on-aws'' \<in> set (elems (fld ''ignore'' (anthropic_provider p)))
     \<and> fld ''allow_fallbacks'' (anthropic_provider p) = JFalse"
  by (auto simp: anthropic_provider_def Let_def provider_keys_def jstrs_def split: if_splits)

lemma fld_zdr_update:
  "is_obj v \<Longrightarrow> fld k (JObj (AList.update ''zdr'' JTrue (spread v))) = (if k = ''zdr'' then JTrue else fld k v)"
  by (cases v) (auto simp: spread_def update_conv')

lemma fld_reapply:
  "is_obj p \<Longrightarrow> is_obj (fld ''provider'' p) \<Longrightarrow>
     fld k (fld ''provider'' (reapply_zdr z p)) = (if z \<and> k = ''zdr'' then JTrue else fld k (fld ''provider'' p))"
  by (simp add: reapply_zdr_def fld_set_fld fld_zdr_update del: fld.simps)

lemma anthropic_transform_provider:
  assumes "transform_payload p = Inr q" and "is_obj p"
    and "str_includes (str_of (fld ''model'' q)) ''anthropic''"
  shows "\<exists>p2 z. \<forall>k. fld k (fld ''provider'' q) =
     (if z \<and> k = ''zdr'' then JTrue else fld k (anthropic_provider p2))"
proof -
  let ?g = "glm_fast p"
  let ?b = "fst (anthropic_block ?g)"
  let ?q = "if web_plugin_breaks_model (fld ''model'' (mark_messages ?g))
      then swap_web_plugin_for_server_tool (mark_messages ?g) else mark_messages ?g"
  have g: "is_obj ?g" using assms(2) by (rule glm.keeps_obj)
  have oq: "is_obj ?q" using marks.keeps_obj [OF g] to_tool.keeps_obj by simp
  have m: "str_includes (str_of (fld ''model'' ?g)) ''anthropic''"
    using assms(3) transform_frame(3) [OF assms(1,2)] by simp
  have ob: "is_obj ?b" using anthropic_block_frame(1) [OF g] .
  have "fld ''provider'' ?b = anthropic_provider ?q"
    using m oq by (simp add: anthropic_block_def Let_def fld_set_fld)
  moreover have "exclude_venice ?b = ?b"
    using m anthropic_block_frame(2) [OF g, of "''model''"] by (simp add: exclude_venice_def Let_def)
  ultimately show ?thesis
    using fld_provider_transform [OF assms(1,2)] fld_reapply [OF ob] anthropic_provider_fields(1)
    by (intro exI [of _ ?q]) auto
qed

lemma venice_provider:
  assumes "is_obj p" and "\<not> str_includes (str_of (fld ''model'' p)) ''anthropic''"
    and "\<not> starts_with (str_of (fld ''model'' p)) ''cognitivecomputations/dolphin-mistral-24b-venice-edition''"
  defines "v \<equiv> fld ''provider'' (exclude_venice p)"
  shows "is_obj v" and "JStr ''venice'' \<in> set (elems (fld ''ignore'' v))"
    and "set (elems (fld ''ignore'' (fld ''provider'' p))) \<subseteq> set (elems (fld ''ignore'' v))"
    and "\<not> list_all is_digit k \<Longrightarrow> k \<noteq> ''ignore'' \<Longrightarrow> fld k v = fld k (fld ''provider'' p)"
  using assms(1-3)
  by (auto simp: v_def exclude_venice_def Let_def fld_set_fld named_fld fld_update_spread List.member_iff
      simp del: fld.simps)

lemma free_strip_clean:
  assumes "is_obj p"
  shows "\<not> truthy (fld ''plugins'' (apply_free_model_strip p))
    \<and> list_all (\<lambda>t. \<not> is_paid_web_search_tool t) (elems (fld ''tools'' (apply_free_model_strip p)))"
  using assms
  by (auto simp: apply_free_model_strip_def strip_search_tools_def Let_def fld_set_fld fld_del_fld list_all_iff
      split: jsv.split)

lemma free_strip_choice:
  assumes "is_obj q \<and> list_ex is_paid_web_search_tool (elems (fld ''tools'' q))"
  shows "\<not> choice_targets_paid_search (fld ''tool_choice'' (apply_free_model_strip q))"
proof -
  have "\<not> choice_targets_paid_search JUndef"
    by (simp add: choice_targets_paid_search_def is_paid_web_search_tool_def)
  then show ?thesis
    using assms
    by (cases "fld ''tools'' q")
      (auto simp: apply_free_model_strip_def strip_search_tools_def Let_def fld_set_fld fld_del_fld)
qed

lemma after_strip:
  assumes "is_obj b"
  shows "fld ''plugins'' (apply_safety_identifier h c s (apply_provider_floor f (if t then apply_tool_strip b else b)))
      = fld ''plugins'' b
    \<and> (fld ''tools'' (apply_safety_identifier h c s (apply_provider_floor f (if t then apply_tool_strip b else b)))
      = fld ''tools'' b
     \<or> fld ''tools'' (apply_safety_identifier h c s (apply_provider_floor f (if t then apply_tool_strip b else b)))
      = JUndef)"
proof -
  let ?c = "if t then apply_tool_strip b else b"
  have c: "is_obj ?c" using assms tool_strip.keeps_obj by simp
  have d: "is_obj (apply_provider_floor f ?c)" using c by (rule pfloor.keeps_obj)
  have "fld k (apply_safety_identifier h c s (apply_provider_floor f ?c)) = fld k ?c"
    if "k = ''plugins'' \<or> k = ''tools''" for k
    using that safety.keeps_fld [OF d, of k] pfloor.keeps_fld [OF c, of k] by auto
  then show ?thesis using assms by (auto simp: apply_tool_strip_def fld_del_fld)
qed

lemma no_paid_no_search:
  "\<not> truthy (fld ''plugins'' r) \<Longrightarrow> list_all (\<lambda>t. \<not> is_paid_web_search_tool t) (elems (fld ''tools'' r))
     \<Longrightarrow> \<not> has_web_search r"
  by (auto simp: has_web_search_def has_active_web_plugin_def web_search_tool_active_def has_web_search_tool_def
      list_all_iff list_ex_iff is_web_tool_def is_paid_web_search_tool_def is_arr_iff)

subsection \<open>Properties\<close>

text \<open>C24: Zero data retention is never lost. A caller's \<open>provider.zdr: true\<close> is on the body sent to
  OpenRouter whatever directive, routing rule, strip or quality floor was applied, with one
  exception, Opus 4.8 with a search that runs; and no body carries the flag that neither the caller
  nor horse-power's directive asked for.\<close>

theorem zdr_honoured:
  assumes "openrouter_body hmac auth credit_id secret p = Inr r" and "is_obj p"
  shows "(caller_zdr p \<longrightarrow> caller_zdr r \<or>
      fld ''model'' r = JStr ''anthropic/claude-opus-4.8''
      \<and> (\<exists>q. transform_payload (apply_provider_directive (au_provider_directive auth) p) = Inr q \<and> has_web_search q))
    \<and> (caller_zdr r \<longrightarrow> caller_zdr p \<or> fld ''zdr'' (au_provider_directive auth) = JTrue)"
proof -
  let ?d = "apply_provider_directive (au_provider_directive auth) p"
  obtain q where q: "transform_payload ?d = Inr q" "r = post_transform hmac auth credit_id secret q"
    using assms(1) by (auto simp: openrouter_body_Inr)
  have d: "is_obj ?d" using assms(2) by (rule directive.keeps_obj)
  have oq: "is_obj q" using transform_frame(1) [OF q(1) d] .
  have "caller_zdr r = caller_zdr q" using q(2) zdr_post [OF oq] by simp
  moreover have "fld ''model'' r = fld ''model'' q" using q(2) post_transform_frame(2) [OF oq] by simp
  ultimately show ?thesis
    using transform_zdr [OF q(1) d] zdr_directive [OF assms(2), of "au_provider_directive auth"] q(1) by auto
qed

definition sample_auth :: auth_directives where
  "sample_auth = \<lparr>au_max_tokens_cap = Some 100, au_web_search = False, au_provider_directive = JNull,
     au_auto_router = None, au_is_free = True, au_strip_tools = False, au_provider_floor = None\<rparr>"

definition sample_request :: jsv where
  "sample_request = JObj [(''model'', JStr ''openai/gpt-4o''), (''n'', jint 8), (''max_tokens'', jint 4000),
     (''provider'', JObj [(''zdr'', JTrue)])]"

lemma transform_total: "is_str (fld ''model'' p) \<Longrightarrow> \<exists>q. transform_payload p = Inr q"
  by (simp add: transform_payload_def Let_def split: prod.split)

lemma sample_facts: "is_str (fld ''model'' sample_request)" "is_obj sample_request"
  "caller_zdr sample_request" "au_provider_directive sample_auth = JNull" "au_is_free sample_auth"
  "au_max_tokens_cap sample_auth = Some 100"
  by (simp_all add: sample_request_def sample_auth_def caller_zdr_def)

lemma sample_body:
  "is_str (fld ''model'' p) \<Longrightarrow> au_provider_directive auth = JNull \<Longrightarrow>
     \<exists>r. openrouter_body hmac auth credit_id secret p = Inr r"
  using transform_total by (auto simp: openrouter_body_Inr apply_provider_directive_def)

theorem zdr_honoured_witness:
  "\<exists>r. openrouter_body (\<lambda>k v. v) sample_auth JNull [] sample_request = Inr r
     \<and> (caller_zdr r \<or> fld ''model'' r = JStr ''anthropic/claude-opus-4.8'')"
proof -
  obtain r where r: "openrouter_body (\<lambda>k v. v) sample_auth JNull [] sample_request = Inr r"
    using sample_body [OF sample_facts(1,4)] by blast
  show ?thesis using zdr_honoured [OF r sample_facts(2)] sample_facts(3) r by blast
qed

text \<open>Who owns the provider object. On an Anthropic model no provider key of the caller survives,
  and a request pinned to Bedrock always excludes the uncovered \<open>claude-on-aws\<close> endpoint without
  fallbacks. On every other model but the Venice edition, Venice is excluded, every exclusion the
  caller asked for is kept, and so is every other provider preference.\<close>

theorem provider_policy:
  assumes "transform_payload p = Inr q" and "is_obj p"
  defines "m \<equiv> str_of (fld ''model'' q)" and "v \<equiv> fld ''provider'' q"
  shows "(str_includes m ''anthropic'' \<longrightarrow>
      (\<forall>k. fld k v \<noteq> JUndef \<longrightarrow> k \<in> provider_keys)
      \<and> (JStr ''amazon-bedrock'' \<in> set (elems (fld ''order'' v)) \<longrightarrow>
           JStr ''amazon-bedrock/claude-on-aws'' \<in> set (elems (fld ''ignore'' v)) \<and> fld ''allow_fallbacks'' v = JFalse))
    \<and> (\<not> str_includes m ''anthropic'' \<and>
       \<not> starts_with m ''cognitivecomputations/dolphin-mistral-24b-venice-edition'' \<longrightarrow>
      JStr ''venice'' \<in> set (elems (fld ''ignore'' v))
      \<and> (fld ''model'' q = fld ''model'' p \<longrightarrow>
          set (elems (fld ''ignore'' (fld ''provider'' p))) \<subseteq> set (elems (fld ''ignore'' v))
          \<and> (\<forall>k. k \<notin> {''ignore'', ''zdr''} \<and> \<not> list_all is_digit k \<longrightarrow> fld k v = fld k (fld ''provider'' p))))"
proof -
  have a: "(\<forall>k. fld k v \<noteq> JUndef \<longrightarrow> k \<in> provider_keys)
      \<and> (JStr ''amazon-bedrock'' \<in> set (elems (fld ''order'' v)) \<longrightarrow>
           JStr ''amazon-bedrock/claude-on-aws'' \<in> set (elems (fld ''ignore'' v)) \<and> fld ''allow_fallbacks'' v = JFalse)"
    if inc: "str_includes m ''anthropic''"
  proof -
    obtain p2 z where e: "\<And>k. fld k v = (if z \<and> k = ''zdr'' then JTrue else fld k (anthropic_provider p2))"
      using anthropic_transform_provider [OF assms(1,2)] inc unfolding m_def v_def by blast
    then show ?thesis using anthropic_provider_fields(2,3) by (auto simp: provider_keys_def)
  qed
  let ?g = "glm_fast p"
  let ?b = "fst (anthropic_block ?g)"
  have g: "is_obj ?g" using assms(2) by (rule glm.keeps_obj)
  have b: "JStr ''venice'' \<in> set (elems (fld ''ignore'' v)) \<and> (?g = p \<longrightarrow>
          set (elems (fld ''ignore'' (fld ''provider'' p))) \<subseteq> set (elems (fld ''ignore'' v))
          \<and> (\<forall>k. k \<notin> {''ignore'', ''zdr''} \<and> \<not> list_all is_digit k \<longrightarrow> fld k v = fld k (fld ''provider'' p)))"
    if inc: "\<not> str_includes m ''anthropic''"
      "\<not> starts_with m ''cognitivecomputations/dolphin-mistral-24b-venice-edition''"
  proof -
    have mg: "m = str_of (fld ''model'' ?g)" unfolding m_def using transform_frame(3) [OF assms(1,2)] by simp
    then have bg: "?b = ?g" using inc(1) by (simp add: anthropic_block_def)
    let ?v = "fld ''provider'' (exclude_venice ?g)"
    note ven = venice_provider [OF g inc [unfolded mg]]
    have "fld k v = (if caller_zdr p \<and> \<not> snd (anthropic_block ?g) \<and> k = ''zdr'' then JTrue else fld k ?v)" for k
      using fld_provider_transform [OF assms(1,2)] fld_reapply [OF venice.keeps_obj [OF g] ven(1)] bg
      by (simp add: v_def)
    then show ?thesis using ven(2,3,4) by auto
  qed
  have "?g = p" if "fld ''model'' q = fld ''model'' p"
    using that transform_frame(3) [OF assms(1,2)] assms(2)
    by (auto simp: glm_fast_def fld_set_fld split: if_splits)
  then show ?thesis using a b by blast
qed

theorem provider_policy_witness:
  "\<exists>q. transform_payload sample_request = Inr q \<and> JStr ''venice'' \<in> set (elems (fld ''ignore'' (fld ''provider'' q)))"
proof -
  have o: "is_obj sample_request" by (simp add: sample_request_def)
  obtain q where q: "transform_payload sample_request = Inr q"
    using transform_total [of sample_request] by (auto simp: sample_request_def)
  have "fld ''model'' q = JStr ''openai/gpt-4o''"
    using transform_frame(3) [OF q o] by (simp add: sample_request_def glm_fast_def)
  then show ?thesis using provider_policy [OF q o] q by (simp add: starts_with_def)
qed

text \<open>C15: The spend cap bounds the whole request. With a cap set, the body that direct providers are
  served from and the body sent to OpenRouter both ask for a positive finite length that no name
  raises above the cap, for a whole number of choices, and for at most the cap in output over all
  choices.\<close>

theorem spend_cap_enforced:
  assumes "is_obj p" and "au_max_tokens_cap auth = Some cap" and "0 < cap"
  shows "within_cap cap (neutral_payload auth p)
    \<and> (openrouter_body hmac auth credit_id secret (neutral_payload auth p) = Inr r \<longrightarrow> within_cap cap r)"
proof -
  have n: "within_cap cap (neutral_payload auth p)" using assms by (rule neutral_within)
  have "within_cap cap r" if "openrouter_body hmac auth credit_id secret (neutral_payload auth p) = Inr r"
  proof -
    note f = openrouter_frame [OF that neutral_obj [OF assms(1)]]
    have "within_cap cap r = within_cap cap (neutral_payload auth p)"
      by (rule within_cap_cong; rule f; simp)
    then show ?thesis using n by simp
  qed
  then show ?thesis using n by blast
qed

theorem spend_cap_enforced_witness: "within_cap 100 (neutral_payload sample_auth sample_request)"
  using spend_cap_enforced [OF sample_facts(2,6)] by simp

text \<open>A free model runs no paid search. On the body of a request that horse-power called free no
  plugin is left, no paid search tool is declared, and nothing the enclave knows as a search can
  run; and a strip that removed such a tool leaves no tool choice naming one.\<close>

theorem free_request_searches_nothing:
  assumes "openrouter_body hmac auth credit_id secret p = Inr r" and "is_obj p" and "au_is_free auth"
  shows "\<not> truthy (fld ''plugins'' r) \<and> list_all (\<lambda>t. \<not> is_paid_web_search_tool t) (elems (fld ''tools'' r))
    \<and> \<not> has_web_search r
    \<and> (\<forall>q. is_obj q \<and> list_ex is_paid_web_search_tool (elems (fld ''tools'' q)) \<longrightarrow>
         \<not> choice_targets_paid_search (fld ''tool_choice'' (apply_free_model_strip q)))"
proof -
  obtain q where q: "r = post_transform hmac auth credit_id secret q" and oq: "is_obj q"
    using assms(1,2) transform_frame(1) directive.keeps_obj by (auto simp: openrouter_body_Inr)
  let ?a = "apply_auto_router_config (au_auto_router auth) q"
  let ?b = "apply_free_model_strip ?a"
  have a: "is_obj ?a" using oq by (rule auto_router.keeps_obj)
  then have b: "is_obj ?b" by (rule free_strip.keeps_obj)
  have clean: "\<not> truthy (fld ''plugins'' ?b)" "list_all (\<lambda>t. \<not> is_paid_web_search_tool t) (elems (fld ''tools'' ?b))"
    using free_strip_clean [OF a] by blast+
  have r: "fld ''plugins'' r = fld ''plugins'' ?b \<and> (fld ''tools'' r = fld ''tools'' ?b \<or> fld ''tools'' r = JUndef)"
    using assms(3) after_strip [OF b] q by (simp add: post_transform_def Let_def)
  have t: "list_all (\<lambda>t. \<not> is_paid_web_search_tool t) (elems (fld ''tools'' r))" using r clean(2) by auto
  have pl: "\<not> truthy (fld ''plugins'' r)" using r clean(1) by simp
  have "\<not> has_web_search r" using pl t by (rule no_paid_no_search)
  then show ?thesis using pl t by (intro conjI allI impI free_strip_choice) simp_all
qed

theorem free_request_searches_nothing_witness:
  "\<exists>r. openrouter_body (\<lambda>k v. v) sample_auth JNull [] sample_request = Inr r \<and> \<not> has_web_search r"
proof -
  obtain r where r: "openrouter_body (\<lambda>k v. v) sample_auth JNull [] sample_request = Inr r"
    using sample_body [OF sample_facts(1,4)] by blast
  show ?thesis using free_request_searches_nothing [OF r sample_facts(2,5)] r by blast
qed

text \<open>The quality floor and the auto-router list only fill gaps. The floor leaves a hard-pinned
  provider object exactly as it was and otherwise adds only the quantizations; applying it twice is
  applying it once; and a caller's own auto-router plugin is left alone.\<close>

theorem directives_only_fill:
  assumes "is_obj p"
  shows "(hard_pinned (fld ''provider'' p) \<longrightarrow> apply_provider_floor f p = p)
    \<and> (\<forall>k. k \<noteq> ''quantizations'' \<and> \<not> list_all is_digit k \<longrightarrow>
         fld k (fld ''provider'' (apply_provider_floor f p)) = fld k (fld ''provider'' p))
    \<and> apply_provider_floor f (apply_provider_floor f p) = apply_provider_floor f p
    \<and> (list_ex (\<lambda>e. fld ''id'' e = JStr ''auto-router'') (elems (fld ''plugins'' p)) \<longrightarrow>
         apply_auto_router_config s p = p)
    \<and> apply_auto_router_config s (apply_auto_router_config s p) = apply_auto_router_config s p"
proof -
  have "apply_provider_floor f (apply_provider_floor f p) = apply_provider_floor f p"
    using assms by (auto simp: apply_provider_floor_def Let_def hard_pinned_def fld_set_fld named_fld
        simp del: fld.simps split: option.split)
  moreover have "apply_auto_router_config s (apply_auto_router_config s p) = apply_auto_router_config s p"
    using assms by (auto simp: apply_auto_router_config_def Let_def fld_set_fld split: option.split)
  ultimately show ?thesis
    using assms
    by (auto simp: apply_provider_floor_def Let_def fld_set_fld fld_update_spread apply_auto_router_config_def
        simp del: fld.simps split: option.split)
qed

theorem directives_only_fill_witness:
  "apply_provider_floor (Some [JStr ''fp8'']) sample_request = sample_request"
proof -
  have "hard_pinned (fld ''provider'' sample_request)" using sample_facts(3) by (simp add: caller_zdr_def hard_pinned_def)
  then show ?thesis using directives_only_fill [OF sample_facts(2)] by blast
qed

end
