(* ===== verification/DirectGate.thy ===== *)
theory DirectGate
  imports JsPrelude
begin

text \<open>
  The direct-provider eligibility gate of \<open>enclave/src/eligibility.mjs\<close> for the chat and the
  Anthropic messages dialects: whether a request may be served by one catalog row, and if not, why.
  A row is what \<open>candidateToRow\<close> builds; \<open>undefined\<close> is \<open>None\<close>.
\<close>

record row =
  rw_provider :: string
  rw_upstream_model :: jsv
  rw_service_tier :: jsv
  rw_supports_tools :: bool
  rw_supports_image :: bool
  rw_enabled :: bool
  rw_enabled_override :: "bool option"
  rw_zdr :: "bool option"
  rw_reasoning_mode :: jsv

datatype verdict = Eligible | Bail string "string option"

text \<open>A refusal is its reason and, when the code names one, the offending field.\<close>

type_synonym refusal = "string \<times> string option"

definition bail :: "string \<Rightarrow> refusal" where
  "bail reason = (reason, None)"

definition bail_at :: "string \<Rightarrow> string \<Rightarrow> refusal" where
  "bail_at reason field = (reason, if field = [] then None else Some field)"

text \<open>A check answers \<open>None\<close> to go on or the refusal it returns; \<open>or_else\<close> runs the next one.\<close>

type_synonym check = "js_error + refusal option"

definition pass :: check where "pass = Inr None"

definition stop :: "refusal \<Rightarrow> check" where "stop v = Inr (Some v)"

definition stop_if :: "bool \<Rightarrow> refusal \<Rightarrow> check" where
  "stop_if b v = (if b then stop v else pass)"

definition or_else :: "check \<Rightarrow> check \<Rightarrow> check" where
  "or_else m n = bind_js m (\<lambda>r. case r of None \<Rightarrow> n | Some v \<Rightarrow> stop v)"

fun first_stop :: "('a \<Rightarrow> check) \<Rightarrow> 'a list \<Rightarrow> check" where
  "first_stop f [] = pass"
| "first_stop f (x # xs) = or_else (f x) (first_stop f xs)"

definition finish :: "check \<Rightarrow> js_error + verdict" where
  "finish m = bind_js m (\<lambda>r. Inr (case r of None \<Rightarrow> Eligible | Some (reason, field) \<Rightarrow> Bail reason field))"

subsection \<open>Models and field lists\<close>

definition is_free :: "jsv \<Rightarrow> bool" where
  "is_free model \<longleftrightarrow> model = JStr ''ppq/free'' \<or> model = JStr ''openrouter/free''"

definition refuses_unauthorized_free :: "jsv \<Rightarrow> jsv \<Rightarrow> bool" where
  "refuses_unauthorized_free model auth_is_free \<longleftrightarrow> is_free model \<and> auth_is_free \<noteq> JTrue"

definition is_row_enabled :: "row \<Rightarrow> bool" where
  "is_row_enabled r = (case rw_enabled_override r of Some b \<Rightarrow> b | None \<Rightarrow> rw_enabled r)"

definition allowed_fields :: "string list" where
  "allowed_fields =
     [''model'', ''messages'', ''stream'', ''stream_options'', ''temperature'', ''top_p'', ''top_k'',
      ''min_p'', ''max_tokens'', ''max_completion_tokens'', ''stop'', ''n'', ''seed'',
      ''frequency_penalty'', ''presence_penalty'', ''repetition_penalty'', ''logprobs'',
      ''top_logprobs'', ''logit_bias'', ''response_format'', ''tools'', ''tool_choice'',
      ''parallel_tool_calls'', ''reasoning_effort'', ''user'']"

definition allowed_messages_fields :: "string list" where
  "allowed_messages_fields =
     [''model'', ''messages'', ''system'', ''stream'', ''max_tokens'', ''temperature'', ''top_p'',
      ''top_k'', ''stop_sequences'', ''tools'', ''tool_choice'', ''metadata'', ''thinking'',
      ''context_management'', ''output_config'']"

definition ignored_fields :: "string list" where
  "ignored_fields =
     [''query_source'', ''session_id'', ''chat_id'', ''tool_id'', ''zdr'', ''search_mode'',
      ''credit_id'', ''api_key'', ''plugins'', ''data_source'']"

definition unhonored_client_fields :: "string list" where
  "unhonored_client_fields =
     [''store'', ''prompt_cache_key'', ''promptCacheKey'', ''prompt_cache_retention'', ''usage'',
      ''options'', ''keep_alive'', ''think'', ''num_gpu'', ''source_ip'', ''compact_model'',
      ''inheritProjectContext'']"

definition allowed_message_fields :: "string list" where
  "allowed_message_fields =
     [''role'', ''content'', ''name'', ''tool_calls'', ''tool_call_id'', ''reasoning_content'',
      ''reasoning'', ''reasoning_details'', ''cache_control'', ''cot_id'']"

definition allowed_messages_message_fields :: "string list" where
  "allowed_messages_message_fields = [''role'', ''content'']"

definition is_ephemeral_cache_control :: "jsv \<Rightarrow> bool" where
  "is_ephemeral_cache_control v \<longleftrightarrow>
     is_obj v \<and> list_all (\<lambda>k. k = ''type'' \<or> k = ''ttl'') (obj_keys v)
     \<and> fld ''type'' v = JStr ''ephemeral''
     \<and> (fld ''ttl'' v = JUndef \<or> fld ''ttl'' v = JStr ''5m'' \<or> fld ''ttl'' v = JStr ''1h'')"

definition reasoning_object_members :: "string list" where
  "reasoning_object_members = [''effort'', ''max_tokens'', ''exclude'', ''enabled'']"

text \<open>The result of \<open>canonicalizeReasoningObject\<close>: the member that bails, an effort, or nothing.\<close>

datatype canon = CanonBail string | CanonEffort string | CanonNone

definition canonicalize_reasoning_object :: "jsv \<Rightarrow> canon" where
  "canonicalize_reasoning_object r =
     (if \<not> is_obj r then CanonBail ''reasoning''
      else case List.find (\<lambda>k. \<not> List.member reasoning_object_members k) (obj_keys r) of
        Some k \<Rightarrow> CanonBail (''reasoning.'' @ k)
      | None \<Rightarrow>
          if fld ''enabled'' r \<noteq> JUndef \<and> \<not> is_bool (fld ''enabled'' r) then CanonBail ''reasoning.enabled''
          else if fld ''exclude'' r \<noteq> JUndef \<and> \<not> is_bool (fld ''exclude'' r) then CanonBail ''reasoning.exclude''
          else if fld ''enabled'' r = JFalse then CanonBail ''reasoning.enabled''
          else if fld ''effort'' r \<noteq> JUndef then
            (case fld ''effort'' r of
               JStr e \<Rightarrow> if e = [] then CanonBail ''reasoning.effort'' else CanonEffort e
             | _ \<Rightarrow> CanonBail ''reasoning.effort'')
          else if fld ''max_tokens'' r \<noteq> JUndef then
            (if \<not> num_integer (fld ''max_tokens'' r) \<or> num_rat (fld ''max_tokens'' r) \<le> 0
             then CanonBail ''reasoning.max_tokens''
             else if num_rat (fld ''max_tokens'' r) \<le> 2048 then CanonEffort ''low''
             else if num_rat (fld ''max_tokens'' r) \<le> 8192 then CanonEffort ''medium''
             else CanonEffort ''high'')
          else if fld ''enabled'' r = JTrue then CanonEffort ''medium''
          else CanonNone)"

definition safety_categories :: "string list" where
  "safety_categories =
     [''HARM_CATEGORY_HATE_SPEECH'', ''HARM_CATEGORY_DANGEROUS_CONTENT'', ''HARM_CATEGORY_HARASSMENT'',
      ''HARM_CATEGORY_SEXUALLY_EXPLICIT'', ''HARM_CATEGORY_CIVIC_INTEGRITY'']"

definition safety_thresholds :: "string list" where
  "safety_thresholds =
     [''BLOCK_NONE'', ''BLOCK_ONLY_HIGH'', ''BLOCK_MEDIUM_AND_ABOVE'', ''BLOCK_LOW_AND_ABOVE'',
      ''HARM_BLOCK_THRESHOLD_UNSPECIFIED'', ''OFF'']"

text \<open>\<open>SET.has(v)\<close> for a set of strings and any value.\<close>

definition str_in :: "string list \<Rightarrow> jsv \<Rightarrow> bool" where
  "str_in ws v = (case v of JStr s \<Rightarrow> List.member ws s | _ \<Rightarrow> False)"

definition check_safety_entry :: "jsv \<Rightarrow> string option" where
  "check_safety_entry e =
     (if \<not> is_obj e then Some ''safety_settings''
      else case List.find (\<lambda>k. k \<noteq> ''category'' \<and> k \<noteq> ''threshold'' \<and> k \<noteq> ''method'') (obj_keys e) of
        Some k \<Rightarrow> Some (''safety_settings.'' @ k)
      | None \<Rightarrow>
          if \<not> str_in safety_categories (fld ''category'' e) then Some ''safety_settings.category''
          else if \<not> str_in safety_thresholds (fld ''threshold'' e) then Some ''safety_settings.threshold''
          else None)"

fun first_some_of :: "('a \<Rightarrow> 'b option) \<Rightarrow> 'a list \<Rightarrow> 'b option" where
  "first_some_of f [] = None"
| "first_some_of f (x # xs) = (case f x of None \<Rightarrow> first_some_of f xs | Some y \<Rightarrow> Some y)"

definition validate_safety_settings :: "jsv \<Rightarrow> string option" where
  "validate_safety_settings v =
     (case v of
        JArr es \<Rightarrow> if es = [] then Some ''safety_settings'' else first_some_of check_safety_entry es
      | _ \<Rightarrow> Some ''safety_settings'')"

definition is_router_model :: "string \<Rightarrow> bool" where
  "is_router_model m \<longleftrightarrow> m = ''openrouter/auto'' \<or> m = ''auto'' \<or> starts_with m ''autorouter/''"

subsection \<open>Web search\<close>

definition is_web_search_server_tool :: "jsv \<Rightarrow> bool" where
  "is_web_search_server_tool t \<longleftrightarrow>
     fld ''type'' t = JStr ''web_search'' \<or> fld ''type'' t = JStr ''openrouter:web_search''"

definition has_web_plugin :: "jsv \<Rightarrow> bool" where
  "has_web_plugin payload \<longleftrightarrow>
     list_ex (\<lambda>p. fld ''id'' p = JStr ''web'') (elems (fld ''plugins'' payload))"

definition requests_web_search :: "jsv \<Rightarrow> bool" where
  "requests_web_search payload \<longleftrightarrow>
     has_web_plugin payload \<or> list_ex is_web_search_server_tool (elems (fld ''tools'' payload))"

definition is_anthropic_dated_web_search_tool :: "jsv \<Rightarrow> bool" where
  "is_anthropic_dated_web_search_tool t =
     (case fld ''type'' t of
        JStr s \<Rightarrow> starts_with s ''web_search_'' \<and> length s = 19 \<and> list_all is_digit (drop 11 s)
      | _ \<Rightarrow> False)"

definition web_search_direct_providers :: "string list" where
  "web_search_direct_providers = [''venice'']"

definition has_dated_tool :: "jsv \<Rightarrow> bool" where
  "has_dated_tool payload \<longleftrightarrow> list_ex is_anthropic_dated_web_search_tool (elems (fld ''tools'' payload))"

definition serves_web_search_natively :: "row option \<Rightarrow> jsv \<Rightarrow> bool" where
  "serves_web_search_natively r payload =
     (case r of
        None \<Rightarrow> False
      | Some w \<Rightarrow> List.member web_search_direct_providers (rw_provider w) \<and> \<not> has_dated_tool payload)"

subsection \<open>Images\<close>

definition max_image_data_uri_chars :: int where
  "max_image_data_uri_chars = 7 * 1024 * 1024"

definition max_total_image_data_uri_chars :: int where
  "max_total_image_data_uri_chars = 14 * 1024 * 1024"

definition cleared_media :: "string list" where
  "cleared_media = [''png'', ''jpeg'', ''webp'', ''heic'', ''heif'']"

definition fireworks_image_media_types :: "string list" where
  "fireworks_image_media_types = [''png'', ''jpeg'', ''webp'']"

text \<open>\<open>/^data:image\/(a|b|...);base64,/\<close>, with the media subtype it captures.\<close>

definition media_of :: "string list \<Rightarrow> string \<Rightarrow> string option" where
  "media_of media url =
     List.find (\<lambda>m. starts_with url (''data:image/'' @ m @ '';base64,'')) media"

text \<open>\<open>url.slice(url.indexOf(m) + m.length)\<close> where \<open>m\<close> occurs.\<close>

fun after_marker :: "string \<Rightarrow> string \<Rightarrow> string" where
  "after_marker m [] = []"
| "after_marker m (c # cs) =
     (if starts_with (c # cs) m then drop (length m) (c # cs) else after_marker m cs)"

definition is_base64_char :: "char \<Rightarrow> bool" where
  "is_base64_char c \<longleftrightarrow> is_alnum c \<or> c = CHR ''+'' \<or> c = CHR ''/''"

definition is_canonical_base64 :: "string \<Rightarrow> bool" where
  "is_canonical_base64 data =
     (if data = [] \<or> length data mod 4 \<noteq> 0 then False
      else case index_of data (CHR ''='') of
        None \<Rightarrow> list_all is_base64_char data
      | Some i \<Rightarrow>
          (drop i data = ''='' \<or> drop i data = ''=='') \<and> list_all is_base64_char (take i data))"

definition base64_decoded_bytes :: "string \<Rightarrow> rat" where
  "base64_decoded_bytes data =
     of_nat (length data * 3) / 4
       - (if ends_with data ''=='' then 2 else if ends_with data ''='' then 1 else 0)"

definition image_url_of :: "jsv \<Rightarrow> jsv" where
  "image_url_of part = fld ''url'' (fld ''image_url'' part)"

definition data_image_media_type :: "jsv \<Rightarrow> string option" where
  "data_image_media_type part =
     (case image_url_of part of JStr u \<Rightarrow> media_of cleared_media u | _ \<Rightarrow> None)"

definition is_data_image_part :: "jsv \<Rightarrow> bool" where
  "is_data_image_part part =
     (case image_url_of part of
        JStr url \<Rightarrow>
          fld ''type'' part = JStr ''image_url'' \<and> media_of cleared_media url \<noteq> None
          \<and> int (length url) \<le> max_image_data_uri_chars
          \<and> is_canonical_base64 (after_marker '';base64,'' url)
      | _ \<Rightarrow> False)"

definition reasoning_part_types :: "string list" where
  "reasoning_part_types = [''reasoning'', ''thinking'', ''redacted_thinking'', ''redacted_reasoning'']"

definition is_droppable_reasoning_part :: "jsv \<Rightarrow> bool" where
  "is_droppable_reasoning_part part \<longleftrightarrow> typeof_object part \<and> str_in reasoning_part_types (fld ''type'' part)"

definition is_text_part :: "jsv \<Rightarrow> bool" where
  "is_text_part p \<longleftrightarrow> fld ''type'' p = JStr ''text'' \<and> is_str (fld ''text'' p)"

definition has_surviving_block :: "jsv \<Rightarrow> bool" where
  "has_surviving_block content =
     (case content of
        JStr s \<Rightarrow> s \<noteq> []
      | JArr ps \<Rightarrow> list_ex (\<lambda>p. is_text_part p \<and> fld ''text'' p \<noteq> JStr []) ps
      | _ \<Rightarrow> False)"

definition image_data_uri_chars :: "jsv \<Rightarrow> nat" where
  "image_data_uri_chars content =
     sum_list (map (\<lambda>p. if fld ''type'' p = JStr ''image_url''
         then (case image_url_of p of JStr u \<Rightarrow> length u | _ \<Rightarrow> 0) else 0) (elems content))"

definition media_allowed :: "string list option \<Rightarrow> jsv \<Rightarrow> bool" where
  "media_allowed media p =
     (case media of
        None \<Rightarrow> True
      | Some ms \<Rightarrow> (case data_image_media_type p of Some m \<Rightarrow> List.member ms m | None \<Rightarrow> False))"

definition is_supported_chat_content :: "jsv \<Rightarrow> bool \<Rightarrow> bool \<Rightarrow> string list option \<Rightarrow> bool" where
  "is_supported_chat_content content allow_images allow_reasoning media =
     (case content of
        JStr s \<Rightarrow> True
      | JArr ps \<Rightarrow> list_all (\<lambda>p. is_text_part p
            \<or> (allow_images \<and> is_data_image_part p \<and> media_allowed media p)
            \<or> (allow_reasoning \<and> is_droppable_reasoning_part p)) ps
      | JNull \<Rightarrow> True
      | JUndef \<Rightarrow> True
      | _ \<Rightarrow> False)"

subsection \<open>Anthropic blocks\<close>

definition anthropic_image_media_types :: "string list" where
  "anthropic_image_media_types = [''image/jpeg'', ''image/png'', ''image/webp'']"

definition max_anthropic_image_bytes :: int where
  "max_anthropic_image_bytes = 5 * 1024 * 1024"

definition is_supported_anthropic_image_block :: "jsv \<Rightarrow> bool" where
  "is_supported_anthropic_image_block block =
     (let source = fld ''source'' block
      in fld ''type'' source = JStr ''base64'' \<and> str_in anthropic_image_media_types (fld ''media_type'' source)
         \<and> (case fld ''data'' source of
              JStr d \<Rightarrow> is_canonical_base64 d \<and> base64_decoded_bytes d \<le> of_int max_anthropic_image_bytes
            | _ \<Rightarrow> False))"

definition is_supported_tool_result :: "jsv \<Rightarrow> bool" where
  "is_supported_tool_result content =
     (case content of JUndef \<Rightarrow> True | JStr s \<Rightarrow> True | JArr bs \<Rightarrow> list_all is_text_part bs | _ \<Rightarrow> False)"

definition is_supported_anthropic_block :: "jsv \<Rightarrow> bool \<Rightarrow> bool" where
  "is_supported_anthropic_block block allow_images =
     (case fld ''type'' block of
        JStr t \<Rightarrow>
          if t = ''text'' then is_str (fld ''text'' block)
          else if t = ''thinking'' then is_str (fld ''thinking'' block)
          else if t = ''redacted_thinking'' then is_str (fld ''data'' block)
          else if t = ''tool_use'' then is_str (fld ''id'' block) \<and> is_str (fld ''name'' block)
          else if t = ''tool_result'' then is_supported_tool_result (fld ''content'' block)
          else if t = ''image'' then allow_images \<and> is_supported_anthropic_image_block block
          else False
      | _ \<Rightarrow> False)"

definition is_supported_anthropic_content :: "jsv \<Rightarrow> bool \<Rightarrow> bool" where
  "is_supported_anthropic_content content allow_images =
     (case content of
        JStr s \<Rightarrow> True
      | JArr bs \<Rightarrow> bs \<noteq> [] \<and> list_all (\<lambda>b. is_supported_anthropic_block b allow_images) bs
      | _ \<Rightarrow> False)"

definition anthropic_image_block_chars :: "jsv \<Rightarrow> nat" where
  "anthropic_image_block_chars content =
     sum_list (map (\<lambda>b. if fld ''type'' b = JStr ''image''
         then (case fld ''data'' (fld ''source'' b) of JStr d \<Rightarrow> length d | _ \<Rightarrow> 0) else 0) (elems content))"

definition is_supported_anthropic_system :: "jsv \<Rightarrow> bool" where
  "is_supported_anthropic_system system =
     (case system of JUndef \<Rightarrow> True | JStr s \<Rightarrow> True | JArr bs \<Rightarrow> list_all is_text_part bs | _ \<Rightarrow> False)"

subsection \<open>Provider sets\<close>

definition zdr_direct_providers :: "string list" where
  "zdr_direct_providers = [''fireworks'', ''venice'', ''foundry'']"

definition is_zdr_row :: "row option \<Rightarrow> bool" where
  "is_zdr_row r =
     (case r of
        None \<Rightarrow> False
      | Some w \<Rightarrow> List.member zdr_direct_providers (rw_provider w)
          \<and> (case rw_zdr w of Some b \<Rightarrow> b | None \<Rightarrow> True))"

definition fireworks_wire_providers :: "string list" where
  "fireworks_wire_providers = [''fireworks'', ''foundry'']"

definition image_direct_providers :: "string list" where
  "image_direct_providers =
     [''vertex'', ''anthropic'', ''bedrock'', ''venice'', ''fireworks'', ''foundry'', ''openai'']"

definition verbosity_direct_providers :: "string list" where
  "verbosity_direct_providers = [''bedrock'', ''openai'']"

definition verbosity_values :: "string list" where
  "verbosity_values = [''low'', ''medium'', ''high'']"

definition openrouter_provider_refs :: "(string \<times> string list) list" where
  "openrouter_provider_refs =
     [(''fireworks'', [''fireworks'']), (''bedrock'', [''amazon-bedrock'', ''bedrock'']),
      (''anthropic'', [''anthropic'']), (''vertex'', [''google-vertex'', ''google'', ''vertex'']),
      (''venice'', [''venice'']), (''foundry'', [''foundry'', ''fireworks'', ''azure'', ''microsoft'']),
      (''openai'', [''openai''])]"

definition openrouter_provider_pin_refs :: "(string \<times> string list) list" where
  "openrouter_provider_pin_refs =
     [(''fireworks'', [''fireworks'']), (''bedrock'', [''amazon-bedrock'', ''bedrock'']),
      (''anthropic'', [''anthropic'']), (''vertex'', [''google-vertex'', ''vertex'']),
      (''venice'', [''venice'']), (''foundry'', [''fireworks'', ''foundry'']), (''openai'', [''openai''])]"

text \<open>\<open>replace(/\s+/g, '-')\<close>: every run of white space becomes one dash.\<close>

fun dash_runs :: "bool \<Rightarrow> string \<Rightarrow> string" where
  "dash_runs prev [] = []"
| "dash_runs prev (c # cs) =
     (if is_space c then (if prev then dash_runs True cs else CHR ''-'' # dash_runs True cs)
      else c # dash_runs False cs)"

definition normalize_or_provider_ref :: "string \<Rightarrow> string" where
  "normalize_or_provider_ref ref = dash_runs False (hd (split_char (CHR ''/'') (lower (trim ref))))"

definition max_provider_list_entries :: nat where "max_provider_list_entries = 64"

definition is_provider_list :: "jsv \<Rightarrow> bool" where
  "is_provider_list v =
     (case v of JArr es \<Rightarrow> length es \<le> max_provider_list_entries \<and> list_all is_str es | _ \<Rightarrow> False)"

definition names_one_of :: "string list \<Rightarrow> jsv \<Rightarrow> bool" where
  "names_one_of refs e \<longleftrightarrow> List.member refs (normalize_or_provider_ref (str_of e))"

text \<open>\<open>new Set(TABLE[key] ?? [])\<close>: a name inherited from \<open>Object.prototype\<close> is not iterable.\<close>

definition ref_set :: "(string \<times> string list) list \<Rightarrow> string \<Rightarrow> js_error + string list" where
  "ref_set t k = (case table_get t k of Own ws \<Rightarrow> Inr ws | Missing \<Rightarrow> Inr [] | Inherited \<Rightarrow> Inl TypeError)"

definition provider_key_ok :: "jsv \<Rightarrow> bool \<Rightarrow> string \<Rightarrow> bool" where
  "provider_key_ok p pinned k \<longleftrightarrow>
     (k = ''zdr'' \<and> fld ''zdr'' p = JTrue) \<or> k = ''ignore'' \<or> k = ''order'' \<or> k = ''only''
     \<or> (k = ''allow_fallbacks'' \<and> pinned \<and> is_bool (fld ''allow_fallbacks'' p))"

definition provider_lists_ok :: "jsv \<Rightarrow> string list \<Rightarrow> string list \<Rightarrow> bool" where
  "provider_lists_ok p excluded pins \<longleftrightarrow>
     (has_fld ''ignore'' p \<longrightarrow> is_provider_list (fld ''ignore'' p)
        \<and> \<not> list_ex (names_one_of excluded) (elems (fld ''ignore'' p)))
     \<and> (has_fld ''order'' p \<longrightarrow> is_provider_list (fld ''order'' p) \<and> elems (fld ''order'' p) \<noteq> []
        \<and> names_one_of pins (hd (elems (fld ''order'' p))))
     \<and> (has_fld ''only'' p \<longrightarrow> is_provider_list (fld ''only'' p) \<and> elems (fld ''only'' p) \<noteq> []
        \<and> list_all (names_one_of pins) (elems (fld ''only'' p)))"

definition is_absorbable_provider_object :: "jsv \<Rightarrow> row option \<Rightarrow> js_error + bool" where
  "is_absorbable_provider_object p r =
     (let pinned = (has_fld ''order'' p \<or> has_fld ''only'' p)
      in if \<not> is_obj p \<or> obj_keys p = [] then Inr False
         else if \<not> list_all (provider_key_ok p pinned) (obj_keys p) then Inr False
         else if \<not> has_fld ''ignore'' p \<and> \<not> pinned then Inr True
         else case r of
           None \<Rightarrow> Inr False
         | Some w \<Rightarrow>
             bind_js (ref_set openrouter_provider_refs (rw_provider w)) (\<lambda>excluded.
             bind_js (ref_set openrouter_provider_pin_refs (rw_provider w)) (\<lambda>pins.
               Inr (excluded \<noteq> [] \<and> pins \<noteq> [] \<and> provider_lists_ok p excluded pins))))"

definition is_supported_response_format :: "jsv \<Rightarrow> row option \<Rightarrow> bool" where
  "is_supported_response_format rf r =
     (if rf = JUndef then True
      else if \<not> typeof_object rf then False
      else if fld ''type'' rf = JStr ''text'' \<or> fld ''type'' rf = JStr ''json_object'' then True
      else fld ''type'' rf = JStr ''json_schema''
        \<and> (case r of None \<Rightarrow> False | Some w \<Rightarrow> List.member fireworks_wire_providers (rw_provider w))
        \<and> is_obj (fld ''json_schema'' rf))"

subsection \<open>The gate\<close>

datatype dialect = ChatDialect | MessagesDialect

definition dialect_fields :: "dialect \<Rightarrow> string list" where
  "dialect_fields d = (case d of ChatDialect \<Rightarrow> allowed_fields | MessagesDialect \<Rightarrow> allowed_messages_fields)"

text \<open>One key of the allowlist sweep.\<close>

definition verbosity_row :: "row option \<Rightarrow> bool" where
  "verbosity_row r =
     (case r of None \<Rightarrow> False | Some w \<Rightarrow> List.member verbosity_direct_providers (rw_provider w))"

definition sweep_provider :: "jsv \<Rightarrow> row option \<Rightarrow> string \<Rightarrow> check" where
  "sweep_provider payload r key =
     (if key = ''provider'' then
        bind_js (is_absorbable_provider_object (fld ''provider'' payload) r)
          (\<lambda>ok. stop_if (\<not> ok) (bail_at ''unsupported_field'' key))
      else stop (bail_at ''unsupported_field'' key))"

definition sweep_key :: "dialect \<Rightarrow> jsv \<Rightarrow> row option \<Rightarrow> string \<Rightarrow> check" where
  "sweep_key d payload r key =
     (let v = fld key payload; chat = (d = ChatDialect)
      in if List.member (dialect_fields d) key \<or> List.member ignored_fields key
            \<or> List.member unhonored_client_fields key then pass
         else if v = JUndef then pass
         else if key = ''reasoning'' \<and> chat then
           (case canonicalize_reasoning_object v of
              CanonBail m \<Rightarrow> stop (bail_at ''unmappable_field'' m) | _ \<Rightarrow> pass)
         else if key = ''include_reasoning'' \<and> chat \<and> is_bool v then pass
         else if key = ''verbosity'' \<and> chat \<and> verbosity_row r then
           stop_if (\<not> str_in verbosity_values v) (bail_at ''unmappable_field'' ''verbosity'')
         else if key = ''safety_settings'' \<and> chat then
           (case validate_safety_settings v of
              Some m \<Rightarrow> stop (bail_at ''unmappable_field'' m) | None \<Rightarrow> pass)
         else sweep_provider payload r key)"

definition allows_images :: "jsv \<Rightarrow> row option \<Rightarrow> bool" where
  "allows_images message r \<longleftrightarrow>
     fld ''role'' message = JStr ''user''
     \<and> (case r of None \<Rightarrow> False
        | Some w \<Rightarrow> rw_supports_image w \<and> List.member image_direct_providers (rw_provider w))"

definition row_provider_in :: "string list \<Rightarrow> row option \<Rightarrow> bool" where
  "row_provider_in ws r = (case r of None \<Rightarrow> False | Some w \<Rightarrow> List.member ws (rw_provider w))"

definition message_keys_check :: "string list \<Rightarrow> jsv \<Rightarrow> check" where
  "message_keys_check allowed message =
     (case List.find (\<lambda>k. \<not> List.member allowed k) (obj_keys message) of
        Some k \<Rightarrow> stop (bail_at ''unsupported_message_field'' k) | None \<Rightarrow> pass)"

text \<open>One chat message; \<open>seen\<close> is the image characters of the messages before it.\<close>

definition chat_message_check :: "row option \<Rightarrow> nat \<Rightarrow> jsv \<Rightarrow> check" where
  "chat_message_check r seen message =
     (let content = fld ''content'' message; role = fld ''role'' message;
          reasoning = fld ''reasoning'' message; details = fld ''reasoning_details'' message;
          images = allows_images message r;
          reasoning_parts = (role = JStr ''assistant'' \<and> row_provider_in [''anthropic''] r);
          media = (if images \<and> row_provider_in fireworks_wire_providers r
                   then Some fireworks_image_media_types else None)
      in if \<not> typeof_object message then stop (bail ''malformed_messages'')
         else or_else (message_keys_check allowed_message_fields message)
         (if (reasoning \<noteq> JUndef \<or> details \<noteq> JUndef) \<and> role \<noteq> JStr ''assistant'' then
            stop (bail_at ''unsupported_message_field''
                    (if reasoning \<noteq> JUndef then ''reasoning'' else ''reasoning_details''))
          else if reasoning \<noteq> JUndef \<and> \<not> is_str reasoning then
            stop (bail_at ''unsupported_message_field'' ''reasoning'')
          else if fld ''cache_control'' message \<noteq> JUndef
                  \<and> \<not> is_ephemeral_cache_control (fld ''cache_control'' message) then
            stop (bail_at ''unsupported_message_field'' ''cache_control'')
          else if \<not> is_supported_chat_content content images reasoning_parts media then
            stop (bail ''non_text_content'')
          else if reasoning_parts \<and> \<not> has_surviving_block content
                  \<and> elems (fld ''tool_calls'' message) = [] then
            stop (bail ''non_text_content'')
          else stop_if (max_total_image_data_uri_chars < int (seen + image_data_uri_chars content))
                 (bail ''non_text_content'')))"

definition messages_message_check :: "row option \<Rightarrow> nat \<Rightarrow> jsv \<Rightarrow> check" where
  "messages_message_check r seen message =
     (let content = fld ''content'' message
      in if \<not> typeof_object message then stop (bail ''malformed_messages'')
         else or_else (message_keys_check allowed_messages_message_fields message)
         (if \<not> is_supported_anthropic_content content (allows_images message r) then
            stop (bail ''non_text_content'')
          else stop_if (max_total_image_data_uri_chars < int (seen + anthropic_image_block_chars content))
                 (bail ''non_text_content'')))"

definition message_check :: "dialect \<Rightarrow> row option \<Rightarrow> nat \<Rightarrow> jsv \<Rightarrow> check" where
  "message_check d r seen message =
     (case d of
        ChatDialect \<Rightarrow> chat_message_check r seen message
      | MessagesDialect \<Rightarrow> messages_message_check r seen message)"

definition message_chars :: "dialect \<Rightarrow> jsv \<Rightarrow> nat" where
  "message_chars d message =
     (case d of
        ChatDialect \<Rightarrow> image_data_uri_chars (fld ''content'' message)
      | MessagesDialect \<Rightarrow> anthropic_image_block_chars (fld ''content'' message))"

fun messages_check :: "dialect \<Rightarrow> row option \<Rightarrow> nat \<Rightarrow> jsv list \<Rightarrow> check" where
  "messages_check d r seen [] = pass"
| "messages_check d r seen (m # ms) =
     or_else (message_check d r seen m) (messages_check d r (seen + message_chars d m) ms)"

text \<open>The checks before the sweep, in the order of the code.\<close>

definition identity_check :: "jsv \<Rightarrow> string list \<Rightarrow> row option \<Rightarrow> check" where
  "identity_check payload model_suffixes r =
     (case fld ''model'' payload of
        JStr m \<Rightarrow>
          if m = [] then stop (bail ''model_not_in_catalog'')
          else if is_free (JStr m) then stop (bail ''free_model'')
          else if is_router_model m then stop (bail ''auto_router_model'')
          else if model_suffixes \<noteq> [] then stop (bail ''or_routing_suffix'')
          else stop_if (fld ''zdr'' (fld ''provider'' payload) = JTrue \<and> \<not> is_zdr_row r) (bail ''zdr_requested'')
      | _ \<Rightarrow> stop (bail ''model_not_in_catalog''))"

definition search_check :: "jsv \<Rightarrow> row option \<Rightarrow> check" where
  "search_check payload r =
     (if requests_web_search payload \<and> \<not> serves_web_search_natively r payload then
        stop (bail ''web_search_requires_openrouter'')
      else stop_if (row_provider_in web_search_direct_providers r \<and> has_dated_tool payload)
             (bail ''web_search_requires_openrouter''))"

definition row_check :: "jsv \<Rightarrow> row option \<Rightarrow> check" where
  "row_check payload r =
     (case r of
        None \<Rightarrow> stop (bail ''model_not_in_catalog'')
      | Some w \<Rightarrow>
          let ts = elems (fld ''tools'' payload);
              function_tools = (if serves_web_search_natively r payload
                                then filter (\<lambda>t. \<not> is_web_search_server_tool t) ts else ts)
          in if \<not> is_row_enabled w then stop (bail ''model_disabled'')
             else stop_if (function_tools \<noteq> [] \<and> \<not> rw_supports_tools w) (bail ''tools_unsupported_by_model''))"

definition body_check :: "dialect \<Rightarrow> jsv \<Rightarrow> row option \<Rightarrow> check" where
  "body_check d payload r =
     (case fld ''messages'' payload of
        JArr ms \<Rightarrow>
          if ms = [] then stop (bail ''malformed_messages'')
          else or_else (messages_check d r 0 ms)
            (if d = MessagesDialect \<and> \<not> is_supported_anthropic_system (fld ''system'' payload)
             then stop (bail ''non_text_content'')
             else stop_if (\<not> is_supported_response_format (fld ''response_format'' payload) r)
                    (bail ''response_format_unsupported''))
      | _ \<Rightarrow> stop (bail ''malformed_messages''))"

definition evaluate_chat_or_messages :: "dialect \<Rightarrow> jsv \<Rightarrow> string list \<Rightarrow> row option \<Rightarrow> js_error + verdict" where
  "evaluate_chat_or_messages d payload model_suffixes r =
     finish (or_else (identity_check payload model_suffixes r)
       (or_else (search_check payload r)
         (or_else (first_stop (sweep_key d payload r) (obj_keys payload))
           (or_else (body_check d payload r) (row_check payload r)))))"

subsection \<open>Rules for the checks\<close>

named_theorems gate_rules \<open>when a check lets a request pass\<close>

lemma stop_not_pass [gate_rules]: "stop v = Inr None \<longleftrightarrow> False"
  by (simp add: stop_def)

lemma pass_iff [gate_rules]: "pass = Inr None \<longleftrightarrow> True"
  by (simp add: pass_def)

lemma stop_if_pass [gate_rules]: "stop_if b v = Inr None \<longleftrightarrow> \<not> b"
  by (simp add: stop_if_def gate_rules)

lemma or_else_pass [gate_rules]: "or_else m n = Inr None \<longleftrightarrow> m = Inr None \<and> n = Inr None"
  by (auto simp: or_else_def bind_js_Inr_iff gate_rules split: option.splits)

lemma first_stop_pass [gate_rules]: "first_stop f xs = Inr None \<longleftrightarrow> (\<forall>x \<in> set xs. f x = Inr None)"
  by (induction xs) (auto simp: gate_rules)

lemma finish_eligible: "finish m = Inr Eligible \<longleftrightarrow> m = Inr None"
  by (auto simp: finish_def bind_js_Inr_iff split: option.splits prod.splits)

definition no_throw :: "check \<Rightarrow> bool" where
  "no_throw m \<longleftrightarrow> (\<exists>r. m = Inr r)"

lemma no_throw_simps [simp]: "no_throw pass" "no_throw (stop v)" "no_throw (stop_if b v)"
  by (simp_all add: no_throw_def pass_def stop_def stop_if_def)

lemma no_throw_or_else: "no_throw m \<Longrightarrow> no_throw n \<Longrightarrow> no_throw (or_else m n)"
  by (auto simp: no_throw_def or_else_def stop_def split: option.splits)

lemma no_throw_first_stop: "(\<And>x. x \<in> set xs \<Longrightarrow> no_throw (f x)) \<Longrightarrow> no_throw (first_stop f xs)"
  by (induction xs) (auto intro: no_throw_or_else)

lemma no_throw_finish: "no_throw m \<Longrightarrow> \<exists>v. finish m = Inr v"
  by (auto simp: no_throw_def finish_def)

lemma messages_check_pass [gate_rules]:
  "messages_check d r n ms = Inr None \<longleftrightarrow>
     (\<forall>i < length ms. message_check d r (n + sum_list (map (message_chars d) (take i ms))) (ms ! i) = Inr None)"
proof (induction ms arbitrary: n)
  case (Cons m ms)
  have "(\<forall>i < length (m # ms). P i) \<longleftrightarrow> P 0 \<and> (\<forall>i < length ms. P (Suc i))" for P
    by (auto simp: less_Suc_eq_0_disj)
  then show ?case using Cons by (simp add: gate_rules add.assoc)
qed (simp add: gate_rules)

subsection \<open>What a passing request satisfies\<close>

lemmas evaluate_rules = evaluate_chat_or_messages_def finish_eligible gate_rules

lemma gate_passes:
  assumes "evaluate_chat_or_messages d p suffixes r = Inr Eligible"
  shows "identity_check p suffixes r = Inr None" and "search_check p r = Inr None"
    and "\<forall>k \<in> set (obj_keys p). sweep_key d p r k = Inr None"
    and "body_check d p r = Inr None" and "row_check p r = Inr None"
  using assms by (simp_all add: evaluate_rules)

lemma identity_pass:
  "identity_check p suffixes r = Inr None \<longleftrightarrow>
     (\<exists>m. fld ''model'' p = JStr m \<and> m \<noteq> [] \<and> \<not> is_free (JStr m) \<and> \<not> is_router_model m)
     \<and> suffixes = [] \<and> (fld ''zdr'' (fld ''provider'' p) = JTrue \<longrightarrow> is_zdr_row r)"
  by (cases "fld ''model'' p") (auto simp: identity_check_def gate_rules)

lemma row_pass:
  "row_check p r = Inr None \<longleftrightarrow>
     (\<exists>w. r = Some w \<and> is_row_enabled w
        \<and> (rw_supports_tools w
           \<or> list_all (\<lambda>t. serves_web_search_natively r p \<and> is_web_search_server_tool t) (elems (fld ''tools'' p))))"
  by (cases r) (auto simp: row_check_def gate_rules Let_def filter_empty_conv list_all_iff)

lemma search_pass:
  "search_check p r = Inr None \<longleftrightarrow>
     (requests_web_search p \<longrightarrow> serves_web_search_natively r p)
     \<and> \<not> (row_provider_in web_search_direct_providers r \<and> has_dated_tool p)"
  by (auto simp: search_check_def gate_rules)

lemma message_keys_pass:
  "message_keys_check allowed m = Inr None \<longleftrightarrow> (\<forall>k \<in> set (obj_keys m). List.member allowed k)"
  by (auto simp: message_keys_check_def gate_rules find_None_iff simp: find_Some_iff split: option.splits)

definition message_fields :: "dialect \<Rightarrow> string list" where
  "message_fields d =
     (case d of ChatDialect \<Rightarrow> allowed_message_fields | MessagesDialect \<Rightarrow> allowed_messages_message_fields)"

lemma message_pass:
  assumes "message_check d r seen m = Inr None"
  shows "typeof_object m" and "\<forall>k \<in> set (obj_keys m). List.member (message_fields d) k"
    and "int (seen + message_chars d m) \<le> max_total_image_data_uri_chars"
  using assms
  by (cases d; simp add: message_check_def chat_message_check_def messages_message_check_def Let_def
      gate_rules message_keys_pass message_chars_def message_fields_def split: if_splits)+

lemma body_pass:
  assumes "body_check d p r = Inr None"
  obtains ms where "fld ''messages'' p = JArr ms" and "ms \<noteq> []"
    and "messages_check d r 0 ms = Inr None"
  using assms by (cases "fld ''messages'' p") (auto simp: body_check_def gate_rules split: if_splits)

lemma messages_pass_total:
  assumes "messages_check d r n ms = Inr None" and "ms \<noteq> []"
  shows "int (n + sum_list (map (message_chars d) ms)) \<le> max_total_image_data_uri_chars"
  using assms
proof (induction ms arbitrary: n)
  case (Cons m ms)
  then have head: "message_check d r n m = Inr None"
    and tail: "messages_check d r (n + message_chars d m) ms = Inr None"
    by (simp_all only: messages_check.simps or_else_pass)
  show ?case
    using message_pass(3) [OF head] Cons.IH [OF tail] by (cases "ms = []") (simp_all add: add.assoc)
qed simp

lemma messages_pass_each:
  "messages_check d r n ms = Inr None \<Longrightarrow> m \<in> set ms \<Longrightarrow> \<exists>seen. message_check d r seen m = Inr None"
  by (metis messages_check_pass in_set_conv_nth)

lemma member_web_search_direct: "List.member web_search_direct_providers s \<longleftrightarrow> s = ''venice''"
  by (simp add: web_search_direct_providers_def)

text \<open>C4: A request the gate admits names one priced model of the catalog without routing suffixes, is
  served by an existing, enabled row, is on a ZDR row whenever it asks for zero data retention, asks
  for web search only on a provider that searches itself and never with a dated tool, carries at
  most 14 MiB of image data over all messages, and has no function tool the row cannot call.\<close>

theorem direct_gate_sound:
  assumes "evaluate_chat_or_messages d p suffixes r = Inr Eligible"
  shows "\<exists>w m ms. r = Some w \<and> is_row_enabled w
    \<and> fld ''model'' p = JStr m \<and> m \<noteq> [] \<and> \<not> is_free (JStr m) \<and> \<not> is_router_model m \<and> suffixes = []
    \<and> (fld ''zdr'' (fld ''provider'' p) = JTrue \<longrightarrow> is_zdr_row r)
    \<and> (requests_web_search p \<longrightarrow> rw_provider w = ''venice'' \<and> \<not> has_dated_tool p)
    \<and> fld ''messages'' p = JArr ms \<and> ms \<noteq> []
    \<and> (\<forall>x \<in> set ms. typeof_object x \<and> (\<forall>k \<in> set (obj_keys x). List.member (message_fields d) k))
    \<and> sum_list (map (message_chars d) ms) \<le> 14 * 1024 * 1024
    \<and> (\<forall>t \<in> set (elems (fld ''tools'' p)). rw_supports_tools w \<or> rw_provider w = ''venice'' \<and> is_web_search_server_tool t)"
proof -
  note pass = gate_passes [OF assms]
  obtain ms where ms: "fld ''messages'' p = JArr ms" "ms \<noteq> []" "messages_check d r 0 ms = Inr None"
    using body_pass [OF pass(4)] .
  obtain w where w: "r = Some w" "is_row_enabled w"
    "rw_supports_tools w \<or> list_all (\<lambda>t. serves_web_search_natively r p \<and> is_web_search_server_tool t)
       (elems (fld ''tools'' p))"
    using pass(5) by (auto simp: row_pass)
  have total: "sum_list (map (message_chars d) ms) \<le> 14 * 1024 * 1024"
    using messages_pass_total [OF ms(3,2)] by (simp add: max_total_image_data_uri_chars_def)
  have each: "typeof_object x \<and> (\<forall>k \<in> set (obj_keys x). List.member (message_fields d) k)" if "x \<in> set ms" for x
    using messages_pass_each [OF ms(3) that] message_pass by blast
  have venice: "rw_provider w = ''venice'' \<and> \<not> has_dated_tool p" if "serves_web_search_natively r p"
    using that w(1) by (simp only: serves_web_search_natively_def member_web_search_direct option.case) simp
  have "requests_web_search p \<longrightarrow> rw_provider w = ''venice'' \<and> \<not> has_dated_tool p"
    using pass(2) venice by (simp add: search_pass)
  moreover have "\<forall>t \<in> set (elems (fld ''tools'' p)).
      rw_supports_tools w \<or> rw_provider w = ''venice'' \<and> is_web_search_server_tool t"
    using w(3) venice by (auto simp: list_all_iff)
  ultimately show ?thesis
    using pass(1) w(1,2) ms(1,2) total each unfolding identity_pass by blast
qed

definition demo_row :: row where
  "demo_row = \<lparr>rw_provider = ''fireworks'', rw_upstream_model = JStr ''accounts/kimi'', rw_service_tier = JUndef,
     rw_supports_tools = True, rw_supports_image = True, rw_enabled = True, rw_enabled_override = None,
     rw_zdr = None, rw_reasoning_mode = JUndef\<rparr>"

definition demo_chat :: jsv where
  "demo_chat = JObj [(''model'', JStr ''moonshotai/kimi''), (''stream'', JTrue),
     (''provider'', JObj [(''zdr'', JTrue), (''ignore'', JArr [JStr ''OpenAI''])]), (''chat_id'', JStr ''c''),
     (''reasoning'', JObj [(''effort'', JStr ''high'')]),
     (''messages'', JArr [
        JObj [(''role'', JStr ''assistant''), (''content'', JStr ''a''), (''reasoning'', JStr ''r'')],
        JObj [(''role'', JStr ''user''), (''content'', JArr [JObj [(''type'', JStr ''text''), (''text'', JStr ''hi'')]])]])]"

lemma demo_chat_eligible: "evaluate_chat_or_messages ChatDialect demo_chat [] (Some demo_row) = Inr Eligible"
  by code_simp

theorem direct_gate_sound_witness:
  "\<exists>w. Some demo_row = Some w \<and> is_row_enabled w \<and> is_zdr_row (Some demo_row)"
  using direct_gate_sound [OF demo_chat_eligible] by (auto simp: demo_chat_def)

lemma sweep_pass_provider:
  assumes "sweep_key d p r ''provider'' = Inr None" and "fld ''provider'' p \<noteq> JUndef"
  shows "is_absorbable_provider_object (fld ''provider'' p) r = Inr True"
proof -
  have "\<not> List.member (dialect_fields d) ''provider''" by (cases d; simp only:; code_simp)
  moreover have "\<not> List.member ignored_fields ''provider''" by code_simp
  moreover have "\<not> List.member unhonored_client_fields ''provider''" by code_simp
  ultimately have "sweep_provider p r ''provider'' = Inr None"
    using assms by (simp add: sweep_key_def)
  then show ?thesis
    by (auto simp: sweep_provider_def bind_js_Inr_iff gate_rules)
qed

lemma absorbable_lists:
  assumes "is_absorbable_provider_object v r = Inr True"
    and "has_fld ''ignore'' v \<or> has_fld ''order'' v \<or> has_fld ''only'' v"
  obtains w excluded pins where "r = Some w"
    and "map_of openrouter_provider_refs (rw_provider w) = Some excluded"
    and "map_of openrouter_provider_pin_refs (rw_provider w) = Some pins"
    and "provider_lists_ok v excluded pins"
  using assms
  by (auto simp: is_absorbable_provider_object_def Let_def bind_js_Inr_iff ref_set_def table_get_def
      split: if_splits option.splits)

lemma absorbable_keys:
  assumes "is_absorbable_provider_object v r = Inr True"
  shows "is_obj v" and "k \<in> set (obj_keys v) \<Longrightarrow>
     k = ''zdr'' \<and> fld ''zdr'' v = JTrue \<or> List.member [''ignore'', ''order'', ''only'', ''allow_fallbacks''] k"
  using assms
  by (auto simp: is_absorbable_provider_object_def Let_def list_all_iff provider_key_ok_def split: if_splits)

text \<open>The provider references a row answers to, all and those that pin it.\<close>

definition row_refs :: "(string \<times> string list) list \<Rightarrow> row \<Rightarrow> string list" where
  "row_refs t w = (case map_of t (rw_provider w) of Some ws \<Rightarrow> ws | None \<Rightarrow> [])"

lemma obj_keys_fld: "fld k v \<noteq> JUndef \<Longrightarrow> k \<in> set (obj_keys v)"
  by (cases v) (force simp: obj_keys_def spread_def dest: map_of_SomeD split: option.splits)+

text \<open>C25: When the gate admits a request that carries a provider object, the routing it asks for is
  honoured by the row: no entry of its ignore list normalises to a name of the row's provider, the
  first entry of its order and every entry of its only list normalise to a name that pins that
  provider, a zdr member is true, and there is no other directive than allow_fallbacks.\<close>

theorem provider_directives_honoured:
  assumes "evaluate_chat_or_messages d p suffixes (Some w) = Inr Eligible"
    and "fld ''provider'' p = v" and "v \<noteq> JUndef"
  shows "is_obj v
    \<and> (\<forall>e \<in> set (elems (fld ''ignore'' v)). is_str e
         \<and> \<not> List.member (row_refs openrouter_provider_refs w) (normalize_or_provider_ref (str_of e)))
    \<and> (has_fld ''order'' v \<longrightarrow> (\<exists>s rest. fld ''order'' v = JArr (JStr s # rest)
         \<and> List.member (row_refs openrouter_provider_pin_refs w) (normalize_or_provider_ref s)))
    \<and> (has_fld ''only'' v \<longrightarrow> (\<exists>es. fld ''only'' v = JArr es \<and> es \<noteq> []
         \<and> (\<forall>e \<in> set es. is_str e
              \<and> List.member (row_refs openrouter_provider_pin_refs w) (normalize_or_provider_ref (str_of e)))))
    \<and> (\<forall>k \<in> set (obj_keys v). k = ''zdr'' \<and> fld ''zdr'' v = JTrue
         \<or> List.member [''ignore'', ''order'', ''only'', ''allow_fallbacks''] k)"
proof -
  have "''provider'' \<in> set (obj_keys p)" using assms(2,3) by (simp add: obj_keys_fld)
  then have ok: "is_absorbable_provider_object v (Some w) = Inr True"
    using gate_passes(3) [OF assms(1)] sweep_pass_provider assms(2,3) by blast
  show ?thesis
  proof (cases "has_fld ''ignore'' v \<or> has_fld ''order'' v \<or> has_fld ''only'' v")
    case True
    then obtain excluded pins where t: "map_of openrouter_provider_refs (rw_provider w) = Some excluded"
      "map_of openrouter_provider_pin_refs (rw_provider w) = Some pins" "provider_lists_ok v excluded pins"
      using absorbable_lists [OF ok] by (metis option.inject)
    have refs: "row_refs openrouter_provider_refs w = excluded" "row_refs openrouter_provider_pin_refs w = pins"
      by (simp_all only: row_refs_def t option.case)
    have ignore: "\<forall>e \<in> set (elems (fld ''ignore'' v)). is_str e
         \<and> \<not> List.member excluded (normalize_or_provider_ref (str_of e))"
      using t(3) fld_not_has [of "''ignore''" v]
      by (cases "fld ''ignore'' v") (auto simp: provider_lists_ok_def is_provider_list_def list_all_iff list_ex_iff
        names_one_of_def simp del: List.member_iff)
    have order: "\<exists>s rest. fld ''order'' v = JArr (JStr s # rest) \<and> List.member pins (normalize_or_provider_ref s)"
      if "has_fld ''order'' v"
    proof -
      have "is_provider_list (fld ''order'' v)" "elems (fld ''order'' v) \<noteq> []"
        "names_one_of pins (hd (elems (fld ''order'' v)))"
        using t(3) that by (simp_all only: provider_lists_ok_def simp_thms)
      then obtain e es where "fld ''order'' v = JArr (e # es)" "is_str e" "names_one_of pins e"
        by (cases "fld ''order'' v") (auto simp: is_provider_list_def neq_Nil_conv)
      then show ?thesis by (cases e) (simp_all add: names_one_of_def)
    qed
    have only: "\<exists>es. fld ''only'' v = JArr es \<and> es \<noteq> []
         \<and> (\<forall>e \<in> set es. is_str e \<and> List.member pins (normalize_or_provider_ref (str_of e)))"
      if "has_fld ''only'' v"
    proof -
      have "is_provider_list (fld ''only'' v)" "elems (fld ''only'' v) \<noteq> []"
        "list_all (names_one_of pins) (elems (fld ''only'' v))"
        using t(3) that by (simp_all only: provider_lists_ok_def simp_thms)
      then show ?thesis
        by (cases "fld ''only'' v") (auto simp: is_provider_list_def list_all_iff names_one_of_def)
    qed
    show ?thesis
      unfolding refs using ignore order only absorbable_keys [OF ok] by blast
  next
    case False
    then show ?thesis
      using absorbable_keys [OF ok] fld_not_has [of "''ignore''" v] by simp
  qed
qed

theorem provider_directives_honoured_witness:
  "\<not> List.member (row_refs openrouter_provider_refs demo_row) (normalize_or_provider_ref ''OpenAI'')"
  using provider_directives_honoured [OF demo_chat_eligible refl] by (simp add: demo_chat_def del: List.member_iff)

text \<open>Where the gate throws.\<close>

lemma map_of_table_get: "k \<notin> set proto_members \<Longrightarrow>
    table_get t k = (case map_of t k of Some v \<Rightarrow> Own v | None \<Rightarrow> Missing)"
  by (simp add: table_get_def split: option.splits)

lemma absorbable_no_throw:
  assumes "\<And>w. r = Some w \<Longrightarrow> rw_provider w \<notin> set proto_members"
  shows "\<exists>b. is_absorbable_provider_object v r = Inr b"
  using assms
  by (auto simp: is_absorbable_provider_object_def Let_def ref_set_def map_of_table_get split: option.splits)

lemma sweep_no_throw:
  assumes "\<And>w. r = Some w \<Longrightarrow> rw_provider w \<notin> set proto_members"
  shows "no_throw (sweep_key d p r k)"
proof -
  have "no_throw (sweep_provider p r k)"
    using absorbable_no_throw [OF assms, of r "fld ''provider'' p"]
    by (auto simp: sweep_provider_def)
  then show ?thesis by (simp add: sweep_key_def Let_def split: canon.split option.split)
qed

lemma body_no_throw: "no_throw (body_check d p r)"
proof -
  have keys: "no_throw (message_keys_check ks m)" for ks m
    by (simp add: message_keys_check_def split: option.split)
  have if_no_throw: "no_throw (if b then x else y)" if "no_throw x" "no_throw y" for b x y
    using that by simp
  have "no_throw (message_check d r n m)" for n m
    unfolding message_check_def chat_message_check_def messages_message_check_def Let_def
    by (cases d; simp only: dialect.case; intro if_no_throw no_throw_or_else keys no_throw_simps)
  then have "no_throw (messages_check d r n ms)" for n ms
    by (induction ms arbitrary: n) (auto intro: no_throw_or_else)
  then show ?thesis
    by (auto simp: body_check_def intro!: no_throw_or_else split: jsv.split)
qed

lemma chat_gate_no_throw:
  assumes "\<And>w. r = Some w \<Longrightarrow> rw_provider w \<notin> set proto_members"
  shows "\<exists>v. evaluate_chat_or_messages d p suffixes r = Inr v"
proof -
  have "no_throw (identity_check p suffixes r)"
    by (simp add: identity_check_def split: jsv.split)
  moreover have "no_throw (search_check p r)" by (simp add: search_check_def)
  moreover have "no_throw (row_check p r)" by (simp add: row_check_def Let_def split: option.split)
  ultimately show ?thesis
    unfolding evaluate_chat_or_messages_def
    by (intro no_throw_finish no_throw_or_else no_throw_first_stop body_no_throw sweep_no_throw assms)
qed

text \<open>The canonical base64 test accepts exactly the non-empty strings of whole quads over the
  standard alphabet with at most two padding signs, all at the end; the decoded size of such a string
  is a whole number of bytes, one or two short of the quads when it is padded.\<close>

lemma index_of_append: "c \<notin> set body \<Longrightarrow> index_of (body @ pad) c = map_option (\<lambda>i. length body + i) (index_of pad c)"
  by (induction body; cases "index_of pad c") auto

lemma index_of_Some_take: "index_of s c = Some i \<Longrightarrow> i < length s \<and> c \<notin> set (take i s)"
  by (induction s arbitrary: i) (auto split: if_splits)

lemma base64_char_not_pad: "list_all is_base64_char s \<Longrightarrow> CHR ''='' \<notin> set s"
proof -
  have "\<not> is_base64_char (CHR ''='')" by code_simp
  then show ?thesis if "list_all is_base64_char s" using that by (auto simp: list_all_iff)
qed

lemma canonical_base64_iff:
  "is_canonical_base64 data \<longleftrightarrow>
     (\<exists>body pad. data = body @ pad \<and> list_all is_base64_char body \<and> pad \<in> {[], ''='', ''==''}
        \<and> data \<noteq> [] \<and> length data mod 4 = 0)"
proof
  assume can: "is_canonical_base64 data"
  then have nonempty: "data \<noteq> [] \<and> length data mod 4 = 0"
    by (simp add: is_canonical_base64_def split: if_splits)
  show "\<exists>body pad. data = body @ pad \<and> list_all is_base64_char body \<and> pad \<in> {[], ''='', ''==''}
      \<and> data \<noteq> [] \<and> length data mod 4 = 0"
  proof (cases "index_of data (CHR ''='')")
    case None
    then have "list_all is_base64_char data" using can nonempty by (simp add: is_canonical_base64_def)
    then show ?thesis using nonempty by (intro exI [of _ data] exI [of _ "[]"]) simp
  next
    case (Some i)
    then have "drop i data \<in> {''='', ''==''} \<and> list_all is_base64_char (take i data)"
      using can nonempty by (simp add: is_canonical_base64_def)
    moreover have "data = take i data @ drop i data" by simp
    moreover have "drop i data \<in> {[], ''='', ''==''}" using calculation(1) by (simp only: insert_iff) simp
    ultimately show ?thesis using nonempty by (intro exI conjI) (assumption | simp only: simp_thms)+
  qed
next
  assume "\<exists>body pad. data = body @ pad \<and> list_all is_base64_char body \<and> pad \<in> {[], ''='', ''==''}
      \<and> data \<noteq> [] \<and> length data mod 4 = 0"
  then obtain body pad where all: "data = body @ pad \<and> list_all is_base64_char body \<and> pad \<in> {[], ''='', ''==''}
      \<and> data \<noteq> [] \<and> length data mod 4 = 0"
    by (elim exE)
  note d = all [THEN conjunct1] all [THEN conjunct2, THEN conjunct1]
    all [THEN conjunct2, THEN conjunct2, THEN conjunct1] all [THEN conjunct2, THEN conjunct2, THEN conjunct2, THEN conjunct1]
    all [THEN conjunct2, THEN conjunct2, THEN conjunct2, THEN conjunct2]
  have idx: "index_of data (CHR ''='') = map_option (\<lambda>i. length body + i) (index_of pad (CHR ''=''))"
    using d(1,2) by (simp only: index_of_append base64_char_not_pad not_False_eq_True)
  have parts: "take (length body) data = body" "drop (length body) data = pad" by (simp_all add: d(1))
  show "is_canonical_base64 data"
  proof (cases "pad = []")
    case True
    then have "index_of data (CHR ''='') = None" "list_all is_base64_char data"
      using idx d(1,2) by simp_all
    then show ?thesis using d(4,5) by (simp only: is_canonical_base64_def) simp
  next
    case False
    then have "index_of pad (CHR ''='') = Some 0" using d(3) by auto
    then have "index_of data (CHR ''='') = Some (length body)" using idx by simp
    then show ?thesis
      using d(2,3,4,5) parts False unfolding is_canonical_base64_def by simp
  qed
qed

end
