(* ===== verification/Projection.thy ===== *)
theory Projection
  imports DirectGate
begin

text \<open>
  The bodies that \<open>enclave/src/eligibility.mjs\<close> builds for a direct provider out of a request the
  gate let pass: the allowlisted projection of the chat and messages dialects.
\<close>

definition reasoning_details_text :: "jsv \<Rightarrow> string" where
  "reasoning_details_text details =
     concat (map (\<lambda>e. if fld ''type'' e = JStr ''reasoning.text'' then str_of (fld ''text'' e) else [])
       (elems details))"

definition allowed_projection :: "dialect \<Rightarrow> jsv \<Rightarrow> jsv" where
  "allowed_projection d payload =
     (case payload of
        JObj kvs \<Rightarrow> JObj (filter (\<lambda>(k, v). List.member (dialect_fields d) k \<and> v \<noteq> JUndef) kvs)
      | _ \<Rightarrow> JObj [])"

text \<open>Whether a message carries anything the rewrite touches.\<close>

definition needs_rewrite :: "bool \<Rightarrow> jsv \<Rightarrow> bool" where
  "needs_rewrite keep_cache m \<longleftrightarrow>
     typeof_object m
     \<and> (fld ''reasoning'' m \<noteq> JUndef \<or> fld ''reasoning_details'' m \<noteq> JUndef \<or> fld ''cot_id'' m \<noteq> JUndef
        \<or> (\<not> keep_cache \<and> fld ''cache_control'' m \<noteq> JUndef))"

definition message_rest :: "bool \<Rightarrow> jsv \<Rightarrow> jsv" where
  "message_rest keep_cache m =
     (let rest = del_fld ''cot_id'' (del_fld ''cache_control'' (del_fld ''reasoning_details'' (del_fld ''reasoning'' m)));
          cc = fld ''cache_control'' m
      in if keep_cache \<and> cc \<noteq> JUndef then set_fld ''cache_control'' cc rest else rest)"

definition replayed_text :: "jsv \<Rightarrow> string" where
  "replayed_text m =
     (case fld ''reasoning'' m of
        JStr s \<Rightarrow> if s \<noteq> [] then s else reasoning_details_text (fld ''reasoning_details'' m)
      | _ \<Rightarrow> reasoning_details_text (fld ''reasoning_details'' m))"

definition rewrite_message :: "bool \<Rightarrow> bool \<Rightarrow> jsv \<Rightarrow> jsv" where
  "rewrite_message keep_cache replay m =
     (if \<not> needs_rewrite keep_cache m then m
      else
        let rest = message_rest keep_cache m; text = replayed_text m
        in if replay \<and> fld ''role'' m = JStr ''assistant'' \<and> fld ''reasoning_content'' rest = JUndef \<and> text \<noteq> []
           then set_fld ''reasoning_content'' (JStr text) rest else rest)"

definition rewrite_messages :: "row \<Rightarrow> jsv \<Rightarrow> jsv" where
  "rewrite_messages r body =
     (let keep_cache = (rw_provider r = ''anthropic'');
          replay = List.member fireworks_wire_providers (rw_provider r)
      in case fld ''messages'' body of
           JArr ms \<Rightarrow>
             if list_ex (needs_rewrite keep_cache) ms
             then set_fld ''messages'' (JArr (map (rewrite_message keep_cache replay) ms)) body
             else body
         | _ \<Rightarrow> body)"

definition pin_usage :: "jsv \<Rightarrow> jsv \<Rightarrow> jsv" where
  "pin_usage payload body =
     (if fld ''stream'' payload = JTrue
      then set_fld ''stream_options''
             (JObj (AList.update ''include_usage'' JTrue (spread (fld ''stream_options'' payload)))) body
      else del_fld ''stream_options'' body)"

definition put_effort :: "jsv \<Rightarrow> jsv \<Rightarrow> jsv" where
  "put_effort payload body =
     (if fld ''reasoning'' payload = JUndef then body
      else case canonicalize_reasoning_object (fld ''reasoning'' payload) of
        CanonEffort e \<Rightarrow> set_fld ''reasoning_effort'' (JStr e) body
      | _ \<Rightarrow> body)"

definition put_if :: "bool \<Rightarrow> string \<Rightarrow> jsv \<Rightarrow> jsv \<Rightarrow> jsv" where
  "put_if b k v body = (if b \<and> v \<noteq> JUndef then set_fld k v body else body)"

definition chat_extras :: "jsv \<Rightarrow> row \<Rightarrow> jsv \<Rightarrow> jsv" where
  "chat_extras payload r body =
     rewrite_messages r
       (put_if (List.member verbosity_direct_providers (rw_provider r)) ''verbosity'' (fld ''verbosity'' payload)
         (put_if (rw_provider r = ''vertex'') ''safety_settings'' (fld ''safety_settings'' payload)
           (put_effort payload (pin_usage payload body))))"

definition project_allowed_fields :: "dialect \<Rightarrow> jsv \<Rightarrow> row \<Rightarrow> jsv" where
  "project_allowed_fields d payload r =
     (let body1 = set_fld ''model'' (rw_upstream_model r) (allowed_projection d payload);
          body2 = (if truthy (rw_service_tier r) then set_fld ''service_tier'' (rw_service_tier r) body1 else body1)
      in case d of ChatDialect \<Rightarrow> chat_extras payload r body2 | MessagesDialect \<Rightarrow> body2)"

subsection \<open>Lemmas\<close>

lemma is_obj_allowed [simp]: "is_obj (allowed_projection d p)"
  by (cases p) (simp_all add: allowed_projection_def)

lemma map_of_filter_key:
  "distinct (map fst kvs) \<Longrightarrow>
     map_of (filter (\<lambda>(k, v). P k \<and> v \<noteq> JUndef) kvs) k =
       (case map_of kvs k of Some v \<Rightarrow> if P k \<and> v \<noteq> JUndef then Some v else None | None \<Rightarrow> None)"
proof (induction kvs)
  case (Cons e kvs)
  have "map_of kvs (fst e) = None" using Cons.prems by (simp add: map_of_eq_None_iff)
  then show ?case using Cons by (auto simp: case_prod_beta split: option.splits)
qed simp

definition wf_obj :: "jsv \<Rightarrow> bool" where
  "wf_obj v = (case v of JObj kvs \<Rightarrow> distinct (map fst kvs) | _ \<Rightarrow> False)"

lemma fld_allowed:
  "wf_obj p \<Longrightarrow> fld k (allowed_projection d p) = (if List.member (dialect_fields d) k then fld k p else JUndef)"
  by (cases p) (auto simp: wf_obj_def allowed_projection_def map_of_filter_key split: option.splits)

lemma wf_is_obj: "wf_obj p \<Longrightarrow> is_obj p"
  by (cases p) (auto simp: wf_obj_def)

lemma obj_pin_usage [simp]: "is_obj b \<Longrightarrow> is_obj (pin_usage p b)"
  by (simp add: pin_usage_def)

lemma obj_put_effort [simp]: "is_obj b \<Longrightarrow> is_obj (put_effort p b)"
  by (simp add: put_effort_def split: canon.split)

lemma obj_put_if [simp]: "is_obj b \<Longrightarrow> is_obj (put_if c k v b)"
  by (simp add: put_if_def)

lemma fld_pin_usage: "is_obj b \<Longrightarrow> k \<noteq> ''stream_options'' \<Longrightarrow> fld k (pin_usage p b) = fld k b"
  by (simp add: pin_usage_def fld_set_fld fld_del_fld)

lemma fld_put_effort: "is_obj b \<Longrightarrow> k \<noteq> ''reasoning_effort'' \<Longrightarrow> fld k (put_effort p b) = fld k b"
  by (simp add: put_effort_def fld_set_fld split: canon.split)

lemma fld_put_if: "is_obj b \<Longrightarrow> fld k (put_if c k' v b) = (if k = k' \<and> c \<and> v \<noteq> JUndef then v else fld k b)"
  by (simp add: put_if_def fld_set_fld)

lemma fld_rewrite_messages: "is_obj b \<Longrightarrow> k \<noteq> ''messages'' \<Longrightarrow> fld k (rewrite_messages r b) = fld k b"
  by (simp add: rewrite_messages_def Let_def fld_set_fld split: jsv.split)

lemma messages_rewrite_messages:
  "is_obj b \<Longrightarrow> fld ''messages'' b = JArr ms \<Longrightarrow>
     fld ''messages'' (rewrite_messages r b) =
       JArr (map (rewrite_message (rw_provider r = ''anthropic'') (List.member fireworks_wire_providers (rw_provider r))) ms)"
  by (auto simp: rewrite_messages_def Let_def fld_set_fld list_ex_iff rewrite_message_def intro: map_idI [symmetric])

text \<open>What every field of a chat body is.\<close>

lemma fld_project_chat:
  assumes "wf_obj p" and "k \<notin> {''messages'', ''stream_options'', ''reasoning_effort''}"
  shows "fld k (project_allowed_fields ChatDialect p r) =
     (if k = ''verbosity'' \<and> List.member verbosity_direct_providers (rw_provider r) \<and> fld k p \<noteq> JUndef then fld k p
      else if k = ''safety_settings'' \<and> rw_provider r = ''vertex'' \<and> fld k p \<noteq> JUndef then fld k p
      else if k = ''service_tier'' \<and> truthy (rw_service_tier r) then rw_service_tier r
      else if k = ''model'' then rw_upstream_model r
      else if List.member (dialect_fields ChatDialect) k then fld k p else JUndef)"
  using assms
  by (simp add: project_allowed_fields_def chat_extras_def Let_def fld_rewrite_messages fld_put_if
      fld_put_effort fld_pin_usage fld_set_fld fld_allowed)

lemma messages_project_chat:
  assumes "wf_obj p" and "fld ''messages'' p = JArr ms"
  shows "fld ''messages'' (project_allowed_fields ChatDialect p r) =
     JArr (map (rewrite_message (rw_provider r = ''anthropic'') (List.member fireworks_wire_providers (rw_provider r))) ms)"
proof -
  have m: "List.member (dialect_fields ChatDialect) ''messages''" by code_simp
  show ?thesis
    using assms m
    by (simp add: project_allowed_fields_def chat_extras_def Let_def messages_rewrite_messages fld_put_if
        fld_put_effort fld_pin_usage fld_set_fld fld_allowed)
qed

text \<open>The fields that the gate consumes instead of forwarding.\<close>

definition consumed_fields :: "string list" where
  "consumed_fields = ignored_fields @ unhonored_client_fields @ [''provider'', ''include_reasoning'', ''reasoning'']"

lemma sweep_pass_key:
  assumes "sweep_key ChatDialect p r k = Inr None" and "fld k p \<noteq> JUndef"
  shows "List.member (dialect_fields ChatDialect) k \<or> List.member consumed_fields k
     \<or> k = ''safety_settings'' \<or> k = ''verbosity'' \<and> verbosity_row r"
  using assms
  by (auto simp: sweep_key_def consumed_fields_def sweep_provider_def Let_def gate_rules split: if_splits)

lemma effort_of_reasoning:
  assumes "sweep_key ChatDialect p r ''reasoning'' = Inr None" and "fld ''reasoning'' p \<noteq> JUndef"
  shows "(\<exists>e. canonicalize_reasoning_object (fld ''reasoning'' p) = CanonEffort e)
     \<or> canonicalize_reasoning_object (fld ''reasoning'' p) = CanonNone"
proof -
  have "\<not> List.member (dialect_fields ChatDialect) ''reasoning''" by code_simp
  moreover have "\<not> List.member ignored_fields ''reasoning''" by code_simp
  moreover have "\<not> List.member unhonored_client_fields ''reasoning''" by code_simp
  ultimately show ?thesis
    using assms by (simp add: sweep_key_def gate_rules split: canon.splits)
qed

lemma fld_effort_project_chat:
  "wf_obj p \<Longrightarrow> fld ''reasoning_effort'' (project_allowed_fields ChatDialect p r) =
     (case canonicalize_reasoning_object (fld ''reasoning'' p) of
        CanonEffort e \<Rightarrow> if fld ''reasoning'' p = JUndef then fld ''reasoning_effort'' p else JStr e
      | _ \<Rightarrow> fld ''reasoning_effort'' p)"
proof -
  have m: "List.member (dialect_fields ChatDialect) ''reasoning_effort''" by code_simp
  assume "wf_obj p"
  then show ?thesis
    using m by (simp add: project_allowed_fields_def chat_extras_def Let_def fld_rewrite_messages fld_put_if
      put_effort_def fld_pin_usage fld_set_fld fld_allowed split: canon.split)
qed

lemma fld_stream_options_project_chat:
  "wf_obj p \<Longrightarrow> fld ''stream_options'' (project_allowed_fields ChatDialect p r) =
     (if fld ''stream'' p = JTrue
      then JObj (AList.update ''include_usage'' JTrue (spread (fld ''stream_options'' p))) else JUndef)"
  by (simp add: project_allowed_fields_def chat_extras_def Let_def fld_rewrite_messages fld_put_if
      fld_put_effort pin_usage_def fld_set_fld fld_del_fld)

definition placed_fields :: "string list" where
  "placed_fields = [''model'', ''messages'', ''stream_options'', ''reasoning_effort'', ''service_tier'',
     ''verbosity'', ''safety_settings'']"

lemma consumed_not_forwarded:
  assumes "wf_obj p" and "List.member consumed_fields k"
  shows "fld k (project_allowed_fields ChatDialect p r) = JUndef"
proof -
  have "list_all (\<lambda>k. \<not> List.member (dialect_fields ChatDialect) k \<and> \<not> List.member placed_fields k) consumed_fields"
    by code_simp
  then have k: "\<not> List.member (dialect_fields ChatDialect) k" "\<not> List.member placed_fields k"
    using assms(2) by (simp_all add: list_all_iff)
  then have "k \<notin> {''messages'', ''stream_options'', ''reasoning_effort''}"
    by (auto simp: placed_fields_def)
  from fld_project_chat [OF assms(1) this] k show ?thesis by (simp add: placed_fields_def)
qed

text \<open>For a chat request the gate admits, the body sent to the row's provider has the row's own model
  id; carries every field of the request unchanged, except those the gate consumes, safety settings
  off Vertex, and the reasoning object, whose effort it carries instead; asks for usage exactly when
  it streams; and has no field the request did not have, other than the row's service tier.\<close>

theorem chat_projection_exact:
  assumes "evaluate_chat_or_messages ChatDialect p suffixes (Some w) = Inr Eligible" and "wf_obj p"
    and "body = project_allowed_fields ChatDialect p w"
    and "\<not> truthy (rw_service_tier w) \<or> k \<noteq> ''service_tier''" and "k \<noteq> ''messages''"
  shows "fld k body =
     (if k = ''model'' then rw_upstream_model w
      else if k = ''stream_options'' then
        (if fld ''stream'' p = JTrue
         then JObj (AList.update ''include_usage'' JTrue (spread (fld ''stream_options'' p))) else JUndef)
      else if k = ''reasoning_effort'' then
        (case canonicalize_reasoning_object (fld ''reasoning'' p) of
           CanonEffort e \<Rightarrow> JStr e | _ \<Rightarrow> fld ''reasoning_effort'' p)
      else if List.member consumed_fields k \<or> k = ''safety_settings'' \<and> rw_provider w \<noteq> ''vertex'' then JUndef
      else fld k p)"
proof -
  note wf = assms(2)
  have undef: "canonicalize_reasoning_object JUndef = CanonBail ''reasoning''"
    by (simp add: canonicalize_reasoning_object_def)
  consider (model) "k = ''model''" | (stream) "k = ''stream_options''" | (effort) "k = ''reasoning_effort''"
    | (consumed) "List.member consumed_fields k" "k \<noteq> ''model''" "k \<noteq> ''stream_options''" "k \<noteq> ''reasoning_effort''"
    | (other) "\<not> List.member consumed_fields k" "k \<noteq> ''model''" "k \<noteq> ''stream_options''" "k \<noteq> ''reasoning_effort''"
    by blast
  then show ?thesis
  proof cases
    case model
    then show ?thesis using fld_project_chat [OF wf, of k w] by (simp add: assms(3))
  next
    case stream
    then show ?thesis using fld_stream_options_project_chat [OF wf, of w] by (simp add: assms(3))
  next
    case effort
    then show ?thesis
      using fld_effort_project_chat [OF wf, of w] undef by (simp add: assms(3) split: canon.split)
  next
    case consumed
    then show ?thesis using consumed_not_forwarded [OF wf, of k w] by (simp add: assms(3))
  next
    case other
    have k: "k \<notin> {''messages'', ''stream_options'', ''reasoning_effort''}" using other assms(5) by simp
    have swept: "List.member (dialect_fields ChatDialect) k \<or> k = ''safety_settings'' \<or> k = ''verbosity''"
      "k = ''verbosity'' \<Longrightarrow> List.member verbosity_direct_providers (rw_provider w)" if "fld k p \<noteq> JUndef"
    proof -
      have "sweep_key ChatDialect p (Some w) k = Inr None"
        using gate_passes(3) [OF assms(1)] obj_keys_fld [OF that] by blast
      moreover have "\<not> List.member (dialect_fields ChatDialect) ''verbosity''" by code_simp
      ultimately show "List.member (dialect_fields ChatDialect) k \<or> k = ''safety_settings'' \<or> k = ''verbosity''"
        "k = ''verbosity'' \<Longrightarrow> List.member verbosity_direct_providers (rw_provider w)"
        using sweep_pass_key [OF _ that, of "Some w"] other(1) by (auto simp: verbosity_row_def)
    qed
    have not_allowed: "\<not> List.member (dialect_fields ChatDialect) ''safety_settings''" by code_simp
    have tier: "\<not> (k = ''service_tier'' \<and> truthy (rw_service_tier w))" using assms(4) by blast
    note body = fld_project_chat [OF wf k, of w, unfolded if_not_P [OF tier] if_not_P [OF other(2)]]
    have drop: "List.member consumed_fields k \<or> k = ''safety_settings'' \<and> rw_provider w \<noteq> ''vertex''
        \<longleftrightarrow> k = ''safety_settings'' \<and> rw_provider w \<noteq> ''vertex''" using other(1) by simp
    have "fld k body = (if k = ''safety_settings'' \<and> rw_provider w \<noteq> ''vertex'' then JUndef else fld k p)"
    proof (cases "fld k p = JUndef")
      case True
      then show ?thesis by (simp only: assms(3) body if_cancel simp_thms if_False)
    next
      case False
      consider (allowed) "List.member (dialect_fields ChatDialect) k" | (safety) "k = ''safety_settings''"
        | (verbosity) "k = ''verbosity''" "List.member verbosity_direct_providers (rw_provider w)"
        using swept [OF False] by blast
      then show ?thesis
      proof cases
        case allowed
        then have "k \<noteq> ''safety_settings''" using not_allowed by blast
        then show ?thesis by (simp only: assms(3) body allowed simp_thms if_False if_True if_cancel)
      next
        case safety
        then show ?thesis unfolding assms(3) body using False not_allowed by simp
      next
        case verbosity
        then show ?thesis unfolding assms(3) body using False by simp
      qed
    qed
    then show ?thesis
      unfolding drop if_not_P [OF other(2)] if_not_P [OF other(3)] if_not_P [OF other(4)] .
  qed
qed

theorem chat_projection_exact_witness:
  "fld ''model'' (project_allowed_fields ChatDialect demo_chat demo_row) = JStr ''accounts/kimi''"
proof -
  have "wf_obj demo_chat" by code_simp
  from chat_projection_exact [OF demo_chat_eligible this refl, of "''model''"]
  show ?thesis by (simp add: demo_row_def)
qed

lemma fld_message_rest:
  "fld k (message_rest c m) =
     (if k = ''reasoning'' \<or> k = ''reasoning_details'' \<or> k = ''cot_id'' then JUndef
      else if k = ''cache_control'' then (if c then fld k m else JUndef) else fld k m)"
proof (cases "is_obj m")
  case True
  then show ?thesis by (simp add: message_rest_def Let_def fld_set_fld fld_del_fld)
next
  case False
  then have "fld k' m = JUndef" for k' by (cases m) simp_all
  then show ?thesis by (simp add: message_rest_def Let_def fld_del_fld)
qed

lemma is_obj_message_rest [simp]: "is_obj (message_rest c m) = is_obj m"
  by (simp add: message_rest_def Let_def)

lemma replayed_text_none:
  "fld ''reasoning'' m = JUndef \<Longrightarrow> fld ''reasoning_details'' m = JUndef \<Longrightarrow> replayed_text m = []"
  by (simp add: replayed_text_def reasoning_details_text_def)

text \<open>How a message of the body relates to the message of the request.\<close>

definition rewritten_as :: "string \<Rightarrow> jsv \<Rightarrow> jsv \<Rightarrow> bool" where
  "rewritten_as provider m m' \<longleftrightarrow>
     (\<forall>k. List.member [''role'', ''content'', ''name'', ''tool_calls'', ''tool_call_id''] k \<longrightarrow> fld k m' = fld k m)
     \<and> fld ''reasoning'' m' = JUndef \<and> fld ''reasoning_details'' m' = JUndef \<and> fld ''cot_id'' m' = JUndef
     \<and> fld ''cache_control'' m' = (if provider = ''anthropic'' then fld ''cache_control'' m else JUndef)
     \<and> fld ''reasoning_content'' m' =
         (if fld ''reasoning_content'' m = JUndef \<and> replayed_text m \<noteq> []
             \<and> List.member fireworks_wire_providers provider \<and> fld ''role'' m = JStr ''assistant''
          then JStr (replayed_text m) else fld ''reasoning_content'' m)"

lemma rewrite_message_spec:
  assumes "typeof_object m" and "c \<longleftrightarrow> provider = ''anthropic''"
    and "f \<longleftrightarrow> List.member fireworks_wire_providers provider"
  shows "rewritten_as provider m (rewrite_message c f m)"
proof (cases "needs_rewrite c m")
  case False
  then have "fld ''reasoning'' m = JUndef" "fld ''reasoning_details'' m = JUndef" "fld ''cot_id'' m = JUndef"
    "c \<or> fld ''cache_control'' m = JUndef"
    using assms(1) by (simp_all add: needs_rewrite_def)
  then show ?thesis using False assms(2) replayed_text_none [of m] by (auto simp add: rewrite_message_def rewritten_as_def)
next
  case True
  have obj: "is_obj m"
  proof (rule ccontr)
    assume "\<not> is_obj m"
    then have "fld k m = JUndef" for k by (cases m) simp_all
    then show False using True by (simp add: needs_rewrite_def)
  qed
  have shape: "rewrite_message c f m =
      (if f \<and> fld ''role'' m = JStr ''assistant'' \<and> fld ''reasoning_content'' m = JUndef \<and> replayed_text m \<noteq> []
       then set_fld ''reasoning_content'' (JStr (replayed_text m)) (message_rest c m) else message_rest c m)"
    using True by (simp add: rewrite_message_def Let_def fld_message_rest)
  show ?thesis
    unfolding rewritten_as_def shape using obj assms(2,3)
    by (simp add: fld_set_fld fld_message_rest del: List.member_iff) (simp add: List.member_iff)
qed

text \<open>The messages of the projected chat body are the request's messages one for one. Each keeps its
  role, content, name, tool calls and tool call id, carries no reasoning, reasoning details or reasoning
  id, and keeps its cache marker exactly on the provider that reads it; its reasoning content is the
  one it had, or, for an assistant turn of a Fireworks-dialect provider that had none, its reasoning.\<close>

theorem chat_messages_projected:
  assumes "wf_obj p" and "fld ''messages'' p = JArr ms"
    and "\<forall>m \<in> set ms. typeof_object m"
  shows "\<exists>ms'. fld ''messages'' (project_allowed_fields ChatDialect p w) = JArr ms' \<and> length ms' = length ms
     \<and> (\<forall>i < length ms.
          (\<forall>k. List.member [''role'', ''content'', ''name'', ''tool_calls'', ''tool_call_id''] k
             \<longrightarrow> fld k (ms' ! i) = fld k (ms ! i))
          \<and> fld ''reasoning'' (ms' ! i) = JUndef \<and> fld ''reasoning_details'' (ms' ! i) = JUndef
          \<and> fld ''cot_id'' (ms' ! i) = JUndef
          \<and> fld ''cache_control'' (ms' ! i) =
              (if rw_provider w = ''anthropic'' then fld ''cache_control'' (ms ! i) else JUndef)
          \<and> fld ''reasoning_content'' (ms' ! i) =
              (if fld ''reasoning_content'' (ms ! i) = JUndef \<and> replayed_text (ms ! i) \<noteq> []
                  \<and> List.member fireworks_wire_providers (rw_provider w) \<and> fld ''role'' (ms ! i) = JStr ''assistant''
               then JStr (replayed_text (ms ! i)) else fld ''reasoning_content'' (ms ! i)))"
proof -
  let ?rw = "rewrite_message (rw_provider w = ''anthropic'') (List.member fireworks_wire_providers (rw_provider w))"
  have "i < length ms \<Longrightarrow> rewritten_as (rw_provider w) (ms ! i) (?rw (ms ! i))" for i
    using assms(3) by (intro rewrite_message_spec) simp_all
  then have "\<forall>i < length ms. rewritten_as (rw_provider w) (ms ! i) (map ?rw ms ! i)" by simp
  then show ?thesis
    unfolding messages_project_chat [OF assms(1,2)] rewritten_as_def
    by (intro exI [of _ "map ?rw ms"] conjI refl length_map)
qed

theorem chat_messages_projected_witness:
  "\<exists>ms'. fld ''messages'' (project_allowed_fields ChatDialect demo_chat demo_row) = JArr ms' \<and> length ms' = 2
     \<and> fld ''reasoning_content'' (ms' ! 0) = JStr ''r''"
proof -
  let ?ms = "elems (fld ''messages'' demo_chat)"
  have 1: "wf_obj demo_chat" and 2: "fld ''messages'' demo_chat = JArr ?ms" and 3: "list_all typeof_object ?ms"
    by code_simp+
  have 4: "length ?ms = 2" and 5: "fld ''reasoning_content'' (?ms ! 0) = JUndef" and 6: "replayed_text (?ms ! 0) = ''r''"
    and 7: "List.member fireworks_wire_providers (rw_provider demo_row)"
    and 8: "fld ''role'' (?ms ! 0) = JStr ''assistant''" by code_simp+
  from 3 have 3: "\<forall>m \<in> set ?ms. typeof_object m" by (simp add: list_all_iff)
  obtain ms' where "fld ''messages'' (project_allowed_fields ChatDialect demo_chat demo_row) = JArr ms'"
    "length ms' = length ?ms"
    "fld ''reasoning_content'' (ms' ! 0) =
       (if fld ''reasoning_content'' (?ms ! 0) = JUndef \<and> replayed_text (?ms ! 0) \<noteq> []
           \<and> List.member fireworks_wire_providers (rw_provider demo_row) \<and> fld ''role'' (?ms ! 0) = JStr ''assistant''
        then JStr (replayed_text (?ms ! 0)) else fld ''reasoning_content'' (?ms ! 0))"
    using chat_messages_projected [OF 1 2 3, of demo_row] 4 by (metis zero_less_numeral)
  then show ?thesis using 4 5 6 7 8 by auto
qed

end
