(* ===== verification/ResponsesGate.thy ===== *)
theory ResponsesGate
  imports Projection
begin

text \<open>
  The Responses dialect of \<open>enclave/src/eligibility.mjs\<close>: its gate, the pass-through body, and
  \<open>evaluateDirectEligibility\<close>, which picks the gate by the path of the request.
\<close>

definition responses_direct_providers :: "string list" where
  "responses_direct_providers = [''bedrock'', ''openai'']"

definition allowed_responses_fields :: "string list" where
  "allowed_responses_fields =
     [''model'', ''input'', ''instructions'', ''stream'', ''max_output_tokens'', ''tools'', ''tool_choice'',
      ''parallel_tool_calls'', ''reasoning'', ''text'', ''include'', ''prompt_cache_key'', ''temperature'',
      ''top_p'', ''user'', ''safety_identifier'', ''metadata'', ''client_metadata'']"

definition responses_min_max_output_tokens :: nat where
  "responses_min_max_output_tokens = 16"

definition responses_forwarded_fields :: "string list" where
  "responses_forwarded_fields =
     [''input'', ''instructions'', ''max_output_tokens'', ''tools'', ''tool_choice'', ''parallel_tool_calls'',
      ''reasoning'', ''text'', ''prompt_cache_key'']"

definition responses_tool_keys :: "(string \<times> string list) list" where
  "responses_tool_keys =
     [(''function'', [''type'', ''name'', ''description'', ''parameters'', ''strict'']),
      (''custom'', [''type'', ''name'', ''description'', ''format'']),
      (''namespace'', [''type'', ''name'', ''description'', ''tools''])]"

definition responses_function_tool_keys :: "string list" where
  "responses_function_tool_keys = [''type'', ''name'', ''description'', ''parameters'', ''strict'']"

definition responses_item_keys :: "(string \<times> string list) list" where
  "responses_item_keys =
     [(''message'', [''type'', ''role'', ''content'', ''id'', ''status'', ''phase'']),
      (''function_call'', [''type'', ''call_id'', ''name'', ''arguments'', ''id'', ''status'', ''namespace'']),
      (''function_call_output'', [''type'', ''call_id'', ''output'', ''id'', ''status'']),
      (''custom_tool_call'', [''type'', ''call_id'', ''name'', ''input'', ''id'', ''status'', ''namespace'']),
      (''custom_tool_call_output'', [''type'', ''call_id'', ''output'', ''id'', ''status''])]"

definition responses_reasoning_summaries :: "string list" where
  "responses_reasoning_summaries = [''auto'', ''concise'', ''detailed'']"

definition responses_text_formats :: "string list" where
  "responses_text_formats = [''text'', ''json_object'', ''json_schema'']"

definition responses_verbosity_values :: "string list" where
  "responses_verbosity_values = [''low'', ''medium'', ''high'']"

definition responses_image_media :: "string list" where
  "responses_image_media = [''png'', ''jpeg'', ''webp'']"

definition responses_service_tiers :: "string list" where
  "responses_service_tiers = [''auto'', ''default'', ''flex'', ''priority'']"

definition is_responses_web_search_tool :: "jsv \<Rightarrow> bool" where
  "is_responses_web_search_tool t =
     (case fld ''type'' t of
        JStr s \<Rightarrow> starts_with s ''web_search'' \<or> s = ''openrouter:web_search'' | _ \<Rightarrow> False)"

definition is_responses_data_image :: "jsv \<Rightarrow> bool" where
  "is_responses_data_image v =
     (case v of
        JStr url \<Rightarrow> media_of responses_image_media url \<noteq> None
          \<and> int (length url) \<le> max_image_data_uri_chars
          \<and> is_canonical_base64 (after_marker '';base64,'' url)
      | _ \<Rightarrow> False)"

text \<open>\<open>undefined\<close> or \<open>null\<close>: the API's own "unset".\<close>

definition unset :: "jsv \<Rightarrow> bool" where
  "unset v \<longleftrightarrow> v = JUndef \<or> v = JNull"

subsection \<open>Items and tools\<close>

text \<open>A part, a content or an item is refused, or admitted with the characters of its images.\<close>

type_synonym item_verdict = "refusal + nat"

definition check_responses_part :: "jsv \<Rightarrow> bool \<Rightarrow> bool \<Rightarrow> item_verdict" where
  "check_responses_part part allow_images assistant =
     (if \<not> typeof_object part then Inl (bail ''malformed_messages'')
      else case fld ''type'' part of
        JStr t \<Rightarrow>
          if t = ''input_text'' then
            (if \<not> assistant \<and> is_str (fld ''text'' part) then Inr 0 else Inl (bail ''malformed_messages''))
          else if t = ''output_text'' then
            (if assistant \<and> is_str (fld ''text'' part) then Inr 0 else Inl (bail ''malformed_messages''))
          else if t = ''refusal'' then
            (if assistant \<and> is_str (fld ''refusal'' part) then Inr 0 else Inl (bail ''malformed_messages''))
          else if t = ''input_image'' then
            (if assistant \<or> \<not> allow_images \<or> fld ''file_id'' part \<noteq> JUndef
                \<or> \<not> is_responses_data_image (fld ''image_url'' part) then Inl (bail ''non_text_content'')
             else if fld ''detail'' part \<noteq> JUndef
                \<and> \<not> str_in [''auto'', ''low'', ''high''] (fld ''detail'' part) then
               Inl (bail_at ''unmappable_field'' ''input_image.detail'')
             else Inr (length (str_of (fld ''image_url'' part))))
          else Inl (bail ''non_text_content'')
      | _ \<Rightarrow> Inl (bail ''non_text_content''))"

fun sum_parts :: "jsv list \<Rightarrow> bool \<Rightarrow> bool \<Rightarrow> item_verdict" where
  "sum_parts [] allow_images assistant = Inr 0"
| "sum_parts (p # ps) allow_images assistant =
     bind_js (check_responses_part p allow_images assistant)
       (\<lambda>n. bind_js (sum_parts ps allow_images assistant) (\<lambda>m. Inr (n + m)))"

definition check_responses_parts :: "jsv \<Rightarrow> bool \<Rightarrow> bool \<Rightarrow> item_verdict" where
  "check_responses_parts content allow_images assistant =
     (case content of
        JStr s \<Rightarrow> Inr 0
      | JArr ps \<Rightarrow> sum_parts ps allow_images assistant
      | _ \<Rightarrow> Inl (bail ''malformed_messages''))"

definition item_type :: "jsv \<Rightarrow> jsv" where
  "item_type item =
     (if fld ''type'' item = JUndef \<and> is_str (fld ''role'' item) then JStr ''message'' else fld ''type'' item)"

definition row_takes_images :: "row \<Rightarrow> bool" where
  "row_takes_images w \<longleftrightarrow> rw_supports_image w \<and> List.member image_direct_providers (rw_provider w)"

text \<open>The members of an item whose type and keys are cleared.\<close>

definition check_item_body :: "string \<Rightarrow> jsv \<Rightarrow> row \<Rightarrow> item_verdict" where
  "check_item_body type item w =
     (if type = ''message'' then
        (if \<not> str_in [''user'', ''system'', ''developer'', ''assistant''] (fld ''role'' item) then
           Inl (bail ''malformed_messages'')
         else check_responses_parts (fld ''content'' item)
                (fld ''role'' item = JStr ''user'' \<and> row_takes_images w)
                (fld ''role'' item = JStr ''assistant''))
      else if type = ''function_call'' then
        (if is_str (fld ''call_id'' item) \<and> is_str (fld ''name'' item) \<and> is_str (fld ''arguments'' item)
         then Inr 0 else Inl (bail ''malformed_messages''))
      else if type = ''custom_tool_call'' then
        (if is_str (fld ''call_id'' item) \<and> is_str (fld ''name'' item) \<and> is_str (fld ''input'' item)
         then Inr 0 else Inl (bail ''malformed_messages''))
      else if \<not> is_str (fld ''call_id'' item) then Inl (bail ''malformed_messages'')
      else check_responses_parts (fld ''output'' item) (row_takes_images w) False)"

text \<open>An item has at least its \<open>type\<close> key when the type is data, so a type that
  \<open>Object.prototype\<close> defines reaches \<open>allowedKeys.has\<close>, which is not a function there.\<close>

definition check_responses_item :: "jsv \<Rightarrow> row \<Rightarrow> js_error + item_verdict" where
  "check_responses_item item w =
     (if \<not> is_obj item then Inr (Inl (bail ''malformed_messages''))
      else case item_type item of
        JStr t \<Rightarrow>
          if t = ''reasoning'' then Inr (Inl (bail_at ''unmappable_field'' ''input.reasoning''))
          else (case table_get responses_item_keys t of
              Missing \<Rightarrow> Inr (Inl (bail_at ''unmappable_field'' (''input.'' @ take 40 t)))
            | Inherited \<Rightarrow> Inl TypeError
            | Own keys \<Rightarrow>
                (case List.find (\<lambda>k. \<not> List.member keys k) (obj_keys item) of
                   Some k \<Rightarrow> Inr (Inl (bail_at ''unsupported_message_field'' k))
                 | None \<Rightarrow> Inr (check_item_body t item w)))
      | _ \<Rightarrow> Inr (Inl (bail_at ''unmappable_field'' ''input.unknown'')))"

definition check_inner_tool :: "jsv \<Rightarrow> string option" where
  "check_inner_tool inner =
     (if fld ''type'' inner \<noteq> JStr ''function'' \<or> \<not> is_str (fld ''name'' inner) then Some ''tools.namespace''
      else map_option (\<lambda>k. ''tools.namespace.'' @ take 40 k)
             (List.find (\<lambda>k. \<not> List.member responses_function_tool_keys k) (obj_keys inner)))"

text \<open>A tool is admitted (\<open>None\<close>) or refused at a field.\<close>

definition check_responses_tool :: "jsv \<Rightarrow> js_error + string option" where
  "check_responses_tool tool =
     (case fld ''type'' tool of
        JStr t \<Rightarrow>
          (case table_get responses_tool_keys t of
             Missing \<Rightarrow> Inr (Some (''tools.'' @ take 40 t))
           | entry \<Rightarrow>
               if \<not> is_str (fld ''name'' tool) \<or> fld ''name'' tool = JStr [] then Inr (Some (''tools.'' @ t))
               else (case entry of
                 Own keys \<Rightarrow>
                   Inr (case List.find (\<lambda>k. \<not> List.member keys k) (obj_keys tool) of
                      Some k \<Rightarrow> Some (''tools.'' @ t @ ''.'' @ take 40 k)
                    | None \<Rightarrow>
                        if t = ''namespace'' then
                          (case fld ''tools'' tool of
                             JArr inner \<Rightarrow> first_some_of check_inner_tool inner
                           | _ \<Rightarrow> Some ''tools.namespace'')
                        else None)
               | _ \<Rightarrow> Inl TypeError))
      | _ \<Rightarrow> Inr (Some ''tools.unknown''))"

subsection \<open>The gate\<close>

definition responses_identity_check :: "jsv \<Rightarrow> string list \<Rightarrow> row \<Rightarrow> check" where
  "responses_identity_check payload model_suffixes w =
     (case fld ''model'' payload of
        JStr m \<Rightarrow>
          if m = [] then stop (bail ''model_not_in_catalog'')
          else if is_free (JStr m) then stop (bail ''free_model'')
          else if is_router_model m then stop (bail ''auto_router_model'')
          else if model_suffixes \<noteq> [] then stop (bail ''or_routing_suffix'')
          else if fld ''zdr'' (fld ''provider'' payload) = JTrue \<and> \<not> is_zdr_row (Some w) then
            stop (bail ''zdr_requested'')
          else stop_if (has_web_plugin payload
                 \<or> list_ex is_responses_web_search_tool (elems (fld ''tools'' payload)))
               (bail ''web_search_requires_openrouter'')
      | _ \<Rightarrow> stop (bail ''model_not_in_catalog''))"

definition responses_sweep_key :: "jsv \<Rightarrow> row \<Rightarrow> string \<Rightarrow> check" where
  "responses_sweep_key payload w key =
     (if List.member allowed_responses_fields key \<or> List.member ignored_fields key
         \<or> List.member unhonored_client_fields key then pass
      else if fld key payload = JUndef then pass
      else sweep_provider payload (Some w) key)"

definition include_check :: "jsv \<Rightarrow> check" where
  "include_check v =
     (if unset v then pass
      else case v of
        JArr xs \<Rightarrow>
          if xs = [] then pass
          else stop (bail_at ''unmappable_field''
                 (if List.member xs (JStr ''reasoning.encrypted_content'')
                  then ''include.reasoning.encrypted_content'' else ''include''))
      | _ \<Rightarrow> stop (bail_at ''unmappable_field'' ''include''))"

definition responses_reasoning_check :: "jsv \<Rightarrow> check" where
  "responses_reasoning_check v =
     (if unset v then pass
      else if \<not> is_obj v then stop (bail_at ''unmappable_field'' ''reasoning'')
      else case List.find (\<lambda>k. k \<noteq> ''effort'' \<and> k \<noteq> ''summary'') (obj_keys v) of
        Some k \<Rightarrow> stop (bail_at ''unmappable_field'' (''reasoning.'' @ take 40 k))
      | None \<Rightarrow>
          if \<not> unset (fld ''effort'' v) \<and> \<not> is_str (fld ''effort'' v) then
            stop (bail_at ''unmappable_field'' ''reasoning.effort'')
          else stop_if (\<not> unset (fld ''summary'' v)
                 \<and> \<not> str_in responses_reasoning_summaries (fld ''summary'' v))
               (bail_at ''unmappable_field'' ''reasoning.summary''))"

definition text_check :: "jsv \<Rightarrow> check" where
  "text_check v =
     (if unset v then pass
      else if \<not> is_obj v then stop (bail_at ''unmappable_field'' ''text'')
      else case List.find (\<lambda>k. k \<noteq> ''format'' \<and> k \<noteq> ''verbosity'') (obj_keys v) of
        Some k \<Rightarrow> stop (bail_at ''unmappable_field'' (''text.'' @ take 40 k))
      | None \<Rightarrow>
          if \<not> unset (fld ''verbosity'' v) \<and> \<not> str_in responses_verbosity_values (fld ''verbosity'' v) then
            stop (bail_at ''unmappable_field'' ''text.verbosity'')
          else stop_if (\<not> unset (fld ''format'' v)
                 \<and> \<not> str_in responses_text_formats (fld ''type'' (fld ''format'' v)))
               (bail_at ''unmappable_field'' ''text.format''))"

text \<open>The items in order; \<open>seen\<close> is the image characters of those before.\<close>

fun items_check :: "row \<Rightarrow> nat \<Rightarrow> jsv list \<Rightarrow> check" where
  "items_check w seen [] = pass"
| "items_check w seen (item # items) =
     bind_js (check_responses_item item w) (\<lambda>verdict.
       case verdict of
         Inl refusal \<Rightarrow> stop refusal
       | Inr chars \<Rightarrow>
           if max_total_image_data_uri_chars < int (seen + chars) then stop (bail ''non_text_content'')
           else items_check w (seen + chars) items)"

definition input_check :: "row \<Rightarrow> jsv \<Rightarrow> check" where
  "input_check w input =
     (case input of
        JStr s \<Rightarrow> stop_if (s = []) (bail ''malformed_messages'')
      | JArr items \<Rightarrow> if items = [] then stop (bail ''malformed_messages'') else items_check w 0 items
      | _ \<Rightarrow> stop (bail ''malformed_messages''))"

definition tool_step :: "jsv \<Rightarrow> check" where
  "tool_step tool =
     bind_js (check_responses_tool tool) (\<lambda>r.
       case r of None \<Rightarrow> pass | Some field \<Rightarrow> stop (bail_at ''unmappable_field'' field))"

definition tools_check :: "jsv \<Rightarrow> check" where
  "tools_check v =
     (if unset v then pass
      else case v of
        JArr ts \<Rightarrow> first_stop tool_step ts
      | _ \<Rightarrow> stop (bail_at ''unmappable_field'' ''tools''))"

definition choice_check :: "jsv \<Rightarrow> check" where
  "choice_check v =
     stop_if (\<not> unset v \<and> \<not> str_in [''auto'', ''none'', ''required''] v
        \<and> \<not> (str_in [''function'', ''custom''] (fld ''type'' v) \<and> is_str (fld ''name'' v)))
       (bail_at ''unmappable_field'' ''tool_choice'')"

definition responses_row_check :: "jsv \<Rightarrow> row \<Rightarrow> check" where
  "responses_row_check payload w =
     (if \<not> is_row_enabled w then stop (bail ''model_disabled'')
      else stop_if (elems (fld ''tools'' payload) \<noteq> [] \<and> \<not> rw_supports_tools w)
             (bail ''tools_unsupported_by_model''))"

definition evaluate_responses :: "jsv \<Rightarrow> string list \<Rightarrow> row option \<Rightarrow> js_error + verdict" where
  "evaluate_responses payload model_suffixes r =
     finish (case r of
        None \<Rightarrow> stop (bail ''endpoint_not_chat_completions'')
      | Some w \<Rightarrow>
          if \<not> List.member responses_direct_providers (rw_provider w) then
            stop (bail ''endpoint_not_chat_completions'')
          else or_else (responses_identity_check payload model_suffixes w)
            (or_else (first_stop (responses_sweep_key payload w) (obj_keys payload))
            (or_else (include_check (fld ''include'' payload))
            (or_else (responses_reasoning_check (fld ''reasoning'' payload))
            (or_else (text_check (fld ''text'' payload))
            (or_else (stop_if (\<not> unset (fld ''instructions'' payload) \<and> \<not> is_str (fld ''instructions'' payload))
                        (bail_at ''unmappable_field'' ''instructions''))
            (or_else (input_check w (fld ''input'' payload))
            (or_else (tools_check (fld ''tools'' payload))
            (or_else (choice_check (fld ''tool_choice'' payload))
              (responses_row_check payload w))))))))))"

definition evaluate_direct_eligibility ::
    "jsv \<Rightarrow> string \<Rightarrow> string list \<Rightarrow> row option \<Rightarrow> js_error + verdict" where
  "evaluate_direct_eligibility payload path model_suffixes r =
     (if path = ''/responses'' then evaluate_responses payload model_suffixes r
      else if path \<noteq> ''/chat/completions'' \<and> path \<noteq> ''/messages'' then
        finish (stop (bail ''endpoint_not_chat_completions''))
      else evaluate_chat_or_messages (if path = ''/messages'' then MessagesDialect else ChatDialect)
             payload model_suffixes r)"

subsection \<open>The pass-through body\<close>

datatype responses_projection = PassBody jsv | SkipCandidate string string

fun forward_fields :: "jsv \<Rightarrow> string list \<Rightarrow> jsv \<Rightarrow> jsv" where
  "forward_fields payload [] body = body"
| "forward_fields payload (k # ks) body =
     forward_fields payload ks (if unset (fld k payload) then body else set_fld k (fld k payload) body)"

text \<open>\<open>v < n\<close> for a value that \<open>typeof\<close> says is a number: an unordered NaN is not below.\<close>

definition num_below :: "jsv \<Rightarrow> rat \<Rightarrow> bool" where
  "num_below v n = (case v of JNum (Fin q) \<Rightarrow> q < n | JNum NegInf \<Rightarrow> True | _ \<Rightarrow> False)"

definition add_reasoning_mode :: "row \<Rightarrow> jsv \<Rightarrow> jsv" where
  "add_reasoning_mode w body =
     (if truthy (rw_reasoning_mode w)
      then set_fld ''reasoning''
             (JObj (AList.update ''mode'' (rw_reasoning_mode w) (spread (fld ''reasoning'' body)))) body
      else body)"

definition project_responses_request :: "jsv \<Rightarrow> row \<Rightarrow> responses_projection" where
  "project_responses_request payload w =
     (let body = forward_fields payload responses_forwarded_fields
                   (JObj [(''model'', rw_upstream_model w), (''stream'', JBool (fld ''stream'' payload = JTrue)),
                          (''store'', JFalse)])
      in if num_below (fld ''max_output_tokens'' body) (of_nat responses_min_max_output_tokens) then
           SkipCandidate ''unmappable_field'' ''max_output_tokens''
         else if truthy (rw_service_tier w) then
           (if \<not> str_in responses_service_tiers (rw_service_tier w) then
              SkipCandidate ''unmappable_field'' ''service_tier''
            else PassBody (add_reasoning_mode w (set_fld ''service_tier'' (rw_service_tier w) body)))
         else PassBody (add_reasoning_mode w body))"

subsection \<open>When the gate throws\<close>

lemma own_not_inherited: "table_get t k = Inherited \<longleftrightarrow> map_of t k = None \<and> k \<in> set proto_members"
  by (simp add: table_get_def split: option.split)

lemma no_proto_item_type: "k \<in> set proto_members \<Longrightarrow> map_of responses_item_keys k = None \<and> k \<noteq> ''reasoning''"
proof -
  have "list_all (\<lambda>k. map_of responses_item_keys k = None \<and> k \<noteq> ''reasoning'') proto_members" by code_simp
  then show "k \<in> set proto_members \<Longrightarrow> ?thesis" by (simp add: list_all_iff)
qed

lemma no_proto_tool_type: "k \<in> set proto_members \<Longrightarrow> map_of responses_tool_keys k = None"
proof -
  have "list_all (\<lambda>k. map_of responses_tool_keys k = None) proto_members" by code_simp
  then show "k \<in> set proto_members \<Longrightarrow> ?thesis" by (simp add: list_all_iff)
qed

definition proto_typed :: "jsv \<Rightarrow> bool" where
  "proto_typed v \<longleftrightarrow> (\<exists>t \<in> set proto_members. fld ''type'' v = JStr t)"

lemma item_throws:
  "check_responses_item item w = Inl e \<longleftrightarrow> e = TypeError \<and> proto_typed item"
proof -
  have m: "''message'' \<notin> set proto_members" by code_simp
  have obj: "is_obj item" if "fld ''type'' item = JStr t" for t using that by (cases item) simp_all
  show ?thesis
  proof (cases "item_type item")
    case (JStr t)
    have "table_get responses_item_keys t = Inherited \<and> t \<noteq> ''reasoning'' \<and> is_obj item \<longleftrightarrow> proto_typed item"
      using JStr m obj no_proto_item_type [of t]
      by (auto simp: proto_typed_def own_not_inherited item_type_def split: if_splits)
    then show ?thesis
      using JStr by (auto simp: check_responses_item_def split: table_entry.split option.split)
  qed (auto simp: check_responses_item_def proto_typed_def item_type_def split: if_splits)
qed

lemma tool_throws:
  "check_responses_tool tool = Inl e \<longleftrightarrow>
     e = TypeError \<and> proto_typed tool \<and> is_str (fld ''name'' tool) \<and> fld ''name'' tool \<noteq> JStr []"
proof (cases "fld ''type'' tool")
  case (JStr t)
  have "table_get responses_tool_keys t = Inherited \<longleftrightarrow> proto_typed tool"
    using JStr no_proto_tool_type [of t] by (auto simp: proto_typed_def own_not_inherited)
  then show ?thesis
    using JStr by (auto simp: check_responses_tool_def split: table_entry.split option.split)
qed (auto simp: check_responses_tool_def proto_typed_def)

lemma not_Inl: "(\<And>e. m \<noteq> Inl e) \<Longrightarrow> \<exists>x. m = Inr x"
  by (cases m) auto

lemma no_throw_iff: "no_throw m \<longleftrightarrow> (\<forall>e. m \<noteq> Inl e)"
  by (cases m) (auto simp: no_throw_def)

lemma items_no_throw: "\<not> list_ex proto_typed items \<Longrightarrow> no_throw (items_check w seen items)"
proof (induction items arbitrary: seen)
  case (Cons item items)
  then obtain v where "check_responses_item item w = Inr v"
    using item_throws [of item w] by (cases "check_responses_item item w") auto
  then show ?case using Cons by (auto split: sum.split)
qed simp

lemma tools_no_throw: "\<not> list_ex proto_typed (elems v) \<Longrightarrow> no_throw (tools_check v)"
proof -
  assume typed: "\<not> list_ex proto_typed (elems v)"
  have "no_throw (tool_step t)" if "\<not> proto_typed t" for t
  proof -
    have "check_responses_tool t \<noteq> Inl e" for e using that by (simp add: tool_throws)
    then obtain x where "check_responses_tool t = Inr x" using not_Inl by blast
    then show ?thesis by (simp add: tool_step_def split: option.split)
  qed
  then have "no_throw (first_stop tool_step (elems v))"
    using typed by (intro no_throw_first_stop) (simp add: list_ex_iff)
  then show ?thesis by (cases v) (simp_all add: tools_check_def)
qed

lemma responses_no_throw:
  assumes "\<And>w. r = Some w \<Longrightarrow> rw_provider w \<notin> set proto_members"
    and "\<not> list_ex proto_typed (elems (fld ''input'' p))" and "\<not> list_ex proto_typed (elems (fld ''tools'' p))"
  shows "\<exists>v. evaluate_responses p suffixes r = Inr v"
proof -
  have if_no_throw: "no_throw (if b then x else y)" if "no_throw x" "no_throw y" for b x y
    using that by simp
  have identity: "no_throw (responses_identity_check p suffixes w)" for w
    by (simp add: responses_identity_check_def split: jsv.split)
  have sweep: "no_throw (responses_sweep_key p w k)" if "r = Some w" for w k
    using absorbable_no_throw [of r "fld ''provider'' p", OF assms(1)] that
    by (auto simp: responses_sweep_key_def sweep_provider_def)
  have checks: "no_throw (include_check v)" "no_throw (responses_reasoning_check v)" "no_throw (text_check v)"
    "no_throw (choice_check v)" "no_throw (responses_row_check p w)" for v w
    by (simp_all add: include_check_def responses_reasoning_check_def text_check_def choice_check_def
      responses_row_check_def split: jsv.split option.split)
  have input: "no_throw (input_check w (fld ''input'' p))" for w
  proof (cases "fld ''input'' p")
    case (JArr items)
    then show ?thesis using items_no_throw [of items w 0] assms(2) by (simp add: input_check_def)
  qed (simp_all add: input_check_def)
  show ?thesis
  proof (cases r)
    case None
    then show ?thesis by (simp add: evaluate_responses_def no_throw_finish)
  next
    case (Some w)
    then show ?thesis
      unfolding evaluate_responses_def Some option.case
      by (intro no_throw_finish if_no_throw no_throw_or_else no_throw_first_stop identity sweep [OF Some] checks input
        tools_no_throw assms(3) no_throw_simps)
  qed
qed



lemma bare_item_refused: "check_responses_item (JObj [(''type'', JStr t)]) w \<noteq> Inr (Inr chars)"
  by (auto simp: check_responses_item_def item_type_def check_item_body_def str_in_def
      split: table_entry.split option.split)

text \<open>On a row that speaks the Responses dialect, a request with an admissible model whose first input
  item has a type named like a member of \<open>Object.prototype\<close> makes the gate throw a \<open>TypeError\<close>
  where every other unknown type is a refusal.\<close>

theorem responses_item_type_throws:
  assumes "List.member responses_direct_providers (rw_provider w)"
    and "m \<noteq> []" and "\<not> is_free (JStr m)" and "\<not> is_router_model m"
    and "p = JObj [(''model'', JStr m), (''input'', JArr (JObj [(''type'', JStr t)] # items))]"
  shows "evaluate_direct_eligibility p ''/responses'' [] (Some w) = Inl TypeError \<longleftrightarrow>
     t \<in> set proto_members"
proof -
  let ?item = "JObj [(''type'', JStr t)]"
  have id: "responses_identity_check p [] w = pass"
    using assms(2-4) by (simp add: assms(5) responses_identity_check_def has_web_plugin_def stop_if_def)
  have "List.member allowed_responses_fields ''model''" "List.member allowed_responses_fields ''input''"
    by code_simp+
  then have sweep: "first_stop (responses_sweep_key p w) (obj_keys p) = pass"
    by (simp add: assms(5) obj_keys_def spread_def responses_sweep_key_def or_else_def pass_def)
  have rest: "include_check (fld ''include'' p) = pass" "responses_reasoning_check (fld ''reasoning'' p) = pass"
    "text_check (fld ''text'' p) = pass" "unset (fld ''instructions'' p)"
    "fld ''input'' p = JArr (?item # items)"
    by (simp_all add: assms(5) unset_def include_check_def responses_reasoning_check_def text_check_def)
  show ?thesis
  proof (cases "t \<in> set proto_members")
    case True
    then have "check_responses_item ?item w = Inl TypeError"
      by (auto simp: item_throws proto_typed_def)
    then show ?thesis
      using True assms(1) id sweep rest
      by (simp add: evaluate_direct_eligibility_def evaluate_responses_def finish_def or_else_def input_check_def
        stop_if_def pass_def)
  next
    case False
    then have "check_responses_item ?item w \<noteq> Inl TypeError"
      by (auto simp: item_throws proto_typed_def)
    then obtain refusal where "check_responses_item ?item w = Inr (Inl refusal)"
      using bare_item_refused [of t w] not_Inl [of "check_responses_item ?item w"] False
      by (metis item_throws old.sum.exhaust)
    then have "input_check w (fld ''input'' p) = stop refusal"
      by (simp add: rest(5) input_check_def)
    then show ?thesis
      using False assms(1) id sweep rest(1-4)
      by (simp add: evaluate_direct_eligibility_def evaluate_responses_def finish_def or_else_def
        stop_if_def stop_def pass_def split: prod.split)
  qed
qed

theorem responses_item_type_throws_witness:
  "evaluate_direct_eligibility
     (JObj [(''model'', JStr ''gpt''), (''input'', JArr [JObj [(''type'', JStr ''constructor'')]])])
     ''/responses'' [] (Some (demo_row\<lparr>rw_provider := ''openai''\<rparr>)) = Inl TypeError"
proof -
  have 1: "List.member responses_direct_providers (rw_provider (demo_row\<lparr>rw_provider := ''openai''\<rparr>))"
    and 2: "''gpt'' \<noteq> []" "\<not> is_free (JStr ''gpt'')" "\<not> is_router_model ''gpt''"
    and 3: "''constructor'' \<in> set proto_members" by code_simp+
  show ?thesis using responses_item_type_throws [OF 1 2 refl, of "''constructor''" "[]"] 3 by blast
qed

subsection \<open>What an admitted Responses request satisfies\<close>

lemma evaluate_responses_eligible:
  assumes "evaluate_responses p suffixes r = Inr Eligible"
  obtains w where "r = Some w" and "List.member responses_direct_providers (rw_provider w)"
    and "responses_identity_check p suffixes w = Inr None"
    and "\<forall>k \<in> set (obj_keys p). responses_sweep_key p w k = Inr None"
    and "include_check (fld ''include'' p) = Inr None"
    and "responses_reasoning_check (fld ''reasoning'' p) = Inr None"
    and "input_check w (fld ''input'' p) = Inr None" and "tools_check (fld ''tools'' p) = Inr None"
    and "responses_row_check p w = Inr None"
proof (cases r)
  case None
  then show ?thesis using assms by (simp add: evaluate_responses_def finish_eligible gate_rules)
next
  case (Some w)
  then have "List.member responses_direct_providers (rw_provider w)"
    using assms by (simp add: evaluate_responses_def finish_eligible gate_rules split: if_splits)
  then show ?thesis
    using assms that [OF Some] by (simp add: Some evaluate_responses_def finish_eligible gate_rules)
qed

lemma responses_identity_pass:
  "responses_identity_check p suffixes w = Inr None \<longleftrightarrow>
     (\<exists>m. fld ''model'' p = JStr m \<and> m \<noteq> [] \<and> \<not> is_free (JStr m) \<and> \<not> is_router_model m) \<and> suffixes = []
     \<and> (fld ''zdr'' (fld ''provider'' p) = JTrue \<longrightarrow> is_zdr_row (Some w))
     \<and> \<not> has_web_plugin p \<and> \<not> list_ex is_responses_web_search_tool (elems (fld ''tools'' p))"
  by (cases "fld ''model'' p") (auto simp: responses_identity_check_def gate_rules)

lemma include_pass: "include_check v = Inr None \<longleftrightarrow> unset v \<or> v = JArr []"
  by (cases v) (auto simp: include_check_def unset_def gate_rules)

lemma item_admitted:
  assumes "check_responses_item item w = Inr (Inr n)"
  obtains t keys where "item_type item = JStr t" and "map_of responses_item_keys t = Some keys"
    and "\<forall>k \<in> set (obj_keys item). List.member keys k"
  using assms
  by (auto simp: check_responses_item_def table_get_def find_None_iff
      split: if_splits jsv.splits table_entry.splits option.splits)

text \<open>The image characters of an admitted item.\<close>

definition item_chars :: "row \<Rightarrow> jsv \<Rightarrow> nat" where
  "item_chars w item = (case check_responses_item item w of Inr (Inr n) \<Rightarrow> n | _ \<Rightarrow> 0)"

lemma items_pass:
  assumes "items_check w seen items = Inr None" and "int seen \<le> max_total_image_data_uri_chars"
  shows "(\<forall>item \<in> set items. \<exists>n. check_responses_item item w = Inr (Inr n))
    \<and> int (seen + sum_list (map (item_chars w) items)) \<le> max_total_image_data_uri_chars"
  using assms
proof (induction items arbitrary: seen)
  case (Cons item items)
  obtain v where v: "check_responses_item item w = Inr v"
    using Cons.prems(1) by (auto simp: bind_js_Inr_iff)
  then obtain n where n: "check_responses_item item w = Inr (Inr n)"
    "int (seen + n) \<le> max_total_image_data_uri_chars" "items_check w (seen + n) items = Inr None"
    using Cons.prems(1) by (cases v) (auto simp: gate_rules split: if_splits)
  then have "item_chars w item = n" by (simp add: item_chars_def)
  then show ?case using Cons.IH [OF n(3,2)] n(1) by (simp add: add.assoc)
qed simp

lemma tool_admitted:
  assumes "check_responses_tool tool = Inr None"
  obtains t where "fld ''type'' tool = JStr t" and "List.member [''function'', ''custom'', ''namespace''] t"
proof (cases "fld ''type'' tool")
  case (JStr t)
  then have "table_get responses_tool_keys t \<noteq> Missing" "table_get responses_tool_keys t \<noteq> Inherited"
    using assms by (auto simp: check_responses_tool_def split: if_splits table_entry.splits)
  then have "map_of responses_tool_keys t \<noteq> None" by (auto simp: table_get_def split: option.splits if_splits)
  then show ?thesis using JStr that by (auto simp: responses_tool_keys_def split: if_splits)
qed (use assms in \<open>simp_all add: check_responses_tool_def\<close>)


definition demo_openai_row :: row where
  "demo_openai_row = demo_row\<lparr>rw_provider := ''openai'', rw_reasoning_mode := JStr ''pro''\<rparr>"

definition demo_responses :: jsv where
  "demo_responses = JObj [(''model'', JStr ''openai/gpt''), (''stream'', JTrue), (''user'', JStr ''u''),
     (''reasoning'', JNull), (''max_output_tokens'', jnat 64),
     (''tools'', JArr [JObj [(''type'', JStr ''function''), (''name'', JStr ''f'')]]),
     (''input'', JArr [JObj [(''role'', JStr ''user''), (''content'', JStr ''hi'')]])]"

lemma demo_responses_eligible:
  "evaluate_direct_eligibility demo_responses ''/responses'' [] (Some demo_openai_row) = Inr Eligible"
  by code_simp


subsection \<open>The pass-through body\<close>

lemma is_obj_forward [simp]: "is_obj body \<Longrightarrow> is_obj (forward_fields p ks body)"
  by (induction ks arbitrary: body) simp_all

lemma fld_forward:
  "is_obj body \<Longrightarrow> fld k (forward_fields p ks body) =
     (if List.member ks k \<and> \<not> unset (fld k p) then fld k p else fld k body)"
  by (induction ks arbitrary: body) (auto simp: fld_set_fld)

lemma is_obj_add_mode [simp]: "is_obj body \<Longrightarrow> is_obj (add_reasoning_mode w body)"
  by (simp add: add_reasoning_mode_def)

lemma fld_add_mode: "is_obj body \<Longrightarrow> k \<noteq> ''reasoning'' \<Longrightarrow> fld k (add_reasoning_mode w body) = fld k body"
  by (simp add: add_reasoning_mode_def fld_set_fld)

definition forwarded :: "jsv \<Rightarrow> string \<Rightarrow> jsv" where
  "forwarded p k = (if List.member responses_forwarded_fields k \<and> \<not> unset (fld k p) then fld k p else JUndef)"

text \<open>The fields of the body before the row's own settings.\<close>

definition pass_base :: "jsv \<Rightarrow> row \<Rightarrow> jsv" where
  "pass_base p w = forward_fields p responses_forwarded_fields
     (JObj [(''model'', rw_upstream_model w), (''stream'', JBool (fld ''stream'' p = JTrue)), (''store'', JFalse)])"

lemma fld_pass_base:
  "fld k (pass_base p w) =
     (if k = ''model'' then rw_upstream_model w
      else if k = ''stream'' then JBool (fld ''stream'' p = JTrue)
      else if k = ''store'' then JFalse else forwarded p k)"
proof -
  have own: "\<not> List.member responses_forwarded_fields ''model''" "\<not> List.member responses_forwarded_fields ''stream''"
    "\<not> List.member responses_forwarded_fields ''store''" by code_simp+
  show ?thesis
    using own by (simp add: pass_base_def fld_forward forwarded_def)
qed

lemma projected_cases:
  assumes "project_responses_request p w = PassBody body"
  obtains (tier) "truthy (rw_service_tier w)" "str_in responses_service_tiers (rw_service_tier w)"
      "\<not> num_below (forwarded p ''max_output_tokens'') 16"
      "body = add_reasoning_mode w (set_fld ''service_tier'' (rw_service_tier w) (pass_base p w))"
    | (plain) "\<not> truthy (rw_service_tier w)" "\<not> num_below (forwarded p ''max_output_tokens'') 16"
      "body = add_reasoning_mode w (pass_base p w)"
proof -
  have "fld ''max_output_tokens'' (pass_base p w) = forwarded p ''max_output_tokens''"
    by (simp add: fld_pass_base)
  then show ?thesis
    using assms that
    by (simp add: project_responses_request_def responses_min_max_output_tokens_def Let_def pass_base_def
        split: if_splits)
qed

text \<open>The body of a Responses request sent to a row's provider never asks to be stored, has the row's
  model, streams exactly when the request does, carries the row's tier only when it is one the API knows,
  never a token cap below the API's minimum, adds the row's reasoning mode to the request's reasoning, and
  otherwise consists of exactly the forwarded fields of the request that are set, unchanged.\<close>

theorem responses_projection_exact:
  assumes "project_responses_request p w = PassBody body"
  shows "fld ''store'' body = JFalse \<and> fld ''model'' body = rw_upstream_model w
    \<and> fld ''stream'' body = JBool (fld ''stream'' p = JTrue)
    \<and> fld ''service_tier'' body = (if truthy (rw_service_tier w) then rw_service_tier w else JUndef)
    \<and> (truthy (rw_service_tier w) \<longrightarrow> str_in responses_service_tiers (rw_service_tier w))
    \<and> \<not> num_below (fld ''max_output_tokens'' body) 16
    \<and> (\<not> truthy (rw_reasoning_mode w) \<longrightarrow> fld ''reasoning'' body = forwarded p ''reasoning'')
    \<and> (truthy (rw_reasoning_mode w) \<longrightarrow> fld ''mode'' (fld ''reasoning'' body) = rw_reasoning_mode w
         \<and> fld ''effort'' (fld ''reasoning'' body) = fld ''effort'' (forwarded p ''reasoning'')
         \<and> fld ''summary'' (fld ''reasoning'' body) = fld ''summary'' (forwarded p ''reasoning''))
    \<and> (\<forall>k. \<not> List.member [''store'', ''model'', ''stream'', ''service_tier'', ''reasoning''] k
         \<longrightarrow> fld k body = forwarded p k)"
proof -
  have digits: "\<not> list_all is_digit ''mode''" "\<not> list_all is_digit ''effort''" "\<not> list_all is_digit ''summary''"
    by code_simp+
  note mode = fld_update_spread [OF digits(1)] fld_update_spread [OF digits(2)] fld_update_spread [OF digits(3)]
  have obj: "is_obj (pass_base p w)" by (simp add: pass_base_def)
  have tier_field: "forwarded p ''service_tier'' = JUndef"
  proof -
    have "\<not> List.member responses_forwarded_fields ''service_tier''" by code_simp
    then show ?thesis by (simp add: forwarded_def)
  qed
  from assms show ?thesis
  proof (cases rule: projected_cases)
    case tier
    then show ?thesis
      using obj by (auto simp: fld_add_mode fld_set_fld fld_pass_base add_reasoning_mode_def
        mode simp del: fld.simps)
  next
    case plain
    then show ?thesis
      using obj tier_field by (auto simp: fld_add_mode fld_set_fld fld_pass_base add_reasoning_mode_def
        mode simp del: fld.simps)
  qed
qed

theorem responses_projection_exact_witness:
  "\<exists>body. project_responses_request demo_responses demo_openai_row = PassBody body \<and> fld ''store'' body = JFalse
     \<and> fld ''user'' body = JUndef \<and> fld ''mode'' (fld ''reasoning'' body) = JStr ''pro''"
proof -
  have none: "\<not> truthy (rw_service_tier demo_openai_row)" by (simp add: demo_openai_row_def demo_row_def)
  have "fld ''max_output_tokens'' (pass_base demo_responses demo_openai_row) = JNum (Fin 64)"
    by (simp add: fld_pass_base forwarded_def responses_forwarded_fields_def demo_responses_def unset_def)
  then have pb: "project_responses_request demo_responses demo_openai_row =
      PassBody (add_reasoning_mode demo_openai_row (pass_base demo_responses demo_openai_row))"
    using none by (simp add: project_responses_request_def responses_min_max_output_tokens_def pass_base_def
      num_below_def Let_def)
  have "\<not> List.member responses_forwarded_fields ''user''" by code_simp
  then have "forwarded demo_responses ''user'' = JUndef" by (simp add: forwarded_def)
  moreover have "rw_reasoning_mode demo_openai_row = JStr ''pro''" by (simp add: demo_openai_row_def)
  ultimately show ?thesis
    using responses_projection_exact [OF pb] pb by simp
qed

end
