(* ===== verification/Upstreams.thy ===== *)
theory Upstreams
  imports ResponsesGate UpstreamBinding WebSearch
begin

text \<open>
  The direct-provider request builder of \<open>enclave/src/upstreams.mjs\<close>: candidates as
  horse-power sends them, their normalisation, Venice's wire shape, the replica affinity key and
  \<open>buildDirectRequest\<close>. The tunnel sockets of \<open>createTunnelFetch\<close> are not modelled.
\<close>

subsection \<open>Candidates\<close>

text \<open>A provider that is no string belongs to no provider set; it is the empty name here.\<close>

definition candidate_to_row :: "jsv \<Rightarrow> row" where
  "candidate_to_row c =
     \<lparr>rw_provider = str_of (fld ''provider'' c),
      rw_upstream_model = fld ''upstream_model'' c,
      rw_service_tier = (if truthy (fld ''service_tier'' c) then fld ''service_tier'' c else JStr []),
      rw_supports_tools = (fld ''supports_tools'' c = JTrue),
      rw_supports_image = (fld ''supports_image_input'' c = JTrue),
      rw_enabled = True, rw_enabled_override = None,
      rw_zdr = (if has_fld ''zdr'' c then Some (fld ''zdr'' c = JTrue) else None),
      rw_reasoning_mode = (if fld ''reasoning_mode'' c = JStr ''pro'' then JStr ''pro'' else JUndef)\<rparr>"

definition is_open_router :: "jsv \<Rightarrow> bool" where
  "is_open_router c \<longleftrightarrow> fld ''provider'' c = JStr ''openrouter''"

definition open_router_candidate :: jsv where
  "open_router_candidate = JObj [(''provider'', JStr ''openrouter'')]"

definition normalize_candidates :: "jsv \<Rightarrow> jsv list" where
  "normalize_candidates upstreams =
     (let list = elems upstreams;
          fallback = (case List.find is_open_router (rev list) of Some c \<Rightarrow> c | None \<Rightarrow> open_router_candidate)
      in filter (\<lambda>c. \<not> is_open_router c) list @ [fallback])"

subsection \<open>Venice\<close>

datatype skip = Skip string "string option"

definition venice_unsupported_fields :: "string list" where
  "venice_unsupported_fields = [''logit_bias'']"

definition venice_image_media :: "string list" where
  "venice_image_media = [''png'', ''jpeg'', ''webp'']"

definition venice_default_max_images_per_message :: nat where
  "venice_default_max_images_per_message = 1"

definition is_venice_candidate :: "jsv \<Rightarrow> bool" where
  "is_venice_candidate c \<longleftrightarrow> fld ''provider'' c = JStr ''venice'' \<or> fld ''host'' c = JStr ''api.venice.ai''"

definition venice_web_search_mode :: "jsv \<Rightarrow> string option" where
  "venice_web_search_mode payload =
     (if has_web_plugin payload then Some ''on''
      else if list_ex is_web_search_server_tool (elems (fld ''tools'' payload)) then Some ''on''
      else None)"

definition venice_image_ok :: "jsv \<Rightarrow> bool" where
  "venice_image_ok part =
     (case (if is_str (fld ''image_url'' part) then fld ''image_url'' part else fld ''url'' (fld ''image_url'' part)) of
        JStr url \<Rightarrow> media_of venice_image_media url \<noteq> None
      | _ \<Rightarrow> False)"

text \<open>One message: the first bad image, or more images than the row takes.\<close>

definition venice_message_skip :: "nat \<Rightarrow> jsv \<Rightarrow> skip option" where
  "venice_message_skip max_images message =
     (case fld ''content'' message of
        JArr parts \<Rightarrow>
          let images = filter (\<lambda>p. fld ''type'' p = JStr ''image_url'') parts
          in if \<not> list_all venice_image_ok images then
               Some (Skip ''non_text_content'' (Some ''image_media_type''))
             else if max_images < length images then
               Some (Skip ''too_many_images'' (Some (num_str max_images)))
             else None
      | _ \<Rightarrow> None)"

definition venice_image_skip :: "jsv \<Rightarrow> nat \<Rightarrow> skip option" where
  "venice_image_skip messages max_images =
     (case messages of JArr ms \<Rightarrow> first_some_of (venice_message_skip max_images) ms | _ \<Rightarrow> None)"

definition venice_max_images :: "jsv \<Rightarrow> nat" where
  "venice_max_images c =
     (let n = fld ''max_images_per_message'' c
      in if num_integer n \<and> 0 \<le> num_rat n then nat \<lfloor>num_rat n\<rfloor> else venice_default_max_images_per_message)"

definition drop_search_tools :: "jsv \<Rightarrow> jsv" where
  "drop_search_tools body =
     (case fld ''tools'' body of
        JArr ts \<Rightarrow>
          let kept = filter (\<lambda>t. \<not> is_web_search_server_tool t) ts
          in if kept = [] then del_fld ''tools'' body else set_fld ''tools'' (JArr kept) body
      | _ \<Rightarrow> body)"

definition venice_parameters :: "jsv \<Rightarrow> jsv" where
  "venice_parameters payload =
     JObj ((''include_venice_system_prompt'', JFalse)
       # (case venice_web_search_mode payload of
            Some mode \<Rightarrow> [(''enable_web_search'', JStr mode), (''include_search_results_in_stream'', JTrue)]
          | None \<Rightarrow> []))"

text \<open>The shaped body, or the skip (\<open>Inl\<close>).\<close>

definition apply_venice_parameters :: "jsv \<Rightarrow> jsv \<Rightarrow> jsv \<Rightarrow> skip + jsv" where
  "apply_venice_parameters body c payload =
     (if \<not> is_venice_candidate c then Inr body
      else
        let body1 = drop_search_tools body
        in case List.find (\<lambda>k. List.member venice_unsupported_fields k) (obj_keys body1) of
             Some k \<Rightarrow> Inl (Skip ''unmappable_field'' (Some k))
           | None \<Rightarrow>
               (case venice_image_skip (fld ''messages'' body1) (venice_max_images c) of
                  Some s \<Rightarrow> Inl s
                | None \<Rightarrow> Inr (set_fld ''venice_parameters'' (venice_parameters payload) body1)))"

subsection \<open>Session affinity\<close>

text \<open>\<open>String(v)\<close> of a value that is not a string is a parameter; so is SHA-256 of a text, in hex.\<close>

definition nul :: char where "nul = char_of (0 :: nat)"

definition affinity_text :: "jsv \<Rightarrow> string" where
  "affinity_text message =
     (case fld ''content'' message of
        JStr s \<Rightarrow> s
      | JArr parts \<Rightarrow> str_join [char_of (10 :: nat)] (map (\<lambda>p. str_of (fld ''text'' p)) parts)
      | _ \<Rightarrow> [])"

definition affinity_role :: "(jsv \<Rightarrow> string) \<Rightarrow> jsv \<Rightarrow> string" where
  "affinity_role to_string message =
     (case fld ''role'' message of
        JStr s \<Rightarrow> s
      | v \<Rightarrow> if truthy v then to_string v else [])"

definition affinity_part :: "string \<Rightarrow> string \<Rightarrow> string" where
  "affinity_part role text = nul # role @ nul # num_str (length text) @ nul # text"

definition affinity_preimage :: "(jsv \<Rightarrow> string) \<Rightarrow> string \<Rightarrow> jsv list \<Rightarrow> string" where
  "affinity_preimage to_string credit_id messages =
     credit_id @ concat (map (\<lambda>m. affinity_part (affinity_role to_string m) (take 8192 (affinity_text m))) (take 2 messages))"

definition compute_session_affinity ::
    "(string \<Rightarrow> string) \<Rightarrow> (jsv \<Rightarrow> string) \<Rightarrow> string \<Rightarrow> jsv \<Rightarrow> string option" where
  "compute_session_affinity sha256_hex to_string credit_id messages =
     (case messages of
        JArr ms \<Rightarrow>
          if ms = [] then None else Some (take 32 (sha256_hex (affinity_preimage to_string credit_id ms)))
      | _ \<Rightarrow> None)"

subsection \<open>The request\<close>

text \<open>What is put on the wire: the provider it is booked under, the TLS name, the path, the credential, the
  affinity header, the body.\<close>

record spec =
  sp_direct :: bool
  sp_provider :: jsv
  sp_host :: jsv
  sp_path :: jsv
  sp_port :: nat
  sp_key :: string
  sp_affinity :: "string option"
  sp_style :: string
  sp_body :: jsv

datatype built = Skipped skip | Built spec

text \<open>\<open>ports?.[host] ?? ports?.[provider]\<close>; an unset port is zero.\<close>

definition lookup_key :: "(string \<rightharpoonup> 'a) \<Rightarrow> jsv \<Rightarrow> 'a option" where
  "lookup_key m v = (case v of JStr s \<Rightarrow> m s | _ \<Rightarrow> None)"

definition candidate_port :: "(string \<rightharpoonup> nat) \<Rightarrow> jsv \<Rightarrow> nat" where
  "candidate_port ports c =
     (case lookup_key ports (fld ''host'' c) of
        Some p \<Rightarrow> p
      | None \<Rightarrow> (case lookup_key ports (fld ''provider'' c) of Some p \<Rightarrow> p | None \<Rightarrow> 0))"

definition candidate_key :: "(string \<rightharpoonup> string) \<Rightarrow> jsv \<Rightarrow> string" where
  "candidate_key keys c = (case lookup_key keys (fld ''key_ref'' c) of Some k \<Rightarrow> k | None \<Rightarrow> [])"

definition refusal_of :: "verdict \<Rightarrow> skip option" where
  "refusal_of v = (case v of Eligible \<Rightarrow> None | Bail reason field \<Rightarrow> Some (Skip reason field))"

definition direct_affinity :: "jsv \<Rightarrow> string option \<Rightarrow> string option" where
  "direct_affinity c affinity =
     (if List.member fireworks_wire_providers (str_of (fld ''provider'' c)) \<and> affinity \<noteq> Some [] then affinity else None)"

definition build_direct_request ::
    "jsv \<Rightarrow> jsv \<Rightarrow> (string \<rightharpoonup> nat) \<Rightarrow> (string \<rightharpoonup> string) \<Rightarrow> string option \<Rightarrow> js_error + built" where
  "build_direct_request c payload ports keys affinity =
     (let port = candidate_port ports c; key = candidate_key keys c; row = candidate_to_row c
      in if port = 0 \<or> key = [] then Inr (Skipped (Skip ''no_tunnel_or_key'' None))
         else bind_js (evaluate_direct_eligibility payload ''/chat/completions'' [] (Some row)) (\<lambda>v.
           case refusal_of v of
             Some s \<Rightarrow> Inr (Skipped s)
           | None \<Rightarrow>
               Inr (case apply_venice_parameters (project_allowed_fields ChatDialect payload row) c payload of
                  Inl s \<Rightarrow> Skipped s
                | Inr body \<Rightarrow>
                    Built \<lparr>sp_direct = True, sp_provider = fld ''provider'' c, sp_host = fld ''host'' c,
                      sp_path = fld ''path'' c, sp_port = port, sp_key = key,
                      sp_affinity = direct_affinity c affinity, sp_style = ''openai'', sp_body = body\<rparr>)))"

subsection \<open>The candidate list\<close>

lemma find_open_router:
  "List.find is_open_router cs = Some c \<Longrightarrow> is_open_router c \<and> c \<in> set cs"
  by (auto simp: find_Some_iff)

lemma is_open_router_synthesised: "is_open_router open_router_candidate"
  by (simp add: is_open_router_def open_router_candidate_def)

lemma normalize_shape:
  obtains t where "normalize_candidates us = filter (\<lambda>c. \<not> is_open_router c) (elems us) @ [t]"
    and "is_open_router t" and "t \<in> set (elems us) \<or> t = open_router_candidate"
  using is_open_router_synthesised find_open_router [of "rev (elems us)"] that
  by (cases "List.find is_open_router (rev (elems us))") (auto simp: normalize_candidates_def Let_def)

lemma normalize_idem: "normalize_candidates (JArr (normalize_candidates us)) = normalize_candidates us"
proof -
  obtain t where t: "normalize_candidates us = filter (\<lambda>c. \<not> is_open_router c) (elems us) @ [t]" "is_open_router t"
    by (rule normalize_shape)
  then show ?thesis by (simp add: normalize_candidates_def Let_def)
qed

text \<open>Whatever horse-power answers, the normalised candidate list is its direct candidates in their order
  followed by exactly one OpenRouter candidate, which is one it sent or the synthesised one; normalising
  again changes nothing.\<close>

theorem open_router_terminal:
  "\<exists>direct t. normalize_candidates us = direct @ [t] \<and> is_open_router t
     \<and> direct = filter (\<lambda>c. \<not> is_open_router c) (elems us)
     \<and> (t \<in> set (elems us) \<or> t = open_router_candidate)
     \<and> normalize_candidates (JArr (normalize_candidates us)) = normalize_candidates us"
  using normalize_shape [of us] normalize_idem [of us] by metis

subsection \<open>Venice bodies\<close>

lemma first_some_of_None: "first_some_of f xs = None \<longleftrightarrow> (\<forall>x \<in> set xs. f x = None)"
  by (induction xs) (auto split: option.splits)

lemma drop_search_tools_obj [simp]: "is_obj b \<Longrightarrow> is_obj (drop_search_tools b)"
  by (simp add: drop_search_tools_def Let_def split: jsv.split)

lemma fld_drop_search_tools: "is_obj b \<Longrightarrow> k \<noteq> ''tools'' \<Longrightarrow> fld k (drop_search_tools b) = fld k b"
  by (simp add: drop_search_tools_def Let_def fld_set_fld fld_del_fld split: jsv.split)

lemma tools_drop_search_tools:
  "is_obj b \<Longrightarrow> \<not> list_ex is_web_search_server_tool (elems (fld ''tools'' (drop_search_tools b)))"
  by (cases "fld ''tools'' b") (auto simp: drop_search_tools_def Let_def fld_set_fld fld_del_fld list_ex_iff)

lemma venice_message_ok:
  "venice_message_skip n m = None \<longleftrightarrow>
     (\<forall>parts. fld ''content'' m = JArr parts \<longrightarrow>
        (let images = filter (\<lambda>p. fld ''type'' p = JStr ''image_url'') parts
         in list_all venice_image_ok images \<and> length images \<le> n))"
  by (cases "fld ''content'' m") (auto simp: venice_message_skip_def Let_def)

lemma venice_applied:
  assumes "apply_venice_parameters b c p = Inr b'" and "is_venice_candidate c" and "is_obj b"
  shows "b' = set_fld ''venice_parameters'' (venice_parameters p) (drop_search_tools b)"
    and "fld ''logit_bias'' (drop_search_tools b) = JUndef"
    and "venice_image_skip (fld ''messages'' b) (venice_max_images c) = None"
proof -
  let ?b = "drop_search_tools b"
  have none: "\<forall>k \<in> set (obj_keys ?b). \<not> List.member venice_unsupported_fields k"
    and ok: "venice_image_skip (fld ''messages'' ?b) (venice_max_images c) = None"
    and b': "b' = set_fld ''venice_parameters'' (venice_parameters p) ?b"
    using assms by (auto simp: apply_venice_parameters_def Let_def find_None_iff split: option.splits)
  show "b' = set_fld ''venice_parameters'' (venice_parameters p) ?b" by (fact b')
  have "''logit_bias'' \<notin> set (obj_keys ?b)"
    using none by (auto simp: venice_unsupported_fields_def)
  then show "fld ''logit_bias'' ?b = JUndef" using obj_keys_fld by blast
  show "venice_image_skip (fld ''messages'' b) (venice_max_images c) = None"
    using ok assms(3) by (simp add: fld_drop_search_tools)
qed

lemma refusal_of_None: "refusal_of v = None \<longleftrightarrow> v = Eligible"
  by (simp add: refusal_of_def split: verdict.split)

lemma build_direct_cases:
  assumes "build_direct_request c p ports keys affinity = Inr (Built s)"
  shows "candidate_port ports c \<noteq> 0" and "candidate_key keys c \<noteq> []"
    and "evaluate_direct_eligibility p ''/chat/completions'' [] (Some (candidate_to_row c)) = Inr Eligible"
    and "apply_venice_parameters (project_allowed_fields ChatDialect p (candidate_to_row c)) c p = Inr (sp_body s)"
    and "s = \<lparr>sp_direct = True, sp_provider = fld ''provider'' c, sp_host = fld ''host'' c,
           sp_path = fld ''path'' c, sp_port = candidate_port ports c, sp_key = candidate_key keys c,
           sp_affinity = direct_affinity c affinity, sp_style = ''openai'', sp_body = sp_body s\<rparr>"
  using assms
  by (auto simp: build_direct_request_def Let_def bind_js_Inr_iff refusal_of_None
      split: if_splits sum.splits option.splits)

lemma is_obj_project [simp]: "is_obj (project_allowed_fields ChatDialect p r)"
  by (simp add: project_allowed_fields_def chat_extras_def rewrite_messages_def Let_def split: jsv.split)

text \<open>The body built for a Venice candidate switches Venice's own system prompt off, asks Venice to
  search exactly when the request asks for a web search, carries no search tool and no logit bias, and has
  in no message more images than the candidate declares or an image format Venice refuses; every other
  field is the projection's.\<close>

theorem venice_request_shape:
  assumes "build_direct_request c p ports keys affinity = Inr (Built s)" and "is_venice_candidate c"
  shows "fld ''include_venice_system_prompt'' (fld ''venice_parameters'' (sp_body s)) = JFalse
    \<and> fld ''enable_web_search'' (fld ''venice_parameters'' (sp_body s))
        = (if requests_web_search p then JStr ''on'' else JUndef)
    \<and> \<not> list_ex is_web_search_server_tool (elems (fld ''tools'' (sp_body s)))
    \<and> fld ''logit_bias'' (sp_body s) = JUndef
    \<and> (\<forall>m \<in> set (elems (fld ''messages'' (sp_body s))). \<forall>parts. fld ''content'' m = JArr parts \<longrightarrow>
         (let images = filter (\<lambda>q. fld ''type'' q = JStr ''image_url'') parts
          in list_all venice_image_ok images \<and> length images \<le> venice_max_images c))
    \<and> (\<forall>k. k \<noteq> ''venice_parameters'' \<and> k \<noteq> ''tools'' \<longrightarrow>
         fld k (sp_body s) = fld k (project_allowed_fields ChatDialect p (candidate_to_row c)))"
proof -
  let ?b = "project_allowed_fields ChatDialect p (candidate_to_row c)"
  note v = venice_applied [OF build_direct_cases(4) [OF assms(1)] assms(2) is_obj_project]
  have obj: "is_obj (drop_search_tools ?b)" by simp
  have params: "fld ''venice_parameters'' (sp_body s) = venice_parameters p"
    unfolding v(1) using obj by (simp add: fld_set_fld)
  have kept: "fld k (sp_body s) = fld k (drop_search_tools ?b)" if "k \<noteq> ''venice_parameters''" for k
    unfolding v(1) using obj that by (simp add: fld_set_fld)
  have "\<forall>m \<in> set (elems (fld ''messages'' ?b)). venice_message_skip (venice_max_images c) m = None"
    using v(3) by (cases "fld ''messages'' ?b") (simp_all add: venice_image_skip_def first_some_of_None)
  then have "\<forall>m \<in> set (elems (fld ''messages'' (sp_body s))). venice_message_skip (venice_max_images c) m = None"
    by (simp add: kept fld_drop_search_tools)
  moreover have "fld ''enable_web_search'' (venice_parameters p) = (if requests_web_search p then JStr ''on'' else JUndef)"
    by (simp add: venice_parameters_def venice_web_search_mode_def requests_web_search_def)
  moreover have "fld ''include_venice_system_prompt'' (venice_parameters p) = JFalse"
    by (simp add: venice_parameters_def)
  ultimately show ?thesis
    using v(2) tools_drop_search_tools [OF is_obj_project, of p "candidate_to_row c"]
    by (simp add: params kept venice_message_ok fld_drop_search_tools)
qed

definition demo_venice :: jsv where
  "demo_venice = JObj [(''provider'', JStr ''venice''), (''host'', JStr ''api.venice.ai''),
     (''key_ref'', JStr ''venice''), (''upstream_model'', JStr ''uncensored''), (''path'', JStr ''/v1'')]"

definition demo_ports :: "string \<rightharpoonup> nat" where
  "demo_ports = map_of [(''api.venice.ai'', 8101), (''api.fireworks.ai'', 8102)]"

definition demo_keys :: "string \<rightharpoonup> string" where
  "demo_keys = map_of [(''venice'', ''vk''), (''fireworks'', ''fk'')]"

definition demo_plain :: "jsv \<Rightarrow> js_fields \<Rightarrow> jsv" where
  "demo_plain model extra = JObj ([(''model'', model),
     (''messages'', JArr [JObj [(''role'', JStr ''user''), (''content'', JStr ''hi'')]])] @ extra)"

definition venice_built :: "js_fields \<Rightarrow> js_error + built" where
  "venice_built extra =
     build_direct_request demo_venice (demo_plain (JStr ''venice/x'') extra) demo_ports demo_keys None"

fun built_spec :: "js_error + built \<Rightarrow> spec option" where
  "built_spec (Inr (Built s)) = Some s"
| "built_spec _ = None"

lemma built_specD: "built_spec b \<noteq> None \<Longrightarrow> \<exists>s. b = Inr (Built s)"
  by (cases b rule: built_spec.cases) simp_all

lemma venice_builds: "built_spec (venice_built []) \<noteq> None"
  by code_simp

theorem venice_request_shape_witness:
  "\<exists>s. venice_built [] = Inr (Built s)
     \<and> fld ''include_venice_system_prompt'' (fld ''venice_parameters'' (sp_body s)) = JFalse"
proof -
  obtain s where s: "venice_built [] = Inr (Built s)" using built_specD [OF venice_builds] by blast
  have "is_venice_candidate demo_venice" by code_simp
  from venice_request_shape [OF s [unfolded venice_built_def] this] s show ?thesis by blast
qed

text \<open>A request whose web plugins are all switched off with \<open>enabled: false\<close>, and which has no search
  tool, is still sent to Venice with web search on.\<close>

theorem venice_searches_when_disabled:
  assumes "build_direct_request c p ports keys affinity = Inr (Built s)" and "is_venice_candidate c"
    and "has_web_plugin p" and "\<not> has_active_web_plugin p" and "elems (fld ''tools'' p) = []"
  shows "\<not> has_web_search p
    \<and> fld ''enable_web_search'' (fld ''venice_parameters'' (sp_body s)) = JStr ''on''"
proof -
  have body: "sp_body s = set_fld ''venice_parameters'' (venice_parameters p)
      (drop_search_tools (project_allowed_fields ChatDialect p (candidate_to_row c)))"
    by (rule venice_applied(1) [OF build_direct_cases(4) [OF assms(1)] assms(2) is_obj_project])
  have "\<not> has_web_search p"
    using assms(4,5) by (simp add: has_web_search_def web_search_tool_active_def has_web_search_tool_def)
  then show ?thesis
    using assms(3) by (simp add: body fld_set_fld venice_parameters_def venice_web_search_mode_def)
qed

definition web_off :: js_fields where
  "web_off = [(''plugins'', JArr [JObj [(''id'', JStr ''web''), (''enabled'', JFalse)]])]"

theorem venice_searches_when_disabled_witness:
  "\<exists>s. venice_built web_off = Inr (Built s)
     \<and> fld ''enable_web_search'' (fld ''venice_parameters'' (sp_body s)) = JStr ''on''"
proof -
  have "built_spec (venice_built web_off) \<noteq> None" by code_simp
  then obtain s where s: "venice_built web_off = Inr (Built s)" using built_specD by blast
  have 1: "is_venice_candidate demo_venice" by code_simp
  have 2: "has_web_plugin (demo_plain (JStr ''venice/x'') web_off)"
    and 3: "\<not> has_active_web_plugin (demo_plain (JStr ''venice/x'') web_off)"
    and 4: "elems (fld ''tools'' (demo_plain (JStr ''venice/x'') web_off)) = []" by code_simp+
  from venice_searches_when_disabled [OF s [unfolded venice_built_def] 1 2 3 4] s show ?thesis by blast
qed

subsection \<open>The affinity key\<close>

lemma nul_split:
  "nul \<notin> set x \<Longrightarrow> nul \<notin> set x' \<Longrightarrow> x @ nul # y = x' @ nul # y' \<longleftrightarrow> x = x' \<and> y = y'"
proof (induction x arbitrary: x')
  case Nil
  then show ?case by (cases x') auto
next
  case (Cons c x)
  then show ?case by (cases x') auto
qed

lemma nul_not_digit: "nul \<notin> set (num_str n)"
proof -
  have "\<not> is_digit nul" by code_simp
  then show ?thesis using num_str_digits [of n] by (auto simp: list_all_iff)
qed

lemma affinity_part_cancel:
  assumes "nul \<notin> set r" and "nul \<notin> set r'"
    and "affinity_part r t @ rest = affinity_part r' t' @ rest'"
  shows "r = r' \<and> t = t' \<and> rest = rest'"
proof -
  have "r @ nul # num_str (length t) @ nul # t @ rest = r' @ nul # num_str (length t') @ nul # t' @ rest'"
    using assms(3) by (simp add: affinity_part_def)
  then have 1: "r = r'" and "num_str (length t) @ nul # t @ rest = num_str (length t') @ nul # t' @ rest'"
    using nul_split [OF assms(1,2)] by blast+
  then have 2: "num_str (length t) = num_str (length t')" and 3: "t @ rest = t' @ rest'"
    using nul_split [OF nul_not_digit nul_not_digit] by blast+
  from 2 have "length t = length t'" by (metis digits_value_num_str)
  with 1 3 show ?thesis by simp
qed

lemma affinity_parts_inj:
  assumes "\<forall>(r, t) \<in> set ps. nul \<notin> set r" and "\<forall>(r, t) \<in> set qs. nul \<notin> set r"
    and "concat (map (\<lambda>(r, t). affinity_part r t) ps) = concat (map (\<lambda>(r, t). affinity_part r t) qs)"
  shows "ps = qs"
  using assms
proof (induction ps arbitrary: qs)
  case Nil
  then show ?case by (cases qs) (auto simp: affinity_part_def)
next
  case (Cons p ps)
  then obtain q qs' where qs: "qs = q # qs'" by (cases qs) (auto simp: affinity_part_def)
  obtain r t r' t' where pq: "p = (r, t)" "q = (r', t')" by (metis surj_pair)
  then have "r = r' \<and> t = t' \<and>
      concat (map (\<lambda>(r, t). affinity_part r t) ps) = concat (map (\<lambda>(r, t). affinity_part r t) qs')"
    using Cons.prems qs by (intro affinity_part_cancel) auto
  then show ?case using Cons qs pq by auto
qed

text \<open>What the key is meant to depend on: the role and the leading text of the first two messages.\<close>

definition affinity_prefix :: "(jsv \<Rightarrow> string) \<Rightarrow> jsv list \<Rightarrow> (string \<times> string) list" where
  "affinity_prefix to_string ms =
     map (\<lambda>m. (affinity_role to_string m, take 8192 (affinity_text m))) (take 2 ms)"

lemma preimage_parts:
  "affinity_preimage f c ms = c @ concat (map (\<lambda>(r, t). affinity_part r t) (affinity_prefix f ms))"
  by (simp add: affinity_preimage_def affinity_prefix_def comp_def)

text \<open>As long as no credit id and no role contains a NUL, the hashed text of the affinity key determines
  the credit id and the roles and leading texts of the first two messages: two non-empty conversations
  share it only when they share all of these.\<close>

theorem affinity_unambiguous:
  assumes "affinity_preimage f c (m # ms) = affinity_preimage f c' (m' # ms')"
    and "nul \<notin> set c" and "nul \<notin> set c'"
    and "\<forall>(r, t) \<in> set (affinity_prefix f (m # ms)) \<union> set (affinity_prefix f (m' # ms')). nul \<notin> set r"
  shows "c = c' \<and> affinity_prefix f (m # ms) = affinity_prefix f (m' # ms')"
proof -
  have nonempty: "\<exists>rest. concat (map (\<lambda>(r, t). affinity_part r t) (affinity_prefix f (x # xs))) = nul # rest" for x xs
    by (simp add: affinity_prefix_def affinity_part_def)
  obtain u v where u: "concat (map (\<lambda>(r, t). affinity_part r t) (affinity_prefix f (m # ms))) = nul # u"
    and v: "concat (map (\<lambda>(r, t). affinity_part r t) (affinity_prefix f (m' # ms'))) = nul # v"
    using nonempty by blast
  have "c = c' \<and> u = v"
    using assms(1) nul_split [OF assms(2,3)] by (simp only: preimage_parts u v)
  moreover from this have "affinity_prefix f (m # ms) = affinity_prefix f (m' # ms')"
    using assms(4) u v by (intro affinity_parts_inj) auto
  ultimately show ?thesis by blast
qed

theorem affinity_unambiguous_witness:
  "take 1 (affinity_prefix (\<lambda>_. []) [JObj [(''role'', JStr ''user'')]]) = [(''user'', [])]"
proof -
  let ?f = "\<lambda>_. []" and ?m = "JObj [(''role'', JStr ''user'')]"
  have n: "nul \<notin> set []" "nul \<notin> set ''user''" by (simp, code_simp)
  have p: "affinity_prefix ?f [?m] = [(''user'', [])]"
    by (simp add: affinity_prefix_def affinity_role_def affinity_text_def)
  have "([] :: string) = [] \<and> affinity_prefix ?f [?m] = affinity_prefix ?f [?m]"
    by (rule affinity_unambiguous [of ?f "[]" ?m "[]" "[]" ?m "[]", OF refl n(1) n(1)]) (use n(2) in \<open>simp add: p\<close>)
  then show ?thesis by (simp add: p)
qed

text \<open>A role with NULs in it makes one message look like two: the hashed text is the same, so two
  different conversations of a credit share an affinity key whatever the hash.\<close>

theorem affinity_role_collision:
  "compute_session_affinity sha f c (JArr [JObj [(''role'', JStr (r @ nul # ''0'' @ nul # nul # r')), (''content'', JStr t)]])
     = compute_session_affinity sha f c
         (JArr [JObj [(''role'', JStr r), (''content'', JStr [])], JObj [(''role'', JStr r'), (''content'', JStr t)]])"
proof -
  have "(of_char (CHR ''0'') :: nat) = 48" by code_simp
  then have "char_of (48 :: nat) = CHR ''0''" by (metis char_of_char)
  then have "num_str 0 = ''0''" by (subst num_str.simps) (simp add: digit_char_def)
  then show ?thesis
    by (simp add: compute_session_affinity_def affinity_preimage_def affinity_part_def affinity_role_def
        affinity_text_def)
qed

end
