(* ===== verification/Tinfoil.thy ===== *)
theory Tinfoil
  imports Upstreams Transition "HOL-Library.Word"
begin

text \<open>
  The private path of \<open>enclave/src/tinfoil.mjs\<close>: which requests are private and where they may go,
  the request built for Tinfoil's router, its usage line, the frames of its sealed answer, and the two
  attestation caches. HPKE, the frame cipher and the attestation verifier are parameters; the sockets
  and header copying around them are not modelled.
\<close>

subsection \<open>Private requests\<close>

definition tinfoil_provider :: string where "tinfoil_provider = ''tinfoil''"
definition tinfoil_host :: string where "tinfoil_host = ''inference.tinfoil.sh''"
definition default_private_model :: string where "default_private_model = ''private/kimi-k3''"
definition key_config_mismatch_status :: nat where "key_config_mismatch_status = 422"

text \<open>\<open>/^private\//i\<close>.\<close>

definition has_private_prefix :: "string \<Rightarrow> bool" where
  "has_private_prefix m \<longleftrightarrow> starts_with (lower m) ''private/''"

definition is_private_model :: "jsv \<Rightarrow> bool" where
  "is_private_model model = (case model of JStr m \<Rightarrow> has_private_prefix m | _ \<Rightarrow> False)"

definition router_model_id :: "jsv \<Rightarrow> jsv" where
  "router_model_id model =
     (case model of JStr m \<Rightarrow> JStr (if has_private_prefix m then drop 8 m else m) | v \<Rightarrow> v)"

definition is_tinfoil_candidate :: "jsv \<Rightarrow> bool" where
  "is_tinfoil_candidate c \<longleftrightarrow> fld ''provider'' c = JStr tinfoil_provider"

definition has_tinfoil_candidate :: "jsv list \<Rightarrow> bool" where
  "has_tinfoil_candidate cs \<longleftrightarrow> list_ex is_tinfoil_candidate cs"

definition refuses_unrouted_private :: "jsv \<Rightarrow> jsv list \<Rightarrow> bool" where
  "refuses_unrouted_private model cs \<longleftrightarrow> is_private_model model \<and> \<not> has_tinfoil_candidate cs"

definition refuses_misrouted_to_tinfoil :: "jsv \<Rightarrow> jsv list \<Rightarrow> bool" where
  "refuses_misrouted_to_tinfoil model cs \<longleftrightarrow> \<not> is_private_model model \<and> has_tinfoil_candidate cs"

definition private_candidates :: "jsv list \<Rightarrow> jsv list" where
  "private_candidates cs = filter is_tinfoil_candidate cs"

subsection \<open>The request\<close>

definition not_forwarded :: "string list" where
  "not_forwarded =
     [''provider'', ''plugins'', ''transforms'', ''route'', ''models'', ''usage'', ''query_source'',
      ''session_id'', ''chat_id'', ''tool_id'', ''zdr'', ''search_mode'', ''credit_id'', ''api_key'',
      ''data_source'']"

definition project_for_tinfoil :: "jsv \<Rightarrow> jsv \<Rightarrow> jsv" where
  "project_for_tinfoil payload upstream_model =
     (let body = JObj (filter (\<lambda>(k, v). \<not> List.member not_forwarded k \<and> v \<noteq> JUndef) (spread payload));
          body1 = (if fld ''tools'' body = JArr [] then del_fld ''tools'' body else body);
          body2 = (if fld ''tools'' body1 = JUndef then del_fld ''tool_choice'' body1 else body1)
      in set_fld ''model'' upstream_model body2)"

text \<open>Sealing the JSON text of a body to a key is a parameter; its result is what goes on the wire.\<close>

definition build_tinfoil_request ::
    "(string \<Rightarrow> jsv \<Rightarrow> jsv) \<Rightarrow> jsv \<Rightarrow> jsv \<Rightarrow> (string \<rightharpoonup> nat) \<Rightarrow> (string \<rightharpoonup> string) \<Rightarrow> string option \<Rightarrow> built" where
  "build_tinfoil_request seal c payload ports keys hpke_key =
     (let port = (case lookup_key ports (fld ''host'' c) of Some p \<Rightarrow> p | None \<Rightarrow> 0);
          key = candidate_key keys c
      in if port = 0 \<or> key = [] then Skipped (Skip ''no_tunnel_or_key'' None)
         else case hpke_key of
           None \<Rightarrow> Skipped (Skip ''tinfoil_attestation_failed'' None)
         | Some pk \<Rightarrow>
             Built \<lparr>sp_direct = True, sp_provider = JStr tinfoil_provider, sp_host = fld ''host'' c,
               sp_path = (if truthy (fld ''path'' c) then fld ''path'' c else JStr ''/v1/chat/completions''),
               sp_port = port, sp_key = key, sp_affinity = None, sp_style = ''tinfoil'',
               sp_body = seal pk (project_for_tinfoil payload (fld ''upstream_model'' c))\<rparr>)"

subsection \<open>Cleartext headers of a sealed request\<close>

definition private_model_headers :: "string list" where
  "private_model_headers = [''x-private-model'', ''x-encrypted-model'', ''x-tinfoil-model'']"

definition claimed_header :: "jsv \<Rightarrow> string \<Rightarrow> string option" where
  "claimed_header headers name =
     (case fld name headers of
        JStr v \<Rightarrow> if v = [] then None
                  else Some (if CHR ''/'' \<in> set v then v else ''private/'' @ v)
      | _ \<Rightarrow> None)"

definition claimed_private_model :: "jsv \<Rightarrow> string" where
  "claimed_private_model headers =
     (case first_some_of (claimed_header headers) private_model_headers of
        Some m \<Rightarrow> m | None \<Rightarrow> default_private_model)"

text \<open>\<open>/^[\w:.-]{1,64}$/\<close>.\<close>

definition tool_id_of :: "jsv \<Rightarrow> string option" where
  "tool_id_of headers =
     (case fld ''x-tool-id'' headers of
        JStr v \<Rightarrow>
          if 1 \<le> length v \<and> length v \<le> 64
             \<and> list_all (\<lambda>c. is_alnum c \<or> c = CHR ''_'' \<or> c = CHR '':'' \<or> c = CHR ''.'' \<or> c = CHR ''-'') v
          then Some v else None
      | _ \<Rightarrow> None)"

definition query_source_of :: "jsv \<Rightarrow> string" where
  "query_source_of headers =
     (let v = fld ''x-query-source'' headers
      in if v = JStr ''ui'' then ''ui'' else if v = JStr ''memory'' then ''memory'' else ''api'')"

definition sealed_answer_nonce :: "jsv \<Rightarrow> string option" where
  "sealed_answer_nonce headers =
     (case fld ''ehbp-response-nonce'' headers of JStr n \<Rightarrow> if n = [] then None else Some n | _ \<Rightarrow> None)"

subsection \<open>The floor of an aborted relay\<close>

definition relay_abort_floor_bytes_per_token :: nat where
  "relay_abort_floor_bytes_per_token = 512"

definition positive_floor :: "jsv \<Rightarrow> int" where
  "positive_floor v = (if num_finite v \<and> 0 < num_rat v then \<lfloor>num_rat v\<rfloor> else 0)"

definition aborted_relay_output_floor :: "jsv \<Rightarrow> jsv \<Rightarrow> int" where
  "aborted_relay_output_floor chunks bytes =
     max 0 (min (positive_floor chunks - 1) (positive_floor bytes div int relay_abort_floor_bytes_per_token))"

subsection \<open>The usage line\<close>

text \<open>\<open>parseInt(s, 10)\<close>: optional white space and sign, then the leading digits; \<open>None\<close> for NaN.\<close>

definition parse_int :: "string \<Rightarrow> int option" where
  "parse_int s =
     (let t = dropWhile is_space s;
          neg = (t \<noteq> [] \<and> hd t = CHR ''-'');
          digits = takeWhile is_digit (if t \<noteq> [] \<and> (hd t = CHR ''-'' \<or> hd t = CHR ''+'') then tl t else t)
      in if digits = [] then None
         else Some (if neg then - int (digits_value digits) else int (digits_value digits)))"

text \<open>\<open>/^-?\d+$/\<close>.\<close>

definition plain_integer :: "string \<Rightarrow> bool" where
  "plain_integer s \<longleftrightarrow>
     (let d = (if s \<noteq> [] \<and> hd s = CHR ''-'' then tl s else s) in d \<noteq> [] \<and> list_all is_digit d)"

text \<open>\<open>/^[a-zA-Z0-9._:/@-]{1,96}$/\<close>.\<close>

definition model_slug_ok :: "string \<Rightarrow> bool" where
  "model_slug_ok m \<longleftrightarrow> 1 \<le> length m \<and> length m \<le> 96
     \<and> list_all (\<lambda>c. is_alnum c \<or> List.member ''._:/@-'' c) m"

definition usage_parts :: "string \<Rightarrow> (string \<times> string) list" where
  "usage_parts metrics =
     fold (\<lambda>part kvs. case index_of part (CHR ''='') of
              None \<Rightarrow> kvs
            | Some 0 \<Rightarrow> kvs
            | Some i \<Rightarrow> AList.update (trim (take i part)) (trim (drop (Suc i) part)) kvs)
          (split_char (CHR '','') metrics) []"

record usage_metrics =
  um_prompt :: int
  um_completion :: int
  um_total :: int
  um_cached :: "int option"
  um_model :: "string option"
  um_cost :: "rat option"

definition parse_cached :: "(string \<times> string) list \<Rightarrow> int \<Rightarrow> int option" where
  "parse_cached parts prompt =
     (case map_of parts ''cached_prompt_tokens'' of
        None \<Rightarrow> None
      | Some s \<Rightarrow>
          if \<not> plain_integer s then None
          else (case parse_int s of
            None \<Rightarrow> None
          | Some n \<Rightarrow> if \<bar>n\<bar> \<le> 9007199254740991 then Some (min (max 0 n) (max 0 prompt)) else None))"

text \<open>\<open>Number(s)\<close> of a decimal text is a parameter, \<open>None\<close> when it is not finite.\<close>

definition parse_usage_metrics :: "(string \<Rightarrow> rat option) \<Rightarrow> jsv \<Rightarrow> usage_metrics option" where
  "parse_usage_metrics to_number v =
     (case v of
        JStr metrics \<Rightarrow>
          if metrics = [] \<or> 512 < length metrics then None
          else
            let parts = usage_parts metrics; get = (\<lambda>k. Option.bind (map_of parts k) parse_int)
            in (case (get ''prompt'', get ''completion'') of
                  (Some p, Some c) \<Rightarrow>
                    Some \<lparr>um_prompt = max 0 p, um_completion = max 0 c,
                      um_total = (case get ''total'' of Some t \<Rightarrow> t | None \<Rightarrow> p + c),
                      um_cached = parse_cached parts p,
                      um_model = (case map_of parts ''model'' of
                          Some m \<Rightarrow> if model_slug_ok m then Some m else None | None \<Rightarrow> None),
                      um_cost = (case Option.bind (map_of parts ''cost_usd'') to_number of
                          Some q \<Rightarrow> if 0 \<le> q then Some q else None | None \<Rightarrow> None)\<rparr>
                | _ \<Rightarrow> None)
      | _ \<Rightarrow> None)"

subsection \<open>The frames of a sealed answer\<close>

type_synonym bytes = "8 word list"

text \<open>\<open>readUInt32BE(0)\<close> and \<open>writeUInt32BE\<close>.\<close>

fun read_u32 :: "bytes \<Rightarrow> nat" where
  "read_u32 (a # b # c # d # rest) = ((unat a * 256 + unat b) * 256 + unat c) * 256 + unat d"
| "read_u32 _ = 0"

definition write_u32 :: "nat \<Rightarrow> bytes" where
  "write_u32 n = [of_nat (n div 16777216), of_nat (n div 65536), of_nat (n div 256), of_nat n]"

definition seal_frame :: "bytes \<Rightarrow> bytes" where
  "seal_frame ct = write_u32 (length ct) @ ct"

text \<open>The opener keeps the bytes of an incomplete frame and the number of the next frame. The cipher is a
  parameter: the plaintext of the frame with this number, or \<open>None\<close> when it does not open. The loop
  body removes at least the four bytes of a length.\<close>

record opener =
  op_buffer :: bytes
  op_seq :: nat

definition new_opener :: opener where
  "new_opener = \<lparr>op_buffer = [], op_seq = 0\<rparr>"

function open_frames :: "(nat \<Rightarrow> bytes \<Rightarrow> bytes option) \<Rightarrow> nat \<Rightarrow> bytes \<Rightarrow> (opener \<times> bytes) option" where
  "open_frames decrypt seq buffer =
     (if length buffer < 4 then Some (\<lparr>op_buffer = buffer, op_seq = seq\<rparr>, [])
      else
        let len = read_u32 buffer; rest = drop 4 buffer
        in if len = 0 then open_frames decrypt seq rest
           else if length rest < len then Some (\<lparr>op_buffer = buffer, op_seq = seq\<rparr>, [])
           else case decrypt seq (take len rest) of
             None \<Rightarrow> None
           | Some plain \<Rightarrow>
               map_option (\<lambda>(st, out). (st, plain @ out)) (open_frames decrypt (Suc seq) (drop len rest)))"
  by pat_completeness auto

termination
  by (relation "measure (\<lambda>(_, _, b). length b)") auto

declare open_frames.simps [simp del]

definition feed :: "(nat \<Rightarrow> bytes \<Rightarrow> bytes option) \<Rightarrow> opener \<Rightarrow> bytes \<Rightarrow> (opener \<times> bytes) option" where
  "feed decrypt st chunk = open_frames decrypt (op_seq st) (op_buffer st @ chunk)"

text \<open>\<open>finish\<close> throws when bytes are left over.\<close>

definition finish_ok :: "opener \<Rightarrow> bool" where
  "finish_ok st \<longleftrightarrow> op_buffer st = []"

text \<open>The chunks of an answer, in order.\<close>

fun feed_all :: "(nat \<Rightarrow> bytes \<Rightarrow> bytes option) \<Rightarrow> opener \<Rightarrow> bytes list \<Rightarrow> (opener \<times> bytes) option" where
  "feed_all decrypt st [] = Some (st, [])"
| "feed_all decrypt st (chunk # chunks) =
     (case feed decrypt st chunk of
        None \<Rightarrow> None
      | Some (st', out) \<Rightarrow> map_option (\<lambda>(st'', out'). (st'', out @ out')) (feed_all decrypt st' chunks))"

subsection \<open>Chunking\<close>

text \<open>Opening what is buffered and then more bytes is opening all of them at once.\<close>

lemma read_u32_append: "4 \<le> length b \<Longrightarrow> read_u32 (b @ c) = read_u32 b"
  by (cases b rule: read_u32.cases) auto

lemma open_frames_append:
  "open_frames decrypt seq (b @ c) =
     (case open_frames decrypt seq b of
        None \<Rightarrow> None
      | Some (st, out) \<Rightarrow>
          map_option (\<lambda>(st', out'). (st', out @ out')) (open_frames decrypt (op_seq st) (op_buffer st @ c)))"
proof (induction decrypt seq b rule: open_frames.induct)
  case (1 decrypt seq b)
  show ?case
  proof (cases "length b < 4")
    case True
    then have "open_frames decrypt seq b = Some (\<lparr>op_buffer = b, op_seq = seq\<rparr>, [])"
      by (simp add: open_frames.simps [of decrypt seq b])
    then show ?thesis by (simp add: option.map_ident_strong split: option.split)
  next
    case False
    let ?len = "read_u32 b" and ?rest = "drop 4 b"
    have len: "read_u32 (b @ c) = ?len" and rest: "drop 4 (b @ c) = ?rest @ c" and l4: "\<not> length (b @ c) < 4"
      using False by (simp_all add: read_u32_append)
    consider (zero) "?len = 0" | (short) "?len \<noteq> 0" "length ?rest < ?len"
      | (full) "?len \<noteq> 0" "\<not> length ?rest < ?len" by blast
    then show ?thesis
    proof cases
      case zero
      have l: "open_frames decrypt seq b = open_frames decrypt seq ?rest"
        using False zero by (simp add: open_frames.simps [of decrypt seq b])
      have r: "open_frames decrypt seq (b @ c) = open_frames decrypt seq (?rest @ c)"
        using l4 zero len rest by (simp add: open_frames.simps [of decrypt seq "b @ c"] del: length_append drop_append)
      show ?thesis unfolding l r by (rule "1.IH"(1) [OF False refl refl zero])
    next
      case short
      have l: "open_frames decrypt seq b = Some (\<lparr>op_buffer = b, op_seq = seq\<rparr>, [])"
        using False short by (simp add: open_frames.simps [of decrypt seq b])
      then show ?thesis by (simp add: option.map_ident_strong split: option.split)
    next
      case full
      have take: "take ?len (?rest @ c) = take ?len ?rest" and drop: "drop ?len (?rest @ c) = drop ?len ?rest @ c"
        using full(2) by simp_all
      have full': "\<not> length (?rest @ c) < ?len" using full(2) by simp
      have l: "open_frames decrypt seq b = (case decrypt seq (take ?len ?rest) of None \<Rightarrow> None
          | Some plain \<Rightarrow> map_option (\<lambda>(st, out). (st, plain @ out)) (open_frames decrypt (Suc seq) (drop ?len ?rest)))"
        unfolding open_frames.simps [of decrypt seq b] Let_def if_not_P [OF False] if_not_P [OF full(1)]
          if_not_P [OF full(2)] ..
      have r: "open_frames decrypt seq (b @ c) = (case decrypt seq (take ?len ?rest) of None \<Rightarrow> None
          | Some plain \<Rightarrow> map_option (\<lambda>(st, out). (st, plain @ out)) (open_frames decrypt (Suc seq) (drop ?len ?rest @ c)))"
        unfolding open_frames.simps [of decrypt seq "b @ c"] Let_def len rest if_not_P [OF l4] if_not_P [OF full(1)]
          if_not_P [OF full'] take drop ..
      show ?thesis
      proof (cases "decrypt seq (take ?len ?rest)")
        case None
        then show ?thesis by (simp add: l r)
      next
        case (Some plain)
        then show ?thesis
          unfolding l r option.case(2)
          using "1.IH"(2) [OF False refl refl full Some]
          by (cases "open_frames decrypt (Suc seq) (drop ?len ?rest)")
            (simp_all add: option.map_comp comp_def split_beta')
      qed
    qed
  qed
qed

lemma feed_stable:
  assumes "open_frames decrypt seq b = Some (st, out)"
  shows "feed decrypt st [] = Some (st, [])"
proof -
  have "open_frames decrypt seq (b @ []) = map_option (\<lambda>(st', out'). (st', out @ out'))
      (open_frames decrypt (op_seq st) (op_buffer st @ []))"
    using assms open_frames_append [of decrypt seq b "[]"] by simp
  then show ?thesis
    using assms by (cases "open_frames decrypt (op_seq st) (op_buffer st)") (auto simp: feed_def)
qed

lemma feed_all_concat:
  "feed decrypt st [] = Some (st, []) \<Longrightarrow> feed_all decrypt st chunks = feed decrypt st (concat chunks)"
proof (induction chunks arbitrary: st)
  case (Cons c cs)
  have step: "feed decrypt st (c @ concat cs) =
      (case feed decrypt st c of None \<Rightarrow> None
       | Some (st', out) \<Rightarrow> map_option (\<lambda>(st'', out'). (st'', out @ out')) (feed decrypt st' (concat cs)))"
    unfolding feed_def by (simp flip: append_assoc add: open_frames_append)
  show ?case
  proof (cases "feed decrypt st c")
    case None
    then show ?thesis by (simp add: step)
  next
    case (Some r)
    obtain st' out where r: "r = (st', out)" by (cases r)
    have "feed decrypt st' [] = Some (st', [])"
      using Some unfolding r feed_def by (rule feed_stable [unfolded feed_def])
    then show ?thesis using Cons.IH [of st'] by (simp add: step Some r)
  qed
qed simp

lemma new_opener_stable: "feed decrypt new_opener [] = Some (new_opener, [])"
  by (simp add: feed_def new_opener_def open_frames.simps)

subsection \<open>Round trip\<close>

lemma read_write_u32:
  assumes "n < 4294967296"
  shows "read_u32 (write_u32 n @ b) = n" and "length (write_u32 n) = 4"
proof -
  have "unat (of_nat k :: 8 word) = k mod 256" for k by (simp add: unat_of_nat)
  then have "read_u32 (write_u32 n @ b)
      = ((n div 16777216 mod 256 * 256 + n div 65536 mod 256) * 256 + n div 256 mod 256) * 256 + n mod 256"
    by (simp add: write_u32_def)
  also have "\<dots> = n"
  proof -
    have "n div 65536 = n div 256 div 256" "n div 16777216 = n div 256 div 256 div 256"
      by (simp_all flip: div_mult2_eq)
    moreover have "n div 256 div 256 div 256 mod 256 = n div 256 div 256 div 256"
      using assms by (simp flip: div_mult2_eq)
    ultimately show ?thesis by simp
  qed
  finally show "read_u32 (write_u32 n @ b) = n" .
  show "length (write_u32 n) = 4" by (simp add: write_u32_def)
qed

definition frame_ok :: "bytes \<Rightarrow> bool" where
  "frame_ok ct \<longleftrightarrow> ct \<noteq> [] \<and> length ct < 4294967296"

lemma open_one_frame:
  assumes "frame_ok ct" and "decrypt seq ct = Some plain"
  shows "open_frames decrypt seq (seal_frame ct @ b) =
     map_option (\<lambda>(st, out). (st, plain @ out)) (open_frames decrypt (Suc seq) b)"
  using assms read_write_u32(1) [of "length ct" "ct @ b"] read_write_u32(2) [of "length ct"]
  unfolding seal_frame_def append_assoc open_frames.simps [of decrypt seq "write_u32 (length ct) @ ct @ b"]
  by (simp add: frame_ok_def Let_def)

lemma open_part_frame:
  assumes "frame_ok ct" and "k < length (seal_frame ct)"
  shows "open_frames decrypt seq (take k (seal_frame ct)) = Some (\<lparr>op_buffer = take k (seal_frame ct), op_seq = seq\<rparr>, [])"
proof (cases "k < 4")
  case True
  then have "length (take k (seal_frame ct)) < 4" by simp
  then show ?thesis by (simp only: open_frames.simps [of decrypt seq "take k (seal_frame ct)"] if_True)
next
  case False
  note rw = read_write_u32(1) [of "length ct" "take (k - 4) ct"] read_write_u32(2) [of "length ct"]
  have l: "length ct < 4294967296" and ne: "ct \<noteq> []" using assms(1) by (simp_all add: frame_ok_def)
  have split: "take k (seal_frame ct) = write_u32 (length ct) @ take (k - 4) ct"
    using False rw(2) [OF l] by (simp add: seal_frame_def)
  have "k - 4 < length ct" using assms(2) False rw(2) [OF l] by (simp add: seal_frame_def)
  then show ?thesis
    using rw(1) [OF l] rw(2) [OF l] ne
    unfolding split open_frames.simps [of decrypt seq "write_u32 (length ct) @ take (k - 4) ct"]
    by (simp add: Let_def)
qed

lemma open_sealed:
  assumes "list_all2 (\<lambda>(i, ct) plain. frame_ok ct \<and> decrypt i ct = Some plain) (enumerate seq cts) plains"
  shows "open_frames decrypt seq (concat (map seal_frame cts) @ b) =
     map_option (\<lambda>(st, out). (st, concat plains @ out)) (open_frames decrypt (seq + length cts) b)"
  using assms
proof (induction cts arbitrary: seq plains)
  case Nil
  then show ?case by (simp add: option.map_ident_strong split: option.split)
next
  case (Cons ct cts)
  then obtain plain plains' where p: "plains = plain # plains'" "frame_ok ct" "decrypt seq ct = Some plain"
    "list_all2 (\<lambda>(i, ct) plain. frame_ok ct \<and> decrypt i ct = Some plain) (enumerate (Suc seq) cts) plains'"
    by (auto simp: list_all2_Cons1)
  show ?case
    using open_one_frame [of ct decrypt seq plain "concat (map seal_frame cts) @ b", OF p(2,3)] Cons.IH [OF p(4)] p(1)
    by (simp add: option.map_comp comp_def split_beta')
qed

text \<open>C18: However the network cuts a sealed answer into chunks, the opener yields exactly the plaintexts of
  its frames in order and ends clean; an answer cut inside a frame yields those of the whole frames before
  it, and its end is refused as truncated.\<close>

theorem sealed_answer_any_chunking:
  assumes "list_all2 (\<lambda>(i, ct) plain. frame_ok ct \<and> decrypt i ct = Some plain) (enumerate 0 cts) plains"
    and "frame_ok final" and "k < length (seal_frame final)"
    and "concat chunks = concat (map seal_frame cts) @ take k (seal_frame final)"
  shows "\<exists>st. feed_all decrypt new_opener chunks = Some (st, concat plains) \<and> op_seq st = length cts
    \<and> (finish_ok st \<longleftrightarrow> k = 0)"
proof -
  have "feed_all decrypt new_opener chunks = open_frames decrypt 0 (concat chunks)"
    using feed_all_concat [OF new_opener_stable] by (simp add: feed_def new_opener_def)
  also have "\<dots> = Some (\<lparr>op_buffer = take k (seal_frame final), op_seq = length cts\<rparr>, concat plains)"
    unfolding assms(4) by (simp add: open_sealed [OF assms(1)] open_part_frame [OF assms(2,3)])
  finally show ?thesis
    using assms(3) by (auto simp: finish_ok_def)
qed

theorem sealed_answer_any_chunking_witness:
  "\<exists>st. feed_all (\<lambda>i ct. Some (of_nat i # ct)) new_opener [[0, 0], [0, 1, 7, 0], [0, 0, 2, 8, 9, 0]]
      = Some (st, [0, 7, 1, 8, 9]) \<and> op_seq st = 2 \<and> (finish_ok st \<longleftrightarrow> (1::nat) = 0)"
proof -
  have w: "write_u32 1 = [0, 0, 0, 1]" "write_u32 2 = [0, 0, 0, 2]" by (simp_all add: write_u32_def)
  have seals: "seal_frame [7] = [0, 0, 0, 1, 7]" "seal_frame [8, 9] = [0, 0, 0, 2, 8, 9]"
    using w by (simp_all add: seal_frame_def numeral_2_eq_2)
  have "\<exists>st. feed_all (\<lambda>i ct. Some (of_nat i # ct)) new_opener [[0, 0], [0, 1, 7, 0], [0, 0, 2, 8, 9, 0]]
      = Some (st, concat [[0, 7], [1, 8, 9]]) \<and> op_seq st = length [[7], [8, 9 :: 8 word]]
      \<and> (finish_ok st \<longleftrightarrow> (1::nat) = 0)"
    by (rule sealed_answer_any_chunking [where final = "[7]"]) (simp_all add: frame_ok_def seals)
  then show ?thesis by (simp del: feed_all.simps add: numeral_2_eq_2)
qed

subsection \<open>Properties of the usage line\<close>

text \<open>A usage line that is accepted is at most 512 characters long, and its counts are not negative; the
  cached prompt tokens it reports never exceed the prompt tokens, so a malformed line never turns into a
  larger cache discount than the prompt; its model is a slug and its cost is not negative.\<close>

theorem usage_line_bounds:
  assumes "parse_usage_metrics to_number v = Some u"
  shows "(\<exists>s. v = JStr s \<and> s \<noteq> [] \<and> length s \<le> 512)
    \<and> 0 \<le> um_prompt u \<and> 0 \<le> um_completion u
    \<and> (\<forall>n. um_cached u = Some n \<longrightarrow> 0 \<le> n \<and> n \<le> um_prompt u)
    \<and> (\<forall>m. um_model u = Some m \<longrightarrow> model_slug_ok m) \<and> (\<forall>q. um_cost u = Some q \<longrightarrow> 0 \<le> q)"
proof -
  obtain s where s: "v = JStr s" "s \<noteq> []" "length s \<le> 512"
    using assms by (cases v) (simp_all add: parse_usage_metrics_def split: if_splits)
  let ?get = "\<lambda>k. Option.bind (map_of (usage_parts s) k) parse_int"
  obtain p c where pc: "?get ''prompt'' = Some p" "?get ''completion'' = Some c"
    using assms s by (cases "?get ''prompt''"; cases "?get ''completion''") (simp_all add: parse_usage_metrics_def Let_def)
  have u: "um_prompt u = max 0 p" "um_completion u = max 0 c" "um_cached u = parse_cached (usage_parts s) p"
    "um_model u = (case map_of (usage_parts s) ''model'' of
        Some m \<Rightarrow> if model_slug_ok m then Some m else None | None \<Rightarrow> None)"
    "um_cost u = (case Option.bind (map_of (usage_parts s) ''cost_usd'') to_number of
        Some q \<Rightarrow> if 0 \<le> q then Some q else None | None \<Rightarrow> None)"
    using assms s pc by (auto simp: parse_usage_metrics_def Let_def)
  have "0 \<le> n \<and> n \<le> max 0 p" if "parse_cached (usage_parts s) p = Some n" for n
    using that by (auto simp: parse_cached_def split: option.splits if_splits)
  then show ?thesis
    using s unfolding u by (simp split: option.split)
qed

definition demo_usage :: string where
  "demo_usage = ''prompt=73,completion=12,cached_prompt_tokens=999''"

theorem usage_line_bounds_witness:
  "\<exists>u. parse_usage_metrics (\<lambda>_. None) (JStr demo_usage) = Some u \<and> um_cached u = Some 73 \<and> 0 \<le> um_completion u"
proof -
  have u: "map_option (\<lambda>u. (um_prompt u, um_cached u)) (parse_usage_metrics (\<lambda>_. None) (JStr demo_usage)) = Some (73, Some 73)"
  proof -
    have "usage_parts demo_usage = [(''prompt'', ''73''), (''completion'', ''12''), (''cached_prompt_tokens'', ''999'')]" by code_simp
    moreover have "parse_int ''73'' = Some 73" "parse_int ''12'' = Some 12" "parse_int ''999'' = Some 999" "plain_integer ''999''" by code_simp+
    ultimately show ?thesis by (simp add: parse_usage_metrics_def Let_def parse_cached_def) (simp add: demo_usage_def)
  qed
  then obtain u where p: "parse_usage_metrics (\<lambda>_. None) (JStr demo_usage) = Some u" "um_cached u = Some 73" by auto
  then show ?thesis using usage_line_bounds [OF p(1)] by blast
qed

subsection \<open>The floor of an aborted relay\<close>

text \<open>The floor is below what was delivered: at most one token per chunk after the first, and no more than
  the delivered bytes can hold.\<close>

lemma aborted_floor_bounds:
  "0 \<le> aborted_relay_output_floor c b"
  "0 < aborted_relay_output_floor c b \<Longrightarrow> aborted_relay_output_floor c b + 1 \<le> positive_floor c"
  "512 * aborted_relay_output_floor c b \<le> max 0 (positive_floor b)"
proof -
  show "0 \<le> aborted_relay_output_floor c b" by (simp add: aborted_relay_output_floor_def)
  show "0 < aborted_relay_output_floor c b \<Longrightarrow> aborted_relay_output_floor c b + 1 \<le> positive_floor c"
    by (simp add: aborted_relay_output_floor_def)
  have "0 \<le> positive_floor b" by (simp add: positive_floor_def)
  then show "512 * aborted_relay_output_floor c b \<le> max 0 (positive_floor b)"
    by (simp add: aborted_relay_output_floor_def relay_abort_floor_bytes_per_token_def max_def min_def) linarith
qed

subsection \<open>The attestation caches\<close>

text \<open>The bundle cache and the attestor have one shape: a value with the time it was fetched, at most one
  fetch in flight that all callers share, and an invalidation. \<open>tc_served\<close> records what \<open>get\<close> answered
  from memory: the time, the value and the time it was fetched; \<open>tc_started\<close> and \<open>tc_ended\<close> count fetches.\<close>

record 'v ttl_cache =
  tc_current :: "('v \<times> int) option"
  tc_inflight :: bool
  tc_served :: "(int \<times> 'v \<times> int) list"
  tc_started :: nat
  tc_ended :: nat

definition empty_cache :: "'v ttl_cache" where
  "empty_cache = \<lparr>tc_current = None, tc_inflight = False, tc_served = [], tc_started = 0, tc_ended = 0\<rparr>"

definition start_fetch :: "'v ttl_cache \<Rightarrow> 'v ttl_cache" where
  "start_fetch c = (if tc_inflight c then c else c\<lparr>tc_inflight := True, tc_started := Suc (tc_started c)\<rparr>)"

definition cache_get :: "int \<Rightarrow> int \<Rightarrow> 'v ttl_cache \<Rightarrow> 'v ttl_cache" where
  "cache_get ttl now c =
     (case tc_current c of
        Some (v, since) \<Rightarrow>
          if now - since < ttl then c\<lparr>tc_served := tc_served c @ [(now, v, since)]\<rparr> else start_fetch c
      | None \<Rightarrow> start_fetch c)"

text \<open>The end of the fetch in flight: the verified value, or a failure that every waiting caller sees.\<close>

definition cache_fetched :: "int \<Rightarrow> 'v option \<Rightarrow> 'v ttl_cache \<Rightarrow> 'v ttl_cache" where
  "cache_fetched now result c =
     (if \<not> tc_inflight c then c
      else c\<lparr>tc_inflight := False, tc_ended := Suc (tc_ended c),
             tc_current := (case result of Some v \<Rightarrow> Some (v, now) | None \<Rightarrow> tc_current c)\<rparr>)"

definition cache_invalidate :: "'v ttl_cache \<Rightarrow> 'v ttl_cache" where
  "cache_invalidate c = c\<lparr>tc_current := None\<rparr>"

datatype 'v cache_event = EvGet int | EvFetched int "'v option" | EvInvalidate

definition cache_step :: "int \<Rightarrow> 'v cache_event \<Rightarrow> 'v ttl_cache \<Rightarrow> 'v ttl_cache" where
  "cache_step ttl e c =
     (case e of
        EvGet now \<Rightarrow> cache_get ttl now c
      | EvFetched now result \<Rightarrow> cache_fetched now result c
      | EvInvalidate \<Rightarrow> cache_invalidate c)"

definition cache_inv :: "int \<Rightarrow> 'v ttl_cache \<Rightarrow> bool" where
  "cache_inv ttl c \<longleftrightarrow>
     tc_started c = tc_ended c + (if tc_inflight c then 1 else 0)
     \<and> (\<forall>(now, v, since) \<in> set (tc_served c). now - since < ttl)"

lemmas cache_defs = cache_get_def start_fetch_def cache_fetched_def cache_invalidate_def cache_inv_def

interpretation tc: event_system
  "\<lambda>c. c = empty_cache" "\<lambda>c d. \<exists>e. d = cache_step ttl e c" "cache_inv ttl" "cache_step ttl"
proof
  show "s = empty_cache \<Longrightarrow> cache_inv ttl s" for s :: "'a ttl_cache"
    by (simp add: cache_inv_def empty_cache_def)
next
  fix s t :: "'a ttl_cache"
  assume inv: "cache_inv ttl s" and "\<exists>e. t = cache_step ttl e s"
  then obtain e where t: "t = cache_step ttl e s" by blast
  show "cache_inv ttl t"
    using inv by (cases e; cases "tc_current s") (auto simp: t cache_step_def cache_defs split: if_splits)
next
  show "(\<exists>e'. cache_step ttl e s = cache_step ttl e' s) \<or> cache_step ttl e s = s" for s :: "'a ttl_cache" and e
    by blast
qed

definition cache_after :: "int \<Rightarrow> 'v cache_event list \<Rightarrow> 'v ttl_cache" where
  "cache_after ttl events = fold (cache_step ttl) events empty_cache"

lemma gets_serve_nothing: "tc_current d = None \<Longrightarrow> tc_served (fold (cache_step ttl) (map EvGet nows) d) = tc_served d"
proof (induction nows arbitrary: d)
  case (Cons now nows)
  then show ?case by (simp add: cache_step_def cache_get_def start_fetch_def)
qed simp

text \<open>C21: In every history of gets, fetch results and invalidations at most one fetch is in flight, and a key
  or bundle answered from memory was fetched less than the lifetime ago; after an invalidation, nothing is
  answered from memory until a fetch has ended.\<close>

theorem attestation_cache_fresh:
  "tc_started (cache_after ttl events) \<le> tc_ended (cache_after ttl events) + 1
   \<and> list_all (\<lambda>(now, v, since). now - since < ttl) (tc_served (cache_after ttl events))
   \<and> tc_served (fold (cache_step ttl) (map EvGet nows) (cache_invalidate (cache_after ttl events)))
       = tc_served (cache_after ttl events)"
proof -
  have "cache_inv ttl (cache_after ttl events)"
    unfolding cache_after_def by (rule tc.inv_run) (simp add: cache_inv_def empty_cache_def)
  moreover have "tc_served (fold (cache_step ttl) (map EvGet nows) (cache_invalidate (cache_after ttl events)))
      = tc_served (cache_after ttl events)"
    by (subst gets_serve_nothing) (simp_all add: cache_invalidate_def)
  ultimately show ?thesis by (simp add: cache_inv_def list_all_iff)
qed

text \<open>A caller that invalidates and asks again while a fetch is in flight gets the result of that fetch, which
  began before the invalidation: no fetch is started for it.\<close>

lemma invalidate_joins_flight:
  "tc_inflight c \<Longrightarrow> tc_started (cache_get ttl now (cache_invalidate c)) = tc_started c"
  by (simp add: cache_invalidate_def cache_get_def start_fetch_def)

end
