(* ===== verification/DirectOnly.thy ===== *)
theory DirectOnly
  imports UpstreamBinding
begin

text \<open>
  \<open>enclave/src/directOnly.mjs\<close>: the models that exactly one upstream can serve, and the answer
  for a request that this upstream did not serve.
\<close>

subsection \<open>The one upstream\<close>

definition direct_only_namespaces :: "(string \<times> string) list" where
  "direct_only_namespaces = [(''venice/'', ''venice'')]"

definition direct_only_namespace_for :: "jsv \<Rightarrow> string option" where
  "direct_only_namespace_for model =
     (case model of
        JStr m \<Rightarrow>
          if m = [] then None
          else map_option snd
                 (List.find (\<lambda>ns. starts_with (strip_tilde (lower m)) (fst ns)) direct_only_namespaces)
      | _ \<Rightarrow> None)"

definition is_direct_only_model :: "jsv \<Rightarrow> bool" where
  "is_direct_only_model model \<longleftrightarrow> direct_only_namespace_for model \<noteq> None"

text \<open>\<open>/^[a-z][a-z0-9_-]{1,31}$/\<close>.\<close>

definition declared_provider_ok :: "string \<Rightarrow> bool" where
  "declared_provider_ok p =
     (case p of
        [] \<Rightarrow> False
      | c # cs \<Rightarrow> is_lower_az c \<and> 1 \<le> length cs \<and> length cs \<le> 31
          \<and> list_all (\<lambda>d. is_lower_az d \<or> is_digit d \<or> d = CHR ''_'' \<or> d = CHR ''-'') cs)"

definition direct_only_for :: "jsv \<Rightarrow> jsv \<Rightarrow> string option" where
  "direct_only_for model declared =
     (case direct_only_namespace_for model of
        Some p \<Rightarrow> Some p
      | None \<Rightarrow>
          (case fld ''provider'' declared of
             JStr p \<Rightarrow> if declared_provider_ok p \<and> p \<noteq> ''openrouter'' then Some p else None
           | _ \<Rightarrow> None))"

subsection \<open>The refusals\<close>

record refusal_answer =
  rf_status :: nat
  rf_type :: string
  rf_code :: string
  rf_message :: string

definition quote_model :: "string \<Rightarrow> string" where
  "quote_model m = ''The model '' @ [CHR 0x22] @ m @ [CHR 0x22]"

definition unavailable :: "string \<Rightarrow> refusal_answer" where
  "unavailable m = \<lparr>rf_status = 503, rf_type = ''api_error'', rf_code = ''direct_only_model_unavailable'',
     rf_message = quote_model m @ '' is temporarily unavailable. Please try again shortly.''\<rparr>"

definition not_found :: "string \<Rightarrow> refusal_answer" where
  "not_found m = \<lparr>rf_status = 404, rf_type = ''invalid_request_error'', rf_code = ''model_not_found'',
     rf_message = quote_model m @ '' does not exist or is not available to your account.''\<rparr>"

definition rate_limited :: "string \<Rightarrow> refusal_answer" where
  "rate_limited m = \<lparr>rf_status = 429, rf_type = ''rate_limit_error'', rf_code = ''direct_only_model_rate_limited'',
     rf_message = quote_model m @ '' is rate limited right now. Please retry in a few seconds.''\<rparr>"

definition upstream_error :: "string \<Rightarrow> refusal_answer" where
  "upstream_error m = \<lparr>rf_status = 502, rf_type = ''api_error'', rf_code = ''direct_only_model_upstream_error'',
     rf_message = quote_model m @ '' could not be served because of an upstream error. Please try again; if it persists, contact support.''\<rparr>"

definition unsupported :: "string \<Rightarrow> refusal_answer" where
  "unsupported message = \<lparr>rf_status = 400, rf_type = ''invalid_request_error'',
     rf_code = ''direct_only_model_unsupported_request'', rf_message = message\<rparr>"

definition unavailable_reasons :: "string list" where
  "unavailable_reasons = [''no_tunnel_or_key'', ''upstream_not_bound_to_family'', ''model_disabled'']"

text \<open>\<open>/^[A-Za-z0-9_.\-]{1,64}$/\<close>.\<close>

definition field_name_ok :: "string \<Rightarrow> bool" where
  "field_name_ok f \<longleftrightarrow> 1 \<le> length f \<and> length f \<le> 64
     \<and> list_all (\<lambda>c. is_alnum c \<or> c = CHR ''_'' \<or> c = CHR ''.'' \<or> c = CHR ''-'') f"

definition clean_field :: "jsv \<Rightarrow> string option" where
  "clean_field v = (case v of JStr f \<Rightarrow> if field_name_ok f then Some f else None | _ \<Rightarrow> None)"

text \<open>\<open>Number.parseInt(field, 10)\<close> when it is a non-negative integer, of a clean field: its leading digits,
  or a negated zero.\<close>

definition parse_limit :: "string option \<Rightarrow> nat option" where
  "parse_limit field =
     (case field of
        None \<Rightarrow> None
      | Some f \<Rightarrow>
          let neg = (f \<noteq> [] \<and> hd f = CHR ''-'');
              digits = takeWhile is_digit (if neg then tl f else f)
          in if digits = [] then None
             else if neg \<and> digits_value digits \<noteq> 0 then None
             else Some (digits_value digits))"

definition quote_field :: "string \<Rightarrow> string \<Rightarrow> string" where
  "quote_field prefix f = prefix @ [CHR 0x22] @ f @ [CHR 0x22]"

text \<open>The request-shape messages, by skip reason.\<close>

definition unsupported_message :: "string \<Rightarrow> string \<Rightarrow> string option \<Rightarrow> bool \<Rightarrow> string option" where
  "unsupported_message reason m field supports_images =
     (if reason = ''web_search_requires_openrouter'' then
        Some (quote_model m @ '' does not support web search. Retry without the web search plugin or tool, or choose a model that supports it.'')
      else if reason = ''zdr_requested'' then
        Some (quote_model m @ '' does not support zero data retention. Retry without '' @ quote_field [] ''provider.zdr''
          @ '', or choose a model that supports it.'')
      else if reason = ''or_routing_suffix'' then
        Some (quote_model m @ '' does not support routing suffixes. Request the model id without the '' @ quote_field [] '':'' @ '' suffix.'')
      else if reason = ''unsupported_field'' then
        Some (case field of
           Some f \<Rightarrow> quote_field ''The request field '' f @ '' is not supported by the model '' @ quote_field [] m @ ''. Remove it and retry.''
         | None \<Rightarrow> ''The request contains a field the model '' @ quote_field [] m @ '' does not support. Remove it and retry.'')
      else if reason = ''unsupported_message_field'' then
        Some (''A message in this request carries a field the model '' @ quote_field [] m @ '' does not support. Remove it and retry.'')
      else if reason = ''non_text_content'' then
        Some (if supports_images
          then quote_model m @ '' accepts text and PNG, JPEG or WebP images sent as base64 data URLs. Remove other attachments, remote image URLs or oversized images and retry.''
          else quote_model m @ '' accepts text-only messages. Remove image or file content from the conversation and retry.'')
      else if reason = ''too_many_images'' then
        Some (case parse_limit field of
           Some n \<Rightarrow> quote_model m @ '' accepts at most '' @ num_str n @ '' image'' @ (if n = 1 then [] else ''s'')
             @ '' per message. Send fewer images in one message and retry.''
         | None \<Rightarrow> quote_model m @ '' accepts fewer images per message than this request sent. Send fewer images in one message and retry.'')
      else if reason = ''tools_unsupported_by_model'' then
        Some (quote_model m @ '' does not support tool calling. Retry without '' @ quote_field [] ''tools'' @ '', or choose a model that supports it.'')
      else if reason = ''response_format_unsupported'' then
        Some (quote_model m @ '' does not support the requested '' @ quote_field [] ''response_format''
          @ ''. Retry without it, or choose a model that supports it.'')
      else if reason = ''malformed_messages'' then
        Some (quote_field ''The '' ''messages'' @ '' array is not valid for the model '' @ quote_field [] m
          @ ''. Each message needs a role and text content.'')
      else if reason = ''endpoint_not_chat_completions'' then
        Some (quote_model m @ '' is only available on the chat completions endpoint.'')
      else if reason = ''endpoint_not_served_direct'' then
        Some (quote_model m @ '' is not available on this endpoint.'')
      else if reason = ''unmappable_field'' then
        Some (case field of
           Some f \<Rightarrow> quote_field ''The request field '' f @ '' is not supported by the model '' @ quote_field [] m @ ''. Remove it and retry.''
         | None \<Rightarrow> ''The request contains an option the model '' @ quote_field [] m @ '' cannot be served with. Remove it and retry.'')
      else None)"

record skipped_entry =
  sk_provider :: jsv
  sk_reason :: string
  sk_field :: jsv

record failed_entry =
  fl_provider :: jsv
  fl_status :: "nat option"

definition answer_failure :: "string \<Rightarrow> nat option \<Rightarrow> refusal_answer" where
  "answer_failure m status =
     (if status = Some 429 then rate_limited m
      else if status = Some 400 \<or> status = Some 404 \<or> status = Some 422 then upstream_error m
      else unavailable m)"

definition answer_skip :: "string \<Rightarrow> skipped_entry \<Rightarrow> bool \<Rightarrow> refusal_answer" where
  "answer_skip m s supports_images =
     (if List.member unavailable_reasons (sk_reason s) then unavailable m
      else if sk_reason s = ''model_not_in_catalog'' then not_found m
      else case unsupported_message (sk_reason s) m (clean_field (sk_field s)) supports_images of
        None \<Rightarrow> unsupported (quote_model m @ '' cannot be served for this request.'')
      | Some message \<Rightarrow> unsupported message)"

definition classify_direct_only_refusal ::
    "string \<Rightarrow> jsv \<Rightarrow> skipped_entry list \<Rightarrow> failed_entry list \<Rightarrow> bool \<Rightarrow> refusal_answer" where
  "classify_direct_only_refusal model provider skipped failed supports_images =
     (case List.find (\<lambda>f. fl_provider f = provider) failed of
        Some f \<Rightarrow> answer_failure model (fl_status f)
      | None \<Rightarrow>
          (case List.find (\<lambda>s. sk_provider s = provider) skipped of
             None \<Rightarrow> not_found model
           | Some s \<Rightarrow> answer_skip model s supports_images))"

subsection \<open>Properties\<close>

lemma direct_only_not_open_router: "direct_only_for model declared \<noteq> Some ''openrouter''"
  by (auto simp: direct_only_for_def direct_only_namespace_for_def direct_only_namespaces_def
      split: option.splits jsv.splits)

lemma namespace_venice:
  "direct_only_namespace_for (JStr m) = (if starts_with (strip_tilde (lower m)) ''venice/'' then Some ''venice'' else None)"
proof -
  have "m = [] \<Longrightarrow> \<not> starts_with (strip_tilde (lower m)) ''venice/''"
    by (simp add: lower_def strip_tilde_def starts_with_def)
  then show ?thesis by (auto simp: direct_only_namespace_for_def direct_only_namespaces_def)
qed

text \<open>The one upstream of a model is never OpenRouter; every spelling of a Venice id, in any case and
  behind an alias tilde, is Venice's whatever horse-power declares; for any other id it is exactly the
  provider horse-power declares, when that is a plain provider token.\<close>

theorem direct_only_target:
  "direct_only_for model declared \<noteq> Some ''openrouter''
   \<and> direct_only_for (JStr m) declared =
       (if starts_with (strip_tilde (lower m)) ''venice/'' then Some ''venice''
        else if declared_provider_ok (str_of (fld ''provider'' declared))
             \<and> fld ''provider'' declared \<noteq> JStr ''openrouter''
        then Some (str_of (fld ''provider'' declared)) else None)"
proof -
  have empty: "\<not> declared_provider_ok []" by (simp add: declared_provider_ok_def)
  have "direct_only_for (JStr m) declared =
       (if starts_with (strip_tilde (lower m)) ''venice/'' then Some ''venice''
        else if declared_provider_ok (str_of (fld ''provider'' declared))
             \<and> fld ''provider'' declared \<noteq> JStr ''openrouter''
        then Some (str_of (fld ''provider'' declared)) else None)"
    using empty by (cases "fld ''provider'' declared") (simp_all add: direct_only_for_def namespace_venice)
  then show ?thesis using direct_only_not_open_router by blast
qed

lemma find_map_inj:
  assumes "\<And>x. x \<in> set xs \<Longrightarrow> P (f x) = Q x"
  shows "List.find P (map f xs) = map_option f (List.find Q xs)"
  using assms by (induction xs) auto

definition rename_skipped :: "(jsv \<Rightarrow> jsv) \<Rightarrow> skipped_entry \<Rightarrow> skipped_entry" where
  "rename_skipped f s = s\<lparr>sk_provider := f (sk_provider s)\<rparr>"

definition rename_failed :: "(jsv \<Rightarrow> jsv) \<Rightarrow> failed_entry \<Rightarrow> failed_entry" where
  "rename_failed f s = s\<lparr>fl_provider := f (fl_provider s)\<rparr>"

text \<open>The answer to a refused direct-only request names no upstream: it stays the same when all
  providers are renamed. Its status is 400, 404, 429, 502 or 503, and 429 only when the one upstream
  answered 429; and a field name that is not a plain token is never echoed.\<close>

theorem refusal_names_no_provider:
  assumes "inj f"
  shows "classify_direct_only_refusal m (f provider) (map (rename_skipped f) skipped) (map (rename_failed f) failed) i
      = classify_direct_only_refusal m provider skipped failed i
    \<and> rf_status (classify_direct_only_refusal m provider skipped failed i) \<in> {400, 404, 429, 502, 503}
    \<and> (rf_status (classify_direct_only_refusal m provider skipped failed i) = 429
        \<longrightarrow> (\<exists>e \<in> set failed. fl_provider e = provider \<and> fl_status e = Some 429))
    \<and> (clean_field (sk_field s) = None \<longrightarrow> answer_skip m s i = answer_skip m (s\<lparr>sk_field := JUndef\<rparr>) i)"
proof -
  have fails: "List.find (\<lambda>e. fl_provider e = f provider) (map (rename_failed f) failed)
      = map_option (rename_failed f) (List.find (\<lambda>e. fl_provider e = provider) failed)"
    using assms by (intro find_map_inj) (simp add: rename_failed_def inj_eq)
  have skips: "List.find (\<lambda>e. sk_provider e = f provider) (map (rename_skipped f) skipped)
      = map_option (rename_skipped f) (List.find (\<lambda>e. sk_provider e = provider) skipped)"
    using assms by (intro find_map_inj) (simp add: rename_skipped_def inj_eq)
  have skip: "answer_skip m (rename_skipped f e) i = answer_skip m e i" for e
    by (simp add: answer_skip_def rename_skipped_def)
  have status: "rf_status (answer_skip m e i) \<in> {400, 404, 503}" for e
    by (simp add: answer_skip_def unavailable_def not_found_def unsupported_def split: option.split)
  have failure: "rf_status (answer_failure m st) \<in> {429, 502, 503}"
    "rf_status (answer_failure m st) = 429 \<longrightarrow> st = Some 429" for st
    by (simp_all add: answer_failure_def rate_limited_def upstream_error_def unavailable_def)
  have 1: "classify_direct_only_refusal m (f provider) (map (rename_skipped f) skipped) (map (rename_failed f) failed) i
      = classify_direct_only_refusal m provider skipped failed i"
    by (simp add: classify_direct_only_refusal_def fails skips skip rename_failed_def split: option.split)
  have 2: "rf_status (classify_direct_only_refusal m provider skipped failed i) \<in> {400, 404, 429, 502, 503}"
  proof (cases "List.find (\<lambda>e. fl_provider e = provider) failed")
    case None
    then show ?thesis using status
      by (cases "List.find (\<lambda>e. sk_provider e = provider) skipped")
        (auto simp: classify_direct_only_refusal_def not_found_def)
  next
    case (Some e)
    then show ?thesis using failure(1) [of "fl_status e"] by (simp add: classify_direct_only_refusal_def)
  qed
  have 3: "\<exists>e \<in> set failed. fl_provider e = provider \<and> fl_status e = Some 429"
    if "rf_status (classify_direct_only_refusal m provider skipped failed i) = 429"
  proof (cases "List.find (\<lambda>e. fl_provider e = provider) failed")
    case None
    have "rf_status (answer_skip m e i) \<noteq> 429" for e using status [of e] by auto
    then show ?thesis using None that
      by (cases "List.find (\<lambda>e. sk_provider e = provider) skipped")
        (simp_all add: classify_direct_only_refusal_def not_found_def)
  next
    case (Some e)
    then have "fl_status e = Some 429" using that failure(2) by (simp add: classify_direct_only_refusal_def)
    then show ?thesis using Some by (auto simp: find_Some_iff)
  qed
  have 4: "answer_skip m s i = answer_skip m (s\<lparr>sk_field := JUndef\<rparr>) i" if "clean_field (sk_field s) = None"
    using that by (simp add: answer_skip_def clean_field_def)
  show ?thesis using 1 2 3 4 by blast
qed

theorem refusal_names_no_provider_witness:
  "rf_status (classify_direct_only_refusal ''m'' (JStr ''venice'') [] [\<lparr>fl_provider = JStr ''venice'', fl_status = Some 429\<rparr>] False)
     \<in> {400, 404, 429, 502, 503}"
  using refusal_names_no_provider [OF inj_on_id, of "''m''" "JStr ''venice''" "[]"] by blast

end
