(* ===== verification/CandidateLoop.thy ===== *)
theory CandidateLoop
  imports Tinfoil DirectOnly
begin

text \<open>
  How the chat handler of \<open>enclave/src/server.mjs\<close> serves a request from the candidates of an
  authorize answer: the two private-path refusals, the candidate loop with its checks, builders,
  attempts and retries, and how it ends. What the outside does is in the environment: the answer of
  each attempt, whether the client has left at each look, the Bedrock, OpenAI and Anthropic builders,
  the attestation key. Reports, traces and counters are not modelled.
\<close>

subsection \<open>The outside\<close>

record attempt =
  at_res :: bool
  at_status :: "nat option"
  at_retry_after :: jsv

record env =
  ev_or_host :: string
  ev_or_port :: nat
  ev_ports :: "string \<rightharpoonup> nat"
  ev_keys :: "string \<rightharpoonup> string"
  ev_vertex :: "nat \<Rightarrow> string option"
  ev_hpke :: "nat \<Rightarrow> string option"
  ev_seal :: "string \<Rightarrow> jsv \<Rightarrow> jsv"
  ev_bedrock :: "jsv \<Rightarrow> js_error + built"
  ev_openai :: "jsv \<Rightarrow> js_error + built"
  ev_anthropic :: "jsv \<Rightarrow> js_error + built"
  ev_affinity :: "jsv \<Rightarrow> string option"
  ev_parse_date :: "string \<Rightarrow> rat option"
  ev_send :: "nat \<Rightarrow> attempt"
  ev_gone :: "nat \<Rightarrow> bool"

definition attempt_ok :: "attempt \<Rightarrow> bool" where
  "attempt_ok a \<longleftrightarrow> at_res a \<and> (case at_status a of Some n \<Rightarrow> 200 \<le> n \<and> n < 300 | None \<Rightarrow> False)"

subsection \<open>The state and the ends of the loop\<close>

text \<open>\<open>ls_clock\<close> counts the looks at the client and the awaited builds; \<open>ls_sent\<close> records each attempt
  with the clock at which it was made.\<close>

record loop_state =
  ls_skipped :: "skipped_entry list"
  ls_failed :: "failed_entry list"
  ls_last :: "failed_entry option"
  ls_clock :: nat
  ls_sent :: "(nat \<times> spec) list"

definition start_state :: loop_state where
  "start_state = \<lparr>ls_skipped = [], ls_failed = [], ls_last = None, ls_clock = 0, ls_sent = []\<rparr>"

datatype outcome =
    Served spec nat
  | RefusedPrivate
  | RefusedMisrouted
  | RefusedDirectOnly refusal_answer
  | Abandoned
  | Unreachable bool
  | Threw js_error

record request =
  rq_client_model :: jsv
  rq_model :: jsv
  rq_direct_only :: "string option"
  rq_candidates :: "jsv list"
  rq_payload :: jsv
  rq_open_router :: spec
  rq_private :: bool

text \<open>A candidate ends the loop, is passed over, or is ready to be sent.\<close>

datatype flow = End outcome loop_state | Next loop_state | Ready spec loop_state

definition tick :: "loop_state \<Rightarrow> loop_state" where
  "tick st = st\<lparr>ls_clock := Suc (ls_clock st)\<rparr>"

definition if_gone :: "env \<Rightarrow> loop_state \<Rightarrow> (loop_state \<Rightarrow> flow) \<Rightarrow> flow" where
  "if_gone e st k = (if ev_gone e (ls_clock st) then End Abandoned (tick st) else k (tick st))"

definition skip_candidate :: "jsv \<Rightarrow> string \<Rightarrow> jsv \<Rightarrow> loop_state \<Rightarrow> loop_state" where
  "skip_candidate c reason field st =
     st\<lparr>ls_skipped := ls_skipped st @ [\<lparr>sk_provider = fld ''provider'' c, sk_reason = reason, sk_field = field\<rparr>]\<rparr>"

definition fail_candidate :: "jsv \<Rightarrow> nat option \<Rightarrow> loop_state \<Rightarrow> loop_state" where
  "fail_candidate c status st =
     st\<lparr>ls_failed := ls_failed st @ [\<lparr>fl_provider = fld ''provider'' c, fl_status = status\<rparr>]\<rparr>"

definition last_failure :: "jsv \<Rightarrow> nat option \<Rightarrow> loop_state \<Rightarrow> loop_state" where
  "last_failure c status st =
     st\<lparr>ls_last := Some \<lparr>fl_provider = fld ''provider'' c, fl_status = status\<rparr>\<rparr>"

text \<open>\<open>attemptUpstream\<close>.\<close>

definition send :: "env \<Rightarrow> spec \<Rightarrow> loop_state \<Rightarrow> attempt \<times> loop_state" where
  "send e s st = (ev_send e (length (ls_sent st)), st\<lparr>ls_sent := ls_sent st @ [(ls_clock st, s)]\<rparr>)"

subsection \<open>Retry of the terminal\<close>

definition retried_upstream_statuses :: "nat list" where
  "retried_upstream_statuses = [429, 503]"

definition upstream_retry_delay_ms_default :: rat where "upstream_retry_delay_ms_default = 500"
definition upstream_retry_max_delay_ms :: rat where "upstream_retry_max_delay_ms = 2000"

text \<open>\<open>upstreamRetryDelayMs\<close> of a header text; \<open>Date.parse(text) - now\<close> is a parameter.\<close>

definition upstream_retry_delay_ms :: "(string \<Rightarrow> rat option) \<Rightarrow> jsv \<Rightarrow> rat option" where
  "upstream_retry_delay_ms until v =
     (case v of
        JStr s \<Rightarrow>
          if s = [] then Some upstream_retry_delay_ms_default
          else
            let text = trim s;
                ms = (if text \<noteq> [] \<and> list_all is_digit text then Some (of_nat (digits_value text) * 1000)
                      else map_option (max 0) (until text))
            in (case ms of
                  None \<Rightarrow> Some upstream_retry_delay_ms_default
                | Some m \<Rightarrow> if upstream_retry_max_delay_ms < m then None else Some m)
      | _ \<Rightarrow> Some upstream_retry_delay_ms_default)"

subsection \<open>Building a candidate\<close>

definition reason_name :: "provider_refusal \<Rightarrow> string" where
  "reason_name r =
     (case r of
        ProviderUnknown \<Rightarrow> ''provider_unknown''
      | ProviderHostMismatch \<Rightarrow> ''provider_host_mismatch''
      | ProviderKeyMismatch \<Rightarrow> ''provider_key_mismatch''
      | ProviderApiStyleMismatch \<Rightarrow> ''provider_api_style_mismatch'')"

definition binding_violation :: string where
  "binding_violation = ''upstream_not_bound_to_family''"

definition build_tinfoil_candidate :: "env \<Rightarrow> request \<Rightarrow> jsv \<Rightarrow> loop_state \<Rightarrow> built" where
  "build_tinfoil_candidate e r c st =
     build_tinfoil_request (ev_seal e) c (rq_payload r) (ev_ports e) (ev_keys e) (ev_hpke e (ls_clock st))"

definition keys_for :: "env \<Rightarrow> jsv \<Rightarrow> loop_state \<Rightarrow> (string \<rightharpoonup> string)" where
  "keys_for e c st =
     (if fld ''key_ref'' c = JStr ''vertex'' then (ev_keys e)(''vertex'' := ev_vertex e (ls_clock st)) else ev_keys e)"

definition build_candidate :: "env \<Rightarrow> request \<Rightarrow> jsv \<Rightarrow> loop_state \<Rightarrow> js_error + built" where
  "build_candidate e r c st =
     (let style = fld ''api_style'' c
      in if is_tinfoil_candidate c then Inr (build_tinfoil_candidate e r c st)
         else if style = JStr ''bedrock'' then ev_bedrock e c
         else if style = JStr ''openai-responses'' then ev_openai e c
         else if style = JStr ''anthropic'' then ev_anthropic e c
         else build_direct_request c (rq_payload r) (ev_ports e) (keys_for e c st)
                (if List.member fireworks_wire_providers (str_of (fld ''provider'' c))
                 then ev_affinity e (fld ''messages'' (rq_payload r)) else None))"

definition skip_reason :: "skip \<Rightarrow> string" where
  "skip_reason s = (case s of Skip reason field \<Rightarrow> reason)"

definition skip_field :: "skip \<Rightarrow> jsv" where
  "skip_field s = (case s of Skip reason (Some f) \<Rightarrow> JStr f | _ \<Rightarrow> JUndef)"

text \<open>A direct candidate: the direct-only rule, the provider binding, the build, the family binding.\<close>

definition prepare_direct :: "env \<Rightarrow> request \<Rightarrow> jsv \<Rightarrow> loop_state \<Rightarrow> flow" where
  "prepare_direct e r c st =
     (if c = JNull \<or> c = JUndef then End (Threw TypeError) st
      else if (case rq_direct_only r of Some p \<Rightarrow> fld ''provider'' c \<noteq> JStr p | None \<Rightarrow> False) then
        Next (skip_candidate c ''not_the_direct_only_provider'' JUndef st)
      else case check_provider_binding c of
        Some (reason, field) \<Rightarrow> Next (skip_candidate c (reason_name reason) (JStr field) st)
      | None \<Rightarrow>
          (case build_candidate e r c st of
             Inl err \<Rightarrow> End (Threw err) st
           | Inr (Skipped s) \<Rightarrow>
               if_gone e (skip_candidate c (skip_reason s) (skip_field s) (tick st)) Next
           | Inr (Built s) \<Rightarrow>
               (case check_bindings [rq_client_model r, rq_model r] (sp_host s) of
                  Some _ \<Rightarrow> Next (skip_candidate c binding_violation (sp_host s) (tick st))
                | None \<Rightarrow> Ready s (tick st))))"

definition refused_model :: "request \<Rightarrow> string" where
  "refused_model r = (if truthy (rq_client_model r) then str_of (rq_client_model r) else str_of (rq_model r))"

definition supports_images :: "request \<Rightarrow> string \<Rightarrow> bool" where
  "supports_images r p =
     (case List.find (\<lambda>c. fld ''provider'' c = JStr p) (rq_candidates r) of
        Some c \<Rightarrow> fld ''supports_image_input'' c = JTrue | None \<Rightarrow> False)"

definition prepare_open_router :: "env \<Rightarrow> request \<Rightarrow> loop_state \<Rightarrow> flow" where
  "prepare_open_router e r st =
     (case rq_direct_only r of
        None \<Rightarrow> Ready (rq_open_router r) st
      | Some p \<Rightarrow>
          if_gone e st (\<lambda>st'. End (RefusedDirectOnly
            (classify_direct_only_refusal (refused_model r) (JStr p) (ls_skipped st') (ls_failed st')
               (supports_images r p))) st'))"

subsection \<open>Attempting a candidate\<close>

text \<open>What becomes of an attempt: it is the answer, or the candidate has failed.\<close>

definition settle_attempt :: "jsv \<Rightarrow> bool \<Rightarrow> spec \<Rightarrow> attempt \<Rightarrow> loop_state \<Rightarrow> flow" where
  "settle_attempt c terminal s a st =
     (if at_res a \<and> (attempt_ok a \<or> terminal) then
        End (Served s (case at_status a of Some n \<Rightarrow> if n = 0 then 200 else n | None \<Rightarrow> 200)) st
      else
        let st' = fail_candidate c (at_status a) (last_failure c (at_status a) st)
        in if terminal then End (Unreachable False) st' else Next st')"

text \<open>A throttled terminal is tried once more after the delay it names.\<close>

definition retry_open_router :: "env \<Rightarrow> jsv \<Rightarrow> bool \<Rightarrow> spec \<Rightarrow> attempt \<Rightarrow> loop_state \<Rightarrow> flow" where
  "retry_open_router e c terminal s a st =
     (if terminal \<and> is_open_router c \<and> at_res a
         \<and> (case at_status a of Some n \<Rightarrow> List.member retried_upstream_statuses n | None \<Rightarrow> False) then
        (case upstream_retry_delay_ms (ev_parse_date e) (at_retry_after a) of
           None \<Rightarrow> settle_attempt c terminal s a st
         | Some delay \<Rightarrow>
             if_gone e (fail_candidate c (at_status a) st) (\<lambda>st'.
               let (a', st'') = send e s st' in settle_attempt c terminal s a' st''))
      else settle_attempt c terminal s a st)"

text \<open>A router that no longer holds the key is attested again and sent a fresh seal, once.\<close>

definition reattest :: "env \<Rightarrow> request \<Rightarrow> jsv \<Rightarrow> bool \<Rightarrow> spec \<Rightarrow> attempt \<Rightarrow> loop_state \<Rightarrow> flow" where
  "reattest e r c terminal s a st =
     (if sp_style s = ''tinfoil'' \<and> at_status a = Some key_config_mismatch_status then
        let rebuilt = build_tinfoil_candidate e r c st; st1 = tick st
        in if ev_gone e (ls_clock st1) then End Abandoned (fail_candidate c (at_status a) (tick st1))
           else case rebuilt of
             Skipped _ \<Rightarrow> retry_open_router e c terminal s (a\<lparr>at_res := False\<rparr>) (tick st1)
           | Built s' \<Rightarrow>
               let (a', st2) = send e s' (tick st1) in retry_open_router e c terminal s' a' st2
      else retry_open_router e c terminal s a st)"

definition attempt_candidate :: "env \<Rightarrow> request \<Rightarrow> jsv \<Rightarrow> bool \<Rightarrow> spec \<Rightarrow> loop_state \<Rightarrow> flow" where
  "attempt_candidate e r c terminal s st =
     if_gone e st (\<lambda>st1. let (a, st2) = send e s st1 in reattest e r c terminal s a st2)"

subsection \<open>The loop\<close>

definition serve_candidate :: "env \<Rightarrow> request \<Rightarrow> jsv \<Rightarrow> bool \<Rightarrow> loop_state \<Rightarrow> flow" where
  "serve_candidate e r c terminal st =
     (case (if is_open_router c then prepare_open_router e r st else prepare_direct e r c st) of
        Ready s st' \<Rightarrow> attempt_candidate e r c terminal s st'
      | f \<Rightarrow> f)"

fun serve_loop :: "env \<Rightarrow> request \<Rightarrow> jsv list \<Rightarrow> loop_state \<Rightarrow> outcome \<times> loop_state" where
  "serve_loop e r [] st =
     (if ev_gone e (ls_clock st) then (Abandoned, tick st) else (Unreachable (rq_private r), tick st))"
| "serve_loop e r (c # cs) st =
     (case serve_candidate e r c (cs = []) st of
        End out st' \<Rightarrow> (out, st')
      | Next st' \<Rightarrow> serve_loop e r cs st'
      | Ready _ st' \<Rightarrow> serve_loop e r cs st')"

text \<open>\<open>directOnlyNamespaceFor(model) || directOnlyFor(clientModel, auth.direct_only)\<close>.\<close>

definition request_direct_only :: "jsv \<Rightarrow> jsv \<Rightarrow> jsv \<Rightarrow> string option" where
  "request_direct_only model client_model declared =
     (case direct_only_namespace_for model of Some p \<Rightarrow> Some p | None \<Rightarrow> direct_only_for client_model declared)"

text \<open>From the authorize answer to the end of the loop.\<close>

definition open_router_spec :: "env \<Rightarrow> jsv \<Rightarrow> spec" where
  "open_router_spec e body =
     \<lparr>sp_direct = False, sp_provider = JStr ''openrouter'', sp_host = JStr (ev_or_host e),
      sp_path = JStr ''/api/v1/chat/completions'', sp_port = ev_or_port e,
      sp_key = (case ev_keys e ''openrouter'' of Some k \<Rightarrow> k | None \<Rightarrow> []),
      sp_affinity = None, sp_style = [], sp_body = body\<rparr>"

definition make_request :: "jsv list \<Rightarrow> jsv \<Rightarrow> jsv \<Rightarrow> jsv \<Rightarrow> jsv \<Rightarrow> spec \<Rightarrow> request" where
  "make_request normalized client_model model declared payload or_spec =
     (let private = has_tinfoil_candidate normalized
      in \<lparr>rq_client_model = client_model, rq_model = model,
          rq_direct_only = request_direct_only model client_model declared,
          rq_candidates = (if private then private_candidates normalized else normalized),
          rq_payload = payload, rq_open_router = or_spec, rq_private = private\<rparr>)"

definition serve_request ::
    "env \<Rightarrow> jsv \<Rightarrow> jsv \<Rightarrow> jsv \<Rightarrow> jsv \<Rightarrow> jsv \<Rightarrow> jsv \<Rightarrow> outcome \<times> loop_state" where
  "serve_request e upstreams client_model model declared payload or_body =
     (let normalized = normalize_candidates upstreams
      in if refuses_unrouted_private model normalized then (RefusedPrivate, start_state)
         else if refuses_misrouted_to_tinfoil model normalized then (RefusedMisrouted, start_state)
         else
           let r = make_request normalized client_model model declared payload (open_router_spec e or_body)
           in serve_loop e r (rq_candidates r) start_state)"

subsection \<open>What is sent\<close>

definition flow_state :: "flow \<Rightarrow> loop_state" where
  "flow_state f = (case f of End _ st \<Rightarrow> st | Next st \<Rightarrow> st | Ready _ st \<Rightarrow> st)"

lemma flow_state_simps [simp]:
  "flow_state (End out st) = st" "flow_state (Next st) = st" "flow_state (Ready s st) = st"
  by (simp_all add: flow_state_def)

lemma state_simps [simp]:
  "ls_sent (tick st) = ls_sent st" "ls_clock (tick st) = Suc (ls_clock st)"
  "ls_sent (skip_candidate c n f st) = ls_sent st" "ls_clock (skip_candidate c n f st) = ls_clock st"
  "ls_sent (fail_candidate c n' st) = ls_sent st" "ls_clock (fail_candidate c n' st) = ls_clock st"
  "ls_sent (last_failure c n' st) = ls_sent st" "ls_clock (last_failure c n' st) = ls_clock st"
  by (simp_all add: tick_def skip_candidate_def fail_candidate_def last_failure_def)

text \<open>The attempts made between two states: at most \<open>n\<close>, each with a spec that satisfies \<open>P\<close>, each right
  after a look that found the client present.\<close>

definition sent_between :: "env \<Rightarrow> (spec \<Rightarrow> bool) \<Rightarrow> nat \<Rightarrow> loop_state \<Rightarrow> loop_state \<Rightarrow> bool" where
  "sent_between e P n st st' \<longleftrightarrow>
     (\<exists>xs. ls_sent st' = ls_sent st @ xs \<and> length xs \<le> n
        \<and> (\<forall>(k, s) \<in> set xs. P s \<and> 0 < k \<and> \<not> ev_gone e (k - 1)))"

named_theorems sent_intros \<open>how the steps of the loop extend the attempts made\<close>

lemma sent_none [sent_intros]: "ls_sent st' = ls_sent st \<Longrightarrow> sent_between e P n st st'"
  by (auto simp: sent_between_def)

lemma sent_trans: "sent_between e P m st st' \<Longrightarrow> sent_between e P n st' st'' \<Longrightarrow> sent_between e P (m + n) st st''"
  unfolding sent_between_def by (elim exE conjE) (rule_tac x = "xs @ xsa" in exI, auto)

lemma sent_weaken:
  "sent_between e P m st st' \<Longrightarrow> m \<le> n \<Longrightarrow> (\<And>s. P s \<Longrightarrow> Q s) \<Longrightarrow> sent_between e Q n st st'"
  by (fastforce simp: sent_between_def)

lemma sent_one:
  assumes "P s" and "st' = tick st" and "\<not> ev_gone e (ls_clock st)"
  shows "sent_between e P (Suc 0) st (snd (send e s st'))"
  using assms by (simp add: sent_between_def send_def)

lemma if_gone_sent:
  assumes "\<not> ev_gone e (ls_clock st) \<Longrightarrow> sent_between e P n st (flow_state (k (tick st)))"
  shows "sent_between e P n st (flow_state (if_gone e st k))"
  using assms by (simp add: if_gone_def sent_none)

lemma settle_sent: "sent_between e P n st (flow_state (settle_attempt c t s a st))"
  by (rule sent_none) (simp add: settle_attempt_def Let_def)

lemma send_sent:
  assumes "P s" and "\<not> ev_gone e (ls_clock st)"
    and "\<And>a st''. sent_between e P n st'' (flow_state (k a st''))"
  shows "sent_between e P (Suc n) st (flow_state (case send e s (tick st) of (a, st'') \<Rightarrow> k a st''))"
proof -
  have "sent_between e P (Suc 0 + n) st (flow_state (k (fst (send e s (tick st))) (snd (send e s (tick st)))))"
    by (rule sent_trans [OF sent_one assms(3)]) (use assms(1,2) in simp_all)
  then show ?thesis by (simp add: case_prod_beta)
qed

lemma sent_same_start: "sent_between e P n st' st'' \<Longrightarrow> ls_sent st' = ls_sent st \<Longrightarrow> sent_between e P n st st''"
  by (simp add: sent_between_def)

lemma retry_sent:
  assumes "P s" and "is_open_router c \<longrightarrow> 0 < n"
  shows "sent_between e P n st (flow_state (retry_open_router e c t s a st))"
proof (cases "t \<and> is_open_router c \<and> at_res a
         \<and> (case at_status a of Some n \<Rightarrow> List.member retried_upstream_statuses n | None \<Rightarrow> False)")
  case True
  then obtain m where n: "n = Suc m" using assms(2) by (cases n) auto
  show ?thesis
  proof (cases "upstream_retry_delay_ms (ev_parse_date e) (at_retry_after a)")
    case None
    then show ?thesis unfolding retry_open_router_def if_P [OF True] by (simp add: settle_sent)
  next
    case (Some delay)
    let ?st = "fail_candidate c (at_status a) st"
    have "sent_between e P (Suc m) ?st (flow_state (if_gone e ?st (\<lambda>st'.
        case send e s st' of (a', st'') \<Rightarrow> settle_attempt c t s a' st'')))"
      by (rule if_gone_sent) (rule send_sent [where P = P, OF assms(1) _ settle_sent])
    then have "sent_between e P (Suc m) st (flow_state (if_gone e ?st (\<lambda>st'.
        case send e s st' of (a', st'') \<Rightarrow> settle_attempt c t s a' st'')))"
      by (rule sent_same_start) simp
    then show ?thesis
      unfolding retry_open_router_def if_P [OF True] by (simp add: Some n Let_def)
  qed
next
  case False
  show ?thesis unfolding retry_open_router_def if_not_P [OF False] by (rule settle_sent)
qed

text \<open>A spec of style Tinfoil may be resealed by the Tinfoil builder.\<close>

definition resealed :: "env \<Rightarrow> request \<Rightarrow> jsv \<Rightarrow> spec \<Rightarrow> spec \<Rightarrow> bool" where
  "resealed e r c s s' \<longleftrightarrow> s' = s \<or> (sp_style s = ''tinfoil'' \<and> (\<exists>st. build_tinfoil_candidate e r c st = Built s'))"

lemma reattest_sent:
  assumes "\<And>s'. resealed e r c s s' \<Longrightarrow> P s'" and "is_open_router c \<longrightarrow> sp_style s \<noteq> ''tinfoil''"
  shows "sent_between e P 1 st (flow_state (reattest e r c t s a st))"
proof (cases "sp_style s = ''tinfoil'' \<and> at_status a = Some key_config_mismatch_status")
  case True
  then have nor: "\<not> is_open_router c" using assms(2) by blast
  have Ps: "P s" using assms(1) by (simp add: resealed_def)
  show ?thesis
  proof (cases "ev_gone e (ls_clock (tick st))")
    case True
    then show ?thesis
      using \<open>sp_style s = ''tinfoil'' \<and> _\<close> by (simp add: reattest_def sent_none)
  next
    case False
    show ?thesis
    proof (cases "build_tinfoil_candidate e r c st")
      case (Skipped x)
      have "sent_between e P 1 (tick (tick st)) (flow_state (retry_open_router e c t s (a\<lparr>at_res := False\<rparr>) (tick (tick st))))"
        by (rule retry_sent) (simp_all add: Ps)
      then show ?thesis
        using True False Skipped by (simp add: reattest_def Let_def sent_between_def)
    next
      case (Built s')
      have "P s'" using assms(1) Built True by (auto simp: resealed_def)
      then have "sent_between e P (Suc 0) (tick st)
          (flow_state (case send e s' (tick (tick st)) of (a', st2) \<Rightarrow> retry_open_router e c t s' a' st2))"
        using False nor by (intro send_sent retry_sent) simp_all
      then show ?thesis
        using True False Built by (simp add: reattest_def Let_def sent_between_def)
    qed
  qed
next
  case False
  have "P s" using assms(1) by (simp add: resealed_def)
  show ?thesis
    unfolding reattest_def if_not_P [OF False] by (rule retry_sent [where P = P, OF \<open>P s\<close>]) simp
qed

lemma attempt_sent:
  assumes "\<And>s'. resealed e r c s s' \<Longrightarrow> P s'" and "is_open_router c \<longrightarrow> sp_style s \<noteq> ''tinfoil''"
  shows "sent_between e P 2 st (flow_state (attempt_candidate e r c t s st))"
proof -
  have "P s" using assms(1) by (simp add: resealed_def)
  then have "sent_between e P (Suc 1) st (flow_state (if_gone e st (\<lambda>st1.
      case send e s st1 of (a, st2) \<Rightarrow> reattest e r c t s a st2)))"
    using assms(2) by (intro if_gone_sent send_sent reattest_sent [OF assms(1)]) 
  then show ?thesis by (simp add: attempt_candidate_def Let_def numeral_2_eq_2)
qed

subsection \<open>Which specs are sent\<close>

text \<open>What the three builders that are parameters are relied on for: only the Tinfoil builder makes specs of
  style Tinfoil.\<close>

definition builders_ok :: "env \<Rightarrow> bool" where
  "builders_ok e \<longleftrightarrow>
     (\<forall>c s. (ev_bedrock e c = Inr (Built s) \<or> ev_openai e c = Inr (Built s) \<or> ev_anthropic e c = Inr (Built s))
        \<longrightarrow> sp_style s \<noteq> ''tinfoil'')"

definition permitted :: "env \<Rightarrow> request \<Rightarrow> jsv \<Rightarrow> spec \<Rightarrow> bool" where
  "permitted e r c s \<longleftrightarrow>
     (if is_open_router c then s = rq_open_router r \<and> rq_direct_only r = None
      else (\<forall>p. rq_direct_only r = Some p \<longrightarrow> fld ''provider'' c = JStr p)
        \<and> check_provider_binding c = None
        \<and> check_bindings [rq_client_model r, rq_model r] (sp_host s) = None
        \<and> (\<exists>st. build_candidate e r c st = Inr (Built s)))"

lemma tinfoil_build:
  "build_tinfoil_candidate e r c st = Built s \<Longrightarrow> sp_host s = fld ''host'' c \<and> sp_style s = ''tinfoil''"
  by (auto simp: build_tinfoil_candidate_def build_tinfoil_request_def Let_def split: if_splits option.splits)

lemma build_style:
  assumes "builders_ok e" and "build_candidate e r c st = Inr (Built s)" and "sp_style s = ''tinfoil''"
  shows "is_tinfoil_candidate c \<and> build_tinfoil_candidate e r c st = Built s"
proof (cases "is_tinfoil_candidate c")
  case True
  then show ?thesis using assms(2) by (simp add: build_candidate_def)
next
  case False
  have "sp_style s = ''openai''" if "build_direct_request c p ports keys aff = Inr (Built s)" for p ports keys aff
    using build_direct_cases(5) [OF that] by (metis spec.select_convs(8))
  then show ?thesis
    using assms False by (auto simp: build_candidate_def builders_ok_def Let_def split: if_splits)
qed

lemma permitted_resealed:
  assumes "builders_ok e" and "permitted e r c s" and "\<not> is_open_router c" and "resealed e r c s s'"
  shows "permitted e r c s'"
proof (cases "s' = s")
  case False
  then obtain st' where s': "sp_style s = ''tinfoil''" "build_tinfoil_candidate e r c st' = Built s'"
    using assms(4) by (auto simp: resealed_def)
  obtain st where s: "build_candidate e r c st = Inr (Built s)"
    using assms(2,3) by (auto simp: permitted_def)
  note t = build_style [OF assms(1) s s'(1)]
  have "sp_host s' = sp_host s" using t s'(2) tinfoil_build by metis
  moreover have "build_candidate e r c st' = Inr (Built s')" using t s'(2) by (simp add: build_candidate_def)
  ultimately show ?thesis using assms(2,3) by (auto simp: permitted_def)
qed (use assms in simp)

lemma direct_ready:
  assumes "prepare_direct e r c st = Ready s st'"
  shows "ls_sent st' = ls_sent st" and "\<not> is_open_router c \<Longrightarrow> permitted e r c s"
  using assms
  by (auto simp: prepare_direct_def permitted_def if_gone_def split: if_splits option.splits sum.splits built.splits)

lemma direct_sent: "ls_sent (flow_state (prepare_direct e r c st)) = ls_sent st"
  by (simp add: prepare_direct_def if_gone_def split: option.split sum.split built.split)

lemma open_router_ready:
  assumes "prepare_open_router e r st = Ready s st'"
  shows "st' = st" and "is_open_router c \<Longrightarrow> permitted e r c s"
  using assms by (auto simp: prepare_open_router_def permitted_def if_gone_def split: option.splits if_splits)

lemma open_router_sent: "ls_sent (flow_state (prepare_open_router e r st)) = ls_sent st"
  by (simp add: prepare_open_router_def if_gone_def split: option.split)

lemma candidate_sent:
  assumes "builders_ok e" and "sp_style (rq_open_router r) \<noteq> ''tinfoil''"
  shows "sent_between e (permitted e r c) 2 st (flow_state (serve_candidate e r c t st))"
proof -
  let ?f = "if is_open_router c then prepare_open_router e r st else prepare_direct e r c st"
  have same: "ls_sent (flow_state ?f) = ls_sent st" by (simp add: direct_sent open_router_sent)
  show ?thesis
  proof (cases ?f)
    case (Ready s st')
    have st': "ls_sent st' = ls_sent st" using same Ready by simp
    have s: "permitted e r c s"
      using Ready direct_ready(2) open_router_ready(2) by (cases "is_open_router c") auto
    have or: "is_open_router c \<longrightarrow> sp_style s \<noteq> ''tinfoil''" using s assms(2) by (auto simp: permitted_def)
    have "permitted e r c s'" if "resealed e r c s s'" for s'
    proof (cases "is_open_router c")
      case True
      then show ?thesis using that or s by (simp add: resealed_def)
    next
      case False
      then show ?thesis using permitted_resealed [OF assms(1) s _ that] by blast
    qed
    then have "sent_between e (permitted e r c) 2 st' (flow_state (attempt_candidate e r c t s st'))"
      using or by (rule attempt_sent)
    then show ?thesis using Ready st' by (simp add: serve_candidate_def sent_between_def)
  qed (use same in \<open>simp_all add: serve_candidate_def sent_none\<close>)
qed

lemma loop_sent:
  assumes "builders_ok e" and "sp_style (rq_open_router r) \<noteq> ''tinfoil''"
  shows "sent_between e (\<lambda>s. \<exists>c \<in> set cs. permitted e r c s) (2 * length cs) st (snd (serve_loop e r cs st))"
proof (induction cs arbitrary: st)
  case Nil
  then show ?case by (simp add: sent_none)
next
  case (Cons c cs)
  let ?P = "\<lambda>s. \<exists>x \<in> set (c # cs). permitted e r x s"
  let ?f = "serve_candidate e r c (cs = []) st"
  have first: "sent_between e ?P 2 st (flow_state ?f)"
    using candidate_sent [OF assms] by (rule sent_weaken) auto
  have rest: "sent_between e ?P (2 * length cs) st' (snd (serve_loop e r cs st'))" for st'
    using Cons.IH by (rule sent_weaken) auto
  show ?case
  proof (cases ?f)
    case (End out st')
    then show ?thesis using sent_weaken [OF first, of "2 * length (c # cs)" ?P] by simp
  next
    case (Next st')
    then show ?thesis using sent_trans [OF first, of "2 * length cs"] rest [of st'] by simp
  next
    case (Ready s st')
    then show ?thesis using sent_trans [OF first, of "2 * length cs"] rest [of st'] by simp
  qed
qed

lemma open_router_style: "sp_style (open_router_spec e body) \<noteq> ''tinfoil''"
  by (simp add: open_router_spec_def)

text \<open>The request the loop runs on, when neither private-path rule refuses.\<close>

definition request_of :: "env \<Rightarrow> jsv \<Rightarrow> jsv \<Rightarrow> jsv \<Rightarrow> jsv \<Rightarrow> jsv \<Rightarrow> jsv \<Rightarrow> request" where
  "request_of e us cm m decl payload or_body =
     make_request (normalize_candidates us) cm m decl payload (open_router_spec e or_body)"

lemma serve_request_cases:
  obtains (refused) out where "serve_request e us cm m decl p b = (out, start_state)"
      "out = RefusedPrivate \<or> out = RefusedMisrouted"
  | (loop) "serve_request e us cm m decl p b =
        serve_loop e (request_of e us cm m decl p b) (rq_candidates (request_of e us cm m decl p b)) start_state"
      "is_private_model m \<longleftrightarrow> has_tinfoil_candidate (normalize_candidates us)"
proof -
  let ?n = "normalize_candidates us"
  consider (unrouted) "refuses_unrouted_private m ?n" | (misrouted) "\<not> refuses_unrouted_private m ?n" "refuses_misrouted_to_tinfoil m ?n"
    | (routed) "\<not> refuses_unrouted_private m ?n" "\<not> refuses_misrouted_to_tinfoil m ?n" by blast
  then show ?thesis
  proof cases
    case unrouted
    then show ?thesis using refused by (simp add: serve_request_def)
  next
    case misrouted
    then show ?thesis using refused by (simp add: serve_request_def)
  next
    case routed
    then have "is_private_model m \<longleftrightarrow> has_tinfoil_candidate ?n"
      by (auto simp: refuses_unrouted_private_def refuses_misrouted_to_tinfoil_def)
    with routed show ?thesis using loop by (simp add: serve_request_def request_of_def Let_def)
  qed
qed

lemma request_sent:
  assumes "builders_ok e" and "(k, s) \<in> set (ls_sent (snd (serve_request e us cm m decl p b)))"
  shows "0 < k" and "\<not> ev_gone e (k - 1)"
    and "\<exists>c \<in> set (rq_candidates (request_of e us cm m decl p b)). permitted e (request_of e us cm m decl p b) c s"
    and "is_private_model m \<longleftrightarrow> has_tinfoil_candidate (normalize_candidates us)"
proof -
  let ?r = "request_of e us cm m decl p b"
  have style: "sp_style (rq_open_router ?r) \<noteq> ''tinfoil''"
    by (simp add: request_of_def make_request_def Let_def open_router_style)
  have loop: "serve_request e us cm m decl p b = serve_loop e ?r (rq_candidates ?r) start_state
      \<and> (is_private_model m \<longleftrightarrow> has_tinfoil_candidate (normalize_candidates us))"
    using assms(2) by (cases rule: serve_request_cases [of e us cm m decl p b]) (auto simp: start_state_def)
  have "(k, s) \<in> set (ls_sent (snd (serve_loop e ?r (rq_candidates ?r) start_state)))"
    using assms(2) loop by simp
  then have "(\<exists>c \<in> set (rq_candidates ?r). permitted e ?r c s) \<and> 0 < k \<and> \<not> ev_gone e (k - 1)"
    using loop_sent [OF assms(1) style, of "rq_candidates ?r" start_state]
    by (auto simp: sent_between_def start_state_def)
  then show "0 < k" "\<not> ev_gone e (k - 1)" "\<exists>c \<in> set (rq_candidates ?r). permitted e ?r c s" by blast+
  show "is_private_model m \<longleftrightarrow> has_tinfoil_candidate (normalize_candidates us)" using loop by blast
qed

subsection \<open>Properties\<close>

lemma rq_simps [simp]:
  "rq_client_model (request_of e us cm m decl p b) = cm" "rq_model (request_of e us cm m decl p b) = m"
  "rq_direct_only (request_of e us cm m decl p b) = request_direct_only m cm decl"
  "rq_open_router (request_of e us cm m decl p b) = open_router_spec e b"
  "rq_payload (request_of e us cm m decl p b) = p"
  "rq_private (request_of e us cm m decl p b) = has_tinfoil_candidate (normalize_candidates us)"
  "rq_candidates (request_of e us cm m decl p b) =
     (if has_tinfoil_candidate (normalize_candidates us) then private_candidates (normalize_candidates us)
      else normalize_candidates us)"
  by (simp_all add: request_of_def make_request_def Let_def)


text \<open>A small outside: every attempt answers 200, the client stays.\<close>

definition demo_env :: env where
  "demo_env = \<lparr>ev_or_host = ''openrouter.ai'', ev_or_port = 8100,
     ev_ports = demo_ports(tinfoil_host \<mapsto> 8103), ev_keys = demo_keys(''tinfoil'' \<mapsto> ''tk'', ''openrouter'' \<mapsto> ''ok''),
     ev_vertex = (\<lambda>_. None), ev_hpke = (\<lambda>_. Some ''pk''), ev_seal = (\<lambda>pk body. JStr ''sealed''),
     ev_bedrock = (\<lambda>_. Inr (Skipped (Skip ''no_tunnel_or_key'' None))),
     ev_openai = (\<lambda>_. Inr (Skipped (Skip ''no_tunnel_or_key'' None))),
     ev_anthropic = (\<lambda>_. Inr (Skipped (Skip ''no_tunnel_or_key'' None))),
     ev_affinity = (\<lambda>_. None), ev_parse_date = (\<lambda>_. None),
     ev_send = (\<lambda>_. \<lparr>at_res = True, at_status = Some 200, at_retry_after = JUndef\<rparr>), ev_gone = (\<lambda>_. False)\<rparr>"

lemma demo_builders_ok: "builders_ok demo_env"
  by (simp add: builders_ok_def demo_env_def)

lemma demo_open_router_sent:
  "ls_sent (snd (serve_request demo_env (JArr []) (JStr ''a/b'') (JStr ''a/b'') JUndef JNull JNull)) =
     [(1, open_router_spec demo_env JNull)]"
proof -
  have n: "normalize_candidates (JArr []) = [open_router_candidate]"
    by (simp add: normalize_candidates_def)
  have priv: "\<not> is_private_model (JStr ''a/b'')" "\<not> has_tinfoil_candidate [open_router_candidate]"
    and d: "request_direct_only (JStr ''a/b'') (JStr ''a/b'') JUndef = None"
    and o: "is_open_router open_router_candidate" by code_simp+
  show ?thesis
    using priv d o
    by (simp add: serve_request_def n refuses_unrouted_private_def refuses_misrouted_to_tinfoil_def make_request_def
        Let_def serve_candidate_def prepare_open_router_def attempt_candidate_def if_gone_def send_def reattest_def
        retry_open_router_def settle_attempt_def open_router_style attempt_ok_def demo_env_def start_state_def tick_def
        retried_upstream_statuses_def)
qed



definition demo_tinfoil_candidate :: jsv where
  "demo_tinfoil_candidate = JObj
     [(''provider'', JStr ''tinfoil''), (''host'', JStr tinfoil_host), (''key_ref'', JStr ''tinfoil''),
      (''api_style'', JStr ''openai''), (''upstream_model'', JStr ''glm'')]"


text \<open>C20: The private rule of the chat path judges the resolved model alone: when horse-power resolves a
  client's private model to a public one and names no upstream, the request is sent to OpenRouter in
  clear, whatever the client asked for.\<close>

theorem private_literal_to_open_router:
  assumes "is_private_model cm" and "\<not> is_private_model m" and "request_direct_only m cm decl = None"
    and "\<not> ev_gone e 0"
  shows "(1, open_router_spec e b) \<in> set (ls_sent (snd (serve_request e (JArr []) cm m decl p b)))"
proof -
  have n: "normalize_candidates (JArr []) = [open_router_candidate]"
    by (simp add: normalize_candidates_def)
  have t: "\<not> has_tinfoil_candidate [open_router_candidate]" and o: "is_open_router open_router_candidate"
    by code_simp+
  let ?r = "request_of e (JArr []) cm m decl p b"
  have loop: "serve_request e (JArr []) cm m decl p b = serve_loop e ?r [open_router_candidate] start_state"
    using assms(2) t by (simp add: serve_request_def n refuses_unrouted_private_def
        refuses_misrouted_to_tinfoil_def request_of_def Let_def make_request_def)
  let ?s = "open_router_spec e b" and ?c = open_router_candidate
  have step: "serve_candidate e ?r ?c True start_state =
      reattest e ?r ?c True ?s (ev_send e 0) (snd (send e ?s (tick start_state)))"
    using o assms(3,4)
    by (simp add: serve_candidate_def prepare_open_router_def attempt_candidate_def if_gone_def send_def
        start_state_def tick_def)
  have "sent_between e (\<lambda>_. True) 1 (snd (send e ?s (tick start_state)))
      (flow_state (reattest e ?r ?c True ?s (ev_send e 0) (snd (send e ?s (tick start_state)))))"
    by (rule reattest_sent) (simp_all add: open_router_style)
  then have sent: "(1, ?s) \<in> set (ls_sent (flow_state (serve_candidate e ?r ?c True start_state)))"
    unfolding step by (auto simp: sent_between_def send_def start_state_def tick_def)
  show ?thesis
  proof (cases "serve_candidate e ?r ?c True start_state")
    case (Next st)
    then show ?thesis using sent loop by simp
  qed (use sent loop in simp_all)
qed

theorem private_literal_to_open_router_witness:
  "(1, open_router_spec demo_env JNull) \<in> set (ls_sent (snd (serve_request demo_env (JArr [])
      (JStr ''private/glm'') (JStr ''z-ai/glm'') JUndef JNull JNull)))"
proof (rule private_literal_to_open_router)
  show "is_private_model (JStr ''private/glm'')" "\<not> is_private_model (JStr ''z-ai/glm'')"
    "request_direct_only (JStr ''z-ai/glm'') (JStr ''private/glm'') JUndef = None" "\<not> ev_gone demo_env 0"
    by code_simp+
qed

subsection \<open>A request is answered\<close>

definition answered :: "flow \<Rightarrow> bool" where
  "answered f = (case f of End (Served s n) _ \<Rightarrow> 200 \<le> n \<and> n < 300 | _ \<Rightarrow> False)"

definition answered_or_next :: "flow \<Rightarrow> bool" where
  "answered_or_next f \<longleftrightarrow> answered f \<or> (\<exists>st. f = Next st)"

lemma answered_simps [simp]:
  "answered_or_next (Next st)" "answered_or_next (End (Served s n) st) \<longleftrightarrow> 200 \<le> n \<and> n < 300"
  by (simp_all add: answered_or_next_def answered_def)

lemma settle_passed_on: "answered_or_next (settle_attempt c False s a st)"
  by (auto simp: settle_attempt_def attempt_ok_def Let_def split: option.splits)

lemma retry_passed_on: "answered_or_next (retry_open_router e c False s a st)"
  by (simp add: retry_open_router_def settle_passed_on)

lemma reattest_passed_on: "\<forall>k. \<not> ev_gone e k \<Longrightarrow> answered_or_next (reattest e r c False s a st)"
  by (simp add: reattest_def Let_def retry_passed_on split_beta split: built.split)

lemma attempt_passed_on: "\<forall>k. \<not> ev_gone e k \<Longrightarrow> answered_or_next (attempt_candidate e r c False s st)"
  by (simp add: attempt_candidate_def if_gone_def reattest_passed_on split_beta)

lemma direct_prepared:
  assumes "\<forall>k. \<not> ev_gone e k" and "c \<noteq> JNull" and "c \<noteq> JUndef" and "\<forall>st err. build_candidate e r c st \<noteq> Inl err"
  shows "(\<exists>st'. prepare_direct e r c st = Next st') \<or> (\<exists>s st'. prepare_direct e r c st = Ready s st')"
  using assms by (auto simp: prepare_direct_def if_gone_def split: option.split sum.split built.split)

lemma direct_passed_on:
  assumes "\<forall>k. \<not> ev_gone e k" and "c \<noteq> JNull" and "c \<noteq> JUndef" and "\<forall>st err. build_candidate e r c st \<noteq> Inl err"
    and "\<not> is_open_router c"
  shows "answered_or_next (serve_candidate e r c False st)"
  using direct_prepared [OF assms(1-4), of st] attempt_passed_on [OF assms(1)] assms(5)
  by (auto simp: serve_candidate_def)

lemma settle_terminal:
  "at_res a \<Longrightarrow> \<exists>n st'. settle_attempt c True s a st = End (Served s n) st'"
  by (simp add: settle_attempt_def)

lemma open_router_answers:
  assumes "\<forall>k. \<not> ev_gone e k" and "\<forall>k. at_res (ev_send e k)" and "is_open_router c"
    and "rq_direct_only r = None" and "sp_style (rq_open_router r) \<noteq> ''tinfoil''"
  shows "\<exists>n st'. serve_candidate e r c True st = End (Served (rq_open_router r) n) st'"
  using assms
  by (auto simp: serve_candidate_def prepare_open_router_def attempt_candidate_def if_gone_def send_def reattest_def
      retry_open_router_def settle_terminal split: option.split)

lemma loop_answers:
  assumes "\<forall>k. \<not> ev_gone e k" and "\<forall>k. at_res (ev_send e k)"
    and "\<forall>c \<in> set cs. \<not> is_open_router c \<and> c \<noteq> JNull \<and> c \<noteq> JUndef \<and> (\<forall>st err. build_candidate e r c st \<noteq> Inl err)"
    and "is_open_router t" and "rq_direct_only r = None" and "sp_style (rq_open_router r) \<noteq> ''tinfoil''"
  shows "\<exists>s n. fst (serve_loop e r (cs @ [t]) st) = Served s n \<and> (s = rq_open_router r \<or> 200 \<le> n \<and> n < 300)"
  using assms(3)
proof (induction cs arbitrary: st)
  case Nil
  then show ?case using open_router_answers [OF assms(1,2,4-6), of st] by auto
next
  case (Cons c cs)
  have "answered_or_next (serve_candidate e r c False st)"
    using Cons.prems by (intro direct_passed_on [OF assms(1)]) auto
  then consider s n st' where "serve_candidate e r c False st = End (Served s n) st'" "200 \<le> n" "n < 300"
    | st' where "serve_candidate e r c False st = Next st'"
    by (auto simp: answered_or_next_def answered_def split: flow.splits outcome.splits)
  then show ?case
  proof cases
    case 2
    then show ?thesis using Cons.IH [of st'] Cons.prems by simp
  qed simp
qed



end
