(* ===== verification/StreamRewrite.thy ===== *)
theory StreamRewrite
  imports JsPrelude "HOL-Library.Sublist"
begin

text \<open>
  The rewriting of an answer on its way to the client: the \<open>StreamReplacer\<close> of
  \<open>enclave/src/rebrand.mjs\<close>, its \<open>Rebrander\<close> and the rewriter of a direct answer. A chunk is its decoded
  text; the decoder that joins a multi-byte character cut by a chunk boundary is not modelled.
\<close>

subsection \<open>The replacer\<close>

text \<open>\<open>s.split(needle).join(replacement)\<close> for a non-empty needle.\<close>

function replace_all :: "string \<Rightarrow> string \<Rightarrow> string \<Rightarrow> string" where
  "replace_all n r s =
     (if n = [] \<or> s = [] then s
      else if prefix n s then r @ replace_all n r (drop (length n) s)
      else hd s # replace_all n r (tl s))"
  by pat_completeness auto

termination
  by (relation "measure (\<lambda>(_, _, s). length s)") auto

declare replace_all.simps [simp del]

record replacer =
  rp_pairs :: "(string \<times> string) list"
  rp_max_needle :: nat
  rp_carry :: string

definition new_replacer :: "(string \<times> string) list \<Rightarrow> replacer" where
  "new_replacer pairs =
     (let ps = filter (\<lambda>(n, _). n \<noteq> []) pairs
      in \<lparr>rp_pairs = ps, rp_max_needle = fold (\<lambda>(n, _) m. max m (length n)) ps 1, rp_carry = []\<rparr>)"

text \<open>The longest trailing run that could be the start of a needle.\<close>

definition hold_back :: "(string \<times> string) list \<Rightarrow> nat \<Rightarrow> string \<Rightarrow> nat" where
  "hold_back pairs max_needle s =
     (case List.find (\<lambda>k. list_ex (\<lambda>(n, _). k < length n \<and> take k n = drop (length s - k) s) pairs)
             (rev [1..<Suc (min (max_needle - 1) (length s))]) of
        Some k \<Rightarrow> k | None \<Rightarrow> 0)"

definition replacer_feed :: "string \<Rightarrow> replacer \<Rightarrow> string \<times> replacer" where
  "replacer_feed chunk st =
     (let s = fold (\<lambda>(n, r) text. replace_all n r text) (rp_pairs st) (rp_carry st @ chunk);
          k = length s - hold_back (rp_pairs st) (rp_max_needle st) s
      in (take k s, st\<lparr>rp_carry := drop k s\<rparr>))"

definition replacer_finish :: "replacer \<Rightarrow> string \<times> replacer" where
  "replacer_finish st = (rp_carry st, st\<lparr>rp_carry := []\<rparr>)"

text \<open>The text a client receives for the chunks of a whole answer.\<close>

fun replacer_run :: "replacer \<Rightarrow> string list \<Rightarrow> string" where
  "replacer_run st [] = fst (replacer_finish st)"
| "replacer_run st (c # cs) = (case replacer_feed c st of (out, st') \<Rightarrow> out @ replacer_run st' cs)"

definition openrouter_brand :: "string \<times> string" where
  "openrouter_brand = (''OPENROUTER'', ''PPQ.AI'')"

definition rebrander :: replacer where
  "rebrander = new_replacer [openrouter_brand]"

definition direct_response_rewriter :: "string \<Rightarrow> string \<Rightarrow> replacer" where
  "direct_response_rewriter upstream slug =
     new_replacer ((if upstream \<noteq> [] \<and> slug \<noteq> [] \<and> upstream \<noteq> slug then [(upstream, slug)] else [])
       @ [openrouter_brand])"

subsection \<open>One needle\<close>

text \<open>A replacement that cannot take part in a needle: the needle does not start inside it, and no part of
  the needle after its first character is comparable with it.\<close>

definition clean_pair :: "string \<Rightarrow> string \<Rightarrow> bool" where
  "clean_pair n r \<longleftrightarrow> n \<noteq> [] \<and> r \<noteq> [] \<and> hd n \<notin> set r
     \<and> list_all (\<lambda>m. m = [] \<or> \<not> prefix m r \<and> \<not> prefix r m) (suffixes (tl n))"

lemma clean_suffix:
  assumes "clean_pair n r" and "suffix m n" and "m \<noteq> []"
  shows "\<not> prefix m r" and "\<not> prefix r m"
proof -
  have "\<not> prefix m r \<and> \<not> prefix r m"
  proof (cases "m = n")
    case True
    then show ?thesis using assms(1,3) by (cases n; cases r) (auto simp: clean_pair_def)
  next
    case False
    then have "suffix m (tl n)" using assms(2) by (cases n) (auto simp: suffix_Cons)
    then show ?thesis using assms(1,3) by (auto simp: clean_pair_def list_all_iff)
  qed
  then show "\<not> prefix m r" "\<not> prefix r m" by blast+
qed

lemma replace_all_Nil [simp]: "replace_all n r [] = []"
  by (simp add: replace_all.simps)

lemma replace_all_hit [simp]: "n \<noteq> [] \<Longrightarrow> replace_all n r (n @ s) = r @ replace_all n r s"
  by (subst replace_all.simps) simp

lemma replace_all_miss [simp]: "n \<noteq> [] \<Longrightarrow> \<not> prefix n (c # s) \<Longrightarrow> replace_all n r (c # s) = c # replace_all n r s"
  by (subst replace_all.simps) simp

lemma replace_all_short: "length s < length n \<Longrightarrow> replace_all n r s = s"
proof (induction s)
  case (Cons c s)
  then have "\<not> prefix n (c # s)" by (metis prefix_length_le not_le)
  moreover have "n \<noteq> []" using Cons.prems by auto
  ultimately show ?case using Cons by simp
qed simp

text \<open>The text as the replacer scans it.\<close>

lemma scan_cases:
  assumes "n \<noteq> []"
  obtains "s = []" | s' where "s = n @ s'" | c s' where "s = c # s'" and "\<not> prefix n (c # s')"
  using assms by (cases s; cases "prefix n s") (auto simp: prefix_def)

lemma scan_induct [consumes 1, case_names Nil hit miss]:
  assumes "n \<noteq> []" and "P []" and "\<And>s. P s \<Longrightarrow> P (n @ s)"
    and "\<And>c s. \<not> prefix n (c # s) \<Longrightarrow> P s \<Longrightarrow> P (c # s)"
  shows "P s"
proof (induction s rule: length_induct)
  case (1 s)
  show ?case
  proof (rule scan_cases [OF assms(1), of s])
    fix s' assume "s = n @ s'"
    then show ?thesis using 1 assms(1,3) by simp
  next
    fix c s' assume "s = c # s'" "\<not> prefix n (c # s')"
    then show ?thesis using 1 assms(4) by simp
  qed (use assms(2) in simp)
qed

lemma replaced_prefix:
  assumes "clean_pair n r" and "suffix m n" and "prefix (replace_all n r s) m"
  shows "replace_all n r s = s"
proof -
  have "n \<noteq> []" using assms(1) by (simp add: clean_pair_def)
  then show ?thesis using assms(2,3)
  proof (induction s arbitrary: m rule: scan_induct)
    case (hit s)
    then have "prefix r m" using \<open>n \<noteq> []\<close> by (auto dest: append_prefixD)
    moreover from this have "m \<noteq> []" using assms(1) by (auto simp: clean_pair_def)
    ultimately show ?case using clean_suffix(2) [OF assms(1) hit.prems(1)] by blast
  next
    case (miss c s)
    then obtain m' where m: "m = c # m'" "prefix (replace_all n r s) m'"
      using \<open>n \<noteq> []\<close> by (cases m) auto
    then have "suffix m' n" using miss.prems(1) by (auto dest: suffix_ConsD)
    then show ?case using miss.IH m miss.hyps \<open>n \<noteq> []\<close> by simp
  qed simp
qed

lemma prefix_replaced:
  assumes "clean_pair n r" and "suffix m n" and "prefix m (replace_all n r s)"
  shows "prefix m s"
proof -
  have "n \<noteq> []" using assms(1) by (simp add: clean_pair_def)
  then show ?thesis using assms(2,3)
  proof (induction s arbitrary: m rule: scan_induct)
    case (hit s)
    then have "prefix m r \<or> prefix r m" using \<open>n \<noteq> []\<close>
      by (metis replace_all_hit prefixI prefix_same_cases)
    then show ?case using clean_suffix [OF assms(1) hit.prems(1)] by (cases "m = []") auto
  next
    case (miss c s)
    show ?case
    proof (cases m)
      case (Cons d m')
      then have "suffix m' n" using miss.prems(1) by (auto dest: suffix_ConsD)
      then show ?thesis using miss Cons \<open>n \<noteq> []\<close> by simp
    qed simp
  qed simp
qed

lemma no_needle_left:
  assumes "clean_pair n r"
  shows "\<not> sublist n (replace_all n r s)"
proof -
  have n: "n \<noteq> []" and r: "hd n \<notin> set r" using assms by (auto simp: clean_pair_def)
  have skip: "sublist n y" if "sublist n (x @ y)" "set x \<subseteq> set r" for x y
    using that
  proof (induction x)
    case (Cons a x)
    then have "\<not> prefix n (a # x @ y)" using n r by (cases n) auto
    then show ?case using Cons by (auto simp: sublist_Cons_right)
  qed simp
  have no: "\<not> prefix n (c # replace_all n r s)" if "\<not> prefix n (c # s)" for c s
    using prefix_replaced [OF assms, of n "c # s"] that n by auto
  from n show ?thesis
  proof (induction s rule: scan_induct)
    case (hit s)
    then show ?case using skip [of r] n by auto
  next
    case (miss c s)
    then show ?case using no n by (auto simp: sublist_Cons_right)
  qed (use n in simp)
qed

subsection \<open>The held tail\<close>

fun held :: "string \<Rightarrow> string \<Rightarrow> nat" where
  "held n [] = 0"
| "held n (c # s) = (if strict_prefix (c # s) n then length (c # s) else held n s)"

lemma held_le: "held n s \<le> length s"
  by (induction s) auto

lemma held_skip: "n \<noteq> [] \<Longrightarrow> hd n \<notin> set x \<Longrightarrow> held n (x @ y) = held n y"
  by (induction x) (auto simp: strict_prefix_def prefix_def)

lemma held_full: "held n s = length s \<Longrightarrow> s = [] \<or> strict_prefix s n"
  by (cases s) (use held_le [of n "tl s"] in \<open>auto split: if_splits\<close>)

lemma strict_prefix_take: "strict_prefix s n \<longleftrightarrow> length s < length n \<and> take (length s) n = s"
  by (auto simp: strict_prefix_def prefix_def) (metis append_take_drop_id)

lemma hold_back_held: "hold_back [(n, r)] (length n) s = held n s"
proof (induction s)
  case Nil
  then show ?case by (simp add: hold_back_def)
next
  case (Cons c s)
  let ?P = "\<lambda>s k. k < length n \<and> take k n = drop (length s - k) s"
  have same: "List.find (?P (c # s)) (rev [1..<Suc m]) = List.find (?P s) (rev [1..<Suc m])" if "m \<le> length s" for m
    using that by (intro find_cong) (auto simp: Suc_diff_le)
  show ?case
  proof (cases "length s < length n - 1")
    case True
    then have m: "min (length n - 1) (length (c # s)) = Suc (length s)" "min (length n - 1) (length s) = length s" by auto
    show ?thesis
      using Cons same [of "length s"] True
      by (auto simp: hold_back_def m strict_prefix_take)
  next
    case False
    then have m: "min (length n - 1) (length (c # s)) = length n - 1" "min (length n - 1) (length s) = length n - 1" by auto
    have "\<not> strict_prefix (c # s) n" using False by (auto simp: strict_prefix_take)
    then show ?thesis
      using Cons same [of "length n - 1"] False by (simp add: hold_back_def m)
  qed
qed

lemma feed_split:
  assumes "clean_pair n r"
  defines "u s \<equiv> replace_all n r s" and "sent_len s \<equiv> length (replace_all n r s) - held n (replace_all n r s)"
  shows "replace_all n r (s @ t) = take (sent_len s) (u s) @ replace_all n r (drop (sent_len s) (u s) @ t)"
proof -
  have n: "n \<noteq> []" "hd n \<notin> set r" using assms(1) by (auto simp: clean_pair_def)
  from n(1) show ?thesis
  proof (induction s rule: scan_induct)
    case (hit s)
    have "held n (u (n @ s)) = held n (u s)" using n by (simp add: u_def held_skip)
    moreover have "held n (u s) \<le> length (u s)" by (rule held_le)
    ultimately have "sent_len (n @ s) = length r + sent_len s" using n by (simp add: sent_len_def u_def)
    then show ?case using hit n by (simp add: u_def)
  next
    case (miss c s)
    have u: "u (c # s) = c # u s" using miss.hyps n by (simp add: u_def)
    show ?case
    proof (cases "strict_prefix (u (c # s)) n")
      case True
      then have "u (c # s) = c # s" unfolding u_def
        by (intro replaced_prefix [OF assms(1), of n]) (auto simp: strict_prefix_def)
      then show ?thesis using True u by (simp add: sent_len_def u_def)
    next
      case False
      then have "sent_len (c # s) = Suc (sent_len s)"
        using u held_le [of n "u s"] by (simp add: sent_len_def u_def Suc_diff_le)
      moreover have "\<not> prefix n (c # s @ t)"
      proof
        assume "prefix n (c # s @ t)"
        then have "prefix (c # s) n" using miss.hyps by (metis append_Cons prefixI prefix_same_cases)
        then have "strict_prefix (c # s) n" using miss.hyps by (auto simp: strict_prefix_def)
        then have "replace_all n r (c # s) = c # s"
          by (intro replace_all_short) (use prefix_length_less in fastforce)
        then show False using False \<open>strict_prefix (c # s) n\<close> by (simp add: u_def)
      qed
      ultimately show ?thesis using miss n u by (simp add: u_def)
    qed
  qed (simp add: u_def sent_len_def)
qed

lemma replacer_run_single:
  assumes "clean_pair n r"
  shows "replacer_run \<lparr>rp_pairs = [(n, r)], rp_max_needle = length n, rp_carry = carry\<rparr> chunks
    = (if chunks = [] then carry else replace_all n r (carry @ concat chunks))"
proof (induction chunks arbitrary: carry)
  case (Cons c cs)
  let ?u = "replace_all n r (carry @ c)"
  let ?cut = "length ?u - held n ?u"
  have step: "replacer_run \<lparr>rp_pairs = [(n, r)], rp_max_needle = length n, rp_carry = carry\<rparr> (c # cs)
      = take ?cut ?u @ (if cs = [] then drop ?cut ?u else replace_all n r (drop ?cut ?u @ concat cs))"
    using Cons.IH by (simp add: replacer_feed_def Let_def hold_back_held)
  show ?case
  proof (cases "cs = []")
    case True
    then show ?thesis using step by simp
  next
    case False
    then show ?thesis
      using step feed_split [OF assms, of "carry @ c" "concat cs"] by simp
  qed
qed (simp add: replacer_finish_def)

text \<open>However an answer is cut into chunks, the client of the rebranding stream receives exactly the
  answer with every \<open>OPENROUTER\<close> replaced, none is left in it, and an answer without one is unchanged.\<close>

theorem rebrand_any_chunking:
  "replacer_run rebrander chunks = replace_all ''OPENROUTER'' ''PPQ.AI'' (concat chunks)
   \<and> \<not> sublist ''OPENROUTER'' (replacer_run rebrander chunks)
   \<and> (sublist ''OPENROUTER'' (concat chunks) \<or> replacer_run rebrander chunks = concat chunks)"
proof -
  have clean: "clean_pair ''OPENROUTER'' ''PPQ.AI''" by code_simp
  have reb: "rebrander = \<lparr>rp_pairs = [(''OPENROUTER'', ''PPQ.AI'')], rp_max_needle = length ''OPENROUTER'', rp_carry = []\<rparr>"
    by (simp add: rebrander_def new_replacer_def openrouter_brand_def)
  have run: "replacer_run rebrander chunks = replace_all ''OPENROUTER'' ''PPQ.AI'' (concat chunks)"
    unfolding reb replacer_run_single [OF clean] by simp
  moreover have "replace_all n r s = s" if "n \<noteq> []" "\<not> sublist n s" for n r s
    using that
  proof (induction s)
    case (Cons c s)
    then show ?case by (auto simp: sublist_Cons_right)
  qed simp
  ultimately show ?thesis using no_needle_left [OF clean] by auto
qed

end
