(* ===== verification/PiiCore.thy ===== *)
theory PiiCore
  imports JsPrelude "HOL-Library.Product_Lexorder" "HOL-Library.Sublist"
begin

text \<open>
  The reversible pseudonymisation of \<open>enclave/src/pii/core.mjs\<close>: the spans a detector reports are merged,
  each is replaced by a placeholder, and the mapping back is kept. Positions are code units. Unicode
  normalisation (NFKC) is the parameter \<open>nf\<close>. A grammar is its two delimiters; the one in use,
  of the white square brackets, is outside the code units of the model, so the theorems hold for any
  delimiters made of characters that occur in no class and no number.
\<close>

subsection \<open>Classes and grammars\<close>

definition pii_classes :: "string list" where
  "pii_classes = [''PERSON'', ''EMAIL'', ''PHONE'', ''ADDRESS'', ''ID'', ''IBAN'', ''CARD'', ''IP'', ''ORG'', ''LOCATION'']"

record grammar =
  g_open :: string
  g_close :: string

definition grammars :: "(string \<times> grammar) list" where
  "grammars = [(''square'', \<lparr>g_open = ''['', g_close = '']''\<rparr>), (''angle'', \<lparr>g_open = ''<'', g_close = ''>''\<rparr>)]"

definition placeholder :: "grammar \<Rightarrow> string \<Rightarrow> nat \<Rightarrow> string" where
  "placeholder g cls n = g_open g @ cls @ ''_'' @ num_str n @ g_close g"

subsection \<open>Spans\<close>

record pii_span =
  sp_start :: int
  sp_end :: int
  sp_cls :: string

definition is_high :: "char \<Rightarrow> bool" where
  "is_high c \<longleftrightarrow> 0xd800 \<le> (of_char c :: int) \<and> (of_char c :: int) \<le> 0xdbff"

definition is_low :: "char \<Rightarrow> bool" where
  "is_low c \<longleftrightarrow> 0xdc00 \<le> (of_char c :: int) \<and> (of_char c :: int) \<le> 0xdfff"

definition splits_pair :: "string \<Rightarrow> int \<Rightarrow> bool" where
  "splits_pair text i \<longleftrightarrow>
     0 < i \<and> i < int (length text) \<and> is_high (text ! nat (i - 1)) \<and> is_low (text ! nat i)"

definition valid_span :: "string \<Rightarrow> pii_span \<Rightarrow> bool" where
  "valid_span text s \<longleftrightarrow>
     0 \<le> sp_start s \<and> sp_start s \<le> sp_end s \<and> sp_end s \<le> int (length text)
     \<and> List.member pii_classes (sp_cls s)
     \<and> \<not> splits_pair text (sp_start s) \<and> \<not> splits_pair text (sp_end s)"

definition span_len :: "pii_span \<Rightarrow> int" where
  "span_len s = sp_end s - sp_start s"

text \<open>\<open>cur\<close> is the span being grown, \<open>best\<close> the length of its longest member.\<close>

fun merge_loop :: "pii_span \<Rightarrow> int \<Rightarrow> pii_span list \<Rightarrow> pii_span list" where
  "merge_loop cur best [] = [cur]"
| "merge_loop cur best (s # ss) =
     (if sp_start s < sp_end cur then
        merge_loop (cur\<lparr>sp_cls := (if best < span_len s then sp_cls s else sp_cls cur),
                        sp_end := max (sp_end cur) (sp_end s)\<rparr>) (max best (span_len s)) ss
      else cur # merge_loop s (span_len s) ss)"

definition sort_spans :: "pii_span list \<Rightarrow> pii_span list" where
  "sort_spans spans = sort_key (\<lambda>s. (sp_start s, - sp_end s)) (filter (\<lambda>s. sp_start s < sp_end s) spans)"

definition merge_spans :: "string \<Rightarrow> pii_span list \<Rightarrow> js_error + pii_span list" where
  "merge_spans text spans =
     (if list_ex (\<lambda>s. \<not> valid_span text s) spans then Inl (Thrown ''invalid PII span'')
      else Inr (case sort_spans spans of [] \<Rightarrow> [] | s # ss \<Rightarrow> merge_loop s (span_len s) ss))"

subsection \<open>Placeholders already in the input\<close>

definition slice :: "string \<Rightarrow> nat \<Rightarrow> nat \<Rightarrow> string" where
  "slice s i j = take (j - i) (drop i s)"

text \<open>\<open>[A-Z]+_[0-9]+\<close> at the head of a text: what it matches, both runs as long as they go.\<close>

definition token_at :: "string \<Rightarrow> string option" where
  "token_at s =
     (let u = takeWhile is_upper_az s; rest = drop (length u) s
      in case rest of
           c # ds \<Rightarrow>
             (let d = takeWhile is_digit ds
              in if u \<noteq> [] \<and> c = CHR ''_'' \<and> d \<noteq> [] then Some (u @ CHR ''_'' # d) else None)
         | [] \<Rightarrow> None)"

text \<open>The matches of \<open>BARE_TOKEN\<close>; \<open>after_upper\<close> tells whether the character before is a capital. A token
  never starts inside another one.\<close>

fun bare_tokens :: "bool \<Rightarrow> string \<Rightarrow> string list" where
  "bare_tokens after_upper [] = []"
| "bare_tokens after_upper (c # s) =
     (case (if after_upper then None else token_at (c # s)) of
        Some t \<Rightarrow> t # bare_tokens (is_upper_az c) s
      | None \<Rightarrow> bare_tokens (is_upper_az c) s)"

text \<open>The matches of the grammar's own pattern.\<close>

fun full_tokens :: "grammar \<Rightarrow> string \<Rightarrow> string list" where
  "full_tokens g [] = []"
| "full_tokens g (c # s) =
     (let rest = drop (length (g_open g)) (c # s)
      in (if prefix (g_open g) (c # s) then
            (case token_at rest of
               Some t \<Rightarrow> if prefix (g_close g) (drop (length t) rest) then [g_open g @ t @ g_close g] else []
             | None \<Rightarrow> [])
          else []) @ full_tokens g s)"

definition taken_of :: "grammar \<Rightarrow> string list \<Rightarrow> string list" where
  "taken_of g texts =
     concat (map (\<lambda>t. full_tokens g t @ map (\<lambda>b. g_open g @ b @ g_close g) (bare_tokens False t)) texts)"

subsection \<open>Issuing placeholders\<close>

fun collapse_space :: "string \<Rightarrow> string" where
  "collapse_space [] = []"
| "collapse_space (c # s) =
     (if is_space c then
        (case s of d # _ \<Rightarrow> if is_space d then collapse_space s else CHR '' '' # collapse_space s
         | [] \<Rightarrow> '' '')
      else c # collapse_space s)"

definition surface_key :: "(string \<Rightarrow> string) \<Rightarrow> string \<Rightarrow> string \<Rightarrow> string" where
  "surface_key nf cls surface =
     (let norm = lower (collapse_space (trim (nf surface)))
      in if norm = [] then [] else cls @ char_of (0 :: nat) # norm)"

record pii_map =
  pm_keys :: "string \<rightharpoonup> string"
  pm_surfaces :: "(string \<times> string) list"
  pm_counts :: "string \<Rightarrow> nat"

definition empty_map :: pii_map where
  "empty_map = \<lparr>pm_keys = Map.empty, pm_surfaces = [], pm_counts = (\<lambda>_. 0)\<rparr>"

lemma num_str_inj [simp]: "num_str m = num_str n \<longleftrightarrow> m = n"
  by (metis digits_value_num_str)

lemma placeholder_index_inj [simp]: "placeholder g cls m = placeholder g cls n \<longleftrightarrow> m = n"
  by (simp add: placeholder_def)

lemma taken_indices_finite: "finite {k. P k \<and> placeholder g cls k \<in> set taken}"
proof -
  have "finite (placeholder g cls -` set taken)"
    by (intro finite_vimageI) (auto simp: inj_def)
  then show ?thesis by (rule rev_finite_subset) auto
qed

function next_index :: "grammar \<Rightarrow> string \<Rightarrow> string list \<Rightarrow> nat \<Rightarrow> nat" where
  "next_index g cls taken n =
     (if List.member taken (placeholder g cls (Suc n)) then next_index g cls taken (Suc n) else Suc n)"
  by pat_completeness auto

termination
proof (relation "measure (\<lambda>(g, cls, taken, n). card {k. n < k \<and> placeholder g cls k \<in> set taken})")
  fix g cls taken n
  assume "List.member taken (placeholder g cls (Suc n))"
  then have "{k. Suc n < k \<and> placeholder g cls k \<in> set taken} \<subset> {k. n < k \<and> placeholder g cls k \<in> set taken}"
    by auto
  then show "((g, cls, taken, Suc n), (g, cls, taken, n))
      \<in> measure (\<lambda>(g, cls, taken, n). card {k. n < k \<and> placeholder g cls k \<in> set taken})"
    by (simp add: psubset_card_mono taken_indices_finite)
qed simp

declare next_index.simps [simp del]

definition placeholder_for ::
    "(string \<Rightarrow> string) \<Rightarrow> grammar \<Rightarrow> string list \<Rightarrow> string \<Rightarrow> string \<Rightarrow> pii_map \<Rightarrow> string option \<times> pii_map" where
  "placeholder_for nf g taken cls surface m =
     (let key = surface_key nf cls surface
      in if key = [] then (None, m)
         else case pm_keys m key of
           Some ph \<Rightarrow> (Some ph, m)
         | None \<Rightarrow>
             (let n = next_index g cls taken (pm_counts m cls); ph = placeholder g cls n
              in (Some ph, \<lparr>pm_keys = (pm_keys m)(key \<mapsto> ph), pm_surfaces = pm_surfaces m @ [(ph, surface)],
                            pm_counts = (pm_counts m)(cls := n)\<rparr>)))"

fun redact_text ::
    "(string \<Rightarrow> string) \<Rightarrow> grammar \<Rightarrow> string list \<Rightarrow> string \<Rightarrow> nat \<Rightarrow> pii_span list \<Rightarrow> pii_map \<Rightarrow> string \<times> pii_map" where
  "redact_text nf g taken text pos [] m = (drop pos text, m)"
| "redact_text nf g taken text pos (s # ss) m =
     (case placeholder_for nf g taken (sp_cls s) (slice text (nat (sp_start s)) (nat (sp_end s))) m of
        (None, m') \<Rightarrow> redact_text nf g taken text pos ss m'
      | (Some ph, m') \<Rightarrow>
          (case redact_text nf g taken text (nat (sp_end s)) ss m' of
             (rest, m'') \<Rightarrow> (slice text pos (nat (sp_start s)) @ ph @ rest, m'')))"

fun redact_texts ::
    "(string \<Rightarrow> string) \<Rightarrow> grammar \<Rightarrow> string list \<Rightarrow> (string \<times> pii_span list) list \<Rightarrow> pii_map \<Rightarrow> string list \<times> pii_map" where
  "redact_texts nf g taken [] m = ([], m)"
| "redact_texts nf g taken ((text, spans) # rest) m =
     (case redact_text nf g taken text 0 spans m of
        (out, m') \<Rightarrow> (case redact_texts nf g taken rest m' of (outs, m'') \<Rightarrow> (out # outs, m'')))"

fun merge_all :: "(string \<times> pii_span list) list \<Rightarrow> js_error + (string \<times> pii_span list) list" where
  "merge_all [] = Inr []"
| "merge_all ((text, spans) # rest) =
     (case merge_spans text spans of
        Inl e \<Rightarrow> Inl e
      | Inr merged \<Rightarrow> (case merge_all rest of Inl e \<Rightarrow> Inl e | Inr ms \<Rightarrow> Inr ((text, merged) # ms)))"

definition pseudonymize ::
    "(string \<Rightarrow> string) \<Rightarrow> grammar \<Rightarrow> string list \<Rightarrow> pii_span list list \<Rightarrow> js_error + string list \<times> pii_map" where
  "pseudonymize nf g texts spans =
     (if length texts \<noteq> length spans then Inl (Thrown ''texts and spans must be parallel arrays'')
      else case merge_all (zip texts spans) of
             Inl e \<Rightarrow> Inl e
           | Inr merged \<Rightarrow> Inr (redact_texts nf g (taken_of g texts) merged empty_map))"

subsection \<open>Merging\<close>

definition inside :: "pii_span \<Rightarrow> pii_span \<Rightarrow> bool" where
  "inside s t \<longleftrightarrow> sp_start t \<le> sp_start s \<and> sp_end s \<le> sp_end t"

definition covers :: "pii_span list \<Rightarrow> int \<Rightarrow> bool" where
  "covers ss i \<longleftrightarrow> (\<exists>s \<in> set ss. sp_start s \<le> i \<and> i < sp_end s)"

text \<open>A span \<open>t\<close> that stands for the members \<open>M\<close>: it is their union and has the class of a longest one.\<close>

definition union_of :: "pii_span \<Rightarrow> pii_span list \<Rightarrow> bool" where
  "union_of t M \<longleftrightarrow> sp_start t < sp_end t \<and> (\<forall>s \<in> set M. inside s t)
     \<and> (\<forall>i. covers [t] i \<longleftrightarrow> covers M i)
     \<and> (\<exists>s \<in> set M. sp_cls s = sp_cls t \<and> (\<forall>s' \<in> set M. span_len s' \<le> span_len s))"

definition best_of :: "pii_span \<Rightarrow> int \<Rightarrow> pii_span list \<Rightarrow> bool" where
  "best_of t best M \<longleftrightarrow> (\<exists>s \<in> set M. sp_cls s = sp_cls t \<and> span_len s = best) \<and> (\<forall>s \<in> set M. span_len s \<le> best)"

lemma union_grows:
  assumes "union_of t M" and "best_of t best M" and "sp_start t \<le> sp_start s" and "sp_start s < sp_end t"
    and "sp_start s < sp_end s"
  defines "t' \<equiv> t\<lparr>sp_cls := (if best < span_len s then sp_cls s else sp_cls t), sp_end := max (sp_end t) (sp_end s)\<rparr>"
  shows "union_of t' (M @ [s]) \<and> best_of t' (max best (span_len s)) (M @ [s])"
proof -
  have ends: "sp_start t' = sp_start t" "sp_end t' = max (sp_end t) (sp_end s)"
    "sp_cls t' = (if best < span_len s then sp_cls s else sp_cls t)" by (simp_all add: t'_def)
  have cov: "covers [t'] i \<longleftrightarrow> covers (M @ [s]) i" for i
  proof -
    have "covers [t'] i \<longleftrightarrow> covers [t] i \<or> covers [s] i" using assms(3-5) ends by (auto simp: covers_def)
    also have "\<dots> \<longleftrightarrow> covers M i \<or> covers [s] i" using assms(1) by (simp add: union_of_def)
    finally show ?thesis by (auto simp: covers_def)
  qed
  have best: "best_of t' (max best (span_len s)) (M @ [s])"
    using assms(2) ends by (force simp: best_of_def)
  moreover have "\<forall>x \<in> set (M @ [s]). inside x t'"
    using assms(1,3) ends by (force simp: union_of_def inside_def)
  moreover have "sp_start t' < sp_end t'" using assms(1) ends by (auto simp: union_of_def)
  ultimately show ?thesis using cov by (auto simp: union_of_def best_of_def)
qed

lemma merge_loop_unions:
  assumes "union_of cur M" and "best_of cur best M" and "\<forall>s \<in> set ss. sp_start s < sp_end s"
    and "sorted (map sp_start (cur # ss))"
  shows "\<exists>Ms. concat Ms = M @ ss \<and> list_all2 union_of (merge_loop cur best ss) Ms
    \<and> sorted_wrt (\<lambda>a b. sp_end a \<le> sp_start b) (merge_loop cur best ss)
    \<and> (\<forall>t \<in> set (merge_loop cur best ss). sp_start cur \<le> sp_start t)"
  using assms
proof (induction ss arbitrary: cur best M)
  case Nil
  then show ?case by (intro exI [of _ "[M]"]) simp
next
  case (Cons s ss)
  show ?case
  proof (cases "sp_start s < sp_end cur")
    case True
    let ?t = "cur\<lparr>sp_cls := (if best < span_len s then sp_cls s else sp_cls cur), sp_end := max (sp_end cur) (sp_end s)\<rparr>"
    have "union_of ?t (M @ [s]) \<and> best_of ?t (max best (span_len s)) (M @ [s])"
      using Cons.prems True by (intro union_grows) auto
    then have "\<exists>Ms. concat Ms = (M @ [s]) @ ss \<and> list_all2 union_of (merge_loop ?t (max best (span_len s)) ss) Ms
      \<and> sorted_wrt (\<lambda>a b. sp_end a \<le> sp_start b) (merge_loop ?t (max best (span_len s)) ss)
      \<and> (\<forall>x \<in> set (merge_loop ?t (max best (span_len s)) ss). sp_start ?t \<le> sp_start x)"
      using Cons.prems by (intro Cons.IH) auto
    then show ?thesis using True by simp
  next
    case False
    have "union_of s [s]" "best_of s (span_len s) [s]"
      using Cons.prems(3) by (auto simp: union_of_def best_of_def inside_def)
    then obtain Ms where Ms: "concat Ms = [s] @ ss" "list_all2 union_of (merge_loop s (span_len s) ss) Ms"
      "sorted_wrt (\<lambda>a b. sp_end a \<le> sp_start b) (merge_loop s (span_len s) ss)"
      "\<forall>x \<in> set (merge_loop s (span_len s) ss). sp_start s \<le> sp_start x"
      using Cons.IH [of s "[s]" "span_len s"] Cons.prems by auto
    have "sp_end cur \<le> sp_start x \<and> sp_start cur \<le> sp_start x" if "x \<in> set (merge_loop s (span_len s) ss)" for x
      using Ms(4) that False Cons.prems(1,4) by (force simp: union_of_def)
    then show ?thesis
      using Ms False Cons.prems(1) by (intro exI [of _ "M # Ms"]) auto
  qed
qed

lemma sorted_sort_spans: "sorted (map sp_start (sort_spans spans))"
proof -
  have "sorted (map (\<lambda>s. (sp_start s, - sp_end s)) (sort_spans spans))"
    by (simp add: sort_spans_def)
  then have "sorted_wrt (\<lambda>s t. (sp_start s, - sp_end s) \<le> (sp_start t, - sp_end t)) (sort_spans spans)"
    by (simp add: sorted_map)
  then show ?thesis unfolding sorted_map by (rule sorted_wrt_mono_rel [rotated]) auto
qed

lemma merge_spans_unions:
  assumes "merge_spans text spans = Inr out"
  obtains Ms where "set (concat Ms) = set (filter (\<lambda>s. sp_start s < sp_end s) spans)"
    and "list_all2 union_of out Ms" and "sorted_wrt (\<lambda>a b. sp_end a \<le> sp_start b) out"
proof (cases "sort_spans spans")
  case Nil
  then have "filter (\<lambda>s. sp_start s < sp_end s) spans = []"
    unfolding sort_spans_def by (metis set_empty set_sort)
  then show ?thesis using Nil assms that [of "[]"] by (auto simp: merge_spans_def split: if_splits)
next
  case (Cons s ss)
  have set: "set (s # ss) = set (filter (\<lambda>s. sp_start s < sp_end s) spans)"
    unfolding Cons [symmetric] sort_spans_def by simp
  then have pos: "\<forall>x \<in> set (s # ss). sp_start x < sp_end x" by (simp only:) simp
  have "union_of s [s]" "best_of s (span_len s) [s]"
    using pos by (auto simp: union_of_def best_of_def inside_def)
  then obtain Ms where "concat Ms = [s] @ ss" "list_all2 union_of (merge_loop s (span_len s) ss) Ms"
      "sorted_wrt (\<lambda>a b. sp_end a \<le> sp_start b) (merge_loop s (span_len s) ss)"
    using merge_loop_unions [of s "[s]" "span_len s" ss] pos sorted_sort_spans [of spans] Cons by auto
  moreover have "set (s # ss) = set (filter (\<lambda>s. sp_start s < sp_end s) spans)"
    unfolding Cons [symmetric] sort_spans_def by simp
  ultimately show ?thesis using assms Cons that [of Ms] by (auto simp: merge_spans_def split: if_splits)
qed

lemma union_inside: "list_all2 union_of out Ms \<Longrightarrow> s \<in> set (concat Ms) \<Longrightarrow> \<exists>t \<in> set out. inside s t"
  by (induction rule: list_all2_induct) (auto simp: union_of_def)

lemma union_covers: "list_all2 union_of out Ms \<Longrightarrow> covers out i \<longleftrightarrow> covers (concat Ms) i"
proof (induction rule: list_all2_induct)
  case (Cons t out M Ms)
  have "covers (t # out) i \<longleftrightarrow> covers [t] i \<or> covers out i" by (auto simp: covers_def)
  also have "\<dots> \<longleftrightarrow> covers M i \<or> covers (concat Ms) i" using Cons by (simp add: union_of_def)
  finally show ?case by (auto simp: covers_def)
qed (simp add: covers_def)

lemma merge_spans_range:
  assumes "merge_spans text spans = Inr out" and "t \<in> set out"
  shows "0 \<le> sp_start t \<and> sp_start t < sp_end t \<and> sp_end t \<le> int (length text)"
proof -
  obtain Ms where Ms: "set (concat Ms) = set (filter (\<lambda>s. sp_start s < sp_end s) spans)" "list_all2 union_of out Ms"
    using assms(1) by (rule merge_spans_unions)
  obtain M where M: "M \<in> set Ms" "union_of t M"
    using Ms(2) assms(2) by (metis in_set_conv_nth list_all2_conv_all_nth)
  then have sub: "set M \<subseteq> set spans" using Ms(1) by auto
  have pos: "sp_start t < sp_end t" using M(2) by (simp add: union_of_def)
  have valid: "\<forall>s \<in> set spans. valid_span text s"
    using assms(1) by (auto simp: merge_spans_def list_ex_iff split: if_splits)
  have same: "covers [t] i \<longleftrightarrow> covers M i" for i using M(2) by (simp add: union_of_def)
  have "covers M (sp_start t)" "covers M (sp_end t - 1)"
    unfolding same [symmetric] using pos by (simp_all add: covers_def)
  then have "0 \<le> sp_start t" "sp_end t \<le> int (length text)"
    using sub valid by (auto simp: covers_def valid_span_def) force+
  then show ?thesis using pos by blast
qed

text \<open>The merged spans are non-empty, in order and disjoint, cover exactly the positions the detected
  spans cover, so nothing detected stays in clear and nothing else is hidden; every detected span lies
  whole in one of them, whose class is that of a longest of its members.\<close>

theorem merge_spans_exact:
  assumes "merge_spans text spans = Inr out"
  shows "sorted_wrt (\<lambda>a b. sp_end a \<le> sp_start b) out
    \<and> (\<forall>i. covers out i \<longleftrightarrow> covers spans i)
    \<and> (\<forall>s \<in> set spans. sp_start s < sp_end s \<longrightarrow> (\<exists>t \<in> set out. inside s t))
    \<and> (\<forall>t \<in> set out. 0 \<le> sp_start t \<and> sp_start t < sp_end t \<and> sp_end t \<le> int (length text)
         \<and> (\<exists>s \<in> set spans. inside s t \<and> sp_cls s = sp_cls t
              \<and> (\<forall>s' \<in> set spans. sp_start s' < sp_end s' \<longrightarrow> inside s' t \<longrightarrow> span_len s' \<le> span_len s)))"
proof -
  obtain Ms where Ms: "set (concat Ms) = set (filter (\<lambda>s. sp_start s < sp_end s) spans)"
    "list_all2 union_of out Ms" "sorted_wrt (\<lambda>a b. sp_end a \<le> sp_start b) out"
    using assms by (rule merge_spans_unions)
  have mem: "set (concat Ms) = {s \<in> set spans. sp_start s < sp_end s}"
    using Ms(1) by auto
  have "covers out i \<longleftrightarrow> covers spans i" for i
    unfolding union_covers [OF Ms(2)] unfolding covers_def mem by auto
  moreover have "\<exists>t \<in> set out. inside s t" if "s \<in> set spans" "sp_start s < sp_end s" for s
    using union_inside [OF Ms(2)] mem that by blast
  moreover have "0 \<le> sp_start t \<and> sp_start t < sp_end t \<and> sp_end t \<le> int (length text)
         \<and> (\<exists>s \<in> set spans. inside s t \<and> sp_cls s = sp_cls t
              \<and> (\<forall>s' \<in> set spans. sp_start s' < sp_end s' \<longrightarrow> inside s' t \<longrightarrow> span_len s' \<le> span_len s))"
    if t: "t \<in> set out" for t
  proof -
    have len: "length out = length Ms" using Ms(2) by (rule list_all2_lengthD)
    obtain i where i: "i < length out" "t = out ! i" using t by (auto simp: in_set_conv_nth)
    define M where "M = Ms ! i"
    have M: "union_of t M" "M \<in> set Ms"
      using Ms(2) i len by (auto simp: M_def list_all2_conv_all_nth)
    then have sub: "set M \<subseteq> {s \<in> set spans. sp_start s < sp_end s}" using mem by auto
    have range: "0 \<le> sp_start t" "sp_start t < sp_end t" "sp_end t \<le> int (length text)"
      using merge_spans_range [OF assms t] by blast+
    obtain s where s: "s \<in> set M" "sp_cls s = sp_cls t" "\<forall>s' \<in> set M. span_len s' \<le> span_len s" "inside s t"
      using M(1) by (auto simp: union_of_def)
    have "s' \<in> set M" if s': "s' \<in> set spans" "sp_start s' < sp_end s'" "inside s' t" for s'
    proof -
      have "s' \<in> set (concat Ms)" using s' mem by blast
      then obtain M' where M': "M' \<in> set Ms" "s' \<in> set M'" by auto
      then obtain j where j: "j < length out" "s' \<in> set (Ms ! j)"
        using len by (metis in_set_conv_nth)
      then have "inside s' (out ! j)" using Ms(2) by (auto simp: list_all2_conv_all_nth union_of_def)
      then have "\<not> i < j" "\<not> j < i"
        using sorted_wrt_nth_less [OF Ms(3)] i j(1) s'(2,3) by (fastforce simp: inside_def)+
      then show ?thesis using j(2) by (simp add: M_def linorder_neq_iff)
    qed
    then show ?thesis using s sub range by blast
  qed
  ultimately show ?thesis using Ms(3) by blast
qed


theorem merge_spans_exact_witness:
  "merge_spans ''ring Jan Pi'' [\<lparr>sp_start = 5, sp_end = 8, sp_cls = ''PERSON''\<rparr>, \<lparr>sp_start = 7, sp_end = 11, sp_cls = ''ORG''\<rparr>]
     = Inr [\<lparr>sp_start = 5, sp_end = 11, sp_cls = ''ORG''\<rparr>]
   \<and> covers [\<lparr>sp_start = 5, sp_end = 8, sp_cls = ''PERSON''\<rparr>, \<lparr>sp_start = 7, sp_end = 11, sp_cls = ''ORG''\<rparr>] 10"
proof -
  let ?spans = "[\<lparr>sp_start = 5, sp_end = 8, sp_cls = ''PERSON''\<rparr>, \<lparr>sp_start = 7, sp_end = 11, sp_cls = ''ORG''\<rparr>]"
  have m: "merge_spans ''ring Jan Pi'' ?spans = Inr [\<lparr>sp_start = 5, sp_end = 11, sp_cls = ''ORG''\<rparr>]" by code_simp
  then show ?thesis using merge_spans_exact [OF m] by (auto simp: covers_def)
qed

subsection \<open>Placeholders\<close>

text \<open>A word character of the restorer's patterns, \<open>[\p{L}\p{N}_]\<close>, among the code units below 256.\<close>

definition is_word :: "char \<Rightarrow> bool" where
  "is_word c \<longleftrightarrow> is_alnum c \<or> c = CHR ''_''
     \<or> List.member [170, 178, 179, 181, 185, 186, 188, 189, 190] (of_char c :: int)
     \<or> 192 \<le> (of_char c :: int) \<and> (of_char c :: int) \<noteq> 215 \<and> (of_char c :: int) \<noteq> 247"

definition grammar_ok :: "grammar \<Rightarrow> bool" where
  "grammar_ok g \<longleftrightarrow> g_open g \<noteq> [] \<and> g_close g \<noteq> []
     \<and> list_all (\<lambda>c. \<not> is_word c) (g_open g) \<and> list_all (\<lambda>c. \<not> is_word c) (g_close g)"

lemma word_upper: "is_upper_az c \<Longrightarrow> is_word c" and word_digit: "is_digit c \<Longrightarrow> is_word c"
  and word_underscore: "is_word (CHR ''_'')"
  by (simp_all add: is_word_def is_alnum_def)

definition is_class :: "string \<Rightarrow> bool" where
  "is_class cls \<longleftrightarrow> cls \<noteq> [] \<and> list_all is_upper_az cls"

lemma pii_class_is_class: "List.member pii_classes cls \<Longrightarrow> is_class cls"
proof -
  have "list_all is_class pii_classes" by code_simp
  then show "List.member pii_classes cls \<Longrightarrow> is_class cls" by (simp add: list_all_iff)
qed

lemma underscore_not_upper: "\<not> is_upper_az (CHR ''_'')" and underscore_not_digit: "\<not> is_digit (CHR ''_'')"
  by code_simp+

lemma upper_not_digit: "is_upper_az c \<Longrightarrow> \<not> is_digit c"
  by (auto simp: is_upper_az_def is_digit_def)

definition core :: "string \<Rightarrow> nat \<Rightarrow> string" where
  "core cls n = cls @ CHR ''_'' # num_str n"

lemma placeholder_core: "placeholder g cls n = g_open g @ core cls n @ g_close g"
  by (simp add: placeholder_def core_def)

lemma takeWhile_stop: "list_all P xs \<Longrightarrow> ys = [] \<or> \<not> P (hd ys) \<Longrightarrow> takeWhile P (xs @ ys) = xs"
  by (induction xs) (auto simp: takeWhile_eq_Nil_iff)

lemma token_at_core:
  assumes "is_class cls" and "s = [] \<or> \<not> is_digit (hd s)"
  shows "token_at (core cls n @ s) = Some (core cls n)"
proof -
  have u: "takeWhile is_upper_az (cls @ CHR ''_'' # num_str n @ s) = cls"
    using assms(1) underscore_not_upper by (intro takeWhile_stop) (auto simp: is_class_def)
  have d: "takeWhile is_digit (num_str n @ s) = num_str n"
    using assms(2) num_str_digits by (intro takeWhile_stop) auto
  show ?thesis using assms(1) u d by (simp add: token_at_def core_def is_class_def)
qed

lemma core_inj:
  assumes "is_class cls" and "is_class cls'" and "core cls n @ s = core cls' n' @ s'"
    and "s = [] \<or> \<not> is_digit (hd s)" and "s' = [] \<or> \<not> is_digit (hd s')"
  shows "cls = cls' \<and> n = n' \<and> s = s'"
proof -
  have same: "core cls n = core cls' n'"
    using token_at_core [OF assms(1,4), of n] token_at_core [OF assms(2,5), of n'] assms(3) by simp
  have "takeWhile is_upper_az (core c k) = c" if "is_class c" for c k
    unfolding core_def using that underscore_not_upper by (intro takeWhile_stop) (auto simp: is_class_def)
  then have "cls = cls'" using same assms(1,2) by metis
  then show ?thesis using same assms(3) by (simp add: core_def)
qed

lemma hd_not_digit: "grammar_ok g \<Longrightarrow> g_close g @ s = [] \<or> \<not> is_digit (hd (g_close g @ s))"
  by (cases "g_close g") (auto simp: grammar_ok_def dest: word_digit)

lemma placeholder_inj:
  assumes "grammar_ok g" and "is_class cls" and "is_class cls'" and "placeholder g cls n = placeholder g cls' n'"
  shows "cls = cls' \<and> n = n'"
  using core_inj [OF assms(2,3), of n "g_close g" n' "g_close g"] assms(4) hd_not_digit [OF assms(1), of "[]"]
  by (simp add: placeholder_core)

lemma bare_tokens_at:
  assumes "token_at s = Some t" and "if x = [] then \<not> after else \<not> is_upper_az (last x)"
  shows "t \<in> set (bare_tokens after (x @ s))"
  using assms(2)
proof (induction x arbitrary: after)
  case Nil
  then show ?case using assms(1) by (cases s) (simp_all add: token_at_def)
next
  case (Cons c x)
  then have "t \<in> set (bare_tokens (is_upper_az c) (x @ s))" by (auto split: if_splits)
  then show ?case by (simp split: option.split)
qed

text \<open>A placeholder that occurs in an input text is taken.\<close>

lemma occurring_is_taken:
  assumes "grammar_ok g" and "is_class cls" and "t \<in> set texts" and "sublist (placeholder g cls n) t"
  shows "placeholder g cls n \<in> set (taken_of g texts)"
proof -
  obtain x y where t: "t = x @ g_open g @ core cls n @ g_close g @ y"
    using assms(4) by (auto simp: sublist_def placeholder_core)
  have "token_at (core cls n @ g_close g @ y) = Some (core cls n)"
    by (intro token_at_core assms(2) hd_not_digit assms(1))
  moreover have "x @ g_open g \<noteq> []" "\<not> is_word (last (x @ g_open g))"
    using assms(1) by (auto simp: grammar_ok_def list_all_iff)
  moreover from this have "\<not> is_upper_az (last (x @ g_open g))" using word_upper by blast
  ultimately have "core cls n \<in> set (bare_tokens False ((x @ g_open g) @ core cls n @ g_close g @ y))"
    by (intro bare_tokens_at) auto
  then show ?thesis using assms(3) t by (auto simp: taken_of_def placeholder_core)
qed

subsection \<open>The mapping\<close>

lemma next_index_fresh: "n < next_index g cls taken n \<and> placeholder g cls (next_index g cls taken n) \<notin> set taken"
proof (induction g cls taken n rule: next_index.induct)
  case (1 g cls taken n)
  then show ?case by (subst (1 2) next_index.simps) auto
qed

text \<open>What holds of the mapping at every moment: each key has one placeholder, of its class, not in any
  input text, which leads back to a surface of that key; no two keys share one.\<close>

definition pii_inv :: "(string \<Rightarrow> string) \<Rightarrow> grammar \<Rightarrow> string list \<Rightarrow> pii_map \<Rightarrow> bool" where
  "pii_inv nf g taken m \<longleftrightarrow>
     (\<forall>k ph. pm_keys m k = Some ph \<longrightarrow> k \<noteq> [] \<and>
        (\<exists>cls n surface. is_class cls \<and> ph = placeholder g cls n \<and> n \<le> pm_counts m cls \<and> ph \<notin> set taken
           \<and> map_of (pm_surfaces m) ph = Some surface \<and> surface_key nf cls surface = k))
     \<and> (\<forall>k k' ph. pm_keys m k = Some ph \<longrightarrow> pm_keys m k' = Some ph \<longrightarrow> k = k')
     \<and> fst ` set (pm_surfaces m) = ran (pm_keys m) \<and> distinct (map fst (pm_surfaces m))"

lemma pii_inv_key:
  assumes "pii_inv nf g taken m" and "pm_keys m k = Some ph"
  obtains cls n surface where "k \<noteq> []" "is_class cls" "ph = placeholder g cls n" "n \<le> pm_counts m cls"
    "ph \<notin> set taken" "map_of (pm_surfaces m) ph = Some surface" "surface_key nf cls surface = k"
proof -
  have "\<forall>k ph. pm_keys m k = Some ph \<longrightarrow> k \<noteq> [] \<and>
        (\<exists>cls n surface. is_class cls \<and> ph = placeholder g cls n \<and> n \<le> pm_counts m cls \<and> ph \<notin> set taken
           \<and> map_of (pm_surfaces m) ph = Some surface \<and> surface_key nf cls surface = k)"
    using assms(1) unfolding pii_inv_def by (rule conjunct1)
  from this [rule_format, OF assms(2)] show ?thesis using that by metis
qed

lemma pii_inv_key_inj:
  "pii_inv nf g taken m \<Longrightarrow> pm_keys m k = Some ph \<Longrightarrow> pm_keys m k' = Some ph \<Longrightarrow> k = k'"
  unfolding pii_inv_def by meson

lemma pii_inv_empty: "pii_inv nf g taken empty_map"
  by (simp add: pii_inv_def empty_map_def)

lemma map_of_append_new: "ph \<notin> fst ` set xs \<Longrightarrow> map_of (xs @ [(ph, s)]) = (map_of xs)(ph \<mapsto> s)"
  by (induction xs) (auto simp: fun_upd_twist)

lemma placeholder_for_inv:
  assumes "grammar_ok g" and "is_class cls" and "pii_inv nf g taken m"
    and "placeholder_for nf g taken cls surface m = (r, m')"
  shows "pii_inv nf g taken m'" and "pm_keys m \<subseteq>\<^sub>m pm_keys m'"
    and "r = pm_keys m' (surface_key nf cls surface)" and "r = None \<Longrightarrow> surface_key nf cls surface = []"
proof -
  let ?k = "surface_key nf cls surface"
  have nil: "pm_keys m [] = None" using assms(3) by (cases "pm_keys m []") (auto simp: pii_inv_def)
  consider (blank) "?k = []" | (known) ph where "?k \<noteq> []" "pm_keys m ?k = Some ph"
    | (new) "?k \<noteq> []" "pm_keys m ?k = None" by (cases "pm_keys m ?k") auto
  then have "pii_inv nf g taken m' \<and> pm_keys m \<subseteq>\<^sub>m pm_keys m' \<and> r = pm_keys m' ?k \<and> (r = None \<longrightarrow> ?k = [])"
  proof cases
    case new
    define n where "n = next_index g cls taken (pm_counts m cls)"
    let ?ph = "placeholder g cls n"
    have fresh: "pm_counts m cls < n" "?ph \<notin> set taken"
      unfolding n_def using next_index_fresh by blast+
    have m': "r = Some ?ph" "m' = \<lparr>pm_keys = (pm_keys m)(?k \<mapsto> ?ph), pm_surfaces = pm_surfaces m @ [(?ph, surface)],
        pm_counts = (pm_counts m)(cls := n)\<rparr>"
      using assms(4) new by (auto simp: placeholder_for_def n_def Let_def)
    have old: "pm_keys m k \<noteq> Some ?ph" for k
    proof
      assume "pm_keys m k = Some ?ph"
      then obtain cls' n' where "is_class cls'" "?ph = placeholder g cls' n'" "n' \<le> pm_counts m cls'"
        by (rule pii_inv_key [OF assms(3)])
      then show False using placeholder_inj [OF assms(1,2), of cls' n n'] fresh(1) by auto
    qed
    then have notin: "?ph \<notin> fst ` set (pm_surfaces m)" using assms(3) by (auto simp: pii_inv_def ran_def)
    have ran: "ran (pm_keys m') = insert ?ph (ran (pm_keys m))"
      using new(2) by (simp add: m' ran_map_upd)
    have lookup: "map_of (pm_surfaces m') = (map_of (pm_surfaces m))(?ph \<mapsto> surface)"
      using map_of_append_new [OF notin] by (simp add: m' del: map_of_append)
    have each: "k \<noteq> [] \<and> (\<exists>c i s. is_class c \<and> ph = placeholder g c i \<and> i \<le> pm_counts m' c \<and> ph \<notin> set taken
           \<and> map_of (pm_surfaces m') ph = Some s \<and> surface_key nf c s = k)"
      if k: "pm_keys m' k = Some ph" for k ph
    proof (cases "k = ?k")
      case True
      then have "ph = ?ph" using k by (simp add: m')
      then show ?thesis using True new(1) assms(2) fresh lookup by (auto simp: m')
    next
      case False
      then have k0: "pm_keys m k = Some ph" using k by (simp add: m')
      then obtain c i s where "k \<noteq> []" "is_class c" "ph = placeholder g c i" "i \<le> pm_counts m c" "ph \<notin> set taken"
        "map_of (pm_surfaces m) ph = Some s" "surface_key nf c s = k"
        by (rule pii_inv_key [OF assms(3)])
      moreover have "ph \<noteq> ?ph" using old k0 by auto
      ultimately show ?thesis using fresh(1) lookup
        by (intro conjI exI [of _ c] exI [of _ i] exI [of _ s]) (auto simp: m')
    qed
    have "k = k'" if "pm_keys m' k = Some ph" "pm_keys m' k' = Some ph" for k k' ph
      using that old pii_inv_key_inj [OF assms(3)] by (auto simp: m' split: if_splits)
    moreover have "distinct (map fst (pm_surfaces m'))" "fst ` set (pm_surfaces m') = ran (pm_keys m')"
      using notin assms(3) ran by (auto simp: m' pii_inv_def)
    ultimately have "pii_inv nf g taken m'" using each unfolding pii_inv_def by blast
    then show ?thesis using new(2) by (auto simp: m' map_le_def)
  next
    case known
    then have "r = Some ph" "m' = m" using assms(4) by (auto simp: placeholder_for_def Let_def)
    then show ?thesis using known assms(3) by simp
  qed (use assms(3,4) nil in \<open>auto simp: placeholder_for_def Let_def\<close>)
  then show "pii_inv nf g taken m'" "pm_keys m \<subseteq>\<^sub>m pm_keys m'" "r = pm_keys m' ?k" "r = None \<Longrightarrow> ?k = []"
    by blast+
qed

text \<open>The reference: the text with each span that has a placeholder replaced by it.\<close>

fun replaced :: "(string \<Rightarrow> string \<Rightarrow> string option) \<Rightarrow> string \<Rightarrow> nat \<Rightarrow> pii_span list \<Rightarrow> string" where
  "replaced f text pos [] = drop pos text"
| "replaced f text pos (s # ss) =
     (case f (sp_cls s) (slice text (nat (sp_start s)) (nat (sp_end s))) of
        None \<Rightarrow> replaced f text pos ss
      | Some ph \<Rightarrow> slice text pos (nat (sp_start s)) @ ph @ replaced f text (nat (sp_end s)) ss)"

definition placeholder_of :: "(string \<Rightarrow> string) \<Rightarrow> pii_map \<Rightarrow> string \<Rightarrow> string \<Rightarrow> string option" where
  "placeholder_of nf m cls surface = pm_keys m (surface_key nf cls surface)"

lemma replaced_cong:
  assumes "\<forall>s \<in> set ss. f (sp_cls s) (slice text (nat (sp_start s)) (nat (sp_end s)))
      = h (sp_cls s) (slice text (nat (sp_start s)) (nat (sp_end s)))"
  shows "replaced f text pos ss = replaced h text pos ss"
  using assms by (induction ss arbitrary: pos) (auto split: option.split)

lemma redact_text_replaced:
  assumes "grammar_ok g" and "\<forall>s \<in> set ss. is_class (sp_cls s)" and "pii_inv nf g taken m"
    and "redact_text nf g taken text pos ss m = (out, m')"
  shows "pii_inv nf g taken m'" and "pm_keys m \<subseteq>\<^sub>m pm_keys m'"
    and "\<And>m''. pii_inv nf g taken m'' \<Longrightarrow> pm_keys m' \<subseteq>\<^sub>m pm_keys m'' \<Longrightarrow> out = replaced (placeholder_of nf m'') text pos ss"
proof -
  have "pii_inv nf g taken m' \<and> pm_keys m \<subseteq>\<^sub>m pm_keys m' \<and>
    (\<forall>m''. pii_inv nf g taken m'' \<longrightarrow> pm_keys m' \<subseteq>\<^sub>m pm_keys m'' \<longrightarrow> out = replaced (placeholder_of nf m'') text pos ss)"
    using assms(2-4)
  proof (induction ss arbitrary: pos m out)
    case Nil
    then show ?case by simp
  next
    case (Cons s ss)
    let ?surface = "slice text (nat (sp_start s)) (nat (sp_end s))"
    obtain r m1 where r: "placeholder_for nf g taken (sp_cls s) ?surface m = (r, m1)" by fastforce
    have cls: "is_class (sp_cls s)" using Cons.prems(1) by simp
    note p = placeholder_for_inv [OF assms(1) cls Cons.prems(2) r]
    show ?case
    proof (cases r)
      case None
      then have "redact_text nf g taken text pos ss m1 = (out, m')" using Cons.prems(3) r by simp
      then have IH: "pii_inv nf g taken m'" "pm_keys m1 \<subseteq>\<^sub>m pm_keys m'"
        "\<And>m''. pii_inv nf g taken m'' \<Longrightarrow> pm_keys m' \<subseteq>\<^sub>m pm_keys m'' \<Longrightarrow> out = replaced (placeholder_of nf m'') text pos ss"
        using Cons.IH [OF _ p(1)] Cons.prems(1) by auto
      have "placeholder_of nf m'' (sp_cls s) ?surface = None" if "pii_inv nf g taken m''" for m''
        using that p(4) None by (cases "pm_keys m'' []") (auto simp: placeholder_of_def pii_inv_def)
      then show ?thesis using IH p(2) by (auto intro: map_le_trans)
    next
      case (Some ph)
      obtain out1 where out1: "redact_text nf g taken text (nat (sp_end s)) ss m1 = (out1, m')"
        and out: "out = slice text pos (nat (sp_start s)) @ ph @ out1"
        using Cons.prems(3) r Some by (auto split: prod.splits)
      have IH: "pii_inv nf g taken m'" "pm_keys m1 \<subseteq>\<^sub>m pm_keys m'"
        "\<And>m''. pii_inv nf g taken m'' \<Longrightarrow> pm_keys m' \<subseteq>\<^sub>m pm_keys m''
           \<Longrightarrow> out1 = replaced (placeholder_of nf m'') text (nat (sp_end s)) ss"
        using Cons.IH [OF _ p(1) out1] Cons.prems(1) by auto
      have "placeholder_of nf m'' (sp_cls s) ?surface = Some ph" if "pm_keys m' \<subseteq>\<^sub>m pm_keys m''" for m''
        using p(3) Some map_le_trans [OF IH(2) that] by (force simp: placeholder_of_def map_le_def dom_def)
      then have "out = replaced (placeholder_of nf m'') text pos (s # ss)"
        if "pii_inv nf g taken m''" "pm_keys m' \<subseteq>\<^sub>m pm_keys m''" for m''
        using IH(3) [OF that] that(2) out by simp
      then show ?thesis using IH(1,2) p(2) by (auto intro: map_le_trans)
    qed
  qed
  then show "pii_inv nf g taken m'" "pm_keys m \<subseteq>\<^sub>m pm_keys m'"
    "\<And>m''. pii_inv nf g taken m'' \<Longrightarrow> pm_keys m' \<subseteq>\<^sub>m pm_keys m'' \<Longrightarrow> out = replaced (placeholder_of nf m'') text pos ss"
    by blast+
qed

lemma redact_texts_replaced:
  assumes "grammar_ok g" and "\<forall>(text, ss) \<in> set items. \<forall>s \<in> set ss. is_class (sp_cls s)" and "pii_inv nf g taken m"
    and "redact_texts nf g taken items m = (outs, m')"
  shows "pii_inv nf g taken m' \<and> pm_keys m \<subseteq>\<^sub>m pm_keys m' \<and> (\<forall>m''. pii_inv nf g taken m'' \<longrightarrow> pm_keys m' \<subseteq>\<^sub>m pm_keys m''
      \<longrightarrow> outs = map (\<lambda>(text, ss). replaced (placeholder_of nf m'') text 0 ss) items)"
  using assms(2-4)
proof (induction items arbitrary: m outs)
  case Nil
  then show ?case by simp
next
  case (Cons item items)
  obtain t ss where item: "item = (t, ss)" by fastforce
  obtain out m1 where one: "redact_text nf g taken t 0 ss m = (out, m1)" by fastforce
  obtain outs1 where more: "redact_texts nf g taken items m1 = (outs1, m')" "outs = out # outs1"
    using Cons.prems(3) one item by (auto split: prod.splits)
  have cls: "\<forall>s \<in> set ss. is_class (sp_cls s)" using Cons.prems(1) item by simp
  note r = redact_text_replaced [OF assms(1) cls Cons.prems(2) one]
  have IH: "pii_inv nf g taken m' \<and> pm_keys m1 \<subseteq>\<^sub>m pm_keys m' \<and> (\<forall>m''. pii_inv nf g taken m'' \<longrightarrow> pm_keys m' \<subseteq>\<^sub>m pm_keys m''
      \<longrightarrow> outs1 = map (\<lambda>(text, ss). replaced (placeholder_of nf m'') text 0 ss) items)"
    using Cons.IH [OF _ r(1) more(1)] Cons.prems(1) by simp
  then show ?case using r(2,3) more(2) item by (auto intro: map_le_trans)
qed

subsection \<open>What pseudonymisation promises\<close>

definition surface_of :: "string \<Rightarrow> pii_span \<Rightarrow> string" where
  "surface_of text s = slice text (nat (sp_start s)) (nat (sp_end s))"

lemma redact_text_named:
  assumes "grammar_ok g" and "\<forall>s \<in> set ss. is_class (sp_cls s)" and "pii_inv nf g taken m"
    and "redact_text nf g taken text pos ss m = (out, m')" and "s \<in> set ss"
    and "surface_key nf (sp_cls s) (surface_of text s) \<noteq> []"
  shows "pm_keys m' (surface_key nf (sp_cls s) (surface_of text s)) \<noteq> None"
  using assms(2-5)
proof (induction ss arbitrary: pos m out)
  case (Cons x ss)
  obtain r m1 where r: "placeholder_for nf g taken (sp_cls x) (surface_of text x) m = (r, m1)" by fastforce
  have cls: "is_class (sp_cls x)" "\<forall>s \<in> set ss. is_class (sp_cls s)" using Cons.prems(1) by simp_all
  note p = placeholder_for_inv [OF assms(1) cls(1) Cons.prems(2) r]
  obtain pos' out1 where more: "redact_text nf g taken text pos' ss m1 = (out1, m')"
    using Cons.prems(3) r by (cases r) (auto simp: surface_of_def split: prod.splits)
  show ?case
  proof (cases "s = x")
    case True
    then have "pm_keys m1 (surface_key nf (sp_cls s) (surface_of text s)) \<noteq> None" using p(3,4) assms(6) by auto
    then show ?thesis
      using redact_text_replaced(2) [OF assms(1) cls(2) p(1) more] by (force simp: map_le_def dom_def)
  next
    case False
    then show ?thesis using Cons.IH [OF cls(2) p(1) more] Cons.prems(4) by simp
  qed
qed simp

lemma redact_texts_named:
  assumes "grammar_ok g" and "\<forall>(text, ss) \<in> set items. \<forall>s \<in> set ss. is_class (sp_cls s)" and "pii_inv nf g taken m"
    and "redact_texts nf g taken items m = (outs, m')" and "(t, ss) \<in> set items" and "s \<in> set ss"
    and "surface_key nf (sp_cls s) (surface_of t s) \<noteq> []"
  shows "pm_keys m' (surface_key nf (sp_cls s) (surface_of t s)) \<noteq> None"
  using assms(2-5)
proof (induction items arbitrary: m outs)
  case (Cons item items)
  obtain t' ss' where item: "item = (t', ss')" by fastforce
  obtain out m1 where one: "redact_text nf g taken t' 0 ss' m = (out, m1)" by fastforce
  obtain outs1 where more: "redact_texts nf g taken items m1 = (outs1, m')"
    using Cons.prems(3) one item by (auto split: prod.splits)
  have cls: "\<forall>s \<in> set ss'. is_class (sp_cls s)" "\<forall>(text, ss) \<in> set items. \<forall>s \<in> set ss. is_class (sp_cls s)"
    using Cons.prems(1) item by simp_all
  have inv: "pii_inv nf g taken m1" by (rule redact_text_replaced(1) [OF assms(1) cls(1) Cons.prems(2) one])
  show ?case
  proof (cases "(t, ss) \<in> set items")
    case True
    then show ?thesis using Cons.IH [OF cls(2) inv more] by simp
  next
    case False
    then have "ss = ss'" "t = t'" using Cons.prems(4) item by auto
    then have "pm_keys m1 (surface_key nf (sp_cls s) (surface_of t s)) \<noteq> None"
      using redact_text_named [OF assms(1) cls(1) Cons.prems(2) one] assms(6,7) by simp
    then show ?thesis
      using redact_texts_replaced [OF assms(1) cls(2) inv more] by (force simp: map_le_def dom_def)
  qed
qed simp

lemma merge_spans_class:
  assumes "merge_spans text spans = Inr out" and "t \<in> set out"
  shows "is_class (sp_cls t)"
proof -
  obtain Ms where Ms: "set (concat Ms) = set (filter (\<lambda>s. sp_start s < sp_end s) spans)" "list_all2 union_of out Ms"
    using assms(1) by (rule merge_spans_unions)
  obtain M where "M \<in> set Ms" "union_of t M"
    using Ms(2) assms(2) by (metis in_set_conv_nth list_all2_conv_all_nth)
  then obtain s where "s \<in> set (concat Ms)" "sp_cls s = sp_cls t" by (auto simp: union_of_def)
  then have "valid_span text s" using Ms(1) assms(1) by (auto simp: merge_spans_def list_ex_iff split: if_splits)
  then show ?thesis using \<open>sp_cls s = sp_cls t\<close> pii_class_is_class by (auto simp: valid_span_def)
qed

lemma merge_all_items:
  assumes "merge_all items = Inr merged"
  shows "list_all2 (\<lambda>(t, spans) (t', ss). t' = t \<and> merge_spans t spans = Inr ss) items merged"
  using assms by (induction items arbitrary: merged rule: merge_all.induct) (auto split: sum.splits)

lemma merge_all_classes:
  assumes "merge_all items = Inr merged"
  shows "\<forall>(t, ss) \<in> set merged. \<forall>s \<in> set ss. is_class (sp_cls s)"
  using merge_all_items [OF assms] by (induction rule: list_all2_induct) (auto dest: merge_spans_class)

text \<open>What a caller knows of a pseudonymised request; \<open>merged\<close> are the texts with their merged spans.\<close>

lemma pseudonymize_facts:
  assumes "grammar_ok g" and "pseudonymize nf g texts spans = Inr (outs, m)"
  obtains merged where "merge_all (zip texts spans) = Inr merged" and "length texts = length spans"
    and "outs = map (\<lambda>(t, ss). replaced (placeholder_of nf m) t 0 ss) merged"
    and "pii_inv nf g (taken_of g texts) m"
    and "\<forall>(t, ss) \<in> set merged. \<forall>s \<in> set ss.
      placeholder_of nf m (sp_cls s) (surface_of t s) = None \<longleftrightarrow> surface_key nf (sp_cls s) (surface_of t s) = []"
proof -
  obtain merged where merged: "merge_all (zip texts spans) = Inr merged" "length texts = length spans"
    and red: "redact_texts nf g (taken_of g texts) merged empty_map = (outs, m)"
    using assms(2) by (auto simp: pseudonymize_def split: if_splits sum.splits)
  note cls = merge_all_classes [OF merged(1)]
  note all = redact_texts_replaced [OF assms(1) cls pii_inv_empty red]
  have outs: "outs = map (\<lambda>(t, ss). replaced (placeholder_of nf m) t 0 ss) merged" using all by auto
  have "placeholder_of nf m (sp_cls s) (surface_of t s) = None \<longleftrightarrow> surface_key nf (sp_cls s) (surface_of t s) = []"
    if "(t, ss) \<in> set merged" "s \<in> set ss" for t ss s
  proof
    assume "placeholder_of nf m (sp_cls s) (surface_of t s) = None"
    then show "surface_key nf (sp_cls s) (surface_of t s) = []"
      using redact_texts_named [OF assms(1) cls pii_inv_empty red that] by (auto simp: placeholder_of_def)
  next
    assume "surface_key nf (sp_cls s) (surface_of t s) = []"
    then show "placeholder_of nf m (sp_cls s) (surface_of t s) = None"
      using all by (cases "pm_keys m []") (auto simp: placeholder_of_def elim: pii_inv_key)
  qed
  then show ?thesis using that merged outs all by blast
qed

text \<open>C5: The text that leaves has each merged span whose surface is not blank replaced by a placeholder and
  is otherwise the text. Two surfaces have the same placeholder exactly when they are the same entity, of
  one class and one normalised spelling; a placeholder leads back to a surface of its entity; and none of
  them occurs in any text of the request, so the user's own words are never taken for one.\<close>

theorem pseudonymize_sound:
  assumes "grammar_ok g" and "pseudonymize nf g texts spans = Inr (outs, m)"
  shows "(\<exists>merged. merge_all (zip texts spans) = Inr merged
      \<and> outs = map (\<lambda>(t, ss). replaced (placeholder_of nf m) t 0 ss) merged
      \<and> (\<forall>(t, ss) \<in> set merged. \<forall>s \<in> set ss.
           placeholder_of nf m (sp_cls s) (surface_of t s) = None \<longleftrightarrow> surface_key nf (sp_cls s) (surface_of t s) = []))
    \<and> (\<forall>cls x ph. placeholder_of nf m cls x = Some ph \<longrightarrow>
         (\<forall>cls' x'. placeholder_of nf m cls' x' = Some ph \<longleftrightarrow> surface_key nf cls' x' = surface_key nf cls x)
         \<and> (\<forall>t \<in> set texts. \<not> sublist ph t)
         \<and> (\<exists>c n s. is_class c \<and> ph = placeholder g c n \<and> map_of (pm_surfaces m) ph = Some s
              \<and> surface_key nf c s = surface_key nf cls x))"
proof -
  obtain merged where merged: "merge_all (zip texts spans) = Inr merged" "length texts = length spans"
    "outs = map (\<lambda>(t, ss). replaced (placeholder_of nf m) t 0 ss) merged"
    and inv: "pii_inv nf g (taken_of g texts) m"
    and named: "\<forall>(t, ss) \<in> set merged. \<forall>s \<in> set ss.
      placeholder_of nf m (sp_cls s) (surface_of t s) = None \<longleftrightarrow> surface_key nf (sp_cls s) (surface_of t s) = []"
    using assms by (rule pseudonymize_facts)
  have "(\<forall>cls' x'. placeholder_of nf m cls' x' = Some ph \<longleftrightarrow> surface_key nf cls' x' = surface_key nf cls x)
      \<and> (\<forall>t \<in> set texts. \<not> sublist ph t)
      \<and> (\<exists>c n s. is_class c \<and> ph = placeholder g c n \<and> map_of (pm_surfaces m) ph = Some s
              \<and> surface_key nf c s = surface_key nf cls x)"
    if ph: "placeholder_of nf m cls x = Some ph" for cls x ph
  proof -
    obtain c n s where key: "is_class c" "ph = placeholder g c n" "ph \<notin> set (taken_of g texts)"
      "map_of (pm_surfaces m) ph = Some s" "surface_key nf c s = surface_key nf cls x"
      using ph unfolding placeholder_of_def by (rule pii_inv_key [OF inv])
    have "\<not> sublist ph t" if "t \<in> set texts" for t
      using occurring_is_taken [OF assms(1) key(1) that] key(2,3) by blast
    moreover have "placeholder_of nf m cls' x' = Some ph \<longleftrightarrow> surface_key nf cls' x' = surface_key nf cls x" for cls' x'
      using ph pii_inv_key_inj [OF inv] by (auto simp: placeholder_of_def)
    ultimately show ?thesis using key by blast
  qed
  then show ?thesis using merged named by blast
qed

definition square :: grammar where
  "square = \<lparr>g_open = ''['', g_close = '']''\<rparr>"

lemma square_ok: "grammar_ok square"
  by code_simp

definition demo_spans :: "pii_span list" where
  "demo_spans = [\<lparr>sp_start = 0, sp_end = 3, sp_cls = ''PERSON''\<rparr>, \<lparr>sp_start = 8, sp_end = 11, sp_cls = ''PERSON''\<rparr>]"

theorem pseudonymize_sound_witness:
  "\<exists>m. pseudonymize (\<lambda>s. s) square [''Ann met ann''] [demo_spans] = Inr ([''[PERSON_1] met [PERSON_1]''], m)
     \<and> (\<forall>ph. placeholder_of (\<lambda>s. s) m ''PERSON'' ''Ann'' = Some ph \<longrightarrow> \<not> sublist ph ''Ann met ann'')"
proof -
  have "(case pseudonymize (\<lambda>s. s) square [''Ann met ann''] [demo_spans] of
      Inr (outs, m) \<Rightarrow> outs = [''[PERSON_1] met [PERSON_1]''] | Inl _ \<Rightarrow> False)"
    by code_simp
  then obtain m where m: "pseudonymize (\<lambda>s. s) square [''Ann met ann''] [demo_spans]
      = Inr ([''[PERSON_1] met [PERSON_1]''], m)"
    by (auto split: sum.splits)
  show ?thesis using pseudonymize_sound [OF square_ok m] m by auto
qed

end
