(* ===== verification/Json.thy ===== *)
theory Json
  imports JsPrelude
begin

text \<open>
  \<open>JSON.stringify\<close> and \<open>JSON.parse\<close> on the values and strings of the prelude. Parsing is a lexer over
  characters and a machine over tokens with an explicit stack. A \<open>\u\<close> escape above \<open>00ff\<close> names a
  code unit that the strings of the model do not have, and is not read. The theory ends with the round
  trip: what is printed is read back.
\<close>

subsection \<open>Numbers as text\<close>

text \<open>\<open>Number::toString\<close>: the significant digits of a positive number and the place of its decimal
  point. Every double has at most 324 decimals in its shortest form.\<close>

fun decimals :: "nat \<Rightarrow> rat \<Rightarrow> nat" where
  "decimals 0 q = 0"
| "decimals (Suc m) q = (if q = of_int \<lfloor>q\<rfloor> then 0 else Suc (decimals m (10 * q)))"

definition strip_zeros :: "string \<Rightarrow> string" where
  "strip_zeros ds = rev (dropWhile (\<lambda>c. c = CHR ''0'') (rev ds))"

definition int_str :: "int \<Rightarrow> string" where
  "int_str i = (if i < 0 then CHR ''-'' # num_str (nat (- i)) else num_str (nat i))"

definition digits_at :: "string \<Rightarrow> int \<Rightarrow> string" where
  "digits_at ds n =
     (let k = int (length ds)
      in if k \<le> n \<and> n \<le> 21 then ds @ replicate (nat (n - k)) (CHR ''0'')
         else if 0 < n \<and> n \<le> 21 then take (nat n) ds @ CHR ''.'' # drop (nat n) ds
         else if - 6 < n \<and> n \<le> 0 then ''0.'' @ replicate (nat (- n)) (CHR ''0'') @ ds
         else (case ds of [] \<Rightarrow> [] | d # rest \<Rightarrow>
           d # (if rest = [] then [] else CHR ''.'' # rest)
             @ CHR ''e'' # (if n - 1 < 0 then int_str (n - 1) else CHR ''+'' # int_str (n - 1))))"

definition fraction_str :: "rat \<Rightarrow> string" where
  "fraction_str q =
     (let k = decimals 400 q; ds = num_str (nat \<lfloor>q * 10 ^ k\<rfloor>)
      in digits_at (strip_zeros ds) (int (length ds) - int k))"

definition rat_str :: "rat \<Rightarrow> string" where
  "rat_str q =
     (if q = of_int \<lfloor>q\<rfloor> \<and> \<bar>q\<bar> < 1000000000000000000000 then int_str \<lfloor>q\<rfloor>
      else if q < 0 then CHR ''-'' # fraction_str (- q) else fraction_str q)"

fun jsnum_str :: "jsnum \<Rightarrow> string" where
  "jsnum_str (Fin q) = rat_str q"
| "jsnum_str PosInf = ''Infinity''"
| "jsnum_str NegInf = ''-Infinity''"
| "jsnum_str NaN = ''NaN''"

subsection \<open>\<open>JSON.stringify\<close>\<close>

definition hex_digit_of :: "int \<Rightarrow> char" where
  "hex_digit_of d = ''0123456789abcdef'' ! nat d"

definition hex4 :: "char \<Rightarrow> string" where
  "hex4 c = ''00'' @ [hex_digit_of ((of_char c :: int) div 16), hex_digit_of ((of_char c :: int) mod 16)]"

definition u_escape :: string where
  "u_escape = [CHR 0x5C, CHR ''u'']"

definition json_escape_char :: "char \<Rightarrow> string" where
  "json_escape_char c =
     (let n = (of_char c :: int)
      in if n = 34 then [CHR 0x5C, c] else if n = 92 then [CHR 0x5C, c]
         else if n = 8 then [CHR 0x5C, CHR ''b''] else if n = 9 then [CHR 0x5C, CHR ''t'']
         else if n = 10 then [CHR 0x5C, CHR ''n''] else if n = 12 then [CHR 0x5C, CHR ''f'']
         else if n = 13 then [CHR 0x5C, CHR ''r''] else if n < 32 then u_escape @ hex4 c
         else [c])"

definition json_quote :: "string \<Rightarrow> string" where
  "json_quote s = CHR 0x22 # concat (map json_escape_char s) @ [CHR 0x22]"

definition json_num_str :: "jsnum \<Rightarrow> string" where
  "json_num_str n = (case n of Fin q \<Rightarrow> rat_str q | _ \<Rightarrow> ''null'')"

text \<open>A member whose value is \<open>undefined\<close> is left out; in an array it prints as \<open>null\<close>.\<close>

fun json_text :: "jsv \<Rightarrow> string" where
  "json_text JUndef = ''null''"
| "json_text JNull = ''null''"
| "json_text (JBool b) = (if b then ''true'' else ''false'')"
| "json_text (JNum n) = json_num_str n"
| "json_text (JStr s) = json_quote s"
| "json_text (JArr xs) = CHR ''['' # str_join '','' (map json_text xs) @ '']''"
| "json_text (JObj kvs) =
     CHR ''{'' # str_join '',''
       (map (\<lambda>(k, v). json_quote k @ CHR '':'' # json_text v) (filter (\<lambda>(k, v). v \<noteq> JUndef) kvs)) @ ''}''"

subsection \<open>Tokens\<close>

datatype jtok = TPunct char | TStr string | TVal jsv

definition hex_value :: "char \<Rightarrow> nat option" where
  "hex_value c =
     (let n = (of_char c :: int)
      in if 48 \<le> n \<and> n \<le> 57 then Some (nat (n - 48))
         else if 97 \<le> n \<and> n \<le> 102 then Some (nat (n - 87))
         else if 65 \<le> n \<and> n \<le> 70 then Some (nat (n - 55)) else None)"

fun unescape :: "string \<Rightarrow> (char \<times> string) option" where
  "unescape [] = None"
| "unescape (e # r) =
     (if e = CHR 0x22 \<or> e = CHR 0x5C \<or> e = CHR ''/'' then Some (e, r)
      else if e = CHR ''b'' then Some (CHR 0x08, r) else if e = CHR ''f'' then Some (CHR 0x0C, r)
      else if e = CHR ''n'' then Some (CHR 0x0A, r) else if e = CHR ''r'' then Some (CHR 0x0D, r)
      else if e = CHR ''t'' then Some (CHR 0x09, r)
      else if e = CHR ''u'' then
        (case r of
           a # b # c # d # t \<Rightarrow>
             (case (hex_value a, hex_value b, hex_value c, hex_value d) of
                (Some x, Some y, Some z, Some w) \<Rightarrow>
                  if x = 0 \<and> y = 0 then Some (char_of (16 * z + w), t) else None
              | _ \<Rightarrow> None)
         | _ \<Rightarrow> None)
      else None)"

lemma unescape_shorter: "unescape s = Some (c, r) \<Longrightarrow> length r < length s"
  by (cases s) (auto split: if_splits list.splits option.splits)

function lex_string :: "string \<Rightarrow> (string \<times> string) option" where
  "lex_string [] = None"
| "lex_string (c # s) =
     (if c = CHR 0x22 then Some ([], s)
      else if (of_char c :: int) < 32 then None
      else if c = CHR 0x5C then
        (case unescape s of None \<Rightarrow> None | Some (d, r) \<Rightarrow> map_option (apfst (Cons d)) (lex_string r))
      else map_option (apfst (Cons c)) (lex_string s))"
  by pat_completeness auto
termination
  by (relation "measure length") (auto dest: unescape_shorter)

lemma lex_string_shorter: "lex_string s = Some (t, r) \<Longrightarrow> length r < length s"
proof (induction s arbitrary: t r rule: lex_string.induct)
  case (2 c s)
  then show ?case
    by (fastforce split: if_splits option.splits dest: unescape_shorter)
qed simp

text \<open>A number: an optional sign, digits without a leading zero, a fraction, an exponent.\<close>

definition span_digits :: "string \<Rightarrow> string \<times> string" where
  "span_digits s = (takeWhile is_digit s, dropWhile is_digit s)"

definition lex_sign :: "string \<Rightarrow> bool \<times> string" where
  "lex_sign s = (case s of c # r \<Rightarrow> if c = CHR ''-'' then (True, r) else (False, s) | [] \<Rightarrow> (False, s))"

definition lex_fraction :: "string \<Rightarrow> (string \<times> string) option" where
  "lex_fraction s =
     (case s of
        c # r \<Rightarrow>
          if c = CHR ''.'' then (case span_digits r of (ds, t) \<Rightarrow> if ds = [] then None else Some (ds, t))
          else Some ([], s)
      | [] \<Rightarrow> Some ([], s))"

definition lex_exponent :: "string \<Rightarrow> (int \<times> string) option" where
  "lex_exponent s =
     (case s of
        c # r \<Rightarrow>
          if c = CHR ''e'' \<or> c = CHR ''E'' then
            (case (case r of d # r' \<Rightarrow> if d = CHR ''+'' then (False, r') else lex_sign r | [] \<Rightarrow> (False, r)) of
               (neg, u) \<Rightarrow>
                 (case span_digits u of (ds, t) \<Rightarrow>
                    if ds = [] then None
                    else Some (if neg then - int (digits_value ds) else int (digits_value ds), t)))
          else Some (0, s)
      | [] \<Rightarrow> Some (0, s))"

text \<open>A literal past the largest double is an infinity.\<close>

definition to_double :: "rat \<Rightarrow> jsnum" where
  "to_double q =
     (if \<bar>q\<bar> < 1000000000000000000000 then Fin q
      else if 2 ^ 1024 - 2 ^ 970 \<le> q then PosInf
      else if q \<le> 2 ^ 970 - 2 ^ 1024 then NegInf else Fin q)"

definition decimal_value :: "bool \<Rightarrow> string \<Rightarrow> string \<Rightarrow> int \<Rightarrow> rat" where
  "decimal_value neg ds fs e =
     (let x = e - int (length fs);
          m = (of_nat (digits_value (ds @ fs)) :: rat);
          q = (if 0 \<le> x then m * 10 ^ nat x else m / 10 ^ nat (- x))
      in if neg then - q else q)"

definition lex_number :: "string \<Rightarrow> (jsnum \<times> string) option" where
  "lex_number s =
     (case lex_sign s of (neg, s1) \<Rightarrow>
        (case span_digits s1 of (ds, s2) \<Rightarrow>
           if ds = [] \<or> (hd ds = CHR ''0'' \<and> tl ds \<noteq> []) then None
           else (case lex_fraction s2 of None \<Rightarrow> None | Some (fs, s3) \<Rightarrow>
             (case lex_exponent s3 of None \<Rightarrow> None | Some (e, s4) \<Rightarrow>
               Some (to_double (decimal_value neg ds fs e), s4)))))"

lemma span_digits_shorter: "span_digits s = (ds, t) \<Longrightarrow> length t \<le> length s \<and> (ds \<noteq> [] \<longrightarrow> length t < length s)"
  unfolding span_digits_def
  by (cases s) (auto simp: le_imp_less_Suc length_dropWhile_le intro: le_SucI split: if_splits)

lemma lex_sign_shorter: "lex_sign s = (b, t) \<Longrightarrow> length t \<le> length s"
  by (auto simp: lex_sign_def split: list.splits if_splits)

lemma lex_fraction_shorter: "lex_fraction s = Some (ds, t) \<Longrightarrow> length t \<le> length s"
  by (auto simp: lex_fraction_def split: list.splits if_splits prod.splits dest: span_digits_shorter)

lemma lex_exponent_shorter: "lex_exponent s = Some (e, t) \<Longrightarrow> length t \<le> length s"
  unfolding lex_exponent_def
  by (fastforce split: list.splits if_splits prod.splits dest: span_digits_shorter lex_sign_shorter)

lemma lex_number_shorter: "lex_number s = Some (n, t) \<Longrightarrow> length t < length s"
  unfolding lex_number_def
  by (fastforce split: prod.splits if_splits option.splits
      dest: span_digits_shorter lex_sign_shorter lex_fraction_shorter lex_exponent_shorter)

definition json_space :: "char \<Rightarrow> bool" where
  "json_space c \<longleftrightarrow> c = CHR '' '' \<or> c = CHR 0x09 \<or> c = CHR 0x0A \<or> c = CHR 0x0D"

definition is_punct :: "char \<Rightarrow> bool" where
  "is_punct c \<longleftrightarrow> List.member ''{}[],:'' c"

definition json_words :: "(string \<times> jsv) list" where
  "json_words = [(''true'', JTrue), (''false'', JFalse), (''null'', JNull)]"

definition lex_word :: "string \<Rightarrow> (jsv \<times> string) option" where
  "lex_word s =
     (case List.find (\<lambda>(w, _). starts_with s w) json_words of
        Some (w, v) \<Rightarrow> Some (v, drop (length w) s)
      | None \<Rightarrow> map_option (apfst JNum) (lex_number s))"

lemma lex_word_shorter: "lex_word s = Some (v, t) \<Longrightarrow> length t < length s"
  by (cases s) (auto simp: lex_word_def json_words_def starts_with_iff split: option.splits if_splits
      dest!: lex_number_shorter)

function json_tokens :: "string \<Rightarrow> jtok list option" where
  "json_tokens [] = Some []"
| "json_tokens (c # s) =
     (if json_space c then json_tokens s
      else if is_punct c then map_option (Cons (TPunct c)) (json_tokens s)
      else if c = CHR 0x22 then
        (case lex_string s of None \<Rightarrow> None | Some (t, r) \<Rightarrow> map_option (Cons (TStr t)) (json_tokens r))
      else
        (case lex_word (c # s) of None \<Rightarrow> None | Some (v, r) \<Rightarrow> map_option (Cons (TVal v)) (json_tokens r)))"
  by pat_completeness auto
termination
  by (relation "measure length") (auto dest: lex_string_shorter lex_word_shorter simp: less_SucI)

subsection \<open>The machine over tokens\<close>

text \<open>\<open>Object.keys\<close> lists the array indices first, in ascending order, then the other names as they
  were added; a name that comes twice keeps its place and takes the last value.\<close>

definition is_index :: "string \<Rightarrow> bool" where
  "is_index k \<longleftrightarrow>
     k \<noteq> [] \<and> list_all is_digit k \<and> (hd k \<noteq> CHR ''0'' \<or> tl k = []) \<and> int (digits_value k) < 4294967295"

definition put_key :: "string \<Rightarrow> jsv \<Rightarrow> js_fields \<Rightarrow> js_fields" where
  "put_key k v kvs =
     (if map_of kvs k \<noteq> None then AList.update k v kvs
      else if is_index k then
        (let below = (\<lambda>(j, _). is_index j \<and> digits_value j < digits_value k)
         in takeWhile below kvs @ (k, v) # dropWhile below kvs)
      else kvs @ [(k, v)])"

datatype jframe = InArr "jsv list" | InObj js_fields string

datatype jmode =
    NeedValue
  | NeedValueOrClose
  | NeedKey js_fields
  | NeedKeyOrClose
  | NeedColon js_fields string
  | Have jsv

fun value_token :: "jframe list \<Rightarrow> jtok \<Rightarrow> (jframe list \<times> jmode) option" where
  "value_token st (TStr s) = Some (st, Have (JStr s))"
| "value_token st (TVal v) = Some (st, Have v)"
| "value_token st (TPunct c) =
     (if c = CHR ''['' then Some (InArr [] # st, NeedValueOrClose)
      else if c = CHR ''{'' then Some (st, NeedKeyOrClose) else None)"

fun after_value :: "jframe list \<Rightarrow> jsv \<Rightarrow> char \<Rightarrow> (jframe list \<times> jmode) option" where
  "after_value (InArr xs # st) v c =
     (if c = CHR '','' then Some (InArr (xs @ [v]) # st, NeedValue)
      else if c = CHR '']'' then Some (st, Have (JArr (xs @ [v]))) else None)"
| "after_value (InObj kvs k # st) v c =
     (if c = CHR '','' then Some (st, NeedKey (put_key k v kvs))
      else if c = CHR ''}'' then Some (st, Have (JObj (put_key k v kvs))) else None)"
| "after_value [] v c = None"

fun json_step :: "jtok \<Rightarrow> jframe list \<times> jmode \<Rightarrow> (jframe list \<times> jmode) option" where
  "json_step t (st, NeedValue) = value_token st t"
| "json_step t (st, NeedValueOrClose) =
     (case (t, st) of
        (TPunct c, InArr xs # st') \<Rightarrow> if c = CHR '']'' then Some (st', Have (JArr xs)) else value_token st t
      | _ \<Rightarrow> value_token st t)"
| "json_step t (st, NeedKey kvs) = (case t of TStr k \<Rightarrow> Some (st, NeedColon kvs k) | _ \<Rightarrow> None)"
| "json_step t (st, NeedKeyOrClose) =
     (case t of
        TStr k \<Rightarrow> Some (st, NeedColon [] k)
      | TPunct c \<Rightarrow> if c = CHR ''}'' then Some (st, Have (JObj [])) else None
      | TVal v \<Rightarrow> None)"
| "json_step t (st, NeedColon kvs k) =
     (case t of TPunct c \<Rightarrow> if c = CHR '':'' then Some (InObj kvs k # st, NeedValue) else None | _ \<Rightarrow> None)"
| "json_step t (st, Have v) = (case t of TPunct c \<Rightarrow> after_value st v c | _ \<Rightarrow> None)"

fun json_run :: "jframe list \<times> jmode \<Rightarrow> jtok list \<Rightarrow> (jframe list \<times> jmode) option" where
  "json_run cfg [] = Some cfg"
| "json_run cfg (t # ts) = (case json_step t cfg of None \<Rightarrow> None | Some cfg' \<Rightarrow> json_run cfg' ts)"

text \<open>\<open>JSON.parse\<close>; \<open>None\<close> is its \<open>SyntaxError\<close>.\<close>

definition json_parse :: "string \<Rightarrow> jsv option" where
  "json_parse s =
     (case json_tokens s of
        None \<Rightarrow> None
      | Some ts \<Rightarrow>
          (case json_run ([], NeedValue) ts of
             Some (st, m) \<Rightarrow> (case m of Have v \<Rightarrow> if st = [] then Some v else None | _ \<Rightarrow> None)
           | None \<Rightarrow> None))"

subsection \<open>What is printed is read back\<close>

text \<open>The values whose text is read back as the value: no \<open>undefined\<close>, no name that is an array index or
  comes twice, and integers that print without an exponent.\<close>

fun json_clean :: "jsv \<Rightarrow> bool" where
  "json_clean JUndef = False"
| "json_clean (JNum (Fin q)) = (q = of_int \<lfloor>q\<rfloor> \<and> \<bar>q\<bar> < 1000000000000000000000)"
| "json_clean (JNum _) = False"
| "json_clean (JArr xs) = (\<forall>x \<in> set xs. json_clean x)"
| "json_clean (JObj kvs) = (distinct (map fst kvs) \<and> (\<forall>(k, v) \<in> set kvs. \<not> is_index k \<and> json_clean v))"
| "json_clean _ = True"

lemma hex_digit_table: "\<forall>d \<in> set [0..15]. hex_value (hex_digit_of d) = Some (nat d)"
  by code_simp

lemma hex_digit_value: "0 \<le> d \<Longrightarrow> d < 16 \<Longrightarrow> hex_value (hex_digit_of d) = Some (nat d)"
  by (rule hex_digit_table [rule_format]) simp

lemma char_code_int: "(of_char c :: int) = int (of_char c)"
  by (simp only: of_nat_of_char)

lemma char_code_bounds: "0 \<le> (of_char c :: int)" "(of_char c :: int) < 256"
  using nat_of_char_less_256 [of c] unfolding char_code_int by linarith+

lemma hex_pair: "16 * nat ((of_char c :: int) div 16) + nat ((of_char c :: int) mod 16) = of_char c"
  unfolding char_code_int by (simp add: nat_div_distrib nat_mod_distrib)

lemma unescape_hex4: "unescape (CHR ''u'' # hex4 c @ r) = Some (c, r)"
proof -
  have "hex_value (hex_digit_of ((of_char c :: int) div 16)) = Some (nat ((of_char c :: int) div 16))"
    "hex_value (hex_digit_of ((of_char c :: int) mod 16)) = Some (nat ((of_char c :: int) mod 16))"
    using char_code_bounds [of c] by (simp_all add: hex_digit_value)
  moreover have "hex_value (CHR ''0'') = Some 0" by code_simp
  ultimately show ?thesis by (simp add: hex4_def hex_pair)
qed

lemma char_code: "(of_char c :: int) = of_char d \<Longrightarrow> c = d"
  by (simp only: of_char_eq_iff)

lemma char_codes:
  "(34 :: int) = of_char (CHR 0x22)" "(92 :: int) = of_char (CHR 0x5C)" "(8 :: int) = of_char (CHR 0x08)"
  "(9 :: int) = of_char (CHR 0x09)" "(10 :: int) = of_char (CHR 0x0A)" "(12 :: int) = of_char (CHR 0x0C)"
  "(13 :: int) = of_char (CHR 0x0D)"
  by simp_all

lemma lex_string_escaped: "lex_string (json_escape_char c @ r) = map_option (apfst (Cons c)) (lex_string r)"
proof -
  have esc: "lex_string (CHR 0x5C # e # t) = (case unescape (e # t) of None \<Rightarrow> None
      | Some (d, r) \<Rightarrow> map_option (apfst (Cons d)) (lex_string r))" for e t
    by simp
  let ?n = "of_char c :: int"
  consider "?n = 34" | "?n = 92" | "?n = 8" | "?n = 9" | "?n = 10" | "?n = 12" | "?n = 13"
    | "?n \<notin> {34, 92, 8, 9, 10, 12, 13}" "?n < 32" | "?n \<notin> {34, 92, 8, 9, 10, 12, 13}" "\<not> ?n < 32"
    by blast
  then show ?thesis
  proof cases
    case 8
    then show ?thesis
      by (simp add: json_escape_char_def Let_def u_escape_def esc unescape_hex4 del: lex_string.simps unescape.simps)
  next
    case 9
    then have "c \<noteq> CHR 0x22" "c \<noteq> CHR 0x5C" by auto
    with 9 show ?thesis by (simp add: json_escape_char_def)
  qed (simp only: char_codes, drule char_code, simp add: json_escape_char_def)+
qed

lemma lex_string_quoted: "lex_string (concat (map json_escape_char s) @ CHR 0x22 # r) = Some (s, r)"
  by (induction s) (simp_all add: lex_string_escaped del: lex_string.simps(2), simp)

lemma lex_quoted: "json_tokens (json_quote s @ r) = map_option (Cons (TStr s)) (json_tokens r)"
proof -
  have "\<not> json_space (CHR 0x22)" "\<not> is_punct (CHR 0x22)" by code_simp+
  then show ?thesis by (simp add: json_quote_def lex_string_quoted)
qed

text \<open>A number ends where a character that cannot continue it follows.\<close>

definition ends_number :: "string \<Rightarrow> bool" where
  "ends_number r \<longleftrightarrow>
     (case r of [] \<Rightarrow> True | c # _ \<Rightarrow> \<not> is_digit c \<and> c \<noteq> CHR ''.'' \<and> c \<noteq> CHR ''e'' \<and> c \<noteq> CHR ''E'')"

lemma span_digits_app: "list_all is_digit ds \<Longrightarrow> ends_number r \<Longrightarrow> span_digits (ds @ r) = (ds, r)"
  unfolding span_digits_def
  by (cases r) (auto simp: ends_number_def list_all_iff takeWhile_append2 dropWhile_append2)

lemma num_str_no_zero: "hd (num_str n) = CHR ''0'' \<longrightarrow> tl (num_str n) = []"
proof (cases "n = 0")
  case True
  then show ?thesis by (subst num_str.simps) simp
next
  case False
  then show ?thesis using num_str_head by blast
qed

lemma digit_head: "is_digit (hd (num_str n))"
  using num_str_digits [of n] num_str_not_Nil [of n] by (cases "num_str n") auto

lemma digit_plain: "is_digit c \<Longrightarrow> c \<noteq> CHR ''-'' \<and> \<not> json_space c \<and> \<not> is_punct c \<and> c \<noteq> CHR 0x22
    \<and> c \<noteq> CHR ''t'' \<and> c \<noteq> CHR ''f'' \<and> c \<noteq> CHR ''n''"
  by (auto simp: is_digit_def json_space_def is_punct_def)

lemma lex_number_nat:
  "ends_number r \<Longrightarrow> lex_number (num_str n @ r) = Some (to_double (of_nat n), r)"
  "ends_number r \<Longrightarrow> lex_number (CHR ''-'' # num_str n @ r) = Some (to_double (- of_nat n), r)"
proof -
  assume r: "ends_number r"
  have ends: "lex_fraction r = Some ([], r)" "lex_exponent r = Some (0, r)"
    using r by (auto simp: lex_fraction_def lex_exponent_def ends_number_def split: list.splits)
  have spanned: "span_digits (num_str n @ r) = (num_str n, r)"
    using num_str_digits r by (rule span_digits_app)
  have "lex_sign (num_str n @ r) = (False, num_str n @ r)"
    using digit_plain [OF digit_head [of n]] by (cases "num_str n") (auto simp: lex_sign_def)
  moreover have "lex_sign (CHR ''-'' # num_str n @ r) = (True, num_str n @ r)" by (simp add: lex_sign_def)
  ultimately show "lex_number (num_str n @ r) = Some (to_double (of_nat n), r)"
    "lex_number (CHR ''-'' # num_str n @ r) = Some (to_double (- of_nat n), r)"
    using spanned ends num_str_no_zero [of n] by (simp_all add: lex_number_def decimal_value_def)
qed

lemma lex_int:
  assumes "ends_number r"
  shows "lex_number (int_str i @ r) = Some (to_double (of_int i), r)"
  using lex_number_nat [OF assms] by (simp add: int_str_def)

lemma int_str_head: "\<exists>c t. int_str i = c # t \<and> (is_digit c \<or> c = CHR ''-'')"
  using digit_head [of "nat i"] num_str_not_Nil [of "nat i"]
  by (cases "num_str (nat i)") (auto simp: int_str_def)

lemma lex_int_token:
  assumes "ends_number r"
  shows "json_tokens (int_str i @ r) = map_option (Cons (TVal (JNum (to_double (of_int i))))) (json_tokens r)"
proof -
  obtain c t where c: "int_str i = c # t" "is_digit c \<or> c = CHR ''-''" using int_str_head by blast
  have plain: "\<not> json_space c \<and> \<not> is_punct c \<and> c \<noteq> CHR 0x22 \<and> c \<noteq> CHR ''t'' \<and> c \<noteq> CHR ''f'' \<and> c \<noteq> CHR ''n''"
  proof (cases "is_digit c")
    case True
    then show ?thesis by (simp add: digit_plain)
  next
    case False
    then show ?thesis using c(2) by (simp add: json_space_def is_punct_def)
  qed
  have "List.find (\<lambda>(w, _). starts_with (c # t @ r) w) json_words = None"
    using plain by (simp add: json_words_def starts_with_Cons)
  moreover have "lex_number (c # t @ r) = Some (to_double (of_int i), r)"
    using lex_int [OF assms, of i] unfolding c(1) by simp
  ultimately have "lex_word (c # t @ r) = Some (JNum (to_double (of_int i)), r)"
    by (simp add: lex_word_def)
  then show ?thesis using plain by (simp add: c(1))
qed

lemma lex_words:
  "json_tokens (''true'' @ r) = map_option (Cons (TVal JTrue)) (json_tokens r)"
  "json_tokens (''false'' @ r) = map_option (Cons (TVal JFalse)) (json_tokens r)"
  "json_tokens (''null'' @ r) = map_option (Cons (TVal JNull)) (json_tokens r)"
  by (simp_all add: json_space_def is_punct_def lex_word_def json_words_def starts_with_Cons)

lemma lex_punct: "is_punct c \<Longrightarrow> json_tokens (c # r) = map_option (Cons (TPunct c)) (json_tokens r)"
  by (auto simp: is_punct_def json_space_def)

lemma punct_ends: "is_punct c \<Longrightarrow> ends_number (c # r)"
  by (auto simp: is_punct_def ends_number_def is_digit_def)

lemma puncts [simp]:
  "is_punct (CHR ''['')" "is_punct (CHR '']'')" "is_punct (CHR ''{'')" "is_punct (CHR ''}'')"
  "is_punct (CHR '','')" "is_punct (CHR '':'')"
  by (simp_all add: is_punct_def)

definition prepend :: "jtok list \<Rightarrow> jtok list option \<Rightarrow> jtok list option" where
  "prepend ts us = (case us of None \<Rightarrow> None | Some us \<Rightarrow> Some (ts @ us))"

lemma prepend_append [simp]: "prepend ts (prepend ts' us) = prepend (ts @ ts') us"
  by (simp add: prepend_def split: option.split)

lemma prepend_single: "map_option (Cons t) us = prepend [t] us"
  by (simp add: prepend_def split: option.split)

lemma tokens_punct: "is_punct c \<Longrightarrow> json_tokens (c # r) = prepend [TPunct c] (json_tokens r)"
  by (simp only: lex_punct prepend_single)

lemma tokens_quote: "json_tokens (json_quote s @ r) = prepend [TStr s] (json_tokens r)"
  by (simp only: lex_quoted prepend_single)

lemma to_double_small: "\<bar>q\<bar> < 1000000000000000000000 \<Longrightarrow> to_double q = Fin q"
  by (simp add: to_double_def)

lemma tokens_number:
  assumes "json_clean (JNum n)" "ends_number r"
  shows "json_tokens (json_num_str n @ r) = prepend [TVal (JNum n)] (json_tokens r)"
proof -
  obtain q where q: "n = Fin q" "q = of_int \<lfloor>q\<rfloor>" "\<bar>q\<bar> < 1000000000000000000000"
    using assms(1) by (cases n) auto
  have "rat_str q = int_str \<lfloor>q\<rfloor>" using q(2,3) by (simp add: rat_str_def)
  moreover have "to_double (of_int \<lfloor>q\<rfloor>) = Fin q" using q(2,3) to_double_small by metis
  ultimately show ?thesis
    using lex_int_token [OF assms(2), of "\<lfloor>q\<rfloor>"] q(1) by (simp add: json_num_str_def prepend_single)
qed

lemma ends_listed: "is_punct c \<Longrightarrow> ends_number (concat (map (\<lambda>x. CHR '','' # f x) xs) @ c # r)"
  by (cases xs) (simp_all add: punct_ends)

lemma tokens_listed:
  assumes "is_punct c"
    and "\<And>x r. x \<in> set xs \<Longrightarrow> ends_number r \<Longrightarrow> json_tokens (f x @ r) = prepend (g x) (json_tokens r)"
  shows "json_tokens (concat (map (\<lambda>x. CHR '','' # f x) xs) @ c # r)
    = prepend (concat (map (\<lambda>x. TPunct (CHR '','') # g x) xs) @ [TPunct c]) (json_tokens r)"
  using assms(2)
proof (induction xs)
  case Nil
  then show ?case using assms(1) by (simp add: tokens_punct del: json_tokens.simps)
next
  case (Cons x xs)
  have "json_tokens (f x @ concat (map (\<lambda>x. CHR '','' # f x) xs) @ c # r)
      = prepend (g x) (json_tokens (concat (map (\<lambda>x. CHR '','' # f x) xs) @ c # r))"
    by (rule Cons.prems) (simp_all add: ends_listed [OF assms(1)])
  then show ?case using Cons by (simp add: tokens_punct del: json_tokens.simps)
qed

definition listed :: "('x \<Rightarrow> jtok list) \<Rightarrow> 'x list \<Rightarrow> jtok list" where
  "listed g xs = (case xs of [] \<Rightarrow> [] | x # rest \<Rightarrow> g x @ concat (map (\<lambda>y. TPunct (CHR '','') # g y) rest))"

lemma tokens_joined:
  assumes "is_punct c"
    and "\<And>x r. x \<in> set xs \<Longrightarrow> ends_number r \<Longrightarrow> json_tokens (f x @ r) = prepend (g x) (json_tokens r)"
  shows "json_tokens (str_join '','' (map f xs) @ c # r) = prepend (listed g xs @ [TPunct c]) (json_tokens r)"
proof (cases xs)
  case Nil
  then show ?thesis using assms(1) by (simp add: str_join_def listed_def tokens_punct del: json_tokens.simps)
next
  case (Cons x rest)
  have "json_tokens (f x @ concat (map (\<lambda>x. CHR '','' # f x) rest) @ c # r)
      = prepend (g x) (json_tokens (concat (map (\<lambda>x. CHR '','' # f x) rest) @ c # r))"
    by (rule assms(2)) (simp_all add: Cons ends_listed [OF assms(1)])
  moreover have "json_tokens (concat (map (\<lambda>x. CHR '','' # f x) rest) @ c # r)
      = prepend (concat (map (\<lambda>x. TPunct (CHR '','') # g x) rest) @ [TPunct c]) (json_tokens r)"
    using assms Cons by (intro tokens_listed) auto
  ultimately show ?thesis
    by (simp add: Cons str_join_def listed_def comp_def del: json_tokens.simps)
qed

text \<open>The tokens a clean value prints to.\<close>

fun json_toks :: "jsv \<Rightarrow> jtok list" where
  "json_toks (JStr s) = [TStr s]"
| "json_toks (JArr xs) = TPunct (CHR ''['') # listed id (map json_toks xs) @ [TPunct (CHR '']'')]"
| "json_toks (JObj kvs) =
     TPunct (CHR ''{'')
       # listed id (map (\<lambda>(k, v). TStr k # TPunct (CHR '':'') # json_toks v) kvs) @ [TPunct (CHR ''}'')]"
| "json_toks v = [TVal v]"

lemma listed_map: "listed id (map g xs) = listed g xs"
  by (cases xs) (simp_all add: listed_def comp_def)

lemma filter_clean: "\<forall>(k, v) \<in> set kvs. json_clean v \<Longrightarrow> filter (\<lambda>(k, v). v \<noteq> JUndef) kvs = kvs"
  by (rule filter_True) auto

lemma tokens_text:
  "json_clean v \<Longrightarrow> ends_number r \<Longrightarrow> json_tokens (json_text v @ r) = prepend (json_toks v) (json_tokens r)"
proof (induction v arbitrary: r)
  case (JBool b)
  then show ?case by (simp only: json_text.simps if_distrib lex_words json_toks.simps prepend_single split: if_split) simp
next
  case JNull
  then show ?case by (simp only: json_text.simps lex_words json_toks.simps prepend_single)
next
  case (JNum n)
  then show ?case by (simp add: tokens_number)
next
  case (JStr s)
  then show ?case by (simp add: tokens_quote)
next
  case (JArr xs)
  have "json_tokens (str_join '','' (map json_text xs) @ CHR '']'' # r)
      = prepend (listed json_toks xs @ [TPunct (CHR '']'')]) (json_tokens r)"
    using JArr by (intro tokens_joined) auto
  then show ?case by (simp add: tokens_punct listed_map del: json_tokens.simps)
next
  case (JObj kvs)
  let ?f = "\<lambda>(k, v). json_quote k @ CHR '':'' # json_text v"
  have member: "json_tokens (?f x @ r) = prepend ((\<lambda>(k, v). TStr k # TPunct (CHR '':'') # json_toks v) x) (json_tokens r)"
    if "x \<in> set kvs" "ends_number r" for x r
  proof (cases x)
    case (Pair k v)
    then have "json_tokens (json_text v @ r) = prepend (json_toks v) (json_tokens r)"
      using JObj.IH [of x v] JObj.prems(1) that by force
    then show ?thesis by (simp add: Pair tokens_quote tokens_punct del: json_tokens.simps)
  qed
  have "json_tokens (str_join '','' (map ?f kvs) @ CHR ''}'' # r)
      = prepend (listed (\<lambda>(k, v). TStr k # TPunct (CHR '':'') # json_toks v) kvs @ [TPunct (CHR ''}'')]) (json_tokens r)"
    using member by (intro tokens_joined) auto
  moreover have "filter (\<lambda>(k, v). v \<noteq> JUndef) kvs = kvs"
    using JObj.prems(1) by (intro filter_clean) auto
  ultimately show ?case by (simp add: tokens_punct listed_map del: json_tokens.simps)
qed simp

text \<open>The machine reads the tokens of a clean value back to it.\<close>

lemma run_append: "json_run cfg (ts @ us) = (case json_run cfg ts of None \<Rightarrow> None | Some c \<Rightarrow> json_run c us)"
  by (induction ts arbitrary: cfg) (auto split: option.split)

lemma put_key_new: "k \<notin> fst ` set kvs \<Longrightarrow> \<not> is_index k \<Longrightarrow> put_key k v kvs = kvs @ [(k, v)]"
  by (simp add: put_key_def map_of_eq_None_iff)

definition reads :: "jtok list \<Rightarrow> jsv \<Rightarrow> bool" where
  "reads ts v \<longleftrightarrow> (\<forall>st us m. m = NeedValue \<or> (m = NeedValueOrClose \<and> (\<exists>xs st'. st = InArr xs # st')) \<longrightarrow>
     json_run (st, m) (ts @ us) = json_run (st, Have v) us)"

lemma reads_plain: "value_token [] t = Some ([], Have v) \<Longrightarrow> (\<And>c. t \<noteq> TPunct c) \<Longrightarrow> reads [t] v"
  by (cases t) (auto simp: reads_def)

lemma reads_elems:
  assumes "\<forall>x \<in> set xs. reads (json_toks x) x"
  shows "json_run (InArr ys # st, Have y) (concat (map (\<lambda>x. TPunct (CHR '','') # json_toks x) xs) @ TPunct (CHR '']'') # us)
    = json_run (st, Have (JArr (ys @ y # xs))) us"
  using assms by (induction xs arbitrary: ys y) (simp_all add: reads_def)

lemma reads_members:
  assumes "\<forall>(k, v) \<in> set kvs. reads (json_toks v) v \<and> \<not> is_index k" and "distinct (map fst (done @ (j, y) # kvs))"
    and "\<not> is_index j"
  shows "json_run (InObj done j # st, Have y)
      (concat (map (\<lambda>(k, v). TPunct (CHR '','') # TStr k # TPunct (CHR '':'') # json_toks v) kvs) @ TPunct (CHR ''}'') # us)
    = json_run (st, Have (JObj (done @ (j, y) # kvs))) us"
  using assms
proof (induction kvs arbitrary: "done" j y)
  case Nil
  then show ?case by (simp add: put_key_new)
next
  case (Cons x kvs)
  obtain k v where x: "x = (k, v)" by (cases x)
  have "json_run (InObj (done @ [(j, y)]) k # st, Have v)
      (concat (map (\<lambda>(k, v). TPunct (CHR '','') # TStr k # TPunct (CHR '':'') # json_toks v) kvs) @ TPunct (CHR ''}'') # us)
    = json_run (st, Have (JObj ((done @ [(j, y)]) @ (k, v) # kvs))) us"
    using Cons.prems by (intro Cons.IH) (auto simp: x)
  then show ?case using Cons.prems by (simp add: x put_key_new reads_def)
qed

lemma reads_text: "json_clean v \<Longrightarrow> reads (json_toks v) v"
proof (induction v)
  case (JArr xs)
  then have xs: "\<forall>x \<in> set xs. reads (json_toks x) x" by auto
  show ?case
  proof (cases xs)
    case Nil
    then show ?thesis by (auto simp: reads_def listed_def)
  next
    case (Cons x rest)
    then show ?thesis
      using xs reads_elems [of rest "[]"] by (auto simp: reads_def listed_map listed_def comp_def)
  qed
next
  case (JObj kvs)
  then have kvs: "\<forall>(k, v) \<in> set kvs. reads (json_toks v) v \<and> \<not> is_index k" by fastforce
  show ?case
  proof (cases kvs)
    case Nil
    then show ?thesis by (auto simp: reads_def listed_def)
  next
    case (Cons x rest)
    obtain k v where x: "x = (k, v)" by (cases x)
    then show ?thesis
      using kvs Cons JObj.prems reads_members [of rest "[]" k v]
      unfolding split_beta by (auto simp: reads_def listed_map listed_def split_beta comp_def)
  qed
qed (auto intro: reads_plain)

lemma json_roundtrip: "json_clean v \<Longrightarrow> json_parse (json_text v) = Some v"
proof -
  assume v: "json_clean v"
  have "json_tokens (json_text v) = Some (json_toks v)"
    using tokens_text [OF v, of "[]"] by (simp add: ends_number_def prepend_def)
  moreover have "json_run ([], NeedValue) (json_toks v) = Some ([], Have v)"
    using reads_text [OF v, unfolded reads_def, rule_format, of NeedValue "[]" "[]"] by simp
  ultimately show ?thesis by (simp add: json_parse_def)
qed

end
