(* ===== verification/PiiRestore.thy ===== *)
theory PiiRestore
  imports PiiCore Json
begin

text \<open>
  The restoration of placeholders of \<open>enclave/src/pii/restore.mjs\<close>, for whole texts and for streams. A
  matcher is what \<open>build\<close> compiles from one mapping. A regular expression is written out as the function
  that finds its match at a position; the text before the position, which the lookbehind reads, is given
  reversed.
\<close>

subsection \<open>Spellings\<close>

definition upper_char :: "char \<Rightarrow> char" where
  "upper_char c = (if is_lower_az c then char_of ((of_char c :: nat) - 32) else c)"

definition digit_forms :: "char \<Rightarrow> string" where
  "digit_forms d = (if upper_char d = d then [d] else [d, upper_char d])"

fun case_forms :: "string \<Rightarrow> string list" where
  "case_forms [] = [[]]"
| "case_forms (d # ds) = concat (map (\<lambda>x. map (\<lambda>f. x # f) (case_forms ds)) (digit_forms d))"

fun escaped_variants :: "string \<Rightarrow> string list" where
  "escaped_variants [] = [[]]"
| "escaped_variants (c # cs) =
     concat (map (\<lambda>f. map (\<lambda>rest. u_escape @ f @ rest) (escaped_variants cs)) (case_forms (hex4 c)))"

text \<open>\<open>JSON.stringify(surface).slice(1, -1)\<close>.\<close>

definition surface_for :: "string \<Rightarrow> bool \<Rightarrow> string" where
  "surface_for surface json = (if json then concat (map json_escape_char surface) else surface)"

subsection \<open>The matcher\<close>

record matcher =
  mt_grammar :: grammar
  mt_surfaces :: "(string \<times> string) list"
  mt_json :: bool

definition opens_of :: "matcher \<Rightarrow> string list" where
  "opens_of c = g_open (mt_grammar c) # (if mt_json c then escaped_variants (g_open (mt_grammar c)) else [])"

definition closes_of :: "matcher \<Rightarrow> string list" where
  "closes_of c = g_close (mt_grammar c) # (if mt_json c then escaped_variants (g_close (mt_grammar c)) else [])"

text \<open>The issued tokens without their delimiters, and what a stream must hold back: the proper prefixes of
  every spelling.\<close>

definition issued_cores :: "matcher \<Rightarrow> string list" where
  "issued_cores c =
     map (\<lambda>(ph, _). slice ph (length (g_open (mt_grammar c))) (length ph - length (g_close (mt_grammar c))))
       (mt_surfaces c)"

definition spellings :: "matcher \<Rightarrow> string list" where
  "spellings c =
     concat (map (\<lambda>core. concat (map (\<lambda>o'. map (\<lambda>cl. o' @ core @ cl) (closes_of c)) ([] # opens_of c)))
       (issued_cores c))"

definition max_len :: "matcher \<Rightarrow> nat" where
  "max_len c = fold (\<lambda>tok m. max m (length tok)) (spellings c) 0"

definition in_prefixes :: "matcher \<Rightarrow> string \<Rightarrow> bool" where
  "in_prefixes c x \<longleftrightarrow> x \<noteq> [] \<and> list_ex (\<lambda>tok. strict_prefix x tok) (spellings c)"

text \<open>\<open>([A-Z]+_[0-9]+)(?!WORD)\<close>.\<close>

definition word_token :: "string \<Rightarrow> string option" where
  "word_token s =
     (case token_at s of
        Some t \<Rightarrow> (case drop (length t) s of c # _ \<Rightarrow> if is_word c then None else Some t | [] \<Rightarrow> Some t)
      | None \<Rightarrow> None)"

text \<open>The lookbehind, for a token without an open delimiter.\<close>

definition bare_boundary :: "bool \<Rightarrow> string \<Rightarrow> bool" where
  "bare_boundary json behind =
     ((case behind of c # _ \<Rightarrow> \<not> is_word c | [] \<Rightarrow> True)
      \<or> json \<and> (case behind of c # d # _ \<Rightarrow> List.member ''bfnrt'' c \<and> d = CHR 0x5C | _ \<Rightarrow> False))"

record token_match =
  tm_open :: "string option"
  tm_core :: string
  tm_close :: "string option"

definition tm_text :: "token_match \<Rightarrow> string" where
  "tm_text r = (case tm_open r of Some o' \<Rightarrow> o' | None \<Rightarrow> []) @ tm_core r
     @ (case tm_close r of Some cl \<Rightarrow> cl | None \<Rightarrow> [])"

definition close_at :: "matcher \<Rightarrow> string \<Rightarrow> string option" where
  "close_at c s = List.find (\<lambda>cl. prefix cl s) (closes_of c)"

definition match_here :: "matcher \<Rightarrow> string \<Rightarrow> string \<Rightarrow> token_match option" where
  "match_here c behind s =
     (case List.find (\<lambda>o'. prefix o' s \<and> word_token (drop (length o') s) \<noteq> None) (opens_of c) of
        Some o' \<Rightarrow>
          (case word_token (drop (length o') s) of
             Some t \<Rightarrow> Some \<lparr>tm_open = Some o', tm_core = t, tm_close = close_at c (drop (length o' + length t) s)\<rparr>
           | None \<Rightarrow> None)
      | None \<Rightarrow>
          if bare_boundary (mt_json c) behind then
            (case word_token s of
               Some t \<Rightarrow> Some \<lparr>tm_open = None, tm_core = t, tm_close = close_at c (drop (length t) s)\<rparr>
             | None \<Rightarrow> None)
          else None)"

text \<open>\<open>re.exec\<close>: the text before the leftmost match, and the match.\<close>

fun next_match :: "matcher \<Rightarrow> string \<Rightarrow> string \<Rightarrow> (string \<times> token_match) option" where
  "next_match c behind [] = None"
| "next_match c behind (x # s) =
     (case match_here c behind (x # s) of
        Some r \<Rightarrow> Some ([], r)
      | None \<Rightarrow> map_option (\<lambda>(pre, r). (x # pre, r)) (next_match c (x # behind) s))"

definition issued_surface :: "matcher \<Rightarrow> token_match \<Rightarrow> string option" where
  "issued_surface c r = map_of (mt_surfaces c) (g_open (mt_grammar c) @ tm_core r @ g_close (mt_grammar c))"

definition shown :: "matcher \<Rightarrow> token_match \<Rightarrow> string" where
  "shown c r = (case issued_surface c r of Some s \<Rightarrow> surface_for s (mt_json c) | None \<Rightarrow> tm_text r)"

subsection \<open>Replacement\<close>

text \<open>A token that the next input could still change is left for the hold-back scan, unless \<open>final\<close>.\<close>

definition undecided :: "matcher \<Rightarrow> bool \<Rightarrow> token_match \<Rightarrow> string \<Rightarrow> bool" where
  "undecided c final r after \<longleftrightarrow> \<not> final \<and> tm_close r = None \<and> list_ex (\<lambda>cl. prefix after cl) (closes_of c)"

lemma next_match_length: "next_match c behind s = Some (pre, r) \<Longrightarrow> length pre < length s"
  by (induction c behind s arbitrary: pre rule: next_match.induct) (auto split: option.splits)

text \<open>What is put out up to the last match taken, and the rest. No match is empty; the test for it only
  makes the recursion plainly end.\<close>

function replace_from :: "matcher \<Rightarrow> bool \<Rightarrow> string \<Rightarrow> string \<Rightarrow> string \<times> string" where
  "replace_from c final behind s =
     (case next_match c behind s of
        None \<Rightarrow> ([], s)
      | Some (pre, r) \<Rightarrow>
          let after = drop (length pre + length (tm_text r)) s
          in if undecided c final r after \<or> tm_text r = [] then ([], s)
             else (case replace_from c final (rev (pre @ tm_text r) @ behind) after of
                     (out, rest) \<Rightarrow> (pre @ shown c r @ out, rest)))"
  by pat_completeness auto

termination
  by (relation "measure (\<lambda>(_, _, _, s). length s)") (auto dest!: next_match_length intro!: diff_less simp flip: length_greater_0_conv)

declare replace_from.simps [simp del]

record restorer =
  rs_ctx :: string
  rs_carry :: string

definition hold_len :: "matcher \<Rightarrow> string \<Rightarrow> nat" where
  "hold_len c s =
     (case List.find (\<lambda>k. in_prefixes c (drop (length s - k) s)) (rev [1..<Suc (min (max_len c - 1) (length s))]) of
        Some k \<Rightarrow> k | None \<Rightarrow> 0)"

definition restorer_run :: "matcher \<Rightarrow> string \<Rightarrow> bool \<Rightarrow> restorer \<Rightarrow> string \<times> restorer" where
  "restorer_run c chunk final st =
     (let full = rs_carry st @ chunk; whole = rs_ctx st @ full
      in case replace_from c final (rev (rs_ctx st)) full of
           (out, rest) \<Rightarrow>
             let k = (if final then 0 else hold_len c rest); hold_at = length whole - k
             in (out @ take (length rest - k) rest,
                 \<lparr>rs_ctx = drop (hold_at - 2) (take hold_at whole), rs_carry = drop (length rest - k) rest\<rparr>))"

definition restorer_start :: restorer where
  "restorer_start = \<lparr>rs_ctx = [], rs_carry = []\<rparr>"

definition restorer_push :: "matcher \<Rightarrow> string \<Rightarrow> restorer \<Rightarrow> string \<times> restorer" where
  "restorer_push c chunk st = (if mt_surfaces c = [] then (chunk, st) else restorer_run c chunk False st)"

definition restorer_flush :: "matcher \<Rightarrow> restorer \<Rightarrow> string \<times> restorer" where
  "restorer_flush c st =
     (if mt_surfaces c = [] \<or> rs_carry st = [] then ([], st)
      else case restorer_run c [] True st of (out, st') \<Rightarrow> (out, st'\<lparr>rs_carry := []\<rparr>))"

fun restorer_stream :: "matcher \<Rightarrow> restorer \<Rightarrow> string list \<Rightarrow> string" where
  "restorer_stream c st [] = fst (restorer_flush c st)"
| "restorer_stream c st (chunk # chunks) =
     (case restorer_push c chunk st of (out, st') \<Rightarrow> out @ restorer_stream c st' chunks)"

definition restore_text :: "matcher \<Rightarrow> string \<Rightarrow> string" where
  "restore_text c s = (if mt_surfaces c = [] then s else restorer_stream c restorer_start [s])"

definition matcher_of :: "grammar \<Rightarrow> pii_map \<Rightarrow> bool \<Rightarrow> matcher" where
  "matcher_of g m json = \<lparr>mt_grammar = g, mt_surfaces = pm_surfaces m, mt_json = json\<rparr>"

subsection \<open>Tokens\<close>

definition is_token :: "string \<Rightarrow> bool" where
  "is_token t \<longleftrightarrow> (\<exists>u d. t = u @ CHR ''_'' # d \<and> u \<noteq> [] \<and> d \<noteq> [] \<and> list_all is_upper_az u \<and> list_all is_digit d)"

definition nonword_head :: "string \<Rightarrow> bool" where
  "nonword_head s \<longleftrightarrow> s = [] \<or> \<not> is_word (hd s)"

lemma nonword_head_simps [simp]: "nonword_head []" "nonword_head (c # s) \<longleftrightarrow> \<not> is_word c"
  by (simp_all add: nonword_head_def)

lemma token_words: "is_token t \<Longrightarrow> list_all is_word t"
  by (auto simp: is_token_def list_all_iff word_upper word_digit word_underscore)

lemma token_not_Nil: "is_token t \<Longrightarrow> t \<noteq> []"
  by (auto simp: is_token_def)

lemma core_token: "is_class cls \<Longrightarrow> is_token (core cls n)"
  using num_str_digits num_str_not_Nil unfolding is_token_def core_def is_class_def by blast

lemma token_at_token:
  assumes "is_token t" and "s = [] \<or> \<not> is_digit (hd s)"
  shows "token_at (t @ s) = Some t"
proof -
  obtain u d where t: "t = u @ CHR ''_'' # d" "u \<noteq> []" "d \<noteq> []" "list_all is_upper_az u" "list_all is_digit d"
    using assms(1) by (auto simp: is_token_def)
  have u: "takeWhile is_upper_az (u @ CHR ''_'' # d @ s) = u"
    using t(4) underscore_not_upper by (intro takeWhile_stop) auto
  have d: "takeWhile is_digit (d @ s) = d"
    using t(5) assms(2) by (intro takeWhile_stop) auto
  show ?thesis using t u d by (simp add: token_at_def)
qed

lemma token_at_Some:
  assumes "token_at s = Some t"
  shows "is_token t" and "s = t @ drop (length t) s"
proof -
  define u where "u = takeWhile is_upper_az s"
  obtain ds where rest: "drop (length u) s = CHR ''_'' # ds" and u: "u \<noteq> []" and d: "takeWhile is_digit ds \<noteq> []"
    and t: "t = u @ CHR ''_'' # takeWhile is_digit ds"
    using assms by (auto simp: token_at_def u_def Let_def split: list.splits if_splits)
  show "is_token t"
    unfolding is_token_def t u_def using u d by (auto simp: u_def list_all_iff dest: set_takeWhileD)
  have "s = u @ CHR ''_'' # ds" using rest unfolding u_def by (metis dropWhile_eq_drop takeWhile_dropWhile_id)
  then show "s = t @ drop (length t) s" using t
    by simp (metis dropWhile_eq_drop takeWhile_dropWhile_id)
qed

lemma word_token_iff: "word_token s = Some t \<longleftrightarrow> is_token t \<and> (\<exists>rest. s = t @ rest \<and> nonword_head rest)"
proof
  assume w: "word_token s = Some t"
  then have t: "token_at s = Some t" by (auto simp: word_token_def split: option.splits list.splits if_splits)
  moreover have "nonword_head (drop (length t) s)"
    using w t by (auto simp: word_token_def split: list.splits if_splits)
  ultimately show "is_token t \<and> (\<exists>rest. s = t @ rest \<and> nonword_head rest)" using token_at_Some by blast
next
  assume "is_token t \<and> (\<exists>rest. s = t @ rest \<and> nonword_head rest)"
  then obtain rest where t: "is_token t" and s: "s = t @ rest" "nonword_head rest" by blast
  then have "token_at s = Some t"
    by (simp, intro token_at_token) (auto simp: nonword_head_def dest: word_digit)
  then show "word_token s = Some t" using s by (cases rest) (simp_all add: word_token_def)
qed

subsection \<open>Matches of a plain matcher\<close>

text \<open>A matcher in text mode whose delimiters are two different single characters, as in every published
  grammar, and whose placeholders were issued by \<open>pseudonymize\<close>.\<close>

definition plain_matcher :: "matcher \<Rightarrow> char \<Rightarrow> char \<Rightarrow> bool" where
  "plain_matcher c a b \<longleftrightarrow> \<not> mt_json c \<and> g_open (mt_grammar c) = [a] \<and> g_close (mt_grammar c) = [b] \<and> a \<noteq> b
     \<and> \<not> is_word a \<and> \<not> is_word b
     \<and> (\<forall>(ph, s) \<in> set (mt_surfaces c). \<exists>t. is_token t \<and> ph = a # t @ [b])"

lemma plain_opens: "plain_matcher c a b \<Longrightarrow> opens_of c = [[a]]" and plain_closes: "plain_matcher c a b \<Longrightarrow> closes_of c = [[b]]"
  by (simp_all add: plain_matcher_def opens_of_def closes_of_def)

definition at_boundary :: "string \<Rightarrow> bool" where
  "at_boundary behind \<longleftrightarrow> behind = [] \<or> \<not> is_word (hd behind)"

lemma plain_boundary: "plain_matcher c a b \<Longrightarrow> bare_boundary (mt_json c) behind \<longleftrightarrow> at_boundary behind"
  by (auto simp: plain_matcher_def bare_boundary_def at_boundary_def split: list.splits)

definition plain_close :: "char \<Rightarrow> string \<Rightarrow> string option" where
  "plain_close b rest = (if prefix [b] rest then Some [b] else None)"

lemma plain_match_here:
  assumes "plain_matcher c a b"
  shows "match_here c behind s =
    (case (if prefix [a] s then word_token (tl s) else None) of
       Some t \<Rightarrow> Some \<lparr>tm_open = Some [a], tm_core = t, tm_close = plain_close b (drop (Suc (length t)) s)\<rparr>
     | None \<Rightarrow>
         (case (if at_boundary behind then word_token s else None) of
            Some t \<Rightarrow> Some \<lparr>tm_open = None, tm_core = t, tm_close = plain_close b (drop (length t) s)\<rparr>
          | None \<Rightarrow> None))"
  using plain_boundary [OF assms, of behind]
  by (auto simp: match_here_def plain_opens [OF assms] plain_closes [OF assms] close_at_def plain_close_def
      drop_Suc split: option.split)

lemma token_head: "is_token t \<Longrightarrow> \<exists>x t'. t = x # t' \<and> is_word x"
  using token_words token_not_Nil by (cases t) fastforce+

lemma plain_match_iff:
  assumes "plain_matcher c a b"
  shows "match_here c behind s = Some r \<longleftrightarrow>
    (\<exists>t rest. is_token t \<and> nonword_head rest \<and>
       (s = a # t @ rest \<and> r = \<lparr>tm_open = Some [a], tm_core = t, tm_close = plain_close b rest\<rparr>
        \<or> s = t @ rest \<and> at_boundary behind \<and> r = \<lparr>tm_open = None, tm_core = t, tm_close = plain_close b rest\<rparr>))"
    (is "_ \<longleftrightarrow> ?R")
proof
  assume m: "match_here c behind s = Some r"
  show ?R
  proof (cases "if prefix [a] s then word_token (tl s) else None")
    case None
    then obtain t where t: "at_boundary behind" "word_token s = Some t"
      "r = \<lparr>tm_open = None, tm_core = t, tm_close = plain_close b (drop (length t) s)\<rparr>"
      using m unfolding plain_match_here [OF assms] by (auto split: option.splits if_splits)
    then obtain rest where "is_token t" "s = t @ rest" "nonword_head rest" by (auto simp: word_token_iff)
    then show ?thesis using t by auto
  next
    case (Some t)
    then obtain rest where "is_token t" "s = a # t @ rest" "nonword_head rest"
      by (cases s) (auto simp: word_token_iff split: if_splits)
    then show ?thesis using m Some unfolding plain_match_here [OF assms] by auto
  qed
next
  assume ?R
  then obtain t rest where t: "is_token t" "nonword_head rest"
    "s = a # t @ rest \<and> r = \<lparr>tm_open = Some [a], tm_core = t, tm_close = plain_close b rest\<rparr>
        \<or> s = t @ rest \<and> at_boundary behind \<and> r = \<lparr>tm_open = None, tm_core = t, tm_close = plain_close b rest\<rparr>"
    by blast
  have w: "word_token (t @ rest) = Some t" using t(1,2) by (auto simp: word_token_iff)
  show "match_here c behind s = Some r"
  proof (cases "s = a # t @ rest")
    case True
    have "\<not> (s = t @ rest)" using True token_head [OF t(1)] assms by (auto simp: plain_matcher_def)
    then show ?thesis using t(3) True w unfolding plain_match_here [OF assms] by simp
  next
    case False
    then have r: "s = t @ rest" "at_boundary behind" "r = \<lparr>tm_open = None, tm_core = t, tm_close = plain_close b rest\<rparr>"
      using t(3) by auto
    moreover have "\<not> prefix [a] s" using r(1) token_head [OF t(1)] assms by (auto simp: plain_matcher_def)
    ultimately show ?thesis using w unfolding plain_match_here [OF assms] by simp
  qed
qed

text \<open>The part of a match before its close.\<close>

definition tm_head :: "token_match \<Rightarrow> string" where
  "tm_head r = (case tm_open r of Some o' \<Rightarrow> o' | None \<Rightarrow> []) @ tm_core r"

lemma plain_matchE:
  assumes "plain_matcher c a b" and "match_here c behind s = Some r"
  obtains rest where "is_token (tm_core r)" "nonword_head rest" "s = tm_head r @ rest"
    "tm_head r = a # tm_core r \<or> tm_head r = tm_core r \<and> at_boundary behind"
    "tm_close r = plain_close b rest"
  using assms(2) unfolding plain_match_iff [OF assms(1)] by (auto simp: tm_head_def)

lemma plain_text:
  assumes "plain_matcher c a b" and "match_here c behind s = Some r"
  obtains after where "s = tm_text r @ after" "tm_close r = None \<Longrightarrow> tm_text r = tm_head r \<and> nonword_head after"
    "tm_close r \<noteq> None \<Longrightarrow> tm_text r = tm_head r @ [b]" "tm_text r \<noteq> []"
proof -
  obtain rest where m: "is_token (tm_core r)" "nonword_head rest" "s = tm_head r @ rest" "tm_close r = plain_close b rest"
    using assms by (rule plain_matchE)
  have whole: "tm_text r = tm_head r @ (case tm_close r of Some cl \<Rightarrow> cl | None \<Rightarrow> [])"
    by (simp add: tm_text_def tm_head_def)
  have ne: "tm_text r \<noteq> []" using token_not_Nil [OF m(1)] by (simp add: tm_text_def)
  show ?thesis
  proof (cases "prefix [b] rest")
    case True
    then obtain after where "rest = b # after" by (auto simp: prefix_def)
    then show ?thesis using that [of after] m whole ne by (simp add: plain_close_def)
  next
    case False
    then show ?thesis using that [of rest] m whole ne by (simp add: plain_close_def)
  qed
qed

lemma plain_matchI:
  assumes "plain_matcher c a b" and "is_token (tm_core r)" and "nonword_head rest"
    and "tm_close r = plain_close b rest"
    and "tm_open r = Some [a] \<or> tm_open r = None \<and> at_boundary behind"
  shows "match_here c behind (tm_head r @ rest) = Some r"
  unfolding plain_match_iff [OF assms(1)]
  by (rule exI [of _ "tm_core r"], rule exI [of _ rest]) (use assms(2-5) in \<open>auto simp: tm_head_def intro!: token_match.equality\<close>)

lemma plain_open:
  "plain_matcher c a b \<Longrightarrow> match_here c behind s = Some r \<Longrightarrow> tm_open r = Some [a] \<or> tm_open r = None \<and> at_boundary behind"
  by (auto simp: plain_match_iff)

text \<open>A match that is followed by a close or by another character stays when more text arrives.\<close>

lemma plain_match_stable:
  assumes "plain_matcher c a b" and "match_here c behind s = Some r" and "s = tm_head r @ x # rest"
  shows "match_here c behind (s @ t) = Some r"
proof -
  obtain rest' where m: "is_token (tm_core r)" "nonword_head rest'" "s = tm_head r @ rest'" "tm_close r = plain_close b rest'"
    using assms(1,2) by (rule plain_matchE)
  have "match_here c behind (tm_head r @ x # rest @ t) = Some r"
    using m assms(3) plain_open [OF assms(1,2)] by (intro plain_matchI [OF assms(1)]) (auto simp: plain_close_def)
  then show ?thesis using assms(3) by simp
qed

text \<open>A match that appears only when more text arrives reaches beyond the text that was there.\<close>

lemma plain_match_new:
  assumes "plain_matcher c a b" and "match_here c behind (s @ t) = Some r"
    and "\<not> strict_prefix s (tm_head r)" and "match_here c behind s \<noteq> Some r"
  shows "s = tm_head r"
proof -
  obtain rest where m: "is_token (tm_core r)" "nonword_head rest" "s @ t = tm_head r @ rest" "tm_close r = plain_close b rest"
    using assms(1,2) by (rule plain_matchE)
  have "prefix (tm_head r) s" using m(3) assms(3)
    by (metis prefixI prefix_same_cases prefix_order.dual_order.strict_iff_order)
  then obtain rest1 where s: "s = tm_head r @ rest1" by (auto simp: prefix_def)
  show ?thesis
  proof (cases rest1)
    case (Cons x rest2)
    then have "match_here c behind (tm_head r @ rest1) = Some r"
      using m s plain_open [OF assms(1,2)] by (intro plain_matchI [OF assms(1)]) (auto simp: plain_close_def)
    then show ?thesis using assms(4) s by simp
  qed (use s in simp)
qed

subsection \<open>The reference: one pass over the whole text\<close>

definition issued_match :: "matcher \<Rightarrow> string \<Rightarrow> string \<Rightarrow> (token_match \<times> string) option" where
  "issued_match c behind s =
     (case match_here c behind s of
        Some r \<Rightarrow> map_option (\<lambda>x. (r, x)) (issued_surface c r) | None \<Rightarrow> None)"

function restored :: "matcher \<Rightarrow> string \<Rightarrow> string \<Rightarrow> string" where
  "restored c behind [] = []"
| "restored c behind (x # s) =
     (case issued_match c behind (x # s) of
        Some (r, sf) \<Rightarrow>
          let k = length (tm_text r) - 1
          in surface_for sf (mt_json c) @ restored c (rev (x # take k s) @ behind) (drop k s)
      | None \<Rightarrow> x # restored c (x # behind) s)"
  by pat_completeness auto

termination
  by (relation "measure (\<lambda>(_, _, s). length s)") auto

declare restored.simps(2) [simp del]

lemma issued_match_Some:
  "issued_match c behind s = Some (r, sf) \<longleftrightarrow> match_here c behind s = Some r \<and> issued_surface c r = Some sf"
  by (auto simp: issued_match_def split: option.splits)

lemma restored_hit:
  assumes "match_here c behind (tm_text r @ s) = Some r" and "issued_surface c r = Some sf" and "tm_text r \<noteq> []"
  shows "restored c behind (tm_text r @ s) = surface_for sf (mt_json c) @ restored c (rev (tm_text r) @ behind) s"
proof -
  obtain x w where w: "tm_text r = x # w" using assms(3) by (cases "tm_text r") auto
  have "issued_match c behind (x # w @ s) = Some (r, sf)" using assms(1,2) w by (simp add: issued_match_Some)
  then show ?thesis by (simp add: w restored.simps(2))
qed

lemma restored_pass:
  "issued_match c behind (x # s) = None \<Longrightarrow> restored c behind (x # s) = x # restored c (x # behind) s"
  by (simp add: restored.simps(2))

lemma restored_pass_all:
  assumes "\<And>u x v. y = u @ x # v \<Longrightarrow> issued_match c (rev u @ behind) (x # v @ s) = None"
  shows "restored c behind (y @ s) = y @ restored c (rev y @ behind) s"
  using assms
proof (induction y arbitrary: behind)
  case (Cons x y)
  have "issued_match c behind (x # y @ s) = None" using Cons.prems [of "[]" x y] by simp
  moreover have "restored c (x # behind) (y @ s) = y @ restored c (rev y @ x # behind) s"
    by (rule Cons.IH) (use Cons.prems [of "x # _"] in simp)
  ultimately show ?case by (simp add: restored_pass)
qed simp

lemma at_boundary_append: "at_boundary (x # behind) \<longleftrightarrow> \<not> is_word x"
  by (simp add: at_boundary_def)

lemma at_boundary_shared: "at_boundary (xs @ x # behind) = at_boundary (xs @ x # behind')"
  by (cases xs) (simp_all add: at_boundary_append)

lemma restored_boundary:
  assumes "plain_matcher c a b" and "at_boundary behind = at_boundary behind'"
  shows "restored c behind s = restored c behind' s"
  using assms(2)
proof (induction s arbitrary: behind behind' rule: length_induct)
  case (1 s)
  have same: "issued_match c behind s = issued_match c behind' s"
    by (simp add: issued_match_def plain_match_here [OF assms(1)] 1)
  show ?case
  proof (cases s)
    case (Cons x w)
    show ?thesis
    proof (cases "issued_match c behind s")
      case None
      then show ?thesis using same 1 Cons by (simp add: restored_pass at_boundary_append)
    next
      case (Some p)
      obtain r sf where p: "p = (r, sf)" by fastforce
      let ?k = "length (tm_text r) - 1"
      have "at_boundary (rev (take ?k w) @ x # behind) = at_boundary (rev (take ?k w) @ x # behind')"
        by (rule at_boundary_shared)
      then have "restored c (rev (take ?k w) @ x # behind) (drop ?k w) = restored c (rev (take ?k w) @ x # behind') (drop ?k w)"
        using 1(1) [rule_format, of "drop ?k w" "rev (take ?k w) @ x # behind" "rev (take ?k w) @ x # behind'"] Cons by simp
      moreover have "issued_match c behind (x # w) = Some (r, sf)" "issued_match c behind' (x # w) = Some (r, sf)"
        using Some same Cons p by simp_all
      ultimately show ?thesis unfolding Cons by (simp add: restored.simps(2) Let_def)
    qed
  qed simp
qed

lemma no_match_inside_word:
  assumes "plain_matcher c a b" and "is_word x" and "\<not> at_boundary behind"
  shows "match_here c behind (x # s) = None"
proof -
  have "x \<noteq> a" using assms(1,2) by (auto simp: plain_matcher_def)
  then show ?thesis using assms(3) by (simp add: plain_match_here [OF assms(1)])
qed

lemma no_match_nonword:
  assumes "plain_matcher c a b" and "\<not> is_word x" and "x \<noteq> a"
  shows "match_here c behind (x # s) = None"
proof -
  have "word_token (x # s) \<noteq> Some t" for t
    using assms(2) token_head [of t] by (auto simp: word_token_iff)
  then have "word_token (x # s) = None" by blast
  then show ?thesis using assms(3) by (simp add: plain_match_here [OF assms(1)])
qed

lemma restored_word:
  assumes "plain_matcher c a b" and "list_all is_word w" and "\<not> at_boundary behind"
  shows "restored c behind (w @ s) = w @ restored c (rev w @ behind) s"
  using assms(2,3)
proof (induction w arbitrary: behind)
  case (Cons x w)
  have "issued_match c behind (x # w @ s) = None"
    using no_match_inside_word [OF assms(1)] Cons.prems by (simp add: issued_match_def)
  then show ?case using Cons by (simp add: restored_pass at_boundary_append)
qed simp

text \<open>A token that was not issued is passed character by character.\<close>

lemma restored_unissued:
  assumes "plain_matcher c a b" and "match_here c behind (tm_text r @ s) = Some r" and "issued_surface c r = None"
  shows "restored c behind (tm_text r @ s) = tm_text r @ restored c (rev (tm_text r) @ behind) s"
proof -
  obtain rest where m: "is_token (tm_core r)" "nonword_head rest" "tm_text r @ s = tm_head r @ rest"
    "tm_head r = a # tm_core r \<or> tm_head r = tm_core r \<and> at_boundary behind" "tm_close r = plain_close b rest"
    using assms(1,2) by (rule plain_matchE)
  have whole: "tm_text r = tm_head r @ (case tm_close r of Some cl \<Rightarrow> cl | None \<Rightarrow> [])"
    by (simp add: tm_text_def tm_head_def)
  obtain x w where xw: "tm_core r = x # w" "is_word x" "list_all is_word w"
    using token_words [OF m(1)] token_not_Nil [OF m(1)] by (cases "tm_core r") auto
  have nota: "\<not> is_word a" "\<not> is_word b" "a \<noteq> b" using assms(1) by (auto simp: plain_matcher_def)
  have core: "restored c beh (tm_core r @ rest) = tm_core r @ restored c (rev (tm_core r) @ beh) rest"
    if "at_boundary beh" for beh
  proof -
    have "match_here c beh (tm_core r @ rest) = Some (r\<lparr>tm_open := None\<rparr>)"
      using plain_matchI [OF assms(1), of "r\<lparr>tm_open := None\<rparr>" rest beh] m that by (simp add: tm_head_def)
    then have "issued_match c beh (x # w @ rest) = None"
      using assms(3) xw by (simp add: issued_match_def issued_surface_def)
    then show ?thesis using restored_word [OF assms(1) xw(3)] xw by (simp add: restored_pass at_boundary_append)
  qed
  have head: "restored c behind (tm_head r @ rest) = tm_head r @ restored c (rev (tm_head r) @ behind) rest"
    using m(4)
  proof
    assume h: "tm_head r = a # tm_core r"
    have "issued_match c behind (tm_head r @ rest) = None"
      using assms(2,3) m(3) by (simp add: issued_match_def)
    then show ?thesis using h core [of "a # behind"] nota by (simp add: restored_pass at_boundary_append)
  qed (use core in simp)
  show ?thesis
  proof (cases "prefix [b] rest")
    case True
    then obtain after where after: "rest = b # after" by (auto simp: prefix_def)
    have "issued_match c beh (b # after) = None" for beh
      using no_match_nonword [OF assms(1) nota(2)] nota(3) by (simp add: issued_match_def)
    then have "restored c behind (tm_head r @ rest) = tm_head r @ b # restored c (b # rev (tm_head r) @ behind) after"
      using head after by (simp add: restored_pass)
    moreover have "tm_text r = tm_head r @ [b]" using whole m(5) True by (simp add: plain_close_def)
    ultimately show ?thesis using m(3) after by simp
  next
    case False
    then have "tm_text r = tm_head r" using whole m(5) by (simp add: plain_close_def)
    then show ?thesis using head m(3) by simp
  qed
qed

lemma restored_match:
  assumes "plain_matcher c a b" and "match_here c behind (tm_text r @ s) = Some r"
  shows "restored c behind (tm_text r @ s) = shown c r @ restored c (rev (tm_text r) @ behind) s"
proof (cases "issued_surface c r")
  case None
  then show ?thesis using restored_unissued [OF assms] by (simp add: shown_def)
next
  case (Some sf)
  have "tm_text r \<noteq> []" using plain_text [OF assms] by blast
  then show ?thesis using restored_hit [OF assms(2) Some] Some by (simp add: shown_def)
qed

subsection \<open>Scanning\<close>

lemma next_match_split:
  assumes "plain_matcher c a b" and "next_match c behind s = Some (pre, r)"
  obtains after where "s = pre @ tm_text r @ after" "match_here c (rev pre @ behind) (tm_text r @ after) = Some r"
    "tm_close r = None \<Longrightarrow> tm_text r = tm_head r \<and> nonword_head after" "tm_text r \<noteq> []"
    "tm_close r \<noteq> None \<Longrightarrow> tm_text r = tm_head r @ [b]"
proof -
  have "\<exists>after. s = pre @ tm_text r @ after \<and> match_here c (rev pre @ behind) (tm_text r @ after) = Some r
    \<and> (tm_close r = None \<longrightarrow> tm_text r = tm_head r \<and> nonword_head after) \<and> tm_text r \<noteq> []
    \<and> (tm_close r \<noteq> None \<longrightarrow> tm_text r = tm_head r @ [b])"
    using assms(2)
  proof (induction s arbitrary: behind pre)
    case (Cons x s)
    show ?case
    proof (cases "match_here c behind (x # s)")
      case None
      then obtain pre' where pre: "pre = x # pre'" "next_match c (x # behind) s = Some (pre', r)"
        using Cons.prems by auto
      show ?thesis using Cons.IH [OF pre(2)] pre(1) by simp
    next
      case (Some r')
      then have pre: "pre = []" and m: "match_here c behind (x # s) = Some r" using Cons.prems by auto
      obtain after where a: "x # s = tm_text r @ after" "tm_close r = None \<Longrightarrow> tm_text r = tm_head r \<and> nonword_head after"
        "tm_close r \<noteq> None \<Longrightarrow> tm_text r = tm_head r @ [b]" "tm_text r \<noteq> []"
        using plain_text [OF assms(1) m] by blast
      have "x # s = [] @ tm_text r @ after" using a(1) by simp
      moreover have "match_here c (rev [] @ behind) (tm_text r @ after) = Some r"
        using m unfolding a(1) by simp
      ultimately show ?thesis unfolding pre
        by (intro exI [of _ after] conjI impI) (assumption | rule a(3) a(4) a(2) [THEN conjunct1] a(2) [THEN conjunct2])+
    qed
  qed simp
  then obtain after where f: "s = pre @ tm_text r @ after" "match_here c (rev pre @ behind) (tm_text r @ after) = Some r"
    "tm_close r = None \<longrightarrow> tm_text r = tm_head r \<and> nonword_head after" "tm_text r \<noteq> []"
    "tm_close r \<noteq> None \<longrightarrow> tm_text r = tm_head r @ [b]"
    by (elim exE conjE) simp
  show ?thesis by (rule that [of after, OF f(1,2)]) (use f(3-5) in simp_all)
qed

lemma next_match_None:
  "next_match c behind s = None \<longleftrightarrow> (\<forall>u x v. s = u @ x # v \<longrightarrow> match_here c (rev u @ behind) (x # v) = None)"
proof (induction c behind s rule: next_match.induct)
  case (2 c behind x s)
  show ?case
  proof (cases "match_here c behind (x # s)")
    case None
    then have "next_match c behind (x # s) = None \<longleftrightarrow> (\<forall>u y v. s = u @ y # v \<longrightarrow> match_here c (rev u @ x # behind) (y # v) = None)"
      using 2 by simp
    also have "\<dots> \<longleftrightarrow> (\<forall>u y v. x # s = u @ y # v \<longrightarrow> match_here c (rev u @ behind) (y # v) = None)"
    proof (intro iffI allI impI)
      fix u y v
      assume all: "\<forall>u y v. s = u @ y # v \<longrightarrow> match_here c (rev u @ x # behind) (y # v) = None" and "x # s = u @ y # v"
      then show "match_here c (rev u @ behind) (y # v) = None" using None by (cases u) auto
    next
      fix u y v
      assume all: "\<forall>u y v. x # s = u @ y # v \<longrightarrow> match_here c (rev u @ behind) (y # v) = None" and "s = u @ y # v"
      then show "match_here c (rev u @ x # behind) (y # v) = None" using all [rule_format, of "x # u" y v] by simp
    qed
    finally show ?thesis .
  next
    case (Some r)
    then show ?thesis by (auto intro!: exI [of _ "[]"])
  qed
qed simp

lemma next_match_before:
  assumes "next_match c behind s = Some (pre, r)" and "s = u @ x # v" and "length u < length pre"
  shows "match_here c (rev u @ behind) (x # v) = None"
  using assms
proof (induction c behind s arbitrary: pre u rule: next_match.induct)
  case (2 c behind y s)
  then obtain pre' where none: "match_here c behind (y # s) = None" and pre: "pre = y # pre'" "next_match c (y # behind) s = Some (pre', r)"
    by (cases "match_here c behind (y # s)"; cases u) (auto split: option.splits)
  show ?case
  proof (cases u)
    case Nil
    then show ?thesis using none "2.prems"(2) by simp
  next
    case (Cons z u')
    then show ?thesis using "2.IH" [OF none pre(2), of u'] "2.prems" pre(1) by auto
  qed
qed simp

lemma head_words:
  assumes "plain_matcher c a b" and "match_here c behind s = Some r"
  shows "list_all is_word (tl (tm_head r))" and "tm_head r \<noteq> []"
proof -
  obtain rest where m: "is_token (tm_core r)" "tm_head r = a # tm_core r \<or> tm_head r = tm_core r \<and> at_boundary behind"
    using plain_matchE [OF assms] by metis
  then show "list_all is_word (tl (tm_head r))"
    using token_words [OF m(1)] by (cases "tm_core r") auto
  show "tm_head r \<noteq> []" using m token_not_Nil by auto
qed

text \<open>No match begins at a place that holds none and is followed, later, by a character of no word.\<close>

lemma no_new_match:
  assumes "plain_matcher c a b" and "match_here c behind (x # v) = None" and "z \<in> set v" and "\<not> is_word z"
  shows "match_here c behind (x # v @ t) = None"
proof (rule ccontr)
  assume "match_here c behind (x # v @ t) \<noteq> None"
  then obtain r where r: "match_here c behind ((x # v) @ t) = Some r" by auto
  have "\<not> prefix (x # v) (tm_head r)"
  proof
    assume "prefix (x # v) (tm_head r)"
    then have "z \<in> set (tl (tm_head r))" using assms(3) by (auto simp: prefix_def)
    then show False using head_words(1) [OF assms(1) r] assms(4) by (auto simp: list_all_iff)
  qed
  then show False using plain_match_new [OF assms(1) r] assms(2) by (auto simp: strict_prefix_def)
qed

text \<open>The characters before a settled match are passed whatever text arrives.\<close>

lemma passed_before_match:
  assumes "plain_matcher c a b" and "next_match c behind s = Some (pre, r)" and "s = pre @ tm_head r @ z # after"
  shows "restored c behind (s @ t) = pre @ restored c (rev pre @ behind) (tm_head r @ z # after @ t)"
proof -
  obtain after' where m: "s = pre @ tm_text r @ after'" "tm_close r = None \<Longrightarrow> tm_text r = tm_head r \<and> nonword_head after'"
    "tm_close r \<noteq> None \<Longrightarrow> tm_text r = tm_head r @ [b]"
    using next_match_split [OF assms(1,2)] by metis
  have z: "\<not> is_word z"
    using m assms(1,3) by (cases "tm_close r") (auto simp: plain_matcher_def)
  have "issued_match c (rev u @ behind) (x # v @ tm_head r @ z # after @ t) = None" if "pre = u @ x # v" for u x v
  proof -
    have "match_here c (rev u @ behind) (x # v @ tm_head r @ z # after) = None"
      using assms(3) that by (intro next_match_before [OF assms(2)]) auto
    then have "match_here c (rev u @ behind) (x # (v @ tm_head r @ z # after) @ t) = None"
      by (rule no_new_match [OF assms(1)]) (use z in auto)
    then show ?thesis by (simp add: issued_match_def)
  qed
  then show ?thesis unfolding assms(3) by (simp add: restored_pass_all)
qed

text \<open>The scan of a chunk: what it puts out is settled.\<close>

definition pending :: "matcher \<Rightarrow> string \<Rightarrow> string \<Rightarrow> bool" where
  "pending c behind s \<longleftrightarrow> next_match c behind s = None
     \<or> (\<exists>pre r. next_match c behind s = Some (pre, r) \<and> s = pre @ tm_head r)"

lemma replace_from_settled:
  assumes "plain_matcher c a b" and "replace_from c False behind s = (out, rest)"
  shows "\<exists>used. s = used @ rest \<and> pending c (rev used @ behind) rest
    \<and> (\<forall>t. restored c behind (s @ t) = out @ restored c (rev used @ behind) (rest @ t))"
  using assms(2)
proof (induction s arbitrary: behind out rule: length_induct)
  case (1 s)
  show ?case
  proof (cases "next_match c behind s")
    case None
    then have "out = []" "rest = s" using 1(2) by (simp_all add: replace_from.simps)
    then show ?thesis using None by (intro exI [of _ "[]"]) (simp add: pending_def)
  next
    case (Some p)
    obtain pre r where p: "p = (pre, r)" by fastforce
    obtain after where m: "s = pre @ tm_text r @ after" "match_here c (rev pre @ behind) (tm_text r @ after) = Some r"
      "tm_close r = None \<Longrightarrow> tm_text r = tm_head r \<and> nonword_head after" "tm_text r \<noteq> []"
      "tm_close r \<noteq> None \<Longrightarrow> tm_text r = tm_head r @ [b]"
      using next_match_split [OF assms(1)] Some p by metis
    have after: "drop (length pre + length (tm_text r)) s = after" by (simp add: m(1))
    have und: "undecided c False r after \<longleftrightarrow> tm_close r = None \<and> prefix after [b]"
      by (simp add: undecided_def plain_closes [OF assms(1)])
    show ?thesis
    proof (cases "undecided c False r after")
      case True
      have "after \<noteq> [b]"
      proof
        assume "after = [b]"
        then have "tm_close r = plain_close b [b]"
          using plain_matchE [OF assms(1) m(2)] m(3) True und by (metis same_append_eq)
        then show False using True und by (simp add: plain_close_def)
      qed
      then have "after = []" using True und by (auto simp: prefix_def Cons_eq_append_conv)
      moreover have "out = []" "rest = s" using 1(2) True Some p after by (simp_all add: replace_from.simps)
      ultimately show ?thesis using Some p m True und by (intro exI [of _ "[]"]) (simp add: pending_def)
    next
      case False
      obtain out1 where rec: "replace_from c False (rev (pre @ tm_text r) @ behind) after = (out1, rest)"
        and out: "out = pre @ shown c r @ out1"
        using 1(2) False Some p after m(4) by (auto simp: replace_from.simps split: prod.splits)
      obtain used where used: "after = used @ rest" "pending c (rev used @ rev (pre @ tm_text r) @ behind) rest"
        "\<And>t. restored c (rev (pre @ tm_text r) @ behind) (after @ t)
           = out1 @ restored c (rev used @ rev (pre @ tm_text r) @ behind) (rest @ t)"
        using 1(1) [rule_format, of after "rev (pre @ tm_text r) @ behind" out1] rec m(1,4) by auto
      have next_char: "\<exists>z after'. tm_text r @ after = tm_head r @ z # after'"
        using m(3,5) False und by (cases "tm_close r"; cases after) auto
      then obtain z after' where z: "tm_text r @ after = tm_head r @ z # after'" by blast
      have "restored c behind (s @ t) = out @ restored c (rev used @ rev (pre @ tm_text r) @ behind) (rest @ t)" for t
      proof -
        have e: "tm_text r @ after @ t = tm_head r @ z # after' @ t" using arg_cong [OF z, of "\<lambda>x. x @ t"] by simp
        have "s = pre @ tm_head r @ z # after'" using m(1) z by simp
        then have "restored c behind (s @ t) = pre @ restored c (rev pre @ behind) (tm_text r @ after @ t)"
          unfolding e by (rule passed_before_match [OF assms(1) Some [unfolded p]])
        also have "match_here c (rev pre @ behind) (tm_text r @ after @ t) = Some r"
          using plain_match_stable [OF assms(1) m(2) z] by simp
        then have "restored c (rev pre @ behind) (tm_text r @ after @ t)
            = shown c r @ restored c (rev (tm_text r) @ rev pre @ behind) (after @ t)"
          by (rule restored_match [OF assms(1)])
        finally show ?thesis using used(3) [of t] out by simp
      qed
      then show ?thesis using used m(1) by (intro exI [of _ "pre @ tm_text r @ used"]) simp
    qed
  qed
qed

subsection \<open>What a stream holds back\<close>

lemma fold_max_ge: "m \<le> fold (\<lambda>tok m. max m (length tok)) xs m" for m :: nat
  by (induction xs arbitrary: m) (auto intro: order_trans [OF max.cobounded1])

lemma length_le_max_len: "tok \<in> set (spellings c) \<Longrightarrow> length tok \<le> max_len c"
proof -
  have "length tok \<le> fold (\<lambda>tok m. max m (length tok)) xs m" if "tok \<in> set xs" for xs and m :: nat
    using that fold_max_ge by (induction xs arbitrary: m) (auto intro: order_trans [OF max.cobounded2])
  then show "tok \<in> set (spellings c) \<Longrightarrow> length tok \<le> max_len c" by (simp add: max_len_def)
qed

lemma find_down:
  "(case List.find P (rev [1..<Suc m]) of Some k \<Rightarrow> k | None \<Rightarrow> 0) \<le> m"
  "P k \<Longrightarrow> 1 \<le> k \<Longrightarrow> k \<le> m \<Longrightarrow> k \<le> (case List.find P (rev [1..<Suc m]) of Some k \<Rightarrow> k | None \<Rightarrow> 0)"
proof (induction m)
  case (Suc m)
  { case 1 show ?case using Suc.IH(1) by (simp split: option.splits) }
  { case 2 show ?case using Suc.IH(2) 2 by (cases "k = Suc m") (auto split: option.splits) }
qed simp_all

lemma hold_len_le: "hold_len c s \<le> length s"
  using find_down(1) unfolding hold_len_def by (metis min.cobounded2 order_trans)

lemma hold_len_longest:
  assumes "in_prefixes c (drop (length s - k) s)" and "k \<le> length s"
  shows "k \<le> hold_len c s"
proof -
  obtain tok where tok: "tok \<in> set (spellings c)" "strict_prefix (drop (length s - k) s) tok"
    and ne: "drop (length s - k) s \<noteq> []"
    using assms(1) by (auto simp: in_prefixes_def list_ex_iff)
  have "k < length tok" using tok(2) assms(2) prefix_length_less by fastforce
  then have "1 \<le> k" "k \<le> min (max_len c - 1) (length s)"
    using length_le_max_len [OF tok(1)] assms(2) ne by (cases k; force)+
  then show ?thesis unfolding hold_len_def using assms(1) by (intro find_down(2))
qed

lemma issued_spelling:
  assumes "plain_matcher c a b" and "issued_surface c r = Some sf" and "tm_head r = a # tm_core r \<or> tm_head r = tm_core r"
  shows "tm_head r @ [b] \<in> set (spellings c)"
proof -
  have g: "g_open (mt_grammar c) = [a]" "g_close (mt_grammar c) = [b]" using assms(1) by (auto simp: plain_matcher_def)
  then have "(a # tm_core r @ [b], sf) \<in> set (mt_surfaces c)"
    using assms(2) by (auto simp: issued_surface_def dest: map_of_SomeD)
  then have "tm_core r \<in> set (issued_cores c)"
    unfolding issued_cores_def using g by (auto simp: slice_def intro!: image_eqI)
  then show ?thesis using assms(3) by (auto simp: spellings_def plain_opens [OF assms(1)] plain_closes [OF assms(1)])
qed

lemma held_tail:
  assumes "plain_matcher c a b" and "pending c behind s"
  defines "k \<equiv> hold_len c s"
  shows "restored c behind (s @ t) = take (length s - k) s
    @ restored c (rev (take (length s - k) s) @ behind) (drop (length s - k) s @ t)"
proof -
  define y h where "y = take (length s - k) s" and "h = drop (length s - k) s"
  have k: "k \<le> length s" unfolding k_def by (rule hold_len_le)
  have split: "s = y @ h" "length h = k" using k by (simp_all add: y_def h_def)
  have "issued_match c (rev u @ behind) (x # v @ h @ t) = None" if yu: "y = u @ x # v" for u x v
  proof (rule ccontr)
    assume "issued_match c (rev u @ behind) (x # v @ h @ t) \<noteq> None"
    then obtain r sf where "issued_match c (rev u @ behind) (x # v @ h @ t) = Some (r, sf)" by auto
    then have r: "match_here c (rev u @ behind) ((x # v @ h) @ t) = Some r" "issued_surface c r = Some sf"
      by (simp_all add: issued_match_Some)
    have s: "s = u @ x # v @ h" using split(1) yu by simp
    define z where "z = x # v @ h"
    have head: "tm_head r = a # tm_core r \<or> tm_head r = tm_core r" using plain_matchE [OF assms(1) r(1)] by metis
    show False
    proof (cases "prefix z (tm_head r)")
      case True
      then have "strict_prefix z (tm_head r @ [b])" by (auto simp: strict_prefix_def prefix_def)
      then have "in_prefixes c z"
        using issued_spelling [OF assms(1) r(2) head] by (auto simp: in_prefixes_def z_def list_ex_iff)
      moreover have z: "z = drop (length s - length z) s" "length z \<le> length s" unfolding z_def s by simp_all
      ultimately have "length z \<le> k" unfolding k_def using hold_len_longest [of c s "length z"] by simp
      then show False using split(2) by (simp add: z_def)
    next
      case False
      have rz: "match_here c (rev u @ behind) z = Some r"
        using plain_match_new [OF assms(1) r(1)] False unfolding z_def
        by (cases "x # v @ h = tm_head r") (auto simp: strict_prefix_def)
      obtain rest where rest: "z = tm_head r @ rest" "nonword_head rest"
        using plain_matchE [OF assms(1) rz] by metis
      then obtain w ws where w: "rest = w # ws" "\<not> is_word w" using False by (cases rest) auto
      have w_in: "w \<in> set (tl z)" using rest(1) w(1) head_words(2) [OF assms(1) rz] by (cases "tm_head r") auto
      have "next_match c behind s \<noteq> None"
        using rz s unfolding next_match_None z_def by (metis option.distinct(1))
      then obtain pre r0 where n: "next_match c behind s = Some (pre, r0)" "s = pre @ tm_head r0"
        using assms(2) by (auto simp: pending_def)
      have "length pre \<le> length u"
      proof (rule ccontr)
        assume "\<not> length pre \<le> length u"
        then have "match_here c (rev u @ behind) (x # v @ h) = None"
          using s by (intro next_match_before [OF n(1)]) auto
        then show False using rz by (simp add: z_def)
      qed
      moreover have "pre @ tm_head r0 = u @ z" using n(2) s by (simp add: z_def)
      ultimately obtain v0 where "u = pre @ v0" "tm_head r0 = v0 @ z" by (auto simp: append_eq_append_conv2)
      then have "w \<in> set (tl (tm_head r0))" using w_in by (cases v0; cases z) auto
      moreover obtain after where "match_here c (rev pre @ behind) (tm_text r0 @ after) = Some r0"
        using next_match_split [OF assms(1) n(1)] by metis
      ultimately show False using head_words(1) [OF assms(1)] w(2) by (fastforce simp: list_all_iff)
    qed
  qed
  then have "restored c behind (y @ h @ t) = y @ restored c (rev y @ behind) (h @ t)"
    by (rule restored_pass_all)
  then have "restored c behind ((y @ h) @ t) = y @ restored c (rev y @ behind) (h @ t)" by simp
  then show ?thesis unfolding y_def [symmetric] h_def [symmetric] split(1) [symmetric] .
qed

lemma final_scan:
  assumes "plain_matcher c a b" and "replace_from c True behind s = (out, rest)"
  shows "restored c behind s = out @ rest"
  using assms(2)
proof (induction s arbitrary: behind out rule: length_induct)
  case (1 s)
  show ?case
  proof (cases "next_match c behind s")
    case None
    then have "out = []" "rest = s" using 1(2) by (simp_all add: replace_from.simps)
    moreover have "restored c behind (s @ []) = s @ restored c (rev s @ behind) []"
      by (rule restored_pass_all) (use None in \<open>auto simp: next_match_None issued_match_def\<close>)
    ultimately show ?thesis by simp
  next
    case (Some p)
    obtain pre r where p: "p = (pre, r)" by fastforce
    obtain after where m: "s = pre @ tm_text r @ after" "match_here c (rev pre @ behind) (tm_text r @ after) = Some r"
      "tm_text r \<noteq> []"
      using next_match_split [OF assms(1)] Some p by metis
    have after: "drop (length pre + length (tm_text r)) s = after" by (simp add: m(1))
    obtain out1 where rec: "replace_from c True (rev (pre @ tm_text r) @ behind) after = (out1, rest)"
      and out: "out = pre @ shown c r @ out1"
      using 1(2) Some p after m(3) by (auto simp: replace_from.simps undecided_def split: prod.splits)
    have "restored c behind (pre @ tm_text r @ after) = pre @ restored c (rev pre @ behind) (tm_text r @ after)"
    proof (rule restored_pass_all)
      fix u x v assume "pre = u @ x # v"
      then have "match_here c (rev u @ behind) (x # v @ tm_text r @ after) = None"
        using m(1) by (intro next_match_before [OF Some [unfolded p]]) auto
      then show "issued_match c (rev u @ behind) (x # v @ tm_text r @ after) = None" by (simp add: issued_match_def)
    qed
    also have "\<dots> = pre @ shown c r @ restored c (rev (tm_text r) @ rev pre @ behind) after"
      using restored_match [OF assms(1) m(2)] by simp
    also have "restored c (rev (tm_text r) @ rev pre @ behind) after = out1 @ rest"
      using 1(1) [rule_format, of after "rev (pre @ tm_text r) @ behind" out1] rec m(1,3) by auto
    finally show ?thesis using out m(1) by simp
  qed
qed


subsection \<open>Streams\<close>

lemma at_boundary_last_two: "at_boundary (rev (drop (length s - 2) s)) = at_boundary (rev s)"
  by (cases s rule: rev_cases) (simp_all add: at_boundary_append)

lemma run_settled:
  assumes "plain_matcher c a b" and "restorer_run c chunk False st = (out, st')"
  shows "restored c (rev (rs_ctx st)) (rs_carry st @ chunk @ t) = out @ restored c (rev (rs_ctx st')) (rs_carry st' @ t)"
proof -
  let ?full = "rs_carry st @ chunk"
  obtain o1 rest where rep: "replace_from c False (rev (rs_ctx st)) ?full = (o1, rest)" by fastforce
  define k where "k = hold_len c rest"
  obtain used where used: "?full = used @ rest" "pending c (rev used @ rev (rs_ctx st)) rest"
    "\<And>t. restored c (rev (rs_ctx st)) (?full @ t) = o1 @ restored c (rev used @ rev (rs_ctx st)) (rest @ t)"
    using replace_from_settled [OF assms(1) rep] by blast
  define y h where "y = take (length rest - k) rest" and "h = drop (length rest - k) rest"
  have k: "k \<le> length rest" unfolding k_def by (rule hold_len_le)
  have split: "rest = y @ h" "length h = k" using k by (simp_all add: y_def h_def)
  define whole where "whole = rs_ctx st @ ?full"
  have whole: "whole = (rs_ctx st @ used @ y) @ h" using used(1) split(1) by (simp add: whole_def)
  have "restorer_run c chunk False st = (o1 @ y,
      \<lparr>rs_ctx = drop (length whole - k - 2) (take (length whole - k) whole), rs_carry = h\<rparr>)"
    by (simp add: restorer_run_def Let_def rep k_def whole_def y_def h_def)
  moreover have "length whole - k = length (rs_ctx st @ used @ y)" "take (length whole - k) whole = rs_ctx st @ used @ y"
    unfolding whole using split(2) by simp_all
  ultimately have out: "out = o1 @ y" and carry: "rs_carry st' = h"
    and ctx: "rs_ctx st' = drop (length (rs_ctx st @ used @ y) - 2) (rs_ctx st @ used @ y)"
    using assms(2) by (simp_all del: length_append)
  have "restored c (rev used @ rev (rs_ctx st)) (rest @ t) = y @ restored c (rev y @ rev used @ rev (rs_ctx st)) (h @ t)"
    using held_tail [OF assms(1) used(2), of t] by (simp add: k_def [symmetric] y_def [symmetric] h_def [symmetric])
  also have "restored c (rev y @ rev used @ rev (rs_ctx st)) (h @ t) = restored c (rev (rs_ctx st')) (h @ t)"
    using at_boundary_last_two [of "rs_ctx st @ used @ y"] unfolding ctx by (intro restored_boundary [OF assms(1)]) simp
  finally show ?thesis using used(3) [of t] out carry by simp
qed

lemma flush_final:
  assumes "plain_matcher c a b" and "mt_surfaces c \<noteq> []"
  shows "fst (restorer_flush c st) = restored c (rev (rs_ctx st)) (rs_carry st)"
proof (cases "rs_carry st = []")
  case False
  obtain out rest where rep: "replace_from c True (rev (rs_ctx st)) (rs_carry st) = (out, rest)" by fastforce
  then have "fst (restorer_flush c st) = out @ rest"
    using False assms(2) by (simp add: restorer_flush_def restorer_run_def Let_def)
  then show ?thesis using final_scan [OF assms(1) rep] by simp
qed (simp add: restorer_flush_def)

lemma stream_restored:
  assumes "plain_matcher c a b" and "mt_surfaces c \<noteq> []"
  shows "restorer_stream c st chunks = restored c (rev (rs_ctx st)) (rs_carry st @ concat chunks)"
proof (induction chunks arbitrary: st)
  case Nil
  then show ?case using flush_final [OF assms] by simp
next
  case (Cons chunk chunks)
  obtain out st' where run: "restorer_run c chunk False st = (out, st')" by fastforce
  then show ?case
    using Cons.IH [of st'] run_settled [OF assms(1) run] assms(2) by (simp add: restorer_push_def)
qed

lemma stream_unused: "mt_surfaces c = [] \<Longrightarrow> restorer_stream c st chunks = concat chunks"
  by (induction chunks) (simp_all add: restorer_push_def restorer_flush_def)

lemma restored_unused: "mt_surfaces c = [] \<Longrightarrow> restored c behind s = s"
  by (induction s arbitrary: behind) (simp_all add: restored_pass issued_match_def issued_surface_def split: option.split)


definition demo_matcher :: matcher where
  "demo_matcher = \<lparr>mt_grammar = square, mt_surfaces = [(''[PERSON_1]'', ''Ann'')], mt_json = False\<rparr>"

lemma demo_matcher_plain: "plain_matcher demo_matcher (CHR ''['') (CHR '']'')"
proof -
  have "is_token ''PERSON_1''"
    unfolding is_token_def by (rule exI [of _ "''PERSON''"], rule exI [of _ "''1''"]) code_simp
  moreover have "\<not> is_word (CHR ''['')" "\<not> is_word (CHR '']'')" by code_simp+
  ultimately show ?thesis by (auto simp: plain_matcher_def demo_matcher_def square_def)
qed


subsection \<open>Round trip\<close>

text \<open>A place where a text may be cut without cutting a word.\<close>

definition cut_ok :: "string \<Rightarrow> nat \<Rightarrow> bool" where
  "cut_ok t i \<longleftrightarrow> i = 0 \<or> length t \<le> i \<or> \<not> (is_word (t ! (i - 1)) \<and> is_word (t ! i))"

definition single_delims :: "grammar \<Rightarrow> char \<Rightarrow> char \<Rightarrow> bool" where
  "single_delims g a b \<longleftrightarrow> g_open g = [a] \<and> g_close g = [b] \<and> a \<noteq> b \<and> \<not> is_word a \<and> \<not> is_word b"

lemma single_delims_ok: "single_delims g a b \<Longrightarrow> grammar_ok g"
  by (simp add: single_delims_def grammar_ok_def)

text \<open>No issued token stands in the text, apart from other capitals and digits.\<close>

definition token_free :: "matcher \<Rightarrow> string \<Rightarrow> bool" where
  "token_free c t \<longleftrightarrow> (\<forall>pre r post. t = pre @ tm_core r @ post \<longrightarrow> is_token (tm_core r)
     \<longrightarrow> (pre = [] \<or> \<not> is_upper_az (last pre)) \<longrightarrow> (post = [] \<or> \<not> is_digit (hd post)) \<longrightarrow> issued_surface c r = None)"

lemma segment_passed:
  assumes "plain_matcher c a b" and "token_free c t" and "cut_ok t i" and "cut_ok t j" and "i \<le> j" and "j \<le> length t"
    and "rest = [] \<and> j = length t \<or> (\<exists>rest'. rest = a # rest')"
  shows "restored c behind (slice t i j @ rest) = slice t i j @ restored c (rev (slice t i j) @ behind) rest"
proof (rule restored_pass_all)
  fix u x v
  assume seg: "slice t i j = u @ x # v"
  have t: "t = (take i t @ u) @ x # v @ drop j t"
  proof -
    have "t = take i t @ slice t i j @ drop j t"
      using assms(5) unfolding slice_def
      by (metis append_take_drop_id drop_drop le_add_diff_inverse2)
    then show ?thesis using seg by simp
  qed
  have nota: "\<not> is_word a" using assms(1) by (simp add: plain_matcher_def)
  show "issued_match c (rev u @ behind) (x # v @ rest) = None"
  proof (rule ccontr)
    assume "issued_match c (rev u @ behind) (x # v @ rest) \<noteq> None"
    then obtain r sf where r: "match_here c (rev u @ behind) (x # v @ rest) = Some r" "issued_surface c r = Some sf"
      by (auto simp: issued_match_Some)
    obtain w where m: "is_token (tm_core r)" "nonword_head w" "x # v @ rest = tm_head r @ w"
      "tm_head r = a # tm_core r \<or> tm_head r = tm_core r \<and> at_boundary (rev u @ behind)"
      using plain_matchE [OF assms(1) r(1)] by metis
    note words = token_words [OF m(1)]
    have "\<exists>v2. x # v = tm_head r @ v2"
    proof -
      have "(x # v) @ rest = tm_head r @ w" using m(3) by simp
      then consider us where "x # v = tm_head r @ us" | us where "tm_head r = (x # v) @ us" "rest = us @ w"
        unfolding append_eq_append_conv2 by metis
      then show ?thesis
      proof cases
        case (2 us)
        have "a \<notin> set (tl (tm_head r))" using head_words(1) [OF assms(1) r(1)] nota by (auto simp: list_all_iff)
        then have "us = []" using 2 assms(7) by (cases us) auto
        then show ?thesis using 2 by simp
      qed blast
    qed
    then obtain v2 where v2: "x # v = tm_head r @ v2" "w = v2 @ rest" using m(3) by (metis append_Cons append_assoc same_append_eq)
    have last_word: "is_word (last (tm_head r))"
      using m(4) words token_not_Nil [OF m(1)] by (auto simp: list_all_iff)
    have post: "v2 @ drop j t = [] \<or> \<not> is_digit (hd (v2 @ drop j t))"
    proof (cases v2)
      case Nil
      have upto: "take j t = take i t @ u @ x # v"
        using take_add [of i "j - i" t] seg assms(5) by (simp add: slice_def)
      then have "j \<noteq> 0" by (cases j) auto
      then have "t ! (j - 1) = last (take j t)" using assms(6) by (cases j) (auto simp: take_Suc_conv_app_nth)
      then have "is_word (t ! (j - 1))" using upto v2(1) Nil last_word head_words(2) [OF assms(1) r(1)] by simp
      then have "length t \<le> j \<or> \<not> is_word (t ! j)" using assms(4) \<open>j \<noteq> 0\<close> by (auto simp: cut_ok_def)
      then show ?thesis using Nil word_digit by (auto simp: hd_drop_conv_nth)
    next
      case (Cons y v3)
      then show ?thesis using m(2) v2(2) word_digit by auto
    qed
    show False
      using m(4)
    proof
      assume h: "tm_head r = a # tm_core r"
      have "t = (take i t @ u @ [a]) @ tm_core r @ v2 @ drop j t" using t v2(1) h by simp
      moreover have "\<not> is_upper_az (last (take i t @ u @ [a]))" using nota word_upper by auto
      ultimately show False using assms(2) m(1) post r(2) unfolding token_free_def by (metis option.distinct(1))
    next
      assume h: "tm_head r = tm_core r \<and> at_boundary (rev u @ behind)"
      have "x # v @ drop j t = tm_core r @ v2 @ drop j t" using v2(1) h by (metis append_Cons append_assoc)
      then have "t = (take i t @ u) @ tm_core r @ v2 @ drop j t" using t by metis
      moreover have "take i t @ u = [] \<or> \<not> is_upper_az (last (take i t @ u))"
      proof (cases "u = []")
        case True
        have len: "i < length t" using arg_cong [OF t, of length] assms(5,6) True by simp
        have "drop i t = x # v @ drop j t" using arg_cong [OF t, of "drop i"] True len by simp
        then have "t ! i = x" using len by (metis hd_drop_conv_nth list.sel(1))
        moreover have "is_word x" using v2(1) h words token_not_Nil [OF m(1)] by (cases "tm_core r") auto
        ultimately have "i = 0 \<or> \<not> is_word (t ! (i - 1))" using assms(3) len by (auto simp: cut_ok_def)
        then show ?thesis using True len word_upper by (cases i) (auto simp: last_conv_nth)
      next
        case False
        then show ?thesis using h word_upper by (auto simp: at_boundary_def hd_rev)
      qed
      ultimately show False using assms(2) m(1) post r(2) unfolding token_free_def by (metis option.distinct(1))
    qed
  qed
qed


lemma redacted_restored:
  assumes "plain_matcher c a b" and "token_free c t"
    and "\<And>cls x ph. f cls x = Some ph \<Longrightarrow> \<exists>core sf. is_token core \<and> ph = a # core @ [b] \<and> map_of (mt_surfaces c) ph = Some sf"
    and "\<forall>s \<in> set ss. 0 \<le> sp_start s \<and> sp_start s \<le> sp_end s \<and> sp_end s \<le> int (length t)
      \<and> (f (sp_cls s) (surface_of t s) \<noteq> None \<longrightarrow> cut_ok t (nat (sp_start s)) \<and> cut_ok t (nat (sp_end s)))"
    and "sorted_wrt (\<lambda>s s'. sp_end s \<le> sp_start s') ss" and "\<forall>s \<in> set ss. int pos \<le> sp_start s"
    and "cut_ok t pos" and "pos \<le> length t"
  shows "restored c behind (replaced f t pos ss)
    = replaced (\<lambda>cls x. Option.bind (f cls x) (map_of (mt_surfaces c))) t pos ss"
  using assms(4-8)
proof (induction ss arbitrary: pos behind)
  case Nil
  have "restored c behind (slice t pos (length t) @ []) = slice t pos (length t) @ restored c (rev (slice t pos (length t)) @ behind) []"
    using Nil.prems by (intro segment_passed [OF assms(1,2)]) (auto simp: cut_ok_def)
  then show ?case by (simp add: slice_def)
next
  case (Cons s ss)
  show ?case
  proof (cases "f (sp_cls s) (surface_of t s)")
    case None
    then show ?thesis using Cons.IH [of pos behind] Cons.prems by (simp add: surface_of_def)
  next
    case (Some ph)
    obtain core sf where ph: "is_token core" "ph = a # core @ [b]" "map_of (mt_surfaces c) ph = Some sf"
      using assms(3) [OF Some] by blast
    let ?i = "nat (sp_start s)" and ?j = "nat (sp_end s)"
    let ?seg = "slice t pos ?i" and ?R = "replaced f t ?j ss"
    let ?r = "\<lparr>tm_open = Some [a], tm_core = core, tm_close = Some [b]\<rparr>"
    have s: "0 \<le> sp_start s" "sp_start s \<le> sp_end s" "sp_end s \<le> int (length t)" "cut_ok t ?i" "cut_ok t ?j" "int pos \<le> sp_start s"
      using Cons.prems Some by auto
    have out: "replaced f t pos (s # ss) = ?seg @ ph @ ?R"
      using Some by (simp add: surface_of_def)
    have "restored c behind (?seg @ ph @ ?R) = ?seg @ restored c (rev ?seg @ behind) (ph @ ?R)"
      using Cons.prems(4) s ph(2) by (intro segment_passed [OF assms(1,2)]) auto
    also have "restored c (rev ?seg @ behind) (ph @ ?R) = sf @ restored c (rev ph @ rev ?seg @ behind) ?R"
    proof -
      have g: "g_open (mt_grammar c) = [a]" "g_close (mt_grammar c) = [b]" "\<not> mt_json c" "\<not> is_word b"
        using assms(1) by (simp_all add: plain_matcher_def)
      have t: "tm_text ?r = ph" "tm_head ?r = a # core" using ph(2) by (simp_all add: tm_text_def tm_head_def)
      have "match_here c (rev ?seg @ behind) (tm_head ?r @ b # ?R) = Some ?r"
        using ph(1) g by (intro plain_matchI [OF assms(1)]) (simp_all add: plain_close_def)
      then have "match_here c (rev ?seg @ behind) (tm_text ?r @ ?R) = Some ?r" using t ph(2) by simp
      then have "restored c (rev ?seg @ behind) (tm_text ?r @ ?R)
          = surface_for sf (mt_json c) @ restored c (rev (tm_text ?r) @ rev ?seg @ behind) ?R"
        by (rule restored_hit) (use ph g t in \<open>simp_all add: issued_surface_def\<close>)
      then show ?thesis using t g by (simp add: surface_for_def)
    qed
    also have "restored c (rev ph @ rev ?seg @ behind) ?R
        = replaced (\<lambda>cls x. Option.bind (f cls x) (map_of (mt_surfaces c))) t ?j ss"
      by (rule Cons.IH) (use Cons.prems s in auto)
    finally show ?thesis using Some ph(3) out by (simp add: surface_of_def)
  qed
qed

lemma replaced_same:
  assumes "\<forall>s \<in> set ss. f (sp_cls s) (surface_of t s) = None \<or> f (sp_cls s) (surface_of t s) = Some (surface_of t s)"
    and "\<forall>s \<in> set ss. 0 \<le> sp_start s \<and> sp_start s \<le> sp_end s \<and> sp_end s \<le> int (length t)"
    and "sorted_wrt (\<lambda>s s'. sp_end s \<le> sp_start s') ss" and "\<forall>s \<in> set ss. int pos \<le> sp_start s" and "pos \<le> length t"
  shows "replaced f t pos ss = drop pos t"
  using assms
proof (induction ss arbitrary: pos)
  case (Cons s ss)
  show ?case
  proof (cases "f (sp_cls s) (surface_of t s)")
    case None
    then show ?thesis using Cons.IH [of pos] Cons.prems by (simp add: surface_of_def)
  next
    case (Some x)
    then have x: "x = slice t (nat (sp_start s)) (nat (sp_end s))" using Cons.prems(1) by (auto simp: surface_of_def)
    have le: "pos \<le> nat (sp_start s)" "nat (sp_start s) \<le> nat (sp_end s)" "nat (sp_end s) \<le> length t"
      using Cons.prems(2,4) by auto
    have "replaced f t (nat (sp_end s)) ss = drop (nat (sp_end s)) t"
      by (rule Cons.IH) (use Cons.prems le in auto)
    moreover have "slice t i j @ drop j t = drop i t" if "i \<le> j" for i j
      using that unfolding slice_def by (metis append_take_drop_id drop_drop le_add_diff_inverse2)
    ultimately show ?thesis using Some x le by (simp add: surface_of_def)
  qed
qed simp


lemma list_all2_zip_nth:
  assumes "list_all2 P (zip xs ys) zs" and "length xs = length ys" and "i < length xs"
  shows "i < length zs \<and> P (xs ! i, ys ! i) (zs ! i)"
  using assms by (auto simp: list_all2_conv_all_nth)

lemma plain_of_mapping:
  assumes "single_delims g a b" and "pii_inv nf g taken m"
  shows "plain_matcher (matcher_of g m False) a b"
proof -
  have "\<exists>t. is_token t \<and> ph = a # t @ [b]" if "(ph, s) \<in> set (pm_surfaces m)" for ph s
  proof -
    have "ph \<in> fst ` set (pm_surfaces m)" using that by force
    then obtain k where "pm_keys m k = Some ph" using assms(2) by (auto simp: pii_inv_def ran_def)
    then obtain cls n where "is_class cls" "ph = placeholder g cls n"
      by (rule pii_inv_key [OF assms(2)])
    then show ?thesis using core_token assms(1) by (auto simp: placeholder_core single_delims_def)
  qed
  then show ?thesis using assms(1) by (auto simp: plain_matcher_def matcher_of_def single_delims_def)
qed

lemma token_free_of_mapping:
  assumes "single_delims g a b" and "pii_inv nf g (taken_of g texts) m" and "t \<in> set texts"
  shows "token_free (matcher_of g m False) t"
  unfolding token_free_def
proof (intro allI impI)
  fix pre post and r :: token_match
  assume t: "t = pre @ tm_core r @ post" and tok: "is_token (tm_core r)"
    and pre: "pre = [] \<or> \<not> is_upper_az (last pre)" and post: "post = [] \<or> \<not> is_digit (hd post)"
  have "token_at (tm_core r @ post) = Some (tm_core r)" by (rule token_at_token [OF tok post])
  then have "tm_core r \<in> set (bare_tokens False (pre @ tm_core r @ post))"
    by (rule bare_tokens_at) (use pre in auto)
  then have "g_open g @ tm_core r @ g_close g \<in> set (taken_of g texts)"
    using assms(3) t by (auto simp: taken_of_def)
  then have "pm_keys m k \<noteq> Some (g_open g @ tm_core r @ g_close g)" for k
    using pii_inv_key [OF assms(2)] by metis
  then have "g_open g @ tm_core r @ g_close g \<notin> fst ` set (pm_surfaces m)"
    using assms(2) by (auto simp: pii_inv_def ran_def)
  then show "issued_surface (matcher_of g m False) r = None"
    by (simp add: issued_surface_def matcher_of_def map_of_eq_None_iff)
qed

text \<open>C11: When no hidden span cuts a word of the user's text, restoring the text that left gives back the
  text, with each hidden surface spelled as the first of its entity; if all surfaces of an entity are
  spelled alike it is the original text, including every placeholder-like token the user wrote.\<close>

theorem restore_pseudonymized:
  assumes "single_delims g a b" and "pseudonymize nf g texts spans = Inr (outs, m)" and "i < length texts"
    and "merge_spans (texts ! i) (spans ! i) = Inr ss"
    and "\<forall>s \<in> set ss. placeholder_of nf m (sp_cls s) (surface_of (texts ! i) s) \<noteq> None \<longrightarrow>
      cut_ok (texts ! i) (nat (sp_start s)) \<and> cut_ok (texts ! i) (nat (sp_end s))"
  shows "restore_text (matcher_of g m False) (outs ! i)
      = replaced (\<lambda>cls x. Option.bind (placeholder_of nf m cls x) (map_of (pm_surfaces m))) (texts ! i) 0 ss
    \<and> ((\<forall>s \<in> set ss. \<forall>ph. placeholder_of nf m (sp_cls s) (surface_of (texts ! i) s) = Some ph
          \<longrightarrow> map_of (pm_surfaces m) ph = Some (surface_of (texts ! i) s))
       \<longrightarrow> restore_text (matcher_of g m False) (outs ! i) = texts ! i)"
proof -
  let ?c = "matcher_of g m False" and ?t = "texts ! i"
  let ?f = "placeholder_of nf m" and ?h = "\<lambda>cls x. Option.bind (placeholder_of nf m cls x) (map_of (pm_surfaces m))"
  obtain merged where merged: "merge_all (zip texts spans) = Inr merged" "length texts = length spans"
    "outs = map (\<lambda>(t, ss). replaced (placeholder_of nf m) t 0 ss) merged"
    and inv: "pii_inv nf g (taken_of g texts) m"
    using pseudonymize_facts [OF single_delims_ok [OF assms(1)] assms(2)] by metis
  have "i < length merged" "merged ! i = (?t, ss)"
    using list_all2_zip_nth [OF merge_all_items [OF merged(1)] merged(2) assms(3)] assms(4) by (auto split: prod.splits)
  then have out: "outs ! i = replaced ?f ?t 0 ss" using merged(3) by simp
  note plain = plain_of_mapping [OF assms(1) inv]
  have free: "token_free ?c ?t" using token_free_of_mapping [OF assms(1) inv] assms(3) by simp
  have phs: "\<exists>core sf. is_token core \<and> ph = a # core @ [b] \<and> map_of (mt_surfaces ?c) ph = Some sf"
    if ph: "?f cls x = Some ph" for cls x ph
  proof -
    obtain cls' n sf where "is_class cls'" "ph = placeholder g cls' n" "map_of (pm_surfaces m) ph = Some sf"
      using ph unfolding placeholder_of_def by (rule pii_inv_key [OF inv])
    then show ?thesis using core_token assms(1) by (auto simp: placeholder_core single_delims_def matcher_of_def)
  qed
  have range: "\<forall>s \<in> set ss. 0 \<le> sp_start s \<and> sp_start s \<le> sp_end s \<and> sp_end s \<le> int (length ?t)"
    using merge_spans_range [OF assms(4)] by fastforce
  obtain Ms where sorted: "sorted_wrt (\<lambda>a b. sp_end a \<le> sp_start b) ss"
    using assms(4) by (rule merge_spans_unions)
  have "restore_text ?c (concat [outs ! i]) = restored ?c [] (concat [outs ! i])"
    using stream_restored [OF plain] stream_unused [of ?c restorer_start "[outs ! i]"] restored_unused [of ?c "[]"]
    by (cases "mt_surfaces ?c = []") (simp_all add: restore_text_def restorer_start_def del: restorer_stream.simps)
  also have "restored ?c [] (concat [outs ! i]) = replaced ?h ?t 0 ss"
    using redacted_restored [OF plain free phs, where ss = ss and pos = 0 and behind = "[]"] range sorted assms(5) out
    by (simp add: cut_ok_def matcher_of_def)
  finally have main: "restore_text ?c (outs ! i) = replaced ?h ?t 0 ss" by simp
  moreover have "replaced ?h ?t 0 ss = drop 0 ?t"
    if "\<forall>s \<in> set ss. \<forall>ph. ?f (sp_cls s) (surface_of ?t s) = Some ph \<longrightarrow> map_of (pm_surfaces m) ph = Some (surface_of ?t s)"
  proof (rule replaced_same)
    show "\<forall>s \<in> set ss. ?h (sp_cls s) (surface_of ?t s) = None \<or> ?h (sp_cls s) (surface_of ?t s) = Some (surface_of ?t s)"
    proof
      fix s assume "s \<in> set ss"
      then show "?h (sp_cls s) (surface_of ?t s) = None \<or> ?h (sp_cls s) (surface_of ?t s) = Some (surface_of ?t s)"
        using that by (cases "?f (sp_cls s) (surface_of ?t s)") auto
    qed
  qed (use range sorted in auto)
  ultimately show ?thesis by simp
qed

theorem restore_pseudonymized_witness:
  "\<exists>outs m. pseudonymize (\<lambda>s. s) square [''Ann met ann''] [demo_spans] = Inr (outs, m)
     \<and> restore_text (matcher_of square m False) (outs ! 0)
         = replaced (\<lambda>cls x. Option.bind (placeholder_of (\<lambda>s. s) m cls x) (map_of (pm_surfaces m))) ''Ann met ann'' 0 demo_spans"
proof -
  have "(case pseudonymize (\<lambda>s. s) square [''Ann met ann''] [demo_spans] of Inr _ \<Rightarrow> True | Inl _ \<Rightarrow> False)" by code_simp
  then obtain outs m where p: "pseudonymize (\<lambda>s. s) square [''Ann met ann''] [demo_spans] = Inr (outs, m)"
    by (auto split: sum.splits)
  have d: "single_delims square (CHR ''['') (CHR '']'')" unfolding single_delims_def square_def by code_simp
  have ss: "merge_spans ''Ann met ann'' demo_spans = Inr demo_spans" by code_simp
  have "list_all (\<lambda>s. cut_ok ''Ann met ann'' (nat (sp_start s)) \<and> cut_ok ''Ann met ann'' (nat (sp_end s))) demo_spans"
    by code_simp
  then have "restore_text (matcher_of square m False) (outs ! 0)
      = replaced (\<lambda>cls x. Option.bind (placeholder_of (\<lambda>s. s) m cls x) (map_of (pm_surfaces m))) ''Ann met ann'' 0 demo_spans"
    using restore_pseudonymized [OF d p, of 0 demo_spans] ss by (auto simp: list_all_iff)
  then show ?thesis using p by blast
qed

text \<open>A hidden span that ends inside a word breaks the promise: of \<open>XPERSON_1\<close>, with the \<open>X\<close> detected as a
  person, the token \<open>PERSON_1\<close> is not reserved, is issued for the \<open>X\<close>, and the user's own \<open>PERSON_1\<close> is then
  restored into that person's name.\<close>

theorem literal_restored_as_name:
  "(case pseudonymize (\<lambda>s. s) square [''XPERSON_1''] [[\<lparr>sp_start = 0, sp_end = 1, sp_cls = ''PERSON''\<rparr>]] of
      Inl _ \<Rightarrow> False
    | Inr (outs, m) \<Rightarrow> outs = [''[PERSON_1]PERSON_1''] \<and> restore_text (matcher_of square m False) (hd outs) = ''XX'')"
  by code_simp

end
