(* ===== verification/JsConvert.thy ===== *)
theory JsConvert
  imports Json
begin

text \<open>
  \<open>String(x)\<close> and \<open>Number(x)\<close> of the values that a parsed body holds. An object has the conversions
  of \<open>Object.prototype\<close>, which give \<open>[object Object]\<close>; one with a member \<open>toString\<close> of its own, which is
  no function, cannot be converted and the conversion throws.
\<close>

subsection \<open>\<open>String(x)\<close>\<close>

fun all_right :: "('e + 'a) list \<Rightarrow> 'e + 'a list" where
  "all_right [] = Inr []"
| "all_right (m # ms) = bind_js m (\<lambda>x. bind_js (all_right ms) (\<lambda>xs. Inr (x # xs)))"

fun js_string :: "jsv \<Rightarrow> js_error + string" where
  "js_string JUndef = Inr ''undefined''"
| "js_string JNull = Inr ''null''"
| "js_string (JBool b) = Inr (if b then ''true'' else ''false'')"
| "js_string (JNum n) = Inr (jsnum_str n)"
| "js_string (JStr s) = Inr s"
| "js_string (JArr xs) =
     bind_js (all_right (map (\<lambda>x. if x = JUndef \<or> x = JNull then Inr [] else js_string x) xs))
       (\<lambda>ws. Inr (str_join '','' ws))"
| "js_string (JObj kvs) = (if ''toString'' \<in> fst ` set kvs then Inl TypeError else Inr ''[object Object]'')"

subsection \<open>\<open>Number(x)\<close>\<close>

definition radix_digit :: "nat \<Rightarrow> char \<Rightarrow> bool" where
  "radix_digit b c \<longleftrightarrow> (case hex_value c of Some d \<Rightarrow> d < b | None \<Rightarrow> False)"

definition radix_value :: "nat \<Rightarrow> string \<Rightarrow> jsnum" where
  "radix_value b ds =
     (if ds \<noteq> [] \<and> list_all (radix_digit b) ds
      then Fin (of_nat (foldl (\<lambda>n c. b * n + (case hex_value c of Some d \<Rightarrow> d | None \<Rightarrow> 0)) 0 ds)) else NaN)"

definition str_decimal :: "bool \<Rightarrow> string \<Rightarrow> jsnum" where
  "str_decimal neg s =
     (if s = ''Infinity'' then (if neg then NegInf else PosInf)
      else case span_digits s of (ds, s2) \<Rightarrow>
        (case (case s2 of c # r \<Rightarrow> if c = CHR ''.'' then span_digits r else ([], s2) | [] \<Rightarrow> ([], s2)) of (fs, s3) \<Rightarrow>
          (case lex_exponent s3 of
             Some (e, t) \<Rightarrow> if t = [] \<and> ds @ fs \<noteq> [] then to_double (decimal_value neg ds fs e) else NaN
           | None \<Rightarrow> NaN)))"

definition str_number :: "string \<Rightarrow> jsnum" where
  "str_number s =
     (let t = trim s
      in if t = [] then Fin 0
         else if starts_with t ''0x'' \<or> starts_with t ''0X'' then radix_value 16 (drop 2 t)
         else if starts_with t ''0o'' \<or> starts_with t ''0O'' then radix_value 8 (drop 2 t)
         else if starts_with t ''0b'' \<or> starts_with t ''0B'' then radix_value 2 (drop 2 t)
         else if hd t = CHR ''-'' then str_decimal True (tl t)
         else if hd t = CHR ''+'' then str_decimal False (tl t)
         else str_decimal False t)"

definition js_number :: "jsv \<Rightarrow> js_error + jsnum" where
  "js_number v =
     (case v of
        JUndef \<Rightarrow> Inr NaN
      | JNull \<Rightarrow> Inr (Fin 0)
      | JBool b \<Rightarrow> Inr (Fin (if b then 1 else 0))
      | JNum n \<Rightarrow> Inr n
      | JStr s \<Rightarrow> Inr (str_number s)
      | JArr xs \<Rightarrow> bind_js (js_string v) (\<lambda>s. Inr (str_number s))
      | JObj kvs \<Rightarrow> bind_js (js_string v) (\<lambda>s. Inr NaN))"

subsection \<open>When they do not throw\<close>

text \<open>A value whose conversion does not throw: no object in it, below arrays, has its own \<open>toString\<close>.\<close>

fun convertible :: "jsv \<Rightarrow> bool" where
  "convertible (JArr xs) = (\<forall>x \<in> set xs. convertible x)"
| "convertible (JObj kvs) = (''toString'' \<notin> fst ` set kvs)"
| "convertible _ = True"

lemma all_right_Inr: "(\<forall>m \<in> set ms. \<exists>x. m = Inr x) \<longleftrightarrow> (\<exists>xs. all_right ms = Inr xs)"
proof (induction ms)
  case (Cons m ms)
  then show ?case by (cases m) (auto simp: bind_js_Inr_iff)
qed simp

lemma js_string_total: "convertible v \<longleftrightarrow> (\<exists>s. js_string v = Inr s)"
proof (induction v)
  case (JArr xs)
  have "(\<exists>s. (if x = JUndef \<or> x = JNull then Inr [] else js_string x) = Inr s) = convertible x"
    if "x \<in> set xs" for x
    using JArr [OF that] by auto
  then have "convertible (JArr xs) \<longleftrightarrow>
      (\<forall>m \<in> set (map (\<lambda>x. if x = JUndef \<or> x = JNull then Inr [] else js_string x) xs). \<exists>s. m = Inr s)"
    by (simp only: convertible.simps set_map ball_simps) blast
  then show ?case unfolding all_right_Inr by (auto simp: bind_js_Inr_iff)
qed auto

lemma js_number_total: "convertible v \<longleftrightarrow> (\<exists>n. js_number v = Inr n)"
  using js_string_total [of v] by (cases v) (auto simp: js_number_def bind_js_Inr_iff)

lemma js_number_num [simp]: "js_number (JNum n) = Inr n"
  by (simp add: js_number_def)

subsection \<open>Sums, products and alternatives\<close>

fun js_plus :: "jsnum \<Rightarrow> jsnum \<Rightarrow> jsnum" where
  "js_plus (Fin a) (Fin b) = Fin (a + b)"
| "js_plus NaN _ = NaN"
| "js_plus _ NaN = NaN"
| "js_plus PosInf NegInf = NaN"
| "js_plus NegInf PosInf = NaN"
| "js_plus PosInf _ = PosInf"
| "js_plus NegInf _ = NegInf"
| "js_plus _ n = n"

text \<open>The product with a positive constant.\<close>

fun js_scale :: "rat \<Rightarrow> jsnum \<Rightarrow> jsnum" where
  "js_scale q (Fin a) = Fin (q * a)"
| "js_scale q n = n"

text \<open>\<open>a || b || c\<close>.\<close>

definition first_truthy :: "jsv list \<Rightarrow> jsv" where
  "first_truthy vs = (case filter truthy vs of [] \<Rightarrow> last vs | v # _ \<Rightarrow> v)"

lemma first_truthy_convertible: "list_all convertible vs \<Longrightarrow> vs \<noteq> [] \<Longrightarrow> convertible (first_truthy vs)"
proof (cases "filter truthy vs")
  case (Cons v ws)
  then have "v \<in> set vs" by (metis filter_is_subset list.set_intros(1) subsetD)
  then show "list_all convertible vs \<Longrightarrow> ?thesis" by (simp add: first_truthy_def Cons list_all_iff)
qed (simp add: first_truthy_def list_all_iff)

end
