(* ===== verification/Adapter.thy ===== *)
theory Adapter
  imports Upstreams JsConvert
begin

text \<open>
  What the Anthropic adapter (\<open>enclave/src/anthropic.mjs\<close>) and the Responses adapter
  (\<open>enclave/src/bedrock.mjs\<close>) share: the two ways out of a translation, a skip that lets the next
  candidate serve the request and an exception, the shape of a function tool or call, and the
  image data URIs both admit.
\<close>

subsection \<open>Ways out\<close>

datatype fault = Raises js_error | Skips skip

definition refuse :: "string \<Rightarrow> string \<Rightarrow> fault + 'a" where
  "refuse reason field = Inl (Skips (Skip reason (if field = [] then None else Some field)))"

definition raising :: "js_error + 'a \<Rightarrow> fault + 'a" where
  "raising m = map_sum Raises id m"

definition function_shape :: "jsv \<Rightarrow> bool" where
  "function_shape t \<longleftrightarrow> fld ''type'' t = JStr ''function'' \<and> is_str (fld ''name'' (fld ''function'' t))"

text \<open>The regular expression of an image data URI: the media type and the data it captures.\<close>

definition anthropic_image :: "string \<Rightarrow> (string \<times> string) option" where
  "anthropic_image url =
     (case List.find (\<lambda>m. starts_with url (''data:image/'' @ m @ '';base64,'')) [''png'', ''jpeg'', ''webp''] of
        None \<Rightarrow> None
      | Some m \<Rightarrow>
          (let data = drop (length (''data:image/'' @ m @ '';base64,'')) url
           in if data \<noteq> [] \<and> list_all (\<lambda>c. is_base64_char c \<or> c = CHR ''='') data
              then Some (''image/'' @ m, data) else None))"

definition fault_built :: "fault \<Rightarrow> js_error + built" where
  "fault_built f = (case f of Raises e \<Rightarrow> Inl e | Skips s \<Rightarrow> Inr (Skipped s))"

lemma raising_Inr [simp]: "raising m = Inr x \<longleftrightarrow> m = Inr x"
  by (cases m) (simp_all add: raising_def)

text \<open>What an identifier becomes: \<open>String(x ?? '')\<close>.\<close>

definition id_text :: "jsv \<Rightarrow> jsv" where
  "id_text v = (case js_string (nullish v (JStr [])) of Inr s \<Rightarrow> JStr s | Inl e \<Rightarrow> JUndef)"

subsection \<open>Translations that do not throw\<close>

definition never_raises :: "fault + 'a \<Rightarrow> bool" where
  "never_raises m \<longleftrightarrow> (\<forall>e. m \<noteq> Inl (Raises e))"

lemma never_raises_bind:
  "never_raises m \<Longrightarrow> (\<And>a. m = Inr a \<Longrightarrow> never_raises (f a)) \<Longrightarrow> never_raises (bind_js m f)"
  by (cases m) (auto simp: never_raises_def)

lemma never_raises_simps [simp]:
  "never_raises (Inr a)" "never_raises (Inl (Skips s))" "never_raises (refuse r k)"
  by (simp_all add: never_raises_def refuse_def)

lemma never_raises_string: "convertible (nullish v (JStr [])) \<Longrightarrow> never_raises (raising (js_string (nullish v (JStr []))))"
  using js_string_total [of "nullish v (JStr [])"] by (auto simp: raising_def)

end
