(* ===== verification/AnthropicRequest.thy ===== *)
theory AnthropicRequest
  imports Adapter CacheMarks
begin

text \<open>
  The request half of \<open>enclave/src/anthropic.mjs\<close>: \<open>toMessagesRequest\<close>, which translates a projected
  chat body into a body for \<open>/v1/messages\<close>, and \<open>buildAnthropicRequest\<close>, which runs the gate and the
  projection first.
\<close>

subsection \<open>Tables\<close>

definition unmappable :: "string \<Rightarrow> fault + 'a" where
  "unmappable field = refuse ''anthropic_unmappable_field'' field"

definition anthropic_mappable_fields :: "string list" where
  "anthropic_mappable_fields =
     [''model'', ''messages'', ''stream'', ''stream_options'', ''temperature'', ''top_p'', ''top_k'',
      ''max_tokens'', ''max_completion_tokens'', ''stop'', ''tools'', ''tool_choice'',
      ''parallel_tool_calls'', ''service_tier'', ''user'', ''reasoning_effort'', ''cache_control'']"

definition default_max_tokens :: rat where "default_max_tokens = 8192"
definition min_thinking_budget :: rat where "min_thinking_budget = 1024"
definition answer_headroom_tokens :: rat where "answer_headroom_tokens = 2048"
definition max_anthropic_image_decoded_bytes :: rat where "max_anthropic_image_decoded_bytes = 5 * 1024 * 1024"
definition max_cache_marks :: nat where "max_cache_marks = 4"

definition thinking_budgets :: "(string \<times> rat) list" where
  "thinking_budgets = [(''low'', 1024), (''medium'', 4096), (''high'', 16384)]"

definition adaptive_only_thinking :: "string list" where
  "adaptive_only_thinking =
     [''claude-fable-5'', ''claude-fable-5-1'', ''claude-opus-5-5'', ''claude-sonnet-5-5'', ''claude-haiku-5-5'',
      ''claude-opus-5'', ''claude-opus-4-8'', ''claude-opus-4-7'', ''claude-sonnet-5'']"

definition anthropic_service_tiers :: "string list" where
  "anthropic_service_tiers = [''auto'', ''standard_only'']"

definition effort_for_budget :: "rat \<Rightarrow> string" where
  "effort_for_budget b =
     (if b \<le> 2048 then ''low'' else if b \<le> 8192 then ''medium'' else if b \<le> 32768 then ''high'' else ''xhigh'')"

subsection \<open>Content\<close>

definition text_block :: "string \<Rightarrow> jsv" where
  "text_block s = JObj [(''type'', JStr ''text''), (''text'', JStr s)]"

definition image_block :: "string \<Rightarrow> string \<Rightarrow> jsv" where
  "image_block media data =
     JObj [(''type'', JStr ''image''),
           (''source'', JObj [(''type'', JStr ''base64''), (''media_type'', JStr media), (''data'', JStr data)])]"

definition marked_text :: "string \<Rightarrow> jsv \<Rightarrow> jsv" where
  "marked_text s mark =
     (if mark \<noteq> JUndef \<and> is_ephemeral_cache_control mark \<and> trim s \<noteq> []
      then set_fld ''cache_control'' mark (text_block s) else text_block s)"

definition part_to_blocks :: "jsv \<Rightarrow> jsv list option" where
  "part_to_blocks part =
     (if fld ''type'' part = JStr ''text'' \<and> is_str (fld ''text'' part) then
        (let s = str_of (fld ''text'' part)
         in Some (if s = [] then [] else [marked_text s (fld ''cache_control'' part)]))
      else if fld ''type'' part = JStr ''image_url'' \<and> is_str (image_url_of part) then
        (case anthropic_image (str_of (image_url_of part)) of
           None \<Rightarrow> None
         | Some (media, data) \<Rightarrow>
             if is_canonical_base64 data \<and> base64_decoded_bytes data \<le> max_anthropic_image_decoded_bytes
             then Some [image_block media data] else None)
      else if is_droppable_reasoning_part part then Some []
      else None)"

fun parts_to_blocks :: "jsv list \<Rightarrow> jsv list option" where
  "parts_to_blocks [] = Some []"
| "parts_to_blocks (p # ps) =
     (case part_to_blocks p of
        None \<Rightarrow> None
      | Some bs \<Rightarrow> map_option (\<lambda>rest. bs @ rest) (parts_to_blocks ps))"

definition content_to_blocks :: "jsv \<Rightarrow> jsv list option" where
  "content_to_blocks content =
     (case content of
        JStr s \<Rightarrow> Some (if s = [] then [] else [text_block s])
      | JArr ps \<Rightarrow> parts_to_blocks ps
      | JNull \<Rightarrow> Some []
      | JUndef \<Rightarrow> Some []
      | _ \<Rightarrow> None)"

text \<open>A mark on the message goes to its last block.\<close>

definition mark_last :: "jsv \<Rightarrow> jsv list \<Rightarrow> jsv list" where
  "mark_last mark blocks =
     (if mark \<noteq> JUndef \<and> blocks \<noteq> []
      then butlast blocks @ [set_fld ''cache_control'' mark (last blocks)] else blocks)"

subsection \<open>Turns\<close>

text \<open>The arguments of a call as the input object.\<close>

definition tool_input :: "jsv \<Rightarrow> jsv option" where
  "tool_input args =
     (case args of
        JUndef \<Rightarrow> Some (JObj [])
      | JStr s \<Rightarrow>
          if trim s = [] then Some (JObj [])
          else (case json_parse s of Some v \<Rightarrow> if is_obj v then Some v else None | None \<Rightarrow> None)
      | _ \<Rightarrow> None)"

definition tool_use_block :: "jsv \<Rightarrow> fault + jsv" where
  "tool_use_block call =
     (if \<not> function_shape call then unmappable ''messages.tool_calls''
      else case tool_input (fld ''arguments'' (fld ''function'' call)) of
        None \<Rightarrow> unmappable ''messages.tool_calls''
      | Some input \<Rightarrow>
          bind_js (raising (js_string (nullish (fld ''id'' call) (JStr [])))) (\<lambda>ident.
            Inr (JObj [(''type'', JStr ''tool_use''), (''id'', JStr ident),
                       (''name'', fld ''name'' (fld ''function'' call)), (''input'', input)])))"

fun tool_use_blocks :: "jsv list \<Rightarrow> fault + jsv list" where
  "tool_use_blocks [] = Inr []"
| "tool_use_blocks (c # cs) =
     bind_js (tool_use_block c) (\<lambda>b. bind_js (tool_use_blocks cs) (\<lambda>bs. Inr (b # bs)))"

definition blocks_of :: "jsv \<Rightarrow> fault + jsv list" where
  "blocks_of message =
     (case content_to_blocks (fld ''content'' message) of
        None \<Rightarrow> unmappable ''messages.content'' | Some bs \<Rightarrow> Inr bs)"

definition plain_turn :: "jsv \<Rightarrow> fault + jsv list" where
  "plain_turn message =
     bind_js (blocks_of message) (\<lambda>blocks.
       bind_js (if fld ''role'' message = JStr ''assistant'' then tool_use_blocks (elems (fld ''tool_calls'' message))
                else Inr [])
         (\<lambda>calls. Inr (mark_last (fld ''cache_control'' message) (blocks @ calls))))"

definition last_mark :: "jsv list \<Rightarrow> jsv" where
  "last_mark blocks = (case List.find has_mark (rev blocks) of Some b \<Rightarrow> fld ''cache_control'' b | None \<Rightarrow> JUndef)"

definition tool_turn :: "jsv \<Rightarrow> fault + jsv list" where
  "tool_turn message =
     bind_js (blocks_of message) (\<lambda>blocks.
       bind_js (raising (js_string (nullish (fld ''tool_call_id'' message) (JStr [])))) (\<lambda>ident.
         (let mark = (if fld ''cache_control'' message \<noteq> JUndef then fld ''cache_control'' message else last_mark blocks);
              inner = map (del_fld ''cache_control'') blocks
          in Inr [JObj ([(''type'', JStr ''tool_result''), (''tool_use_id'', JStr ident),
                         (''content'', JArr (if inner \<noteq> [] then inner else [text_block []]))]
                        @ (if mark \<noteq> JUndef then [(''cache_control'', mark)] else []))])))"

type_synonym turn = "string \<times> jsv list"

text \<open>The loop over the messages: whether only system messages have come, the system blocks, the turns.\<close>

fun translate_messages :: "bool \<Rightarrow> jsv list \<Rightarrow> turn list \<Rightarrow> jsv list \<Rightarrow> fault + jsv list \<times> turn list" where
  "translate_messages leading system turns [] = Inr (system, turns)"
| "translate_messages leading system turns (m # ms) =
     (let role = fld ''role'' m
      in if role = JStr ''system'' \<or> role = JStr ''developer'' then
           (if \<not> leading then unmappable ''messages.system''
            else bind_js (blocks_of m) (\<lambda>blocks.
              translate_messages leading (system @ mark_last (fld ''cache_control'' m) blocks) turns ms))
         else if role = JStr ''user'' \<or> role = JStr ''assistant'' then
           bind_js (plain_turn m) (\<lambda>blocks.
             translate_messages False system (turns @ [(str_of role, blocks)]) ms)
         else if role = JStr ''tool'' then
           bind_js (tool_turn m) (\<lambda>blocks. translate_messages False system (turns @ [(''user'', blocks)]) ms)
         else unmappable ''messages.role'')"

fun merge_turns :: "turn list \<Rightarrow> turn list \<Rightarrow> turn list" where
  "merge_turns done [] = done"
| "merge_turns done ((role, blocks) # ts) =
     (if blocks = [] then merge_turns done ts
      else if done \<noteq> [] \<and> fst (last done) = role
        then merge_turns (butlast done @ [(role, snd (last done) @ blocks)]) ts
      else merge_turns (done @ [(role, blocks)]) ts)"

subsection \<open>Cache marks\<close>

definition count_marks :: "jsv list \<Rightarrow> nat" where
  "count_marks blocks = length (filter has_mark blocks)"

text \<open>Without the marks of all marked blocks past the first \<open>n\<close>; without those of the first \<open>n\<close>.\<close>

fun keep_first_marks :: "nat \<Rightarrow> jsv list \<Rightarrow> jsv list" where
  "keep_first_marks n [] = []"
| "keep_first_marks n (b # bs) =
     (if has_mark b
      then (if n = 0 then del_fld ''cache_control'' b # keep_first_marks 0 bs else b # keep_first_marks (n - 1) bs)
      else b # keep_first_marks n bs)"

fun drop_first_marks :: "nat \<Rightarrow> jsv list \<Rightarrow> jsv list" where
  "drop_first_marks n [] = []"
| "drop_first_marks n (b # bs) =
     (if has_mark b \<and> n \<noteq> 0 then del_fld ''cache_control'' b # drop_first_marks (n - 1) bs
      else b # drop_first_marks n bs)"

fun drop_turn_marks :: "nat \<Rightarrow> turn list \<Rightarrow> turn list" where
  "drop_turn_marks n [] = []"
| "drop_turn_marks n ((role, blocks) # ts) =
     (role, drop_first_marks n blocks) # drop_turn_marks (n - count_marks blocks) ts"

definition cap_marks :: "jsv list \<Rightarrow> turn list \<Rightarrow> jsv list \<times> turn list" where
  "cap_marks system turns =
     (let sm = count_marks system; tm = count_marks (concat (map snd turns))
      in if max_cache_marks < sm + tm
         then (keep_first_marks max_cache_marks system, drop_turn_marks (tm - (max_cache_marks - sm)) turns)
         else (system, turns))"

definition turn_message :: "turn \<Rightarrow> jsv" where
  "turn_message t = JObj [(''role'', JStr (fst t)), (''content'', JArr (snd t))]"

definition marked_messages :: "jsv list \<Rightarrow> turn list \<Rightarrow> jsv list" where
  "marked_messages system turns =
     (let messages = map turn_message (snd (cap_marks system turns))
      in if count_marks system = 0 then add_cache_prompt_marks messages else messages)"

subsection \<open>The rest of the body\<close>

definition asked_length :: "jsv \<Rightarrow> jsv" where
  "asked_length p = nullish (fld ''max_completion_tokens'' p) (fld ''max_tokens'' p)"

text \<open>The budget that the length leaves; zero where the code's arithmetic gives no positive number.\<close>

definition room_for_thinking :: "rat \<Rightarrow> jsv \<Rightarrow> rat" where
  "room_for_thinking wanted len =
     (case len of
        JNum n \<Rightarrow> (case n of Fin q \<Rightarrow> min wanted (q - answer_headroom_tokens) | PosInf \<Rightarrow> wanted | _ \<Rightarrow> 0)
      | _ \<Rightarrow> wanted)"

text \<open>The thinking budget and the output cap.\<close>

definition thinking_choice :: "string \<Rightarrow> jsv \<Rightarrow> rat \<times> jsv" where
  "thinking_choice effort len =
     (case map_of thinking_budgets (if effort = ''minimal'' then ''low'' else effort) of
        None \<Rightarrow> (0, if is_num len then len else JNum (Fin default_max_tokens))
      | Some wanted \<Rightarrow>
          (let budget = room_for_thinking wanted len
           in (if budget < min_thinking_budget then 0 else budget,
               if is_num len then len
               else JNum (Fin (max default_max_tokens (wanted + answer_headroom_tokens))))))"

definition thinking_plan :: "jsv \<Rightarrow> fault + rat \<times> jsv" where
  "thinking_plan p =
     bind_js (raising (js_string (nullish (fld ''reasoning_effort'' p) (JStr [])))) (\<lambda>effort.
       Inr (thinking_choice (lower effort) (asked_length p)))"

definition number_field :: "string \<Rightarrow> jsv \<Rightarrow> js_fields" where
  "number_field k p = (if is_num (fld k p) then [(k, fld k p)] else [])"

definition thinking_fields :: "rat \<Rightarrow> jsv \<Rightarrow> js_fields" where
  "thinking_fields budget p =
     (if 0 < budget then
        (if str_in adaptive_only_thinking (fld ''model'' p)
         then [(''thinking'', JObj [(''type'', JStr ''adaptive'')]),
               (''output_config'', JObj [(''effort'', JStr (effort_for_budget budget))])]
         else [(''thinking'', JObj [(''type'', JStr ''enabled''), (''budget_tokens'', JNum (Fin budget))])])
      else number_field ''temperature'' p @ number_field ''top_p'' p @ number_field ''top_k'' p)"

definition stop_fields :: "jsv \<Rightarrow> fault + js_fields" where
  "stop_fields p =
     (case fld ''stop'' p of
        JUndef \<Rightarrow> Inr []
      | JStr s \<Rightarrow> Inr [(''stop_sequences'', JArr [JStr s])]
      | JArr ss \<Rightarrow>
          if list_all is_str ss then Inr (if ss = [] then [] else [(''stop_sequences'', JArr ss)])
          else unmappable ''stop''
      | _ \<Rightarrow> unmappable ''stop'')"

definition tier_fields :: "jsv \<Rightarrow> fault + js_fields" where
  "tier_fields p =
     (let tier = fld ''service_tier'' p
      in if tier = JUndef then Inr []
         else if str_in anthropic_service_tiers tier then Inr [(''service_tier'', tier)]
         else unmappable ''service_tier'')"

definition tool_spec :: "jsv \<Rightarrow> jsv" where
  "tool_spec t =
     (let f = fld ''function'' t; d = fld ''description'' f
      in JObj ([(''name'', fld ''name'' f),
                (''input_schema'', nullish (fld ''parameters'' f) (JObj [(''type'', JStr ''object'')]))]
               @ (if is_str d \<and> d \<noteq> JStr [] then [(''description'', d)] else [])))"

definition choice_of :: "jsv \<Rightarrow> (js_fields) option" where
  "choice_of choice =
     (if choice = JUndef \<or> choice = JStr ''auto'' then Some [(''type'', JStr ''auto'')]
      else if choice = JStr ''required'' then Some [(''type'', JStr ''any'')]
      else if function_shape choice
        then Some [(''type'', JStr ''tool''), (''name'', fld ''name'' (fld ''function'' choice))]
      else None)"

definition parallel_fields :: "jsv \<Rightarrow> fault + js_fields" where
  "parallel_fields p =
     (case fld ''parallel_tool_calls'' p of
        JUndef \<Rightarrow> Inr []
      | JBool b \<Rightarrow> Inr (if b then [] else [(''disable_parallel_tool_use'', JTrue)])
      | _ \<Rightarrow> unmappable ''parallel_tool_calls'')"

definition tools_fields :: "jsv \<Rightarrow> fault + js_fields" where
  "tools_fields p =
     (let tools = elems (fld ''tools'' p); choice = fld ''tool_choice'' p
      in if tools = [] \<or> choice = JStr ''none'' then Inr []
         else if \<not> list_all function_shape tools then unmappable ''tools''
         else (case choice_of choice of
             None \<Rightarrow> unmappable ''tool_choice''
           | Some c \<Rightarrow>
               bind_js (parallel_fields p) (\<lambda>par.
                 Inr [(''tools'', JArr (map tool_spec tools)), (''tool_choice'', JObj (c @ par))])))"

definition first_unmappable :: "jsv \<Rightarrow> string option" where
  "first_unmappable p = List.find (\<lambda>k. \<not> List.member anthropic_mappable_fields k) (obj_keys p)"

definition translated_turns :: "jsv \<Rightarrow> fault + jsv list \<times> turn list" where
  "translated_turns p =
     bind_js (translate_messages True [] [] (elems (fld ''messages'' p))) (\<lambda>(system, turns).
       (let messages = merge_turns [] turns
        in if messages = [] \<or> fst (hd messages) \<noteq> ''user'' then unmappable ''messages''
           else Inr (system, messages)))"

definition messages_body ::
    "jsv \<Rightarrow> jsv list \<times> turn list \<Rightarrow> rat \<times> jsv \<Rightarrow> js_fields \<Rightarrow> jsv" where
  "messages_body p conversation plan rest =
     (case conversation of (system, turns) \<Rightarrow>
        JObj ([(''model'', fld ''model'' p), (''messages'', JArr (marked_messages system turns)),
               (''max_tokens'', snd plan), (''stream'', JTrue)]
          @ (if system \<noteq> [] then [(''system'', JArr (fst (cap_marks system turns)))] else [])
          @ thinking_fields (fst plan) p @ rest))"

definition to_messages_request :: "jsv \<Rightarrow> fault + jsv" where
  "to_messages_request p =
     (case first_unmappable p of
        Some k \<Rightarrow> unmappable k
      | None \<Rightarrow>
          if fld ''stream'' p \<noteq> JTrue then Inl (Skips (Skip ''anthropic_stream_only'' None))
          else bind_js (translated_turns p) (\<lambda>conversation.
            bind_js (thinking_plan p) (\<lambda>plan.
              bind_js (stop_fields p) (\<lambda>stops.
                bind_js (tier_fields p) (\<lambda>tier.
                  bind_js (tools_fields p) (\<lambda>tools.
                    Inr (messages_body p conversation plan (stops @ tier @ tools))))))))"

subsection \<open>The builder\<close>

definition build_anthropic_request ::
    "jsv \<Rightarrow> jsv \<Rightarrow> (string \<rightharpoonup> nat) \<Rightarrow> (string \<rightharpoonup> string) \<Rightarrow> js_error + built" where
  "build_anthropic_request c payload ports keys =
     (let port = (case lookup_key ports (fld ''host'' c) of Some p \<Rightarrow> p | None \<Rightarrow> 0);
          key = candidate_key keys c; row = candidate_to_row c
      in if port = 0 \<or> key = [] then Inr (Skipped (Skip ''no_tunnel_or_key'' None))
         else bind_js (evaluate_direct_eligibility payload ''/chat/completions'' [] (Some row)) (\<lambda>v.
           case refusal_of v of
             Some s \<Rightarrow> Inr (Skipped s)
           | None \<Rightarrow>
               (case to_messages_request (project_allowed_fields ChatDialect payload row) of
                  Inl f \<Rightarrow> fault_built f
                | Inr body \<Rightarrow>
                    Inr (Built \<lparr>sp_direct = True, sp_provider = fld ''provider'' c, sp_host = fld ''host'' c,
                      sp_path = fld ''path'' c, sp_port = port, sp_key = key, sp_affinity = None,
                      sp_style = ''anthropic'', sp_body = body\<rparr>))))"

subsection \<open>What a conversation says\<close>

text \<open>The contents of a conversation in order: texts and images with the role that brings them, tool calls
  and the answers to them. Both sides are read: a source message, and a translated block.\<close>

datatype said = Said string string | Shown string jsv jsv | Called jsv jsv jsv | Answered jsv

definition part_said :: "string \<Rightarrow> jsv \<Rightarrow> said list" where
  "part_said role p =
     (if fld ''type'' p = JStr ''text'' \<and> is_str (fld ''text'' p)
      then (if fld ''text'' p = JStr [] then [] else [Said role (str_of (fld ''text'' p))])
      else if fld ''type'' p = JStr ''image_url''
        then (case anthropic_image (str_of (image_url_of p)) of
            Some (media, data) \<Rightarrow> [Shown role (JStr media) (JStr data)] | None \<Rightarrow> [])
      else [])"

definition content_said :: "string \<Rightarrow> jsv \<Rightarrow> said list" where
  "content_said role c =
     (case c of
        JStr s \<Rightarrow> if s = [] then [] else [Said role s]
      | JArr ps \<Rightarrow> concat (map (part_said role) ps)
      | _ \<Rightarrow> [])"

definition call_said :: "jsv \<Rightarrow> said" where
  "call_said c =
     Called (id_text (fld ''id'' c)) (fld ''name'' (fld ''function'' c))
       (case tool_input (fld ''arguments'' (fld ''function'' c)) of Some v \<Rightarrow> v | None \<Rightarrow> JUndef)"

definition message_said :: "jsv \<Rightarrow> said list" where
  "message_said m =
     (let role = str_of (fld ''role'' m); content = fld ''content'' m
      in if role = ''tool'' then Answered (id_text (fld ''tool_call_id'' m)) # content_said ''user'' content
         else if role = ''assistant'' then content_said role content @ map call_said (elems (fld ''tool_calls'' m))
         else content_said (if role = ''developer'' then ''system'' else role) content)"

definition leaf_said :: "string \<Rightarrow> jsv \<Rightarrow> said list" where
  "leaf_said role b =
     (if fld ''type'' b = JStr ''text''
      then (if fld ''text'' b = JStr [] then [] else [Said role (str_of (fld ''text'' b))])
      else if fld ''type'' b = JStr ''image''
        then [Shown role (fld ''media_type'' (fld ''source'' b)) (fld ''data'' (fld ''source'' b))]
      else [])"

definition block_said :: "string \<Rightarrow> jsv \<Rightarrow> said list" where
  "block_said role b =
     (if fld ''type'' b = JStr ''tool_use'' then [Called (fld ''id'' b) (fld ''name'' b) (fld ''input'' b)]
      else if fld ''type'' b = JStr ''tool_result''
        then Answered (fld ''tool_use_id'' b) # concat (map (leaf_said role) (elems (fld ''content'' b)))
      else leaf_said role b)"

definition blocks_said :: "string \<Rightarrow> jsv list \<Rightarrow> said list" where
  "blocks_said role bs = concat (map (block_said role) bs)"

definition turns_said :: "turn list \<Rightarrow> said list" where
  "turns_said ts = concat (map (\<lambda>(role, bs). blocks_said role bs) ts)"

definition body_said :: "jsv list \<Rightarrow> said list" where
  "body_said ms = concat (map (\<lambda>m. blocks_said (str_of (fld ''role'' m)) (elems (fld ''content'' m))) ms)"

lemma blocks_said_simps [simp]:
  "blocks_said r [] = []" "blocks_said r (b # bs) = block_said r b @ blocks_said r bs"
  "blocks_said r (bs @ cs) = blocks_said r bs @ blocks_said r cs"
  by (simp_all add: blocks_said_def)

lemma turns_said_simps [simp]:
  "turns_said [] = []" "turns_said ((r, bs) # ts) = blocks_said r bs @ turns_said ts"
  "turns_said (ts @ us) = turns_said ts @ turns_said us"
  by (simp_all add: turns_said_def)

subsection \<open>Blocks\<close>

definition leaf_ok :: "jsv \<Rightarrow> bool" where
  "leaf_ok b \<longleftrightarrow> is_obj b
     \<and> (fld ''type'' b = JStr ''text'' \<and> is_str (fld ''text'' b)
        \<or> fld ''type'' b = JStr ''image'' \<and> fld ''type'' (fld ''source'' b) = JStr ''base64'')"

text \<open>Two blocks that differ at most in their mark.\<close>

definition same_block :: "jsv \<Rightarrow> jsv \<Rightarrow> bool" where
  "same_block b c \<longleftrightarrow> is_obj b = is_obj c \<and> (\<forall>k. k \<noteq> ''cache_control'' \<longrightarrow> fld k b = fld k c)"

lemma same_block_refl [simp]: "same_block b b"
  by (simp add: same_block_def)

lemma same_block_set [simp]: "is_obj b \<Longrightarrow> same_block b (set_fld ''cache_control'' m b)"
  by (simp add: same_block_def fld_set_fld)

lemma same_block_del [simp]: "same_block b (del_fld ''cache_control'' b)"
  by (simp add: same_block_def fld_del_fld)

lemma same_leaf_ok: "same_block b c \<Longrightarrow> leaf_ok b = leaf_ok c"
  by (simp add: same_block_def leaf_ok_def)

lemma same_leaf_said: "same_block b c \<Longrightarrow> leaf_said r b = leaf_said r c"
  by (simp add: same_block_def leaf_said_def)

lemma same_block_said: "same_block b c \<Longrightarrow> block_said r b = block_said r c"
  using same_leaf_said [of b c r] by (simp add: same_block_def block_said_def)

lemma same_blocks_said: "list_all2 same_block bs cs \<Longrightarrow> blocks_said r bs = blocks_said r cs"
  by (induction rule: list_all2_induct) (simp_all add: same_block_said)

lemma same_leaves_said: "list_all2 same_block bs cs \<Longrightarrow> concat (map (leaf_said r) bs) = concat (map (leaf_said r) cs)"
  by (induction rule: list_all2_induct) (simp_all add: same_leaf_said)

lemma text_block_simps [simp]:
  "is_obj (text_block s)" "fld ''type'' (text_block s) = JStr ''text''" "fld ''text'' (text_block s) = JStr s"
  by (simp_all add: text_block_def)

lemma marked_text_same: "same_block (text_block s) (marked_text s m)"
  by (simp add: marked_text_def)

lemma image_block_simps [simp]:
  "is_obj (image_block m d)" "fld ''type'' (image_block m d) = JStr ''image''"
  "fld ''source'' (image_block m d) =
     JObj [(''type'', JStr ''base64''), (''media_type'', JStr m), (''data'', JStr d)]"
  by (simp_all add: image_block_def)

lemma part_blocks:
  assumes "part_to_blocks p = Some bs"
  shows "list_all leaf_ok bs \<and> concat (map (leaf_said r) bs) = part_said r p
    \<and> (\<forall>b \<in> set bs. fld ''type'' b = JStr ''text'' \<longrightarrow> fld ''text'' b \<noteq> JStr [])"
proof (cases "fld ''type'' p = JStr ''text'' \<and> is_str (fld ''text'' p)")
  case True
  then obtain s where s: "fld ''text'' p = JStr s" by (cases "fld ''text'' p") auto
  let ?b = "marked_text s (fld ''cache_control'' p)"
  have same: "same_block (text_block s) ?b" by (rule marked_text_same)
  then have "leaf_ok ?b" using same_leaf_ok [OF same] by (simp add: leaf_ok_def)
  moreover have "leaf_said r ?b = leaf_said r (text_block s)" using same_leaf_said [OF same] by simp
  moreover have "fld ''text'' ?b = JStr s" using same by (simp add: same_block_def flip: text_block_simps(3))
  ultimately show ?thesis
    using assms True s by (auto simp: part_to_blocks_def part_said_def leaf_said_def split: if_splits)
next
  case False
  then show ?thesis
    using assms
    by (auto simp: part_to_blocks_def part_said_def leaf_said_def leaf_ok_def is_droppable_reasoning_part_def
        reasoning_part_types_def str_in_def split: if_splits option.splits prod.splits)
qed

definition nonempty_text :: "jsv \<Rightarrow> bool" where
  "nonempty_text b \<longleftrightarrow> (fld ''type'' b = JStr ''text'' \<longrightarrow> fld ''text'' b \<noteq> JStr [])"

lemma same_nonempty: "same_block b c \<Longrightarrow> nonempty_text b = nonempty_text c"
  by (simp add: same_block_def nonempty_text_def)

lemma content_blocks_ok:
  assumes "content_to_blocks c = Some bs"
  shows "list_all (\<lambda>b. leaf_ok b \<and> nonempty_text b) bs \<and> concat (map (leaf_said r) bs) = content_said r c"
proof -
  have parts: "parts_to_blocks ps = Some bs \<Longrightarrow>
      list_all (\<lambda>b. leaf_ok b \<and> nonempty_text b) bs \<and> concat (map (leaf_said r) bs) = concat (map (part_said r) ps)"
    for ps bs
  proof (induction ps arbitrary: bs)
    case (Cons p ps)
    then obtain b1 b2 where "part_to_blocks p = Some b1" "parts_to_blocks ps = Some b2" "bs = b1 @ b2"
      by (auto split: option.splits)
    then show ?case
      using part_blocks [of p b1 r] Cons.IH [of b2] by (auto simp: list_all_iff nonempty_text_def)
  qed simp
  show ?thesis
    using assms parts
    by (auto simp: content_to_blocks_def content_said_def leaf_ok_def leaf_said_def nonempty_text_def
        split: jsv.splits if_splits)
qed

text \<open>A block of a turn.\<close>

definition block_ok :: "jsv \<Rightarrow> bool" where
  "block_ok b \<longleftrightarrow>
     leaf_ok b \<and> nonempty_text b
     \<or> is_obj b \<and> fld ''type'' b = JStr ''tool_use'' \<and> is_str (fld ''id'' b) \<and> is_str (fld ''name'' b)
         \<and> is_obj (fld ''input'' b)
     \<or> is_obj b \<and> fld ''type'' b = JStr ''tool_result'' \<and> is_str (fld ''tool_use_id'' b)
         \<and> elems (fld ''content'' b) \<noteq> [] \<and> list_all (\<lambda>x. leaf_ok x \<and> \<not> has_mark x) (elems (fld ''content'' b))"

lemma same_block_ok: "same_block b c \<Longrightarrow> block_ok b = block_ok c"
  using same_leaf_ok [of b c] same_nonempty [of b c] by (simp add: same_block_def block_ok_def)

lemma block_ok_obj: "block_ok b \<Longrightarrow> is_obj b"
  by (auto simp: block_ok_def leaf_ok_def)

lemma leaf_block: "leaf_ok b \<Longrightarrow> block_said r b = leaf_said r b"
  by (auto simp: leaf_ok_def block_said_def)

lemma leaves_said: "list_all (\<lambda>b. leaf_ok b \<and> nonempty_text b) bs \<Longrightarrow> blocks_said r bs = concat (map (leaf_said r) bs)"
  by (induction bs) (simp_all add: leaf_block)

lemma mark_last_same: "list_all is_obj bs \<Longrightarrow> list_all2 same_block bs (mark_last m bs)"
proof (cases "bs = []")
  case False
  assume "list_all is_obj bs"
  then have "is_obj (last bs)" using False by (simp add: list_all_iff)
  then have "list_all2 same_block (butlast bs @ [last bs]) (butlast bs @ [set_fld ''cache_control'' m (last bs)])"
    by (intro list_all2_appendI) (simp_all add: list_all2_refl)
  then show ?thesis using False by (simp add: mark_last_def list_all2_refl)
qed (simp add: mark_last_def)

lemma same_blocks_ok: "list_all2 same_block bs cs \<Longrightarrow> list_all block_ok bs = list_all block_ok cs"
  by (induction rule: list_all2_induct) (simp_all add: same_block_ok)

lemma mark_last_blocks:
  assumes "list_all block_ok bs"
  shows "list_all block_ok (mark_last m bs) \<and> blocks_said r (mark_last m bs) = blocks_said r bs
    \<and> (mark_last m bs = [] \<longleftrightarrow> bs = [])"
proof -
  have "list_all2 same_block bs (mark_last m bs)"
    using assms by (intro mark_last_same) (auto simp: list_all_iff block_ok_obj)
  then show ?thesis using assms same_blocks_ok same_blocks_said [of bs _ r] by (auto dest: list_all2_lengthD)
qed

lemma tool_use_ok:
  assumes "tool_use_block c = Inr b"
  shows "block_ok b \<and> block_said r b = [call_said c]"
  using assms
  by (auto simp: tool_use_block_def unmappable_def refuse_def bind_js_Inr_iff block_ok_def block_said_def call_said_def
      id_text_def function_shape_def tool_input_def split: if_splits option.splits jsv.splits)

lemma tool_uses_ok:
  "tool_use_blocks cs = Inr bs \<Longrightarrow> list_all block_ok bs \<and> blocks_said r bs = map call_said cs"
proof (induction cs arbitrary: bs)
  case (Cons c cs)
  then show ?case using tool_use_ok [where r = r] by (auto simp: bind_js_Inr_iff)
qed simp

lemma plain_turn_ok:
  assumes "plain_turn m = Inr bs" and "fld ''role'' m = JStr role" "role \<noteq> ''tool''" "role \<noteq> ''developer''"
  shows "list_all block_ok bs \<and> blocks_said role bs = message_said m"
proof -
  obtain b1 calls where parts: "content_to_blocks (fld ''content'' m) = Some b1"
    "(if role = ''assistant'' then tool_use_blocks (elems (fld ''tool_calls'' m)) else Inr []) = Inr calls"
    "bs = mark_last (fld ''cache_control'' m) (b1 @ calls)"
    using assms by (auto simp: plain_turn_def blocks_of_def unmappable_def refuse_def bind_js_Inr_iff split: option.splits)
  have "list_all block_ok b1 \<and> blocks_said role b1 = content_said role (fld ''content'' m)"
    using content_blocks_ok [OF parts(1), of role] leaves_said [of b1 role] by (auto simp: list_all_iff block_ok_def)
  moreover have "list_all block_ok calls \<and>
      blocks_said role calls = (if role = ''assistant'' then map call_said (elems (fld ''tool_calls'' m)) else [])"
    using parts(2) tool_uses_ok [of _ calls role] by (auto split: if_splits)
  ultimately show ?thesis
    using mark_last_blocks [of "b1 @ calls" "fld ''cache_control'' m" role] assms(2-4)
    by (auto simp: parts(3) message_said_def)
qed

lemma system_blocks_ok:
  assumes "blocks_of m = Inr bs" and "fld ''role'' m = JStr ''system'' \<or> fld ''role'' m = JStr ''developer''"
  shows "list_all block_ok (mark_last (fld ''cache_control'' m) bs)
    \<and> blocks_said ''system'' (mark_last (fld ''cache_control'' m) bs) = message_said m"
proof -
  have "content_to_blocks (fld ''content'' m) = Some bs"
    using assms(1) by (simp add: blocks_of_def unmappable_def refuse_def split: option.splits)
  then have "list_all block_ok bs \<and> blocks_said ''system'' bs = content_said ''system'' (fld ''content'' m)"
    using content_blocks_ok [of _ bs "''system''"] leaves_said [of bs "''system''"] by (auto simp: list_all_iff block_ok_def)
  then show ?thesis
    using mark_last_blocks [of bs "fld ''cache_control'' m" "''system''"] assms(2) by (auto simp: message_said_def)
qed

lemma tool_turn_ok:
  assumes "tool_turn m = Inr bs" and "fld ''role'' m = JStr ''tool''"
  shows "list_all block_ok bs \<and> blocks_said ''user'' bs = message_said m"
proof -
  obtain b1 ident where parts: "content_to_blocks (fld ''content'' m) = Some b1"
    "js_string (nullish (fld ''tool_call_id'' m) (JStr [])) = Inr ident"
    and bs: "bs = [JObj ([(''type'', JStr ''tool_result''), (''tool_use_id'', JStr ident),
        (''content'', JArr (if map (del_fld ''cache_control'') b1 \<noteq> [] then map (del_fld ''cache_control'') b1 else [text_block []]))]
        @ (if (if fld ''cache_control'' m \<noteq> JUndef then fld ''cache_control'' m else last_mark b1) \<noteq> JUndef
           then [(''cache_control'', if fld ''cache_control'' m \<noteq> JUndef then fld ''cache_control'' m else last_mark b1)] else []))]"
    using assms(1)
    by (auto simp: tool_turn_def blocks_of_def unmappable_def refuse_def bind_js_Inr_iff Let_def split: option.splits)
  have inner: "list_all (\<lambda>b. leaf_ok b \<and> nonempty_text b) b1"
    "concat (map (leaf_said ''user'') b1) = content_said ''user'' (fld ''content'' m)"
    using content_blocks_ok [OF parts(1), of "''user''"] by simp_all
  have "list_all (\<lambda>x. leaf_ok x \<and> \<not> has_mark x) (map (del_fld ''cache_control'') b1)"
    using inner(1) same_leaf_ok [OF same_block_del] by (auto simp: list_all_iff has_mark_def fld_del_fld)
  moreover have "leaf_ok (text_block [])" "\<not> has_mark (text_block [])"
    by (simp_all add: leaf_ok_def has_mark_def text_block_def)
  moreover have "concat (map (leaf_said ''user'') (map (del_fld ''cache_control'') b1)) = content_said ''user'' (fld ''content'' m)"
    using inner(2) same_leaves_said [of b1 "map (del_fld ''cache_control'') b1" "''user''"]
    by (simp add: list_all2_map2 list_all2_refl)
  moreover have "leaf_said ''user'' (text_block []) = []" by (simp add: leaf_said_def)
  ultimately show ?thesis
    using parts(2) assms(2) by (auto simp: bs block_ok_def block_said_def message_said_def id_text_def)
qed

subsection \<open>Turns and messages\<close>

definition is_system :: "jsv \<Rightarrow> bool" where
  "is_system m \<longleftrightarrow> fld ''role'' m = JStr ''system'' \<or> fld ''role'' m = JStr ''developer''"

definition turn_ok :: "turn \<Rightarrow> bool" where
  "turn_ok t \<longleftrightarrow> (fst t = ''user'' \<or> fst t = ''assistant'') \<and> list_all block_ok (snd t)"

lemma translate_ok:
  assumes "translate_messages leading system turns ms = Inr (system', turns')"
    and "list_all turn_ok turns" and "list_all block_ok system"
  shows "list_all turn_ok turns' \<and> list_all block_ok system'
    \<and> turns_said turns' = turns_said turns @ concat (map message_said (filter (\<lambda>m. \<not> is_system m) ms))
    \<and> blocks_said ''system'' system' = blocks_said ''system'' system @ concat (map message_said (filter is_system ms))
    \<and> filter is_system ms = takeWhile is_system ms \<and> (leading \<or> filter is_system ms = [])"
  using assms
proof (induction leading system turns ms rule: translate_messages.induct)
  case (1 leading system turns)
  then show ?case by auto
next
  case (2 leading system turns m ms)
  let ?role = "fld ''role'' m"
  consider (system) "is_system m" | (plain) "?role = JStr ''user'' \<or> ?role = JStr ''assistant''"
    | (tool) "?role = JStr ''tool''"
    | (other) "\<not> is_system m" "?role \<noteq> JStr ''user''" "?role \<noteq> JStr ''assistant''" "?role \<noteq> JStr ''tool''"
    by blast
  then show ?case
  proof cases
    case system
    note role = system [unfolded is_system_def]
    from system 2(4) obtain bs where bs: "leading" "blocks_of m = Inr bs"
      "translate_messages leading (system @ mark_last (fld ''cache_control'' m) bs) turns ms = Inr (system', turns')"
      by (auto simp: is_system_def unmappable_def refuse_def bind_js_Inr_iff split: if_splits)
    have b: "list_all block_ok (mark_last (fld ''cache_control'' m) bs)"
      "blocks_said ''system'' (mark_last (fld ''cache_control'' m) bs) = message_said m"
      using system_blocks_ok [OF bs(2) role] by simp_all
    show ?thesis using 2(1) [OF refl _ _ bs(3)] role bs(1) b 2(5,6) system by simp
  next
    case plain
    then obtain role where role: "?role = JStr role" "role = ''user'' \<or> role = ''assistant''" by auto
    have sys: "\<not> is_system m" using plain by (auto simp: is_system_def)
    from plain sys 2(4) obtain bs where bs: "plain_turn m = Inr bs"
      "translate_messages False system (turns @ [(role, bs)]) ms = Inr (system', turns')"
      using role by (auto simp: is_system_def bind_js_Inr_iff)
    have b: "list_all block_ok bs" "blocks_said role bs = message_said m"
      using plain_turn_ok [OF bs(1) role(1)] role(2) by auto
    have "list_all turn_ok (turns @ [(role, bs)])" using 2(5) b(1) role(2) by (auto simp: turn_ok_def [of "(role, bs)"])
    note IH = 2(2) [OF refl sys [unfolded is_system_def] plain, unfolded role(1) str_of.simps, OF bs(2) this 2(6)]
    show ?thesis using IH sys b(2) by (simp del: takeWhile_eq_Nil_iff) auto
  next
    case tool
    then have sys: "\<not> is_system m" by (auto simp: is_system_def)
    from tool sys 2(4) obtain bs where bs: "tool_turn m = Inr bs"
      "translate_messages False system (turns @ [(''user'', bs)]) ms = Inr (system', turns')"
      by (auto simp: is_system_def bind_js_Inr_iff)
    have b: "list_all block_ok bs" "blocks_said ''user'' bs = message_said m"
      using tool_turn_ok [OF bs(1) tool] by auto
    have "list_all turn_ok (turns @ [(''user'', bs)])" using 2(5) b(1) by (auto simp: turn_ok_def [of "(''user'', bs)"])
    note IH = 2(3) [OF refl sys [unfolded is_system_def] _ tool bs(2) this 2(6)]
    have "\<not> (?role = JStr ''user'' \<or> ?role = JStr ''assistant'')" using tool by simp
    then show ?thesis using IH sys b(2) by (simp del: takeWhile_eq_Nil_iff) auto
  next
    case other
    then show ?thesis using 2(4) by (auto simp: is_system_def unmappable_def refuse_def)
  qed
qed

text \<open>Merged turns alternate and none is empty.\<close>

definition alternating :: "turn list \<Rightarrow> bool" where
  "alternating ts \<longleftrightarrow> successively (\<lambda>a b. fst a \<noteq> fst b) ts \<and> list_all (\<lambda>t. snd t \<noteq> []) ts"

lemma successively_snoc:
  "successively P (ts @ [t]) \<longleftrightarrow> successively P ts \<and> (ts \<noteq> [] \<longrightarrow> P (last ts) t)"
  by (auto simp: successively_append_iff)

lemma alternating_replace_last:
  assumes "alternating ts" "ts \<noteq> []" "fst t = fst (last ts)" "snd t \<noteq> []"
  shows "alternating (butlast ts @ [t])"
proof -
  obtain us u where ts: "ts = us @ [u]" using assms(2) by (metis append_butlast_last_id)
  then show ?thesis using assms by (auto simp: alternating_def successively_snoc)
qed

lemma merge_turns_ok:
  assumes "list_all turn_ok ts" "list_all turn_ok done" "alternating done"
  shows "list_all turn_ok (merge_turns done ts) \<and> alternating (merge_turns done ts)
    \<and> turns_said (merge_turns done ts) = turns_said done @ turns_said ts"
  using assms
proof (induction "done" ts rule: merge_turns.induct)
  case (2 "done" role blocks ts)
  consider "blocks = []" | "blocks \<noteq> []" "done \<noteq> []" "fst (last done) = role"
    | "blocks \<noteq> []" "done = [] \<or> fst (last done) \<noteq> role" by blast
  then show ?case
  proof cases
    case 1
    then show ?thesis using 2 by simp
  next
    case c: 2
    obtain us u where d: "done = us @ [(role, u)]"
      using c(2,3) by (metis append_butlast_last_id prod.collapse)
    have "alternating (butlast done @ [(role, snd (last done) @ blocks)])"
      using 2(6) c by (intro alternating_replace_last) auto
    then show ?thesis using 2 c by (auto simp: d turn_ok_def)
  next
    case c: 3
    have "alternating (done @ [(role, blocks)])"
      using 2(6) c by (auto simp: alternating_def successively_snoc)
    then show ?thesis using 2 c by (auto simp: turn_ok_def)
  qed
qed simp

subsection \<open>Marks\<close>

lemma count_marks_simps [simp]:
  "count_marks [] = 0" "count_marks (b # bs) = (if has_mark b then Suc (count_marks bs) else count_marks bs)"
  "count_marks (bs @ cs) = count_marks bs + count_marks cs"
  by (simp_all add: count_marks_def)

lemma has_mark_del [simp]: "\<not> has_mark (del_fld ''cache_control'' b)"
  by (simp add: has_mark_def fld_del_fld)

lemma keep_first_same: "list_all2 same_block bs (keep_first_marks n bs) \<and> count_marks (keep_first_marks n bs) = min n (count_marks bs)"
  by (induction n bs rule: keep_first_marks.induct) (auto simp: min_def)

lemma drop_first_same: "list_all2 same_block bs (drop_first_marks n bs) \<and> count_marks (drop_first_marks n bs) = count_marks bs - n"
  by (induction n bs rule: drop_first_marks.induct) auto

definition same_turn :: "turn \<Rightarrow> turn \<Rightarrow> bool" where
  "same_turn t u \<longleftrightarrow> fst t = fst u \<and> list_all2 same_block (snd t) (snd u)"

lemma drop_turn_same:
  "list_all2 same_turn ts (drop_turn_marks n ts)
   \<and> count_marks (concat (map snd (drop_turn_marks n ts))) = count_marks (concat (map snd ts)) - n"
proof (induction n ts rule: drop_turn_marks.induct)
  case (2 n role blocks ts)
  then show ?case
    using drop_first_same [of blocks n] by (auto simp: same_turn_def)
qed simp

lemma same_blocks_refl: "list_all2 same_block bs bs"
  by (simp add: list_all2_refl)

lemma same_turns_refl: "list_all2 same_turn ts ts"
  by (simp add: list_all2_refl same_turn_def same_blocks_refl)

lemma cap_marks_ok:
  assumes "cap_marks system turns = (system', turns')"
  shows "list_all2 same_block system system' \<and> list_all2 same_turn turns turns'
    \<and> count_marks system' + count_marks (concat (map snd turns')) \<le> 4
    \<and> (count_marks system = 0 \<longrightarrow> count_marks system' = 0)"
  using assms keep_first_same [of system max_cache_marks]
    drop_turn_same [of turns "count_marks (concat (map snd turns)) - (max_cache_marks - count_marks system)"]
  by (auto simp: cap_marks_def Let_def max_cache_marks_def same_blocks_refl same_turns_refl split: if_splits)

lemma same_turns_said: "list_all2 same_turn ts us \<Longrightarrow> turns_said ts = turns_said us"
proof (induction rule: list_all2_induct)
  case (Cons t ts u us)
  then show ?case
    using same_blocks_said [of "snd t" "snd u" "fst t"] by (cases t; cases u) (simp add: same_turn_def)
qed simp

lemma same_turns_ok:
  "list_all2 same_turn ts us \<Longrightarrow> list_all turn_ok ts \<Longrightarrow> list_all turn_ok us"
proof (induction rule: list_all2_induct)
  case (Cons t ts u us)
  then show ?case using same_blocks_ok [of "snd t" "snd u"] by (simp add: same_turn_def turn_ok_def)
qed simp

lemma same_turns_fst: "list_all2 same_turn ts us \<Longrightarrow> map fst us = map fst ts"
  by (induction rule: list_all2_induct) (auto simp: same_turn_def)

lemma same_turns_alternating:
  assumes "list_all2 same_turn ts us" "alternating ts"
  shows "alternating us"
proof -
  have "successively (\<lambda>a b. a \<noteq> b) (map fst ts)" using assms(2) by (simp add: alternating_def successively_map)
  then have "successively (\<lambda>a b. fst a \<noteq> fst b) us"
    unfolding same_turns_fst [OF assms(1), symmetric] by (simp add: successively_map)
  moreover have "list_all (\<lambda>t. snd t \<noteq> []) us"
    using assms by (induction rule: list_all2_induct) (auto simp: alternating_def same_turn_def successively_Cons split: if_splits)
  ultimately show ?thesis by (simp add: alternating_def)
qed

lemma cacheable_obj: "cacheable b \<Longrightarrow> is_obj b"
  by (cases b) (auto simp: cacheable_def is_cacheable_text_part_def is_cacheable_tool_result_def)

lemma mark_first_same:
  "list_all2 same_block bs (mark_first bs) \<and> count_marks (mark_first bs) \<le> Suc (count_marks bs)"
  by (induction bs) (auto simp: cacheable_obj same_blocks_refl)

lemma count_marks_rev [simp]: "count_marks (rev bs) = count_marks bs"
  by (induction bs) simp_all

lemma mark_rev_same:
  "list_all2 same_block bs (rev (mark_first (rev bs))) \<and> count_marks (rev (mark_first (rev bs))) \<le> Suc (count_marks bs)"
proof -
  have "list_all2 same_block (rev (rev bs)) (rev (mark_first (rev bs)))"
    using mark_first_same [of "rev bs"] unfolding list_all2_rev by blast
  then show ?thesis using mark_first_same [of "rev bs"] by simp
qed

lemma turn_message_simps [simp]:
  "fld ''role'' (turn_message t) = JStr (fst t)" "fld ''content'' (turn_message t) = JArr (snd t)"
  "is_obj (turn_message t)" "\<not> has_mark (turn_message t)"
  by (simp_all add: turn_message_def has_mark_def)

definition mark_turn :: "turn \<Rightarrow> turn" where
  "mark_turn t = (fst t, rev (mark_first (rev (snd t))))"

lemma mark_turn_message:
  "has_cacheable_block (turn_message t) \<Longrightarrow> mark_last_cacheable_block (turn_message t) = turn_message (mark_turn t)"
  by (simp add: mark_last_cacheable_block_def content_blocks_def mark_turn_def)
    (simp add: turn_message_def)

lemma mark_turn_same: "same_turn t (mark_turn t) \<and> count_marks (snd (mark_turn t)) \<le> Suc (count_marks (snd t))"
  using mark_rev_same [of "snd t"] by (simp add: mark_turn_def same_turn_def)

lemma count_concat: "count_marks (concat bss) = sum_list (map count_marks bss)"
  by (induction bss) simp_all

lemma add_marks_turns:
  obtains us where "add_cache_prompt_marks (map turn_message ts) = map turn_message us" "list_all2 same_turn ts us"
    "count_marks (concat (map snd us)) \<le> count_marks (concat (map snd ts)) + 3"
    "list_ex has_caller_mark (map turn_message ts) \<longrightarrow> us = ts"
proof (cases "ts = [] \<or> list_ex has_caller_mark (map turn_message ts)")
  case True
  then show ?thesis
    by (intro that [of ts]) (auto simp: add_cache_prompt_marks_def same_turns_refl)
next
  case False
  let ?ms = "map turn_message ts"
  let ?T = "set (cache_targets ?ms)"
  let ?us = "map (\<lambda>i. if i \<in> ?T then mark_turn (ts ! i) else ts ! i) [0 ..< length ts]"
  have targets: "i < length ts \<and> has_cacheable_block (turn_message (ts ! i))" if "i \<in> ?T" for i
    using targets_ok [of ?ms] False that by fastforce
  have "(if i \<in> ?T then mark_last_cacheable_block (?ms ! i) else ?ms ! i) = turn_message (?us ! i)"
    if "i < length ts" for i
    using that targets mark_turn_message by simp
  then have "add_cache_prompt_marks ?ms = map turn_message ?us"
    using False by (simp add: add_cache_prompt_marks_def del: nth_map_upt)
  moreover have "list_all2 same_turn ts ?us"
    using mark_turn_same same_turns_refl by (auto simp: list_all2_conv_all_nth same_turn_def same_blocks_refl)
  moreover have "count_marks (concat (map snd ?us)) \<le> count_marks (concat (map snd ts)) + 3"
  proof -
    let ?c = "\<lambda>i. count_marks (snd (ts ! i))"
    have "count_marks (concat (map snd ?us)) = (\<Sum>i \<in> {0 ..< length ts}. count_marks (snd (?us ! i)))"
      unfolding count_concat sum_list_sum_nth by (rule sum.cong) simp_all
    also have "\<dots> \<le> (\<Sum>i \<in> {0 ..< length ts}. ?c i + (if i \<in> ?T then 1 else 0))"
      using mark_turn_same by (intro sum_mono) auto
    also have "\<dots> = (\<Sum>i \<in> {0 ..< length ts}. ?c i) + card ({0 ..< length ts} \<inter> ?T)"
      by (simp add: sum.distrib sum.If_cases)
    also have "(\<Sum>i \<in> {0 ..< length ts}. ?c i) = count_marks (concat (map snd ts))"
      by (simp add: count_concat comp_def sum_list_sum_nth)
    also have "card ({0 ..< length ts} \<inter> ?T) \<le> 3"
      using card_targets [of ?ms] card_mono [of ?T "{0 ..< length ts} \<inter> ?T"] by simp
    finally show ?thesis by simp
  qed
  ultimately show ?thesis using False by (intro that [of ?us]) auto
qed

lemma marked_turn_has_caller:
  assumes "0 < count_marks (concat (map snd ts))"
  shows "list_ex has_caller_mark (map turn_message ts)"
proof -
  have "filter has_mark (concat (map snd ts)) \<noteq> []" using assms by (simp add: count_marks_def)
  then obtain t b where "t \<in> set ts" "b \<in> set (snd t)" "has_mark b" by (auto simp: filter_empty_conv)
  then show ?thesis by (auto simp: has_caller_mark_def list_ex_iff block_has_caller_mark_def)
qed

lemma marked_messages_ok:
  obtains us where "marked_messages system turns = map turn_message us" "list_all2 same_turn turns us"
    "count_marks (fst (cap_marks system turns)) + count_marks (concat (map snd us)) \<le> 4"
proof -
  obtain system' turns' where c: "cap_marks system turns = (system', turns')" by (cases "cap_marks system turns")
  have ok: "list_all2 same_turn turns turns'" "count_marks system' + count_marks (concat (map snd turns')) \<le> 4"
    "count_marks system = 0 \<longrightarrow> count_marks system' = 0"
    using cap_marks_ok [OF c] by simp_all
  obtain us where us: "add_cache_prompt_marks (map turn_message turns') = map turn_message us" "list_all2 same_turn turns' us"
    "count_marks (concat (map snd us)) \<le> count_marks (concat (map snd turns')) + 3"
    "list_ex has_caller_mark (map turn_message turns') \<longrightarrow> us = turns'"
    by (rule add_marks_turns)
  have same_trans: "same_block a b \<Longrightarrow> same_block b d \<Longrightarrow> same_block a d" for a b d by (simp add: same_block_def)
  have "same_turn t u \<Longrightarrow> same_turn u w \<Longrightarrow> same_turn t w" for t u w
    using list_all2_trans [of same_block same_block same_block] same_trans by (simp add: same_turn_def) blast
  then have both: "list_all2 same_turn turns us"
    using list_all2_trans [of same_turn same_turn same_turn, OF _ ok(1) us(2)] by blast
  show ?thesis
  proof (cases "count_marks system = 0")
    case True
    then have "count_marks (concat (map snd us)) \<le> 4"
      using us(3,4) ok(2) marked_turn_has_caller [of turns'] by (cases "count_marks (concat (map snd turns'))") auto
    then show ?thesis using us(1) both True ok(3) by (intro that [of us]) (simp_all add: marked_messages_def c)
  next
    case False
    then show ?thesis using ok by (intro that [of turns']) (simp_all add: marked_messages_def c)
  qed
qed

subsection \<open>The whole translation\<close>

lemma translated_parts:
  assumes "to_messages_request p = Inr body"
  obtains system turns budget cap rest where "translated_turns p = Inr (system, turns)" "thinking_plan p = Inr (budget, cap)"
    "body = messages_body p (system, turns) (budget, cap) rest"
    "fst ` set rest \<subseteq> {''stop_sequences'', ''service_tier'', ''tools'', ''tool_choice''}"
proof -
  from assms obtain conversation plan stops tier tools where
    parts: "translated_turns p = Inr conversation" "thinking_plan p = Inr plan"
    "stop_fields p = Inr stops" "tier_fields p = Inr tier" "tools_fields p = Inr tools"
    "body = messages_body p conversation plan (stops @ tier @ tools)"
    unfolding to_messages_request_def unmappable_def refuse_def
    by (simp add: bind_js_Inr_iff split: option.splits if_splits) blast
  have "fst ` set stops \<subseteq> {''stop_sequences''}"
    using parts(3) by (auto simp: stop_fields_def unmappable_def refuse_def split: jsv.splits if_splits)
  moreover have "fst ` set tier \<subseteq> {''service_tier''}"
    using parts(4) by (auto simp: tier_fields_def Let_def unmappable_def refuse_def split: if_splits)
  moreover have "fst ` set tools \<subseteq> {''tools'', ''tool_choice''}"
    using parts(5) by (auto simp: tools_fields_def Let_def unmappable_def refuse_def bind_js_Inr_iff split: if_splits option.splits)
  ultimately have "fst ` set (stops @ tier @ tools) \<subseteq> {''stop_sequences'', ''service_tier'', ''tools'', ''tool_choice''}"
    unfolding set_append image_Un by blast
  moreover obtain system turns budget cap where "conversation = (system, turns)" "plan = (budget, cap)"
    by (metis prod.exhaust)
  ultimately show ?thesis using parts(1,2,6) that by blast
qed

lemma map_of_absent: "fst ` set kvs \<subseteq> K \<Longrightarrow> k \<notin> K \<Longrightarrow> map_of kvs k = None"
  by (auto simp: map_of_eq_None_iff)

lemma map_of_middle:
  "fst ` set pre \<subseteq> K \<Longrightarrow> fst ` set post \<subseteq> L \<Longrightarrow> k \<notin> K \<Longrightarrow> k \<notin> L \<Longrightarrow> map_of (pre @ mid @ post) k = map_of mid k"
  using map_of_absent [of pre K k] map_of_absent [of post L k]
  by (simp add: map_add_def split: option.split)

lemma thinking_keys: "fst ` set (thinking_fields b p) \<subseteq> {''thinking'', ''output_config'', ''temperature'', ''top_p'', ''top_k''}"
  by (auto simp: thinking_fields_def number_field_def)

text \<open>The fields of an assembled body.\<close>

lemma body_fixed:
  "fld ''messages'' (messages_body p (system, turns) (budget, cap) rest) = JArr (marked_messages system turns)"
  "fld ''max_tokens'' (messages_body p (system, turns) (budget, cap) rest) = cap"
  by (simp_all add: messages_body_def)

lemma system_of_body:
  assumes "fst ` set rest \<subseteq> {''stop_sequences'', ''service_tier'', ''tools'', ''tool_choice''}"
  shows "elems (fld ''system'' (messages_body p (system, turns) (budget, cap) rest)) = fst (cap_marks system turns)"
    and "list_all2 same_block system (fst (cap_marks system turns))"
proof -
  show same: "list_all2 same_block system (fst (cap_marks system turns))"
    using cap_marks_ok [of system turns "fst (cap_marks system turns)" "snd (cap_marks system turns)"] by simp
  have "map_of (thinking_fields budget p @ rest) ''system'' = None"
    using map_of_absent [OF thinking_keys, of "''system''"] map_of_absent [OF assms, of "''system''"]
    by (simp add: map_add_def)
  then show "elems (fld ''system'' (messages_body p (system, turns) (budget, cap) rest)) = fst (cap_marks system turns)"
    using same by (cases system) (simp_all add: messages_body_def map_add_def)
qed

lemma thinking_of_body:
  assumes "fst ` set rest \<subseteq> {''stop_sequences'', ''service_tier'', ''tools'', ''tool_choice''}"
    and "k = ''thinking'' \<or> k = ''temperature'' \<or> k = ''top_p'' \<or> k = ''top_k''"
  shows "fld k (messages_body p (system, turns) (budget, cap) rest) = fld k (JObj (thinking_fields budget p))"
proof -
  let ?pre = "[(''model'', fld ''model'' p), (''messages'', JArr (marked_messages system turns)),
      (''max_tokens'', cap), (''stream'', JTrue)]
    @ (if system \<noteq> [] then [(''system'', JArr (fst (cap_marks system turns)))] else [])"
  have "fst ` set ?pre \<subseteq> {''model'', ''messages'', ''max_tokens'', ''stream'', ''system''}" by (cases system) simp_all
  moreover have "k \<notin> {''model'', ''messages'', ''max_tokens'', ''stream'', ''system''}"
    "k \<notin> {''stop_sequences'', ''service_tier'', ''tools'', ''tool_choice''}"
    using assms(2) by (elim disjE; simp)+
  ultimately have "map_of (?pre @ thinking_fields budget p @ rest) k = map_of (thinking_fields budget p) k"
    by (rule map_of_middle [OF _ assms(1)])
  then show ?thesis unfolding messages_body_def fld.simps prod.case fst_conv snd_conv append_assoc by simp
qed

lemma thinking_excludes_sampling:
  "(fld ''thinking'' (JObj (thinking_fields b p)) \<noteq> JUndef \<longrightarrow>
      fld ''temperature'' (JObj (thinking_fields b p)) = JUndef \<and> fld ''top_p'' (JObj (thinking_fields b p)) = JUndef
      \<and> fld ''top_k'' (JObj (thinking_fields b p)) = JUndef)
   \<and> (\<forall>c. fld ''budget_tokens'' (fld ''thinking'' (JObj (thinking_fields b p))) = JNum (Fin c) \<longrightarrow> c = b \<and> 0 < b)"
  by (simp add: thinking_fields_def number_field_def)

lemma translated_turns_ok:
  assumes "translated_turns p = Inr (system, turns)"
  defines "ms \<equiv> elems (fld ''messages'' p)"
  shows "list_all turn_ok turns \<and> alternating turns \<and> turns \<noteq> [] \<and> fst (hd turns) = ''user''
    \<and> list_all block_ok system
    \<and> turns_said turns = concat (map message_said (filter (\<lambda>m. \<not> is_system m) ms))
    \<and> blocks_said ''system'' system = concat (map message_said (filter is_system ms))
    \<and> filter is_system ms = takeWhile is_system ms"
proof -
  obtain ts where ts: "translate_messages True [] [] ms = Inr (system, ts)" "turns = merge_turns [] ts"
    "turns \<noteq> []" "fst (hd turns) = ''user''"
    using assms by (auto simp: translated_turns_def bind_js_Inr_iff unmappable_def refuse_def Let_def split: if_splits)
  have t: "list_all turn_ok ts \<and> list_all block_ok system
    \<and> turns_said ts = turns_said [] @ concat (map message_said (filter (\<lambda>m. \<not> is_system m) ms))
    \<and> blocks_said ''system'' system = blocks_said ''system'' [] @ concat (map message_said (filter is_system ms))
    \<and> filter is_system ms = takeWhile is_system ms \<and> (True \<or> filter is_system ms = [])"
    using translate_ok [OF ts(1)] by (simp del: takeWhile_eq_Nil_iff)
  moreover have "list_all turn_ok (merge_turns [] ts) \<and> alternating (merge_turns [] ts)
    \<and> turns_said (merge_turns [] ts) = turns_said [] @ turns_said ts"
    using t by (intro merge_turns_ok) (simp_all add: alternating_def)
  ultimately show ?thesis using ts(2-4) by (simp del: takeWhile_eq_Nil_iff)
qed

lemma body_said_turns: "body_said (map turn_message us) = turns_said us"
  by (simp add: body_said_def turns_said_def comp_def split_def)

lemma thinking_choice_room:
  assumes "thinking_choice effort len = (budget, cap)"
  shows "(0 < budget \<longrightarrow> 1024 \<le> budget)
    \<and> (\<exists>n. cap = JNum n \<and> (0 < budget \<longrightarrow> n = PosInf \<or> (\<exists>q. n = Fin q \<and> budget + 2048 \<le> q)))"
proof (cases "map_of thinking_budgets (if effort = ''minimal'' then ''low'' else effort)")
  case None
  then have "budget = 0" "is_num cap" using assms by (auto simp: thinking_choice_def split: if_splits)
  then show ?thesis by (cases cap) simp_all
next
  case (Some wanted)
  have room: "room_for_thinking wanted (JNum (Fin q)) + 2048 \<le> q" for q
    by (simp add: room_for_thinking_def answer_headroom_tokens_def min_def)
  have none: "room_for_thinking wanted (JNum NegInf) = 0" "room_for_thinking wanted (JNum NaN) = 0"
    by (simp_all add: room_for_thinking_def)
  show ?thesis
  proof (cases "is_num len")
    case True
    then obtain n where n: "len = JNum n" by (cases len) auto
    have "budget = (if room_for_thinking wanted (JNum n) < 1024 then 0 else room_for_thinking wanted (JNum n))"
      "cap = JNum n"
      using assms Some by (auto simp: n thinking_choice_def Let_def min_thinking_budget_def)
    then show ?thesis using room none by (cases n) auto
  next
    case False
    then have "room_for_thinking wanted len = wanted" by (cases len) (simp_all add: room_for_thinking_def)
    then show ?thesis
      using assms Some False
      by (auto simp: thinking_choice_def Let_def min_thinking_budget_def answer_headroom_tokens_def)
  qed
qed

lemma thinking_room:
  assumes "thinking_plan p = Inr (budget, cap)"
  shows "(0 < budget \<longrightarrow> 1024 \<le> budget)
    \<and> (\<exists>n. cap = JNum n \<and> (0 < budget \<longrightarrow> n = PosInf \<or> (\<exists>q. n = Fin q \<and> budget + 2048 \<le> q)))"
proof -
  obtain effort where "thinking_choice effort (asked_length p) = (budget, cap)"
    using assms by (auto simp: thinking_plan_def bind_js_Inr_iff)
  then show ?thesis by (rule thinking_choice_room)
qed

text \<open>C27: The translated conversation says what the client's says: every text, image, tool call and tool
  answer of the messages after the system prompt, once each, in order, under the role that brought it, and
  the system blocks say what the system messages say, which all come first.\<close>

theorem messages_request_faithful:
  assumes "to_messages_request p = Inr body"
  defines "ms \<equiv> elems (fld ''messages'' p)"
  shows "body_said (elems (fld ''messages'' body)) = concat (map message_said (filter (\<lambda>m. \<not> is_system m) ms))
    \<and> blocks_said ''system'' (elems (fld ''system'' body)) = concat (map message_said (filter is_system ms))
    \<and> filter is_system ms = takeWhile is_system ms"
proof -
  obtain system turns budget cap rest where parts: "translated_turns p = Inr (system, turns)"
    "body = messages_body p (system, turns) (budget, cap) rest"
    "fst ` set rest \<subseteq> {''stop_sequences'', ''service_tier'', ''tools'', ''tool_choice''}"
    using assms(1) by (rule translated_parts)
  obtain us where us: "marked_messages system turns = map turn_message us" "list_all2 same_turn turns us"
    by (rule marked_messages_ok)
  have "blocks_said ''system'' (elems (fld ''system'' body)) = blocks_said ''system'' system"
    unfolding parts(2) system_of_body(1) [OF parts(3)]
    using same_blocks_said [OF system_of_body(2) [OF parts(3)]] by simp
  moreover have "elems (fld ''messages'' body) = map turn_message us" by (simp add: parts(2) us(1) body_fixed)
  ultimately show ?thesis
    using translated_turns_ok [OF parts(1)] same_turns_said [OF us(2)]
    by (simp add: body_said_turns ms_def del: takeWhile_eq_Nil_iff)
qed

text \<open>C28: A translated body is one that the Messages API takes: user and assistant messages alternate, from a
  user message on, each with a non-empty list of well-formed blocks (no empty text, a tool input that is an
  object, no mark inside a tool result); at most four blocks of the whole body carry a cache mark; the
  output cap is a number that leaves room beside a thinking budget of at least 1024, and no sampling
  parameter comes with thinking.\<close>

theorem messages_request_valid:
  assumes "to_messages_request p = Inr body"
  defines "ms \<equiv> elems (fld ''messages'' body)"
  shows "ms \<noteq> [] \<and> fld ''role'' (hd ms) = JStr ''user''
    \<and> successively (\<lambda>a b. fld ''role'' a \<noteq> fld ''role'' b) ms
    \<and> (\<forall>m \<in> set ms. (fld ''role'' m = JStr ''user'' \<or> fld ''role'' m = JStr ''assistant'')
         \<and> elems (fld ''content'' m) \<noteq> [] \<and> list_all block_ok (elems (fld ''content'' m)))
    \<and> list_all block_ok (elems (fld ''system'' body))
    \<and> count_marks (elems (fld ''system'' body)) + count_marks (concat (map (\<lambda>m. elems (fld ''content'' m)) ms)) \<le> 4
    \<and> is_num (fld ''max_tokens'' body)
    \<and> (fld ''thinking'' body \<noteq> JUndef \<longrightarrow>
         fld ''temperature'' body = JUndef \<and> fld ''top_p'' body = JUndef \<and> fld ''top_k'' body = JUndef)
    \<and> (\<forall>b. fld ''budget_tokens'' (fld ''thinking'' body) = JNum (Fin b) \<longrightarrow>
         1024 \<le> b \<and> (\<exists>n. fld ''max_tokens'' body = JNum n \<and> (n = PosInf \<or> (\<exists>q. n = Fin q \<and> b + 2048 \<le> q))))"
proof -
  obtain system turns budget cap rest where parts: "translated_turns p = Inr (system, turns)"
    "thinking_plan p = Inr (budget, cap)"
    "body = messages_body p (system, turns) (budget, cap) rest"
    "fst ` set rest \<subseteq> {''stop_sequences'', ''service_tier'', ''tools'', ''tool_choice''}"
    using assms(1) by (rule translated_parts)
  obtain us where us: "marked_messages system turns = map turn_message us" "list_all2 same_turn turns us"
    "count_marks (fst (cap_marks system turns)) + count_marks (concat (map snd us)) \<le> 4"
    by (rule marked_messages_ok)
  note t = translated_turns_ok [OF parts(1)]
  have u: "list_all turn_ok us" "alternating us" "us \<noteq> []" "fst (hd us) = ''user''"
  proof -
    show "list_all turn_ok us" "alternating us" using t us(2) same_turns_ok same_turns_alternating by blast+
    show "us \<noteq> []" using t us(2) by auto
    then show "fst (hd us) = ''user''" using t same_turns_fst [OF us(2)] by (metis hd_map list.map_disc_iff)
  qed
  have ms: "ms = map turn_message us" by (simp add: ms_def parts(3) us(1) body_fixed)
  have system: "elems (fld ''system'' body) = fst (cap_marks system turns)"
    and sys_ok: "list_all block_ok (fst (cap_marks system turns))"
    using system_of_body [OF parts(4)] t same_blocks_ok [of system "fst (cap_marks system turns)"]
    by (simp_all add: parts(3))
  have marks: "count_marks (elems (fld ''system'' body)) + count_marks (concat (map (\<lambda>m. elems (fld ''content'' m)) ms)) \<le> 4"
    using us(3) by (simp add: system ms comp_def)
  have shape: "\<forall>m \<in> set ms. (fld ''role'' m = JStr ''user'' \<or> fld ''role'' m = JStr ''assistant'')
      \<and> elems (fld ''content'' m) \<noteq> [] \<and> list_all block_ok (elems (fld ''content'' m))"
    using u(1,2) by (auto simp: ms list_all_iff turn_ok_def alternating_def)
  have alternate: "successively (\<lambda>a b. fld ''role'' a \<noteq> fld ''role'' b) ms"
    using u(2) by (simp add: ms alternating_def successively_map)
  have head: "ms \<noteq> [] \<and> fld ''role'' (hd ms) = JStr ''user''" using u(3,4) by (simp add: ms hd_map)
  have cap: "fld ''max_tokens'' body = cap" by (simp add: parts(3) body_fixed)
  have think: "(fld ''thinking'' body \<noteq> JUndef \<longrightarrow>
         fld ''temperature'' body = JUndef \<and> fld ''top_p'' body = JUndef \<and> fld ''top_k'' body = JUndef)
      \<and> (\<forall>b. fld ''budget_tokens'' (fld ''thinking'' body) = JNum (Fin b) \<longrightarrow> b = budget \<and> 0 < budget)"
    using thinking_excludes_sampling [of budget p] by (simp only: parts(3) thinking_of_body [OF parts(4)] simp_thms)
  have room: "(0 < budget \<longrightarrow> 1024 \<le> budget)
      \<and> (\<exists>n. cap = JNum n \<and> (0 < budget \<longrightarrow> n = PosInf \<or> (\<exists>q. n = Fin q \<and> budget + 2048 \<le> q)))"
    by (rule thinking_room [OF parts(2)])
  have "1024 \<le> b \<and> (\<exists>n. fld ''max_tokens'' body = JNum n \<and> (n = PosInf \<or> (\<exists>q. n = Fin q \<and> b + 2048 \<le> q)))"
    if "fld ''budget_tokens'' (fld ''thinking'' body) = JNum (Fin b)" for b
    using think room that cap by blast
  moreover have "is_num (fld ''max_tokens'' body)" using room cap by auto
  ultimately show ?thesis
    using head alternate shape marks sys_ok think unfolding system by blast
qed

definition demo_conversation :: jsv where
  "demo_conversation = JObj
     [(''model'', JStr ''claude-sonnet-4-6''), (''stream'', JTrue), (''reasoning_effort'', JStr ''low''),
      (''max_tokens'', jint 4000), (''temperature'', jint 1),
      (''messages'', JArr
        [JObj [(''role'', JStr ''system''), (''content'', JStr ''be brief'')],
         JObj [(''role'', JStr ''user''), (''content'', JArr
           [JObj [(''type'', JStr ''text''), (''text'', JStr ''one'')], JObj [(''type'', JStr ''text''), (''text'', JStr [])]])],
         JObj [(''role'', JStr ''user''), (''content'', JStr ''two'')],
         JObj [(''role'', JStr ''assistant''), (''content'', JNull), (''tool_calls'', JArr
           [JObj [(''id'', JStr ''c1''), (''type'', JStr ''function''),
                  (''function'', JObj [(''name'', JStr ''f''), (''arguments'', JStr (json_text (JObj [(''q'', jint 1)])))])]])],
         JObj [(''role'', JStr ''tool''), (''tool_call_id'', JStr ''c1''), (''content'', JStr ''done'')]])]"

definition translates :: "fault + jsv \<Rightarrow> bool" where
  "translates m \<longleftrightarrow> (case m of Inr b \<Rightarrow> True | Inl f \<Rightarrow> False)"

lemma translatesD: "translates m \<Longrightarrow> \<exists>b. m = Inr b"
  by (cases m) (simp_all add: translates_def)

lemma demo_translates: "translates (to_messages_request demo_conversation)"
  by code_simp

theorem messages_request_faithful_witness:
  "\<exists>body. to_messages_request demo_conversation = Inr body
     \<and> body_said (elems (fld ''messages'' body)) =
        [Said ''user'' ''one'', Said ''user'' ''two'', Called (JStr ''c1'') (JStr ''f'') (JObj [(''q'', jint 1)]),
         Answered (JStr ''c1''), Said ''user'' ''done'']"
proof -
  obtain body where b: "to_messages_request demo_conversation = Inr body"
    using translatesD [OF demo_translates] by blast
  have said: "concat (map message_said (filter (\<lambda>m. \<not> is_system m) (elems (fld ''messages'' demo_conversation)))) =
      [Said ''user'' ''one'', Said ''user'' ''two'', Called (JStr ''c1'') (JStr ''f'') (JObj [(''q'', jint 1)]),
       Answered (JStr ''c1''), Said ''user'' ''done'']"
    by code_simp
  then show ?thesis using b messages_request_faithful [OF b] unfolding said by blast
qed

theorem messages_request_valid_witness:
  "\<exists>body. to_messages_request demo_conversation = Inr body \<and> elems (fld ''messages'' body) \<noteq> []
     \<and> fld ''budget_tokens'' (fld ''thinking'' body) = jint 1024 \<and> fld ''temperature'' body = JUndef"
proof -
  obtain body where b: "to_messages_request demo_conversation = Inr body"
    using translatesD [OF demo_translates] by blast
  have "(case to_messages_request demo_conversation of Inl f \<Rightarrow> False
      | Inr body \<Rightarrow> fld ''budget_tokens'' (fld ''thinking'' body) = jint 1024 \<and> fld ''thinking'' body \<noteq> JUndef)"
    by code_simp
  then show ?thesis using b messages_request_valid [OF b] by auto
qed

subsection \<open>Exceptions\<close>

text \<open>The values that the translation turns into strings.\<close>

definition converted_values :: "jsv \<Rightarrow> jsv list" where
  "converted_values p =
     fld ''reasoning_effort'' p
       # concat (map (\<lambda>m. fld ''tool_call_id'' m # map (fld ''id'') (elems (fld ''tool_calls'' m)))
           (elems (fld ''messages'' p)))"

lemma unmappable_never_raises [simp]: "never_raises (unmappable k)"
  by (simp add: unmappable_def)

lemma tool_uses_never_raise:
  "\<forall>c \<in> set cs. convertible (nullish (fld ''id'' c) (JStr [])) \<Longrightarrow> never_raises (tool_use_blocks cs)"
proof (induction cs)
  case (Cons c cs)
  have "never_raises (tool_use_block c)"
    using Cons.prems by (auto simp: tool_use_block_def split: option.split intro!: never_raises_bind never_raises_string)
  then show ?case using Cons by (auto intro!: never_raises_bind)
qed simp

lemma translate_never_raises:
  "\<forall>m \<in> set ms. convertible (nullish (fld ''tool_call_id'' m) (JStr []))
     \<and> (\<forall>c \<in> set (elems (fld ''tool_calls'' m)). convertible (nullish (fld ''id'' c) (JStr [])))
   \<Longrightarrow> never_raises (translate_messages leading system turns ms)"
proof (induction leading system turns ms rule: translate_messages.induct)
  case (2 leading system turns m ms)
  have blocks: "never_raises (blocks_of m)" by (simp add: blocks_of_def split: option.split)
  have "never_raises (plain_turn m)"
    using 2(4) tool_uses_never_raise [of "elems (fld ''tool_calls'' m)"] blocks
    by (auto simp: plain_turn_def intro!: never_raises_bind)
  moreover have "never_raises (tool_turn m)"
    using 2(4) blocks by (auto simp: tool_turn_def Let_def intro!: never_raises_bind never_raises_string)
  ultimately show ?case
    using 2 blocks by (auto simp: Let_def intro!: never_raises_bind)
qed simp



text \<open>The premise is the client's to break: the gate does not look at the id of a tool call.\<close>

definition odd_id_request :: jsv where
  "odd_id_request = JObj
     [(''model'', JStr ''anthropic/claude-sonnet-4.6''), (''stream'', JTrue),
      (''messages'', JArr
        [JObj [(''role'', JStr ''user''), (''content'', JStr ''hi'')],
         JObj [(''role'', JStr ''assistant''), (''content'', JStr ''hm''), (''tool_calls'', JArr
           [JObj [(''id'', JObj [(''toString'', jint 1)]), (''type'', JStr ''function''),
                  (''function'', JObj [(''name'', JStr ''f'')])]])]])]"

definition demo_anthropic :: jsv where
  "demo_anthropic = JObj [(''provider'', JStr ''anthropic''), (''host'', JStr ''api.anthropic.com''),
     (''key_ref'', JStr ''anthropic''), (''upstream_model'', JStr ''claude-sonnet-4-6''),
     (''path'', JStr ''/v1/messages''), (''api_style'', JStr ''anthropic''), (''supports_tools'', JTrue)]"

text \<open>A request whose tool call id is an object with a member \<open>toString\<close> passes the gate, and the builder
  throws a \<open>TypeError\<close> on it, where any other shape it cannot express makes it skip the candidate.\<close>

theorem odd_call_id_throws:
  "evaluate_direct_eligibility odd_id_request ''/chat/completions'' [] (Some (candidate_to_row demo_anthropic)) = Inr Eligible
   \<and> build_anthropic_request demo_anthropic odd_id_request (map_of [(''api.anthropic.com'', 8107)])
       (map_of [(''anthropic'', ''ak'')]) = Inl TypeError"
proof
  show "evaluate_direct_eligibility odd_id_request ''/chat/completions'' [] (Some (candidate_to_row demo_anthropic)) = Inr Eligible"
    by code_simp
  show "build_anthropic_request demo_anthropic odd_id_request (map_of [(''api.anthropic.com'', 8107)])
       (map_of [(''anthropic'', ''ak'')]) = Inl TypeError"
    by code_simp
qed

end
