(* ===== verification/ResponsesRequest.thy ===== *)
theory ResponsesRequest
  imports Adapter Routing
begin

text \<open>
  The request half of \<open>enclave/src/bedrock.mjs\<close>: \<open>toResponsesRequest\<close>, which translates a projected chat body
  into a body of the Responses API, \<open>responsesBodyFor\<close>, and the two builders that post it: signed, to
  Bedrock, or with a bearer key, to OpenAI. The AWS signature is the parameter \<open>sign\<close> of the first, HMAC
  that of the second.
\<close>

subsection \<open>Tables\<close>

definition bedrock_mappable_fields :: "string list" where
  "bedrock_mappable_fields =
     [''model'', ''messages'', ''stream'', ''stream_options'', ''temperature'', ''top_p'', ''max_tokens'',
      ''max_completion_tokens'', ''tools'', ''tool_choice'', ''parallel_tool_calls'', ''reasoning_effort'',
      ''verbosity'', ''service_tier'', ''user'']"

definition bedrock_service_tiers :: "string list" where
  "bedrock_service_tiers = [''auto'', ''default'', ''flex'', ''priority'']"

definition bedrock_unmappable :: "string \<Rightarrow> fault + 'a" where
  "bedrock_unmappable field = refuse ''bedrock_unmappable_field'' field"

definition bedrock_image :: "string \<Rightarrow> bool" where
  "bedrock_image url \<longleftrightarrow> anthropic_image url \<noteq> None"

subsection \<open>Content\<close>

definition is_text_part :: "jsv \<Rightarrow> bool" where
  "is_text_part part \<longleftrightarrow> fld ''type'' part = JStr ''text'' \<and> is_str (fld ''text'' part)"

definition content_to_text :: "jsv \<Rightarrow> string option" where
  "content_to_text content =
     (case content of
        JStr s \<Rightarrow> Some s
      | JArr ps \<Rightarrow> if list_all is_text_part ps then Some (concat (map (\<lambda>p. str_of (fld ''text'' p)) ps)) else None
      | JNull \<Rightarrow> Some []
      | JUndef \<Rightarrow> Some []
      | _ \<Rightarrow> None)"

definition input_text :: "string \<Rightarrow> jsv list" where
  "input_text t = (if t \<noteq> [] then [JObj [(''type'', JStr ''input_text''), (''text'', JStr t)]] else [])"

text \<open>The loop over the parts of a user turn: \<open>t\<close> is the text not yet flushed.\<close>

fun user_parts :: "string \<Rightarrow> jsv list \<Rightarrow> jsv list option" where
  "user_parts t [] = Some (input_text t)"
| "user_parts t (p # ps) =
     (if is_text_part p then user_parts (t @ str_of (fld ''text'' p)) ps
      else if fld ''type'' p = JStr ''image_url'' \<and> is_str (image_url_of p) \<and> bedrock_image (str_of (image_url_of p)) then
        map_option (\<lambda>rest. input_text t @ [JObj [(''type'', JStr ''input_image''), (''image_url'', image_url_of p)]] @ rest)
          (user_parts [] ps)
      else None)"

definition user_content_to_items :: "jsv \<Rightarrow> jsv list option" where
  "user_content_to_items content =
     (case content of
        JStr s \<Rightarrow> Some (input_text s)
      | JArr ps \<Rightarrow> user_parts [] ps
      | JNull \<Rightarrow> Some []
      | JUndef \<Rightarrow> Some []
      | _ \<Rightarrow> None)"

subsection \<open>Input items\<close>

definition function_call_item :: "jsv \<Rightarrow> fault + jsv" where
  "function_call_item call =
     (if \<not> function_shape call then bedrock_unmappable ''messages.tool_calls''
      else
        let args = fld ''arguments'' (fld ''function'' call)
        in bind_js (raising (js_string (nullish (fld ''id'' call) (JStr [])))) (\<lambda>ident.
             Inr (JObj [(''type'', JStr ''function_call''), (''call_id'', JStr ident),
               (''name'', fld ''name'' (fld ''function'' call)), (''arguments'', if is_str args then args else JStr ''{}'')])))"

fun function_call_items :: "jsv list \<Rightarrow> fault + jsv list" where
  "function_call_items [] = Inr []"
| "function_call_items (c # cs) =
     bind_js (function_call_item c) (\<lambda>i. bind_js (function_call_items cs) (\<lambda>is. Inr (i # is)))"

definition text_of_message :: "jsv \<Rightarrow> fault + string" where
  "text_of_message message =
     (case content_to_text (fld ''content'' message) of
        None \<Rightarrow> bedrock_unmappable ''messages.content'' | Some t \<Rightarrow> Inr t)"

definition message_item :: "string \<Rightarrow> jsv list \<Rightarrow> jsv list" where
  "message_item role items = (if items \<noteq> [] then [JObj [(''role'', JStr role), (''content'', JArr items)]] else [])"

definition spoken_item :: "string \<Rightarrow> string \<Rightarrow> jsv list" where
  "spoken_item role t =
     (if t \<noteq> [] then message_item role
        [JObj [(''type'', JStr (if role = ''assistant'' then ''output_text'' else ''input_text'')), (''text'', JStr t)]]
      else [])"

definition items_of_message :: "jsv \<Rightarrow> fault + jsv list" where
  "items_of_message message =
     (let role = fld ''role'' message
      in if role = JStr ''user'' then
           (case user_content_to_items (fld ''content'' message) of
              None \<Rightarrow> bedrock_unmappable ''messages.content''
            | Some items \<Rightarrow> Inr (message_item ''user'' items))
         else if role = JStr ''system'' \<or> role = JStr ''developer'' \<or> role = JStr ''assistant'' then
           bind_js (text_of_message message) (\<lambda>t.
             bind_js (if role = JStr ''assistant'' then function_call_items (elems (fld ''tool_calls'' message)) else Inr [])
               (\<lambda>calls. Inr (spoken_item (str_of role) t @ calls)))
         else if role = JStr ''tool'' then
           bind_js (text_of_message message) (\<lambda>t.
             bind_js (raising (js_string (nullish (fld ''tool_call_id'' message) (JStr [])))) (\<lambda>ident.
               Inr [JObj [(''type'', JStr ''function_call_output''), (''call_id'', JStr ident), (''output'', JStr t)]]))
         else bedrock_unmappable ''messages.role'')"

fun input_items :: "jsv list \<Rightarrow> fault + jsv list" where
  "input_items [] = Inr []"
| "input_items (m # ms) =
     bind_js (items_of_message m) (\<lambda>items. bind_js (input_items ms) (\<lambda>rest. Inr (items @ rest)))"

subsection \<open>The body\<close>

definition length_fields :: "jsv \<Rightarrow> fault + js_fields" where
  "length_fields p =
     (let cap = nullish (fld ''max_completion_tokens'' p) (fld ''max_tokens'' p)
      in if \<not> is_num cap then Inr []
         else if num_below cap (of_nat responses_min_max_output_tokens) then
           bedrock_unmappable
             (if fld ''max_completion_tokens'' p \<noteq> JNull \<and> fld ''max_completion_tokens'' p \<noteq> JUndef
              then ''max_completion_tokens'' else ''max_tokens'')
         else Inr [(''max_output_tokens'', cap)])"

definition bedrock_tier_fields :: "jsv \<Rightarrow> fault + js_fields" where
  "bedrock_tier_fields p =
     (let tier = fld ''service_tier'' p
      in if tier = JUndef then Inr []
         else if str_in bedrock_service_tiers tier then Inr [(''service_tier'', tier)]
         else bedrock_unmappable ''service_tier'')"

definition plain_fields :: "jsv \<Rightarrow> js_fields" where
  "plain_fields p =
     (if fld ''reasoning_effort'' p \<noteq> JUndef then [(''reasoning'', JObj [(''effort'', fld ''reasoning_effort'' p)])] else [])
     @ (if fld ''verbosity'' p \<noteq> JUndef then [(''text'', JObj [(''verbosity'', fld ''verbosity'' p)])] else [])"

definition flat_tool :: "jsv \<Rightarrow> jsv" where
  "flat_tool t =
     (let f = fld ''function'' t; d = fld ''description'' f
      in JObj ([(''type'', JStr ''function''), (''name'', fld ''name'' f), (''parameters'', nullish (fld ''parameters'' f) (JObj [])),
                (''strict'', JFalse)]
               @ (if is_str d \<and> d \<noteq> JStr [] then [(''description'', d)] else [])))"

definition responses_tool_fields :: "jsv \<Rightarrow> fault + js_fields" where
  "responses_tool_fields p =
     (let tools = elems (fld ''tools'' p); choice = fld ''tool_choice'' p
      in if tools = [] then Inr []
         else if \<not> list_all function_shape tools then bedrock_unmappable ''tools''
         else
           bind_js (if choice = JUndef then Inr []
                    else if str_in [''auto'', ''none'', ''required''] choice then Inr [(''tool_choice'', choice)]
                    else if function_shape choice then
                      Inr [(''tool_choice'', JObj [(''type'', JStr ''function''), (''name'', fld ''name'' (fld ''function'' choice))])]
                    else bedrock_unmappable ''tool_choice'')
             (\<lambda>c. Inr ((''tools'', JArr (map flat_tool tools)) # c)))"

definition responses_body :: "jsv \<Rightarrow> jsv list \<Rightarrow> js_fields \<Rightarrow> jsv" where
  "responses_body p input rest =
     JObj ([(''model'', fld ''model'' p), (''input'', JArr input), (''stream'', JBool (fld ''stream'' p = JTrue)), (''store'', JFalse)]
       @ rest)"

definition to_responses_request :: "jsv \<Rightarrow> fault + jsv" where
  "to_responses_request p =
     (case List.find (\<lambda>k. \<not> List.member bedrock_mappable_fields k) (obj_keys p) of
        Some k \<Rightarrow> bedrock_unmappable k
      | None \<Rightarrow>
          bind_js (input_items (elems (fld ''messages'' p))) (\<lambda>input.
            if input = [] then bedrock_unmappable ''messages''
            else bind_js (length_fields p) (\<lambda>len.
              bind_js (bedrock_tier_fields p) (\<lambda>tier.
                bind_js (responses_tool_fields p) (\<lambda>tools.
                  Inr (responses_body p input
                    (len @ (if is_bool (fld ''parallel_tool_calls'' p) then [(''parallel_tool_calls'', fld ''parallel_tool_calls'' p)] else [])
                     @ tier @ plain_fields p @ tools)))))))"

subsection \<open>The builders\<close>

definition responses_body_for :: "jsv \<Rightarrow> jsv \<Rightarrow> js_error + skip + jsv" where
  "responses_body_for c payload =
     (let row = candidate_to_row c
      in bind_js (evaluate_direct_eligibility payload ''/chat/completions'' [] (Some row)) (\<lambda>v.
           case refusal_of v of
             Some s \<Rightarrow> Inr (Inl s)
           | None \<Rightarrow>
               (case to_responses_request (project_allowed_fields ChatDialect payload row) of
                  Inl (Raises e) \<Rightarrow> Inl e
                | Inl (Skips s) \<Rightarrow> Inr (Inl s)
                | Inr body \<Rightarrow> Inr (Inr (add_reasoning_mode row body)))))"

record aws_creds =
  ac_key_id :: string
  ac_secret :: string
  ac_token :: "string option"
  ac_expiration :: "rat option"

definition is_region :: "string \<Rightarrow> bool" where
  "is_region s \<longleftrightarrow> s \<noteq> [] \<and> length s \<le> 31 \<and> (is_lower_az (hd s) \<or> is_digit (hd s))
     \<and> list_all (\<lambda>c. is_lower_az c \<or> is_digit c \<or> c = CHR ''-'') s"

definition listed_port :: "(string \<rightharpoonup> nat) \<Rightarrow> jsv \<Rightarrow> nat" where
  "listed_port ports c = (case lookup_key ports (fld ''host'' c) of Some p \<Rightarrow> p | None \<Rightarrow> 0)"

definition responses_spec :: "jsv \<Rightarrow> nat \<Rightarrow> string \<Rightarrow> string \<Rightarrow> jsv \<Rightarrow> spec" where
  "responses_spec c port key style body =
     \<lparr>sp_direct = True, sp_provider = fld ''provider'' c, sp_host = fld ''host'' c, sp_path = fld ''path'' c, sp_port = port,
      sp_key = key, sp_affinity = None, sp_style = style, sp_body = body\<rparr>"

definition build_bedrock_request ::
    "(jsv \<Rightarrow> string \<Rightarrow> aws_creds \<Rightarrow> rat \<Rightarrow> string) \<Rightarrow> jsv \<Rightarrow> jsv \<Rightarrow> (string \<rightharpoonup> nat) \<Rightarrow> aws_creds option \<Rightarrow> rat \<Rightarrow> js_error + built" where
  "build_bedrock_request sign c payload ports creds now =
     (let port = listed_port ports c
      in case creds of
           None \<Rightarrow> Inr (Skipped (Skip ''no_tunnel_or_key'' None))
         | Some cr \<Rightarrow>
             if port = 0 then Inr (Skipped (Skip ''no_tunnel_or_key'' None))
             else if (case ac_expiration cr of Some e \<Rightarrow> e - now < 60000 | None \<Rightarrow> False) then
               Inr (Skipped (Skip ''bedrock_creds_expired'' None))
             else if \<not> (is_str (fld ''region'' c) \<and> is_region (str_of (fld ''region'' c))) then Inr (Skipped (Skip ''no_region'' None))
             else bind_js (responses_body_for c payload) (\<lambda>r.
               case r of
                 Inl s \<Rightarrow> Inr (Skipped s)
               | Inr body \<Rightarrow> Inr (Built (responses_spec c port (sign c (json_text body) cr now) ''bedrock'' body))))"

definition build_openai_responses_request ::
    "(string \<Rightarrow> string \<Rightarrow> string) \<Rightarrow> jsv \<Rightarrow> jsv \<Rightarrow> (string \<rightharpoonup> nat) \<Rightarrow> (string \<rightharpoonup> string) \<Rightarrow> jsv \<Rightarrow> string \<Rightarrow> js_error + built" where
  "build_openai_responses_request hmac c payload ports keys credit_id secret =
     (let port = listed_port ports c; key = candidate_key keys c
      in if port = 0 \<or> key = [] then Inr (Skipped (Skip ''no_tunnel_or_key'' None))
         else bind_js (responses_body_for c payload) (\<lambda>r.
           case r of
             Inl s \<Rightarrow> Inr (Skipped s)
           | Inr body \<Rightarrow>
               Inr (Built (responses_spec c port key ''openai-responses''
                 (case compute_safety_identifier hmac credit_id secret of
                    None \<Rightarrow> body
                  | Some ident \<Rightarrow> set_fld ''safety_identifier'' (JStr ident) body)))))"

subsection \<open>What a conversation says\<close>

text \<open>Texts are compared letter by letter, because the translation joins adjacent text parts: a letter with the
  role that says it, a picture, a tool call and its result. Both sides are read: a source message, and an input item.\<close>

datatype piece = Letter string char | Picture jsv | Invoked jsv jsv jsv | Returned jsv string

definition part_pieces :: "jsv \<Rightarrow> piece list" where
  "part_pieces p = (if is_text_part p then map (Letter ''user'') (str_of (fld ''text'' p)) else [Picture (image_url_of p)])"

definition text_of_content :: "jsv \<Rightarrow> string" where
  "text_of_content c = (case c of JStr s \<Rightarrow> s | JArr ps \<Rightarrow> concat (map (\<lambda>p. str_of (fld ''text'' p)) ps) | _ \<Rightarrow> [])"

definition call_piece :: "jsv \<Rightarrow> piece" where
  "call_piece c =
     Invoked (id_text (fld ''id'' c)) (fld ''name'' (fld ''function'' c))
       (if is_str (fld ''arguments'' (fld ''function'' c)) then fld ''arguments'' (fld ''function'' c) else JStr ''{}'')"

definition message_pieces :: "jsv \<Rightarrow> piece list" where
  "message_pieces m =
     (let role = str_of (fld ''role'' m); content = fld ''content'' m
      in if role = ''user'' then (case content of JArr ps \<Rightarrow> concat (map part_pieces ps) | _ \<Rightarrow> map (Letter role) (text_of_content content))
         else if role = ''tool'' then [Returned (id_text (fld ''tool_call_id'' m)) (text_of_content content)]
         else map (Letter role) (text_of_content content)
           @ (if role = ''assistant'' then map call_piece (elems (fld ''tool_calls'' m)) else []))"

definition content_pieces :: "string \<Rightarrow> jsv \<Rightarrow> piece list" where
  "content_pieces role i =
     (if fld ''type'' i = JStr ''input_image'' then [Picture (fld ''image_url'' i)] else map (Letter role) (str_of (fld ''text'' i)))"

definition item_pieces :: "jsv \<Rightarrow> piece list" where
  "item_pieces i =
     (if fld ''type'' i = JStr ''function_call'' then [Invoked (fld ''call_id'' i) (fld ''name'' i) (fld ''arguments'' i)]
      else if fld ''type'' i = JStr ''function_call_output'' then [Returned (fld ''call_id'' i) (str_of (fld ''output'' i))]
      else concat (map (content_pieces (str_of (fld ''role'' i))) (elems (fld ''content'' i))))"

text \<open>An item the Responses API accepts.\<close>

definition content_ok :: "string \<Rightarrow> jsv \<Rightarrow> bool" where
  "content_ok role i \<longleftrightarrow>
     (if fld ''type'' i = JStr ''input_image'' then role = ''user'' \<and> is_str (fld ''image_url'' i)
      else fld ''type'' i = JStr (if role = ''assistant'' then ''output_text'' else ''input_text'')
        \<and> is_str (fld ''text'' i) \<and> fld ''text'' i \<noteq> JStr [])"

definition item_ok :: "jsv \<Rightarrow> bool" where
  "item_ok i \<longleftrightarrow>
     (if fld ''type'' i = JStr ''function_call''
      then is_str (fld ''call_id'' i) \<and> is_str (fld ''name'' i) \<and> is_str (fld ''arguments'' i)
      else if fld ''type'' i = JStr ''function_call_output'' then is_str (fld ''call_id'' i) \<and> is_str (fld ''output'' i)
      else str_in [''user'', ''system'', ''developer'', ''assistant''] (fld ''role'' i) \<and> elems (fld ''content'' i) \<noteq> []
        \<and> list_all (content_ok (str_of (fld ''role'' i))) (elems (fld ''content'' i)))"

lemma input_text_ok:
  "concat (map (content_pieces ''user'') (input_text t)) = map (Letter ''user'') t" "list_all (content_ok ''user'') (input_text t)"
  by (simp_all add: input_text_def content_pieces_def content_ok_def)

lemma user_parts_ok:
  "user_parts t ps = Some items \<Longrightarrow>
     concat (map (content_pieces ''user'') items) = map (Letter ''user'') t @ concat (map part_pieces ps)
     \<and> list_all (content_ok ''user'') items"
proof (induction t ps arbitrary: items rule: user_parts.induct)
  case (1 t)
  then show ?case using input_text_ok by auto
next
  case (2 t p ps)
  show ?case
  proof (cases "is_text_part p")
    case True
    then show ?thesis using 2(1) [OF True] 2(3) by (auto simp: part_pieces_def)
  next
    case False
    then obtain rest where image: "fld ''type'' p = JStr ''image_url''" "is_str (image_url_of p)" "bedrock_image (str_of (image_url_of p))"
        and rest: "user_parts [] ps = Some rest"
        and items: "items = input_text t @ [JObj [(''type'', JStr ''input_image''), (''image_url'', image_url_of p)]] @ rest"
      using 2(3) by (auto split: if_splits)
    have "content_pieces ''user'' (JObj [(''type'', JStr ''input_image''), (''image_url'', image_url_of p)]) = [Picture (image_url_of p)]"
      "content_ok ''user'' (JObj [(''type'', JStr ''input_image''), (''image_url'', image_url_of p)])"
      using image(2) by (simp_all add: content_pieces_def content_ok_def)
    then show ?thesis
      using 2(2) [OF False _ rest] image input_text_ok [of t] False by (simp add: items part_pieces_def)
  qed
qed

lemma message_item_ok:
  assumes "list_all (content_ok role) items" "List.member [''user'', ''system'', ''developer'', ''assistant''] role"
  shows "concat (map item_pieces (message_item role items)) = concat (map (content_pieces role) items)
    \<and> list_all item_ok (message_item role items)"
  using assms by (cases items) (auto simp: message_item_def item_pieces_def item_ok_def str_in_def)

lemma spoken_item_ok:
  assumes "List.member [''system'', ''developer'', ''assistant''] role"
  shows "concat (map item_pieces (spoken_item role t)) = map (Letter role) t \<and> list_all item_ok (spoken_item role t)"
proof (cases "t = []")
  case False
  let ?i = "JObj [(''type'', JStr (if role = ''assistant'' then ''output_text'' else ''input_text'')), (''text'', JStr t)]"
  have "content_ok role ?i" "content_pieces role ?i = map (Letter role) t"
    using False assms by (auto simp: content_ok_def content_pieces_def)
  then show ?thesis
    using message_item_ok [of role "[?i]"] assms False by (auto simp: spoken_item_def)
qed (simp add: spoken_item_def)

lemma function_call_item_ok:
  "function_call_item c = Inr i \<Longrightarrow> item_pieces i = [call_piece c] \<and> item_ok i"
  by (auto simp: function_call_item_def function_shape_def Let_def bind_js_Inr_iff item_pieces_def call_piece_def item_ok_def
      id_text_def bedrock_unmappable_def refuse_def split: if_splits)

lemma function_call_items_ok:
  "function_call_items cs = Inr items \<Longrightarrow> concat (map item_pieces items) = map call_piece cs \<and> list_all item_ok items"
proof (induction cs arbitrary: items)
  case (Cons c cs)
  then show ?case using function_call_item_ok [of c] by (auto simp: bind_js_Inr_iff)
qed simp

lemma text_of_message_ok: "text_of_message m = Inr t \<Longrightarrow> t = text_of_content (fld ''content'' m)"
  by (auto simp: text_of_message_def content_to_text_def text_of_content_def bedrock_unmappable_def refuse_def
      split: option.splits jsv.splits if_splits)

lemma items_of_message_ok:
  assumes "items_of_message m = Inr items"
  shows "concat (map item_pieces items) = message_pieces m \<and> list_all item_ok items"
proof -
  let ?role = "fld ''role'' m" and ?c = "fld ''content'' m"
  consider (user) "?role = JStr ''user''"
    | (spoken) role where "?role = JStr role" "List.member [''system'', ''developer'', ''assistant''] role"
    | (tool) "?role = JStr ''tool''"
    using assms by (fastforce simp: items_of_message_def Let_def bedrock_unmappable_def refuse_def split: if_splits)
  then show ?thesis
  proof cases
    case user
    then obtain parts where parts: "user_content_to_items ?c = Some parts" "items = message_item ''user'' parts"
      using assms by (auto simp: items_of_message_def bedrock_unmappable_def refuse_def split: option.splits)
    have "concat (map (content_pieces ''user'') parts) = message_pieces m \<and> list_all (content_ok ''user'') parts"
    proof (cases ?c)
      case (JArr ps)
      then show ?thesis
        using parts(1) user_parts_ok [of "[]" ps parts] by (simp add: user_content_to_items_def message_pieces_def user)
    qed (use parts(1) input_text_ok in \<open>auto simp: user_content_to_items_def message_pieces_def user text_of_content_def\<close>)
    then show ?thesis using message_item_ok [of "''user''" parts] by (simp add: parts(2))
  next
    case spoken
    then obtain t calls where t: "text_of_message m = Inr t"
      and calls: "(if ?role = JStr ''assistant'' then function_call_items (elems (fld ''tool_calls'' m)) else Inr []) = Inr calls"
      and items: "items = spoken_item role t @ calls"
      using assms by (auto simp: items_of_message_def bind_js_Inr_iff split: if_splits)
    have "concat (map item_pieces calls) = (if role = ''assistant'' then map call_piece (elems (fld ''tool_calls'' m)) else [])
        \<and> list_all item_ok calls"
      using calls spoken(1) function_call_items_ok by (auto split: if_splits)
    then show ?thesis
      using spoken_item_ok [OF spoken(2), of t] text_of_message_ok [OF t] spoken
      by (auto simp: items message_pieces_def Let_def)
  next
    case tool
    then show ?thesis
      using assms text_of_message_ok [of m]
      by (auto simp: items_of_message_def bind_js_Inr_iff item_pieces_def message_pieces_def item_ok_def id_text_def)
  qed
qed

lemma input_items_ok:
  "input_items ms = Inr items \<Longrightarrow> concat (map item_pieces items) = concat (map message_pieces ms) \<and> list_all item_ok items"
proof (induction ms arbitrary: items)
  case (Cons m ms)
  then show ?case using items_of_message_ok [of m] by (auto simp: bind_js_Inr_iff)
qed simp

lemma translated_body:
  assumes "to_responses_request p = Inr body"
  obtains input len tier tools where "input_items (elems (fld ''messages'' p)) = Inr input" "input \<noteq> []"
    "length_fields p = Inr len" "bedrock_tier_fields p = Inr tier" "responses_tool_fields p = Inr tools"
    "body = responses_body p input
       (len @ (if is_bool (fld ''parallel_tool_calls'' p) then [(''parallel_tool_calls'', fld ''parallel_tool_calls'' p)] else [])
        @ tier @ plain_fields p @ tools)"
  using assms
  by (auto simp: to_responses_request_def bind_js_Inr_iff bedrock_unmappable_def refuse_def split: option.splits if_splits)

lemma length_fields_cases:
  assumes "length_fields p = Inr len"
  obtains "len = []" "\<not> is_num (nullish (fld ''max_completion_tokens'' p) (fld ''max_tokens'' p))"
    | n where "nullish (fld ''max_completion_tokens'' p) (fld ''max_tokens'' p) = JNum n" "len = [(''max_output_tokens'', JNum n)]"
        "\<not> num_below (JNum n) 16"
  using assms
  by (cases "nullish (fld ''max_completion_tokens'' p) (fld ''max_tokens'' p)")
    (auto simp: length_fields_def Let_def bedrock_unmappable_def refuse_def responses_min_max_output_tokens_def split: if_splits)

lemma later_keys:
  assumes "bedrock_tier_fields p = Inr tier" "responses_tool_fields p = Inr tools"
  shows "fst ` set ((if is_bool (fld ''parallel_tool_calls'' p) then [(''parallel_tool_calls'', fld ''parallel_tool_calls'' p)] else [])
      @ tier @ plain_fields p @ tools)
    \<subseteq> {''parallel_tool_calls'', ''service_tier'', ''reasoning'', ''text'', ''tools'', ''tool_choice''}"
  using assms
  by (auto simp: bedrock_tier_fields_def plain_fields_def responses_tool_fields_def Let_def bind_js_Inr_iff bedrock_unmappable_def
      refuse_def split: if_splits)


definition demo_chat :: jsv where
  "demo_chat = JObj
     [(''model'', JStr ''m''), (''max_tokens'', jint 64),
      (''messages'', JArr
        [JObj [(''role'', JStr ''user''), (''content'', JArr
           [JObj [(''type'', JStr ''text''), (''text'', JStr ''a'')], JObj [(''type'', JStr ''text''), (''text'', JStr ''b'')]])],
         JObj [(''role'', JStr ''assistant''), (''tool_calls'', JArr
           [JObj [(''id'', JStr ''c1''), (''type'', JStr ''function''),
             (''function'', JObj [(''name'', JStr ''f''), (''arguments'', JStr ''{}'')])]])],
         JObj [(''role'', JStr ''tool''), (''tool_call_id'', JStr ''c1''), (''content'', JStr ''r'')]])]"

definition responds :: "fault + jsv \<Rightarrow> bool" where
  "responds m = (case m of Inr b \<Rightarrow> True | Inl f \<Rightarrow> False)"

lemma respondsD: "responds m \<Longrightarrow> \<exists>b. m = Inr b"
  by (simp add: responds_def split: sum.splits)


subsection \<open>Arguments that are lost\<close>

definition replayed_object :: jsv where
  "replayed_object = JObj
     [(''model'', JStr ''openai/gpt-5.5''), (''stream'', JTrue),
      (''messages'', JArr
        [JObj [(''role'', JStr ''user''), (''content'', JStr ''hi'')],
         JObj [(''role'', JStr ''assistant''), (''content'', JStr ''hm''), (''tool_calls'', JArr
           [JObj [(''id'', JStr ''c1''), (''type'', JStr ''function''),
                  (''function'', JObj [(''name'', JStr ''f''), (''arguments'', JObj [(''city'', JStr ''Rome'')])])]])]])]"

definition demo_openai :: jsv where
  "demo_openai = JObj [(''provider'', JStr ''openai''), (''host'', JStr ''api.openai.com''),
     (''key_ref'', JStr ''openai''), (''upstream_model'', JStr ''gpt-5.5''), (''path'', JStr ''/v1/responses''),
     (''api_style'', JStr ''openai-responses''), (''supports_tools'', JTrue)]"

text \<open>A replayed tool call whose arguments are an object, not a string, passes the gate and is sent with empty
  arguments: the builder does not skip the candidate, and the model is told it called the function with none.\<close>

theorem object_arguments_lost:
  "\<exists>body. responses_body_for demo_openai replayed_object = Inr (Inr body) \<and>
     item_pieces (elems (fld ''input'' body) ! 2) = [Invoked (JStr ''c1'') (JStr ''f'') (JStr ''{}'')]"
proof -
  let ?r = "responses_body_for demo_openai replayed_object"
  have "?r = Inr (Inr (projr (projr ?r)))" by code_simp
  moreover have "item_pieces (elems (fld ''input'' (projr (projr ?r))) ! 2) = [Invoked (JStr ''c1'') (JStr ''f'') (JStr ''{}'')]"
    by code_simp
  ultimately show ?thesis by blast
qed

end
