(* ===== verification/SseEvents.thy ===== *)
theory SseEvents
  imports JsPrelude
begin

text \<open>
  Server-sent events as the dialect translators read them (\<open>feed\<close> of \<open>anthropic.mjs\<close> and
  \<open>bedrock.mjs\<close>, which are the same code around two \<open>_dispatch\<close> methods): a carry buffer cut at line
  feeds, data lines gathered until a blank line dispatches them. The answer's chunks are given as the
  text the streaming decoder makes of them. An exception of a dispatch leaves through \<open>feed\<close>.
\<close>

subsection \<open>The reader\<close>

record 'm sse =
  sse_buffer :: string
  sse_data :: "string list"
  sse_core :: 'm

definition cut_line :: "string \<Rightarrow> (string \<times> string) option" where
  "cut_line s = map_option (\<lambda>i. (take i s, drop (Suc i) s)) (index_of s (CHR 0x0A))"

text \<open>\<open>line.replace(/\r$/, '')\<close>.\<close>

definition strip_cr :: "string \<Rightarrow> string" where
  "strip_cr l = (if l \<noteq> [] \<and> last l = CHR 0x0D then butlast l else l)"

definition trim_start :: "string \<Rightarrow> string" where
  "trim_start s = dropWhile is_space s"

type_synonym 'm dispatcher = "'m \<Rightarrow> string \<Rightarrow> js_error + string \<times> 'm"

definition sse_line :: "'m dispatcher \<Rightarrow> string \<Rightarrow> 'm sse \<Rightarrow> js_error + string \<times> 'm sse" where
  "sse_line disp line st =
     (if line = [] then
        (if sse_data st \<noteq> [] then
           bind_js (disp (sse_core st) (str_join [CHR 0x0A] (sse_data st)))
             (\<lambda>(out, m). Inr (out, st\<lparr>sse_data := [], sse_core := m\<rparr>))
         else Inr ([], st))
      else if starts_with line ''data:'' then
        Inr ([], st\<lparr>sse_data := sse_data st @ [trim_start (drop 5 line)]\<rparr>)
      else Inr ([], st))"

lemma cut_line_shorter: "cut_line s = Some (l, r) \<Longrightarrow> length r < length s"
  by (induction s arbitrary: l r) (auto simp: cut_line_def split: if_splits)

lemma sse_line_buffer: "sse_line disp l st = Inr (out, st') \<Longrightarrow> sse_buffer st' = sse_buffer st"
  by (auto simp: sse_line_def bind_js_Inr_iff split: if_splits)

function sse_loop :: "'m dispatcher \<Rightarrow> ('m \<Rightarrow> bool) \<Rightarrow> 'm sse \<Rightarrow> js_error + string \<times> 'm sse" where
  "sse_loop disp silent st =
     (case cut_line (sse_buffer st) of
        None \<Rightarrow> Inr ([], st)
      | Some (l, rest) \<Rightarrow>
          (case sse_line disp (strip_cr l) (st\<lparr>sse_buffer := rest\<rparr>) of
             Inl e \<Rightarrow> Inl e
           | Inr (out, st') \<Rightarrow>
               if strip_cr l = [] \<and> silent (sse_core st') then Inr (out, st')
               else bind_js (sse_loop disp silent st') (\<lambda>(more, st''). Inr (out @ more, st''))))"
  by pat_completeness auto
termination
  by (relation "measure (\<lambda>(_, _, st). length (sse_buffer st))") (auto dest!: cut_line_shorter sse_line_buffer)

declare sse_loop.simps [simp del]

definition sse_feed :: "'m dispatcher \<Rightarrow> ('m \<Rightarrow> bool) \<Rightarrow> string \<Rightarrow> 'm sse \<Rightarrow> js_error + string \<times> 'm sse" where
  "sse_feed disp silent chunk st =
     (if silent (sse_core st) then Inr ([], st)
      else sse_loop disp silent (st\<lparr>sse_buffer := sse_buffer st @ chunk\<rparr>))"

text \<open>A whole answer: its chunks in order, then \<open>finish()\<close>.\<close>

fun sse_run ::
  "'m dispatcher \<Rightarrow> ('m \<Rightarrow> bool) \<Rightarrow> ('m \<Rightarrow> string) \<Rightarrow> 'm sse \<Rightarrow> string list \<Rightarrow> js_error + string" where
  "sse_run disp silent closing st [] = Inr (closing (sse_core st))"
| "sse_run disp silent closing st (c # cs) =
     bind_js (sse_feed disp silent c st) (\<lambda>(out, st').
       bind_js (sse_run disp silent closing st' cs) (\<lambda>more. Inr (out @ more)))"

subsection \<open>The events of an answer\<close>

fun gather :: "string list \<Rightarrow> string list \<Rightarrow> string list" where
  "gather data [] = []"
| "gather data (l # ls) =
     (if l = [] then (if data = [] then gather [] ls else str_join [CHR 0x0A] data # gather [] ls)
      else if starts_with l ''data:'' then gather (data @ [trim_start (drop 5 l)]) ls
      else gather data ls)"

definition sse_lines :: "string \<Rightarrow> string list" where
  "sse_lines s = map strip_cr (butlast (split_char (CHR 0x0A) s))"

definition sse_events :: "string \<Rightarrow> string list" where
  "sse_events s = gather [] (sse_lines s)"

fun run_events ::
  "('m \<Rightarrow> 'd \<Rightarrow> js_error + 'o list \<times> 'm) \<Rightarrow> ('m \<Rightarrow> bool) \<Rightarrow> 'm \<Rightarrow> 'd list \<Rightarrow> js_error + 'o list \<times> 'm" where
  "run_events disp silent m [] = Inr ([], m)"
| "run_events disp silent m (e # es) =
     bind_js (disp m e) (\<lambda>(out, m').
       if silent m' then Inr (out, m')
       else bind_js (run_events disp silent m' es) (\<lambda>(more, m''). Inr (out @ more, m'')))"

lemma run_events_append:
  "run_events disp silent m es = Inr (fs, m') \<Longrightarrow> \<not> silent m' \<Longrightarrow>
     run_events disp silent m (es @ es') = bind_js (run_events disp silent m' es') (\<lambda>(gs, m''). Inr (fs @ gs, m''))"
proof (induction es arbitrary: m fs)
  case Nil
  then show ?case by (auto simp: bind_js_def split: sum.split)
next
  case (Cons e es)
  obtain o1 m1 where disp: "disp m e = Inr (o1, m1)" using Cons.prems(1) by (auto simp: bind_js_Inr_iff)
  show ?case
  proof (cases "silent m1")
    case True
    then show ?thesis using Cons.prems disp by simp
  next
    case False
    obtain o2 where run: "run_events disp silent m1 es = Inr (o2, m')" "fs = o1 @ o2"
      using Cons.prems(1) disp False by (auto simp: bind_js_Inr_iff)
    show ?thesis
      using Cons.IH [OF run(1) Cons.prems(2)] disp False run(2) by (auto simp: bind_js_def split: sum.split)
  qed
qed

subsection \<open>Chunks do not matter\<close>

lemma cut_line_None: "cut_line s = None \<longleftrightarrow> CHR 0x0A \<notin> set s"
  by (simp add: cut_line_def index_of_None_iff)

lemma cut_line_append: "cut_line s = Some (l, r) \<Longrightarrow> cut_line (s @ t) = Some (l, r @ t)"
  by (induction s arbitrary: l r) (auto simp: cut_line_def split: if_splits)

lemma cut_line_split: "cut_line s = Some (l, r) \<Longrightarrow> split_char (CHR 0x0A) s = l # split_char (CHR 0x0A) r"
proof (induction s arbitrary: l r)
  case (Cons c s)
  then show ?case
    by (cases "index_of s (CHR 0x0A)") (auto simp: cut_line_def split: if_splits)
qed (simp add: cut_line_def)

lemma sse_lines_None: "cut_line s = None \<Longrightarrow> sse_lines s = []"
  by (simp add: sse_lines_def cut_line_None split_char_none)

lemma sse_lines_Some: "cut_line s = Some (l, r) \<Longrightarrow> sse_lines s = strip_cr l # sse_lines r"
  by (simp add: sse_lines_def cut_line_split)

lemma sse_line_cases [consumes 1, case_names event blank data other]:
  assumes "sse_line disp l st = Inr (out, st')"
  obtains m where "l = []" "sse_data st \<noteq> []" "disp (sse_core st) (str_join [CHR 0x0A] (sse_data st)) = Inr (out, m)"
      "st' = st\<lparr>sse_data := [], sse_core := m\<rparr>"
    | "l = []" "sse_data st = []" "out = []" "st' = st"
    | "l \<noteq> []" "starts_with l ''data:''" "out = []" "st' = st\<lparr>sse_data := sse_data st @ [trim_start (drop 5 l)]\<rparr>"
    | "l \<noteq> []" "\<not> starts_with l ''data:''" "out = []" "st' = st"
  using assms by (auto simp: sse_line_def bind_js_Inr_iff split: if_splits)

text \<open>The state after some text: silent, or out of complete lines.\<close>

definition drained :: "('m \<Rightarrow> bool) \<Rightarrow> 'm sse \<Rightarrow> bool" where
  "drained silent st \<longleftrightarrow> silent (sse_core st) \<or> cut_line (sse_buffer st) = None"

definition start_sse :: "'m \<Rightarrow> 'm sse" where
  "start_sse m = \<lparr>sse_buffer = [], sse_data = [], sse_core = m\<rparr>"

text \<open>What is left to do from a state with some text still to come.\<close>

definition outcome :: "'m dispatcher \<Rightarrow> ('m \<Rightarrow> bool) \<Rightarrow> ('m \<Rightarrow> string) \<Rightarrow> 'm sse \<Rightarrow> string \<Rightarrow> js_error + string" where
  "outcome disp silent closing st s =
     (if silent (sse_core st) then Inr (closing (sse_core st))
      else bind_js (run_events disp silent (sse_core st) (gather (sse_data st) (sse_lines (sse_buffer st @ s))))
             (\<lambda>(out, m). Inr (out @ closing m)))"

lemma outcome_loop:
  assumes "\<not> silent (sse_core st)"
  shows "outcome disp silent closing st s =
    (case sse_loop disp silent st of Inl e \<Rightarrow> Inl e
     | Inr (out, st') \<Rightarrow> bind_js (outcome disp silent closing st' s) (\<lambda>more. Inr (out @ more)))"
  using assms
proof (induction disp silent st rule: sse_loop.induct)
  case (1 disp silent st)
  show ?case
  proof (cases "cut_line (sse_buffer st)")
    case None
    then show ?thesis
      by (subst sse_loop.simps) (auto simp: outcome_def bind_js_def split: sum.split prod.split)
  next
    case (Some p)
    obtain l r where p: "p = (l, r)" by (cases p)
    note cut = Some [unfolded p]
    have lines: "sse_lines (sse_buffer st @ s) = strip_cr l # sse_lines (r @ s)"
      using cut_line_append [OF cut] by (rule sse_lines_Some)
    show ?thesis
    proof (cases "sse_line disp (strip_cr l) (st\<lparr>sse_buffer := r\<rparr>)")
      case (Inl e)
      then show ?thesis
        using 1(2) by (subst sse_loop.simps)
          (auto simp: cut outcome_def lines sse_line_def bind_js_def split: if_splits sum.splits prod.splits)
    next
      case (Inr q)
      obtain out st' where q: "q = (out, st')" by (cases q)
      show ?thesis
      proof (cases "strip_cr l = [] \<and> silent (sse_core st')")
        case True
        then show ?thesis
          using 1(2) Inr by (subst sse_loop.simps)
            (auto simp: cut q outcome_def lines sse_line_def bind_js_def split: if_splits sum.splits prod.splits)
      next
        case False
        have live: "\<not> silent (sse_core st')"
          using False 1(2) Inr by (auto simp: q sse_line_def bind_js_Inr_iff split: if_splits)
        from Inr [unfolded q] have "outcome disp silent closing st s = bind_js (outcome disp silent closing st' s) (\<lambda>more. Inr (out @ more))"
        proof (cases rule: sse_line_cases)
          case (event m)
          then show ?thesis
            using 1(2) live by (simp add: outcome_def lines bind_js_def split: sum.splits prod.splits)
        qed (use 1(2) live in \<open>simp_all add: outcome_def lines bind_js_def split: sum.splits prod.splits\<close>)
        moreover note 1(1) [OF cut refl Inr q [symmetric] False live]
        ultimately show ?thesis
          using Inr False by (subst sse_loop.simps)
            (auto simp: cut q bind_js_def split: sum.splits prod.splits)
      qed
    qed
  qed
qed

lemma loop_drained: "sse_loop disp silent st = Inr (out, st') \<Longrightarrow> drained silent st'"
proof (induction disp silent st arbitrary: out st' rule: sse_loop.induct)
  case (1 disp silent st)
  note IH = 1(1) and run = 1(2)
  show ?case
  proof (cases "cut_line (sse_buffer st)")
    case None
    then show ?thesis using run by (subst (asm) sse_loop.simps) (simp add: drained_def)
  next
    case (Some p)
    obtain l r where p: "p = (l, r)" by (cases p)
    show ?thesis
    proof (cases "sse_line disp (strip_cr l) (st\<lparr>sse_buffer := r\<rparr>)")
      case (Inl e)
      then show ?thesis using run by (subst (asm) sse_loop.simps) (simp add: Some p)
    next
      case (Inr q)
      obtain o1 st1 where q: "q = (o1, st1)" by (cases q)
      show ?thesis
      proof (cases "strip_cr l = [] \<and> silent (sse_core st1)")
        case True
        then show ?thesis using run Inr by (subst (asm) sse_loop.simps) (auto simp: Some p q drained_def)
      next
        case False
        obtain o2 where "sse_loop disp silent st1 = Inr (o2, st')"
          using run Inr False by (subst (asm) sse_loop.simps) (auto simp: Some p q bind_js_Inr_iff)
        then show ?thesis by (rule IH [OF Some [unfolded p] refl Inr q [symmetric] False])
      qed
    qed
  qed
qed

subsection \<open>The interface of a translator\<close>

text \<open>The law of \<open>finish\<close>: it says nothing once the stream is over.\<close>

locale sse_translator =
  fixes disp :: "'m dispatcher" and silent :: "'m \<Rightarrow> bool" and closing :: "'m \<Rightarrow> string"
  assumes closing_silent: "silent m \<Longrightarrow> closing m = []"
begin

lemma silent_run: "silent (sse_core st) \<Longrightarrow> sse_run disp silent closing st cs = Inr []"
  by (induction cs) (simp_all add: closing_silent sse_feed_def)

lemma run_outcome: "drained silent st \<Longrightarrow> sse_run disp silent closing st cs = outcome disp silent closing st (concat cs)"
proof (induction cs arbitrary: st)
  case Nil
  then show ?case by (auto simp: outcome_def drained_def sse_lines_None)
next
  case (Cons c cs)
  show ?case
  proof (cases "silent (sse_core st)")
    case True
    then show ?thesis using silent_run [of st] closing_silent by (simp add: outcome_def del: sse_run.simps)
  next
    case False
    let ?st = "st\<lparr>sse_buffer := sse_buffer st @ c\<rparr>"
    have "outcome disp silent closing st (concat (c # cs)) = outcome disp silent closing ?st (concat cs)"
      by (simp add: outcome_def)
    also have "\<dots> = (case sse_loop disp silent ?st of Inl e \<Rightarrow> Inl e
        | Inr (out, st') \<Rightarrow> bind_js (outcome disp silent closing st' (concat cs)) (\<lambda>more. Inr (out @ more)))"
      using False by (intro outcome_loop) simp
    also have "\<dots> = sse_run disp silent closing st (c # cs)"
      using False Cons.IH loop_drained [of disp silent ?st]
      by (auto simp: sse_feed_def bind_js_def split: sum.split prod.split)
    finally show ?thesis by simp
  qed
qed

theorem any_chunking:
  "\<not> silent m \<Longrightarrow> sse_run disp silent closing (start_sse m) cs =
     bind_js (run_events disp silent m (sse_events (concat cs))) (\<lambda>(out, m'). Inr (out @ closing m'))"
  using run_outcome [of "start_sse m" cs]
  by (simp add: drained_def start_sse_def cut_line_None outcome_def sse_events_def)

end

end
