(* ===== verification/ChatFrames.thy ===== *)
theory ChatFrames
  imports SseEvents JsConvert
begin

text \<open>
  The chat stream that both dialect translators produce: data frames that hold one JSON object each,
  then one terminal frame. What a translator writes is read back, frame by frame, by the reader of
  \<open>SseEvents\<close>, however the translator's own input was cut into chunks.
\<close>

subsection \<open>Frames\<close>

datatype frame = Frame js_fields | DoneMark

definition frame_data :: "frame \<Rightarrow> string" where
  "frame_data f = (case f of Frame kvs \<Rightarrow> json_text (JObj kvs) | DoneMark \<Rightarrow> ''[DONE]'')"

definition frame_text :: "frame \<Rightarrow> string" where
  "frame_text f = ''data: '' @ frame_data f @ [CHR 0x0A, CHR 0x0A]"

definition frames_text :: "frame list \<Rightarrow> string" where
  "frames_text fs = concat (map frame_text fs)"

text \<open>A frame that reports a failure, and the frames that end an answer.\<close>

definition is_failure :: "frame \<Rightarrow> bool" where
  "is_failure f = (case f of Frame kvs \<Rightarrow> ''error'' \<in> fst ` set kvs | DoneMark \<Rightarrow> False)"

definition terminal :: "frame \<Rightarrow> bool" where
  "terminal f \<longleftrightarrow> f = DoneMark \<or> is_failure f"

subsection \<open>JSON text has no control characters\<close>

definition printable :: "string \<Rightarrow> bool" where
  "printable s \<longleftrightarrow> (\<forall>c \<in> set s. 32 \<le> (of_char c :: nat))"

lemma printable_simps [simp]:
  "printable []" "printable (c # s) \<longleftrightarrow> 32 \<le> (of_char c :: nat) \<and> printable s"
  "printable (s @ t) \<longleftrightarrow> printable s \<and> printable t"
  "printable (concat ss) \<longleftrightarrow> (\<forall>s \<in> set ss. printable s)"
  by (auto simp: printable_def)

lemma printable_subset: "set s \<subseteq> set t \<Longrightarrow> printable t \<Longrightarrow> printable s"
  by (auto simp: printable_def)

lemma printable_digits: "list_all is_digit s \<Longrightarrow> printable s"
  by (auto simp: printable_def list_all_iff is_digit_def)

lemma printable_num_str [simp]: "printable (num_str n)"
proof (induction n rule: num_str.induct)
  case (1 n)
  have digit: "32 \<le> (of_char (digit_char d) :: nat)" if "d < 10" for d
    using that by (simp add: digit_char_def)
  show ?case
    using 1 digit [of n] digit [of "n mod 10"] by (subst num_str.simps) simp
qed

lemma printable_int_str [simp]: "printable (int_str i)"
  by (simp add: int_str_def)

lemma printable_parts:
  "printable s \<Longrightarrow> printable (take k s)" "printable s \<Longrightarrow> printable (drop k s)"
  "printable s \<Longrightarrow> printable (strip_zeros s)"
  using set_take_subset [of k s] set_drop_subset [of k s] set_dropWhileD [of _ "\<lambda>c. c = CHR ''0''" "rev s"]
  by (auto simp: printable_def strip_zeros_def)

lemma printable_replicate [simp]: "printable (replicate k (CHR ''0''))"
  by (auto simp: printable_def)

lemma printable_digits_at: "printable ds \<Longrightarrow> printable (digits_at ds n)"
  by (auto simp: digits_at_def Let_def printable_parts split: list.split)

lemma printable_rat_str [simp]: "printable (rat_str q)"
  by (simp add: rat_str_def fraction_str_def Let_def printable_digits_at printable_parts)

lemma printable_number [simp]: "printable (json_num_str n)"
  by (cases n) (simp_all add: json_num_str_def)

lemma printable_hex_digits: "\<forall>d \<in> set [0..15]. 32 \<le> (of_char (hex_digit_of d) :: nat)"
  by code_simp

lemma printable_hex_digit: "0 \<le> d \<Longrightarrow> d < 16 \<Longrightarrow> 32 \<le> (of_char (hex_digit_of d) :: nat)"
  using printable_hex_digits [rule_format, of d] by simp

lemma printable_hex4: "printable (hex4 c)"
proof -
  have "(of_char c :: int) div 16 < 16" "0 \<le> (of_char c :: int) div 16" using char_code_bounds [of c] by linarith+
  then show ?thesis by (simp add: hex4_def printable_hex_digit)
qed

lemma printable_escape: "printable (json_escape_char c)"
  using printable_hex4 [of c] char_code_int [of c]
  by (simp add: json_escape_char_def Let_def u_escape_def)

lemma printable_quote [simp]: "printable (json_quote s)"
  using printable_escape by (simp add: json_quote_def)

lemma printable_join: "printable sep \<Longrightarrow> \<forall>w \<in> set ws. printable w \<Longrightarrow> printable (str_join sep ws)"
  by (auto simp: str_join_def split: list.split)

lemma printable_json: "printable (json_text v)"
proof (induction v)
  case (JArr xs)
  then show ?case by (auto intro!: printable_join)
next
  case (JObj kvs)
  then show ?case by (fastforce intro!: printable_join)
qed simp_all

subsection \<open>A reader of the stream sees the frames\<close>

lemma frame_data_shape:
  obtains c t where "frame_data f = c # t" "\<not> is_space c" "last (frame_data f) \<noteq> CHR 0x0D" "CHR 0x0A \<notin> set (frame_data f)"
proof -
  have feed: "CHR 0x0A \<notin> set (frame_data f)"
  proof (cases f)
    case (Frame kvs)
    show ?thesis using printable_json [of "JObj kvs"] unfolding Frame frame_data_def printable_def by force
  qed (simp add: frame_data_def)
  obtain c t where "frame_data f = c # t" "\<not> is_space c" "last (frame_data f) \<noteq> CHR 0x0D"
    by (cases f) (auto simp: frame_data_def is_space_def)
  then show ?thesis using feed by (rule that)
qed

lemma sse_lines_cut: "CHR 0x0A \<notin> set l \<Longrightarrow> sse_lines (l @ CHR 0x0A # r) = strip_cr l # sse_lines r"
  by (simp add: sse_lines_def split_char_append)

lemma sse_lines_frame: "sse_lines (frame_text f @ r) = (''data: '' @ frame_data f) # [] # sse_lines r"
proof -
  obtain c t where f: "frame_data f = c # t" "\<not> is_space c" "last (frame_data f) \<noteq> CHR 0x0D" "CHR 0x0A \<notin> set (frame_data f)"
    by (rule frame_data_shape)
  have "sse_lines (frame_text f @ r) = strip_cr (''data: '' @ frame_data f) # sse_lines (CHR 0x0A # r)"
    using sse_lines_cut [of "''data: '' @ frame_data f" "CHR 0x0A # r"] f(4) by (simp add: frame_text_def)
  also have "strip_cr (''data: '' @ frame_data f) = ''data: '' @ frame_data f"
    using f(1,3) by (simp add: strip_cr_def)
  also have "sse_lines (CHR 0x0A # r) = [] # sse_lines r"
    using sse_lines_cut [of "[]" r] by (simp add: strip_cr_def)
  finally show ?thesis .
qed

lemma sse_events_frame: "sse_events (frame_text f @ r) = frame_data f # sse_events r"
proof -
  obtain c t where f: "frame_data f = c # t" "\<not> is_space c" by (rule frame_data_shape)
  then have "trim_start (CHR '' '' # frame_data f) = frame_data f"
    by (simp add: trim_start_def is_space_def)
  then show ?thesis
    by (simp add: sse_events_def sse_lines_frame starts_with_def str_join_def)
qed

lemma sse_events_frames: "sse_events (frames_text fs) = map frame_data fs"
proof (induction fs)
  case Nil
  then show ?case by (simp add: frames_text_def sse_events_def sse_lines_def)
next
  case (Cons f fs)
  then show ?case by (simp add: frames_text_def sse_events_frame)
qed

subsection \<open>The contract of a translator\<close>

text \<open>A translator reacts to the text of an event with frames. Until it is silent it writes plain
  frames only; what makes it silent, an event or the end of the input, writes one terminal frame last.\<close>

type_synonym 'm reaction = "'m \<Rightarrow> string \<Rightarrow> js_error + frame list \<times> 'm"

definition written :: "'m reaction \<Rightarrow> 'm dispatcher" where
  "written react m d = bind_js (react m d) (\<lambda>(fs, m'). Inr (frames_text fs, m'))"

definition ends_well :: "frame list \<Rightarrow> bool" where
  "ends_well fs \<longleftrightarrow> fs \<noteq> [] \<and> terminal (last fs) \<and> list_all (\<lambda>f. \<not> terminal f) (butlast fs)"

lemma frames_text_append: "frames_text (fs @ gs) = frames_text fs @ frames_text gs"
  by (simp add: frames_text_def)

lemma run_written:
  "run_events (written react) silent m es =
     bind_js (run_events react silent m es) (\<lambda>(fs, m'). Inr (frames_text fs, m'))"
proof (induction es arbitrary: m)
  case Nil
  then show ?case by (simp add: frames_text_def)
next
  case (Cons e es)
  then show ?case
    by (auto simp: written_def bind_js_def frames_text_append split: sum.split prod.split)
qed

locale chat_translator =
  fixes react :: "'m reaction" and silent :: "'m \<Rightarrow> bool" and closing :: "'m \<Rightarrow> frame list"
  assumes closing_quiet: "silent m \<Longrightarrow> closing m = []"
    and closing_last: "\<not> silent m \<Longrightarrow> ends_well (closing m)"
    and react_plain: "\<not> silent m \<Longrightarrow> react m d = Inr (fs, m') \<Longrightarrow> \<not> silent m' \<Longrightarrow> list_all (\<lambda>f. \<not> terminal f) fs"
    and react_last: "\<not> silent m \<Longrightarrow> react m d = Inr (fs, m') \<Longrightarrow> silent m' \<Longrightarrow> ends_well fs"
begin

lemma written_translator: "sse_translator silent (\<lambda>m. frames_text (closing m))"
  by unfold_locales (simp add: closing_quiet frames_text_def)

lemma ends_well_plain: "list_all (\<lambda>f. \<not> terminal f) fs \<Longrightarrow> ends_well gs \<Longrightarrow> ends_well (fs @ gs)"
  by (auto simp: ends_well_def butlast_append)

lemma run_ends:
  "\<not> silent m \<Longrightarrow> run_events react silent m es = Inr (fs, m') \<Longrightarrow>
     (if silent m' then ends_well fs else list_all (\<lambda>f. \<not> terminal f) fs)"
proof (induction es arbitrary: m fs)
  case (Cons e es)
  obtain gs m1 where step: "react m e = Inr (gs, m1)"
    using Cons.prems(2) by (auto simp: bind_js_Inr_iff)
  show ?case
  proof (cases "silent m1")
    case True
    then show ?thesis using Cons.prems step react_last [OF Cons.prems(1) step] by simp
  next
    case False
    obtain hs where "run_events react silent m1 es = Inr (hs, m')" "fs = gs @ hs"
      using Cons.prems(2) step False by (auto simp: bind_js_Inr_iff)
    then show ?thesis
      using Cons.IH [OF False] react_plain [OF Cons.prems(1) step False] ends_well_plain [of gs hs] by auto
  qed
qed simp

text \<open>Whatever the input and its chunks: unless a conversion throws, the client reads plain frames and
  then exactly one terminal frame.\<close>

theorem one_terminal_frame:
  assumes "\<not> silent m" "sse_run (written react) silent (\<lambda>m. frames_text (closing m)) (start_sse m) cs = Inr out"
  shows "\<exists>fs m'. run_events react silent m (sse_events (concat cs)) = Inr (fs, m') \<and>
    out = frames_text (fs @ closing m') \<and> sse_events out = map frame_data (fs @ closing m') \<and> ends_well (fs @ closing m')"
proof -
  note assms(2) [unfolded sse_translator.any_chunking [OF written_translator assms(1)] run_written]
  then obtain fs m' where run: "run_events react silent m (sse_events (concat cs)) = Inr (fs, m')"
      and out: "out = frames_text (fs @ closing m')"
    by (auto simp: bind_js_Inr_iff frames_text_append)
  have "ends_well (fs @ closing m')"
    using run_ends [OF assms(1) run] ends_well_plain [OF _ closing_last] closing_quiet by (cases "silent m'") auto
  then show ?thesis using run out sse_events_frames by blast
qed

end

subsection \<open>The chunks of a chat answer\<close>

record chat_head =
  ch_id :: string
  ch_created :: rat
  ch_model :: string

definition chunk_frame :: "chat_head \<Rightarrow> js_fields \<Rightarrow> jsv \<Rightarrow> frame" where
  "chunk_frame h delta finish =
     Frame [(''id'', JStr (ch_id h)), (''object'', JStr ''chat.completion.chunk''), (''created'', JNum (Fin (ch_created h))),
       (''model'', JStr (ch_model h)),
       (''choices'', JArr [JObj [(''index'', jint 0), (''delta'', JObj delta), (''finish_reason'', finish)]])]"

definition error_frame :: "string \<Rightarrow> frame" where
  "error_frame message = Frame [(''error'', JObj [(''message'', JStr message), (''code'', jint 502)])]"

lemma frame_kinds [simp]:
  "error_frame message \<noteq> DoneMark" "\<not> terminal (chunk_frame h delta finish)" "terminal (error_frame message)" "terminal DoneMark"
  "is_failure (error_frame message)" "\<not> is_failure DoneMark" "\<not> is_failure (chunk_frame h delta finish)"
  by (simp_all add: terminal_def is_failure_def chunk_frame_def error_frame_def)

lemma ends_well_single [simp]: "ends_well [f] = terminal f"
  by (simp add: ends_well_def)

text \<open>What a client collects from the frames: the text, and the arguments of the tool call with an index.\<close>

definition frame_delta :: "frame \<Rightarrow> jsv" where
  "frame_delta f = (case f of Frame kvs \<Rightarrow> fld ''delta'' (hd (elems (fld ''choices'' (JObj kvs)) @ [JUndef])) | DoneMark \<Rightarrow> JUndef)"

definition answer_text :: "frame list \<Rightarrow> string" where
  "answer_text fs = concat (map (\<lambda>f. str_of (fld ''content'' (frame_delta f))) fs)"

definition call_arguments :: "nat \<Rightarrow> frame list \<Rightarrow> string" where
  "call_arguments i fs =
     concat (map (\<lambda>f. concat (map (\<lambda>c. str_of (fld ''arguments'' (fld ''function'' c)))
       (filter (\<lambda>c. fld ''index'' c = jnat i) (elems (fld ''tool_calls'' (frame_delta f)))))) fs)"

lemma frame_delta_simps [simp]:
  "frame_delta (chunk_frame h delta finish) = JObj delta" "frame_delta (error_frame message) = JUndef"
  "frame_delta DoneMark = JUndef"
  by (simp_all add: frame_delta_def chunk_frame_def error_frame_def)

lemma collected_append [simp]:
  "answer_text (fs @ gs) = answer_text fs @ answer_text gs"
  "call_arguments i (fs @ gs) = call_arguments i fs @ call_arguments i gs"
  "answer_text [] = []" "call_arguments i [] = []"
  by (simp_all add: answer_text_def call_arguments_def)

text \<open>\<open>Map\<close> with values of a parsed event as keys. An array or an object is a key by reference, and each
  event is parsed anew: such a key is never found again.\<close>

definition map_read :: "(jsv \<times> 'a) list \<Rightarrow> jsv \<Rightarrow> 'a option" where
  "map_read m k = (if typeof_object k then None else map_of m k)"

definition map_write :: "jsv \<Rightarrow> 'a \<Rightarrow> (jsv \<times> 'a) list \<Rightarrow> (jsv \<times> 'a) list" where
  "map_write k v m = AList.update k v m"

subsection \<open>What a stream says\<close>

datatype stage = Continues | Stops | Fails

text \<open>The events that are part of the answer, and whether it is complete.\<close>

definition answer_events :: "(string \<Rightarrow> stage) \<Rightarrow> string list \<Rightarrow> string list" where
  "answer_events stage_of es = takeWhile (\<lambda>d. stage_of d = Continues) es"

definition answer_complete :: "(string \<Rightarrow> stage) \<Rightarrow> string list \<Rightarrow> bool" where
  "answer_complete stage_of es =
     (case dropWhile (\<lambda>d. stage_of d = Continues) es of [] \<Rightarrow> False | d # _ \<Rightarrow> stage_of d = Stops)"

text \<open>The translators differ in their handlers; what follows from the steps is shared.\<close>

locale staged_translator = chat_translator react silent closing
  for react :: "'m reaction" and silent :: "'m \<Rightarrow> bool" and closing :: "'m \<Rightarrow> frame list" +
  fixes stage_of :: "string \<Rightarrow> stage" and said :: "string \<Rightarrow> string"
  assumes step: "\<not> silent m \<Longrightarrow> react m d = Inr (fs, m') \<Longrightarrow>
      (case stage_of d of
         Continues \<Rightarrow> \<not> silent m' \<and> answer_text fs = said d
       | Stops \<Rightarrow> silent m' \<and> last fs = DoneMark \<and> answer_text fs = []
       | Fails \<Rightarrow> silent m' \<and> last fs \<noteq> DoneMark \<and> answer_text fs = [])"
    and closing_fails: "\<not> silent m \<Longrightarrow> last (closing m) \<noteq> DoneMark \<and> answer_text (closing m) = []"
begin

lemma run_says:
  assumes "\<not> silent m" "run_events react silent m es = Inr (fs, m')"
  shows "answer_text (fs @ closing m') = concat (map said (answer_events stage_of es)) \<and>
    (last (fs @ closing m') = DoneMark \<longleftrightarrow> answer_complete stage_of es)"
  using assms
proof (induction es arbitrary: m fs)
  case Nil
  then show ?case using closing_fails by (simp add: answer_events_def answer_complete_def)
next
  case (Cons d es)
  obtain gs m1 where react: "react m d = Inr (gs, m1)"
    using Cons.prems(2) by (auto simp: bind_js_Inr_iff)
  note now = step [OF Cons.prems(1) react]
  show ?case
  proof (cases "stage_of d")
    case Continues
    then have live: "\<not> silent m1" using now by simp
    obtain hs where rest: "run_events react silent m1 es = Inr (hs, m')" "fs = gs @ hs"
      using Cons.prems(2) react live by (auto simp: bind_js_Inr_iff)
    have "hs @ closing m' \<noteq> []"
      using run_ends [OF live rest(1)] closing_last [of m'] by (cases "silent m'") (auto simp: ends_well_def)
    then show ?thesis
      using Cons.IH [OF live rest(1)] now Continues rest(2)
      by (simp add: answer_events_def answer_complete_def last_append split: if_splits)
  next
    case Stops
    then show ?thesis using Cons.prems react now closing_quiet [of m1]
      by (simp add: answer_events_def answer_complete_def)
  next
    case Fails
    then show ?thesis using Cons.prems react now closing_quiet [of m1]
      by (simp add: answer_events_def answer_complete_def)
  qed
qed

lemma run_total:
  assumes "\<And>m d. d \<in> set es \<Longrightarrow> \<exists>r. react m d = Inr r"
  shows "\<exists>r. run_events react silent m es = Inr r"
  using assms
proof (induction es arbitrary: m)
  case (Cons d es)
  obtain gs m1 where react: "react m d = Inr (gs, m1)"
    using Cons.prems [of d m] by auto
  show ?case
    using Cons.IH [of m1] Cons.prems react by (auto simp: bind_js_def split: sum.split)
qed simp

lemma run_continues:
  assumes "\<not> silent m" "list_all (\<lambda>d. stage_of d = Continues) es" "\<And>m d. d \<in> set es \<Longrightarrow> \<exists>r. react m d = Inr r"
  shows "\<exists>fs m'. run_events react silent m es = Inr (fs, m') \<and> \<not> silent m' \<and>
    (\<forall>es'. run_events react silent m (es @ es') = bind_js (run_events react silent m' es') (\<lambda>(gs, m''). Inr (fs @ gs, m'')))"
  using assms
proof (induction es arbitrary: m)
  case Nil
  then show ?case by (auto simp: bind_js_def split: sum.split)
next
  case (Cons d es)
  obtain gs m1 where react: "react m d = Inr (gs, m1)"
    using Cons.prems(3) [of d m] by auto
  have live: "\<not> silent m1" using step [OF Cons.prems(1) react] Cons.prems(2) by simp
  obtain fs m' where run: "run_events react silent m1 es = Inr (fs, m')" "\<not> silent m'"
      "\<forall>es'. run_events react silent m1 (es @ es') = bind_js (run_events react silent m' es') (\<lambda>(gs, m''). Inr (fs @ gs, m''))"
    using Cons.IH [OF live] Cons.prems(2,3) by auto
  have "run_events react silent m ((d # es) @ es') =
      bind_js (run_events react silent m' es') (\<lambda>(hs, m''). Inr ((gs @ fs) @ hs, m''))" for es'
    using react live run(3) by (auto simp: bind_js_def split: sum.split)
  moreover have "run_events react silent m (d # es) = Inr (gs @ fs, m')"
    using react live run(1) by simp
  ultimately show ?case using run(2) by blast
qed

lemma stream_text:
  "\<not> silent m \<Longrightarrow> run_events react silent m (sse_events (concat cs)) = Inr (fs, m') \<Longrightarrow>
     sse_run (written react) silent (\<lambda>m. frames_text (closing m)) (start_sse m) cs = Inr (frames_text (fs @ closing m'))"
  using sse_translator.any_chunking [OF written_translator]
  by (simp add: run_written frames_text_append)

theorem stream_delivers:
  assumes live: "\<not> silent m" and total: "\<And>m d. d \<in> set (sse_events (concat cs)) \<Longrightarrow> \<exists>r. react m d = Inr r"
  shows "\<exists>out fs. sse_run (written react) silent (\<lambda>m. frames_text (closing m)) (start_sse m) cs = Inr out \<and>
    sse_events out = map frame_data fs \<and> ends_well fs \<and>
    answer_text fs = concat (map said (answer_events stage_of (sse_events (concat cs)))) \<and>
    (last fs = DoneMark \<longleftrightarrow> answer_complete stage_of (sse_events (concat cs)))"
proof -
  obtain fs m' where run: "run_events react silent m (sse_events (concat cs)) = Inr (fs, m')"
    using run_total [OF total, of _ m] by force
  let ?fs = "fs @ closing m'"
  have out: "sse_run (written react) silent (\<lambda>m. frames_text (closing m)) (start_sse m) cs = Inr (frames_text ?fs)"
    by (rule stream_text [OF live run])
  have "ends_well ?fs"
    using run_ends [OF live run] ends_well_plain [OF _ closing_last] closing_quiet by (cases "silent m'") auto
  then show ?thesis
    using run_says [OF live run] by (intro exI [of _ "frames_text ?fs"] exI [of _ ?fs] conjI out sse_events_frames) auto
qed
end

end
