(* ===== verification/MessagesStream.thy ===== *)
theory MessagesStream
  imports ChatFrames
begin

text \<open>
  \<open>MessagesToChatSse\<close> of \<open>enclave/src/anthropic.mjs\<close>: the events of an Anthropic Messages stream become
  chat chunks. The state is the object's fields without the reader's buffer, which \<open>SseEvents\<close> holds;
  a handler per event type, \<open>_dispatch\<close>, \<open>feed\<close> and \<open>finish\<close>. The id and the creation time of the
  answer are part of the initial state.
\<close>

subsection \<open>State\<close>

record messages_state =
  mt_head :: chat_head
  mt_wire_model :: "string option"
  mt_terminal_model :: "string option"
  mt_tools :: "(jsv \<times> nat) list"
  mt_tool_count :: nat
  mt_usage :: js_fields
  mt_finish_reason :: "string option"
  mt_completed :: bool
  mt_done :: bool
  mt_fatal :: bool

definition messages_start :: "chat_head \<Rightarrow> messages_state" where
  "messages_start h =
     \<lparr>mt_head = h, mt_wire_model = None, mt_terminal_model = None, mt_tools = [], mt_tool_count = 0,
      mt_usage = [(''input_tokens'', jint 0), (''output_tokens'', jint 0)], mt_finish_reason = None,
      mt_completed = False, mt_done = False, mt_fatal = False\<rparr>"

definition messages_quiet :: "messages_state \<Rightarrow> bool" where
  "messages_quiet m \<longleftrightarrow> mt_fatal m \<or> mt_done m"

definition messages_chunk :: "messages_state \<Rightarrow> js_fields \<Rightarrow> jsv \<Rightarrow> frame" where
  "messages_chunk m delta finish = chunk_frame (mt_head m) delta finish"

definition messages_error :: "string \<Rightarrow> messages_state \<Rightarrow> frame list \<times> messages_state" where
  "messages_error message m = ([error_frame message], m\<lparr>mt_fatal := True\<rparr>)"

definition stop_reason_map :: "(string \<times> string) list" where
  "stop_reason_map =
     [(''end_turn'', ''stop''), (''stop_sequence'', ''stop''), (''max_tokens'', ''length''), (''tool_use'', ''tool_calls'')]"

subsection \<open>Handlers\<close>

definition token_count :: "jsv \<Rightarrow> js_error + jsv" where
  "token_count v = bind_js (js_number (nullish v (jint 0))) (\<lambda>n. Inr (JNum n))"

definition cache_bucket :: "string \<Rightarrow> jsv \<Rightarrow> js_error + js_fields" where
  "cache_bucket k usage =
     (if fld k usage \<noteq> JUndef then bind_js (js_number (fld k usage)) (\<lambda>n. Inr [(k, JNum n)]) else Inr [])"

definition opening_usage :: "jsv \<Rightarrow> js_error + js_fields" where
  "opening_usage usage =
     bind_js (token_count (fld ''input_tokens'' usage)) (\<lambda>i.
     bind_js (token_count (fld ''output_tokens'' usage)) (\<lambda>out.
     bind_js (cache_bucket ''cache_read_input_tokens'' usage) (\<lambda>r.
     bind_js (cache_bucket ''cache_creation_input_tokens'' usage) (\<lambda>w.
       Inr ([(''input_tokens'', i), (''output_tokens'', out)] @ r @ w)))))"

definition named_model :: "jsv \<Rightarrow> string option \<Rightarrow> string option" where
  "named_model v old = (case v of JStr s \<Rightarrow> Some s | _ \<Rightarrow> old)"

definition on_message_start :: "messages_state \<Rightarrow> jsv \<Rightarrow> js_error + frame list \<times> messages_state" where
  "on_message_start m event =
     (let message = fld ''message'' event
      in bind_js (opening_usage (fld ''usage'' message)) (\<lambda>u.
           Inr ([messages_chunk m [(''role'', JStr ''assistant''), (''content'', JStr [])] JNull],
                m\<lparr>mt_wire_model := named_model (fld ''model'' message) (mt_wire_model m), mt_usage := u\<rparr>)))"

definition on_block_start :: "messages_state \<Rightarrow> jsv \<Rightarrow> js_error + frame list \<times> messages_state" where
  "on_block_start m event =
     (let block = fld ''content_block'' event
      in if fld ''type'' block \<noteq> JStr ''tool_use'' then Inr ([], m)
         else
           let index = mt_tool_count m;
               m1 = m\<lparr>mt_tool_count := Suc index, mt_tools := map_write (fld ''index'' event) index (mt_tools m)\<rparr>
           in bind_js (js_string (nullish (fld ''id'' block) (JStr []))) (\<lambda>i.
                Inr ([messages_chunk m
                       [(''tool_calls'', JArr [JObj
                          [(''index'', jnat index), (''id'', JStr i), (''type'', JStr ''function''),
                           (''function'', JObj [(''name'', nullish (fld ''name'' block) (JStr [])), (''arguments'', JStr [])])]])]
                       JNull], m1)))"

definition on_block_delta :: "messages_state \<Rightarrow> jsv \<Rightarrow> frame list" where
  "on_block_delta m event =
     (let delta = fld ''delta'' event
      in if fld ''type'' delta = JStr ''text_delta'' then
           (case fld ''text'' delta of
              JStr t \<Rightarrow> if t \<noteq> [] then [messages_chunk m [(''content'', JStr t)] JNull] else []
            | _ \<Rightarrow> [])
         else if fld ''type'' delta = JStr ''input_json_delta'' then
           (case (map_read (mt_tools m) (fld ''index'' event), fld ''partial_json'' delta) of
              (Some index, JStr t) \<Rightarrow>
                [messages_chunk m
                   [(''tool_calls'', JArr [JObj [(''index'', jnat index), (''function'', JObj [(''arguments'', JStr t)])]])] JNull]
            | _ \<Rightarrow> [])
         else [])"

definition on_message_delta :: "messages_state \<Rightarrow> jsv \<Rightarrow> messages_state" where
  "on_message_delta m event =
     (let m1 = m\<lparr>mt_terminal_model := named_model (fld ''model'' (fld ''message'' event)) (mt_terminal_model m)\<rparr>;
          m2 = (case fld ''stop_reason'' (fld ''delta'' event) of
                  JStr r \<Rightarrow> m1\<lparr>mt_finish_reason := Some (case map_of stop_reason_map r of Some f \<Rightarrow> f | None \<Rightarrow> ''stop'')\<rparr>
                | _ \<Rightarrow> m1)
      in case fld ''output_tokens'' (fld ''usage'' event) of
           JNum n \<Rightarrow> m2\<lparr>mt_usage := AList.update ''output_tokens'' (JNum n) (mt_usage m2)\<rparr>
         | _ \<Rightarrow> m2)"

definition usage_frame :: "messages_state \<Rightarrow> frame" where
  "usage_frame m =
     Frame [(''id'', JStr (ch_id (mt_head m))), (''object'', JStr ''chat.completion.chunk''),
       (''created'', JNum (Fin (ch_created (mt_head m)))),
       (''model'', JStr (case mt_wire_model m of Some w \<Rightarrow> w | None \<Rightarrow> ch_model (mt_head m))),
       (''choices'', JArr []), (''usage'', JObj (mt_usage m))]"

definition on_message_stop :: "messages_state \<Rightarrow> frame list \<times> messages_state" where
  "on_message_stop m =
     ([messages_chunk m [] (JStr (case mt_finish_reason m of Some f \<Rightarrow> f | None \<Rightarrow> ''stop'')), usage_frame m, DoneMark],
      m\<lparr>mt_completed := True, mt_done := True\<rparr>)"

definition error_detail :: "jsv \<Rightarrow> jsv" where
  "error_detail e =
     (if truthy (fld ''message'' e) then fld ''message'' e
      else if truthy (fld ''type'' e) then fld ''type'' e else JStr ''stream error'')"

definition messages_event :: "messages_state \<Rightarrow> jsv \<Rightarrow> js_error + frame list \<times> messages_state" where
  "messages_event m event =
     (let type = fld ''type'' event
      in if type = JStr ''message_start'' then on_message_start m event
         else if type = JStr ''content_block_start'' then on_block_start m event
         else if type = JStr ''content_block_delta'' then Inr (on_block_delta m event, m)
         else if type = JStr ''message_delta'' then Inr ([], on_message_delta m event)
         else if type = JStr ''message_stop'' then Inr (on_message_stop m)
         else if type = JStr ''error'' then
           bind_js (js_string (error_detail (fld ''error'' event))) (\<lambda>d. Inr (messages_error (''anthropic '' @ d) m))
         else Inr ([], m))"

definition messages_dispatch :: "messages_state reaction" where
  "messages_dispatch m data =
     (case json_parse data of
        None \<Rightarrow> Inr (messages_error ''anthropic stream frame was not JSON'' m)
      | Some event \<Rightarrow> messages_event m event)"

definition messages_finish :: "messages_state \<Rightarrow> frame list" where
  "messages_finish m =
     (if messages_quiet m then [] else fst (messages_error ''anthropic stream ended unexpectedly'' m))"

text \<open>A whole answer: its chunks are fed in order, then \<open>finish\<close>.\<close>

definition messages_stream :: "messages_state \<Rightarrow> string list \<Rightarrow> js_error + string" where
  "messages_stream m cs =
     sse_run (written messages_dispatch) messages_quiet (\<lambda>m. frames_text (messages_finish m)) (start_sse m) cs"

subsection \<open>The contract\<close>

lemmas messages_handlers =
  on_message_start_def on_block_start_def on_block_delta_def on_message_delta_def on_message_stop_def messages_error_def
  messages_chunk_def messages_quiet_def

lemma usage_frame_plain [simp]: "\<not> terminal (usage_frame m)"
  by (simp add: usage_frame_def terminal_def is_failure_def)

lemma usage_frame_delta [simp]: "frame_delta (usage_frame m) = JUndef"
  by (simp add: usage_frame_def frame_delta_def)

lemma messages_event_cases [consumes 1, case_names start block delta update stop failure other]:
  assumes "messages_event m event = Inr (fs, m')"
  obtains "fld ''type'' event = JStr ''message_start''" "on_message_start m event = Inr (fs, m')"
    | "fld ''type'' event = JStr ''content_block_start''" "on_block_start m event = Inr (fs, m')"
    | "fld ''type'' event = JStr ''content_block_delta''" "fs = on_block_delta m event" "m' = m"
    | "fld ''type'' event = JStr ''message_delta''" "fs = []" "m' = on_message_delta m event"
    | "fld ''type'' event = JStr ''message_stop''" "on_message_stop m = (fs, m')"
    | d where "fld ''type'' event = JStr ''error''" "messages_error d m = (fs, m')"
    | "fs = []" "m' = m" "\<forall>t \<in> {''message_start'', ''content_block_start'', ''content_block_delta'', ''message_delta'',
        ''message_stop'', ''error''}. fld ''type'' event \<noteq> JStr t"
proof -
  let ?t = "fld ''type'' event"
  consider (1) "?t = JStr ''message_start''" | (2) "?t = JStr ''content_block_start''" | (3) "?t = JStr ''content_block_delta''"
    | (4) "?t = JStr ''message_delta''" | (5) "?t = JStr ''message_stop''" | (6) "?t = JStr ''error''"
    | (7) "?t \<noteq> JStr ''message_start''" "?t \<noteq> JStr ''content_block_start''" "?t \<noteq> JStr ''content_block_delta''"
        "?t \<noteq> JStr ''message_delta''" "?t \<noteq> JStr ''message_stop''" "?t \<noteq> JStr ''error''"
    by blast
  then show ?thesis
  proof cases
    case 6
    then obtain d where "messages_error d m = (fs, m')"
      using assms by (auto simp: messages_event_def bind_js_Inr_iff)
    then show ?thesis by (rule that(6) [OF 6])
  next
    case 7
    then show ?thesis using assms by (intro that(7)) (simp_all add: messages_event_def)
  next
    case 1
    then show ?thesis using assms by (intro that(1)) (simp_all add: messages_event_def)
  next
    case 2
    then show ?thesis using assms by (intro that(2)) (simp_all add: messages_event_def)
  next
    case 3
    then show ?thesis using assms by (intro that(3)) (auto simp: messages_event_def)
  next
    case 4
    then show ?thesis using assms by (intro that(4)) (simp_all add: messages_event_def)
  next
    case 5
    then show ?thesis using assms by (intro that(5)) (simp_all add: messages_event_def)
  qed
qed

lemma block_delta_plain: "list_all (\<lambda>f. \<not> terminal f) (on_block_delta m event)"
  by (auto simp: on_block_delta_def Let_def messages_chunk_def split: jsv.split option.split)

lemma message_delta_quiet [simp]: "messages_quiet (on_message_delta m event) = messages_quiet m"
  by (simp add: on_message_delta_def Let_def messages_quiet_def split: jsv.split)

lemma messages_event_ends:
  assumes "\<not> messages_quiet m" "messages_event m event = Inr (fs, m')"
  shows "if messages_quiet m' then ends_well fs else list_all (\<lambda>f. \<not> terminal f) fs"
  using assms(2)
proof (cases rule: messages_event_cases)
  case start
  then show ?thesis using assms(1)
    by (auto simp: on_message_start_def Let_def bind_js_Inr_iff messages_chunk_def messages_quiet_def)
next
  case block
  then show ?thesis using assms(1)
    by (auto simp: on_block_start_def Let_def bind_js_Inr_iff messages_chunk_def messages_quiet_def split: if_splits)
next
  case delta
  then show ?thesis using assms(1) block_delta_plain by simp
next
  case stop
  then show ?thesis by (auto simp: on_message_stop_def ends_well_def messages_chunk_def messages_quiet_def)
next
  case (failure d)
  then show ?thesis by (auto simp: messages_error_def messages_quiet_def)
qed (use assms(1) in simp_all)

lemma messages_dispatch_ends:
  assumes "\<not> messages_quiet m" "messages_dispatch m data = Inr (fs, m')"
  shows "if messages_quiet m' then ends_well fs else list_all (\<lambda>f. \<not> terminal f) fs"
  using assms messages_event_ends [OF assms(1)]
  by (auto simp: messages_dispatch_def messages_error_def messages_quiet_def split: option.splits)

interpretation messages_chat: chat_translator messages_dispatch messages_quiet messages_finish
proof
  show "ends_well (messages_finish m)" if "\<not> messages_quiet m" for m
    using that by (simp add: messages_finish_def messages_error_def)
qed (use messages_dispatch_ends in \<open>fastforce simp: messages_finish_def\<close>)+

subsection \<open>When a handler throws\<close>

text \<open>The values of an event that its handler converts.\<close>

definition messages_converted :: "jsv \<Rightarrow> jsv list" where
  "messages_converted event =
     (let type = fld ''type'' event; usage = fld ''usage'' (fld ''message'' event)
      in if type = JStr ''message_start'' then
           map (\<lambda>k. fld k usage)
             [''input_tokens'', ''output_tokens'', ''cache_read_input_tokens'', ''cache_creation_input_tokens'']
         else if type = JStr ''content_block_start'' then [fld ''id'' (fld ''content_block'' event)]
         else if type = JStr ''error'' then [error_detail (fld ''error'' event)] else [])"

definition messages_readable :: "string \<Rightarrow> bool" where
  "messages_readable d \<longleftrightarrow>
     (case json_parse d of None \<Rightarrow> True | Some event \<Rightarrow> list_all convertible (messages_converted event))"

lemma convertible_nullish: "convertible v \<Longrightarrow> convertible d \<Longrightarrow> convertible (nullish v d)"
  by (cases v) auto

lemma token_count_total: "convertible v \<Longrightarrow> \<exists>t. token_count v = Inr t"
  using convertible_nullish [of v "jint 0"] js_number_total [of "nullish v (jint 0)"]
  by (auto simp: token_count_def)

lemma cache_bucket_total: "convertible (fld k u) \<Longrightarrow> \<exists>t. cache_bucket k u = Inr t"
  using js_number_total [of "fld k u"] by (auto simp: cache_bucket_def)

lemma opening_usage_total:
  assumes "list_all (\<lambda>k. convertible (fld k u))
    [''input_tokens'', ''output_tokens'', ''cache_read_input_tokens'', ''cache_creation_input_tokens'']"
  shows "\<exists>r. opening_usage u = Inr r"
  using assms token_count_total [of "fld ''input_tokens'' u"] token_count_total [of "fld ''output_tokens'' u"]
    cache_bucket_total [of "''cache_read_input_tokens''" u] cache_bucket_total [of "''cache_creation_input_tokens''" u]
  by (auto simp: opening_usage_def)

lemma messages_event_total:
  assumes "list_all convertible (messages_converted event)"
  shows "\<exists>r. messages_event m event = Inr r"
proof -
  let ?t = "fld ''type'' event"
  consider (1) "?t = JStr ''message_start''" | (2) "?t = JStr ''content_block_start''" | (3) "?t = JStr ''error''"
    | (4) "?t \<noteq> JStr ''message_start''" "?t \<noteq> JStr ''content_block_start''" "?t \<noteq> JStr ''error''"
    by blast
  then show ?thesis
  proof cases
    case 1
    then have "list_all (\<lambda>k. convertible (fld k (fld ''usage'' (fld ''message'' event))))
        [''input_tokens'', ''output_tokens'', ''cache_read_input_tokens'', ''cache_creation_input_tokens'']"
      using assms by (simp add: messages_converted_def Let_def)
    then obtain u where "opening_usage (fld ''usage'' (fld ''message'' event)) = Inr u"
      using opening_usage_total by blast
    then show ?thesis using 1 by (simp add: messages_event_def on_message_start_def Let_def)
  next
    case 2
    then have "convertible (nullish (fld ''id'' (fld ''content_block'' event)) (JStr []))"
      using assms by (intro convertible_nullish) (simp_all add: messages_converted_def)
    then obtain i where "js_string (nullish (fld ''id'' (fld ''content_block'' event)) (JStr [])) = Inr i"
      using js_string_total by blast
    then show ?thesis using 2 by (simp add: messages_event_def on_block_start_def Let_def)
  next
    case 3
    then obtain d where "js_string (error_detail (fld ''error'' event)) = Inr d"
      using assms js_string_total [of "error_detail (fld ''error'' event)"] by (auto simp: messages_converted_def)
    then show ?thesis using 3 by (simp add: messages_event_def)
  qed (simp add: messages_event_def Let_def)
qed

lemma messages_dispatch_total: "messages_readable d \<Longrightarrow> \<exists>r. messages_dispatch m d = Inr r"
  using messages_event_total by (auto simp: messages_dispatch_def messages_readable_def split: option.split)

subsection \<open>What a stream says\<close>

definition messages_stage :: "string \<Rightarrow> stage" where
  "messages_stage d =
     (case json_parse d of
        None \<Rightarrow> Fails
      | Some event \<Rightarrow>
          if fld ''type'' event = JStr ''message_stop'' then Stops
          else if fld ''type'' event = JStr ''error'' then Fails else Continues)"

definition messages_said :: "string \<Rightarrow> string" where
  "messages_said d =
     (case json_parse d of
        None \<Rightarrow> []
      | Some event \<Rightarrow>
          if fld ''type'' event = JStr ''content_block_delta'' \<and> fld ''type'' (fld ''delta'' event) = JStr ''text_delta''
          then str_of (fld ''text'' (fld ''delta'' event)) else [])"

lemma no_text_chunk: "answer_text [messages_chunk m [(''tool_calls'', x)] fin] = []"
  by (simp add: answer_text_def messages_chunk_def)

lemma messages_event_step:
  assumes live: "\<not> messages_quiet m" and run: "messages_event m event = Inr (fs, m')" and d: "json_parse d = Some event"
  shows "(case messages_stage d of
      Continues \<Rightarrow> \<not> messages_quiet m' \<and> answer_text fs = messages_said d
    | Stops \<Rightarrow> messages_quiet m' \<and> last fs = DoneMark \<and> answer_text fs = []
    | Fails \<Rightarrow> messages_quiet m' \<and> last fs \<noteq> DoneMark \<and> answer_text fs = [])"
  using run
proof (cases rule: messages_event_cases)
  case start
  then show ?thesis using live
    by (auto simp: messages_stage_def messages_said_def d on_message_start_def Let_def bind_js_Inr_iff messages_chunk_def
        messages_quiet_def answer_text_def)
next
  case block
  then show ?thesis using live
    by (auto simp: messages_stage_def messages_said_def d on_block_start_def Let_def bind_js_Inr_iff messages_chunk_def
        messages_quiet_def answer_text_def split: if_splits)
next
  case delta
  have "answer_text (on_block_delta m event) = messages_said d"
  proof (cases "fld ''type'' (fld ''delta'' event) = JStr ''text_delta''")
    case True
    then show ?thesis
      by (cases "fld ''text'' (fld ''delta'' event)")
        (simp_all add: messages_said_def d delta on_block_delta_def messages_chunk_def answer_text_def)
  next
    case False
    then have "messages_said d = []" by (simp add: messages_said_def d)
    moreover have "answer_text (on_block_delta m event) = []" using False
      by (auto simp only: on_block_delta_def Let_def if_False no_text_chunk collected_append split: option.split jsv.split if_split)
    ultimately show ?thesis by simp
  qed
  then show ?thesis using live delta by (simp add: messages_stage_def d)
next
  case stop
  then show ?thesis
    by (auto simp: messages_stage_def d on_message_stop_def messages_quiet_def messages_chunk_def answer_text_def)
next
  case (failure e)
  then show ?thesis
    by (auto simp: messages_stage_def d messages_error_def messages_quiet_def answer_text_def)
next
  case update
  then show ?thesis using live by (simp add: messages_stage_def messages_said_def d)
next
  case other
  then show ?thesis using live by (simp add: messages_stage_def messages_said_def d)
qed

lemma messages_dispatch_step:
  assumes "\<not> messages_quiet m" "messages_dispatch m d = Inr (fs, m')"
  shows "(case messages_stage d of
      Continues \<Rightarrow> \<not> messages_quiet m' \<and> answer_text fs = messages_said d
    | Stops \<Rightarrow> messages_quiet m' \<and> last fs = DoneMark \<and> answer_text fs = []
    | Fails \<Rightarrow> messages_quiet m' \<and> last fs \<noteq> DoneMark \<and> answer_text fs = [])"
proof (cases "json_parse d")
  case None
  then show ?thesis
    using assms by (auto simp: messages_dispatch_def messages_stage_def messages_error_def messages_quiet_def answer_text_def)
next
  case (Some event)
  then show ?thesis using assms(2) by (intro messages_event_step [OF assms(1)]) (simp_all add: messages_dispatch_def)
qed

subsection \<open>What the client gets\<close>

interpretation messages_text: staged_translator messages_dispatch messages_quiet messages_finish messages_stage messages_said
proof
  show "last (messages_finish m) \<noteq> DoneMark \<and> answer_text (messages_finish m) = []" if "\<not> messages_quiet m" for m
    using that by (simp add: messages_finish_def messages_error_def answer_text_def)
qed (rule messages_dispatch_step)

lemma messages_start_live [simp]: "\<not> messages_quiet (messages_start h)"
  by (simp add: messages_start_def messages_quiet_def)

text \<open>C31: However an Anthropic stream is cut into chunks, unless a value in it cannot be converted, the client
  reads plain chunks and then exactly one terminal frame; their text is the concatenation of the text deltas before
  the first event that ends the answer, and the terminal frame is the DONE mark exactly when that event is
  message_stop, an error frame when it is an error, a frame that is no JSON, or the end of the stream.\<close>

theorem messages_stream_delivers:
  assumes "\<forall>d \<in> set (sse_events (concat cs)). messages_readable d"
  shows "\<exists>out fs. messages_stream (messages_start h) cs = Inr out \<and> sse_events out = map frame_data fs \<and> ends_well fs \<and>
    answer_text fs = concat (map messages_said (answer_events messages_stage (sse_events (concat cs)))) \<and>
    (last fs = DoneMark \<longleftrightarrow> answer_complete messages_stage (sse_events (concat cs)))"
  unfolding messages_stream_def using assms
  by (intro messages_text.stream_delivers messages_start_live messages_dispatch_total) simp

definition demo_head :: chat_head where
  "demo_head = \<lparr>ch_id = ''chatcmpl-1'', ch_created = 7, ch_model = ''m''\<rparr>"

definition demo_messages :: "jsv list" where
  "demo_messages =
     [JObj [(''type'', JStr ''message_start''),
        (''message'', JObj [(''model'', JStr ''m-1''), (''usage'', JObj [(''input_tokens'', jint 5)])])],
      JObj [(''type'', JStr ''content_block_delta''),
        (''delta'', JObj [(''type'', JStr ''text_delta''), (''text'', JStr ''Hi'')])],
      JObj [(''type'', JStr ''message_delta''), (''delta'', JObj [(''stop_reason'', JStr ''end_turn'')]),
        (''usage'', JObj [(''output_tokens'', jint 9)])],
      JObj [(''type'', JStr ''message_stop'')]]"

definition event_stream :: "jsv list \<Rightarrow> string" where
  "event_stream vs = concat (map (\<lambda>v. ''data: '' @ json_text v @ [CHR 0x0A, CHR 0x0A]) vs)"

theorem messages_stream_delivers_witness:
  "\<exists>out fs. messages_stream (messages_start demo_head) [take 40 (event_stream demo_messages), drop 40 (event_stream demo_messages)] = Inr out \<and>
     sse_events out = map frame_data fs \<and> answer_text fs = ''Hi'' \<and> last fs = DoneMark"
proof -
  let ?cs = "[take 40 (event_stream demo_messages), drop 40 (event_stream demo_messages)]"
  have read: "list_all messages_readable (sse_events (concat ?cs))" by code_simp
  have "concat (map messages_said (answer_events messages_stage (sse_events (concat ?cs)))) = ''Hi''" by code_simp
  moreover have "answer_complete messages_stage (sse_events (concat ?cs))" by code_simp
  ultimately show ?thesis
    using messages_stream_delivers [of ?cs demo_head] read unfolding list_all_iff by auto
qed

subsection \<open>The usage of an answer\<close>

definition opens_message :: "string \<Rightarrow> bool" where
  "opens_message d \<longleftrightarrow> (case json_parse d of None \<Rightarrow> False | Some event \<Rightarrow> fld ''type'' event = JStr ''message_start'')"

definition output_count :: "string \<Rightarrow> jsnum option" where
  "output_count d =
     (case json_parse d of
        None \<Rightarrow> None
      | Some event \<Rightarrow>
          if fld ''type'' event = JStr ''message_delta''
          then (case fld ''output_tokens'' (fld ''usage'' event) of JNum n \<Rightarrow> Some n | _ \<Rightarrow> None) else None)"

definition last_count :: "string list \<Rightarrow> js_fields \<Rightarrow> js_fields" where
  "last_count es u =
     (case rev (List.map_filter output_count es) of
        [] \<Rightarrow> u
      | n # _ \<Rightarrow> AList.update ''output_tokens'' (JNum n) u)"

lemma messages_dispatch_usage:
  assumes "messages_dispatch m d = Inr (fs, m')" "\<not> opens_message d"
  shows "mt_wire_model m' = mt_wire_model m" "mt_head m' = mt_head m"
    "mt_usage m' = (case output_count d of None \<Rightarrow> mt_usage m | Some n \<Rightarrow> AList.update ''output_tokens'' (JNum n) (mt_usage m))"
proof -
  have "mt_wire_model m' = mt_wire_model m \<and> mt_head m' = mt_head m \<and>
    mt_usage m' = (case output_count d of None \<Rightarrow> mt_usage m | Some n \<Rightarrow> AList.update ''output_tokens'' (JNum n) (mt_usage m))"
  proof (cases "json_parse d")
    case None
    then show ?thesis using assms by (auto simp: messages_dispatch_def messages_error_def output_count_def)
  next
    case (Some event)
    then have "messages_event m event = Inr (fs, m')" using assms(1) by (simp add: messages_dispatch_def)
    then show ?thesis
    proof (cases rule: messages_event_cases)
      case start
      then show ?thesis using assms(2) Some by (simp add: opens_message_def)
    next
      case block
      then show ?thesis
        by (auto simp: output_count_def Some on_block_start_def Let_def bind_js_Inr_iff split: if_splits)
    next
      case update
      show ?thesis
        by (cases "fld ''stop_reason'' (fld ''delta'' event)"; cases "fld ''output_tokens'' (fld ''usage'' event)")
          (simp_all add: update output_count_def Some on_message_delta_def)
    next
      case stop
      then show ?thesis by (auto simp: output_count_def Some on_message_stop_def)
    next
      case (failure e)
      then show ?thesis by (auto simp: output_count_def Some messages_error_def)
    qed (simp_all add: output_count_def Some)
  qed
  then show "mt_wire_model m' = mt_wire_model m" "mt_head m' = mt_head m"
    "mt_usage m' = (case output_count d of None \<Rightarrow> mt_usage m | Some n \<Rightarrow> AList.update ''output_tokens'' (JNum n) (mt_usage m))"
    by simp_all
qed

lemma last_count_Cons:
  "last_count (d # es) u =
     last_count es (case output_count d of None \<Rightarrow> u | Some n \<Rightarrow> AList.update ''output_tokens'' (JNum n) u)"
proof -
  have twice: "AList.update k b (AList.update k a u) = AList.update k b u" for k and a b :: jsv and u
    by (induction u) auto
  show ?thesis
    by (cases "rev (List.map_filter output_count es)")
      (auto simp: last_count_def List.map_filter_simps twice split: option.split)
qed

lemma messages_run_usage:
  assumes "list_all (\<lambda>d. messages_stage d = Continues \<and> \<not> opens_message d) es" "\<not> messages_quiet m"
    "run_events messages_dispatch messages_quiet m es = Inr (fs, m')"
  shows "mt_wire_model m' = mt_wire_model m \<and> mt_head m' = mt_head m \<and> mt_usage m' = last_count es (mt_usage m)"
  using assms
proof (induction es arbitrary: m fs)
  case Nil
  then show ?case by (simp add: last_count_def List.map_filter_simps)
next
  case (Cons d es)
  obtain gs m1 where react: "messages_dispatch m d = Inr (gs, m1)"
    using Cons.prems(3) by (auto simp: bind_js_Inr_iff)
  have live: "\<not> messages_quiet m1"
    using messages_dispatch_step [OF Cons.prems(2) react] Cons.prems(1) by simp
  obtain hs where "run_events messages_dispatch messages_quiet m1 es = Inr (hs, m')"
    using Cons.prems(3) react live by (auto simp: bind_js_Inr_iff)
  then show ?case
    using Cons.IH [OF _ live] Cons.prems(1) messages_dispatch_usage [OF react] by (simp add: last_count_Cons)
qed

text \<open>A complete answer: what runs before its end, and the state its end reports.\<close>

lemma messages_run_complete:
  assumes events: "sse_events (concat cs) = pre @ s # mid @ t # rest"
    and live: "list_all (\<lambda>d. messages_stage d = Continues) (pre @ s # mid)" and stop: "messages_stage t = Stops"
    and total: "list_all messages_readable (pre @ s # mid)"
    and start: "json_parse s = Some event" "fld ''type'' event = JStr ''message_start''"
      "opening_usage (fld ''usage'' (fld ''message'' event)) = Inr u"
    and mid: "list_all (\<lambda>d. \<not> opens_message d) mid"
  shows "\<exists>g m. run_events messages_dispatch messages_quiet (messages_start h) (pre @ s # mid) = Inr (g, m) \<and>
    messages_stream (messages_start h) cs = Inr (frames_text (g @ fst (on_message_stop m))) \<and> mt_usage m = last_count mid u \<and>
    (\<forall>w. fld ''model'' (fld ''message'' event) = JStr w \<longrightarrow> mt_wire_model m = Some w)"
proof -
  let ?run = "run_events messages_dispatch messages_quiet"
  have readable: "\<And>m d. d \<in> set (pre @ s # mid) \<Longrightarrow> \<exists>r. messages_dispatch m d = Inr r"
    using total messages_dispatch_total by (auto simp: list_all_iff)
  obtain f1 m1 where one: "?run (messages_start h) pre = Inr (f1, m1)" "\<not> messages_quiet m1"
      "\<forall>es. ?run (messages_start h) (pre @ es) = bind_js (?run m1 es) (\<lambda>(gs, m''). Inr (f1 @ gs, m''))"
    using messages_text.run_continues [OF messages_start_live, of pre h] live readable by auto
  obtain f2 m2 where two: "messages_dispatch m1 s = Inr (f2, m2)" "mt_usage m2 = u"
      "mt_wire_model m2 = named_model (fld ''model'' (fld ''message'' event)) (mt_wire_model m1)"
    using start by (simp add: messages_dispatch_def messages_event_def on_message_start_def Let_def)
  have two_live: "\<not> messages_quiet m2"
    using messages_dispatch_step [OF one(2) two(1)] live by simp
  obtain f3 m3 where three: "?run m2 mid = Inr (f3, m3)" "\<not> messages_quiet m3"
      "\<forall>es. ?run m2 (mid @ es) = bind_js (?run m3 es) (\<lambda>(gs, m''). Inr (f3 @ gs, m''))"
    using messages_text.run_continues [OF two_live, of mid] live readable by auto
  have state: "mt_wire_model m3 = mt_wire_model m2 \<and> mt_usage m3 = last_count mid u"
    using messages_run_usage [OF _ two_live three(1)] live mid two(2) by (auto simp: list_all_iff)
  obtain ev where t: "json_parse t = Some ev" "fld ''type'' ev = JStr ''message_stop''"
    using stop by (auto simp: messages_stage_def split: option.splits if_splits)
  obtain m4 where four: "messages_dispatch m3 t = Inr (fst (on_message_stop m3), m4)" "messages_quiet m4"
    using t by (simp add: messages_dispatch_def messages_event_def on_message_stop_def messages_quiet_def)
  have upto_end: "?run (messages_start h) (pre @ s # mid) = Inr (f1 @ f2 @ f3, m3)"
    using one(3) two(1) two_live three(1) by simp
  have "?run (messages_start h) (sse_events (concat cs)) = Inr ((f1 @ f2 @ f3) @ fst (on_message_stop m3), m4)"
    using one(3) two(1) two_live three(3) four by (simp add: events)
  then have "messages_stream (messages_start h) cs = Inr (frames_text ((f1 @ f2 @ f3) @ fst (on_message_stop m3)))"
    using messages_text.stream_text [OF messages_start_live] four(2)
    by (simp add: messages_stream_def messages_finish_def)
  then show ?thesis using upto_end state two(3) by (auto simp: named_model_def)
qed

text \<open>When an answer is complete, the last frame before the DONE mark carries its usage: the counts of the
  last message_start, converted as they are, with the output tokens of the last message_delta that has a number,
  under the model that message_start named.\<close>

theorem messages_usage_exact:
  assumes events: "sse_events (concat cs) = pre @ s # mid @ t # rest"
    and live: "list_all (\<lambda>d. messages_stage d = Continues) (pre @ s # mid)" and stop: "messages_stage t = Stops"
    and total: "list_all messages_readable (pre @ s # mid)"
    and start: "json_parse s = Some event" "fld ''type'' event = JStr ''message_start''"
      "opening_usage (fld ''usage'' (fld ''message'' event)) = Inr u"
    and mid: "list_all (\<lambda>d. \<not> opens_message d) mid"
  shows "\<exists>out fs kvs. messages_stream (messages_start h) cs = Inr out \<and>
    sse_events out = map frame_data (fs @ [Frame kvs, DoneMark]) \<and>
    fld ''usage'' (JObj kvs) = JObj (last_count mid u) \<and>
    (\<forall>w. fld ''model'' (fld ''message'' event) = JStr w \<longrightarrow> fld ''model'' (JObj kvs) = JStr w)"
proof -
  obtain g m where run: "messages_stream (messages_start h) cs = Inr (frames_text (g @ fst (on_message_stop m)))"
      "mt_usage m = last_count mid u" "\<forall>w. fld ''model'' (fld ''message'' event) = JStr w \<longrightarrow> mt_wire_model m = Some w"
    using messages_run_complete [OF assms] by blast
  obtain f where "fst (on_message_stop m) = [f, usage_frame m, DoneMark]" by (simp add: on_message_stop_def)
  then have "sse_events (frames_text (g @ fst (on_message_stop m))) = map frame_data ((g @ [f]) @ [usage_frame m, DoneMark])"
    by (simp add: sse_events_frames)
  moreover have "\<exists>kvs. usage_frame m = Frame kvs \<and> fld ''usage'' (JObj kvs) = JObj (last_count mid u) \<and>
      (\<forall>w. fld ''model'' (fld ''message'' event) = JStr w \<longrightarrow> fld ''model'' (JObj kvs) = JStr w)"
    using run(2,3) by (simp add: usage_frame_def)
  ultimately show ?thesis using run(1) by metis
qed

theorem messages_usage_exact_witness:
  "\<exists>out fs kvs. messages_stream (messages_start demo_head) [event_stream demo_messages] = Inr out \<and>
     sse_events out = map frame_data (fs @ [Frame kvs, DoneMark]) \<and>
     fld ''usage'' (JObj kvs) = JObj [(''input_tokens'', jint 5), (''output_tokens'', jint 9)] \<and>
     fld ''model'' (JObj kvs) = JStr ''m-1''"
proof -
  let ?ds = "map json_text demo_messages"
  have events: "sse_events (concat [event_stream demo_messages]) = [] @ ?ds ! 0 # [?ds ! 1, ?ds ! 2] @ ?ds ! 3 # []"
    by code_simp
  have live: "list_all (\<lambda>d. messages_stage d = Continues) ([] @ ?ds ! 0 # [?ds ! 1, ?ds ! 2])"
      "messages_stage (?ds ! 3) = Stops" "list_all messages_readable ([] @ ?ds ! 0 # [?ds ! 1, ?ds ! 2])"
      "list_all (\<lambda>d. \<not> opens_message d) [?ds ! 1, ?ds ! 2]" by code_simp+
  have start: "json_parse (?ds ! 0) = Some (demo_messages ! 0)" by code_simp
  have usage: "opening_usage (fld ''usage'' (fld ''message'' (demo_messages ! 0))) =
      Inr [(''input_tokens'', jint 5), (''output_tokens'', jint 0)]" by code_simp
  have final: "last_count [?ds ! 1, ?ds ! 2] [(''input_tokens'', jint 5), (''output_tokens'', jint 0)] =
      [(''input_tokens'', jint 5), (''output_tokens'', jint 9)]" by code_simp
  have "fld ''type'' (demo_messages ! 0) = JStr ''message_start''" "fld ''model'' (fld ''message'' (demo_messages ! 0)) = JStr ''m-1''"
    by (simp_all add: demo_messages_def)
  then show ?thesis
    using messages_usage_exact [OF events live(1,2,3) start _ usage live(4), of demo_head] unfolding final by simp
qed

end
