(* ===== verification/ResponsesStream.thy ===== *)
theory ResponsesStream
  imports ChatFrames
begin

text \<open>
  The answers of the Responses API in \<open>enclave/src/bedrock.mjs\<close>: \<open>ResponsesToChatSse\<close>, which turns its
  event stream into chat chunks and delivers each tool call's arguments exactly once, and
  \<open>responsesJsonToChatCompletion\<close> with \<open>ResponsesJsonToChat\<close>, which do the same for one whole object.
\<close>

subsection \<open>State of the stream\<close>

record responses_state =
  rt_head :: chat_head
  rt_wire_model :: "string option"
  rt_terminal_model :: "string option"
  rt_tools :: "(jsv \<times> nat) list"
  rt_sent :: "(nat \<times> string) list"
  rt_tool_count :: nat
  rt_saw_tool :: bool
  rt_completed :: bool
  rt_done :: bool
  rt_fatal :: bool

definition responses_start :: "chat_head \<Rightarrow> responses_state" where
  "responses_start h =
     \<lparr>rt_head = h, rt_wire_model = None, rt_terminal_model = None, rt_tools = [], rt_sent = [], rt_tool_count = 0,
      rt_saw_tool = False, rt_completed = False, rt_done = False, rt_fatal = False\<rparr>"

definition responses_quiet :: "responses_state \<Rightarrow> bool" where
  "responses_quiet m \<longleftrightarrow> rt_fatal m \<or> rt_done m"

definition responses_chunk :: "responses_state \<Rightarrow> js_fields \<Rightarrow> jsv \<Rightarrow> frame" where
  "responses_chunk m delta finish = chunk_frame (rt_head m) delta finish"

definition responses_error :: "string \<Rightarrow> responses_state \<Rightarrow> frame list \<times> responses_state" where
  "responses_error message m = ([error_frame message], m\<lparr>rt_fatal := True\<rparr>)"

definition sent_of :: "responses_state \<Rightarrow> nat \<Rightarrow> string" where
  "sent_of m i = (case map_of (rt_sent m) i of Some s \<Rightarrow> s | None \<Rightarrow> [])"

definition arguments_chunk :: "responses_state \<Rightarrow> nat \<Rightarrow> string \<Rightarrow> frame" where
  "arguments_chunk m i t =
     responses_chunk m
       [(''tool_calls'', JArr [JObj [(''index'', jnat i), (''function'', JObj [(''arguments'', JStr t)])]])] JNull"

definition emit_args_suffix :: "responses_state \<Rightarrow> nat \<Rightarrow> string \<Rightarrow> frame list \<times> responses_state" where
  "emit_args_suffix m i full =
     (let sent = sent_of m i
      in if length full \<le> length sent \<or> \<not> starts_with full sent then ([], m)
         else ([arguments_chunk m i (drop (length sent) full)], m\<lparr>rt_sent := AList.update i full (rt_sent m)\<rparr>))"

subsection \<open>Handlers\<close>

definition named :: "jsv \<Rightarrow> string option \<Rightarrow> string option" where
  "named v old = (case v of JStr s \<Rightarrow> Some s | _ \<Rightarrow> old)"

definition on_created :: "responses_state \<Rightarrow> jsv \<Rightarrow> frame list \<times> responses_state" where
  "on_created m event =
     ([responses_chunk m [(''role'', JStr ''assistant''), (''content'', JStr [])] JNull],
      m\<lparr>rt_wire_model := named (fld ''model'' (fld ''response'' event)) (rt_wire_model m)\<rparr>)"

definition item_key :: "jsv \<Rightarrow> jsv" where
  "item_key event = nullish (fld ''id'' (fld ''item'' event)) (fld ''output_index'' event)"

definition on_item_added :: "responses_state \<Rightarrow> jsv \<Rightarrow> js_error + frame list \<times> responses_state" where
  "on_item_added m event =
     (let item = fld ''item'' event
      in if fld ''type'' item \<noteq> JStr ''function_call'' then Inr ([], m)
         else
           let index = rt_tool_count m;
               m1 = m\<lparr>rt_saw_tool := True, rt_tool_count := Suc index, rt_tools := map_write (item_key event) index (rt_tools m)\<rparr>
           in bind_js (js_string (nullish (fld ''call_id'' item) (nullish (fld ''id'' item) (JStr [])))) (\<lambda>i.
                Inr ([responses_chunk m
                       [(''tool_calls'', JArr [JObj
                          [(''index'', jnat index), (''id'', JStr i), (''type'', JStr ''function''),
                           (''function'', JObj [(''name'', nullish (fld ''name'' item) (JStr [])), (''arguments'', JStr [])])]])]
                       JNull], m1)))"

definition call_index :: "responses_state \<Rightarrow> jsv \<Rightarrow> nat option" where
  "call_index m event =
     (case map_read (rt_tools m) (fld ''item_id'' event) of
        Some i \<Rightarrow> Some i
      | None \<Rightarrow> map_read (rt_tools m) (fld ''output_index'' event))"

definition on_arguments_delta :: "responses_state \<Rightarrow> jsv \<Rightarrow> frame list \<times> responses_state" where
  "on_arguments_delta m event =
     (case (call_index m event, fld ''delta'' event) of
        (Some i, JStr t) \<Rightarrow>
          ([arguments_chunk m i t], m\<lparr>rt_sent := AList.update i (sent_of m i @ t) (rt_sent m)\<rparr>)
      | _ \<Rightarrow> ([], m))"

definition on_arguments_done :: "responses_state \<Rightarrow> jsv \<Rightarrow> frame list \<times> responses_state" where
  "on_arguments_done m event =
     (case (call_index m event, fld ''arguments'' event) of
        (Some i, JStr full) \<Rightarrow> emit_args_suffix m i full
      | _ \<Rightarrow> ([], m))"

definition on_item_done :: "responses_state \<Rightarrow> jsv \<Rightarrow> frame list \<times> responses_state" where
  "on_item_done m event =
     (let item = fld ''item'' event
      in if fld ''type'' item \<noteq> JStr ''function_call'' then ([], m)
         else (case (map_read (rt_tools m) (item_key event), fld ''arguments'' item) of
                 (Some i, JStr full) \<Rightarrow> emit_args_suffix m i full
               | _ \<Rightarrow> ([], m)))"

definition on_text_delta :: "responses_state \<Rightarrow> jsv \<Rightarrow> frame list" where
  "on_text_delta m event =
     (case fld ''delta'' event of
        JStr t \<Rightarrow> if t \<noteq> [] then [responses_chunk m [(''content'', JStr t)] JNull] else []
      | _ \<Rightarrow> [])"

subsection \<open>The end of an answer\<close>

definition number_or_zero :: "jsv \<Rightarrow> js_error + jsnum" where
  "number_or_zero v = js_number (nullish v (jint 0))"

text \<open>The usage under the chat names, as both the stream and the whole object report it.\<close>

definition chat_usage :: "jsv \<Rightarrow> js_error + js_fields" where
  "chat_usage usage =
     bind_js (number_or_zero (fld ''input_tokens'' usage)) (\<lambda>i.
     bind_js (number_or_zero (fld ''output_tokens'' usage)) (\<lambda>out.
     bind_js (number_or_zero (fld ''cached_tokens'' (fld ''input_tokens_details'' usage))) (\<lambda>c.
     bind_js (number_or_zero (fld ''cache_write_tokens'' (fld ''input_tokens_details'' usage))) (\<lambda>w.
     bind_js (if fld ''reasoning_tokens'' (fld ''output_tokens_details'' usage) = JUndef then Inr []
              else bind_js (number_or_zero (fld ''reasoning_tokens'' (fld ''output_tokens_details'' usage)))
                (\<lambda>r. Inr [(''completion_tokens_details'', JObj [(''reasoning_tokens'', JNum r)])])) (\<lambda>more.
       Inr ([(''prompt_tokens'', JNum i), (''completion_tokens'', JNum out), (''total_tokens'', JNum (js_plus i out)),
             (''prompt_tokens_details'', JObj [(''cached_tokens'', JNum c), (''cache_write_tokens'', JNum w)])] @ more))))))"

definition stream_finish_reason :: "responses_state \<Rightarrow> jsv \<Rightarrow> string" where
  "stream_finish_reason m event =
     (if fld ''type'' event = JStr ''response.incomplete'' \<and>
         fld ''reason'' (fld ''incomplete_details'' (fld ''response'' event)) = JStr ''max_output_tokens'' then ''length''
      else if rt_saw_tool m then ''tool_calls'' else ''stop'')"

definition stream_usage :: "responses_state \<Rightarrow> jsv \<Rightarrow> js_error + frame list" where
  "stream_usage m response =
     (if truthy (fld ''usage'' response) then
        bind_js (chat_usage (fld ''usage'' response)) (\<lambda>u.
          Inr [Frame [(''id'', JStr (ch_id (rt_head m))), (''object'', JStr ''chat.completion.chunk''),
            (''created'', JNum (Fin (ch_created (rt_head m)))),
            (''model'', JStr (case fld ''model'' response of JStr s \<Rightarrow> s
               | _ \<Rightarrow> (case rt_wire_model m of Some w \<Rightarrow> w | None \<Rightarrow> ch_model (rt_head m)))),
            (''choices'', JArr []), (''usage'', JObj u)]])
      else Inr [])"

definition on_completed :: "responses_state \<Rightarrow> jsv \<Rightarrow> js_error + frame list \<times> responses_state" where
  "on_completed m event =
     (let response = fld ''response'' event;
          m1 = m\<lparr>rt_completed := True, rt_terminal_model := named (fld ''model'' response) (rt_terminal_model m)\<rparr>
      in bind_js (stream_usage m1 response) (\<lambda>u.
           Inr ([responses_chunk m [] (JStr (stream_finish_reason m event))] @ u @ [DoneMark], m1\<lparr>rt_done := True\<rparr>)))"

definition responses_event :: "responses_state \<Rightarrow> jsv \<Rightarrow> js_error + frame list \<times> responses_state" where
  "responses_event m event =
     (let type = fld ''type'' event
      in if type = JStr ''response.created'' then Inr (on_created m event)
         else if type = JStr ''response.output_item.added'' then on_item_added m event
         else if type = JStr ''response.function_call_arguments.delta'' then Inr (on_arguments_delta m event)
         else if type = JStr ''response.function_call_arguments.done'' then Inr (on_arguments_done m event)
         else if type = JStr ''response.output_item.done'' then Inr (on_item_done m event)
         else if type = JStr ''response.output_text.delta'' then Inr (on_text_delta m event, m)
         else if type = JStr ''response.completed'' \<or> type = JStr ''response.incomplete'' then on_completed m event
         else if type = JStr ''response.failed'' then
           bind_js (js_string (first_truthy [fld ''message'' (fld ''error'' (fld ''response'' event)),
               JStr ''bedrock response.failed with no detail'']))
             (\<lambda>d. Inr (responses_error (''bedrock '' @ d) m))
         else if type = JStr ''error'' then
           bind_js (js_string (first_truthy [fld ''message'' event, fld ''code'' event, JStr ''stream error'']))
             (\<lambda>d. Inr (responses_error (''bedrock '' @ d) m))
         else Inr ([], m))"

definition responses_dispatch :: "responses_state reaction" where
  "responses_dispatch m data =
     (if data = ''[DONE]'' then Inr ([], m)
      else (case json_parse data of
              None \<Rightarrow> Inr (responses_error ''bedrock stream frame was not JSON'' m)
            | Some event \<Rightarrow> responses_event m event))"

definition responses_finish :: "responses_state \<Rightarrow> frame list" where
  "responses_finish m =
     (if responses_quiet m then [] else fst (responses_error ''bedrock stream ended unexpectedly'' m))"

text \<open>A whole answer: its chunks are fed in order, then \<open>finish\<close>.\<close>

definition responses_stream :: "responses_state \<Rightarrow> string list \<Rightarrow> js_error + string" where
  "responses_stream m cs =
     sse_run (written responses_dispatch) responses_quiet (\<lambda>m. frames_text (responses_finish m)) (start_sse m) cs"

subsection \<open>The contract\<close>

lemma chat_frames_plain [simp]:
  "\<not> terminal (responses_chunk m delta finish)" "\<not> terminal (arguments_chunk m i t)"
  by (simp_all add: responses_chunk_def arguments_chunk_def)

lemma arguments_chunk_reads [simp]:
  "answer_text [arguments_chunk m i t] = []"
  "call_arguments j [arguments_chunk m i t] = (if i = j then t else [])"
  by (simp_all add: arguments_chunk_def responses_chunk_def answer_text_def call_arguments_def)

lemma stream_usage_frames:
  assumes "stream_usage m response = Inr us"
  shows "list_all (\<lambda>f. \<not> terminal f) us" "answer_text us = []" "call_arguments i us = []"
  using assms by (auto simp: stream_usage_def bind_js_Inr_iff terminal_def is_failure_def answer_text_def call_arguments_def
      frame_delta_def split: if_splits)

lemma responses_event_cases [consumes 1, case_names created added argued arguments item said completed failed other]:
  assumes "responses_event m event = Inr (fs, m')"
  obtains "fld ''type'' event = JStr ''response.created''" "on_created m event = (fs, m')"
    | "fld ''type'' event = JStr ''response.output_item.added''" "on_item_added m event = Inr (fs, m')"
    | "fld ''type'' event = JStr ''response.function_call_arguments.delta''" "on_arguments_delta m event = (fs, m')"
    | "fld ''type'' event = JStr ''response.function_call_arguments.done''" "on_arguments_done m event = (fs, m')"
    | "fld ''type'' event = JStr ''response.output_item.done''" "on_item_done m event = (fs, m')"
    | "fld ''type'' event = JStr ''response.output_text.delta''" "on_text_delta m event = fs" "m' = m"
    | "fld ''type'' event \<in> {JStr ''response.completed'', JStr ''response.incomplete''}" "on_completed m event = Inr (fs, m')"
    | d where "fld ''type'' event \<in> {JStr ''response.failed'', JStr ''error''}" "responses_error d m = (fs, m')"
    | "fs = []" "m' = m" "\<forall>t \<in> {''response.created'', ''response.output_item.added'', ''response.function_call_arguments.delta'',
        ''response.function_call_arguments.done'', ''response.output_item.done'', ''response.output_text.delta'',
        ''response.completed'', ''response.incomplete'', ''response.failed'', ''error''}. fld ''type'' event \<noteq> JStr t"
proof -
  let ?t = "fld ''type'' event"
  consider (1) "?t = JStr ''response.created''" | (2) "?t = JStr ''response.output_item.added''"
    | (3) "?t = JStr ''response.function_call_arguments.delta''" | (4) "?t = JStr ''response.function_call_arguments.done''"
    | (5) "?t = JStr ''response.output_item.done''" | (6) "?t = JStr ''response.output_text.delta''"
    | (7) "?t = JStr ''response.completed'' \<or> ?t = JStr ''response.incomplete''"
    | (8) "?t = JStr ''response.failed''" | (9) "?t = JStr ''error''"
    | (10) "?t \<noteq> JStr ''response.created''" "?t \<noteq> JStr ''response.output_item.added''"
        "?t \<noteq> JStr ''response.function_call_arguments.delta''" "?t \<noteq> JStr ''response.function_call_arguments.done''"
        "?t \<noteq> JStr ''response.output_item.done''" "?t \<noteq> JStr ''response.output_text.delta''"
        "?t \<noteq> JStr ''response.completed''" "?t \<noteq> JStr ''response.incomplete''" "?t \<noteq> JStr ''response.failed''" "?t \<noteq> JStr ''error''"
    by blast
  then show ?thesis
  proof cases
    case 1
    then show ?thesis using assms by (intro that(1)) (simp_all add: responses_event_def)
  next
    case 2
    then show ?thesis using assms by (intro that(2)) (simp_all add: responses_event_def)
  next
    case 3
    then show ?thesis using assms by (intro that(3)) (simp_all add: responses_event_def)
  next
    case 4
    then show ?thesis using assms by (intro that(4)) (simp_all add: responses_event_def)
  next
    case 5
    then show ?thesis using assms by (intro that(5)) (simp_all add: responses_event_def)
  next
    case 6
    then show ?thesis using assms by (intro that(6)) (auto simp: responses_event_def)
  next
    case 7
    then show ?thesis using assms by (intro that(7)) (auto simp: responses_event_def)
  next
    case 8
    then obtain d where "responses_error d m = (fs, m')"
      using assms by (auto simp: responses_event_def bind_js_Inr_iff)
    then show ?thesis using 8 by (intro that(8)) simp_all
  next
    case 9
    then obtain d where "responses_error d m = (fs, m')"
      using assms by (auto simp: responses_event_def bind_js_Inr_iff)
    then show ?thesis using 9 by (intro that(8)) simp_all
  next
    case 10
    then show ?thesis using assms by (intro that(9)) (simp_all add: responses_event_def)
  qed
qed

text \<open>What the argument handlers do: nothing, or one chunk for one call, and the record of what was sent grows
  by what the chunk carries.\<close>

definition sends :: "responses_state \<Rightarrow> frame list \<times> responses_state \<Rightarrow> bool" where
  "sends m r \<longleftrightarrow> r = ([], m) \<or>
     (\<exists>i t. r = ([arguments_chunk m i t], m\<lparr>rt_sent := AList.update i (sent_of m i @ t) (rt_sent m)\<rparr>))"

lemma sends_intros [simp]:
  "sends m ([], m)" "sends m ([arguments_chunk m i t], m\<lparr>rt_sent := AList.update i (sent_of m i @ t) (rt_sent m)\<rparr>)"
  by (auto simp only: sends_def)

lemma emit_args_suffix_sends [simp]: "sends m (emit_args_suffix m i full)"
proof (cases "length full \<le> length (sent_of m i) \<or> \<not> starts_with full (sent_of m i)")
  case False
  then obtain t where "full = sent_of m i @ t" by (auto simp: starts_with_iff)
  then show ?thesis using False sends_intros(2) [of m i t] by (simp add: emit_args_suffix_def Let_def)
qed (simp add: emit_args_suffix_def)

lemma argument_handlers_send: "sends m (on_arguments_delta m event)" "sends m (on_arguments_done m event)" "sends m (on_item_done m event)"
  by (simp_all add: on_arguments_delta_def on_arguments_done_def on_item_done_def Let_def split: option.split jsv.split)

lemma sent_of_update: "sent_of (m\<lparr>rt_sent := AList.update i s (rt_sent m)\<rparr>) j = (if i = j then s else sent_of m j)"
  by (simp add: sent_of_def update_conv')

lemma sends_effect:
  assumes "sends m (fs, m')"
  shows "list_all (\<lambda>f. \<not> terminal f) fs" "answer_text fs = []" "responses_quiet m' = responses_quiet m"
    "sent_of m' j = sent_of m j @ call_arguments j fs"
  using assms by (auto simp: sends_def responses_quiet_def sent_of_update simp del: sent_of_def)

definition responses_stage :: "string \<Rightarrow> stage" where
  "responses_stage d =
     (if d = ''[DONE]'' then Continues
      else (case json_parse d of
              None \<Rightarrow> Fails
            | Some event \<Rightarrow>
                if fld ''type'' event = JStr ''response.completed'' \<or> fld ''type'' event = JStr ''response.incomplete'' then Stops
                else if fld ''type'' event = JStr ''response.failed'' \<or> fld ''type'' event = JStr ''error'' then Fails
                else Continues))"

definition responses_said :: "string \<Rightarrow> string" where
  "responses_said d =
     (case json_parse d of
        None \<Rightarrow> []
      | Some event \<Rightarrow> if fld ''type'' event = JStr ''response.output_text.delta'' then str_of (fld ''delta'' event) else [])"

lemma done_is_no_json: "json_parse ''[DONE]'' = None"
  by code_simp

lemma text_delta_said:
  "list_all (\<lambda>f. \<not> terminal f) (on_text_delta m event)" "answer_text (on_text_delta m event) = str_of (fld ''delta'' event)"
  "call_arguments i (on_text_delta m event) = []"
  by (cases "fld ''delta'' event"; simp add: on_text_delta_def responses_chunk_def answer_text_def call_arguments_def)+

text \<open>What one event does to the stream: whether it ends, the text and the arguments it adds, and the record of
  the arguments that were sent.\<close>

lemma responses_event_step_all:
  assumes live: "\<not> responses_quiet m" and run: "responses_event m event = Inr (fs, m')"
  shows "sent_of m' i = sent_of m i @ call_arguments i fs \<and>
    (if responses_quiet m' then ends_well fs else list_all (\<lambda>f. \<not> terminal f) fs) \<and>
    (responses_quiet m' \<longleftrightarrow> fld ''type'' event \<in> JStr ` {''response.completed'', ''response.incomplete'', ''response.failed'', ''error''}) \<and>
    (responses_quiet m' \<longrightarrow> (last fs = DoneMark \<longleftrightarrow> fld ''type'' event \<in> JStr ` {''response.completed'', ''response.incomplete''})) \<and>
    answer_text fs = (if fld ''type'' event = JStr ''response.output_text.delta'' then str_of (fld ''delta'' event) else [])"
proof -
  note chunk = responses_chunk_def answer_text_def call_arguments_def
  show ?thesis
    using run
  proof (cases rule: responses_event_cases)
    case created
    then show ?thesis using live
      by (auto simp: on_created_def chunk responses_quiet_def sent_of_def)
  next
    case added
    then show ?thesis using live
      by (auto simp: on_item_added_def Let_def bind_js_Inr_iff chunk responses_quiet_def sent_of_def split: if_splits)
  next
    case argued
    then show ?thesis using live sends_effect [of m fs m'] argument_handlers_send(1) [of m event] by simp
  next
    case arguments
    then show ?thesis using live sends_effect [of m fs m'] argument_handlers_send(2) [of m event] by simp
  next
    case item
    then show ?thesis using live sends_effect [of m fs m'] argument_handlers_send(3) [of m event] by simp
  next
    case said
    then show ?thesis using live text_delta_said by auto
  next
    case completed
    obtain us where us: "stream_usage (m\<lparr>rt_completed := True, rt_terminal_model :=
          named (fld ''model'' (fld ''response'' event)) (rt_terminal_model m)\<rparr>) (fld ''response'' event) = Inr us"
        and fs: "fs = [responses_chunk m [] (JStr (stream_finish_reason m event))] @ us @ [DoneMark]"
        and m': "m' = m\<lparr>rt_completed := True, rt_terminal_model :=
          named (fld ''model'' (fld ''response'' event)) (rt_terminal_model m), rt_done := True\<rparr>"
      using completed(2) by (auto simp: on_completed_def Let_def bind_js_Inr_iff)
    have "answer_text [responses_chunk m [] x] = []" "call_arguments i [responses_chunk m [] x] = []"
      "call_arguments i [DoneMark] = []" "answer_text [DoneMark] = []" for x
      by (simp_all add: chunk)
    then have "answer_text fs = []" "call_arguments i fs = []"
      unfolding fs collected_append stream_usage_frames(2,3) [OF us] by simp_all
    moreover have "ends_well fs"
      using stream_usage_frames(1) [OF us] by (simp add: fs ends_well_def butlast_append)
    moreover have "responses_quiet m'" "sent_of m' i = sent_of m i" by (simp_all add: m' responses_quiet_def sent_of_def)
    moreover have "last fs = DoneMark" by (simp add: fs)
    ultimately show ?thesis using completed(1) by auto
  next
    case (failed d)
    then show ?thesis by (auto simp: responses_error_def responses_quiet_def sent_of_def answer_text_def call_arguments_def)
  next
    case other
    then show ?thesis using live by auto
  qed
qed

lemmas responses_event_step =
  responses_event_step_all [THEN conjunct1]
  responses_event_step_all [THEN conjunct2, THEN conjunct1]
  responses_event_step_all [THEN conjunct2, THEN conjunct2, THEN conjunct1]
  responses_event_step_all [THEN conjunct2, THEN conjunct2, THEN conjunct2, THEN conjunct1]
  responses_event_step_all [THEN conjunct2, THEN conjunct2, THEN conjunct2, THEN conjunct2]

lemma responses_dispatch_step_all:
  assumes live: "\<not> responses_quiet m" and run: "responses_dispatch m d = Inr (fs, m')"
  shows "sent_of m' i = sent_of m i @ call_arguments i fs \<and>
    (if responses_quiet m' then ends_well fs else list_all (\<lambda>f. \<not> terminal f) fs) \<and>
    (case responses_stage d of
      Continues \<Rightarrow> \<not> responses_quiet m' \<and> answer_text fs = responses_said d
    | Stops \<Rightarrow> responses_quiet m' \<and> last fs = DoneMark \<and> answer_text fs = []
    | Fails \<Rightarrow> responses_quiet m' \<and> last fs \<noteq> DoneMark \<and> answer_text fs = [])"
proof -
  consider (mark) "d = ''[DONE]''" | (bad) "d \<noteq> ''[DONE]''" "json_parse d = None"
    | (event) event where "d \<noteq> ''[DONE]''" "json_parse d = Some event" by blast
  then show ?thesis
  proof cases
    case mark
    then show ?thesis using live run by (simp add: responses_dispatch_def responses_stage_def responses_said_def done_is_no_json)
  next
    case bad
    then show ?thesis using run
      by (auto simp: responses_dispatch_def responses_stage_def responses_error_def responses_quiet_def sent_of_def
          answer_text_def call_arguments_def)
  next
    case event
    then have "responses_event m event = Inr (fs, m')" using run by (simp add: responses_dispatch_def)
    note now = responses_event_step [OF live this]
    let ?t = "fld ''type'' event"
    have stage: "responses_stage d = (if ?t \<in> JStr ` {''response.completed'', ''response.incomplete''} then Stops
        else if ?t \<in> JStr ` {''response.failed'', ''error''} then Fails else Continues)"
      unfolding responses_stage_def event(2) option.case if_not_P [OF event(1)] by (simp only: image_insert image_empty insert_iff empty_iff simp_thms)
    have said: "responses_said d = answer_text fs"
      unfolding responses_said_def event(2) option.case now(5) ..
    consider "?t \<in> JStr ` {''response.completed'', ''response.incomplete''}"
      | "?t \<notin> JStr ` {''response.completed'', ''response.incomplete''}" "?t \<in> JStr ` {''response.failed'', ''error''}"
      | "?t \<notin> JStr ` {''response.completed'', ''response.incomplete'', ''response.failed'', ''error''}"
      by blast
    then show ?thesis
    proof cases
      case 1
      then have "responses_quiet m'" "answer_text fs = []" using now(3,5) by auto
      then show ?thesis using now(1,2,4) 1 by (simp only: stage if_True stage.case simp_thms)
    next
      case 2
      then have "responses_quiet m'" "answer_text fs = []" using now(3,5) by auto
      then show ?thesis using now(1,2,4) 2 by (simp only: stage if_True if_False stage.case simp_thms)
    next
      case 3
      then have "\<not> responses_quiet m'" "responses_stage d = Continues" using now(3) unfolding stage by auto
      then show ?thesis using now(1,2) said by (simp only: if_False stage.case simp_thms)
    qed
  qed
qed

lemmas responses_dispatch_step =
  responses_dispatch_step_all [THEN conjunct1]
  responses_dispatch_step_all [THEN conjunct2, THEN conjunct1]
  responses_dispatch_step_all [THEN conjunct2, THEN conjunct2]

interpretation responses_chat: staged_translator responses_dispatch responses_quiet responses_finish responses_stage responses_said
proof
  show "ends_well (responses_finish m)" if "\<not> responses_quiet m" for m
    using that by (simp add: responses_finish_def responses_error_def)
  show "last (responses_finish m) \<noteq> DoneMark \<and> answer_text (responses_finish m) = []" if "\<not> responses_quiet m" for m
    using that by (simp add: responses_finish_def responses_error_def answer_text_def)
  show "list_all (\<lambda>f. \<not> terminal f) fs"
    if "\<not> responses_quiet m" "responses_dispatch m d = Inr (fs, m')" "\<not> responses_quiet m'" for m d fs m'
    using responses_dispatch_step(2) [OF that(1,2)] that(3) by simp
  show "ends_well fs"
    if "\<not> responses_quiet m" "responses_dispatch m d = Inr (fs, m')" "responses_quiet m'" for m d fs m'
    using responses_dispatch_step(2) [OF that(1,2)] that(3) by simp
qed (simp_all only: responses_finish_def if_True responses_dispatch_step(3))

subsection \<open>When a handler throws\<close>

definition usage_converted :: "jsv \<Rightarrow> jsv list" where
  "usage_converted usage =
     [fld ''input_tokens'' usage, fld ''output_tokens'' usage, fld ''cached_tokens'' (fld ''input_tokens_details'' usage),
      fld ''cache_write_tokens'' (fld ''input_tokens_details'' usage), fld ''reasoning_tokens'' (fld ''output_tokens_details'' usage)]"

definition responses_converted :: "jsv \<Rightarrow> jsv list" where
  "responses_converted event =
     (let type = fld ''type'' event
      in if type = JStr ''response.output_item.added'' then
           [fld ''call_id'' (fld ''item'' event), fld ''id'' (fld ''item'' event)]
         else if type = JStr ''response.completed'' \<or> type = JStr ''response.incomplete'' then
           usage_converted (fld ''usage'' (fld ''response'' event))
         else if type = JStr ''response.failed'' then [fld ''message'' (fld ''error'' (fld ''response'' event))]
         else if type = JStr ''error'' then [fld ''message'' event, fld ''code'' event] else [])"

definition responses_readable :: "string \<Rightarrow> bool" where
  "responses_readable d \<longleftrightarrow>
     (case json_parse d of None \<Rightarrow> True | Some event \<Rightarrow> list_all convertible (responses_converted event))"

lemma number_or_zero_total: "convertible v \<Longrightarrow> \<exists>n. number_or_zero v = Inr n"
  using js_number_total [of "nullish v (jint 0)"] by (cases v) (auto simp: number_or_zero_def)

lemma chat_usage_total:
  assumes "list_all convertible (usage_converted usage)"
  shows "\<exists>u. chat_usage usage = Inr u"
  using assms
    number_or_zero_total [of "fld ''input_tokens'' usage"] number_or_zero_total [of "fld ''output_tokens'' usage"]
    number_or_zero_total [of "fld ''cached_tokens'' (fld ''input_tokens_details'' usage)"]
    number_or_zero_total [of "fld ''cache_write_tokens'' (fld ''input_tokens_details'' usage)"]
    number_or_zero_total [of "fld ''reasoning_tokens'' (fld ''output_tokens_details'' usage)"]
  by (auto simp: chat_usage_def usage_converted_def)

lemma convertible_string: "convertible v \<Longrightarrow> \<exists>s. js_string v = Inr s"
  using js_string_total by blast

lemma responses_event_total:
  assumes "list_all convertible (responses_converted event)"
  shows "\<exists>r. responses_event m event = Inr r"
proof -
  let ?t = "fld ''type'' event"
  consider (1) "?t = JStr ''response.output_item.added''" | (2) "?t = JStr ''response.completed'' \<or> ?t = JStr ''response.incomplete''"
    | (3) "?t = JStr ''response.failed''" | (4) "?t = JStr ''error''"
    | (5) "?t \<noteq> JStr ''response.output_item.added''" "?t \<noteq> JStr ''response.completed''" "?t \<noteq> JStr ''response.incomplete''"
        "?t \<noteq> JStr ''response.failed''" "?t \<noteq> JStr ''error''"
    by blast
  then show ?thesis
  proof cases
    case 1
    let ?item = "fld ''item'' event"
    have "convertible (nullish (fld ''call_id'' ?item) (nullish (fld ''id'' ?item) (JStr [])))"
      using assms 1 by (cases "fld ''call_id'' ?item"; cases "fld ''id'' ?item") (simp_all add: responses_converted_def)
    then obtain i where "js_string (nullish (fld ''call_id'' ?item) (nullish (fld ''id'' ?item) (JStr []))) = Inr i"
      using convertible_string by blast
    then show ?thesis using 1 by (simp add: responses_event_def on_item_added_def Let_def)
  next
    case 2
    then have "list_all convertible (usage_converted (fld ''usage'' (fld ''response'' event)))"
      using assms by (auto simp: responses_converted_def)
    then obtain u where "chat_usage (fld ''usage'' (fld ''response'' event)) = Inr u"
      using chat_usage_total by blast
    then have "\<exists>r. on_completed m event = Inr r" by (simp add: on_completed_def Let_def stream_usage_def)
    then show ?thesis using 2 by (auto simp: responses_event_def)
  next
    case 3
    then obtain d where "js_string (first_truthy [fld ''message'' (fld ''error'' (fld ''response'' event)),
        JStr ''bedrock response.failed with no detail'']) = Inr d"
      using assms convertible_string [OF first_truthy_convertible] by (fastforce simp: responses_converted_def)
    then show ?thesis using 3 by (simp add: responses_event_def)
  next
    case 4
    then obtain d where "js_string (first_truthy [fld ''message'' event, fld ''code'' event, JStr ''stream error'']) = Inr d"
      using assms convertible_string [OF first_truthy_convertible] by (fastforce simp: responses_converted_def)
    then show ?thesis using 4 by (simp add: responses_event_def)
  qed (simp add: responses_event_def Let_def)
qed

lemma responses_dispatch_total: "responses_readable d \<Longrightarrow> \<exists>r. responses_dispatch m d = Inr r"
  using responses_event_total by (auto simp: responses_dispatch_def responses_readable_def split: option.split)

subsection \<open>What the client gets\<close>

lemma responses_start_live [simp]: "\<not> responses_quiet (responses_start h)"
  by (simp add: responses_start_def responses_quiet_def)

text \<open>C32: However a Responses stream is cut into chunks, unless a value in it cannot be converted, the client reads
  plain chunks and then exactly one terminal frame; their text is the concatenation of the output text deltas before
  the first event that ends the answer, and the terminal frame is the DONE mark exactly when that event is
  response.completed or response.incomplete.\<close>

theorem responses_stream_delivers:
  assumes "\<forall>d \<in> set (sse_events (concat cs)). responses_readable d"
  shows "\<exists>out fs. responses_stream (responses_start h) cs = Inr out \<and> sse_events out = map frame_data fs \<and> ends_well fs \<and>
    answer_text fs = concat (map responses_said (answer_events responses_stage (sse_events (concat cs)))) \<and>
    (last fs = DoneMark \<longleftrightarrow> answer_complete responses_stage (sse_events (concat cs)))"
  unfolding responses_stream_def using assms
  by (intro responses_chat.stream_delivers responses_start_live responses_dispatch_total) simp

definition demo_call :: "jsv list" where
  "demo_call =
     [JObj [(''type'', JStr ''response.output_item.added''), (''output_index'', jint 0),
        (''item'', JObj [(''type'', JStr ''function_call''), (''id'', JStr ''i''), (''call_id'', JStr ''c''), (''name'', JStr ''f'')])],
      JObj [(''type'', JStr ''response.function_call_arguments.delta''), (''item_id'', JStr ''i''), (''delta'', JStr ''[1'')]]"

definition demo_call_done :: jsv where
  "demo_call_done =
     JObj [(''type'', JStr ''response.function_call_arguments.done''), (''item_id'', JStr ''i''), (''arguments'', JStr ''[1,2]'')]"

definition demo_completed :: jsv where
  "demo_completed = JObj [(''type'', JStr ''response.completed''), (''response'', JObj [(''model'', JStr ''m'')])]"

definition wire_stream :: "jsv list \<Rightarrow> string" where
  "wire_stream vs = concat (map (\<lambda>v. ''data: '' @ json_text v @ [CHR 0x0A, CHR 0x0A]) vs)"

definition demo_responses_head :: chat_head where
  "demo_responses_head = \<lparr>ch_id = ''chatcmpl-1'', ch_created = 7, ch_model = ''m''\<rparr>"

definition demo_spoken :: string where
  "demo_spoken = wire_stream
     [JObj [(''type'', JStr ''response.output_text.delta''), (''delta'', JStr ''Hi'')], demo_completed]"

theorem responses_stream_delivers_witness:
  "\<exists>out fs. responses_stream (responses_start demo_responses_head) [take 30 demo_spoken, drop 30 demo_spoken] = Inr out \<and>
     sse_events out = map frame_data fs \<and> answer_text fs = ''Hi'' \<and> last fs = DoneMark"
proof -
  let ?cs = "[take 30 demo_spoken, drop 30 demo_spoken]"
  have read: "list_all responses_readable (sse_events (concat ?cs))" by code_simp
  have "concat (map responses_said (answer_events responses_stage (sse_events (concat ?cs)))) = ''Hi''" by code_simp
  moreover have "answer_complete responses_stage (sse_events (concat ?cs))" by code_simp
  ultimately show ?thesis
    using responses_stream_delivers [of ?cs demo_responses_head] read unfolding list_all_iff by auto
qed

subsection \<open>Tool call arguments\<close>

lemma responses_run_sent:
  "\<not> responses_quiet m \<Longrightarrow> run_events responses_dispatch responses_quiet m es = Inr (fs, m') \<Longrightarrow>
     sent_of m' i = sent_of m i @ call_arguments i fs"
proof (induction es arbitrary: m fs)
  case (Cons d es)
  obtain gs m1 where react: "responses_dispatch m d = Inr (gs, m1)"
    using Cons.prems(2) by (auto simp: bind_js_Inr_iff)
  note now = responses_dispatch_step(1) [OF Cons.prems(1) react, of i]
  show ?case
  proof (cases "responses_quiet m1")
    case True
    then show ?thesis using Cons.prems(2) react now by simp
  next
    case False
    obtain hs where "run_events responses_dispatch responses_quiet m1 es = Inr (hs, m')" "fs = gs @ hs"
      using Cons.prems(2) react False by (auto simp: bind_js_Inr_iff)
    then show ?thesis using Cons.IH [OF False] now by simp
  qed
qed simp

lemma emit_args_suffix_completes:
  assumes "emit_args_suffix m i full = (gs, m')"
  shows "starts_with full (sent_of m i) \<Longrightarrow> sent_of m i @ call_arguments i gs = full"
    "\<not> starts_with full (sent_of m i) \<Longrightarrow> gs = []" "j \<noteq> i \<Longrightarrow> call_arguments j gs = []"
  using assms by (auto simp: emit_args_suffix_def Let_def starts_with_iff split: if_splits)

text \<open>The event that repeats the complete arguments of a call, in either of its two shapes.\<close>

definition final_arguments :: "responses_state \<Rightarrow> jsv \<Rightarrow> (nat \<times> string) option" where
  "final_arguments m event =
     (if fld ''type'' event = JStr ''response.function_call_arguments.done'' then
        (case (call_index m event, fld ''arguments'' event) of (Some i, JStr full) \<Rightarrow> Some (i, full) | _ \<Rightarrow> None)
      else if fld ''type'' event = JStr ''response.output_item.done'' \<and> fld ''type'' (fld ''item'' event) = JStr ''function_call'' then
        (case (map_read (rt_tools m) (item_key event), fld ''arguments'' (fld ''item'' event)) of
           (Some i, JStr full) \<Rightarrow> Some (i, full) | _ \<Rightarrow> None)
      else None)"

lemma final_arguments_emits:
  assumes "final_arguments m event = Some (i, full)"
  shows "responses_event m event = Inr (emit_args_suffix m i full)"
  using assms
  by (auto simp: final_arguments_def responses_event_def on_arguments_done_def on_item_done_def Let_def
      split: if_splits option.splits jsv.splits)



subsection \<open>A whole object\<close>

definition json_failure :: "string \<Rightarrow> jsv" where
  "json_failure message = JObj [(''error'', JObj [(''message'', JStr message), (''code'', jint 502)])]"

definition part_text :: "string \<Rightarrow> string \<Rightarrow> jsv \<Rightarrow> string" where
  "part_text ptype k part = (if fld ''type'' part = JStr ptype then str_of (fld k part) else [])"

definition item_text :: "string \<Rightarrow> string \<Rightarrow> jsv \<Rightarrow> string" where
  "item_text ptype k item =
     (if fld ''type'' item = JStr ''message'' then concat (map (part_text ptype k) (elems (fld ''content'' item))) else [])"

definition item_call :: "jsv \<Rightarrow> js_error + jsv list" where
  "item_call item =
     (if fld ''type'' item = JStr ''function_call'' then
        bind_js (js_string (nullish (fld ''call_id'' item) (nullish (fld ''id'' item) (JStr [])))) (\<lambda>i.
          Inr [JObj [(''id'', JStr i), (''type'', JStr ''function''),
            (''function'', JObj [(''name'', JStr (str_of (fld ''name'' item))), (''arguments'', JStr (str_of (fld ''arguments'' item)))])]])
      else Inr [])"

definition json_finish_reason :: "jsv \<Rightarrow> bool \<Rightarrow> string" where
  "json_finish_reason response called =
     (let reason = (if fld ''status'' response = JStr ''incomplete''
                    then fld ''reason'' (fld ''incomplete_details'' response) else JUndef)
      in if reason = JStr ''max_output_tokens'' then ''length''
         else if reason = JStr ''content_filter'' then ''content_filter''
         else if called then ''tool_calls'' else ''stop'')"

definition answer_message :: "string \<Rightarrow> jsv list \<Rightarrow> string \<Rightarrow> jsv" where
  "answer_message content calls refusal =
     JObj ([(''role'', JStr ''assistant''), (''content'', if content = [] then JNull else JStr content)]
       @ (if calls \<noteq> [] then [(''tool_calls'', JArr calls)] else [])
       @ (if refusal \<noteq> [] then [(''refusal'', JStr refusal)] else []))"

definition responses_json_to_chat_completion :: "chat_head \<Rightarrow> jsv \<Rightarrow> js_error + jsv" where
  "responses_json_to_chat_completion h response =
     (if \<not> is_obj response then Inr (json_failure ''upstream response was not a Responses object'')
      else if typeof_object (fld ''error'' response) then
        bind_js (js_string (first_truthy [fld ''message'' (fld ''error'' response), JStr ''response failed'']))
          (\<lambda>d. Inr (json_failure (''upstream '' @ d)))
      else if fld ''status'' response = JStr ''failed'' then Inr (json_failure ''upstream response failed'')
      else
        let items = elems (fld ''output'' response);
            content = concat (map (item_text ''output_text'' ''text'') items);
            refusal = concat (map (item_text ''refusal'' ''refusal'') items)
        in bind_js (all_right (map item_call items)) (\<lambda>calls.
           bind_js (chat_usage (fld ''usage'' response)) (\<lambda>u.
             Inr (JObj [(''id'', JStr (ch_id h)), (''object'', JStr ''chat.completion''), (''created'', JNum (Fin (ch_created h))),
               (''model'', JStr (case fld ''model'' response of JStr s \<Rightarrow> if s \<noteq> [] then s else ch_model h | _ \<Rightarrow> ch_model h)),
               (''choices'', JArr [JObj [(''index'', jint 0), (''message'', answer_message content (concat calls) refusal),
                  (''finish_reason'', JStr (json_finish_reason response (concat calls \<noteq> [])))]]),
               (''usage'', JObj u)]))))"

text \<open>\<open>ResponsesJsonToChat\<close>: the chunks are byte strings, and \<open>decode\<close> is the UTF-8 decoder.\<close>

definition max_json_body_bytes :: nat where "max_json_body_bytes = 4 * 1024 * 1024"

record json_answer =
  ja_head :: chat_head
  ja_wire_model :: "string option"
  ja_failed :: bool
  ja_chunks :: "string list"
  ja_bytes :: nat
  ja_over :: bool
  ja_done :: bool

definition json_answer_start :: "chat_head \<Rightarrow> json_answer" where
  "json_answer_start h =
     \<lparr>ja_head = h, ja_wire_model = None, ja_failed = False, ja_chunks = [], ja_bytes = 0, ja_over = False, ja_done = False\<rparr>"

definition json_answer_feed :: "string \<Rightarrow> json_answer \<Rightarrow> json_answer" where
  "json_answer_feed chunk st =
     (if ja_done st \<or> ja_over st then st
      else let n = ja_bytes st + length chunk
           in if n > max_json_body_bytes then st\<lparr>ja_bytes := n, ja_over := True, ja_chunks := []\<rparr>
              else st\<lparr>ja_bytes := n, ja_chunks := ja_chunks st @ [chunk]\<rparr>)"

definition json_answer_value :: "chat_head \<Rightarrow> string \<Rightarrow> js_error + jsv \<times> string option" where
  "json_answer_value h body =
     (case json_parse body of
        None \<Rightarrow> Inr (json_failure ''upstream response body was not JSON'', None)
      | Some parsed \<Rightarrow>
          bind_js (responses_json_to_chat_completion h parsed) (\<lambda>v. Inr (v, named (fld ''model'' parsed) None)))"

definition json_answer_finish :: "(string \<Rightarrow> string) \<Rightarrow> json_answer \<Rightarrow> js_error + string \<times> json_answer" where
  "json_answer_finish decode st =
     (if ja_done st then Inr ([], st)
      else bind_js
        (if ja_over st then Inr (json_failure ''upstream response body over the size cap'', None)
         else json_answer_value (ja_head st) (decode (concat (ja_chunks st))))
        (\<lambda>(v, w). Inr (json_text v,
           st\<lparr>ja_done := True, ja_failed := truthy (fld ''error'' v), ja_wire_model := w, ja_chunks := []\<rparr>)))"

subsection \<open>The whole object, however it is cut\<close>

definition json_answer_ok :: "string \<Rightarrow> json_answer \<Rightarrow> bool" where
  "json_answer_ok fed st \<longleftrightarrow>
     \<not> ja_done st \<and> \<not> ja_failed st \<and> ja_over st = (length fed > max_json_body_bytes) \<and>
     (if ja_over st then ja_chunks st = [] else concat (ja_chunks st) = fed \<and> ja_bytes st = length fed)"

lemma json_answer_fed:
  "json_answer_ok fed st \<Longrightarrow> json_answer_ok (fed @ concat cs) (fold json_answer_feed cs st) \<and> ja_head (fold json_answer_feed cs st) = ja_head st"
proof (induction cs arbitrary: fed st)
  case (Cons c cs)
  have "json_answer_ok (fed @ c) (json_answer_feed c st) \<and> ja_head (json_answer_feed c st) = ja_head st"
    using Cons.prems by (auto simp: json_answer_ok_def json_answer_feed_def Let_def)
  then show ?case using Cons.IH [of "fed @ c" "json_answer_feed c st"] by simp
qed simp

text \<open>However a non-streaming answer is cut into chunks, at most 4 MB of it are ever held; the client gets the
  translation of the whole object, or the size error when it is longer, nothing before the end, and the answer is
  recorded as failed exactly when it is an error.\<close>

theorem json_answer_any_chunking:
  "let st = fold json_answer_feed cs (json_answer_start h); body = concat cs
   in length (concat (ja_chunks st)) \<le> max_json_body_bytes \<and>
      map_sum id (\<lambda>(out, st'). (out, ja_failed st')) (json_answer_finish decode st) =
      (if length body > max_json_body_bytes
       then Inr (json_text (json_failure ''upstream response body over the size cap''), True)
       else map_sum id (\<lambda>(v, w). (json_text v, truthy (fld ''error'' v))) (json_answer_value h (decode body)))"
proof -
  have "json_answer_ok [] (json_answer_start h)" by (simp add: json_answer_ok_def json_answer_start_def)
  from json_answer_fed [OF this, of cs] show ?thesis
    by (auto simp: json_answer_ok_def json_answer_start_def json_answer_finish_def Let_def bind_js_def json_failure_def
        split: sum.split)
qed

subsection \<open>The stream and the whole object agree\<close>

definition calls_function :: "jsv \<Rightarrow> bool" where
  "calls_function response \<longleftrightarrow> list_ex (\<lambda>item. fld ''type'' item = JStr ''function_call'') (elems (fld ''output'' response))"

lemma all_right_calls:
  "all_right (map item_call items) = Inr calls \<Longrightarrow>
     concat calls \<noteq> [] \<longleftrightarrow> list_ex (\<lambda>item. fld ''type'' item = JStr ''function_call'') items"
proof (induction items arbitrary: calls)
  case (Cons item items)
  then show ?case by (auto simp: bind_js_Inr_iff item_call_def split: if_splits)
qed simp


definition demo_response :: "string \<Rightarrow> jsv" where
  "demo_response reason =
     JObj [(''model'', JStr ''m''), (''status'', JStr ''incomplete''), (''incomplete_details'', JObj [(''reason'', JStr reason)]),
       (''usage'', JObj [(''input_tokens'', jint 3), (''output_tokens'', jint 4)])]"

definition demo_incomplete :: "string \<Rightarrow> jsv" where
  "demo_incomplete reason = JObj [(''type'', JStr ''response.incomplete''), (''response'', demo_response reason)]"


text \<open>An answer that a content filter stopped ends with the finish reason stop on the stream, where the
  non-streaming answer says content_filter.\<close>

theorem content_filter_streams_stop:
  "\<exists>m' v us. responses_event (responses_start h) (demo_incomplete ''content_filter'') =
      Inr ([responses_chunk (responses_start h) [] (JStr ''stop'')] @ us @ [DoneMark], m') \<and>
    responses_json_to_chat_completion h (demo_response ''content_filter'') = Inr v \<and>
    fld ''finish_reason'' (hd (elems (fld ''choices'' v))) = JStr ''content_filter''"
  by (simp add: demo_incomplete_def demo_response_def responses_event_def on_completed_def stream_finish_reason_def
      stream_usage_def chat_usage_def number_or_zero_def responses_start_def responses_chunk_def
      responses_json_to_chat_completion_def json_finish_reason_def)

end
