(* ===== verification/TextLines.thy ===== *)
theory TextLines
  imports JsPrelude
begin

text \<open>
  Text that arrives in chunks and is read line by line with a carry buffer, as \<open>cost.mjs\<close>,
  \<open>outputCount.mjs\<close> and \<open>firstToken.mjs\<close> do: the lines of a text, and what is left of them when the text is
  cut anywhere.
\<close>

abbreviation lines_of :: "string \<Rightarrow> string list" where
  "lines_of s \<equiv> split_char (CHR 0x0A) s"

lemma split_char_cut:
  "split_char c (x @ y) = butlast (split_char c x) @ split_char c (last (split_char c x) @ y)"
proof (induction x)
  case (Cons d x)
  show ?case
  proof (cases "d = c")
    case False
    obtain w ws where w: "split_char c x = w # ws" by (cases "split_char c x") auto
    show ?thesis
    proof (cases ws)
      case Nil
      then show ?thesis using Cons False w by (simp split: list.split)
    next
      case (Cons v vs)
      then have "split_char c (x @ y) = w # butlast ws @ split_char c (last ws @ y)"
        using \<open>split_char c (x @ y) = _\<close> w by simp
      then show ?thesis using False w Cons by simp
    qed
  qed (use Cons in simp)
qed simp

lemma first_line_prefix: "c \<notin> set w \<Longrightarrow> \<exists>v. hd (split_char c (w @ y)) = w @ v"
proof (induction w)
  case Nil
  then show ?case by simp
next
  case (Cons d w)
  then obtain v where "hd (split_char c (w @ y)) = w @ v" by auto
  then show ?case using Cons.prems by (auto split: list.split)
qed

lemma last_line: "c \<notin> set (last (split_char c s))"
  by (rule split_char_no_sep [of _ c s]) simp

text \<open>A bound on the lines of the whole text bounds the buffer between two chunks.\<close>

definition short_lines :: "nat \<Rightarrow> string \<Rightarrow> bool" where
  "short_lines n s \<longleftrightarrow> list_all (\<lambda>l. length l \<le> n) (lines_of s)"

lemma short_lines_cut:
  assumes "short_lines n (x @ y)"
  shows "short_lines n (last (lines_of x) @ y)" "length (last (lines_of x)) \<le> n"
proof -
  let ?l = "last (lines_of x)"
  show short: "short_lines n (?l @ y)"
    using assms by (simp add: short_lines_def split_char_cut [of _ x y])
  have "CHR 0x0A \<notin> set ?l" by (rule last_line)
  then obtain v where "hd (lines_of (?l @ y)) = ?l @ v" using first_line_prefix by blast
  moreover have "length (hd (lines_of (?l @ y))) \<le> n"
    using short by (cases "lines_of (?l @ y)") (auto simp: short_lines_def)
  ultimately show "length ?l \<le> n" by simp
qed

lemma split_char_lengths: "w \<in> set (split_char c s) \<Longrightarrow> length w \<le> length s"
proof (induction s arbitrary: w)
  case (Cons d s)
  then show ?case by (fastforce split: list.splits if_splits)
qed simp

lemma short_text: "length s \<le> n \<Longrightarrow> short_lines n s"
  using split_char_lengths by (fastforce simp: short_lines_def list_all_iff)

end
