(* ===== verification/CostExtract.thy ===== *)
theory CostExtract
  imports JsConvert TextLines
begin

text \<open>
  \<open>enclave/src/cost.mjs\<close>: the usage, cost, model and generation id that are read out of an answer on its
  way to the client, line by line, with two windows for a line past the limit; with \<open>providerName.mjs\<close>. A
  chunk is the text the streaming decoder makes of it. An exception inside \<open>parseCostingChunk\<close> is caught
  there and reads as no usage; one outside leaves through \<open>feed\<close>.
\<close>

subsection \<open>Provider names\<close>

definition provider_char :: "char \<Rightarrow> bool" where
  "provider_char c \<longleftrightarrow> is_alnum c \<or> c \<in> set ''_ .()/-''"

definition provider_name :: "jsv \<Rightarrow> string option" where
  "provider_name v =
     (case v of
        JStr s \<Rightarrow> if s \<noteq> [] \<and> length s \<le> 64 \<and> list_all provider_char s then Some s else None
      | _ \<Rightarrow> None)"

subsection \<open>One usage frame\<close>

record costing =
  co_model :: jsv
  co_cost :: jsnum
  co_input :: jsnum
  co_output :: jsnum
  co_byok :: "bool option"
  co_id :: jsv
  co_read :: "jsnum option"
  co_write :: "jsnum option"
  co_reasoning :: "jsnum option"
  co_provider :: "string option"

definition num_of :: "jsv \<Rightarrow> jsnum option" where
  "num_of v = (case v of JNum n \<Rightarrow> Some n | _ \<Rightarrow> None)"

definition number_of :: "jsv list \<Rightarrow> jsnum option" where
  "number_of vs = (case js_number (first_truthy vs) of Inr n \<Rightarrow> Some n | Inl e \<Rightarrow> None)"

text \<open>\<open>model?.endsWith(':free')\<close>: \<open>None\<close> when the value has no such method.\<close>

definition names_free :: "jsv \<Rightarrow> bool option" where
  "names_free model =
     (case model of
        JUndef \<Rightarrow> Some False | JNull \<Rightarrow> Some False | JStr s \<Rightarrow> Some (ends_with s '':free'') | _ \<Rightarrow> None)"

definition min_cost_input :: rat where "min_cost_input = 3 / 10000000"
definition min_cost_output :: rat where "min_cost_output = 1 / 1000000"

definition byok_cost :: "jsv \<Rightarrow> bool" where
  "byok_cost usage \<longleftrightarrow>
     fld ''is_byok'' usage = JTrue \<and> truthy (fld ''upstream_inference_cost'' (fld ''cost_details'' usage))"

definition total_cost :: "jsv \<Rightarrow> bool \<Rightarrow> jsnum \<Rightarrow> jsnum \<Rightarrow> jsnum option" where
  "total_cost usage free i out =
     (if free \<and> (fld ''cost'' usage = jint 0 \<or> fld ''cost'' usage = JNull \<or> fld ''cost'' usage = JUndef)
      then Some (js_plus (js_scale min_cost_input i) (js_scale min_cost_output out))
      else if byok_cost usage then number_of [fld ''upstream_inference_cost'' (fld ''cost_details'' usage)]
      else number_of [fld ''total_cost'' usage, fld ''cost'' usage, jint 0])"

definition from_usage :: "jsv \<Rightarrow> jsv \<Rightarrow> jsv \<Rightarrow> jsv \<Rightarrow> costing option" where
  "from_usage usage model ident provider =
     (case number_of [fld ''prompt_tokens'' usage, fld ''input_tokens'' usage, jint 0] of
        None \<Rightarrow> None
      | Some i \<Rightarrow>
     (case number_of [fld ''completion_tokens'' usage, fld ''output_tokens'' usage, jint 0] of
        None \<Rightarrow> None
      | Some out \<Rightarrow>
     (case names_free model of
        None \<Rightarrow> None
      | Some free \<Rightarrow>
     (case total_cost usage free i out of
        None \<Rightarrow> None
      | Some cost \<Rightarrow>
          Some \<lparr>co_model = model, co_cost = cost, co_input = i, co_output = out, co_byok = Some (byok_cost usage), co_id = ident,
            co_read = num_of (nullish (fld ''cached_tokens'' (fld ''prompt_tokens_details'' usage))
              (nullish (fld ''cached_tokens'' (fld ''input_tokens_details'' usage)) (fld ''cache_read_input_tokens'' usage))),
            co_write = num_of (nullish (fld ''cache_write_tokens'' (fld ''prompt_tokens_details'' usage))
              (nullish (fld ''cache_write_tokens'' (fld ''input_tokens_details'' usage)) (fld ''cache_creation_input_tokens'' usage))),
            co_reasoning = num_of (nullish (fld ''reasoning_tokens'' (fld ''completion_tokens_details'' usage))
              (fld ''reasoning_tokens'' (fld ''output_tokens_details'' usage))),
            co_provider = provider_name provider\<rparr>))))"

definition from_frame :: "jsv \<Rightarrow> costing option" where
  "from_frame c =
     (let response = fld ''response'' c; message = fld ''message'' c
      in if truthy (fld ''usage'' c) then from_usage (fld ''usage'' c) (fld ''model'' c) (fld ''id'' c) (fld ''provider'' c)
         else if truthy (fld ''usage'' response) then
           from_usage (fld ''usage'' response) (fld ''model'' response) (fld ''id'' response)
             (nullish (fld ''provider'' response) (fld ''provider'' c))
         else if truthy (fld ''usage'' message) then
           Some \<lparr>co_model = fld ''model'' message, co_cost = Fin 0, co_input = Fin 0, co_output = Fin 0, co_byok = None,
             co_id = fld ''id'' message, co_read = None, co_write = None, co_reasoning = None,
             co_provider = provider_name (nullish (fld ''provider'' message) (fld ''provider'' c))\<rparr>
         else None)"

definition quoted :: "string \<Rightarrow> string" where
  "quoted s = CHR 0x22 # s @ [CHR 0x22]"

definition parse_costing_chunk :: "string \<Rightarrow> costing option" where
  "parse_costing_chunk line =
     (if \<not> str_includes line (quoted ''usage'') then None
      else
        let json = (if starts_with line ''data: '' then trim (drop 6 line) else trim line)
        in if json = ''[DONE]'' \<or> json = [] then None
           else (case json_parse json of None \<Rightarrow> None | Some c \<Rightarrow> from_frame c))"

subsection \<open>Fields found in a line\<close>

text \<open>The regular expressions of the form \<open>"name"\s*:\s*"(value)"\<close>: at one place, and the first match. The
  class of a value has no quote, so its run is the longest one.\<close>

definition field_here :: "string \<Rightarrow> (string \<Rightarrow> bool) \<Rightarrow> (char \<Rightarrow> bool) \<Rightarrow> string \<Rightarrow> string option" where
  "field_here name shape ok s =
     (if \<not> starts_with s (quoted name) then None
      else case dropWhile is_space (drop (length name + 2) s) of
        [] \<Rightarrow> None
      | c # r \<Rightarrow>
          if c \<noteq> CHR '':'' then None
          else (case dropWhile is_space r of
                  [] \<Rightarrow> None
                | q # t \<Rightarrow>
                    let v = takeWhile ok t; rest = dropWhile ok t
                    in if q = CHR 0x22 \<and> shape v \<and> rest \<noteq> [] \<and> hd rest = CHR 0x22 then Some v else None))"

fun field_match :: "string \<Rightarrow> (string \<Rightarrow> bool) \<Rightarrow> (char \<Rightarrow> bool) \<Rightarrow> string \<Rightarrow> string option" where
  "field_match name shape ok [] = None"
| "field_match name shape ok (c # s) =
     (case field_here name shape ok (c # s) of Some v \<Rightarrow> Some v | None \<Rightarrow> field_match name shape ok s)"

definition sized :: "nat \<Rightarrow> string \<Rightarrow> bool" where
  "sized n s \<longleftrightarrow> s \<noteq> [] \<and> length s \<le> n"

definition slug_char :: "char \<Rightarrow> bool" where
  "slug_char c \<longleftrightarrow> is_alnum c \<or> c \<in> set ''._:/@~-''"

definition plain_char :: "char \<Rightarrow> bool" where
  "plain_char c \<longleftrightarrow> c \<noteq> CHR 0x22 \<and> c \<noteq> CHR 0x5C"

definition gen_id :: "string \<Rightarrow> string option" where
  "gen_id line = field_match ''id'' (\<lambda>v. starts_with v ''gen-'' \<and> length v > 4) (\<lambda>c. c \<noteq> CHR 0x22) line"

definition model_slug :: "string \<Rightarrow> string option" where
  "model_slug line = field_match ''model'' (sized 96) slug_char line"

subsection \<open>Windows of an over-long line\<close>

definition max_line_chars :: nat where "max_line_chars = 1000000"
definition window_chars :: nat where "window_chars = 64 * 1024"

text \<open>The text from the brace of the last \<open>"usage": {\<close> that no backslash precedes.\<close>

definition usage_here :: "string \<Rightarrow> string option" where
  "usage_here s =
     (if \<not> starts_with s (quoted ''usage'') then None
      else case dropWhile is_space (drop 7 s) of
        [] \<Rightarrow> None
      | c # r \<Rightarrow>
          if c \<noteq> CHR '':'' then None
          else (let t = dropWhile is_space r in if t \<noteq> [] \<and> hd t = CHR ''{'' then Some t else None))"

fun last_usage_from :: "bool \<Rightarrow> string \<Rightarrow> string option \<Rightarrow> string option" where
  "last_usage_from escaped [] found = found"
| "last_usage_from escaped (c # s) found =
     last_usage_from (c = CHR 0x5C) s
       (case usage_here (c # s) of Some t \<Rightarrow> if escaped then found else Some t | None \<Rightarrow> found)"

text \<open>The scan for the closing brace: how many characters the object has.\<close>

fun object_span :: "nat \<Rightarrow> bool \<Rightarrow> bool \<Rightarrow> nat \<Rightarrow> string \<Rightarrow> nat option" where
  "object_span depth in_string skip n [] = None"
| "object_span depth in_string skip n (c # s) =
     (if skip then object_span depth in_string False (Suc n) s
      else if in_string then
        object_span depth (c \<noteq> CHR 0x22) (c = CHR 0x5C) (Suc n) s
      else if c = CHR 0x22 then object_span depth True False (Suc n) s
      else if c = CHR ''{'' then object_span (Suc depth) False False (Suc n) s
      else if c = CHR ''}'' then
        (if depth = 1 then Some (Suc n) else object_span (depth - 1) False False (Suc n) s)
      else object_span depth False False (Suc n) s)"

definition last_usage_object :: "string \<Rightarrow> jsv option" where
  "last_usage_object s =
     (case last_usage_from False s None of
        None \<Rightarrow> None
      | Some t \<Rightarrow> (case object_span 0 False False 0 t of None \<Rightarrow> None | Some n \<Rightarrow> json_parse (take n t)))"

definition opt_str :: "string option \<Rightarrow> jsv" where
  "opt_str v = (case v of Some s \<Rightarrow> JStr s | None \<Rightarrow> JUndef)"

definition window_line :: "string \<Rightarrow> string \<Rightarrow> string" where
  "window_line h t =
     (case last_usage_object t of
        None \<Rightarrow> h
      | Some usage \<Rightarrow>
          if \<not> truthy usage then h
          else json_text (JObj
            [(''id'', opt_str (field_match ''id'' (sized 200) plain_char h)),
             (''model'', opt_str (field_match ''model'' (sized 96) slug_char h)),
             (''provider'', opt_str (field_match ''provider'' (sized 96) plain_char h)),
             (''usage'', usage)]))"

subsection \<open>The extractor\<close>

record cost_result =
  cr_model :: jsv
  cr_cost :: jsnum
  cr_input :: jsnum
  cr_output :: jsnum
  cr_id :: "string option"
  cr_read :: "jsnum option"
  cr_write :: "jsnum option"
  cr_reasoning :: "jsnum option"
  cr_provider :: "string option"
  cr_byok :: "bool option"

record extractor =
  ce_free :: bool
  ce_buffer :: string
  ce_long :: "(string \<times> string) option"
  ce_result :: cost_result

definition no_result :: cost_result where
  "no_result = \<lparr>cr_model = JUndef, cr_cost = Fin 0, cr_input = Fin 0, cr_output = Fin 0, cr_id = None, cr_read = None,
     cr_write = None, cr_reasoning = None, cr_provider = None, cr_byok = None\<rparr>"

definition new_extractor :: "bool \<Rightarrow> extractor" where
  "new_extractor free = \<lparr>ce_free = free, ce_buffer = [], ce_long = None, ce_result = no_result\<rparr>"

definition or_else :: "'a option \<Rightarrow> 'a option \<Rightarrow> 'a option" where
  "or_else new old = (case new of Some x \<Rightarrow> Some x | None \<Rightarrow> old)"

definition glean_line :: "string \<Rightarrow> cost_result \<Rightarrow> cost_result" where
  "glean_line line r =
     (let r1 = (if cr_id r = None \<and> str_includes line (CHR 0x22 # ''gen-'') then r\<lparr>cr_id := gen_id line\<rparr> else r)
      in if \<not> truthy (cr_model r1) \<and> str_includes line (quoted ''model'')
         then (case model_slug line of Some m \<Rightarrow> r1\<lparr>cr_model := JStr m\<rparr> | None \<Rightarrow> r1) else r1)"

text \<open>The generation id of a frame: \<open>None\<close> when \<open>startsWith\<close> is no method of it, which throws.\<close>

definition new_generation :: "jsv \<Rightarrow> string option option" where
  "new_generation v =
     (case v of
        JUndef \<Rightarrow> Some None | JNull \<Rightarrow> Some None
      | JStr s \<Rightarrow> Some (if starts_with s ''gen-'' then Some s else None) | _ \<Rightarrow> None)"

definition apply_costing :: "bool \<Rightarrow> costing \<Rightarrow> cost_result \<Rightarrow> js_error + cost_result" where
  "apply_costing free p r =
     (case (if cr_id r = None then new_generation (co_id p) else Some (cr_id r)) of
        None \<Rightarrow> Inl TypeError
      | Some g \<Rightarrow>
          Inr \<lparr>cr_model = (if truthy (co_model p) then co_model p else cr_model r),
            cr_cost = (if free then Fin 0 else if truthy (JNum (co_cost p)) then co_cost p else cr_cost r),
            cr_input = (if truthy (JNum (co_input p)) then co_input p else cr_input r),
            cr_output = (if truthy (JNum (co_output p)) then co_output p else cr_output r),
            cr_id = g, cr_read = or_else (co_read p) (cr_read r), cr_write = or_else (co_write p) (cr_write r),
            cr_reasoning = or_else (co_reasoning p) (cr_reasoning r), cr_provider = or_else (co_provider p) (cr_provider r),
            cr_byok = or_else (co_byok p) (cr_byok r)\<rparr>)"

definition cost_line :: "bool \<Rightarrow> string \<Rightarrow> cost_result \<Rightarrow> js_error + cost_result" where
  "cost_line free line r =
     (if trim line = [] then Inr r
      else case parse_costing_chunk line of
        None \<Rightarrow> Inr (glean_line line r)
      | Some p \<Rightarrow> apply_costing free p r)"

fun cost_lines :: "bool \<Rightarrow> string list \<Rightarrow> cost_result \<Rightarrow> js_error + cost_result" where
  "cost_lines free [] r = Inr r"
| "cost_lines free (l # ls) r = bind_js (cost_line free l r) (cost_lines free ls)"

definition keep_tail :: "string \<Rightarrow> string \<Rightarrow> string" where
  "keep_tail tail_text s = (let t = tail_text @ s in drop (length t - window_chars) t)"

definition end_long_line :: "extractor \<Rightarrow> js_error + extractor" where
  "end_long_line e =
     (case ce_long e of
        None \<Rightarrow> Inr e
      | Some (h, t) \<Rightarrow>
          bind_js (cost_line (ce_free e) (window_line h t) (ce_result e)) (\<lambda>r. Inr (e\<lparr>ce_long := None, ce_result := r\<rparr>)))"

definition feed_lines :: "string \<Rightarrow> extractor \<Rightarrow> js_error + extractor" where
  "feed_lines s e =
     (let lines = split_char (CHR 0x0A) (ce_buffer e @ s); buffer = last lines
      in bind_js (cost_lines (ce_free e) (butlast lines) (ce_result e)) (\<lambda>r.
           Inr (if length buffer > max_line_chars
                then e\<lparr>ce_result := r, ce_buffer := [], ce_long := Some (take window_chars buffer, keep_tail [] buffer)\<rparr>
                else e\<lparr>ce_result := r, ce_buffer := buffer\<rparr>)))"

definition extractor_feed :: "string \<Rightarrow> extractor \<Rightarrow> js_error + extractor" where
  "extractor_feed s e =
     (case ce_long e of
        None \<Rightarrow> feed_lines s e
      | Some (h, t) \<Rightarrow>
          (case index_of s (CHR 0x0A) of
             None \<Rightarrow> Inr (e\<lparr>ce_long := Some (h, keep_tail t s)\<rparr>)
           | Some i \<Rightarrow>
               bind_js (end_long_line (e\<lparr>ce_long := Some (h, keep_tail t (take i s))\<rparr>)) (feed_lines (drop (Suc i) s))))"

definition extractor_finish :: "extractor \<Rightarrow> js_error + cost_result" where
  "extractor_finish e =
     bind_js (end_long_line e) (\<lambda>e1. cost_line (ce_free e1) (ce_buffer e1) (ce_result e1))"

fun extractor_run :: "extractor \<Rightarrow> string list \<Rightarrow> js_error + cost_result" where
  "extractor_run e [] = extractor_finish e"
| "extractor_run e (c # cs) = bind_js (extractor_feed c e) (\<lambda>e1. extractor_run e1 cs)"

subsection \<open>Chunks do not matter\<close>

lemma cost_lines_append: "cost_lines free (xs @ ys) r = bind_js (cost_lines free xs r) (cost_lines free ys)"
  by (induction xs arbitrary: r) (auto simp: bind_js_def split: sum.split)

lemma bind_js_Inr [simp]: "bind_js m Inr = m"
  by (cases m) simp_all

lemma cost_run_lines:
  assumes "ce_long e = None" "CHR 0x0A \<notin> set (ce_buffer e)" "short_lines max_line_chars (ce_buffer e @ concat cs)"
  shows "extractor_run e cs = cost_lines (ce_free e) (lines_of (ce_buffer e @ concat cs)) (ce_result e)"
  using assms
proof (induction cs arbitrary: e)
  case Nil
  have "cost_lines (ce_free e) [] = Inr" by (rule ext) simp
  then show ?case
    using Nil.prems by (simp add: split_char_none extractor_finish_def end_long_line_def)
next
  case (Cons c cs)
  let ?x = "ce_buffer e @ c" and ?y = "concat cs"
  let ?l = "last (lines_of ?x)"
  have short: "short_lines max_line_chars (?x @ ?y)" using Cons.prems(3) by simp
  note cut = short_lines_cut [OF short]
  have feed: "extractor_feed c e =
      bind_js (cost_lines (ce_free e) (butlast (lines_of ?x)) (ce_result e)) (\<lambda>r. Inr (e\<lparr>ce_result := r, ce_buffer := ?l\<rparr>))"
    using Cons.prems(1) cut(2) by (simp add: extractor_feed_def feed_lines_def Let_def)
  have later: "extractor_run (e\<lparr>ce_result := r, ce_buffer := ?l\<rparr>) cs = cost_lines (ce_free e) (lines_of (?l @ ?y)) r" for r
    using Cons.IH [of "e\<lparr>ce_result := r, ce_buffer := ?l\<rparr>"] Cons.prems(1) cut(1) last_line by simp
  have "extractor_run e (c # cs) =
      bind_js (cost_lines (ce_free e) (butlast (lines_of ?x)) (ce_result e)) (cost_lines (ce_free e) (lines_of (?l @ ?y)))"
    by (simp add: feed later bind_js_def split: sum.split)
  also have "\<dots> = cost_lines (ce_free e) (lines_of (?x @ ?y)) (ce_result e)"
    by (simp only: split_char_cut [of _ ?x ?y] cost_lines_append)
  finally show ?case by simp
qed

text \<open>As long as no line is over the limit, the usage extractor reads the same from an answer however it is cut into
  chunks: what reading its lines in order gives.\<close>

theorem cost_any_chunking:
  assumes "short_lines max_line_chars (concat cs)"
  shows "extractor_run (new_extractor free) cs = cost_lines free (lines_of (concat cs)) no_result"
  using cost_run_lines [of "new_extractor free" cs] assms by (simp add: new_extractor_def)

definition demo_usage_line :: string where
  "demo_usage_line = ''data: '' @ json_text (JObj
     [(''id'', JStr ''gen-1''), (''model'', JStr ''m''), (''usage'', JObj [(''prompt_tokens'', jint 3), (''completion_tokens'', jint 4)])])
     @ [CHR 0x0A]"

theorem cost_any_chunking_witness:
  "\<exists>r. extractor_run (new_extractor False) [take 20 demo_usage_line, drop 20 demo_usage_line] = Inr r
     \<and> cr_input r = Fin 3 \<and> cr_output r = Fin 4 \<and> cr_id r = Some ''gen-1''"
proof -
  let ?cs = "[take 20 demo_usage_line, drop 20 demo_usage_line]"
  have "length (concat ?cs) < 200" by code_simp
  then have short: "short_lines max_line_chars (concat ?cs)"
    by (intro short_text) (simp add: max_line_chars_def)
  have "cost_lines False (lines_of (concat ?cs)) no_result = Inr (projr (cost_lines False (lines_of (concat ?cs)) no_result))"
      "cr_input (projr (cost_lines False (lines_of (concat ?cs)) no_result)) = Fin 3"
      "cr_output (projr (cost_lines False (lines_of (concat ?cs)) no_result)) = Fin 4"
      "cr_id (projr (cost_lines False (lines_of (concat ?cs)) no_result)) = Some ''gen-1''"
    by code_simp+
  then show ?thesis unfolding cost_any_chunking [OF short] by blast
qed

text \<open>A usage frame whose id is a number makes the extractor throw out of \<open>feed\<close>, past the handler that makes every
  other malformed frame read as no usage.\<close>

definition numeric_id_line :: string where
  "numeric_id_line = ''data: '' @ json_text (JObj [(''id'', jint 5), (''usage'', JObj [(''cost'', jint 1)])]) @ [CHR 0x0A]"

theorem numeric_id_throws: "extractor_run (new_extractor free) [numeric_id_line] = Inl TypeError"
proof -
  have "length numeric_id_line < 200" by code_simp
  then have "short_lines max_line_chars numeric_id_line" by (intro short_text) (simp add: max_line_chars_def)
  then have "extractor_run (new_extractor free) [numeric_id_line] = cost_lines free (lines_of numeric_id_line) no_result"
    using cost_run_lines [of "new_extractor free" "[numeric_id_line]"] by (simp add: new_extractor_def)
  also have "\<dots> = Inl TypeError" by (cases free) (code_simp | simp)+
  finally show ?thesis .
qed

end
