(* ===== verification/Settlement.thy ===== *)
theory Settlement
  imports CostExtract MessagesStream ResponsesStream
begin

text \<open>
  From an upstream's answer to the bill: what the usage extractor (\<open>cost.mjs\<close>) reads from the chat frames a
  translator writes.
\<close>

subsection \<open>Frames as the extractor reads them\<close>

definition frame_clean :: "frame \<Rightarrow> bool" where
  "frame_clean f = (case f of Frame kvs \<Rightarrow> json_clean (JObj kvs) | DoneMark \<Rightarrow> True)"

definition frame_costing :: "frame \<Rightarrow> costing option" where
  "frame_costing f = (case f of Frame kvs \<Rightarrow> from_frame (JObj kvs) | DoneMark \<Rightarrow> None)"

lemma joined_member: "w \<in> set ws \<Longrightarrow> str_includes (str_join sep ws) w"
proof (induction ws)
  case (Cons v ws)
  have tail: "str_join sep (v # ws) = v @ (if ws = [] then [] else sep @ str_join sep ws)"
    by (cases ws) (simp_all add: str_join_def)
  show ?case
  proof (cases "w = v")
    case True
    then show ?thesis unfolding str_includes_iff tail by (metis append_Nil)
  next
    case False
    then have ws: "w \<in> set ws" "ws \<noteq> []" using Cons.prems by auto
    then obtain a b where "str_join sep ws = a @ w @ b"
      using Cons.IH unfolding str_includes_iff by blast
    then have "str_join sep (v # ws) = (v @ sep @ a) @ w @ b" using ws unfolding tail by simp
    then show ?thesis unfolding str_includes_iff by blast
  qed
qed simp

lemma includes_trans: "str_includes s p \<Longrightarrow> str_includes p q \<Longrightarrow> str_includes s q"
  unfolding str_includes_iff by (metis append.assoc)

lemma quote_usage: "json_quote ''usage'' = quoted ''usage''"
  by code_simp

lemma object_includes_usage:
  assumes "fld ''usage'' (JObj kvs) \<noteq> JUndef"
  shows "str_includes (json_text (JObj kvs)) (quoted ''usage'')"
proof -
  let ?m = "\<lambda>(k, v). json_quote k @ CHR '':'' # json_text v"
  obtain u where u: "(''usage'', u) \<in> set kvs" "u \<noteq> JUndef"
    using assms by (auto split: option.splits dest: map_of_SomeD)
  then have "?m (''usage'', u) \<in> set (map ?m (filter (\<lambda>(k, v). v \<noteq> JUndef) kvs))" by force
  from joined_member [OF this] have "str_includes (str_join '','' (map ?m (filter (\<lambda>(k, v). v \<noteq> JUndef) kvs))) (quoted ''usage'')"
    by (rule includes_trans) (simp add: quote_usage str_includes_iff, metis append_Nil)
  then show ?thesis unfolding str_includes_iff json_text.simps by (metis append_Cons append_assoc)
qed

lemma trim_object: "trim (json_text (JObj kvs)) = json_text (JObj kvs)"
  by (simp add: trim_def is_space_def)

lemma done_costing: "parse_costing_chunk ''data: [DONE]'' = None" "trim ''data: [DONE]'' \<noteq> []"
  by code_simp+

text \<open>A line of a frame reads as its object does.\<close>

lemma frame_parsed:
  assumes "frame_clean f"
  shows "parse_costing_chunk (''data: '' @ frame_data f) = frame_costing f
    \<or> parse_costing_chunk (''data: '' @ frame_data f) = None \<and> (\<forall>kvs. f = Frame kvs \<longrightarrow> fld ''usage'' (JObj kvs) = JUndef)"
proof (cases f)
  case (Frame kvs)
  let ?t = "json_text (JObj kvs)"
  have parse: "json_parse ?t = Some (JObj kvs)" using assms Frame by (intro json_roundtrip) (simp add: frame_clean_def)
  have start: "starts_with (''data: '' @ ?t) ''data: ''" "drop 6 (''data: '' @ ?t) = ?t"
    by (simp_all add: starts_with_def del: json_text.simps)
  have shape: "?t \<noteq> ''[DONE]''" "?t \<noteq> []" by simp_all
  show ?thesis
  proof (cases "str_includes (''data: '' @ ?t) (quoted ''usage'')")
    case True
    then have "parse_costing_chunk (''data: '' @ ?t) = from_frame (JObj kvs)"
      unfolding parse_costing_chunk_def Let_def start(2) trim_object using start(1) shape parse
      by (simp del: json_text.simps)
    then show ?thesis by (simp add: Frame frame_data_def frame_costing_def del: json_text.simps)
  next
    case False
    then have "\<not> str_includes ?t (quoted ''usage'')"
      unfolding str_includes_iff by (metis append_assoc)
    then have "fld ''usage'' (JObj kvs) = JUndef" using object_includes_usage by blast
    then show ?thesis using False by (simp add: Frame frame_data_def parse_costing_chunk_def del: json_text.simps fld.simps)
  qed
next
  case DoneMark
  then show ?thesis using done_costing by (simp add: frame_data_def frame_costing_def)
qed

lemma lines_of_frame: "lines_of (frame_text f @ rest) = (''data: '' @ frame_data f) # [] # lines_of rest"
proof -
  obtain c t where "CHR 0x0A \<notin> set (frame_data f)" by (rule frame_data_shape)
  then have "CHR 0x0A \<notin> set (''data: '' @ frame_data f)" by simp
  from split_char_append [OF this, of "CHR 0x0A # rest"] show ?thesis by (simp add: frame_text_def)
qed

text \<open>A frame without usage leaves the counts as they are.\<close>

definition same_counts :: "cost_result \<Rightarrow> cost_result \<Rightarrow> bool" where
  "same_counts r s \<longleftrightarrow>
     cr_input s = cr_input r \<and> cr_output s = cr_output r \<and> cr_read s = cr_read r \<and> cr_write s = cr_write r
     \<and> cr_reasoning s = cr_reasoning r \<and> cr_cost s = cr_cost r"

lemma glean_counts: "same_counts r (glean_line line r)"
  by (simp add: same_counts_def glean_line_def Let_def split: option.split)

lemma cost_plain_line: "parse_costing_chunk line = None \<Longrightarrow> \<exists>s. cost_line free line r = Inr s \<and> same_counts r s"
  using glean_counts by (auto simp: cost_line_def same_counts_def)

lemma empty_line: "cost_line free [] r = Inr r"
  by (simp add: cost_line_def trim_def)

lemma cost_plain_frames:
  assumes "\<forall>f \<in> set fs. frame_clean f \<and> frame_costing f = None"
  shows "\<exists>s. same_counts r s \<and> cost_lines free (lines_of (frames_text fs @ rest)) r = cost_lines free (lines_of rest) s"
  using assms
proof (induction fs arbitrary: r)
  case Nil
  then show ?case by (auto simp: frames_text_def same_counts_def)
next
  case (Cons f fs)
  have "parse_costing_chunk (''data: '' @ frame_data f) = None"
    using frame_parsed [of f] Cons.prems by auto
  then obtain s where s: "cost_line free (''data: '' @ frame_data f) r = Inr s" "same_counts r s"
    using cost_plain_line by blast
  obtain t where "same_counts s t" "cost_lines free (lines_of (frames_text fs @ rest)) s = cost_lines free (lines_of rest) t"
    using Cons.IH [of s] Cons.prems by auto
  then have "same_counts r t" "cost_lines free (lines_of (frames_text (f # fs) @ rest)) r = cost_lines free (lines_of rest) t"
    using s by (auto simp: frames_text_def lines_of_frame empty_line same_counts_def)
  then show ?case by blast
qed

lemma cost_usage_line:
  assumes "frame_clean (Frame kvs)" "from_frame (JObj kvs) = Some p" "fld ''usage'' (JObj kvs) \<noteq> JUndef" "is_str (co_id p)"
  shows "\<exists>s. cost_line free (''data: '' @ frame_data (Frame kvs)) r = Inr s
    \<and> cr_input s = (if truthy (JNum (co_input p)) then co_input p else cr_input r)
    \<and> cr_output s = (if truthy (JNum (co_output p)) then co_output p else cr_output r)
    \<and> cr_read s = or_else (co_read p) (cr_read r) \<and> cr_write s = or_else (co_write p) (cr_write r)"
proof -
  have parse: "parse_costing_chunk (''data: '' @ frame_data (Frame kvs)) = Some p"
    using frame_parsed [OF assms(1)] assms(2,3) by (auto simp: frame_costing_def)
  have "trim (''data: '' @ frame_data (Frame kvs)) \<noteq> []"
    by (simp add: trim_def is_space_def dropWhile_append)
  then show ?thesis
    using parse assms(4) by (cases "co_id p") (auto simp: cost_line_def apply_costing_def new_generation_def)
qed

text \<open>A stream of clean frames with one usage frame before its DONE mark: what the extractor reports.\<close>

lemma frames_costed:
  assumes "\<forall>f \<in> set fs. frame_clean f \<and> frame_costing f = None" "frame_clean (Frame kvs)"
    "from_frame (JObj kvs) = Some p" "fld ''usage'' (JObj kvs) \<noteq> JUndef" "is_str (co_id p)"
  shows "\<exists>r. cost_lines free (lines_of (frames_text (fs @ [Frame kvs, DoneMark]))) no_result = Inr r
    \<and> cr_input r = (if truthy (JNum (co_input p)) then co_input p else Fin 0)
    \<and> cr_output r = (if truthy (JNum (co_output p)) then co_output p else Fin 0)
    \<and> cr_read r = co_read p \<and> cr_write r = co_write p"
proof -
  have whole: "frames_text (fs @ [Frame kvs, DoneMark]) = frames_text fs @ frame_text (Frame kvs) @ frame_text DoneMark @ []"
    by (simp add: frames_text_def)
  obtain s where s: "same_counts no_result s"
      "cost_lines free (lines_of (frames_text (fs @ [Frame kvs, DoneMark]))) no_result =
        cost_lines free (lines_of (frame_text (Frame kvs) @ frame_text DoneMark @ [])) s"
    using cost_plain_frames [OF assms(1), of no_result free "frame_text (Frame kvs) @ frame_text DoneMark @ []"] whole by auto
  obtain t where t: "cost_line free (''data: '' @ frame_data (Frame kvs)) s = Inr t"
      "cr_input t = (if truthy (JNum (co_input p)) then co_input p else cr_input s)"
      "cr_output t = (if truthy (JNum (co_output p)) then co_output p else cr_output s)"
      "cr_read t = or_else (co_read p) (cr_read s)" "cr_write t = or_else (co_write p) (cr_write s)"
    using cost_usage_line [OF assms(2-5)] by metis
  obtain w where w: "cost_line free (''data: '' @ frame_data DoneMark) t = Inr w" "same_counts t w"
    using cost_plain_line [of "''data: '' @ frame_data DoneMark"] done_costing by (auto simp: frame_data_def)
  have "cost_lines free (lines_of (frames_text (fs @ [Frame kvs, DoneMark]))) no_result = Inr w"
    unfolding s(2) lines_of_frame using t(1) w(1) by (simp add: empty_line)
  then show ?thesis
    using s(1) t w(2) by (auto simp: same_counts_def no_result_def or_else_def split: option.split)
qed

subsection \<open>The frames of an Anthropic answer are clean\<close>

text \<open>What the frames take from the answer as it is: the creation time of the request and the names of the tools. The
  tool calls are numbered; the largest number JSON text keeps exactly bounds how many there may be.\<close>

definition max_clean :: nat where "max_clean = 10 ^ 21"

definition head_clean :: "chat_head \<Rightarrow> bool" where
  "head_clean h \<longleftrightarrow> json_clean (JNum (Fin (ch_created h)))"

definition tool_name_clean :: "string \<Rightarrow> bool" where
  "tool_name_clean d =
     (case json_parse d of
        None \<Rightarrow> True
      | Some event \<Rightarrow> json_clean (nullish (fld ''name'' (fld ''content_block'' event)) (JStr [])))"

definition tools_below :: "messages_state \<Rightarrow> bool" where
  "tools_below m \<longleftrightarrow> (\<forall>v \<in> snd ` set (mt_tools m). v < mt_tool_count m)"

lemma jnat_clean: "n < max_clean \<Longrightarrow> json_clean (jnat n)"
proof -
  assume "n < max_clean"
  then have "(of_nat n :: rat) < of_nat (10 ^ 21)" unfolding max_clean_def of_nat_less_iff .
  then show ?thesis by simp
qed

lemma plain_keys [simp]:
  "\<not> is_index ''id''" "\<not> is_index ''object''" "\<not> is_index ''created''" "\<not> is_index ''model''" "\<not> is_index ''choices''"
  "\<not> is_index ''index''" "\<not> is_index ''delta''" "\<not> is_index ''finish_reason''" "\<not> is_index ''role''"
  "\<not> is_index ''content''" "\<not> is_index ''tool_calls''" "\<not> is_index ''type''" "\<not> is_index ''function''"
  "\<not> is_index ''name''" "\<not> is_index ''arguments''" "\<not> is_index ''usage''"
  by code_simp+

lemma chunk_costing [simp]: "frame_costing (chunk_frame h delta fin) = None"
  by (simp add: frame_costing_def chunk_frame_def from_frame_def)

lemma chunk_clean:
  "head_clean h \<Longrightarrow> json_clean (JObj delta) \<Longrightarrow> json_clean fin \<Longrightarrow> frame_clean (chunk_frame h delta fin)"
  by (simp add: frame_clean_def chunk_frame_def head_clean_def)

lemma tools_below_write:
  "\<forall>v \<in> snd ` set t. v < n \<Longrightarrow> \<forall>v \<in> snd ` set (map_write k n t). v < Suc n"
  unfolding map_write_def by (induction t) auto

lemma map_read_mem: "map_read t k = Some v \<Longrightarrow> v \<in> snd ` set t"
  unfolding map_read_def by (auto split: if_splits dest!: map_of_SomeD) force

lemma block_delta_shape:
  "on_block_delta m event = [] \<or> (\<exists>t. on_block_delta m event = [messages_chunk m [(''content'', JStr t)] JNull])
    \<or> (\<exists>v t. map_read (mt_tools m) (fld ''index'' event) = Some v \<and> on_block_delta m event =
        [messages_chunk m [(''tool_calls'', JArr [JObj [(''index'', jnat v), (''function'', JObj [(''arguments'', JStr t)])]])] JNull])"
proof (cases "fld ''type'' (fld ''delta'' event) = JStr ''text_delta''")
  case True
  show ?thesis
    by (cases "fld ''text'' (fld ''delta'' event)") (simp_all only: on_block_delta_def Let_def True jsv.case simp_thms if_True if_False, auto)
next
  case False
  show ?thesis
  proof (cases "fld ''partial_json'' (fld ''delta'' event)")
    case (JStr t)
    then show ?thesis
      by (cases "map_read (mt_tools m) (fld ''index'' event)") (simp_all add: on_block_delta_def Let_def False, blast)
  qed (cases "map_read (mt_tools m) (fld ''index'' event)"; simp add: on_block_delta_def Let_def False)+
qed

lemma messages_event_clean:
  assumes run: "messages_event m event = Inr (fs, m')" and d: "json_parse d = Some event" and stage: "messages_stage d = Continues"
    and name: "tool_name_clean d" and head: "head_clean (mt_head m)" and below: "tools_below m" "mt_tool_count m < max_clean"
  shows "mt_head m' = mt_head m \<and> mt_tool_count m' \<le> Suc (mt_tool_count m) \<and> tools_below m'
    \<and> (\<forall>f \<in> set fs. frame_clean f \<and> frame_costing f = None)"
  using run
proof (cases rule: messages_event_cases)
  case start
  have "frame_clean (messages_chunk m [(''role'', JStr ''assistant''), (''content'', JStr [])] JNull)"
    unfolding messages_chunk_def using head by (intro chunk_clean) simp_all
  with start show ?thesis
    using below(1) by (auto simp: on_message_start_def Let_def bind_js_Inr_iff tools_below_def messages_chunk_def) force
next
  case block
  show ?thesis
  proof (cases "fld ''type'' (fld ''content_block'' event) = JStr ''tool_use''")
    case True
    let ?name = "nullish (fld ''name'' (fld ''content_block'' event)) (JStr [])"
    let ?f = "\<lambda>i. messages_chunk m [(''tool_calls'', JArr [JObj
      [(''index'', jnat (mt_tool_count m)), (''id'', JStr i), (''type'', JStr ''function''),
       (''function'', JObj [(''name'', ?name), (''arguments'', JStr [])])]])] JNull"
    have clean: "frame_clean (?f i)" for i
      unfolding messages_chunk_def using head name d jnat_clean [OF below(2)]
      by (intro chunk_clean) (simp_all add: tool_name_clean_def)
    obtain i where "fs = [?f i]"
        "m' = m\<lparr>mt_tool_count := Suc (mt_tool_count m), mt_tools := map_write (fld ''index'' event) (mt_tool_count m) (mt_tools m)\<rparr>"
      using block(2) True by (auto simp: on_block_start_def Let_def bind_js_Inr_iff)
    then show ?thesis
      using clean [of i] tools_below_write [OF below(1) [unfolded tools_below_def]]
      by (simp add: tools_below_def) (simp add: messages_chunk_def)
  next
    case False
    then show ?thesis using block(2) below(1) by (simp add: on_block_start_def Let_def)
  qed
next
  case delta
  have said: "frame_clean (messages_chunk m [(''content'', JStr t)] JNull)" for t
    unfolding messages_chunk_def using head by (intro chunk_clean) simp_all
  have part: "frame_clean (messages_chunk m
      [(''tool_calls'', JArr [JObj [(''index'', jnat v), (''function'', JObj [(''arguments'', JStr t)])]])] JNull)"
    if "map_read (mt_tools m) (fld ''index'' event) = Some v" for v t
  proof -
    have "v < max_clean" using map_read_mem [OF that] below by (force simp: tools_below_def)
    then show ?thesis unfolding messages_chunk_def using head jnat_clean [of v] by (intro chunk_clean) simp_all
  qed
  have costing: "frame_costing (messages_chunk m x y) = None" for x y by (simp add: messages_chunk_def)
  have "\<forall>f \<in> set (on_block_delta m event). frame_clean f \<and> frame_costing f = None"
    using block_delta_shape [of m event]
  proof (elim disjE exE conjE)
    fix t assume t: "on_block_delta m event = [messages_chunk m [(''content'', JStr t)] JNull]"
    show ?thesis unfolding t using said costing by (simp only: list.set ball_simps simp_thms)
  next
    fix v t assume v: "map_read (mt_tools m) (fld ''index'' event) = Some v"
      and t: "on_block_delta m event =
        [messages_chunk m [(''tool_calls'', JArr [JObj [(''index'', jnat v), (''function'', JObj [(''arguments'', JStr t)])]])] JNull]"
    show ?thesis unfolding t using part [OF v] costing by (simp only: list.set ball_simps simp_thms)
  qed simp
  then show ?thesis using delta below(1) by simp
next
  case update
  have "mt_head m' = mt_head m \<and> mt_tool_count m' = mt_tool_count m \<and> mt_tools m' = mt_tools m"
    by (cases "fld ''stop_reason'' (fld ''delta'' event)"; cases "fld ''output_tokens'' (fld ''usage'' event)")
      (simp_all add: update on_message_delta_def)
  then show ?thesis using update(2) below(1) by (simp add: tools_below_def)
next
  case other
  then show ?thesis using below(1) by simp
qed (use stage d in \<open>auto simp: messages_stage_def\<close>)

lemma messages_run_clean:
  assumes "run_events messages_dispatch messages_quiet m es = Inr (fs, m')" "\<not> messages_quiet m"
    "list_all (\<lambda>d. messages_stage d = Continues \<and> tool_name_clean d) es"
    "head_clean (mt_head m)" "tools_below m" "mt_tool_count m + length es \<le> max_clean"
  shows "mt_head m' = mt_head m \<and> (\<forall>f \<in> set fs. frame_clean f \<and> frame_costing f = None)"
  using assms
proof (induction es arbitrary: m fs)
  case (Cons d es)
  obtain gs m1 where react: "messages_dispatch m d = Inr (gs, m1)"
    using Cons.prems(1,2) by (auto simp: bind_js_Inr_iff)
  have live: "\<not> messages_quiet m1"
    using messages_dispatch_step [OF Cons.prems(2) react] Cons.prems(3) by simp
  obtain hs where rest: "run_events messages_dispatch messages_quiet m1 es = Inr (hs, m')" "fs = gs @ hs"
    using Cons.prems(1,2) react live by (auto simp: bind_js_Inr_iff)
  obtain event where d: "json_parse d = Some event" "messages_event m event = Inr (gs, m1)"
    using react Cons.prems(3) by (auto simp: messages_dispatch_def messages_stage_def split: option.splits)
  have "mt_head m1 = mt_head m \<and> mt_tool_count m1 \<le> Suc (mt_tool_count m) \<and> tools_below m1
      \<and> (\<forall>f \<in> set gs. frame_clean f \<and> frame_costing f = None)"
    using Cons.prems by (intro messages_event_clean [OF d(2,1)]) simp_all
  then show ?case
    using Cons.IH [OF rest(1) live] Cons.prems(3-6) rest(2) by auto
qed simp

subsection \<open>From an Anthropic answer to the bill\<close>

text \<open>The usage an answer ends with, and what the extractor reads from it.\<close>

definition usage_fields :: "jsnum \<Rightarrow> jsnum \<Rightarrow> jsnum option \<Rightarrow> jsnum option \<Rightarrow> js_fields" where
  "usage_fields i n r w =
     [(''input_tokens'', JNum i), (''output_tokens'', JNum n)]
     @ (case r of Some x \<Rightarrow> [(''cache_read_input_tokens'', JNum x)] | None \<Rightarrow> [])
     @ (case w of Some x \<Rightarrow> [(''cache_creation_input_tokens'', JNum x)] | None \<Rightarrow> [])"

lemma cache_bucket_shape:
  "cache_bucket k usage = Inr x \<Longrightarrow> \<exists>r. x = (case r of Some n \<Rightarrow> [(k, JNum n)] | None \<Rightarrow> [])"
  unfolding cache_bucket_def
  by (cases "fld k usage = JUndef", simp, rule exI [of _ None], simp)
    (force simp: bind_js_Inr_iff intro: exI [of _ "Some n" for n])

lemma opening_usage_shape: "opening_usage usage = Inr u \<Longrightarrow> \<exists>i n r w. u = usage_fields i n r w"
  unfolding opening_usage_def token_count_def bind_js_Inr_iff usage_fields_def
  by (auto dest!: cache_bucket_shape)

lemma last_count_shape: "\<exists>m. last_count es (usage_fields i n r w) = usage_fields i m r w"
  by (auto simp: last_count_def usage_fields_def split: list.split)

lemma usage_fields_fld:
  "fld ''input_tokens'' (JObj (usage_fields i n r w)) = JNum i"
  "fld ''output_tokens'' (JObj (usage_fields i n r w)) = JNum n"
  "num_of (fld ''cache_read_input_tokens'' (JObj (usage_fields i n r w))) = r"
  "num_of (fld ''cache_creation_input_tokens'' (JObj (usage_fields i n r w))) = w"
  "fld ''prompt_tokens'' (JObj (usage_fields i n r w)) = JUndef"
  "fld ''completion_tokens'' (JObj (usage_fields i n r w)) = JUndef"
  "fld ''cost'' (JObj (usage_fields i n r w)) = JUndef"
  "fld ''total_cost'' (JObj (usage_fields i n r w)) = JUndef"
  "fld ''is_byok'' (JObj (usage_fields i n r w)) = JUndef"
  "fld ''cost_details'' (JObj (usage_fields i n r w)) = JUndef"
  "fld ''prompt_tokens_details'' (JObj (usage_fields i n r w)) = JUndef"
  "fld ''input_tokens_details'' (JObj (usage_fields i n r w)) = JUndef"
  "fld ''completion_tokens_details'' (JObj (usage_fields i n r w)) = JUndef"
  "fld ''output_tokens_details'' (JObj (usage_fields i n r w)) = JUndef"
  by (auto simp: usage_fields_def num_of_def split: option.split)

lemma count_number: "number_of [JUndef, JNum (Fin a), JNum (Fin 0)] = Some (Fin a)"
  by (simp add: number_of_def first_truthy_def)

lemma no_number: "number_of [JUndef, JUndef, JNum (Fin 0)] = Some (Fin 0)"
  by (simp add: number_of_def first_truthy_def)

lemma usage_fields_costed:
  assumes "json_clean (JObj (usage_fields i n r w))"
  shows "\<exists>p. from_usage (JObj (usage_fields i n r w)) (JStr m) (JStr d) JUndef = Some p \<and> co_id p = JStr d
    \<and> (if truthy (JNum (co_input p)) then co_input p else Fin 0) = i
    \<and> (if truthy (JNum (co_output p)) then co_output p else Fin 0) = n \<and> co_read p = r \<and> co_write p = w"
proof -
  let ?u = "JObj (usage_fields i n r w)"
  obtain a b where ab: "i = Fin a" "n = Fin b"
    using assms by (cases i; cases n) (simp_all add: usage_fields_def)
  have counts: "number_of [fld ''prompt_tokens'' ?u, fld ''input_tokens'' ?u, jint 0] = Some i"
      "number_of [fld ''completion_tokens'' ?u, fld ''output_tokens'' ?u, jint 0] = Some n"
    by (simp_all add: ab count_number usage_fields_fld del: fld.simps)
  have "\<exists>c. total_cost ?u (ends_with m '':free'') i n = Some c"
    using no_number by (simp add: total_cost_def byok_cost_def usage_fields_fld del: fld.simps)
  then obtain c where c: "total_cost ?u (ends_with m '':free'') i n = Some c" by blast
  have absent: "nullish (fld k JUndef) v = v" "num_of (fld k JUndef) = None" for k v by (simp_all add: num_of_def)
  have "from_usage ?u (JStr m) (JStr d) JUndef = Some \<lparr>co_model = JStr m, co_cost = c, co_input = i, co_output = n,
      co_byok = Some (byok_cost ?u), co_id = JStr d, co_read = r, co_write = w, co_reasoning = None, co_provider = None\<rparr>"
    unfolding from_usage_def counts names_free_def option.case jsv.case c
    by (simp add: usage_fields_fld absent provider_name_def del: fld.simps)
  then show ?thesis by (simp add: ab)
qed



end
