(* ===== verification/OutputCount.thy ===== *)
theory OutputCount
  imports TextLines Json
begin

text \<open>
  \<open>enclave/src/outputCount.mjs\<close>: the count of the output a chat stream delivered, which an answer without a usage
  frame is billed by. Text is kept up to a cap and counted beyond it; a line past the limit is dropped. The
  tokenizer is a parameter: it may be absent, and may reject a slice. A chunk is its decoded text.
\<close>

subsection \<open>The text of a line\<close>

definition max_counted_chars :: nat where "max_counted_chars = 2000000"
definition overflow_chars_per_token :: nat where "overflow_chars_per_token = 4"
definition max_counted_line :: nat where "max_counted_line = 1000000"
definition tokenize_slice_chars :: nat where "tokenize_slice_chars = 2000"

definition delta_text :: "jsv \<Rightarrow> string" where
  "delta_text delta =
     str_of (fld ''content'' delta)
     @ (if is_str (fld ''reasoning_content'' delta) then str_of (fld ''reasoning_content'' delta) else str_of (fld ''reasoning'' delta))
     @ concat (map (\<lambda>tc. str_of (fld ''arguments'' (fld ''function'' tc))) (elems (fld ''tool_calls'' delta)))"

definition line_deltas :: "string \<Rightarrow> string list" where
  "line_deltas line =
     (if length line > max_counted_line \<or> \<not> starts_with line ''data:'' then []
      else
        let json = trim (drop 5 line)
        in if json = [] \<or> json = ''[DONE]'' then []
           else (case json_parse json of
                   None \<Rightarrow> []
                 | Some c \<Rightarrow> map (\<lambda>ch. delta_text (fld ''delta'' ch)) (elems (fld ''choices'' c))))"

subsection \<open>The counter\<close>

record output_counter =
  oc_buffer :: string
  oc_skipping :: bool
  oc_dropped :: nat
  oc_text :: string
  oc_chars :: nat
  oc_overflow :: nat

definition new_counter :: output_counter where
  "new_counter = \<lparr>oc_buffer = [], oc_skipping = False, oc_dropped = 0, oc_text = [], oc_chars = 0, oc_overflow = 0\<rparr>"

definition count_delta :: "string \<Rightarrow> output_counter \<Rightarrow> output_counter" where
  "count_delta s c =
     (if s = [] then c
      else
        let room = max_counted_chars - length (oc_text c); c1 = c\<lparr>oc_chars := oc_chars c + length s\<rparr>
        in if room \<ge> length s then c1\<lparr>oc_text := oc_text c @ s\<rparr>
           else c1\<lparr>oc_text := oc_text c @ take room s, oc_overflow := oc_overflow c + (length s - room)\<rparr>)"

definition count_line :: "string \<Rightarrow> output_counter \<Rightarrow> output_counter" where
  "count_line line c =
     fold count_delta (line_deltas line)
       (if length line > max_counted_line then c\<lparr>oc_dropped := Suc (oc_dropped c)\<rparr> else c)"

definition count_lines :: "string \<Rightarrow> output_counter \<Rightarrow> output_counter" where
  "count_lines s c =
     (let lines = lines_of (oc_buffer c @ s); buffer = last lines;
          c1 = fold count_line (butlast lines) (c\<lparr>oc_buffer := buffer\<rparr>)
      in if length buffer > max_counted_line
         then c1\<lparr>oc_buffer := [], oc_skipping := True, oc_dropped := Suc (oc_dropped c1)\<rparr> else c1)"

definition counter_feed :: "string \<Rightarrow> output_counter \<Rightarrow> output_counter" where
  "counter_feed s c =
     (if oc_skipping c then
        (case index_of s (CHR 0x0A) of
           None \<Rightarrow> c
         | Some i \<Rightarrow> count_lines (drop (Suc i) s) (c\<lparr>oc_skipping := False\<rparr>))
      else count_lines s c)"

definition counter_end :: "output_counter \<Rightarrow> output_counter" where
  "counter_end c = (if trim (oc_buffer c) \<noteq> [] then count_line (oc_buffer c) c else c)\<lparr>oc_buffer := []\<rparr>"

definition per_token :: "nat \<Rightarrow> nat" where
  "per_token n = (n + overflow_chars_per_token - 1) div overflow_chars_per_token"

text \<open>The slices of the kept text, and their tokens; a slice the tokenizer rejects is estimated.\<close>

fun slice_tokens :: "(string \<Rightarrow> nat option) \<Rightarrow> nat \<Rightarrow> string \<Rightarrow> nat" where
  "slice_tokens count 0 s = 0"
| "slice_tokens count (Suc k) s =
     (if s = [] then 0
      else
        let slice = take tokenize_slice_chars s
        in (case count slice of Some n \<Rightarrow> n | None \<Rightarrow> per_token (length slice))
           + slice_tokens count k (drop tokenize_slice_chars s))"

definition counter_finish :: "(string \<Rightarrow> nat option) option \<Rightarrow> output_counter \<Rightarrow> nat \<times> nat" where
  "counter_finish tokenizer c =
     (let e = counter_end c; s = oc_text e
      in (oc_chars e,
          (case tokenizer of Some count \<Rightarrow> slice_tokens count (length s) s | None \<Rightarrow> per_token (length s))
            + per_token (oc_overflow e)))"

subsection \<open>What is counted\<close>

text \<open>The whole text delivered by some lines, and a counter that has counted it.\<close>

definition delivered :: "string list \<Rightarrow> string" where
  "delivered ls = concat (map (\<lambda>l. concat (line_deltas l)) ls)"

definition tally :: "string \<Rightarrow> output_counter \<Rightarrow> bool" where
  "tally t c \<longleftrightarrow> oc_chars c = length t \<and> oc_text c = take max_counted_chars t \<and> oc_overflow c = length t - max_counted_chars"

lemma tally_delta: "tally t c \<Longrightarrow> tally (t @ s) (count_delta s c)"
  by (auto simp: tally_def count_delta_def Let_def min_def)

lemma tally_deltas: "tally t c \<Longrightarrow> tally (t @ concat ss) (fold count_delta ss c)"
proof (induction ss arbitrary: t c)
  case (Cons s ss)
  from Cons.IH [OF tally_delta [OF Cons.prems, of s]] show ?case by simp
qed simp

lemma delta_frame: "oc_buffer (count_delta s c) = oc_buffer c" "oc_skipping (count_delta s c) = oc_skipping c"
  by (simp_all add: count_delta_def Let_def)

lemma deltas_frame: "oc_buffer (fold count_delta ss c) = oc_buffer c" "oc_skipping (fold count_delta ss c) = oc_skipping c"
  by (induction ss arbitrary: c) (simp_all add: delta_frame)

lemma tally_line: "tally t c \<Longrightarrow> tally (t @ concat (line_deltas l)) (count_line l c)"
  unfolding count_line_def by (rule tally_deltas) (simp add: tally_def)

lemma line_frame: "oc_buffer (count_line l c) = oc_buffer c" "oc_skipping (count_line l c) = oc_skipping c"
  by (simp_all add: count_line_def deltas_frame)

lemma tally_lines: "tally t c \<Longrightarrow> tally (t @ delivered ls) (fold count_line ls c)"
proof (induction ls arbitrary: t c)
  case (Cons l ls)
  from Cons.IH [OF tally_line [OF Cons.prems, of l]] show ?case by (simp add: delivered_def)
qed (simp add: delivered_def)

lemma lines_frame: "oc_buffer (fold count_line ls c) = oc_buffer c" "oc_skipping (fold count_line ls c) = oc_skipping c"
  by (induction ls arbitrary: c) (simp_all add: line_frame)

lemma delivered_append: "delivered (ls @ ms) = delivered ls @ delivered ms"
  by (simp add: delivered_def)

lemma delivered_long: "length l > max_counted_line \<Longrightarrow> delivered [l] = []"
  by (simp add: delivered_def line_deltas_def)

subsection \<open>Chunks do not matter\<close>

text \<open>The counter after the text \<open>x\<close>: its complete lines are counted, and the last one is held or, past the limit,
  being skipped.\<close>

definition counter_at :: "string \<Rightarrow> output_counter \<Rightarrow> bool" where
  "counter_at x c \<longleftrightarrow> tally (delivered (butlast (lines_of x))) c
     \<and> (if oc_skipping c then oc_buffer c = [] \<and> length (last (lines_of x)) > max_counted_line
        else oc_buffer c = last (lines_of x))"

lemma lines_counted:
  assumes "tally (delivered (butlast (lines_of x))) c" "\<not> oc_skipping c" "oc_buffer c = last (lines_of x)"
  shows "counter_at (x @ s) (count_lines s c)"
proof -
  let ?l = "lines_of (last (lines_of x) @ s)"
  have cut: "lines_of (x @ s) = butlast (lines_of x) @ ?l" by (rule split_char_cut)
  have lines: "butlast (lines_of (x @ s)) = butlast (lines_of x) @ butlast ?l" "last (lines_of (x @ s)) = last ?l"
    unfolding cut by (simp_all add: butlast_append)
  have "tally (delivered (butlast (lines_of (x @ s)))) (fold count_line (butlast ?l) (c\<lparr>oc_buffer := last ?l\<rparr>))"
    unfolding lines delivered_append by (rule tally_lines) (use assms(1) in \<open>simp add: tally_def\<close>)
  then show ?thesis
    using assms(2,3) by (auto simp: counter_at_def count_lines_def Let_def lines lines_frame tally_def)
qed

lemma lines_after_newline:
  assumes "index_of s (CHR 0x0A) = Some i"
  shows "lines_of (x @ s) = butlast (lines_of x) @ (last (lines_of x) @ take i s) # lines_of (drop (Suc i) s)"
proof -
  have "s = take i s @ CHR 0x0A # drop (Suc i) s" "CHR 0x0A \<notin> set (take i s)"
    using assms by (induction s arbitrary: i) (auto split: if_splits)
  then have "lines_of (last (lines_of x) @ s) = (last (lines_of x) @ take i s) # lines_of (drop (Suc i) s)"
    using split_char_append [of "CHR 0x0A" "last (lines_of x) @ take i s" "drop (Suc i) s"] last_line [of "CHR 0x0A" x] by simp
  then show ?thesis by (simp only: split_char_cut [of _ x s])
qed

lemma counter_fed:
  assumes "counter_at x c"
  shows "counter_at (x @ s) (counter_feed s c)"
proof (cases "oc_skipping c")
  case False
  then show ?thesis using assms lines_counted [of x c s] by (simp add: counter_at_def counter_feed_def)
next
  case True
  show ?thesis
  proof (cases "index_of s (CHR 0x0A)")
    case None
    then have "lines_of (x @ s) = butlast (lines_of x) @ [last (lines_of x) @ s]"
      using last_line [of "CHR 0x0A" x] by (simp add: split_char_cut [of _ x s] split_char_none index_of_None_iff)
    then show ?thesis using assms True None by (simp add: counter_at_def counter_feed_def)
  next
    case (Some i)
    let ?y = "x @ take i s @ [CHR 0x0A]" and ?c = "c\<lparr>oc_skipping := False\<rparr>"
    have all: "lines_of (x @ s) = butlast (lines_of x) @ (last (lines_of x) @ take i s) # lines_of (drop (Suc i) s)"
      using Some by (rule lines_after_newline)
    have y: "lines_of ?y = butlast (lines_of x) @ [last (lines_of x) @ take i s, []]"
    proof -
      have "CHR 0x0A \<notin> set (take i s)" "i < length s" using Some by (induction s arbitrary: i) (auto split: if_splits)
      then have "CHR 0x0A \<notin> set (last (lines_of x) @ take i s)" using last_line [of "CHR 0x0A" x] by simp
      from split_char_append [OF this, of "[]"] show ?thesis by (simp add: split_char_cut [of _ x "take i s @ [CHR 0x0A]"])
    qed
    have "length (last (lines_of x) @ take i s) > max_counted_line" using assms True by (simp add: counter_at_def)
    then have "delivered (butlast (lines_of ?y)) = delivered (butlast (lines_of x))"
      by (simp add: y butlast_append delivered_append delivered_long)
    then have "counter_at (?y @ drop (Suc i) s) (count_lines (drop (Suc i) s) ?c)"
      using assms True by (intro lines_counted) (auto simp: y counter_at_def tally_def)
    moreover have "?y @ drop (Suc i) s = x @ s"
      using Some by (induction s arbitrary: i) (auto split: if_splits)
    ultimately show ?thesis using True Some by (simp add: counter_feed_def)
  qed
qed

lemma counter_fed_all: "counter_at x c \<Longrightarrow> counter_at (x @ concat cs) (fold counter_feed cs c)"
proof (induction cs arbitrary: x c)
  case (Cons s cs)
  from Cons.IH [OF counter_fed [OF Cons.prems, of s]] show ?case by simp
qed simp

lemma counter_ended:
  assumes "counter_at x c"
  shows "tally (delivered (lines_of x)) (counter_end c)"
proof -
  have lines: "delivered (lines_of x) = delivered (butlast (lines_of x)) @ delivered [last (lines_of x)]"
    by (simp add: delivered_append [symmetric])
  have blank: "delivered [l] = []" if "trim l = []" for l
  proof -
    have inner: "\<forall>c \<in> set (dropWhile is_space l). is_space c"
      using that by (simp add: trim_def dropWhile_eq_Nil_conv)
    have "dropWhile is_space l = []"
      using inner hd_dropWhile [of is_space l] hd_in_set [of "dropWhile is_space l"] by blast
    then have "\<forall>c \<in> set l. is_space c" by (simp add: dropWhile_eq_Nil_conv)
    then have "\<not> starts_with l ''data:''" by (cases l) (auto simp: starts_with_def is_space_def)
    then show ?thesis by (simp add: delivered_def line_deltas_def)
  qed
  show ?thesis
  proof (cases "oc_skipping c")
    case True
    then show ?thesis using assms unfolding lines
      by (simp add: counter_at_def counter_end_def delivered_long trim_def tally_def)
  next
    case False
    then have b: "oc_buffer c = last (lines_of x)" "tally (delivered (butlast (lines_of x))) c"
      using assms by (simp_all add: counter_at_def)
    show ?thesis
    proof (cases "trim (oc_buffer c) = []")
      case True
      then show ?thesis using b blank [OF True] unfolding lines by (simp add: counter_end_def tally_def)
    next
      case False
      then show ?thesis
        using tally_line [OF b(2), of "oc_buffer c"] b(1) unfolding lines
        by (simp add: counter_end_def tally_def delivered_def)
    qed
  qed
qed

text \<open>However the delivered stream is cut into chunks, the count is that of the text its lines deliver, a line past the
  limit apart: all its characters, the tokens of at most its first two million, and a fixed ratio for the rest.\<close>

theorem output_count_any_chunking:
  "let t = delivered (lines_of (concat cs)); kept = take max_counted_chars t
   in counter_finish tokenizer (fold counter_feed cs new_counter) =
        (length t,
         (case tokenizer of Some count \<Rightarrow> slice_tokens count (length kept) kept | None \<Rightarrow> per_token (length kept))
           + per_token (length t - max_counted_chars))"
proof -
  have "counter_at [] new_counter" by (simp add: counter_at_def new_counter_def tally_def delivered_def)
  from counter_ended [OF counter_fed_all [OF this, of cs]] show ?thesis
    by (simp only: counter_finish_def tally_def Let_def append_Nil)
qed

end
