(* ===== verification/FirstToken.thy ===== *)
theory FirstToken
  imports TextLines Json
begin

text \<open>
  \<open>enclave/src/firstToken.mjs\<close>: which line of an answer carries its first generated output, in the three dialects,
  and the detector that finds it in a stream of chunks and then does no more work. A chunk is its decoded text.
\<close>

subsection \<open>Kinds\<close>

datatype token_kind = Content | Reasoning | ToolCall

definition non_empty_string :: "jsv \<Rightarrow> bool" where
  "non_empty_string v \<longleftrightarrow> is_str v \<and> v \<noteq> JStr []"

definition announces_tool_call :: "jsv \<Rightarrow> bool" where
  "announces_tool_call delta \<longleftrightarrow>
     list_ex (\<lambda>call. let fn = fld ''function'' call
        in non_empty_string (fld ''name'' fn) \<or> non_empty_string (fld ''arguments'' fn)) (elems (fld ''tool_calls'' delta))"

fun chat_kind :: "bool \<Rightarrow> jsv list \<Rightarrow> token_kind option" where
  "chat_kind tool_call [] = (if tool_call then Some ToolCall else None)"
| "chat_kind tool_call (choice # choices) =
     (let delta = fld ''delta'' choice
      in if non_empty_string (fld ''content'' delta) then Some Content
         else if non_empty_string (fld ''reasoning'' delta) \<or> non_empty_string (fld ''reasoning_content'' delta) then Some Reasoning
         else chat_kind (tool_call \<or> announces_tool_call delta) choices)"

definition anthropic_kind :: "jsv \<Rightarrow> token_kind option" where
  "anthropic_kind frame =
     (let d = fld ''delta'' frame
      in if fld ''type'' d = JStr ''text_delta'' \<and> non_empty_string (fld ''text'' d) then Some Content
         else if fld ''type'' d = JStr ''thinking_delta'' \<and> non_empty_string (fld ''thinking'' d) then Some Reasoning
         else None)"

definition kind_if :: "bool \<Rightarrow> token_kind \<Rightarrow> token_kind option" where
  "kind_if b k = (if b then Some k else None)"

definition frame_kind :: "jsv \<Rightarrow> token_kind option" where
  "frame_kind frame =
     (let type = fld ''type'' frame; delta = fld ''delta'' frame
      in if elems (fld ''choices'' frame) \<noteq> [] then chat_kind False (elems (fld ''choices'' frame))
         else if type = JStr ''content_block_start'' then kind_if (fld ''type'' (fld ''content_block'' frame) = JStr ''tool_use'') ToolCall
         else if type = JStr ''content_block_delta'' then anthropic_kind frame
         else if type = JStr ''response.output_text.delta'' then kind_if (non_empty_string delta) Content
         else if type = JStr ''response.reasoning_summary_text.delta'' then kind_if (non_empty_string delta) Reasoning
         else if type = JStr ''response.output_item.added'' then kind_if (fld ''type'' (fld ''item'' frame) = JStr ''function_call'') ToolCall
         else if type = JStr ''response.function_call_arguments.delta'' then kind_if (non_empty_string delta) ToolCall
         else None)"

definition detect_first_token_kind :: "string \<Rightarrow> token_kind option" where
  "detect_first_token_kind line =
     (if \<not> starts_with line ''data:'' then None
      else
        let payload = trim (drop 5 line)
        in if payload = [] \<or> payload = ''[DONE]'' \<or> hd payload \<noteq> CHR ''{'' then None
           else (case json_parse payload of None \<Rightarrow> None | Some frame \<Rightarrow> frame_kind frame))"

subsection \<open>The detector\<close>

definition max_pending_chars :: nat where "max_pending_chars = 1024 * 1024"

record detector =
  dt_done :: bool
  dt_pending :: string

definition new_detector :: detector where
  "new_detector = \<lparr>dt_done = False, dt_pending = []\<rparr>"

definition stopped :: detector where
  "stopped = \<lparr>dt_done = True, dt_pending = []\<rparr>"

definition chop_cr :: "string \<Rightarrow> string" where
  "chop_cr l = (if l \<noteq> [] \<and> last l = CHR 0x0D then butlast l else l)"

text \<open>The loop over the complete lines of a chunk, the carry already before the first.\<close>

fun first_kind :: "string list \<Rightarrow> token_kind option" where
  "first_kind [] = None"
| "first_kind (l # ls) =
     (case detect_first_token_kind (chop_cr l) of Some k \<Rightarrow> Some k | None \<Rightarrow> first_kind ls)"

definition detector_feed :: "string \<Rightarrow> detector \<Rightarrow> token_kind option \<times> detector" where
  "detector_feed s d =
     (if dt_done d then (None, d)
      else
        let lines = lines_of (dt_pending d @ s); pending = last lines
        in case first_kind (butlast lines) of
             Some k \<Rightarrow> (Some k, stopped)
           | None \<Rightarrow> (None, if length pending > max_pending_chars then stopped else d\<lparr>dt_pending := pending\<rparr>))"

fun detector_run :: "detector \<Rightarrow> string list \<Rightarrow> token_kind option list" where
  "detector_run d [] = []"
| "detector_run d (c # cs) = (case detector_feed c d of (k, d1) \<Rightarrow> k # detector_run d1 cs)"

subsection \<open>Found once, on the chunk that completes its line\<close>

text \<open>The first kind among the complete lines of a text.\<close>

definition seen :: "string \<Rightarrow> token_kind option" where
  "seen x = first_kind (butlast (lines_of x))"

lemma first_kind_append: "first_kind (xs @ ys) = (case first_kind xs of Some k \<Rightarrow> Some k | None \<Rightarrow> first_kind ys)"
  by (induction xs) (auto split: option.split)

lemma seen_append:
  "seen (x @ s) = (case seen x of Some k \<Rightarrow> Some k | None \<Rightarrow> first_kind (butlast (lines_of (last (lines_of x) @ s))))"
  unfolding seen_def split_char_cut [of _ x s] by (simp add: butlast_append first_kind_append)

lemma detector_stopped: "dt_done d \<Longrightarrow> detector_run d cs = map (\<lambda>_. None) cs"
  by (induction cs) (simp_all add: detector_feed_def)

lemma detector_run_from:
  assumes "\<not> dt_done d" "dt_pending d = last (lines_of x)" "seen x = None" "short_lines max_pending_chars (x @ concat cs)"
  shows "detector_run d cs = map (\<lambda>i. if seen (x @ concat (take i cs)) = None then seen (x @ concat (take (Suc i) cs)) else None) [0..<length cs]"
  using assms
proof (induction cs arbitrary: d x)
  case (Cons c cs)
  have short: "short_lines max_pending_chars ((x @ c) @ concat cs)" using Cons.prems(4) by simp
  have pending: "last (lines_of (x @ c)) = last (lines_of (last (lines_of x) @ c))"
    by (simp add: split_char_cut [of _ x c])
  have upt: "[0..<length (c # cs)] = 0 # map Suc [0..<length cs]" by (simp add: upt_conv_Cons map_Suc_upt del: upt_Suc)
  have first: "seen (x @ c) = first_kind (butlast (lines_of (dt_pending d @ c)))"
    using Cons.prems(2,3) by (simp add: seen_append)
  have grows: "seen (x @ c) \<noteq> None \<Longrightarrow> seen (x @ c @ concat ds) \<noteq> None" for ds
    using seen_append [of "x @ c" "concat ds"] by auto
  show ?case
  proof (cases "seen (x @ c)")
    case (Some k)
    then have "detector_feed c d = (Some k, stopped)"
      using Cons.prems(1) first by (simp add: detector_feed_def Let_def)
    then have run: "detector_run d (c # cs) = Some k # map (\<lambda>_. None) cs"
      using detector_stopped [of stopped cs] by (simp add: stopped_def)
    have later: "(if seen (x @ concat (take (Suc i) (c # cs))) = None then seen (x @ concat (take (Suc (Suc i)) (c # cs))) else None) = None" for i
      using grows [of "take i cs"] Some by (cases "seen (x @ c @ concat (take i cs))") simp_all
    show ?thesis
      unfolding run upt list.map map_map comp_def later by (simp add: Cons.prems(3) Some map_replicate_const)
  next
    case None
    have len: "length (last (lines_of (x @ c))) \<le> max_pending_chars" by (rule short_lines_cut(2) [OF short])
    then have feed: "detector_feed c d = (None, d\<lparr>dt_pending := last (lines_of (x @ c))\<rparr>)"
      using Cons.prems(1,2) first None pending by (simp add: detector_feed_def Let_def)
    have tail: "detector_run (d\<lparr>dt_pending := last (lines_of (x @ c))\<rparr>) cs =
        map (\<lambda>i. if seen ((x @ c) @ concat (take i cs)) = None then seen ((x @ c) @ concat (take (Suc i) cs)) else None) [0..<length cs]"
      using Cons.prems(1) None short by (intro Cons.IH) simp_all
    have "detector_run d (c # cs) = None # detector_run (d\<lparr>dt_pending := last (lines_of (x @ c))\<rparr>) cs"
      by (simp add: feed)
    then show ?thesis
      unfolding upt list.map map_map comp_def tail by (simp add: Cons.prems(3) None)
  qed
qed simp

text \<open>While no line is over the limit, the detector reports the first generated output of an answer exactly once: the
  kind of the first complete line that carries any, on the chunk that completes it, however the answer is cut.\<close>

theorem first_token_once:
  assumes "short_lines max_pending_chars (concat cs)"
  shows "detector_run new_detector cs =
    map (\<lambda>i. if seen (concat (take i cs)) = None then seen (concat (take (Suc i) cs)) else None) [0..<length cs]"
  using detector_run_from [of new_detector "[]" cs] assms by (simp add: new_detector_def seen_def)

definition demo_delta_line :: string where
  "demo_delta_line = ''data: '' @ json_text (JObj [(''choices'', JArr [JObj [(''delta'', JObj [(''content'', JStr ''Hi'')])]])]) @ [CHR 0x0A]"

theorem first_token_once_witness:
  "detector_run new_detector [take 9 demo_delta_line, drop 9 demo_delta_line, demo_delta_line] = [None, Some Content, None]"
proof -
  let ?cs = "[take 9 demo_delta_line, drop 9 demo_delta_line, demo_delta_line]"
  have "length (concat ?cs) < 200" by code_simp
  then have short: "short_lines max_pending_chars (concat ?cs)" by (intro short_text) (simp add: max_pending_chars_def)
  have "map (\<lambda>i. if seen (concat (take i ?cs)) = None then seen (concat (take (Suc i) ?cs)) else None) [0..<length ?cs] =
      [None, Some Content, None]" by code_simp
  then show ?thesis unfolding first_token_once [OF short] .
qed

end
