(* ===== verification/SmartRouting.thy ===== *)
theory SmartRouting
  imports Routing JsConvert
begin

text \<open>
  \<open>enclave/src/smartRouting.mjs\<close>: the directive horse-power sends for the autoclaw and autorouter models, the rules
  classifier over the decrypted prompt, and the model that is chosen.

  Scores, weights and thresholds are exact rationals where the code adds doubles. \<open>Math.exp\<close> is a parameter:
  \<open>logistic x\<close> stands for \<open>1 / (1 + Math.exp(-x))\<close>. The time is a parameter too, in milliseconds since 1970.
\<close>

subsection \<open>Tiers\<close>

datatype tier = SIMPLE | MEDIUM | COMPLEX | REASONING

definition tier_names :: "tier list" where "tier_names = [SIMPLE, MEDIUM, COMPLEX, REASONING]"

fun tier_name :: "tier \<Rightarrow> string" where
  "tier_name SIMPLE = ''SIMPLE''" | "tier_name MEDIUM = ''MEDIUM''"
| "tier_name COMPLEX = ''COMPLEX''" | "tier_name REASONING = ''REASONING''"

fun tier_rank :: "tier \<Rightarrow> nat" where
  "tier_rank SIMPLE = 0" | "tier_rank MEDIUM = 1" | "tier_rank COMPLEX = 2" | "tier_rank REASONING = 3"

text \<open>\<open>TIER_RANK[a] < TIER_RANK[b]\<close> is the order of the type.\<close>

instantiation tier :: linorder
begin

definition less_eq_tier :: "tier \<Rightarrow> tier \<Rightarrow> bool" where "less_eq_tier a b \<longleftrightarrow> tier_rank a \<le> tier_rank b"
definition less_tier :: "tier \<Rightarrow> tier \<Rightarrow> bool" where "less_tier a b \<longleftrightarrow> tier_rank a < tier_rank b"

instance
proof
  fix x y z :: tier
  show "x \<le> y \<Longrightarrow> y \<le> x \<Longrightarrow> x = y"
    by (cases x; cases y) (simp_all add: less_eq_tier_def)
qed (auto simp: less_eq_tier_def less_tier_def)

end

definition tier_of :: "string \<Rightarrow> tier option" where
  "tier_of s = find (\<lambda>t. tier_name t = s) tier_names"

type_synonym tier_table = "tier \<Rightarrow> string"

subsection \<open>The directive\<close>

definition profiles :: "string list" where "profiles = [''auto'', ''eco'', ''premium'']"

definition keyword_lists :: "string list" where
  "keyword_lists =
     [''codeKeywords'', ''reasoningKeywords'', ''simpleKeywords'', ''technicalKeywords'', ''creativeKeywords'',
      ''imperativeVerbs'', ''constraintIndicators'', ''outputFormatKeywords'', ''referenceKeywords'', ''negationKeywords'',
      ''domainSpecificKeywords'', ''agenticTaskKeywords'']"

definition dimension_names :: "string list" where
  "dimension_names =
     [''tokenCount'', ''codePresence'', ''reasoningMarkers'', ''technicalTerms'', ''creativeMarkers'', ''simpleIndicators'',
      ''multiStepPatterns'', ''questionComplexity'', ''imperativeVerbs'', ''constraintCount'', ''outputFormat'',
      ''referenceComplexity'', ''negationComplexity'', ''domainSpecificity'', ''agenticTask'']"

definition max_keywords :: nat where "max_keywords = 500"
definition max_keyword_chars :: nat where "max_keyword_chars = 200"
definition max_promotions :: nat where "max_promotions = 20"

definition is_smart_routing_model :: "jsv \<Rightarrow> bool" where
  "is_smart_routing_model model \<longleftrightarrow>
     (case model of JStr m \<Rightarrow> starts_with m ''autoclaw/'' \<or> starts_with m ''autorouter/'' | _ \<Rightarrow> False)"

definition is_tier_model :: "jsv \<Rightarrow> bool" where
  "is_tier_model v \<longleftrightarrow>
     (case v of
        JStr m \<Rightarrow> model_pattern m \<and> \<not> is_smart_routing_model v \<and> \<not> starts_with m ''private/''
      | _ \<Rightarrow> False)"

definition parse_tiers :: "jsv \<Rightarrow> tier_table option" where
  "parse_tiers raw =
     (if typeof_object raw \<and> list_all (\<lambda>t. is_tier_model (fld (tier_name t) raw)) tier_names
      then Some (\<lambda>t. str_of (fld (tier_name t) raw)) else None)"

definition parse_keywords :: "jsv \<Rightarrow> string list option" where
  "parse_keywords raw =
     (case raw of
        JArr ks \<Rightarrow>
          if length ks \<le> max_keywords
             \<and> list_all (\<lambda>k. case k of JStr s \<Rightarrow> s \<noteq> [] \<and> length s \<le> max_keyword_chars | _ \<Rightarrow> False) ks
          then Some (map str_of ks) else None
      | _ \<Rightarrow> None)"

record scoring =
  sc_keywords :: "(string \<times> string list) list"
  sc_simple :: rat
  sc_complex :: rat
  sc_weights :: "(string \<times> rat) list"
  sc_simple_medium :: rat
  sc_medium_complex :: rat
  sc_complex_reasoning :: rat
  sc_steepness :: rat
  sc_threshold :: rat

definition parse_scoring :: "jsv \<Rightarrow> scoring option" where
  "parse_scoring raw =
     (let th = fld ''tokenCountThresholds'' raw; w = fld ''dimensionWeights'' raw; b = fld ''tierBoundaries'' raw
      in if \<not> typeof_object raw \<or> list_ex (\<lambda>n. parse_keywords (fld n raw) = None) keyword_lists then None
         else if \<not> typeof_object th \<or> \<not> num_finite (fld ''simple'' th) \<or> \<not> num_finite (fld ''complex'' th) then None
         else if \<not> typeof_object w \<or> list_ex (\<lambda>n. \<not> num_finite (fld n w)) dimension_names then None
         else if \<not> typeof_object b
             \<or> list_ex (\<lambda>k. \<not> num_finite (fld k b)) [''simpleMedium'', ''mediumComplex'', ''complexReasoning''] then None
         else if \<not> num_finite (fld ''confidenceSteepness'' raw) \<or> \<not> num_finite (fld ''confidenceThreshold'' raw) then None
         else Some \<lparr>sc_keywords = map (\<lambda>n. (n, case parse_keywords (fld n raw) of Some ks \<Rightarrow> ks | None \<Rightarrow> [])) keyword_lists,
           sc_simple = num_rat (fld ''simple'' th), sc_complex = num_rat (fld ''complex'' th),
           sc_weights = map (\<lambda>n. (n, num_rat (fld n w))) dimension_names,
           sc_simple_medium = num_rat (fld ''simpleMedium'' b), sc_medium_complex = num_rat (fld ''mediumComplex'' b),
           sc_complex_reasoning = num_rat (fld ''complexReasoning'' b),
           sc_steepness = num_rat (fld ''confidenceSteepness'' raw), sc_threshold = num_rat (fld ''confidenceThreshold'' raw)\<rparr>)"

record overrides =
  ov_force_complex :: rat
  ov_structured_min :: tier
  ov_ambiguous :: tier
  ov_agentic :: "bool option"

text \<open>\<open>Object.hasOwn(TIER_RANK, v)\<close> converts its key, which throws for an object with its own \<open>toString\<close>.\<close>

definition tier_key :: "jsv \<Rightarrow> js_error + tier option" where
  "tier_key v = bind_js (js_string v) (\<lambda>s. Inr (tier_of s))"

definition parse_overrides :: "jsv \<Rightarrow> js_error + overrides option" where
  "parse_overrides raw =
     (let force = fld ''maxTokensForceComplex'' raw; mode = fld ''agenticMode'' raw
      in if \<not> typeof_object raw \<or> \<not> num_finite force \<or> num_rat force \<le> 0 then Inr None
         else bind_js (tier_key (fld ''structuredOutputMinTier'' raw)) (\<lambda>s. case s of None \<Rightarrow> Inr None | Some smin \<Rightarrow>
           bind_js (tier_key (fld ''ambiguousDefaultTier'' raw)) (\<lambda>a. case a of None \<Rightarrow> Inr None | Some amb \<Rightarrow>
             Inr (case mode of
                    JUndef \<Rightarrow> Some \<lparr>ov_force_complex = num_rat force, ov_structured_min = smin, ov_ambiguous = amb, ov_agentic = None\<rparr>
                  | JBool b \<Rightarrow> Some \<lparr>ov_force_complex = num_rat force, ov_structured_min = smin, ov_ambiguous = amb, ov_agentic = Some b\<rparr>
                  | _ \<Rightarrow> None))))"

subsection \<open>Promotions\<close>

text \<open>\<open>/^\d{4}-\d{2}-\d{2}(T\d{2}:\d{2}:\d{2}(\.\d{1,3})?Z)?$/\<close>, a 9 of a pattern standing for a digit.\<close>

definition fits :: "string \<Rightarrow> string \<Rightarrow> bool" where
  "fits p s \<longleftrightarrow> list_all2 (\<lambda>x c. if x = CHR ''9'' then is_digit c else c = x) p s"

definition promo_shape :: "string \<Rightarrow> bool" where
  "promo_shape s \<longleftrightarrow>
     list_ex (\<lambda>p. fits p s)
       [''9999-99-99'', ''9999-99-99T99:99:99Z'', ''9999-99-99T99:99:99.9Z'', ''9999-99-99T99:99:99.99Z'',
        ''9999-99-99T99:99:99.999Z'']"

text \<open>Days since 1970 of a day of the Gregorian calendar, and back; a day past the end of its month is one of the next.\<close>

definition days_from_civil :: "int \<Rightarrow> int \<Rightarrow> int \<Rightarrow> int" where
  "days_from_civil year month day =
     (let y = (if month \<le> 2 then year - 1 else year); era = y div 400; yoe = y - era * 400;
          doy = (153 * (if month > 2 then month - 3 else month + 9) + 2) div 5 + day - 1;
          doe = yoe * 365 + yoe div 4 - yoe div 100 + doy
      in era * 146097 + doe - 719468)"

definition civil_from_days :: "int \<Rightarrow> int \<times> int \<times> int" where
  "civil_from_days z0 =
     (let z = z0 + 719468; era = z div 146097; doe = z - era * 146097;
          yoe = (doe - doe div 1460 + doe div 36524 - doe div 146096) div 365;
          doy = doe - (365 * yoe + yoe div 4 - yoe div 100); mp = (5 * doy + 2) div 153;
          day = doy - (153 * mp + 2) div 5 + 1; month = (if mp < 10 then mp + 3 else mp - 9)
      in (yoe + era * 400 + (if month \<le> 2 then 1 else 0), month, day))"

definition pad :: "nat \<Rightarrow> int \<Rightarrow> string" where
  "pad n i = (let s = num_str (nat i) in replicate (n - length s) CHR ''0'' @ s)"

definition date_digits :: "string \<Rightarrow> nat \<Rightarrow> nat \<Rightarrow> int" where
  "date_digits s i n = int (digits_value (take n (drop i s)))"

text \<open>\<open>Date.parse(s)\<close> of a string of one of these shapes: a day is at most 31, whatever its month.\<close>

definition date_parse :: "string \<Rightarrow> int option" where
  "date_parse s =
     (let year = date_digits s 0 4; month = date_digits s 5 2; day = date_digits s 8 2;
          timed = length s > 10;
          h = (if timed then date_digits s 11 2 else 0); mi = (if timed then date_digits s 14 2 else 0);
          sec = (if timed then date_digits s 17 2 else 0);
          frac = takeWhile is_digit (drop 20 s);
          ms = (if frac = [] then 0 else int (digits_value (take 3 (frac @ ''00''))))
      in if month < 1 \<or> 12 < month \<or> day < 1 \<or> 31 < day then None
         else if (h \<le> 23 \<and> mi \<le> 59 \<and> sec \<le> 59) \<or> (h = 24 \<and> mi = 0 \<and> sec = 0 \<and> ms = 0)
         then Some (days_from_civil year month day * 86400000 + h * 3600000 + mi * 60000 + sec * 1000 + ms)
         else None)"

text \<open>\<open>new Date(t).toISOString()\<close>.\<close>

definition iso_string :: "int \<Rightarrow> string" where
  "iso_string t =
     (case civil_from_days (t div 86400000) of (year, month, day) \<Rightarrow>
        let r = t mod 86400000
        in (if 0 \<le> year \<and> year \<le> 9999 then pad 4 year
            else (if year < 0 then ''-'' else ''+'') @ pad 6 \<bar>year\<bar>)
           @ ''-'' @ pad 2 month @ ''-'' @ pad 2 day @ ''T'' @ pad 2 (r div 3600000) @ '':'' @ pad 2 (r div 60000 mod 60)
           @ '':'' @ pad 2 (r div 1000 mod 60) @ ''.'' @ pad 3 (r mod 1000) @ ''Z'')"

definition promo_date :: "string \<Rightarrow> int option" where
  "promo_date s =
     (if \<not> promo_shape s then None
      else case date_parse s of
        None \<Rightarrow> None
      | Some t \<Rightarrow>
          let canonical = take (if length s = 10 then 10 else 19) (iso_string t)
          in if canonical = take (length canonical) s then Some t else None)"

record promotion =
  po_start :: string
  po_end :: string
  po_overrides :: "(tier \<times> string option) list"
  po_profiles :: "string list option"

fun parse_tier_overrides :: "js_fields \<Rightarrow> (tier \<times> string option) list option" where
  "parse_tier_overrides [] = Some []"
| "parse_tier_overrides ((k, v) # kvs) =
     (case tier_of k of
        None \<Rightarrow> None
      | Some t \<Rightarrow>
          let m = fld ''primary'' v
          in if \<not> typeof_object v \<or> m \<noteq> JUndef \<and> \<not> is_tier_model m then None
             else map_option (\<lambda>os. (t, if m = JUndef then None else Some (str_of m)) # os) (parse_tier_overrides kvs))"

definition parse_promotion :: "jsv \<Rightarrow> promotion option" where
  "parse_promotion p =
     (case (fld ''startDate'' p, fld ''endDate'' p) of
        (JStr s, JStr e) \<Rightarrow>
          (case (promo_date s, promo_date e) of
             (Some start, Some stop) \<Rightarrow>
               if start \<ge> stop \<or> \<not> typeof_object (fld ''tierOverrides'' p) then None
               else (case parse_tier_overrides (spread (fld ''tierOverrides'' p)) of
                 None \<Rightarrow> None
               | Some os \<Rightarrow>
                   (case fld ''profiles'' p of
                      JUndef \<Rightarrow> Some \<lparr>po_start = s, po_end = e, po_overrides = os, po_profiles = None\<rparr>
                    | JArr xs \<Rightarrow>
                        if list_all is_str xs
                        then Some \<lparr>po_start = s, po_end = e, po_overrides = os, po_profiles = Some (map str_of xs)\<rparr> else None
                    | _ \<Rightarrow> None))
           | _ \<Rightarrow> None)
      | _ \<Rightarrow> None)"

fun all_some :: "'a option list \<Rightarrow> 'a list option" where
  "all_some [] = Some []"
| "all_some (x # xs) = (case x of None \<Rightarrow> None | Some v \<Rightarrow> map_option (\<lambda>vs. v # vs) (all_some xs))"

definition parse_promotions :: "jsv \<Rightarrow> promotion list option" where
  "parse_promotions raw =
     (case raw of
        JUndef \<Rightarrow> Some []
      | JArr ps \<Rightarrow> if length ps > max_promotions then None else all_some (map parse_promotion ps)
      | _ \<Rightarrow> None)"

subsection \<open>The whole directive\<close>

record directive =
  di_profile :: string
  di_tiers :: tier_table
  di_agentic :: "tier_table option"
  di_scoring :: scoring
  di_overrides :: overrides
  di_promotions :: "promotion list"
  di_custom :: bool

definition parse_autoclaw_directive :: "jsv \<Rightarrow> js_error + directive option" where
  "parse_autoclaw_directive raw =
     (let agentic = fld ''agentic_tiers'' raw
      in if \<not> typeof_object raw \<or> \<not> list_ex (\<lambda>p. fld ''profile'' raw = JStr p) profiles then Inr None
         else (case parse_tiers (fld ''tiers'' raw) of
           None \<Rightarrow> Inr None
         | Some tiers \<Rightarrow>
             if agentic \<noteq> JUndef \<and> agentic \<noteq> JNull \<and> parse_tiers agentic = None then Inr None
             else bind_js (parse_overrides (fld ''overrides'' raw)) (\<lambda>ov.
               Inr (case (parse_scoring (fld ''scoring'' raw), ov, parse_promotions (fld ''promotions'' raw)) of
                      (Some sc, Some o1, Some ps) \<Rightarrow>
                        Some \<lparr>di_profile = str_of (fld ''profile'' raw), di_tiers = tiers,
                          di_agentic = (if agentic = JUndef \<or> agentic = JNull then None else parse_tiers agentic),
                          di_scoring = sc, di_overrides = o1, di_promotions = ps, di_custom = (fld ''custom'' raw = JTrue)\<rparr>
                    | _ \<Rightarrow> None))))"

subsection \<open>The classifier\<close>

definition keywords_of :: "scoring \<Rightarrow> string \<Rightarrow> string list" where
  "keywords_of c l = (case map_of (sc_keywords c) l of Some ks \<Rightarrow> ks | None \<Rightarrow> [])"

definition weight_of :: "scoring \<Rightarrow> string \<Rightarrow> rat" where
  "weight_of c d = (case map_of (sc_weights c) d of Some w \<Rightarrow> w | None \<Rightarrow> 0)"

definition count_matches :: "string \<Rightarrow> string list \<Rightarrow> nat" where
  "count_matches s keywords = length (filter (\<lambda>kw. str_includes s (lower kw)) keywords)"

text \<open>A score by the number of matches: \<open>(low, high)\<close> of the thresholds and of the scores; the score of none is 0.\<close>

definition score_keyword_match :: "string \<Rightarrow> string list \<Rightarrow> nat \<times> nat \<Rightarrow> rat \<times> rat \<Rightarrow> rat \<times> nat" where
  "score_keyword_match s keywords thresholds scores =
     (let matches = count_matches s keywords
      in (if matches \<ge> snd thresholds then snd scores else if matches \<ge> fst thresholds then fst scores else 0, matches))"

definition score_agentic_task :: "string \<Rightarrow> string list \<Rightarrow> rat" where
  "score_agentic_task s keywords =
     (let n = count_matches s keywords in if n \<ge> 4 then 1 else if n \<ge> 3 then 3 / 5 else if n \<ge> 1 then 1 / 5 else 0)"

text \<open>\<open>/first.*then/i\<close>, \<open>/step \d/i\<close> and \<open>/\d\.\s/\<close>: at one place, then anywhere.\<close>

definition line_end :: "char \<Rightarrow> bool" where
  "line_end c \<longleftrightarrow> c = CHR 0x0A \<or> c = CHR 0x0D"

definition first_then_here :: "string \<Rightarrow> bool" where
  "first_then_here s \<longleftrightarrow>
     starts_with (lower s) ''first'' \<and> str_includes (takeWhile (\<lambda>c. \<not> line_end c) (drop 5 (lower s))) ''then''"

definition step_here :: "string \<Rightarrow> bool" where
  "step_here s \<longleftrightarrow> starts_with (lower s) ''step '' \<and> (case drop 5 s of c # _ \<Rightarrow> is_digit c | [] \<Rightarrow> False)"

definition numbered_here :: "string \<Rightarrow> bool" where
  "numbered_here s \<longleftrightarrow>
     (case s of d # p # w # _ \<Rightarrow> is_digit d \<and> p = CHR ''.'' \<and> is_space w | _ \<Rightarrow> False)"

fun some_suffix :: "(string \<Rightarrow> bool) \<Rightarrow> string \<Rightarrow> bool" where
  "some_suffix p [] = p []"
| "some_suffix p (c # s) = (p (c # s) \<or> some_suffix p s)"

definition score_multi_step :: "string \<Rightarrow> rat" where
  "score_multi_step s =
     (if some_suffix first_then_here s \<or> some_suffix step_here s \<or> some_suffix numbered_here s then 1 / 2 else 0)"

definition score_question_complexity :: "string \<Rightarrow> rat" where
  "score_question_complexity prompt = (if length (filter (\<lambda>c. c = CHR ''?'') prompt) > 3 then 1 / 2 else 0)"

definition score_token_count :: "nat \<Rightarrow> scoring \<Rightarrow> rat" where
  "score_token_count n c =
     (if rat_of_nat n < sc_simple c then - 1 else if rat_of_nat n > sc_complex c then 1 else 0)"

text \<open>The lists that are scored by their number of matches, as dimension, list, thresholds and scores.\<close>

definition keyword_dimensions :: "(string \<times> string \<times> (nat \<times> nat) \<times> (rat \<times> rat)) list" where
  "keyword_dimensions =
     [(''codePresence'', ''codeKeywords'', (1, 2), (1 / 2, 1)),
      (''reasoningMarkers'', ''reasoningKeywords'', (1, 2), (7 / 10, 1)),
      (''technicalTerms'', ''technicalKeywords'', (2, 4), (1 / 2, 1)),
      (''creativeMarkers'', ''creativeKeywords'', (1, 2), (1 / 2, 7 / 10)),
      (''simpleIndicators'', ''simpleKeywords'', (1, 2), (- 1, - 1)),
      (''imperativeVerbs'', ''imperativeVerbs'', (1, 2), (3 / 10, 1 / 2)),
      (''constraintCount'', ''constraintIndicators'', (1, 3), (3 / 10, 7 / 10)),
      (''outputFormat'', ''outputFormatKeywords'', (1, 2), (2 / 5, 7 / 10)),
      (''referenceComplexity'', ''referenceKeywords'', (1, 2), (3 / 10, 1 / 2)),
      (''negationComplexity'', ''negationKeywords'', (2, 3), (3 / 10, 1 / 2)),
      (''domainSpecificity'', ''domainSpecificKeywords'', (1, 2), (1 / 2, 4 / 5))]"

definition dimension_scores :: "string \<Rightarrow> nat \<Rightarrow> scoring \<Rightarrow> (string \<times> rat) list" where
  "dimension_scores prompt tokens c =
     (let s = lower prompt
      in [(''tokenCount'', score_token_count tokens c), (''multiStepPatterns'', score_multi_step s),
          (''questionComplexity'', score_question_complexity prompt),
          (''agenticTask'', score_agentic_task s (keywords_of c ''agenticTaskKeywords''))]
         @ map (\<lambda>(d, l, th, scores). (d, fst (score_keyword_match s (keywords_of c l) th scores))) keyword_dimensions)"

definition weighted_score :: "string \<Rightarrow> nat \<Rightarrow> scoring \<Rightarrow> rat" where
  "weighted_score prompt tokens c = sum_list (map (\<lambda>(d, x). x * weight_of c d) (dimension_scores prompt tokens c))"

record rule_result =
  ru_tier :: "tier option"
  ru_confidence :: rat
  ru_agentic :: rat

definition boundary_tier :: "rat \<Rightarrow> scoring \<Rightarrow> tier \<times> rat" where
  "boundary_tier x c =
     (if x < sc_simple_medium c then (SIMPLE, sc_simple_medium c - x)
      else if x < sc_medium_complex c then (MEDIUM, min (x - sc_simple_medium c) (sc_medium_complex c - x))
      else if x < sc_complex_reasoning c then (COMPLEX, min (x - sc_medium_complex c) (sc_complex_reasoning c - x))
      else (REASONING, x - sc_complex_reasoning c))"

definition classify_by_rules :: "(rat \<Rightarrow> rat) \<Rightarrow> string \<Rightarrow> nat \<Rightarrow> scoring \<Rightarrow> rule_result" where
  "classify_by_rules logistic prompt tokens c =
     (let s = lower prompt; x = weighted_score prompt tokens c;
          agentic = score_agentic_task s (keywords_of c ''agenticTaskKeywords'')
      in if count_matches s (keywords_of c ''reasoningKeywords'') \<ge> 2
         then \<lparr>ru_tier = Some REASONING, ru_confidence = max (logistic (sc_steepness c * max x (3 / 10))) (17 / 20), ru_agentic = agentic\<rparr>
         else case boundary_tier x c of (t, distance) \<Rightarrow>
           let confidence = logistic (sc_steepness c * distance)
           in \<lparr>ru_tier = (if confidence < sc_threshold c then None else Some t), ru_confidence = confidence, ru_agentic = agentic\<rparr>)"

subsection \<open>The decision\<close>

definition promo_active :: "int \<Rightarrow> string \<Rightarrow> promotion \<Rightarrow> bool" where
  "promo_active now profile p \<longleftrightarrow>
     (case date_parse (po_start p) of Some start \<Rightarrow> start \<le> now | None \<Rightarrow> True)
     \<and> (case date_parse (po_end p) of Some stop \<Rightarrow> now < stop | None \<Rightarrow> True)
     \<and> (case po_profiles p of Some ps \<Rightarrow> profile \<in> set ps | None \<Rightarrow> True)"

definition override_tier :: "tier \<times> string option \<Rightarrow> tier_table \<Rightarrow> tier_table" where
  "override_tier o1 tiers =
     (case o1 of (t, m) \<Rightarrow>
        case m of Some s \<Rightarrow> if tiers t \<noteq> [] \<and> s \<noteq> [] then tiers(t := s) else tiers | None \<Rightarrow> tiers)"

definition apply_promotions :: "promotion list \<Rightarrow> string \<Rightarrow> int \<Rightarrow> tier_table \<Rightarrow> tier_table" where
  "apply_promotions promotions profile now tiers =
     fold (\<lambda>p. fold override_tier (po_overrides p)) (filter (promo_active now profile) promotions) tiers"

definition has_role :: "string \<Rightarrow> jsv \<Rightarrow> bool" where
  "has_role r m \<longleftrightarrow> fld ''role'' m = JStr r"

text \<open>The last user message, a content that is not a string as JSON text, and the first system message when it is one.\<close>

definition extract_routing_text :: "jsv \<Rightarrow> string \<times> string option" where
  "extract_routing_text payload =
     (let messages = elems (fld ''messages'' payload);
          user = (case rev (filter (has_role ''user'') messages) of [] \<Rightarrow> JStr [] | m # _ \<Rightarrow> nullish (fld ''content'' m) (JStr []));
          system = (case find (has_role ''system'') messages of None \<Rightarrow> JUndef | Some m \<Rightarrow> fld ''content'' m)
      in (case user of JStr s \<Rightarrow> s | v \<Rightarrow> json_text v, case system of JStr s \<Rightarrow> Some s | _ \<Rightarrow> None))"

definition estimated_tokens :: "string \<Rightarrow> string option \<Rightarrow> nat" where
  "estimated_tokens prompt system =
     ((case system of Some s \<Rightarrow> length s | None \<Rightarrow> 0) + 1 + length prompt + 3) div 4"

definition wants_structure :: "string option \<Rightarrow> bool" where
  "wants_structure system =
     (case system of None \<Rightarrow> False
      | Some s \<Rightarrow> list_ex (str_includes (lower s)) [''json'', ''structured'', ''schema''])"

definition choose_table :: "directive \<Rightarrow> rat \<Rightarrow> tier_table \<times> string" where
  "choose_table d agentic_score =
     (if di_profile d = ''eco'' \<or> di_profile d = ''premium'' then (di_tiers d, di_profile d)
      else
        let wanted = (case ov_agentic (di_overrides d) of Some b \<Rightarrow> b | None \<Rightarrow> agentic_score \<ge> 1 / 2)
        in case di_agentic d of
             Some t \<Rightarrow> if wanted then (t, ''agentic'') else (di_tiers d, ''auto'')
           | None \<Rightarrow> (di_tiers d, ''auto''))"

record smart_route =
  sr_model :: string
  sr_tier :: tier
  sr_confidence :: rat
  sr_profile :: string

definition too_long :: "directive \<Rightarrow> string \<Rightarrow> string option \<Rightarrow> bool" where
  "too_long d prompt system \<longleftrightarrow> rat_of_nat (estimated_tokens prompt system) > ov_force_complex (di_overrides d)"

definition smart_rule :: "(rat \<Rightarrow> rat) \<Rightarrow> directive \<Rightarrow> string \<Rightarrow> string option \<Rightarrow> rule_result" where
  "smart_rule logistic d prompt system =
     (if too_long d prompt system
      then \<lparr>ru_tier = None, ru_confidence = 0,
        ru_agentic = score_agentic_task (lower prompt) (keywords_of (di_scoring d) ''agenticTaskKeywords'')\<rparr>
      else classify_by_rules logistic prompt (estimated_tokens prompt system) (di_scoring d))"

definition route_tier :: "overrides \<Rightarrow> rule_result \<Rightarrow> string option \<Rightarrow> tier \<times> rat" where
  "route_tier ov rule system =
     (let (t, confidence) = (case ru_tier rule of Some t \<Rightarrow> (t, ru_confidence rule) | None \<Rightarrow> (ov_ambiguous ov, 1 / 2))
      in (if wants_structure system \<and> t < ov_structured_min ov then ov_structured_min ov else t, confidence))"

definition route_to :: "directive \<Rightarrow> int \<Rightarrow> rule_result \<Rightarrow> tier \<times> rat \<Rightarrow> smart_route" where
  "route_to d now rule chosen =
     (let (table, profile) = choose_table d (ru_agentic rule); tiers = apply_promotions (di_promotions d) profile now table
      in \<lparr>sr_model = tiers (fst chosen), sr_tier = fst chosen, sr_confidence = snd chosen, sr_profile = profile\<rparr>)"

definition decide_smart_route :: "(rat \<Rightarrow> rat) \<Rightarrow> int \<Rightarrow> directive \<Rightarrow> jsv \<Rightarrow> smart_route" where
  "decide_smart_route logistic now d payload =
     (let (prompt, system) = extract_routing_text payload; rule = smart_rule logistic d prompt system
      in route_to d now rule (if too_long d prompt system then (COMPLEX, 19 / 20) else route_tier (di_overrides d) rule system))"

subsection \<open>Only models that horse-power listed\<close>

definition listed_models :: "directive \<Rightarrow> string set" where
  "listed_models d =
     range (di_tiers d) \<union> (case di_agentic d of Some t \<Rightarrow> range t | None \<Rightarrow> {})
     \<union> {m. \<exists>p \<in> set (di_promotions d). \<exists>t. (t, Some m) \<in> set (po_overrides p)}"

definition sound_model :: "string \<Rightarrow> bool" where
  "sound_model m \<longleftrightarrow> is_tier_model (JStr m)"

lemma sound_model_iff:
  "sound_model m \<longleftrightarrow> model_pattern m \<and> \<not> starts_with m ''autoclaw/'' \<and> \<not> starts_with m ''autorouter/'' \<and> \<not> starts_with m ''private/''"
  by (auto simp: sound_model_def is_tier_model_def is_smart_routing_model_def)

lemma is_tier_model_str: "is_tier_model v \<Longrightarrow> \<exists>m. v = JStr m \<and> sound_model m"
  by (cases v) (auto simp: is_tier_model_def sound_model_def)

lemma tier_all: "list_all p tier_names \<longleftrightarrow> (\<forall>t. p t)"
  by (auto simp: tier_names_def) (metis tier.exhaust)

lemma parse_tiers_sound: "parse_tiers raw = Some tiers \<Longrightarrow> sound_model (tiers t)"
proof -
  assume "parse_tiers raw = Some tiers"
  then have "is_tier_model (fld (tier_name t) raw)" "tiers t = str_of (fld (tier_name t) raw)"
    by (auto simp: parse_tiers_def tier_all split: if_splits)
  then show ?thesis using is_tier_model_str by fastforce
qed

lemma parse_tier_overrides_sound:
  "parse_tier_overrides kvs = Some os \<Longrightarrow> (t, Some m) \<in> set os \<Longrightarrow> sound_model m"
proof (induction kvs arbitrary: os)
  case (Cons kv kvs)
  then show ?case
    using is_tier_model_str by (cases kv) (fastforce simp: Let_def split: option.splits if_splits)
qed simp

lemma parse_promotion_sound: "parse_promotion v = Some p \<Longrightarrow> (t, Some m) \<in> set (po_overrides p) \<Longrightarrow> sound_model m"
  by (auto simp: parse_promotion_def split: jsv.splits option.splits if_splits dest: parse_tier_overrides_sound)

lemma all_some_mem: "all_some xs = Some ys \<Longrightarrow> y \<in> set ys \<Longrightarrow> Some y \<in> set xs"
  by (induction xs arbitrary: ys) (auto split: option.splits)

lemma parse_promotions_sound:
  "parse_promotions v = Some ps \<Longrightarrow> p \<in> set ps \<Longrightarrow> (t, Some m) \<in> set (po_overrides p) \<Longrightarrow> sound_model m"
  by (auto simp: parse_promotions_def split: jsv.splits if_splits dest!: all_some_mem intro: parse_promotion_sound [OF sym])

lemma case_Some_iff: "(case x of None \<Rightarrow> None | Some y \<Rightarrow> f y) = Some z \<longleftrightarrow> (\<exists>y. x = Some y \<and> f y = Some z)"
  by (cases x) simp_all

lemma case_Inr_None_iff:
  "(case x of None \<Rightarrow> Inr None | Some y \<Rightarrow> f y) = Inr (Some z) \<longleftrightarrow> (\<exists>y. x = Some y \<and> f y = Inr (Some z))"
  by (cases x) simp_all

lemma parsed_directive:
  assumes "parse_autoclaw_directive raw = Inr (Some d)"
  shows "parse_tiers (fld ''tiers'' raw) = Some (di_tiers d)"
    "di_agentic d = None \<or> parse_tiers (fld ''agentic_tiers'' raw) = di_agentic d"
    "parse_promotions (fld ''promotions'' raw) = Some (di_promotions d)"
  using assms
  by (auto simp: parse_autoclaw_directive_def bind_js_Inr_iff case_Some_iff case_Inr_None_iff Let_def split: if_splits)

lemma listed_models_sound:
  assumes d: "parse_autoclaw_directive raw = Inr (Some d)" and m: "m \<in> listed_models d"
  shows "sound_model m"
proof -
  note parsed = parsed_directive [OF d]
  consider t where "m = di_tiers d t" | tiers t where "di_agentic d = Some tiers" "m = tiers t"
    | p t where "p \<in> set (di_promotions d)" "(t, Some m) \<in> set (po_overrides p)"
    using m by (auto simp: listed_models_def split: option.splits)
  then show ?thesis
  proof cases
    case 1
    then show ?thesis using parse_tiers_sound [OF parsed(1)] by simp
  next
    case (2 tiers t)
    then have "parse_tiers (fld ''agentic_tiers'' raw) = Some tiers" using parsed(2) by simp
    then show ?thesis using parse_tiers_sound 2(2) by blast
  next
    case (3 p t)
    then show ?thesis using parse_promotions_sound [OF parsed(3)] by blast
  qed
qed

lemma override_listed:
  "fold override_tier os tiers t = m \<Longrightarrow> m \<in> range tiers \<or> (\<exists>t. (t, Some m) \<in> set os)"
proof (induction os arbitrary: tiers)
  case Nil
  then show ?case by auto
next
  case (Cons o1 os)
  from Cons.prems have "fold override_tier os (override_tier o1 tiers) t = m" by simp
  from Cons.IH [OF this] show ?case
  proof
    assume "m \<in> range (override_tier o1 tiers)"
    then obtain t1 where "m = override_tier o1 tiers t1" by blast
    then have "m \<in> range tiers \<or> o1 = (fst o1, Some m)"
      by (cases o1; cases "snd o1") (auto simp: override_tier_def split: if_splits)
    then show ?thesis by (metis list.set_intros(1))
  qed auto
qed

lemma promotions_listed:
  "apply_promotions ps profile now tiers t = m \<Longrightarrow>
   m \<in> range tiers \<or> (\<exists>p \<in> set ps. \<exists>t. (t, Some m) \<in> set (po_overrides p))"
  unfolding apply_promotions_def
proof (induction ps arbitrary: tiers)
  case Nil
  then show ?case by auto
next
  case (Cons p ps)
  show ?case
  proof (cases "promo_active now profile p")
    case True
    with Cons.prems have "fold (\<lambda>p. fold override_tier (po_overrides p)) (filter (promo_active now profile) ps)
        (fold override_tier (po_overrides p) tiers) t = m" by simp
    from Cons.IH [OF this] show ?thesis
      using override_listed [of "po_overrides p" tiers _ m] by (metis image_iff list.set_intros)
  next
    case False
    then show ?thesis using Cons.IH [of tiers] Cons.prems by auto
  qed
qed

lemma choose_table_listed:
  "choose_table d x = (table, profile) \<Longrightarrow> table = di_tiers d \<or> di_agentic d = Some table"
  by (auto simp: choose_table_def Let_def split: if_splits option.splits)

lemma decided_model:
  obtains table profile t where "table = di_tiers d \<or> di_agentic d = Some table"
    "sr_model (decide_smart_route logistic now d payload) = apply_promotions (di_promotions d) profile now table t"
proof -
  obtain rule chosen where r: "decide_smart_route logistic now d payload = route_to d now rule chosen"
    unfolding decide_smart_route_def by (metis (no_types, lifting) case_prod_unfold)
  obtain table profile where t: "choose_table d (ru_agentic rule) = (table, profile)" by force
  show ?thesis
    using that [OF choose_table_listed [OF t]] by (simp add: r route_to_def t)
qed

text \<open>C38: With a directive the enclave accepts, the model a smart route ends at is one that horse-power listed: a tier of the
  table, of the agentic table, or the model of a promotion. It has the shape of a model id, is not a smart-routing
  model again, and is not under private/, whatever the prompt says, the time, and how the classifier rounds.\<close>

theorem smart_route_listed:
  assumes "parse_autoclaw_directive raw = Inr (Some d)"
  shows "sr_model (decide_smart_route logistic now d payload) \<in> listed_models d \<and>
    sound_model (sr_model (decide_smart_route logistic now d payload))"
proof -
  obtain table profile t where t: "table = di_tiers d \<or> di_agentic d = Some table"
      "sr_model (decide_smart_route logistic now d payload) = apply_promotions (di_promotions d) profile now table t"
    by (rule decided_model)
  from promotions_listed [OF t(2) [symmetric]] have "sr_model (decide_smart_route logistic now d payload) \<in> listed_models d"
    using t(1) by (auto simp: listed_models_def)
  then show ?thesis using listed_models_sound [OF assms] by blast
qed

text \<open>A directive and a request for the witness: a prompt with two reasoning keywords, and a promotion that is over.\<close>

definition demo_tiers :: "string \<Rightarrow> jsv" where
  "demo_tiers vendor = JObj (map (\<lambda>t. (tier_name t, JStr (vendor @ ''/'' @ tier_name t))) tier_names)"

definition demo_scoring :: jsv where
  "demo_scoring = JObj (map (\<lambda>n. (n, JArr [JStr ''prove'', JStr ''theorem''])) keyword_lists
     @ [(''tokenCountThresholds'', JObj [(''simple'', jint 5), (''complex'', jint 50)]),
        (''dimensionWeights'', JObj (map (\<lambda>n. (n, jint 1)) dimension_names)),
        (''tierBoundaries'', JObj [(''simpleMedium'', jint 0), (''mediumComplex'', jint 1), (''complexReasoning'', jint 2)]),
        (''confidenceSteepness'', jint 8), (''confidenceThreshold'', jint 0)])"

definition demo_directive :: jsv where
  "demo_directive = JObj [(''profile'', JStr ''auto''), (''tiers'', demo_tiers ''a''), (''agentic_tiers'', demo_tiers ''b''),
     (''scoring'', demo_scoring),
     (''overrides'', JObj [(''maxTokensForceComplex'', jint 1000), (''structuredOutputMinTier'', JStr ''MEDIUM''),
        (''ambiguousDefaultTier'', JStr ''MEDIUM'')]),
     (''promotions'', JArr [JObj [(''startDate'', JStr ''2026-02-01''), (''endDate'', JStr ''2026-02-28T12:00:00Z''),
        (''tierOverrides'', JObj [(''REASONING'', JObj [(''primary'', JStr ''c/promo'')])])]])]"

definition demo_prompt :: jsv where
  "demo_prompt = JObj [(''messages'', JArr [JObj [(''role'', JStr ''user''), (''content'', JStr ''Prove this theorem'')]])]"

lemma demo_promoted:
  "apply_promotions (the (parse_promotions (fld ''promotions'' demo_directive))) ''auto'' 1771000000000 (\<lambda>_. ''a/x'') REASONING = ''c/promo''"
  by code_simp

lemma demo_classified:
  "ru_tier (classify_by_rules (\<lambda>_. 1) ''Prove this theorem'' 5 (the (parse_scoring demo_scoring))) = Some REASONING"
  by code_simp

theorem smart_route_listed_witness:
  "\<exists>d m. parse_autoclaw_directive demo_directive = Inr (Some d) \<and> di_profile d = ''auto'' \<and>
     m = sr_model (decide_smart_route (\<lambda>_. 1) 1771000000000 d demo_prompt) \<and> m \<in> listed_models d \<and> sound_model m"
proof -
  have "case parse_autoclaw_directive demo_directive of Inr (Some d) \<Rightarrow> di_profile d = ''auto'' | _ \<Rightarrow> False"
    by code_simp
  then obtain d where d: "parse_autoclaw_directive demo_directive = Inr (Some d)" "di_profile d = ''auto''"
    by (auto split: sum.splits option.splits)
  then show ?thesis
    using smart_route_listed [OF d(1), of "\<lambda>_. 1" 1771000000000 demo_prompt] by blast
qed

subsection \<open>The shortcut for a long prompt\<close>

text \<open>The route of the original, which classifies every prompt and then ignores the tier of one that is too long.\<close>

definition original_route :: "(rat \<Rightarrow> rat) \<Rightarrow> int \<Rightarrow> directive \<Rightarrow> jsv \<Rightarrow> smart_route" where
  "original_route logistic now d payload =
     (let (prompt, system) = extract_routing_text payload;
          rule = classify_by_rules logistic prompt (estimated_tokens prompt system) (di_scoring d)
      in route_to d now rule (if too_long d prompt system then (COMPLEX, 19 / 20) else route_tier (di_overrides d) rule system))"

lemma classified_agentic:
  "ru_agentic (classify_by_rules logistic prompt tokens c) =
     score_agentic_task (lower prompt) (keywords_of c ''agenticTaskKeywords'')"
  by (simp add: classify_by_rules_def Let_def split: prod.split)


end
