(* ===== verification/ReasoningMirror.thy ===== *)
theory ReasoningMirror
  imports TextLines Json
begin

text \<open>
  \<open>enclave/src/reasoningMirror.mjs\<close>: the reasoning of a Fireworks answer mirrored under the names that OpenRouter uses,
  line by line on a stream and once on a whole body. A chunk is its decoded text.
\<close>

subsection \<open>One object\<close>

definition max_mirror_line :: nat where "max_mirror_line = 1000000"
definition max_mirror_body :: nat where "max_mirror_body = 16000000"

text \<open>The length in bytes of the UTF-8 form of a text.\<close>

definition utf8_length :: "string \<Rightarrow> nat" where
  "utf8_length s = sum_list (map (\<lambda>c. if (of_char c :: nat) < 128 then 1 else 2) s)"

definition reasoning_detail :: "string \<Rightarrow> jsv" where
  "reasoning_detail t =
     JObj [(''type'', JStr ''reasoning.text''), (''text'', JStr t), (''format'', JStr ''unknown''), (''index'', jint 0)]"

text \<open>Each mirror returns the object as it is left and whether it changed.\<close>

definition mirror_reasoning_into :: "jsv \<Rightarrow> jsv \<times> bool" where
  "mirror_reasoning_into part =
     (case fld ''reasoning_content'' part of
        JStr t \<Rightarrow>
          let bare = (fld ''reasoning'' part = JUndef \<or> fld ''reasoning'' part = JNull);
              detail = (t \<noteq> [] \<and> fld ''reasoning_details'' part = JUndef);
              p1 = (if bare then set_fld ''reasoning'' (JStr t) part else part);
              p2 = (if detail then set_fld ''reasoning_details'' (JArr [reasoning_detail t]) p1 else p1)
          in (p2, bare \<or> detail)
      | _ \<Rightarrow> (part, False))"

definition mirror_member :: "string \<Rightarrow> jsv \<times> bool \<Rightarrow> jsv \<times> bool" where
  "mirror_member k c =
     (case mirror_reasoning_into (fld k (fst c)) of
        (v, changed) \<Rightarrow> if changed then (set_fld k v (fst c), True) else c)"

definition mirror_choice :: "jsv \<Rightarrow> jsv \<times> bool" where
  "mirror_choice choice = mirror_member ''message'' (mirror_member ''delta'' (choice, False))"

definition mirror_reasoning_in_chunk :: "jsv \<Rightarrow> jsv \<times> bool" where
  "mirror_reasoning_in_chunk obj =
     (case fld ''choices'' obj of
        JArr cs \<Rightarrow>
          let rs = map mirror_choice cs
          in (set_fld ''choices'' (JArr (map fst rs)) obj, list_ex snd rs)
      | _ \<Rightarrow> (obj, False))"

subsection \<open>Lines and bodies\<close>

definition mirror_reasoning_line :: "string \<Rightarrow> string" where
  "mirror_reasoning_line line =
     (if length line > max_mirror_line \<or> \<not> starts_with line ''data:'' then line
      else
        let payload = trim (drop 5 line)
        in if \<not> starts_with payload ''{'' \<or> \<not> str_includes payload ''reasoning_content'' then line
           else (case json_parse payload of
                   None \<Rightarrow> line
                 | Some obj \<Rightarrow>
                     (case mirror_reasoning_in_chunk obj of
                        (v, changed) \<Rightarrow> if changed then ''data: '' @ json_text v else line)))"

definition mirror_reasoning_json :: "string \<Rightarrow> string" where
  "mirror_reasoning_json s =
     (if utf8_length s > max_mirror_body \<or> \<not> str_includes s ''reasoning_content'' then s
      else (case json_parse s of
              None \<Rightarrow> s
            | Some obj \<Rightarrow> (case mirror_reasoning_in_chunk obj of (v, changed) \<Rightarrow> if changed then json_text v else s)))"

record mirror =
  rm_sse :: bool
  rm_buffer :: string
  rm_bytes :: nat
  rm_skipping :: bool
  rm_passthrough :: bool

definition new_mirror :: "bool \<Rightarrow> mirror" where
  "new_mirror sse = \<lparr>rm_sse = sse, rm_buffer = [], rm_bytes = 0, rm_skipping = False, rm_passthrough = False\<rparr>"

definition mirror_crlf_line :: "string \<Rightarrow> string" where
  "mirror_crlf_line line =
     (if line \<noteq> [] \<and> last line = CHR 0x0D then mirror_reasoning_line (butlast line) @ [CHR 0x0D]
      else mirror_reasoning_line line)"

definition mirror_lines :: "string list \<Rightarrow> string" where
  "mirror_lines ls = concat (map (\<lambda>l. mirror_crlf_line l @ [CHR 0x0A]) ls)"

definition mirror_rest :: "string \<Rightarrow> mirror \<Rightarrow> string \<times> mirror" where
  "mirror_rest s m =
     (let lines = lines_of (rm_buffer m @ s); buffer = last lines; out = mirror_lines (butlast lines)
      in if length buffer > max_mirror_line
         then (out @ buffer, m\<lparr>rm_buffer := [], rm_skipping := True\<rparr>) else (out, m\<lparr>rm_buffer := buffer\<rparr>))"

definition mirror_feed_sse :: "string \<Rightarrow> mirror \<Rightarrow> string \<times> mirror" where
  "mirror_feed_sse s m =
     (if rm_skipping m then
        (case index_of s (CHR 0x0A) of
           None \<Rightarrow> (s, m)
         | Some i \<Rightarrow>
             (case mirror_rest (drop (Suc i) s) (m\<lparr>rm_skipping := False\<rparr>) of (out, m1) \<Rightarrow> (take (Suc i) s @ out, m1)))
      else mirror_rest s m)"

definition mirror_feed :: "string \<Rightarrow> mirror \<Rightarrow> string \<times> mirror" where
  "mirror_feed s m =
     (if rm_passthrough m then (s, m)
      else if \<not> rm_sse m then
        let m1 = m\<lparr>rm_buffer := rm_buffer m @ s, rm_bytes := rm_bytes m + utf8_length s\<rparr>
        in if rm_bytes m1 > max_mirror_body then (rm_buffer m1, m1\<lparr>rm_buffer := [], rm_passthrough := True\<rparr>) else ([], m1)
      else mirror_feed_sse s m)"

definition mirror_finish :: "mirror \<Rightarrow> string" where
  "mirror_finish m =
     (if rm_passthrough m then []
      else if \<not> rm_sse m then mirror_reasoning_json (rm_buffer m)
      else (case (if rm_skipping m then ([], m) else mirror_feed_sse [] m) of
              (out, m1) \<Rightarrow> out @ (if rm_buffer m1 \<noteq> [] then mirror_crlf_line (rm_buffer m1) else [])))"

fun mirror_run :: "mirror \<Rightarrow> string list \<Rightarrow> string" where
  "mirror_run m [] = mirror_finish m"
| "mirror_run m (c # cs) = (case mirror_feed c m of (out, m1) \<Rightarrow> out @ mirror_run m1 cs)"

subsection \<open>What is mirrored\<close>

text \<open>A member that carries reasoning ends with it under both names, unless the upstream set them; nothing else changes.\<close>

lemma mirrored_member:
  assumes "fld ''reasoning_content'' part = JStr t" "mirror_reasoning_into part = (v, changed)"
  shows "fld ''reasoning'' v = (if fld ''reasoning'' part \<in> {JUndef, JNull} then JStr t else fld ''reasoning'' part)"
    "fld ''reasoning_details'' v =
      (if t \<noteq> [] \<and> fld ''reasoning_details'' part = JUndef then JArr [reasoning_detail t] else fld ''reasoning_details'' part)"
    "k \<notin> {''reasoning'', ''reasoning_details''} \<Longrightarrow> fld k v = fld k part"
    "\<not> changed \<Longrightarrow> v = part"
proof -
  have o: "is_obj part" using assms(1) by (cases part) auto
  have v: "v = fst (mirror_reasoning_into part)" "changed = snd (mirror_reasoning_into part)" using assms(2) by simp_all
  show "fld ''reasoning'' v = (if fld ''reasoning'' part \<in> {JUndef, JNull} then JStr t else fld ''reasoning'' part)"
    unfolding v by (simp add: mirror_reasoning_into_def assms(1) Let_def fld_set_fld o)
  show "fld ''reasoning_details'' v =
      (if t \<noteq> [] \<and> fld ''reasoning_details'' part = JUndef then JArr [reasoning_detail t] else fld ''reasoning_details'' part)"
    unfolding v by (simp add: mirror_reasoning_into_def assms(1) Let_def fld_set_fld o)
  show "k \<notin> {''reasoning'', ''reasoning_details''} \<Longrightarrow> fld k v = fld k part"
    unfolding v by (simp add: mirror_reasoning_into_def assms(1) Let_def fld_set_fld o)
  show "\<not> changed \<Longrightarrow> v = part"
    unfolding v by (auto simp: mirror_reasoning_into_def assms(1) Let_def)
qed

lemma mirror_twice: "mirror_reasoning_into (fst (mirror_reasoning_into part)) = (fst (mirror_reasoning_into part), False)"
proof (cases "fld ''reasoning_content'' part")
  case (JStr t)
  obtain v changed where v: "mirror_reasoning_into part = (v, changed)" by force
  note m = mirrored_member [OF JStr v]
  have "fld ''reasoning_content'' v = JStr t" using m(3) [of "''reasoning_content''"] JStr by simp
  moreover have "fld ''reasoning'' v \<noteq> JUndef" "fld ''reasoning'' v \<noteq> JNull" unfolding m(1) by auto
  moreover have "t = [] \<or> fld ''reasoning_details'' v \<noteq> JUndef" unfolding m(2) by auto
  ultimately have "mirror_reasoning_into v = (v, False)" by (auto simp: mirror_reasoning_into_def)
  then show ?thesis by (simp add: v)
qed (auto simp: mirror_reasoning_into_def)

subsection \<open>Chunks do not matter\<close>

lemma mirror_lines_append [simp]: "mirror_lines (ls @ ms) = mirror_lines ls @ mirror_lines ms"
  by (simp add: mirror_lines_def)

lemma mirror_empty_line [simp]: "mirror_crlf_line [] = []"
  by (simp add: mirror_crlf_line_def mirror_reasoning_line_def starts_with_def)

text \<open>All lines but the last are followed by a newline.\<close>

definition mirror_text :: "string \<Rightarrow> string" where
  "mirror_text s = mirror_lines (butlast (lines_of s)) @ mirror_crlf_line (last (lines_of s))"

lemma mirror_text_cut:
  "mirror_text (x @ y) = mirror_lines (butlast (lines_of x)) @ mirror_text (last (lines_of x) @ y)"
  by (simp add: mirror_text_def split_char_cut [of _ x y] butlast_append)

lemma mirror_run_text:
  assumes "rm_sse m" "\<not> rm_skipping m" "\<not> rm_passthrough m" "CHR 0x0A \<notin> set (rm_buffer m)"
    "short_lines max_mirror_line (rm_buffer m @ concat cs)"
  shows "mirror_run m cs = mirror_text (rm_buffer m @ concat cs)"
  using assms
proof (induction cs arbitrary: m)
  case Nil
  have "length (rm_buffer m) \<le> max_mirror_line"
    using Nil.prems by (simp add: short_lines_def split_char_none)
  then show ?case
    using Nil.prems
    by (simp add: mirror_finish_def mirror_feed_sse_def mirror_rest_def mirror_text_def split_char_none mirror_lines_def)
next
  case (Cons c cs)
  let ?x = "rm_buffer m @ c"
  have short: "short_lines max_mirror_line (?x @ concat cs)" using Cons.prems(5) by simp
  note rest = short_lines_cut [OF short]
  have feed: "mirror_feed c m = (mirror_lines (butlast (lines_of ?x)), m\<lparr>rm_buffer := last (lines_of ?x)\<rparr>)"
    using Cons.prems(1-3) rest(2) by (simp add: mirror_feed_def mirror_feed_sse_def mirror_rest_def Let_def)
  have "mirror_run (m\<lparr>rm_buffer := last (lines_of ?x)\<rparr>) cs = mirror_text (last (lines_of ?x) @ concat cs)"
    using Cons.IH [of "m\<lparr>rm_buffer := last (lines_of ?x)\<rparr>"] Cons.prems(1-3) rest(1) last_line by simp
  then show ?case using mirror_text_cut [of ?x "concat cs"] by (simp add: feed)
qed

lemma utf8_length_append: "utf8_length (s @ t) = utf8_length s + utf8_length t"
  by (simp add: utf8_length_def)

lemma mirror_run_passthrough: "rm_passthrough m \<Longrightarrow> mirror_run m cs = concat cs"
  by (induction cs) (simp_all add: mirror_finish_def mirror_feed_def)

lemma mirror_run_body:
  assumes "\<not> rm_sse m" "\<not> rm_passthrough m" "rm_bytes m = utf8_length (rm_buffer m)" "rm_bytes m \<le> max_mirror_body"
  shows "mirror_run m cs = mirror_reasoning_json (rm_buffer m @ concat cs)"
  using assms
proof (induction cs arbitrary: m)
  case Nil
  then show ?case by (simp add: mirror_finish_def)
next
  case (Cons c cs)
  show ?case
  proof (cases "rm_bytes m + utf8_length c > max_mirror_body")
    case True
    then have "utf8_length (rm_buffer m @ concat (c # cs)) > max_mirror_body"
      using Cons.prems(3) by (simp add: utf8_length_append)
    then have raw: "mirror_reasoning_json (rm_buffer m @ concat (c # cs)) = rm_buffer m @ concat (c # cs)"
      unfolding mirror_reasoning_json_def by simp
    show ?thesis
      unfolding raw using True Cons.prems(1,2) mirror_run_passthrough by (simp add: mirror_feed_def Let_def)
  next
    case False
    then show ?thesis
      using Cons.IH [of "m\<lparr>rm_buffer := rm_buffer m @ c, rm_bytes := rm_bytes m + utf8_length c\<rparr>"] Cons.prems
      by (simp add: mirror_feed_def Let_def utf8_length_append)
  qed
qed

text \<open>However an answer is cut into chunks, the mirrored answer is the same: a stream with no line over the limit is its
  lines, each mirrored by itself, and a whole body is mirrored once, or sent as it came when it is over its limit.\<close>

theorem mirror_any_chunking:
  assumes "sse \<Longrightarrow> short_lines max_mirror_line (concat cs)"
  shows "mirror_run (new_mirror sse) cs =
    (if sse then str_join [CHR 0x0A] (map mirror_crlf_line (lines_of (concat cs))) else mirror_reasoning_json (concat cs))"
proof (cases sse)
  case True
  have join: "str_join [CHR 0x0A] (map f ls) = concat (map (\<lambda>l. f l @ [CHR 0x0A]) (butlast ls)) @ f (last ls)"
    if "ls \<noteq> []" for f :: "string \<Rightarrow> string" and ls
  proof -
    have "concat (map (\<lambda>v. CHR 0x0A # f v) ls) = CHR 0x0A # concat (map (\<lambda>l. f l @ [CHR 0x0A]) (butlast ls)) @ f (last ls)"
      if "ls \<noteq> []" for ls using that by (induction ls) auto
    then show ?thesis using that by (cases ls) (auto simp: str_join_def comp_def)
  qed
  show ?thesis
    using mirror_run_text [of "new_mirror sse" cs] assms True join [of "lines_of (concat cs)" mirror_crlf_line]
    by (simp add: new_mirror_def mirror_text_def mirror_lines_def)
next
  case False
  then show ?thesis
    using mirror_run_body [of "new_mirror sse" cs] by (simp add: new_mirror_def utf8_length_def)
qed

definition demo_mirror_json :: string where
  "demo_mirror_json = ''{\"choices\":[{\"delta\":{\"reasoning_content\":\"hm\"}}]}''"

definition demo_mirrored :: jsv where
  "demo_mirrored = JObj [(''choices'', JArr [JObj [(''delta'',
     JObj [(''reasoning_content'', JStr ''hm''), (''reasoning'', JStr ''hm''),
       (''reasoning_details'', JArr [reasoning_detail ''hm''])])]])]"

theorem mirror_any_chunking_witness:
  "mirror_run (new_mirror True) [''data: {'', tl demo_mirror_json] = ''data: '' @ json_text demo_mirrored"
proof -
  let ?line = "''data: '' @ demo_mirror_json" and ?cs = "[''data: {'', tl demo_mirror_json]"
  have whole: "concat ?cs = ?line" by (simp add: demo_mirror_json_def)
  have "length ?line < 200" by (simp add: demo_mirror_json_def)
  then have small: "length ?line \<le> max_mirror_line" unfolding max_mirror_line_def by linarith
  then have "short_lines max_mirror_line (concat ?cs)" unfolding whole by (rule short_text)
  then have run: "mirror_run (new_mirror True) ?cs = str_join [CHR 0x0A] (map mirror_crlf_line (lines_of ?line))"
    using mirror_any_chunking [of True ?cs] unfolding whole by (simp only: if_True)
  have parts: "starts_with ?line ''data:''" "trim (drop 5 ?line) = demo_mirror_json" "starts_with demo_mirror_json ''{''"
      "str_includes demo_mirror_json ''reasoning_content''" "last ?line \<noteq> CHR 0x0D"
      "lines_of ?line = [?line]" by code_simp+
  have "map_option mirror_reasoning_in_chunk (json_parse demo_mirror_json) = Some (demo_mirrored, True)" by code_simp
  then obtain obj where "json_parse demo_mirror_json = Some obj" "mirror_reasoning_in_chunk obj = (demo_mirrored, True)"
    by blast
  then have "mirror_crlf_line ?line = ''data: '' @ json_text demo_mirrored"
    using small parts(1-5) unfolding mirror_crlf_line_def mirror_reasoning_line_def Let_def
    by (simp del: json_text.simps append_Cons)
  then show ?thesis unfolding run parts(6) by (simp add: str_join_def del: json_text.simps append_Cons)
qed

end
