(* ===== verification/VeniceCitations.thy ===== *)
theory VeniceCitations
  imports TextLines ChatFrames ReasoningMirror
begin

text \<open>
  \<open>enclave/src/veniceCitations.mjs\<close>: the frame with the citations of a Venice search becomes an annotations delta, and
  the searches it gives evidence of are counted. A chunk is its decoded text.
\<close>

subsection \<open>One frame\<close>

definition max_venice_line :: nat where "max_venice_line = 1000000"
definition max_venice_body :: nat where "max_venice_body = 16000000"

definition venice_payload :: "string \<Rightarrow> string" where
  "venice_payload line = (if starts_with line ''data:'' then trim (drop 5 line) else trim line)"

definition parse_venice_citations :: "string \<Rightarrow> jsv list option" where
  "parse_venice_citations line =
     (if \<not> str_includes line ''venice_parameters'' then None
      else
        let payload = venice_payload line
        in if payload = ''[DONE]'' \<or> payload = [] then None
           else (case json_parse payload of
                   None \<Rightarrow> None
                 | Some parsed \<Rightarrow>
                     let vp = fld ''venice_parameters'' parsed
                     in if typeof_object vp then Some (filter typeof_object (elems (fld ''web_search_citations'' vp))) else None))"

definition count_venice_searches :: "jsv list option \<Rightarrow> nat" where
  "count_venice_searches citations = (case citations of Some (c # cs) \<Rightarrow> 1 | _ \<Rightarrow> 0)"

definition non_empty_field :: "string \<Rightarrow> jsv \<Rightarrow> js_fields" where
  "non_empty_field k c = (case fld k c of JStr s \<Rightarrow> if s \<noteq> [] then [(k, JStr s)] else [] | _ \<Rightarrow> [])"

definition to_annotations :: "jsv list \<Rightarrow> jsv list" where
  "to_annotations citations =
     map (\<lambda>c. JObj [(''type'', JStr ''url_citation''),
        (''url_citation'', JObj ((''url'', fld ''url'' c) # non_empty_field ''title'' c @ non_empty_field ''content'' c))])
      (filter (\<lambda>c. non_empty_field ''url'' c \<noteq> []) citations)"

definition annotations_frame :: "jsv \<Rightarrow> jsv list \<Rightarrow> jsv" where
  "annotations_frame parsed annotations =
     JObj [(''id'', fld ''id'' parsed), (''object'', nullish (fld ''object'' parsed) (JStr ''chat.completion.chunk'')),
       (''created'', fld ''created'' parsed), (''model'', fld ''model'' parsed),
       (''choices'', JArr [JObj [(''index'', jint 0), (''delta'', JObj [(''annotations'', JArr annotations)]),
          (''logprobs'', JNull), (''finish_reason'', JNull)]])]"

definition translate_venice_line :: "string \<Rightarrow> string option" where
  "translate_venice_line line =
     (case parse_venice_citations line of
        None \<Rightarrow> Some line
      | Some citations \<Rightarrow>
          if citations = [] then None
          else (case json_parse (venice_payload line) of
                  None \<Rightarrow> Some line
                | Some parsed \<Rightarrow>
                    let annotations = to_annotations citations
                    in if annotations = [] then None else Some (''data: '' @ json_text (annotations_frame parsed annotations))))"

definition annotate_choice :: "jsv list \<Rightarrow> jsv \<Rightarrow> jsv" where
  "annotate_choice annotations choice =
     (let message = fld ''message'' choice
      in if typeof_object message \<and> elems (fld ''annotations'' message) = []
         then set_fld ''message'' (set_fld ''annotations'' (JArr annotations) message) choice else choice)"

definition translate_venice_body :: "string \<Rightarrow> string \<times> nat" where
  "translate_venice_body body =
     (if \<not> str_includes body ''venice_parameters'' then (body, 0)
      else (case json_parse body of
        None \<Rightarrow> (body, 0)
      | Some parsed \<Rightarrow>
          let vp = fld ''venice_parameters'' parsed
          in if \<not> is_obj vp then (body, 0)
             else
               let cites = filter typeof_object (elems (fld ''web_search_citations'' vp));
                   annotations = to_annotations cites;
                   annotated =
                     (case fld ''choices'' parsed of
                        JArr cs \<Rightarrow>
                          if annotations \<noteq> [] then set_fld ''choices'' (JArr (map (annotate_choice annotations) cs)) parsed else parsed
                      | _ \<Rightarrow> parsed)
               in (json_text (del_fld ''venice_parameters'' annotated), count_venice_searches (Some cites))))"

subsection \<open>The translator\<close>

record venice =
  vt_sse :: bool
  vt_carry :: string
  vt_searches :: nat
  vt_held :: string
  vt_passthrough :: bool

definition new_venice :: "bool \<Rightarrow> venice" where
  "new_venice sse = \<lparr>vt_sse = sse, vt_carry = [], vt_searches = 0, vt_held = [], vt_passthrough = False\<rparr>"

definition venice_line :: "string \<Rightarrow> nat \<Rightarrow> string option \<times> nat" where
  "venice_line line searches =
     (if trim line = [] \<or> length line > max_venice_line then (Some line, searches)
      else (translate_venice_line line, searches + count_venice_searches (parse_venice_citations line)))"

text \<open>The loop over the complete lines of a chunk: what is kept, and the searches.\<close>

fun venice_lines :: "bool \<Rightarrow> string list \<Rightarrow> nat \<Rightarrow> string list \<times> nat" where
  "venice_lines dropped [] n = ([], n)"
| "venice_lines dropped (l # ls) n =
     (if dropped \<and> trim l = [] then venice_lines False ls n
      else (case venice_line l n of
              (None, n1) \<Rightarrow> venice_lines True ls n1
            | (Some out, n1) \<Rightarrow> (case venice_lines False ls n1 of (kept, n2) \<Rightarrow> (out # kept, n2))))"

definition venice_feed :: "string \<Rightarrow> venice \<Rightarrow> string \<times> venice" where
  "venice_feed s v =
     (if \<not> vt_sse v then
        if vt_passthrough v then (s, v)
        else
          let held = vt_held v @ s
          in if utf8_length held > max_venice_body then (held, v\<lparr>vt_held := [], vt_passthrough := True\<rparr>)
             else ([], v\<lparr>vt_held := held\<rparr>)
      else
        let lines = lines_of (vt_carry v @ s); carry = last lines
        in if butlast lines = []
           then if length carry \<le> max_venice_line then ([], v\<lparr>vt_carry := carry\<rparr>) else (carry, v\<lparr>vt_carry := []\<rparr>)
           else (case venice_lines False (butlast lines) (vt_searches v) of
                   (kept, n) \<Rightarrow>
                     (if kept = [] then [] else str_join [CHR 0x0A] kept @ [CHR 0x0A], v\<lparr>vt_carry := carry, vt_searches := n\<rparr>)))"

definition venice_finish :: "venice \<Rightarrow> string \<times> nat" where
  "venice_finish v =
     (if \<not> vt_sse v then
        if vt_passthrough v \<or> vt_held v = [] then ([], vt_searches v)
        else (case translate_venice_body (vt_held v) of (body, n) \<Rightarrow> (body, vt_searches v + n))
      else if vt_carry v = [] then ([], vt_searches v)
      else (case venice_line (vt_carry v) (vt_searches v) of
              (None, n) \<Rightarrow> ([], n) | (Some out, n) \<Rightarrow> (out, n)))"

fun venice_run :: "venice \<Rightarrow> string list \<Rightarrow> string \<times> nat" where
  "venice_run v [] = venice_finish v"
| "venice_run v (c # cs) =
     (case venice_feed c v of (out, v1) \<Rightarrow> case venice_run v1 cs of (rest, n) \<Rightarrow> (out @ rest, n))"

subsection \<open>Chunks do not matter\<close>

definition shown_lines :: "string list \<Rightarrow> string list" where
  "shown_lines ls = filter (\<lambda>l. trim l \<noteq> []) ls"

definition line_searches :: "string \<Rightarrow> nat" where
  "line_searches l = (if trim l = [] then 0 else count_venice_searches (parse_venice_citations l))"

definition translated :: "string list \<Rightarrow> string list" where
  "translated ls = List.map_filter translate_venice_line (shown_lines ls)"

lemma shown_simps [simp]:
  "shown_lines [] = []" "shown_lines (l # ls) = (if trim l = [] then shown_lines ls else l # shown_lines ls)"
  "shown_lines (ls @ ms) = shown_lines ls @ shown_lines ms"
  by (simp_all add: shown_lines_def)

lemma map_filter_append: "List.map_filter f (xs @ ys) = List.map_filter f xs @ List.map_filter f ys"
  by (simp add: List.map_filter_def)

lemma translated_append [simp]: "translated (ls @ ms) = translated ls @ translated ms"
  by (simp add: translated_def map_filter_append)

lemma translated_shape:
  assumes "translate_venice_line l = Some out" "trim l \<noteq> []" "CHR 0x0A \<notin> set l"
  shows "trim out \<noteq> [] \<and> CHR 0x0A \<notin> set out"
proof (cases "out = l")
  case False
  then obtain parsed a where "out = ''data: '' @ json_text (annotations_frame parsed a)"
    using assms(1) by (auto simp: translate_venice_line_def Let_def simp del: json_text.simps split: option.splits if_splits)
  moreover obtain v where "annotations_frame parsed a = JObj v" by (simp add: annotations_frame_def)
  ultimately have v: "out = ''data: '' @ json_text (JObj v)" by simp
  have "CHR 0x0A \<notin> set (json_text (JObj v))"
    using frame_data_shape [of "Frame v"] unfolding frame_data_def frame.case by blast
  then show ?thesis unfolding v by (simp add: trim_def is_space_def dropWhile_append del: json_text.simps)
qed (use assms in simp)

lemma venice_lines_translated:
  assumes "venice_lines dropped ls n = (kept, m)" "\<forall>l \<in> set ls. CHR 0x0A \<notin> set l \<and> length l \<le> max_venice_line"
  shows "shown_lines kept = translated ls \<and> m = n + sum_list (map line_searches ls) \<and> (\<forall>l \<in> set kept. CHR 0x0A \<notin> set l)"
  using assms
proof (induction ls arbitrary: dropped n kept)
  case Nil
  then show ?case by (simp add: translated_def List.map_filter_simps)
next
  case (Cons l ls)
  have short: "length l \<le> max_venice_line" "CHR 0x0A \<notin> set l" using Cons.prems(2) by simp_all
  have rest: "\<forall>l \<in> set ls. CHR 0x0A \<notin> set l \<and> length l \<le> max_venice_line" using Cons.prems(2) by simp
  show ?case
  proof (cases "trim l = []")
    case True
    then obtain k1 where "venice_lines False ls n = (k1, m)" "kept = k1 \<or> kept = l # k1"
      using Cons.prems(1) by (auto simp: venice_line_def split: if_splits prod.splits)
    then show ?thesis
      using Cons.IH [OF _ rest] True short(2) by (auto simp: translated_def line_searches_def List.map_filter_simps)
  next
    case False
    let ?n = "n + line_searches l"
    have line: "venice_line l n = (translate_venice_line l, ?n)"
      using False short(1) by (simp add: venice_line_def line_searches_def)
    show ?thesis
    proof (cases "translate_venice_line l")
      case None
      then have "venice_lines True ls ?n = (kept, m)" using Cons.prems(1) False line by simp
      then show ?thesis
        using Cons.IH [OF _ rest, of True ?n kept] False None by (auto simp: translated_def List.map_filter_simps)
    next
      case (Some out)
      then obtain k1 where k: "venice_lines False ls ?n = (k1, m)" "kept = out # k1"
        using Cons.prems(1) False line by (auto split: prod.splits)
      then show ?thesis
        using Cons.IH [OF k(1) rest] translated_shape [OF Some False short(2)] False Some
        by (auto simp: translated_def List.map_filter_simps)
    qed
  qed
qed

lemma lines_of_joined:
  assumes "\<forall>l \<in> set ls. CHR 0x0A \<notin> set l"
  shows "lines_of ((if ls = [] then [] else str_join [CHR 0x0A] ls @ [CHR 0x0A]) @ rest) = ls @ lines_of rest"
  using assms
proof (induction ls)
  case (Cons l ls)
  have "str_join [CHR 0x0A] (l # ls) @ [CHR 0x0A] =
      l @ CHR 0x0A # (if ls = [] then [] else str_join [CHR 0x0A] ls @ [CHR 0x0A])"
    by (cases ls) (simp_all add: str_join_def)
  then show ?case using Cons split_char_append [of "CHR 0x0A" l] by simp
qed simp

lemma venice_run_lines:
  assumes "vt_sse v" "CHR 0x0A \<notin> set (vt_carry v)" "short_lines max_venice_line (vt_carry v @ concat cs)"
    "venice_run v cs = (out, n)"
  shows "shown_lines (lines_of out) = translated (lines_of (vt_carry v @ concat cs)) \<and>
    n = vt_searches v + sum_list (map line_searches (lines_of (vt_carry v @ concat cs)))"
  using assms
proof (induction cs arbitrary: v out n)
  case Nil
  let ?l = "vt_carry v"
  have one: "lines_of ?l = [?l]" using Nil.prems(2) by (rule split_char_none)
  have len: "length ?l \<le> max_venice_line" using Nil.prems(3) one by (simp add: short_lines_def)
  have fin: "venice_finish v = (out, n)" using Nil.prems(4) by simp
  show ?case
  proof (cases "trim ?l = []")
    case True
    then have "out = ?l" "n = vt_searches v"
      using fin Nil.prems(1) by (auto simp: venice_finish_def venice_line_def split: if_splits)
    then show ?thesis using True one by (simp add: translated_def line_searches_def List.map_filter_simps)
  next
    case False
    then have line: "venice_line ?l (vt_searches v) = (translate_venice_line ?l, vt_searches v + line_searches ?l)"
      using len by (simp add: venice_line_def line_searches_def)
    have "?l \<noteq> []" using False by (auto simp: trim_def)
    then have out: "out = (case translate_venice_line ?l of None \<Rightarrow> [] | Some w \<Rightarrow> w)" "n = vt_searches v + line_searches ?l"
      using fin Nil.prems(1) line by (auto simp: venice_finish_def split: option.splits)
    have "shown_lines (lines_of out) = translated [?l]"
    proof (cases "translate_venice_line ?l")
      case None
      then show ?thesis by (simp add: out(1) translated_def List.map_filter_simps trim_def)
    next
      case (Some w)
      then show ?thesis
        using translated_shape [OF Some False Nil.prems(2)] False split_char_none [of "CHR 0x0A" w]
        by (simp add: out(1) translated_def List.map_filter_simps)
    qed
    then show ?thesis by (simp add: one out(2))
  qed
next
  case (Cons c cs)
  let ?x = "vt_carry v @ c"
  have short: "short_lines max_venice_line (?x @ concat cs)" using Cons.prems(3) by simp
  note carry = short_lines_cut [OF short]
  let ?v = "\<lambda>m. v\<lparr>vt_carry := last (lines_of ?x), vt_searches := m\<rparr>"
  have later: "shown_lines (lines_of o2) = translated (lines_of (last (lines_of ?x) @ concat cs)) \<and>
      k = m + sum_list (map line_searches (lines_of (last (lines_of ?x) @ concat cs)))"
    if "venice_run (?v m) cs = (o2, k)" for m o2 k
    using Cons.IH [of "?v m" o2 k] that Cons.prems(1) last_line carry(1) by simp
  have whole: "lines_of (vt_carry v @ concat (c # cs)) = butlast (lines_of ?x) @ lines_of (last (lines_of ?x) @ concat cs)"
    using split_char_cut [of _ ?x "concat cs"] by simp
  have clean: "\<forall>l \<in> set (butlast (lines_of ?x)). CHR 0x0A \<notin> set l \<and> length l \<le> max_venice_line"
  proof
    fix l assume "l \<in> set (butlast (lines_of ?x))"
    then have "l \<in> set (lines_of ?x)" "l \<in> set (lines_of (?x @ concat cs))"
      unfolding split_char_cut [of _ ?x "concat cs"] by (auto dest: in_set_butlastD)
    then show "CHR 0x0A \<notin> set l \<and> length l \<le> max_venice_line"
      using short split_char_no_sep by (auto simp: short_lines_def list_all_iff)
  qed
  obtain kept m where k: "venice_lines False (butlast (lines_of ?x)) (vt_searches v) = (kept, m)" by force
  note kept = venice_lines_translated [OF k clean]
  have feed: "venice_feed c v = (if kept = [] then [] else str_join [CHR 0x0A] kept @ [CHR 0x0A], ?v m)"
  proof (cases "butlast (lines_of ?x) = []")
    case True
    then show ?thesis using k carry(2) Cons.prems(1) by (simp add: venice_feed_def Let_def)
  next
    case False
    then show ?thesis using k Cons.prems(1) by (simp add: venice_feed_def Let_def)
  qed
  obtain o2 where o2: "venice_run (?v m) cs = (o2, n)" "out = (if kept = [] then [] else str_join [CHR 0x0A] kept @ [CHR 0x0A]) @ o2"
    using Cons.prems(4) by (auto simp: feed split: prod.splits)
  have "lines_of out = kept @ lines_of o2" using kept lines_of_joined unfolding o2(2) by blast
  then show ?case using later [OF o2(1)] kept unfolding whole by simp
qed

lemma venice_run_passthrough: "\<not> vt_sse v \<Longrightarrow> vt_passthrough v \<Longrightarrow> venice_run v cs = (concat cs, vt_searches v)"
  by (induction cs) (simp_all add: venice_finish_def venice_feed_def)

lemma venice_run_body:
  assumes "\<not> vt_sse v" "\<not> vt_passthrough v" "utf8_length (vt_held v) \<le> max_venice_body" "vt_searches v = 0"
  shows "venice_run v cs = (let body = vt_held v @ concat cs
    in if utf8_length body > max_venice_body then (body, 0) else translate_venice_body body)"
  using assms
proof (induction cs arbitrary: v)
  case Nil
  have empty: "translate_venice_body [] = ([], 0)" by (simp add: translate_venice_body_def)
  show ?case
    using Nil.prems by (cases "translate_venice_body (vt_held v)") (auto simp: venice_finish_def empty Let_def)
next
  case (Cons c cs)
  show ?case
  proof (cases "utf8_length (vt_held v @ c) > max_venice_body")
    case True
    then have "utf8_length (vt_held v @ concat (c # cs)) > max_venice_body" by (simp add: utf8_length_append)
    then show ?thesis
      using True Cons.prems(1,2,4) venice_run_passthrough [of "v\<lparr>vt_held := [], vt_passthrough := True\<rparr>" cs]
      by (simp add: venice_feed_def Let_def)
  next
    case False
    then show ?thesis
      using Cons.IH [of "v\<lparr>vt_held := vt_held v @ c\<rparr>"] Cons.prems by (simp add: venice_feed_def Let_def)
  qed
qed

text \<open>However a Venice answer is cut into chunks, the searches reported for the bill are the same and the client reads the
  same: of a stream with no line over the limit, one search per frame with citations and, blank lines aside, the
  lines in order, each translated or dropped; of a whole body, one translation, or the body as it came over its limit.\<close>

theorem venice_any_chunking:
  assumes "short_lines max_venice_line (concat cs)"
  shows "(case venice_run (new_venice True) cs of (out, n) \<Rightarrow>
      shown_lines (lines_of out) = translated (lines_of (concat cs)) \<and> n = sum_list (map line_searches (lines_of (concat cs))))
    \<and> venice_run (new_venice False) cs =
      (if utf8_length (concat cs) > max_venice_body then (concat cs, 0) else translate_venice_body (concat cs))"
proof (intro conjI)
  obtain out n where run: "venice_run (new_venice True) cs = (out, n)" by force
  show "case venice_run (new_venice True) cs of (out, n) \<Rightarrow>
      shown_lines (lines_of out) = translated (lines_of (concat cs)) \<and> n = sum_list (map line_searches (lines_of (concat cs)))"
    using venice_run_lines [OF _ _ _ run] assms unfolding run prod.case by (simp add: new_venice_def)
  show "venice_run (new_venice False) cs =
      (if utf8_length (concat cs) > max_venice_body then (concat cs, 0) else translate_venice_body (concat cs))"
    using venice_run_body [of "new_venice False" cs] by (simp add: new_venice_def utf8_length_def)
qed

definition demo_venice_line :: string where
  "demo_venice_line = ''data: '' @ json_text (JObj [(''venice_parameters'',
     JObj [(''web_search_citations'', JArr [JObj [(''url'', JStr ''u'')]])])])"

text \<open>A dropped frame whose blank line comes in the next chunk leaves that blank line behind.\<close>

definition demo_venice_empty :: string where
  "demo_venice_empty = ''data: '' @ json_text (JObj [(''venice_parameters'', JObj [])])"

lemma venice_blank_left:
  "fst (venice_run (new_venice True) [demo_venice_empty @ [CHR 0x0A, CHR 0x0A]]) = []"
  "fst (venice_run (new_venice True) [demo_venice_empty @ [CHR 0x0A], [CHR 0x0A]]) = [CHR 0x0A]"
proof -
  let ?e = demo_venice_empty
  have "length ?e < 200" by code_simp
  then have len: "length ?e \<le> max_venice_line" unfolding max_venice_line_def by linarith
  have e: "trim ?e \<noteq> []" "translate_venice_line ?e = None" "count_venice_searches (parse_venice_citations ?e) = 0"
    by code_simp+
  have "CHR 0x0A \<notin> set ?e" by code_simp
  note cut = split_char_append [OF this, of "[]"] split_char_append [OF this, of "[CHR 0x0A]"]
  have blank: "trim [] = []" by (simp add: trim_def)
  have line: "venice_line ?e 0 = (None, 0)" "venice_line [] 0 = (Some [], 0)"
    using len e blank by (simp_all add: venice_line_def)
  show "fst (venice_run (new_venice True) [?e @ [CHR 0x0A, CHR 0x0A]]) = []"
    by (simp add: venice_feed_def venice_finish_def new_venice_def cut line blank)
  show "fst (venice_run (new_venice True) [?e @ [CHR 0x0A], [CHR 0x0A]]) = [CHR 0x0A]"
    by (simp add: venice_feed_def venice_finish_def new_venice_def cut line blank str_join_def)
qed

theorem venice_any_chunking_witness:
  "snd (venice_run (new_venice True) [take 20 demo_venice_line, drop 20 demo_venice_line, [CHR 0x0A]]) = 1"
proof -
  let ?cs = "[take 20 demo_venice_line, drop 20 demo_venice_line, [CHR 0x0A]]"
  have "length (concat ?cs) < 200" by code_simp
  then have "length (concat ?cs) \<le> max_venice_line" unfolding max_venice_line_def by linarith
  then have "short_lines max_venice_line (concat ?cs)" by (rule short_text)
  from venice_any_chunking [OF this] have "snd (venice_run (new_venice True) ?cs) = sum_list (map line_searches (lines_of (concat ?cs)))"
    by (cases "venice_run (new_venice True) ?cs") (simp only: prod.case snd_conv)
  also have "\<dots> = 1" by code_simp
  finally show ?thesis .
qed

end
