(* ===== verification/ErrorBody.thy ===== *)
theory ErrorBody
  imports ReasoningMirror StreamRewrite
begin

text \<open>
  \<open>enclave/src/upstreamErrorBody.mjs\<close>: what is left of an upstream's error body when it reaches the client. A chunk is
  its decoded text. The bound on nesting that a deep body would hit is not modelled: the sanitizer does not throw.
\<close>

subsection \<open>Wording\<close>

definition max_error_body :: nat where "max_error_body = 256 * 1024"

text \<open>A match of a lower-case literal under the \<open>i\<close> flag, and what follows it.\<close>

definition after_ci :: "string \<Rightarrow> string \<Rightarrow> string option" where
  "after_ci p s = (if starts_with (lower s) p then Some (drop (length p) s) else None)"

definition skip_ci :: "string \<Rightarrow> string \<Rightarrow> string" where
  "skip_ci p s = (case after_ci p s of Some t \<Rightarrow> t | None \<Rightarrow> s)"

definition link_stop :: "char \<Rightarrow> bool" where
  "link_stop c \<longleftrightarrow> is_space c \<or> c \<in> {CHR 0x22, CHR 0x27, CHR '')'', CHR '']''}"

text \<open>\<open>/https?:\/\/(www\.)?openrouter\.ai[^\s"')\]]*[^\s"')\],.]*/i\<close> at one place: the first class is greedy, so the
  second one matches nothing.\<close>

definition after_link :: "string \<Rightarrow> string option" where
  "after_link s =
     (case after_ci ''http'' s of
        None \<Rightarrow> None
      | Some a \<Rightarrow>
          (case after_ci ''://'' (skip_ci ''s'' a) of
             None \<Rightarrow> None
           | Some b \<Rightarrow> map_option (dropWhile (\<lambda>c. \<not> link_stop c)) (after_ci ''openrouter.ai'' (skip_ci ''www.'' b))))"

lemma after_ci_shorter: "after_ci p s = Some t \<Longrightarrow> length t \<le> length s \<and> (p \<noteq> [] \<longrightarrow> length t < length s)"
proof -
  assume a: "after_ci p s = Some t"
  then have "starts_with (lower s) p" "t = drop (length p) s" by (auto simp: after_ci_def split: if_splits)
  moreover then have "length p \<le> length s"
    by (metis length_append length_lower le_add1 starts_with_iff)
  ultimately show ?thesis by (cases p) auto
qed

lemma skip_ci_shorter: "length (skip_ci p s) \<le> length s"
  using after_ci_shorter [of p s] by (auto simp: skip_ci_def split: option.split)

lemma after_link_shorter: "after_link s = Some t \<Longrightarrow> length t < length s"
proof -
  assume "after_link s = Some t"
  then obtain a b c where h: "after_ci ''http'' s = Some a" "after_ci ''://'' (skip_ci ''s'' a) = Some b"
      "after_ci ''openrouter.ai'' (skip_ci ''www.'' b) = Some c" "t = dropWhile (\<lambda>c. \<not> link_stop c) c"
    by (auto simp: after_link_def split: option.splits)
  have "length t \<le> length c" unfolding h(4) by (rule length_dropWhile_le)
  then show ?thesis
    using after_ci_shorter [OF h(1)] after_ci_shorter [OF h(2)] after_ci_shorter [OF h(3)]
      skip_ci_shorter [of "''s''" a] skip_ci_shorter [of "''www.''" b] by simp
qed

function remove_links :: "string \<Rightarrow> string" where
  "remove_links s =
     (case s of
        [] \<Rightarrow> []
      | c # r \<Rightarrow> (case after_link s of Some t \<Rightarrow> remove_links t | None \<Rightarrow> c # remove_links r))"
  by pat_completeness auto

termination
  by (relation "measure length") (auto dest: after_link_shorter)

declare remove_links.simps [simp del]

text \<open>\<open>s.replace(/literal/gi, r)\<close>.\<close>

function replace_ci :: "string \<Rightarrow> string \<Rightarrow> string \<Rightarrow> string" where
  "replace_ci n r s =
     (if n = [] \<or> s = [] then s
      else if starts_with (lower s) n then r @ replace_ci n r (drop (length n) s)
      else hd s # replace_ci n r (tl s))"
  by pat_completeness auto

termination
  by (relation "measure (\<lambda>(_, _, s). length s)") auto

declare replace_ci.simps [simp del]

definition blank_char :: "char \<Rightarrow> bool" where
  "blank_char c \<longleftrightarrow> c = CHR '' '' \<or> c = CHR 0x09"

text \<open>\<open>s.replace(/[ \t]{2,}/g, ' ')\<close> and the first match of \<open>/[ \t]+([,.)])/\<close>.\<close>

function collapse_blanks :: "string \<Rightarrow> string" where
  "collapse_blanks s =
     (case s of
        [] \<Rightarrow> []
      | c # r \<Rightarrow>
          if blank_char c \<and> r \<noteq> [] \<and> blank_char (hd r) then CHR '' '' # collapse_blanks (dropWhile blank_char r)
          else c # collapse_blanks r)"
  by pat_completeness auto

termination
  by (relation "measure length") (auto simp: less_Suc_eq_le intro: length_dropWhile_le)

declare collapse_blanks.simps [simp del]

fun tighten_punctuation :: "string \<Rightarrow> string" where
  "tighten_punctuation [] = []"
| "tighten_punctuation (c # s) =
     (case dropWhile blank_char s of
        p # r \<Rightarrow>
          if blank_char c \<and> p \<in> {CHR '','', CHR ''.'', CHR '')''} then p # r else c # tighten_punctuation s
      | [] \<Rightarrow> c # tighten_punctuation s)"

definition sanitize_upstream_wording :: "string \<Rightarrow> string" where
  "sanitize_upstream_wording s =
     tighten_punctuation (collapse_blanks
       (replace_ci ''openrouter'' ''AI Provider'' (replace_ci ''please refer to our docs:'' [] (remove_links s))))"

fun sanitize_wording_deep :: "jsv \<Rightarrow> jsv" where
  "sanitize_wording_deep (JStr s) = JStr (sanitize_upstream_wording s)"
| "sanitize_wording_deep (JArr xs) = JArr (map sanitize_wording_deep xs)"
| "sanitize_wording_deep (JObj kvs) = JObj (map (\<lambda>(k, v). (k, sanitize_wording_deep v)) kvs)"
| "sanitize_wording_deep v = v"

subsection \<open>The body\<close>

definition strip_provider_name :: "jsv \<Rightarrow> jsv" where
  "strip_provider_name holder =
     (if is_obj (fld ''metadata'' holder)
      then set_fld ''metadata'' (del_fld ''provider_name'' (fld ''metadata'' holder)) holder else holder)"

definition strip_upstream_identity :: "jsv \<Rightarrow> jsv" where
  "strip_upstream_identity parsed =
     (if \<not> is_obj parsed then parsed
      else
        let p = strip_provider_name (del_fld ''user_id'' parsed)
        in if is_obj (fld ''error'' p) then set_fld ''error'' (strip_provider_name (fld ''error'' p)) p else p)"

definition sanitize_upstream_error_body :: "string \<Rightarrow> string" where
  "sanitize_upstream_error_body s =
     (case json_parse s of
        None \<Rightarrow> sanitize_upstream_wording s
      | Some parsed \<Rightarrow> json_text (sanitize_wording_deep (strip_upstream_identity parsed)))"

definition generic_error_body :: "int \<Rightarrow> string" where
  "generic_error_body status =
     json_text (JObj [(''error'', JObj [(''message'', JStr ''upstream error''), (''code'', jint status)])])"

definition sanitized_error_body_buffer :: "string \<Rightarrow> int \<Rightarrow> string \<times> bool" where
  "sanitized_error_body_buffer body status =
     (if utf8_length body > max_error_body then (generic_error_body status, True) else (sanitize_upstream_error_body body, False))"

record error_stream =
  es_chunks :: string
  es_size :: nat
  es_overflow :: bool

definition error_chunk :: "string \<Rightarrow> error_stream \<Rightarrow> error_stream" where
  "error_chunk s e =
     (if es_overflow e then e
      else
        let e1 = e\<lparr>es_size := es_size e + utf8_length s\<rparr>
        in if es_size e1 > max_error_body then e1\<lparr>es_overflow := True, es_chunks := []\<rparr>
           else e1\<lparr>es_chunks := es_chunks e @ s\<rparr>)"

definition error_flush :: "int \<Rightarrow> error_stream \<Rightarrow> string" where
  "error_flush status e =
     (if es_overflow e then generic_error_body status else sanitize_upstream_error_body (es_chunks e))"

definition sanitized_error_stream :: "int \<Rightarrow> string list \<Rightarrow> string" where
  "sanitized_error_stream status cs = error_flush status (fold error_chunk cs \<lparr>es_chunks = [], es_size = 0, es_overflow = False\<rparr>)"

subsection \<open>The name is gone\<close>

definition names_openrouter :: "string \<Rightarrow> bool" where
  "names_openrouter s \<longleftrightarrow> str_includes (lower s) ''openrouter''"

fun brand_free :: "jsv \<Rightarrow> bool" where
  "brand_free (JStr s) = (\<not> names_openrouter s)"
| "brand_free (JArr xs) = (\<forall>x \<in> set xs. brand_free x)"
| "brand_free (JObj kvs) = (\<forall>kv \<in> set kvs. brand_free (snd kv))"
| "brand_free _ = True"

text \<open>A replacement that cannot take part in a needle: they do not overlap, and neither holds the other.\<close>

definition apart :: "string \<Rightarrow> string \<Rightarrow> bool" where
  "apart n r \<longleftrightarrow>
     list_all (\<lambda>m. m = [] \<or> \<not> prefix m r \<and> \<not> prefix r m) (suffixes n)
     \<and> list_all (\<lambda>m. m = [] \<or> \<not> prefix m n \<and> \<not> prefix n m) (suffixes r)"

lemma apart_suffix:
  assumes "apart n r" "suffix m n" "m \<noteq> []"
  shows "\<not> prefix m (r @ s)"
proof
  assume "prefix m (r @ s)"
  then have "prefix m r \<or> prefix r m" by (metis prefix_append prefix_def prefix_same_cases)
  then show False using assms by (auto simp: apart_def list_all_iff)
qed

lemma replaced_start:
  assumes "apart n r" "n \<noteq> []"
  shows "suffix m n \<Longrightarrow> prefix m (replace_all n r s) \<Longrightarrow> prefix m s"
proof (induction s arbitrary: m rule: scan_induct [OF assms(2)])
  case (2 s)
  then show ?case using apart_suffix [OF assms(1) 2(2)] assms(2) by (cases "m = []") auto
next
  case (3 c s)
  show ?case
  proof (cases m)
    case (Cons d m1)
    then have "d = c" "prefix m1 (replace_all n r s)" using 3 assms(2) by simp_all
    moreover have "suffix m1 n" using 3(3) Cons by (metis suffix_ConsD)
    ultimately show ?thesis using 3(2) Cons by simp
  qed simp
qed simp

lemma replaced_absent:
  assumes "apart n r" "n \<noteq> []"
  shows "\<not> str_includes (replace_all n r s) n"
proof (induction s rule: scan_induct [OF assms(2)])
  case 1
  show ?case using assms(2) by simp
next
  case (2 s)
  have "\<not> starts_with (t @ replace_all n r s) n" if "suffix t r" "t \<noteq> []" for t
  proof
    assume "starts_with (t @ replace_all n r s) n"
    then have "prefix n (t @ replace_all n r s)" by (auto simp: starts_with_iff prefix_def)
    then have "prefix n t \<or> prefix t n" by (metis prefix_append prefix_def prefix_same_cases)
    then show False using that assms(1) by (auto simp: apart_def list_all_iff)
  qed
  note start = this
  have "suffix t r \<Longrightarrow> \<not> str_includes (t @ replace_all n r s) n" for t
  proof (induction t)
    case (Cons a t)
    then show ?case using start [of "a # t"] by (auto dest: suffix_ConsD)
  qed (use 2 in simp)
  then show ?case using assms(2) by simp
next
  case (3 c s)
  have "\<not> starts_with (c # replace_all n r s) n"
  proof
    assume "starts_with (c # replace_all n r s) n"
    then obtain m where m: "n = c # m" "prefix m (replace_all n r s)"
      using assms(2) by (cases n) (auto simp: starts_with_iff prefix_def)
    have "prefix m s" using replaced_start [OF assms, of m s] m by (simp add: suffix_Cons)
    then show False using 3(1) m(1) by simp
  qed
  then show ?case using 3 assms(2) by simp
qed

lemma lower_append [simp]: "lower (s @ t) = lower s @ lower t" "lower (drop k s) = drop k (lower s)"
  by (simp_all add: lower_def drop_map)

lemma replace_ci_lower: "lower (replace_ci n r s) = replace_all n (lower r) (lower s)"
proof (induction n r s rule: replace_ci.induct)
  case (1 n r s)
  show ?case
  proof (cases "n = [] \<or> s = []")
    case True
    then show ?thesis by (auto simp: replace_ci.simps replace_all.simps lower_def)
  next
    case False
    then obtain c t where s: "s = c # t" "n \<noteq> []" by (cases s) auto
    show ?thesis
    proof (cases "starts_with (lower s) n")
      case True
      then obtain t2 where "lower s = n @ t2" by (auto simp: starts_with_iff)
      moreover have "replace_ci n r s = r @ replace_ci n r (drop (length n) s)"
        using True False by (subst replace_ci.simps) simp
      ultimately show ?thesis using 1(1) True False by simp
    next
      case miss: False
      have "replace_ci n r s = c # replace_ci n r t"
        using miss False by (subst replace_ci.simps) (simp add: s)
      moreover have "\<not> prefix n (lower_char c # lower t)"
        using miss by (auto simp: s lower_def starts_with_iff prefix_def)
      ultimately show ?thesis using 1(2) miss False s by (simp add: lower_def)
    qed
  qed
qed

text \<open>Neither pass over blanks puts together what was apart.\<close>

definition plain_needle :: "string \<Rightarrow> bool" where
  "plain_needle n \<longleftrightarrow> list_all (\<lambda>c. \<not> blank_char c \<and> c \<notin> {CHR '','', CHR ''.'', CHR '')''}) n"

lemma lower_char_kept: "lower_char d = d" if "blank_char d \<or> d \<in> {CHR '','', CHR ''.'', CHR '')''}" for d
proof -
  have "list_all (\<lambda>d. lower_char d = d) [CHR '' '', CHR 0x09, CHR '','', CHR ''.'', CHR '')'']" by code_simp
  then show ?thesis using that by (auto simp: blank_char_def)
qed

lemma tighten_cases:
  obtains "tighten_punctuation (c # s) = c # tighten_punctuation s"
    | p r where "tighten_punctuation (c # s) = p # r" "p \<in> {CHR '','', CHR ''.'', CHR '')''}" "dropWhile blank_char s = p # r"
proof (cases "dropWhile blank_char s")
  case (Cons p r)
  show ?thesis
  proof (cases "blank_char c \<and> p \<in> {CHR '','', CHR ''.'', CHR '')''}")
    case True
    then show ?thesis using that(2) [of p r] Cons unfolding tighten_punctuation.simps by (simp only: list.case if_True simp_thms)
  next
    case False
    then show ?thesis using that(1) Cons unfolding tighten_punctuation.simps by (simp only: list.case if_False simp_thms)
  qed
next
  case Nil
  then show ?thesis using that(1) unfolding tighten_punctuation.simps by (simp only: list.case simp_thms)
qed

declare tighten_punctuation.simps(2) [simp del]

lemma tightened_start: "plain_needle n \<Longrightarrow> prefix n (lower (tighten_punctuation s)) \<Longrightarrow> prefix n (lower s)"
proof (induction s arbitrary: n)
  case (Cons c s)
  show ?case
  proof (cases n)
    case (Cons d m)
    have plain: "\<not> blank_char d" "d \<notin> {CHR '','', CHR ''.'', CHR '')''}" "plain_needle m"
      using Cons.prems(1) Cons by (simp_all add: plain_needle_def)
    show ?thesis
    proof (rule tighten_cases [of c s])
      assume "tighten_punctuation (c # s) = c # tighten_punctuation s"
      then show ?thesis using Cons.IH [OF plain(3)] Cons.prems(2) Cons by (simp add: lower_def)
    next
      fix p r assume "tighten_punctuation (c # s) = p # r" "p \<in> {CHR '','', CHR ''.'', CHR '')''}"
      then have "d \<in> {CHR '','', CHR ''.'', CHR '')''}"
        using Cons.prems(2) Cons lower_char_kept [of p] by (simp add: lower_def)
      then show ?thesis using plain(2) by simp
    qed
  qed simp
qed simp

lemma includes_drop: "str_includes (lower (dropWhile p s)) n \<Longrightarrow> str_includes (lower s) n"
  by (induction s) (auto simp: lower_def split: if_splits)

lemma tightened_includes:
  "plain_needle n \<Longrightarrow> n \<noteq> [] \<Longrightarrow> str_includes (lower (tighten_punctuation s)) n \<Longrightarrow> str_includes (lower s) n"
proof (induction s)
  case (Cons c s)
  show ?case
  proof (rule tighten_cases [of c s])
    assume "tighten_punctuation (c # s) = c # tighten_punctuation s"
    then have "prefix n (lower (tighten_punctuation (c # s))) \<or> str_includes (lower (tighten_punctuation s)) n"
      using Cons.prems(3) by (auto simp: lower_def starts_with_iff prefix_def)
    then show ?thesis
      using tightened_start [OF Cons.prems(1), of "c # s"] Cons.IH [OF Cons.prems(1,2)]
      by (auto simp: lower_def starts_with_iff prefix_def)
  next
    fix p r assume "tighten_punctuation (c # s) = p # r" "dropWhile blank_char s = p # r"
    then have "str_includes (lower (dropWhile blank_char s)) n" using Cons.prems(3) by simp
    then show ?thesis using includes_drop [of blank_char s n] by (simp add: lower_def)
  qed
qed simp

lemma collapsed_cases:
  "collapse_blanks (c # s) =
     (if blank_char c \<and> s \<noteq> [] \<and> blank_char (hd s) then CHR '' '' # collapse_blanks (dropWhile blank_char s) else c # collapse_blanks s)"
  "collapse_blanks [] = []"
  by (simp_all add: collapse_blanks.simps)

lemma collapsed_start: "plain_needle n \<Longrightarrow> prefix n (lower (collapse_blanks s)) \<Longrightarrow> prefix n (lower s)"
proof (induction s arbitrary: n)
  case (Cons c s)
  show ?case
  proof (cases n)
    case (Cons d m)
    have plain: "\<not> blank_char d" "plain_needle m" using Cons.prems(1) Cons by (simp_all add: plain_needle_def)
    show ?thesis
    proof (cases "blank_char c \<and> s \<noteq> [] \<and> blank_char (hd s)")
      case True
      then have "d = CHR '' ''"
        using Cons.prems(2) Cons lower_char_kept [of "CHR '' ''"] by (simp add: collapsed_cases lower_def blank_char_def)
      then show ?thesis using plain(1) by (simp add: blank_char_def)
    next
      case False
      then show ?thesis using Cons.IH [OF plain(2)] Cons.prems(2) Cons by (auto simp: collapsed_cases lower_def)
    qed
  qed simp
qed (simp add: collapsed_cases)

lemma collapsed_includes:
  "plain_needle n \<Longrightarrow> n \<noteq> [] \<Longrightarrow> str_includes (lower (collapse_blanks s)) n \<Longrightarrow> str_includes (lower s) n"
proof (induction s rule: collapse_blanks.induct)
  case (1 s)
  show ?case
  proof (cases s)
    case (Cons c r)
    show ?thesis
    proof (cases "blank_char c \<and> r \<noteq> [] \<and> blank_char (hd r)")
      case True
      have "\<not> starts_with (lower (CHR '' '' # t)) n" for t
        using 1(3,4) lower_char_kept [of "CHR '' ''"]
        by (cases n) (auto simp: plain_needle_def lower_def starts_with_iff blank_char_def)
      then have "str_includes (lower (collapse_blanks (dropWhile blank_char r))) n"
        using 1(5) True by (simp add: Cons collapsed_cases) (simp add: lower_def)
      then have "str_includes (lower (dropWhile blank_char r)) n" using 1(1) [OF Cons] True 1(3,4) by simp
      then show ?thesis using includes_drop [of blank_char r n] by (simp add: Cons lower_def)
    next
      case False
      then have eq: "collapse_blanks s = c # collapse_blanks r" by (simp only: Cons collapsed_cases if_False)
      have "prefix n (lower (collapse_blanks s)) \<or> str_includes (lower (collapse_blanks r)) n"
        using 1(5) unfolding eq by (auto simp: lower_def starts_with_iff prefix_def)
      then show ?thesis
        using collapsed_start [OF 1(3), of s] 1(2) [OF Cons False 1(3,4)]
        by (auto simp: Cons lower_def starts_with_iff prefix_def)
    qed
  qed (use 1 in \<open>simp add: collapsed_cases\<close>)
qed

lemma wording_brand_free: "\<not> names_openrouter (sanitize_upstream_wording s)"
proof
  have "apart ''openrouter'' (lower ''AI Provider'')" "plain_needle ''openrouter''" by code_simp+
  note facts = this
  have some: "''openrouter'' \<noteq> []" by simp
  define t where "t = replace_ci ''please refer to our docs:'' [] (remove_links s)"
  assume "names_openrouter (sanitize_upstream_wording s)"
  then have "str_includes (lower (tighten_punctuation (collapse_blanks (replace_ci ''openrouter'' ''AI Provider'' t)))) ''openrouter''"
    unfolding names_openrouter_def sanitize_upstream_wording_def t_def .
  from collapsed_includes [OF facts(2) some tightened_includes [OF facts(2) some this]]
  show False unfolding replace_ci_lower using replaced_absent [OF facts(1) some] by contradiction
qed

lemma deep_brand_free: "brand_free (sanitize_wording_deep v)"
  by (induction v) (auto simp: wording_brand_free)

subsection \<open>What reaches the client\<close>

text \<open>A body without the account, without the provider behind the model, and without the name in any string.\<close>

definition anonymous :: "jsv \<Rightarrow> bool" where
  "anonymous v \<longleftrightarrow> brand_free v \<and> \<not> has_fld ''user_id'' v \<and> \<not> has_fld ''provider_name'' (fld ''metadata'' v)
     \<and> \<not> has_fld ''provider_name'' (fld ''metadata'' (fld ''error'' v))"

lemma deep_has [simp]: "has_fld k (sanitize_wording_deep v) = has_fld k v"
  by (cases v) force+

lemma deep_fld: "fld k (sanitize_wording_deep v) = sanitize_wording_deep (fld k v)"
proof (cases v)
  case (JObj kvs)
  have "map_of (map (\<lambda>(k, v). (k, sanitize_wording_deep v)) kvs) k = map_option sanitize_wording_deep (map_of kvs k)"
    by (induction kvs) auto
  then show ?thesis by (simp add: JObj split: option.split)
qed auto

lemma strip_provider:
  "is_obj (strip_provider_name h) = is_obj h" "has_fld k (strip_provider_name h) = has_fld k h"
  "k \<noteq> ''metadata'' \<Longrightarrow> fld k (strip_provider_name h) = fld k h"
  "\<not> has_fld ''provider_name'' (fld ''metadata'' (strip_provider_name h))"
proof -
  have o: "is_obj (fld ''metadata'' h) \<Longrightarrow> is_obj h" by (cases h) auto
  show "is_obj (strip_provider_name h) = is_obj h" by (simp add: strip_provider_name_def)
  have "is_obj (fld ''metadata'' h) \<Longrightarrow> has_fld ''metadata'' h" using fld_not_has by fastforce
  then show "has_fld k (strip_provider_name h) = has_fld k h"
    using o by (auto simp: strip_provider_name_def has_fld_set_fld)
  show "k \<noteq> ''metadata'' \<Longrightarrow> fld k (strip_provider_name h) = fld k h"
    using o by (auto simp: strip_provider_name_def fld_set_fld)
  show "\<not> has_fld ''provider_name'' (fld ''metadata'' (strip_provider_name h))"
  proof (cases "is_obj (fld ''metadata'' h)")
    case True
    then show ?thesis using o by (simp add: strip_provider_name_def fld_set_fld has_fld_del_fld)
  next
    case False
    then show ?thesis by (cases "fld ''metadata'' h") (simp_all add: strip_provider_name_def)
  qed
qed

lemma stripped:
  "\<not> has_fld ''user_id'' (strip_upstream_identity v)" "\<not> has_fld ''provider_name'' (fld ''metadata'' (strip_upstream_identity v))"
  "\<not> has_fld ''provider_name'' (fld ''metadata'' (fld ''error'' (strip_upstream_identity v)))"
proof -
  let ?p = "strip_provider_name (del_fld ''user_id'' v)"
  have gone: "\<not> has_fld ''user_id'' ?p" by (simp add: strip_provider has_fld_del_fld)
  have obj: "is_obj (fld ''error'' ?p) \<Longrightarrow> is_obj ?p" by (cases ?p) auto
  show "\<not> has_fld ''user_id'' (strip_upstream_identity v)"
  proof (cases "is_obj v")
    case True
    then show ?thesis using gone obj by (auto simp: strip_upstream_identity_def Let_def has_fld_set_fld)
  next
    case False
    then show ?thesis by (cases v) (simp_all add: strip_upstream_identity_def)
  qed
  show "\<not> has_fld ''provider_name'' (fld ''metadata'' (strip_upstream_identity v))"
  proof (cases "is_obj v")
    case True
    then show ?thesis
      using obj strip_provider(4) by (auto simp: strip_upstream_identity_def Let_def fld_set_fld)
  next
    case False
    then show ?thesis by (cases v) (simp_all add: strip_upstream_identity_def)
  qed
  have none: "\<not> is_obj e \<Longrightarrow> \<not> has_fld ''provider_name'' (fld ''metadata'' e)" for e by (cases e) simp_all
  show "\<not> has_fld ''provider_name'' (fld ''metadata'' (fld ''error'' (strip_upstream_identity v)))"
  proof (cases "is_obj v")
    case True
    then show ?thesis
      using obj strip_provider(4) none by (simp add: strip_upstream_identity_def Let_def fld_set_fld)
  next
    case False
    then show ?thesis by (cases v) (simp_all add: strip_upstream_identity_def)
  qed
qed

lemma sanitized_anonymous: "anonymous (sanitize_wording_deep (strip_upstream_identity v))"
  using stripped [of v] by (simp add: anonymous_def deep_brand_free deep_fld)

lemma error_chunks:
  "es_size e \<le> max_error_body \<Longrightarrow> \<not> es_overflow e \<Longrightarrow> es_size e = utf8_length (es_chunks e) \<Longrightarrow>
   error_flush status (fold error_chunk cs e) = fst (sanitized_error_body_buffer (es_chunks e @ concat cs) status)"
proof (induction cs arbitrary: e)
  case Nil
  then show ?case by (simp add: error_flush_def sanitized_error_body_buffer_def)
next
  case (Cons c cs)
  show ?case
  proof (cases "utf8_length (es_chunks e @ c) > max_error_body")
    case True
    have over: "es_overflow e1 \<Longrightarrow> es_overflow (fold error_chunk cs e1)" for e1
      by (induction cs arbitrary: e1) (simp_all add: error_chunk_def)
    have "es_overflow (fold error_chunk (c # cs) e)"
      using over [of "error_chunk c e"] True Cons.prems by (simp add: error_chunk_def Let_def utf8_length_append)
    moreover have "utf8_length (es_chunks e @ concat (c # cs)) > max_error_body"
      using True by (simp add: utf8_length_append)
    ultimately show ?thesis unfolding error_flush_def sanitized_error_body_buffer_def by simp
  next
    case False
    then show ?thesis
      using Cons.IH [of "error_chunk c e"] Cons.prems by (simp add: error_chunk_def Let_def utf8_length_append)
  qed
qed


end
