(* ===== verification/Authorize.thy ===== *)
theory Authorize
  imports BalanceBackoff Routing AnthropicRequest SmartRouting ReasoningMirror OutputCount
begin

text \<open>
  The call that asks horse-power whether a request may be served: the host it may go to (\<open>hpHosts.mjs\<close>), its headers
  (\<open>authorizeHeaders.mjs\<close>), what it says of the request (\<open>inputEstimate.mjs\<close>, \<open>reasoningEffort.mjs\<close>), and
  \<open>authorizeWithHorsepower\<close> of \<open>server.mjs\<close>, which composes them with the memory of balance backoffs. The tokenizer,
  SHA-256 and HMAC-SHA256 are parameters.
\<close>

subsection \<open>The host\<close>

definition hp_hosts :: "string list" where
  "hp_hosts = [''backend.ppq.ai'', ''ppq-backend-dev-a6fkdvbbbmg3dga3.canadacentral-01.azurewebsites.net'']"

definition normalize_hp_host :: "jsv \<Rightarrow> string" where
  "normalize_hp_host v =
     (case v of
        JStr s \<Rightarrow> let h = lower (trim s) in if h \<noteq> [] \<and> last h = CHR ''.'' then butlast h else h
      | _ \<Rightarrow> [])"

definition test_allowed_hp_hosts :: "jsv \<Rightarrow> string list" where
  "test_allowed_hp_hosts env =
     filter (\<lambda>h. h \<noteq> []) (map (\<lambda>w. normalize_hp_host (JStr w)) (split_char (CHR '','') (str_of (fld ''HP_HOST_ALLOW'' env))))"

definition is_allowed_hp_host :: "string list \<Rightarrow> jsv \<Rightarrow> bool" where
  "is_allowed_hp_host allow v \<longleftrightarrow> normalize_hp_host v \<noteq> [] \<and> normalize_hp_host v \<in> set (hp_hosts @ allow)"

record pinned =
  pn_host :: string
  pn_status :: string
  pn_rejected :: "string option"

definition pin_hp_host :: "string list \<Rightarrow> jsv \<Rightarrow> js_error + pinned" where
  "pin_hp_host allow v =
     (if v = JUndef \<or> v = JNull then Inr \<lparr>pn_host = [], pn_status = ''unset'', pn_rejected = None\<rparr>
      else bind_js (js_string v) (\<lambda>s.
        if trim s = [] then Inr \<lparr>pn_host = [], pn_status = ''unset'', pn_rejected = None\<rparr>
        else if normalize_hp_host v \<in> set (hp_hosts @ allow)
        then Inr \<lparr>pn_host = normalize_hp_host v, pn_status = ''pinned'', pn_rejected = None\<rparr>
        else Inr \<lparr>pn_host = [], pn_status = ''rejected'', pn_rejected = Some (take 253 s)\<rparr>))"

subsection \<open>The headers\<close>

definition authorize_forwarded_headers :: "string list" where
  "authorize_forwarded_headers = [''authorization'', ''x-api-key'', ''x-credit-id'', ''x-query-source'', ''x-ppq-intent'']"

text \<open>\<open>/^[A-Za-z0-9._-]{1,64}$/\<close>.\<close>

definition client_request_id :: "jsv \<Rightarrow> string option" where
  "client_request_id v =
     (case v of
        JStr s \<Rightarrow> if s \<noteq> [] \<and> length s \<le> 64 \<and> list_all (\<lambda>c. is_alnum c \<or> c \<in> set ''._-'') s then Some s else None
      | _ \<Rightarrow> None)"

text \<open>The id the enclave resolves for a request: the caller's own when it has the shape, else the one it mints.\<close>

definition resolve_request_id :: "string \<Rightarrow> jsv \<Rightarrow> string \<times> bool" where
  "resolve_request_id minted v = (case client_request_id v of Some s \<Rightarrow> (s, True) | None \<Rightarrow> (minted, False))"

definition enclave_client_ip_mac :: "(string \<Rightarrow> string \<Rightarrow> string) \<Rightarrow> string \<Rightarrow> nat \<Rightarrow> string \<Rightarrow> string" where
  "enclave_client_ip_mac hmac ip minute secret = hmac secret (ip @ ''|'' @ num_str minute)"

definition forwarded_fields :: "jsv \<Rightarrow> js_fields" where
  "forwarded_fields req =
     concat (map (\<lambda>k. case nonempty_str (fld k req) of Some s \<Rightarrow> [(k, JStr s)] | None \<Rightarrow> []) authorize_forwarded_headers)"

definition authorize_headers ::
    "(string \<Rightarrow> string \<Rightarrow> string) \<Rightarrow> string \<Rightarrow> string \<Rightarrow> nat \<Rightarrow> jsv \<Rightarrow> nat \<Rightarrow> jsv \<Rightarrow> jsv \<Rightarrow> js_fields" where
  "authorize_headers hmac host secret now req len client_ip request_id =
     [(''content-type'', JStr ''application/json''), (''content-length'', jnat len), (''host'', JStr host)]
     @ forwarded_fields req
     @ (case client_request_id request_id of Some s \<Rightarrow> [(''x-request-id'', JStr s)] | None \<Rightarrow> [])
     @ (if secret \<noteq> [] then [(''x-enclave-secret'', JStr secret)] else [])
     @ (case nonempty_str client_ip of
          Some ip \<Rightarrow>
            if secret \<noteq> [] then
              [(''x-ppq-client-ip'', JStr ip),
               (''x-ppq-client-ip-mac'', JStr (enclave_client_ip_mac hmac ip (now div 60000) secret))]
            else []
        | None \<Rightarrow> [])"

subsection \<open>The size of the input\<close>

definition max_tokenize_chars :: nat where "max_tokenize_chars = 2000000"

text \<open>\<open>base64DecodedBytes\<close>: the padding and line ends at the end are not counted.\<close>

definition base64_bytes :: "jsv \<Rightarrow> nat" where
  "base64_bytes v =
     (case v of
        JStr s \<Rightarrow>
          let b = (if starts_with s ''data:'' then (case index_of s (CHR '','') of Some i \<Rightarrow> drop (Suc i) s | None \<Rightarrow> s) else s)
          in length (dropWhile (\<lambda>c. c \<in> {CHR ''='', CHR 0x0A, CHR 0x0D}) (rev b)) * 3 div 4
      | _ \<Rightarrow> 0)"

record media =
  md_images :: nat
  md_file_bytes :: nat
  md_audio_bytes :: nat
  md_urls :: nat

definition no_media :: media where
  "no_media = \<lparr>md_images = 0, md_file_bytes = 0, md_audio_bytes = 0, md_urls = 0\<rparr>"

definition strip_media_part :: "jsv \<Rightarrow> media \<Rightarrow> jsv \<times> media" where
  "strip_media_part part m =
     (let type = fld ''type'' part; f = fld ''file'' part
      in if type = JStr ''image_url'' \<or> type = JStr ''image'' then (JObj [(''type'', type)], m\<lparr>md_images := Suc (md_images m)\<rparr>)
         else if type = JStr ''input_audio'' then
           (JObj [(''type'', type)], m\<lparr>md_audio_bytes := md_audio_bytes m + base64_bytes (fld ''data'' (fld ''input_audio'' part))\<rparr>)
         else if type = JStr ''file'' then
           (if is_str (fld ''file_data'' f) then
              (JObj [(''type'', type), (''filename'', fld ''filename'' f)],
               m\<lparr>md_file_bytes := md_file_bytes m + base64_bytes (fld ''file_data'' f)\<rparr>)
            else if is_str (fld ''file_url'' f) \<or> is_str (fld ''file_id'' f) then
              (JObj [(''type'', type), (''filename'', fld ''filename'' f), (''file_url'', fld ''file_url'' f), (''file_id'', fld ''file_id'' f)],
               m\<lparr>md_urls := Suc (md_urls m)\<rparr>)
            else (JObj [(''type'', type), (''filename'', fld ''filename'' f)], m))
         else (part, m))"

fun strip_parts :: "jsv list \<Rightarrow> media \<Rightarrow> jsv list \<times> media" where
  "strip_parts [] m = ([], m)"
| "strip_parts (p # ps) m =
     (case strip_media_part p m of (q, m1) \<Rightarrow> case strip_parts ps m1 of (qs, m2) \<Rightarrow> (q # qs, m2))"

fun message_texts :: "jsv list \<Rightarrow> media \<Rightarrow> string list \<times> media" where
  "message_texts [] md = ([], md)"
| "message_texts (m # ms) md =
     (let (t, md1) =
        (case fld ''content'' m of
           JArr ps \<Rightarrow> (case strip_parts ps md of (qs, md1) \<Rightarrow> (json_text (set_fld ''content'' (JArr qs) m), md1))
         | _ \<Rightarrow> (json_text (nullish m JNull), md))
      in case message_texts ms md1 of (ts, md2) \<Rightarrow> (t # ts, md2))"

function slices :: "nat \<Rightarrow> string \<Rightarrow> string list" where
  "slices n s = (if n = 0 \<or> length s \<le> n then [s] else take n s # slices n (drop n s))"
  by pat_completeness auto

termination
  by (relation "measure (\<lambda>(_, s). length s)") auto

declare slices.simps [simp del]

fun sum_counts :: "(string \<Rightarrow> nat option) \<Rightarrow> string list \<Rightarrow> nat option" where
  "sum_counts count [] = Some 0"
| "sum_counts count (s # ss) =
     (case count s of None \<Rightarrow> None | Some n \<Rightarrow> map_option (\<lambda>m. n + m) (sum_counts count ss))"

definition measured_texts :: "jsv \<Rightarrow> string list \<times> media" where
  "measured_texts payload =
     (case message_texts (elems (fld ''messages'' payload)) no_media of
        (ts, md) \<Rightarrow>
          (ts @ (if elems (fld ''tools'' payload) \<noteq> [] then [json_text (fld ''tools'' payload)] else []), md))"

definition token_field :: "(string \<Rightarrow> nat option) option \<Rightarrow> string list \<Rightarrow> js_fields" where
  "token_field tokenizer ts =
     (if sum_list (map length ts) + length ts > max_tokenize_chars then []
      else case tokenizer of
        None \<Rightarrow> []
      | Some count \<Rightarrow>
          (case sum_counts count (concat (map (slices tokenize_slice_chars) ts)) of
             None \<Rightarrow> []
           | Some n \<Rightarrow> [(''input_tokens_o200k'', jnat (n + (length ts - 1)))]))"

definition measure_input :: "(string \<Rightarrow> nat option) option \<Rightarrow> jsv \<Rightarrow> js_fields" where
  "measure_input tokenizer payload =
     (case measured_texts payload of
        (ts, md) \<Rightarrow>
          [(''message_count'', jnat (length (elems (fld ''messages'' payload)))), (''image_parts'', jnat (md_images md)),
           (''file_bytes'', jnat (md_file_bytes md)), (''audio_bytes'', jnat (md_audio_bytes md)), (''url_parts'', jnat (md_urls md))]
          @ token_field tokenizer ts)"

definition input_bytes :: "jsv \<Rightarrow> nat" where
  "input_bytes payload =
     utf8_length (json_text (nullish (fld ''messages'' payload) (JArr [])))
     + (if is_arr (fld ''tools'' payload) then utf8_length (json_text (fld ''tools'' payload)) else 0)"

subsection \<open>The effort\<close>

definition reasoning_efforts :: "string list" where
  "reasoning_efforts = [''minimal'', ''low'', ''medium'', ''high'', ''xhigh'', ''max'']"

definition normalize_reasoning_effort :: "jsv \<Rightarrow> string option" where
  "normalize_reasoning_effort v = (case v of JStr s \<Rightarrow> if s \<in> set reasoning_efforts then Some s else None | _ \<Rightarrow> None)"

definition chat_reasoning_effort :: "jsv \<Rightarrow> string option" where
  "chat_reasoning_effort payload =
     (if fld ''reasoning'' payload \<noteq> JUndef then
        (case canonicalize_reasoning_object (fld ''reasoning'' payload) of
           CanonEffort e \<Rightarrow> normalize_reasoning_effort (JStr e)
         | CanonBail _ \<Rightarrow> None
         | CanonNone \<Rightarrow> normalize_reasoning_effort (fld ''reasoning_effort'' payload))
      else normalize_reasoning_effort (fld ''reasoning_effort'' payload))"

definition responses_reasoning_effort :: "jsv \<Rightarrow> string option" where
  "responses_reasoning_effort body = normalize_reasoning_effort (fld ''effort'' (fld ''reasoning'' body))"

definition messages_reasoning_effort :: "jsv \<Rightarrow> string option" where
  "messages_reasoning_effort body =
     (let effort = fld ''effort'' (fld ''output_config'' body); thinking = fld ''thinking'' body;
          budget = fld ''budget_tokens'' thinking
      in if effort \<noteq> JUndef then normalize_reasoning_effort effort
         else if fld ''type'' thinking \<noteq> JStr ''enabled'' \<or> \<not> num_integer budget \<or> num_rat budget \<le> 0 then None
         else normalize_reasoning_effort (JStr (effort_for_budget (num_rat budget))))"

definition dialect_reasoning_effort :: "string \<Rightarrow> jsv \<Rightarrow> string option" where
  "dialect_reasoning_effort dialect body =
     (if dialect = ''messages'' then messages_reasoning_effort body
      else if dialect = ''responses'' then responses_reasoning_effort body else None)"

subsection \<open>The call\<close>

record authorize_config =
  ac_host :: string
  ac_port :: nat
  ac_secret :: string
  ac_backoff :: bool

text \<open>The functions a call is computed with, the time, and the tokenizer, if it loaded.\<close>

record authorize_env =
  ae_hmac :: "string \<Rightarrow> string \<Rightarrow> string"
  ae_sha :: "string \<Rightarrow> string"
  ae_now :: nat
  ae_tokenizer :: "(string \<Rightarrow> nat option) option"

record authorize_options =
  ao_backoff :: bool
  ao_settle_id :: jsv
  ao_n :: jsv
  ao_pii :: bool
  ao_effort :: "string option"

definition authorize_body :: "jsv \<Rightarrow> jsv \<Rightarrow> jsv \<Rightarrow> js_fields \<Rightarrow> authorize_options \<Rightarrow> jsv" where
  "authorize_body model max_tokens bytes measured opts =
     JObj ([(''model'', model), (''max_tokens'', max_tokens)]
       @ (case nonempty_str (ao_settle_id opts) of Some s \<Rightarrow> [(''settle_id'', JStr s)] | None \<Rightarrow> [])
       @ (if num_integer (ao_n opts) \<and> num_rat (ao_n opts) > 1 then [(''n'', ao_n opts)] else [])
       @ (if ao_pii opts then [(''pii_redaction'', JTrue)] else [])
       @ (case ao_effort opts of Some e \<Rightarrow> if e \<noteq> [] then [(''reasoning_effort'', JStr e)] else [] | None \<Rightarrow> [])
       @ [(''input_bytes'', if num_finite bytes then bytes else JUndef)] @ measured)"

record authorize_request =
  ar_connect :: string
  ar_port :: nat
  ar_servername :: string
  ar_path :: string
  ar_headers :: js_fields
  ar_body :: string

record authorize_answer =
  aa_ok :: bool
  aa_status :: jsv
  aa_body :: jsv
  aa_retry_after :: "nat option"
  aa_backoff :: bool
  aa_local :: bool
  aa_failure :: string
  aa_credit_id :: jsv
  aa_api_key_id :: jsv
  aa_resolved_model :: jsv
  aa_directives :: auth_directives
  aa_autoclaw :: "directive option"
  aa_upstreams :: "jsv list"
  aa_direct_only :: jsv

definition no_directives :: auth_directives where
  "no_directives =
     \<lparr>au_max_tokens_cap = None, au_web_search = False, au_provider_directive = JUndef, au_auto_router = None,
      au_is_free = False, au_strip_tools = False, au_provider_floor = None\<rparr>"

definition authorize_refusal :: "jsv \<Rightarrow> jsv \<Rightarrow> string \<Rightarrow> authorize_answer" where
  "authorize_refusal status body failure =
     \<lparr>aa_ok = False, aa_status = status, aa_body = body, aa_retry_after = None, aa_backoff = False, aa_local = False,
      aa_failure = failure, aa_credit_id = JUndef, aa_api_key_id = JUndef, aa_resolved_model = JUndef,
      aa_directives = no_directives, aa_autoclaw = None, aa_upstreams = [], aa_direct_only = JUndef\<rparr>"

definition error_text :: "string \<Rightarrow> jsv" where
  "error_text s = JObj [(''error'', JStr s)]"

text \<open>Before the network: an answer of the enclave's own, or the request it sends.\<close>

definition credential_key :: "authorize_config \<Rightarrow> authorize_env \<Rightarrow> jsv \<Rightarrow> authorize_options \<Rightarrow> jsv" where
  "credential_key cfg env req opts =
     (if ac_backoff cfg \<and> ao_backoff opts
      then (case presented_credential_key (ae_sha env) req of Some k \<Rightarrow> JStr k | None \<Rightarrow> JNull) else JNull)"

definition authorize_ask ::
    "authorize_config \<Rightarrow> authorize_env \<Rightarrow> jsv \<Rightarrow> jsv \<Rightarrow> jsv \<Rightarrow> jsv \<Rightarrow> js_fields \<Rightarrow> jsv \<Rightarrow> string \<Rightarrow> authorize_options \<Rightarrow> held_map \<Rightarrow>
     (authorize_answer + authorize_request) \<times> held_map" where
  "authorize_ask cfg env req model max_tokens bytes measured client_ip request_id opts held =
     (if ac_host cfg = [] then (Inl (authorize_refusal (jint 503) (error_text ''authorization unavailable'') ''unreachable''), held)
      else
        let (found, held1) =
          (if truthy (credential_key cfg env req opts) then bb_lookup (ae_now env) (credential_key cfg env req opts) held else (None, held))
        in case found of
             Some a \<Rightarrow>
               (Inl ((authorize_refusal (jnat (la_status a)) (la_body a) [])
                  \<lparr>aa_retry_after := Some (la_seconds a), aa_backoff := True, aa_local := True\<rparr>), held1)
           | None \<Rightarrow>
               let body = json_text (authorize_body model max_tokens bytes measured opts);
                   hs = authorize_headers (ae_hmac env) (ac_host cfg) (ac_secret cfg) (ae_now env) req (utf8_length body)
                     client_ip (JStr request_id);
                   hs1 = (if request_id \<noteq> [] then AList.update ''x-request-id'' (JStr request_id) hs else hs)
               in (Inr \<lparr>ar_connect = ''127.0.0.1'', ar_port = ac_port cfg, ar_servername = ac_host cfg,
                      ar_path = ''/enclave/authorize'', ar_headers = hs1, ar_body = body\<rparr>, held1))"

text \<open>What comes back: horse-power's status, headers and body text, or nothing.\<close>

datatype hp_outcome = Answered jsv jsv string | TimedOut | Failed

definition positive_cap :: "jsv \<Rightarrow> nat option" where
  "positive_cap v = (if num_integer v \<and> num_rat v > 0 then Some (nat \<lfloor>num_rat v\<rfloor>) else None)"

definition answer_body :: "string \<Rightarrow> jsv" where
  "answer_body s = (case json_parse (if s = [] then ''{}'' else s) of Some v \<Rightarrow> v | None \<Rightarrow> JObj [])"

definition read_directives :: "jsv \<Rightarrow> auth_directives" where
  "read_directives body =
     \<lparr>au_max_tokens_cap = positive_cap (fld ''max_tokens_cap'' body), au_web_search = (fld ''web_search'' body = JTrue),
      au_provider_directive = nullish (fld ''provider_directive'' body) JNull,
      au_auto_router = parse_auto_router (fld ''auto_router'' body), au_is_free = (fld ''is_free'' body = JTrue),
      au_strip_tools = (fld ''strip_tools'' body = JTrue), au_provider_floor = parse_provider_floor (fld ''provider_floor'' body)\<rparr>"

definition authorize_finish ::
    "authorize_config \<Rightarrow> authorize_env \<Rightarrow> jsv \<Rightarrow> authorize_options \<Rightarrow> hp_outcome \<Rightarrow> held_map \<Rightarrow> js_error + authorize_answer \<times> held_map" where
  "authorize_finish cfg env req opts outcome held =
     (case outcome of
        TimedOut \<Rightarrow> Inr (authorize_refusal (jint 504) (error_text ''authorization timed out'') ''timeout'', held)
      | Failed \<Rightarrow> Inr (authorize_refusal (jint 502) (error_text ''authorization failed'') ''unreachable'', held)
      | Answered status headers s \<Rightarrow>
          let body = answer_body s; key = credential_key cfg env req opts
          in if body = JNull then Inl TypeError
             else
               let ok = (status = jint 200 \<and> fld ''authorized'' body = JTrue);
                   retry = (if ok then None else retry_after_seconds (fld ''retry-after'' headers) (fld ''retry_after_seconds'' body));
                   backoff = (\<not> ok \<and> is_balance_backoff_refusal status body);
                   held1 = (case retry of
                     Some secs \<Rightarrow> if backoff \<and> truthy key then snd (bb_remember (ae_now env) key (jnat secs) body held) else held
                   | None \<Rightarrow> held)
               in bind_js (parse_autoclaw_directive (fld ''autoclaw'' body)) (\<lambda>autoclaw.
                    Inr (\<lparr>aa_ok = ok, aa_status = (if truthy status then status else jint 502), aa_body = body, aa_retry_after = retry,
                      aa_backoff = backoff, aa_local = False, aa_failure = [],
                      aa_credit_id = fld ''credit_id'' body, aa_api_key_id = nullish (fld ''api_key_id'' body) JNull,
                      aa_resolved_model = fld ''resolved_model'' body, aa_directives = read_directives body,
                      aa_autoclaw = autoclaw, aa_upstreams = elems (fld ''upstreams'' body),
                      aa_direct_only = (if typeof_object (fld ''direct_only'' body) then fld ''direct_only'' body else JNull)\<rparr>, held1)))"

text \<open>The chat handler's call.\<close>

definition chat_authorize ::
    "authorize_config \<Rightarrow> authorize_env \<Rightarrow> jsv \<Rightarrow> jsv \<Rightarrow> bool \<Rightarrow> jsv \<Rightarrow> string \<Rightarrow> string \<Rightarrow> held_map \<Rightarrow>
     (authorize_answer + authorize_request) \<times> held_map" where
  "chat_authorize cfg env req payload pii client_ip request_id settle_id held =
     authorize_ask cfg env req (fld ''model'' payload) (nullish (fld ''max_tokens'' payload) (fld ''max_completion_tokens'' payload))
       (jnat (input_bytes payload)) (measure_input (ae_tokenizer env) payload) client_ip request_id
       \<lparr>ao_backoff = True, ao_settle_id = JStr settle_id, ao_n = fld ''n'' payload, ao_pii = pii,
        ao_effort = chat_reasoning_effort payload\<rparr> held"

subsection \<open>Where a credential may go, and what is said of a request\<close>

lemma pinned_host:
  assumes "pin_hp_host allow v = Inr p" "pn_host p \<noteq> []"
  shows "pn_host p \<in> set (hp_hosts @ allow)"
  using assms by (auto simp: pin_hp_host_def bind_js_Inr_iff split: if_splits)

definition authorize_header_names :: "string list" where
  "authorize_header_names =
     [''content-type'', ''content-length'', ''host'', ''x-request-id'', ''x-enclave-secret'', ''x-ppq-client-ip'', ''x-ppq-client-ip-mac'']"

definition authorize_body_names :: "string list" where
  "authorize_body_names =
     [''model'', ''max_tokens'', ''settle_id'', ''n'', ''pii_redaction'', ''reasoning_effort'', ''input_bytes'', ''message_count'',
      ''image_parts'', ''file_bytes'', ''audio_bytes'', ''url_parts'', ''input_tokens_o200k'']"

text \<open>A value that says nothing of the text of a request: a number, a flag, one of the effort words, or the settle id.\<close>

definition content_free :: "string \<Rightarrow> jsv \<Rightarrow> bool" where
  "content_free settle_id v \<longleftrightarrow> is_num v \<or> is_bool v \<or> v = JStr settle_id \<or> (\<exists>e \<in> set reasoning_efforts. v = JStr e)"

definition field_sound :: "jsv \<Rightarrow> string \<Rightarrow> string \<times> jsv \<Rightarrow> bool" where
  "field_sound payload settle_id f \<longleftrightarrow>
     (case f of (k, v) \<Rightarrow>
        if k = ''model'' then v = fld ''model'' payload
        else if k = ''max_tokens'' then v = nullish (fld ''max_tokens'' payload) (fld ''max_completion_tokens'' payload)
        else k \<in> set authorize_body_names \<and> content_free settle_id v)"

lemma body_names:
  "''settle_id'' \<in> set authorize_body_names" "''n'' \<in> set authorize_body_names" "''pii_redaction'' \<in> set authorize_body_names"
  "''reasoning_effort'' \<in> set authorize_body_names" "''input_bytes'' \<in> set authorize_body_names"
  "''message_count'' \<in> set authorize_body_names" "''image_parts'' \<in> set authorize_body_names"
  "''file_bytes'' \<in> set authorize_body_names" "''audio_bytes'' \<in> set authorize_body_names"
  "''url_parts'' \<in> set authorize_body_names" "''input_tokens_o200k'' \<in> set authorize_body_names"
  by code_simp+

lemma integer_num: "num_integer v \<Longrightarrow> is_num v"
  by (cases v) auto

lemma measured_sound:
  assumes f: "f \<in> set (measure_input tokenizer payload)"
  shows "field_sound payload settle_id f"
proof -
  have tokens: "g = (''input_tokens_o200k'', snd g) \<and> is_num (snd g)" if "g \<in> set (token_field tokenizer ts)" for g ts
    using that by (auto simp: token_field_def split: if_splits option.splits)
  have number: "field_sound payload settle_id (k, v)"
    if "k \<in> set authorize_body_names" "k \<noteq> ''model''" "k \<noteq> ''max_tokens''" "is_num v" for k v
    using that by (simp add: field_sound_def content_free_def)
  obtain ts md where m: "measured_texts payload = (ts, md)" by force
  have counts: "list_all (field_sound payload settle_id)
     [(''message_count'', JNum a), (''image_parts'', JNum b), (''file_bytes'', JNum c), (''audio_bytes'', JNum d), (''url_parts'', JNum e)]"
    for a b c d e by (simp add: number body_names)
  have "list_all (field_sound payload settle_id) (token_field tokenizer ts)"
    unfolding list_all_iff
  proof
    fix g assume "g \<in> set (token_field tokenizer ts)"
    then have "g = (''input_tokens_o200k'', snd g)" "is_num (snd g)" using tokens by blast+
    moreover have "is_num v \<Longrightarrow> field_sound payload settle_id (''input_tokens_o200k'', v)" for v
      using number [OF body_names(11)] by simp
    ultimately show "field_sound payload settle_id g" by metis
  qed
  then have "list_all (field_sound payload settle_id) (measure_input tokenizer payload)"
    unfolding measure_input_def m prod.case list_all_append using counts by blast
  then show ?thesis using f by (simp add: list_all_iff)
qed

lemma effort_word: "chat_reasoning_effort payload = Some e \<Longrightarrow> e \<in> set reasoning_efforts"
  by (auto simp: chat_reasoning_effort_def normalize_reasoning_effort_def split: canon.splits jsv.splits if_splits)

lemma sent_request:
  assumes "authorize_ask cfg env req model max_tokens bytes measured client_ip request_id opts held = (Inr r, held1)"
  shows "ac_host cfg \<noteq> [] \<and> ar_servername r = ac_host cfg \<and> ar_path r = ''/enclave/authorize'' \<and>
    ar_body r = json_text (authorize_body model max_tokens bytes measured opts) \<and>
    ar_headers r =
      (let hs = authorize_headers (ae_hmac env) (ac_host cfg) (ac_secret cfg) (ae_now env) req
          (utf8_length (json_text (authorize_body model max_tokens bytes measured opts))) client_ip (JStr request_id)
       in if request_id \<noteq> [] then AList.update ''x-request-id'' (JStr request_id) hs else hs)"
  using assms by (auto simp: authorize_ask_def Let_def split: if_splits prod.splits option.splits)

lemma update_mem: "x \<in> set (AList.update k v al) \<Longrightarrow> x = (k, v) \<or> x \<in> set al"
  by (induction al) (auto split: if_splits)

text \<open>A header of the call is one of the enclave's own, or a header the client sent under the same name; the client's
  address is never the client's word.\<close>

definition header_sound :: "jsv \<Rightarrow> jsv \<Rightarrow> string \<times> jsv \<Rightarrow> bool" where
  "header_sound req client_ip h \<longleftrightarrow>
     (case h of (k, v) \<Rightarrow>
        if k \<in> set authorize_forwarded_headers then v = fld k req
        else k \<in> set authorize_header_names \<and> (k = ''x-ppq-client-ip'' \<longrightarrow> v = client_ip))"

lemma nonempty_str_iff: "nonempty_str v = Some s \<longleftrightarrow> v = JStr s \<and> s \<noteq> []"
  by (cases v) (auto simp: nonempty_str_def)

lemma forwarded_sound: "h \<in> set (forwarded_fields req) \<Longrightarrow> header_sound req client_ip h"
proof -
  assume "h \<in> set (forwarded_fields req)"
  then obtain k where k: "k \<in> set authorize_forwarded_headers"
      "h \<in> set (case nonempty_str (fld k req) of Some s \<Rightarrow> [(k, JStr s)] | None \<Rightarrow> [])"
    by (auto simp: forwarded_fields_def)
  show ?thesis
  proof (cases "nonempty_str (fld k req)")
    case (Some s)
    then have "fld k req = JStr s" by (simp add: nonempty_str_iff)
    then show ?thesis using k Some by (simp add: header_sound_def)
  qed (use k in simp)
qed

lemma own_names: "list_all (\<lambda>k. k \<notin> set authorize_forwarded_headers) authorize_header_names"
  by code_simp

lemma own_header:
  "k \<in> set authorize_header_names \<Longrightarrow> k \<noteq> ''x-ppq-client-ip'' \<Longrightarrow> header_sound req client_ip (k, v)"
  "header_sound req client_ip (''x-ppq-client-ip'', client_ip)"
proof -
  show "k \<in> set authorize_header_names \<Longrightarrow> k \<noteq> ''x-ppq-client-ip'' \<Longrightarrow> header_sound req client_ip (k, v)"
    using own_names by (auto simp: header_sound_def list_all_iff)
  have "''x-ppq-client-ip'' \<notin> set authorize_forwarded_headers" "''x-ppq-client-ip'' \<in> set authorize_header_names" by code_simp+
  then show "header_sound req client_ip (''x-ppq-client-ip'', client_ip)" by (simp add: header_sound_def)
qed

lemma header_names:
  "''content-type'' \<in> set authorize_header_names" "''content-length'' \<in> set authorize_header_names"
  "''host'' \<in> set authorize_header_names" "''x-request-id'' \<in> set authorize_header_names"
  "''x-enclave-secret'' \<in> set authorize_header_names" "''x-ppq-client-ip'' \<in> set authorize_header_names"
  "''x-ppq-client-ip-mac'' \<in> set authorize_header_names"
  by code_simp+

lemma headers_sound:
  assumes "h \<in> set (authorize_headers hmac host secret now req len client_ip request_id)"
  shows "header_sound req client_ip h"
proof -
  let ?p = "header_sound req client_ip"
  have first: "list_all ?p [(''content-type'', a), (''content-length'', b), (''host'', c)]" for a b c
    by (simp add: own_header header_names)
  have sent: "list_all ?p (forwarded_fields req)" using forwarded_sound by (auto simp: list_all_iff)
  have ident: "list_all ?p (case x of Some s \<Rightarrow> [(''x-request-id'', JStr s)] | None \<Rightarrow> [])" for x
    by (cases x) (simp_all add: own_header header_names)
  have proof_of_identity: "list_all ?p (if b then [(''x-enclave-secret'', c)] else [])" for b c
    by (simp add: own_header header_names)
  have ip: "list_all ?p (case nonempty_str client_ip of
      Some ip \<Rightarrow> if b then [(''x-ppq-client-ip'', JStr ip), (''x-ppq-client-ip-mac'', c ip)] else [] | None \<Rightarrow> [])" for b c
    by (cases client_ip) (simp_all add: own_header header_names nonempty_str_def)
  have "list_all ?p (authorize_headers hmac host secret now req len client_ip request_id)"
    unfolding authorize_headers_def list_all_append by (intro conjI first sent ident proof_of_identity ip)
  then show ?thesis using assms by (simp add: list_all_iff)
qed


lemma nothing_held:
  "ac_host cfg \<noteq> [] \<Longrightarrow>
   \<exists>r. authorize_ask cfg env req model max_tokens bytes measured client_ip request_id opts [] = (Inr r, [])"
proof -
  have "bb_lookup t k [] = (None, [])" for t k by (simp add: bb_lookup_def split: option.split)
  then show "ac_host cfg \<noteq> [] \<Longrightarrow> ?thesis" by (simp add: authorize_ask_def Let_def)
qed

definition demo_authorize_config :: authorize_config where
  "demo_authorize_config = \<lparr>ac_host = ''backend.ppq.ai'', ac_port = 9444, ac_secret = ''s'', ac_backoff = True\<rparr>"

definition demo_authorize_env :: authorize_env where
  "demo_authorize_env = \<lparr>ae_hmac = (\<lambda>k s. s), ae_sha = (\<lambda>s. s), ae_now = 0, ae_tokenizer = None\<rparr>"

definition demo_authorize_headers :: jsv where
  "demo_authorize_headers = JObj [(''x-api-key'', JStr ''k''), (''x-ppq-client-ip'', JStr ''6.6.6.6'')]"

definition demo_authorize_options :: authorize_options where
  "demo_authorize_options = \<lparr>ao_backoff = True, ao_settle_id = JStr ''st-1'', ao_n = JUndef, ao_pii = False, ao_effort = None\<rparr>"


text \<open>C37: What the chat handler tells horse-power before a request is served says nothing of its text: the model and the
  length as the caller wrote them, and under fixed names only numbers, flags, one of the six effort words and the
  settle id the enclave minted.\<close>

theorem authorize_content_free:
  assumes "chat_authorize cfg env req payload pii client_ip request_id settle_id held = (Inr r, held1)"
  shows "\<exists>kvs. ar_body r = json_text (JObj kvs) \<and> (\<forall>f \<in> set kvs. field_sound payload settle_id f)"
proof -
  let ?opts = "\<lparr>ao_backoff = True, ao_settle_id = JStr settle_id, ao_n = fld ''n'' payload, ao_pii = pii,
    ao_effort = chat_reasoning_effort payload\<rparr>"
  let ?max = "nullish (fld ''max_tokens'' payload) (fld ''max_completion_tokens'' payload)"
  let ?measured = "measure_input (ae_tokenizer env) payload"
  let ?body = "authorize_body (fld ''model'' payload) ?max (jnat (input_bytes payload)) ?measured ?opts"
  have r: "ar_body r = json_text ?body" using sent_request [OF assms [unfolded chat_authorize_def]] by blast
  obtain kvs where kvs: "?body = JObj kvs" by (simp add: authorize_body_def)
  let ?p = "field_sound payload settle_id"
  have said: "list_all ?p [(''model'', fld ''model'' payload), (''max_tokens'', ?max)]" by (simp add: field_sound_def)
  have sid: "list_all ?p (case nonempty_str (ao_settle_id ?opts) of Some s \<Rightarrow> [(''settle_id'', JStr s)] | None \<Rightarrow> [])"
    by (cases "settle_id = []") (simp_all add: field_sound_def content_free_def body_names nonempty_str_def)
  have n: "list_all ?p (if num_integer (ao_n ?opts) \<and> num_rat (ao_n ?opts) > 1 then [(''n'', ao_n ?opts)] else [])"
    using integer_num [of "fld ''n'' payload"] by (simp add: field_sound_def content_free_def body_names)
  have flag: "list_all ?p (if ao_pii ?opts then [(''pii_redaction'', JTrue)] else [])"
    by (simp add: field_sound_def content_free_def body_names)
  have word: "list_all ?p (case ao_effort ?opts of Some e \<Rightarrow> if e \<noteq> [] then [(''reasoning_effort'', JStr e)] else [] | None \<Rightarrow> [])"
    using effort_word [of payload]
    by (cases "chat_reasoning_effort payload") (simp_all add: field_sound_def content_free_def body_names)
  have size: "list_all ?p [(''input_bytes'', if num_finite (jnat (input_bytes payload)) then jnat (input_bytes payload) else JUndef)]"
    by (simp add: field_sound_def content_free_def body_names)
  have counts: "list_all ?p ?measured" using measured_sound by (auto simp: list_all_iff)
  have "list_all ?p kvs"
    using kvs said sid n flag word size counts unfolding authorize_body_def jsv.inject by (auto simp only: list_all_append)
  then show ?thesis using r kvs by (auto simp: list_all_iff)
qed

theorem authorize_content_free_witness:
  "\<exists>r kvs. chat_authorize demo_authorize_config demo_authorize_env demo_authorize_headers demo_prompt False (JStr ''1.2.3.4'') ''r1''
      ''st-1'' [] = (Inr r, []) \<and> ar_body r = json_text (JObj kvs) \<and> (\<forall>f \<in> set kvs. field_sound demo_prompt ''st-1'' f)"
proof -
  have "ac_host demo_authorize_config \<noteq> []" by (simp add: demo_authorize_config_def)
  then obtain r where r: "chat_authorize demo_authorize_config demo_authorize_env demo_authorize_headers demo_prompt False (JStr ''1.2.3.4'') ''r1''
      ''st-1'' [] = (Inr r, [])"
    unfolding chat_authorize_def using nothing_held by blast
  then show ?thesis using authorize_content_free [OF r] by blast
qed

end
