(* ===== verification/PiiDialects.thy ===== *)
theory PiiDialects
  imports PiiCore JsConvert
begin

text \<open>
  The texts of a request that are redacted: \<open>enclave/src/pii/dialects/common.mjs\<close> and the request half of
  \<open>chat.mjs\<close>, \<open>messages.mjs\<close> and \<open>responses.mjs\<close>. A reference names a place of the body by its path; the
  texts found there are put back by \<open>apply_texts\<close>. The locale \<open>pii_dialect\<close> is the contract of the three
  dialects. The routes call them without a policy, so no system text is picked.
\<close>

subsection \<open>Paths\<close>

datatype pkey = Key string | Idx nat

type_synonym jpath = "pkey list"

fun child :: "pkey \<Rightarrow> jsv \<Rightarrow> jsv" where
  "child (Key k) v = fld k v"
| "child (Idx i) (JArr xs) = (if i < length xs then xs ! i else JUndef)"
| "child (Idx i) v = JUndef"

fun get_at :: "jpath \<Rightarrow> jsv \<Rightarrow> jsv" where
  "get_at [] v = v"
| "get_at (k # p) v = get_at p (child k v)"

fun put_child :: "pkey \<Rightarrow> jsv \<Rightarrow> jsv \<Rightarrow> jsv" where
  "put_child (Key k) x v = set_fld k x v"
| "put_child (Idx i) x (JArr xs) = JArr (xs[i := x])"
| "put_child (Idx i) x v = v"

text \<open>\<open>setAt\<close>. Its paths come from \<open>extractTexts\<close>, so every step of one exists (\<open>has_path\<close>, proved below for
  the three dialects); what the code does on a missing step is not modelled. It is never called on \<open>[]\<close>.\<close>

fun set_at :: "jpath \<Rightarrow> jsv \<Rightarrow> jsv \<Rightarrow> jsv" where
  "set_at [] x v = x"
| "set_at (k # p) x v = put_child k (set_at p x (child k v)) v"

fun has_child :: "pkey \<Rightarrow> jsv \<Rightarrow> bool" where
  "has_child (Key k) v = has_fld k v"
| "has_child (Idx i) (JArr xs) = (i < length xs)"
| "has_child (Idx i) v = False"

fun has_path :: "jpath \<Rightarrow> jsv \<Rightarrow> bool" where
  "has_path [] v = True"
| "has_path (k # p) v = (has_child k v \<and> has_path p (child k v))"

subsection \<open>References\<close>

record text_ref =
  rf_path :: jpath
  rf_text :: string
  rf_json :: "(string \<times> jpath) option"

definition add_ref :: "jpath \<Rightarrow> jsv \<Rightarrow> text_ref list" where
  "add_ref path v =
     (case v of JStr s \<Rightarrow> if trim s \<noteq> [] then [\<lparr>rf_path = path, rf_text = s, rf_json = None\<rparr>] else [] | _ \<Rightarrow> [])"

fun add_leaf_refs :: "jpath \<Rightarrow> jsv \<Rightarrow> text_ref list"
  and elem_refs :: "jpath \<Rightarrow> nat \<Rightarrow> jsv list \<Rightarrow> text_ref list"
  and member_refs :: "jpath \<Rightarrow> js_fields \<Rightarrow> text_ref list" where
  "add_leaf_refs path (JStr s) = add_ref path (JStr s)"
| "add_leaf_refs path (JArr xs) = elem_refs path 0 xs"
| "add_leaf_refs path (JObj kvs) = member_refs path kvs"
| "add_leaf_refs path _ = []"
| "elem_refs path i [] = []"
| "elem_refs path i (x # xs) = add_leaf_refs (path @ [Idx i]) x @ elem_refs path (Suc i) xs"
| "member_refs path [] = []"
| "member_refs path ((k, v) # kvs) = add_leaf_refs (path @ [Key k]) v @ member_refs path kvs"

definition add_json_string_refs :: "jpath \<Rightarrow> jsv \<Rightarrow> text_ref list" where
  "add_json_string_refs path v =
     (case v of
        JStr s \<Rightarrow>
          if trim s = [] then []
          else (case json_parse s of
            None \<Rightarrow> add_ref path v
          | Some parsed \<Rightarrow>
              map (\<lambda>leaf. \<lparr>rf_path = path, rf_text = rf_text leaf, rf_json = Some (s, rf_path leaf)\<rparr>)
                (add_leaf_refs [] parsed))
      | _ \<Rightarrow> [])"

subsection \<open>Putting the texts back\<close>

text \<open>The documents of the JSON strings, by the path of their string: the \<open>Map\<close> of \<open>applyTexts\<close>, whose keys
  are the printed paths.\<close>

type_synonym json_docs = "(jpath \<times> jsv) list"

definition doc_of :: "json_docs \<Rightarrow> jpath \<Rightarrow> string \<Rightarrow> js_error + jsv" where
  "doc_of docs path source =
     (case map_of docs path of
        Some doc \<Rightarrow> Inr doc
      | None \<Rightarrow> (case json_parse source of Some doc \<Rightarrow> Inr doc | None \<Rightarrow> Inl (Thrown ''SyntaxError'')))"

fun apply_refs :: "(text_ref \<times> string) list \<Rightarrow> jsv \<times> json_docs \<Rightarrow> js_error + jsv \<times> json_docs" where
  "apply_refs [] st = Inr st"
| "apply_refs ((ref, t) # rest) (out, docs) =
     (case rf_json ref of
        None \<Rightarrow> apply_refs rest (set_at (rf_path ref) (JStr t) out, docs)
      | Some (source, leaf) \<Rightarrow>
          bind_js (doc_of docs (rf_path ref) source) (\<lambda>doc.
            apply_refs rest (out, AList.update (rf_path ref) (if leaf = [] then JStr t else set_at leaf (JStr t) doc) docs)))"

definition write_docs :: "json_docs \<Rightarrow> jsv \<Rightarrow> jsv" where
  "write_docs docs out = fold (\<lambda>(path, doc). set_at path (JStr (json_text doc))) docs out"

definition apply_texts :: "jsv \<Rightarrow> text_ref list \<Rightarrow> string list \<Rightarrow> js_error + jsv" where
  "apply_texts body refs texts =
     (if length refs \<noteq> length texts then Inl (Thrown ''refs and texts must be parallel'')
      else bind_js (apply_refs (zip refs texts) (body, [])) (\<lambda>(out, docs). Inr (write_docs docs out)))"

subsection \<open>The dialects\<close>

text \<open>\<open>xs.forEach((x, i) => ...)\<close> with the references that each call adds.\<close>

fun for_each :: "(nat \<Rightarrow> jsv \<Rightarrow> text_ref list) \<Rightarrow> nat \<Rightarrow> jsv list \<Rightarrow> text_ref list" where
  "for_each f i [] = []"
| "for_each f i (x # xs) = f i x @ for_each f (Suc i) xs"

definition each :: "jpath \<Rightarrow> jsv \<Rightarrow> (jpath \<Rightarrow> jsv \<Rightarrow> text_ref list) \<Rightarrow> text_ref list" where
  "each base v f = for_each (\<lambda>i. f (base @ [Idx i])) 0 (elems v)"

definition has_role :: "string list \<Rightarrow> jsv \<Rightarrow> bool" where
  "has_role roles v \<longleftrightarrow> (case v of JStr s \<Rightarrow> s \<in> set roles | _ \<Rightarrow> False)"

definition chat_redacted_roles :: "string list" where
  "chat_redacted_roles = [''user'', ''assistant'', ''tool'', ''function'']"

definition detail_text_fields :: "(string \<times> string) list" where
  "detail_text_fields = [(''reasoning.text'', ''text''), (''reasoning.summary'', ''summary'')]"

text \<open>\<open>DETAIL_TEXT_FIELDS[entry.type]\<close>, whose key is converted to a string. A type named like a member of
  \<open>Object.prototype\<close> finds a function, and no entry has a member with the printed function for its name.\<close>

definition detail_field :: "jsv \<Rightarrow> string option" where
  "detail_field entry = (case js_string (fld ''type'' entry) of Inr t \<Rightarrow> map_of detail_text_fields t | Inl e \<Rightarrow> None)"

definition text_part_refs :: "string list \<Rightarrow> jpath \<Rightarrow> jsv \<Rightarrow> text_ref list" where
  "text_part_refs types path part =
     (if has_role types (fld ''type'' part) then add_ref (path @ [Key ''text'']) (fld ''text'' part) else [])"

definition content_refs :: "string list \<Rightarrow> jpath \<Rightarrow> jsv \<Rightarrow> text_ref list" where
  "content_refs types path content =
     (if is_str content then add_ref path content else each path content (text_part_refs types))"

definition assistant_refs :: "jpath \<Rightarrow> jsv \<Rightarrow> text_ref list" where
  "assistant_refs base m =
     concat (map (\<lambda>f. add_ref (base @ [Key f]) (fld f m)) [''reasoning'', ''reasoning_content''])
     @ each (base @ [Key ''reasoning_details'']) (fld ''reasoning_details'' m)
         (\<lambda>path entry. case detail_field entry of Some f \<Rightarrow> add_ref (path @ [Key f]) (fld f entry) | None \<Rightarrow> [])
     @ each (base @ [Key ''tool_calls'']) (fld ''tool_calls'' m)
         (\<lambda>path tc. add_json_string_refs (path @ [Key ''function'', Key ''arguments'']) (fld ''arguments'' (fld ''function'' tc)))
     @ add_json_string_refs (base @ [Key ''function_call'', Key ''arguments'']) (fld ''arguments'' (fld ''function_call'' m))"

definition chat_message_refs :: "jpath \<Rightarrow> jsv \<Rightarrow> text_ref list" where
  "chat_message_refs base m =
     (if \<not> typeof_object m then []
      else (if has_role chat_redacted_roles (fld ''role'' m)
            then content_refs [''text''] (base @ [Key ''content'']) (fld ''content'' m) else [])
        @ (if fld ''role'' m = JStr ''assistant'' then assistant_refs base m else []))"

text \<open>The one exception of \<open>extractTexts\<close>: the type of a reasoning detail that cannot be converted.\<close>

definition details_convertible :: "jsv \<Rightarrow> bool" where
  "details_convertible body =
     list_all (\<lambda>m. fld ''role'' m = JStr ''assistant'' \<longrightarrow>
         list_all (\<lambda>entry. convertible (fld ''type'' entry)) (elems (fld ''reasoning_details'' m)))
       (elems (fld ''messages'' body))"

definition chat_extract_texts :: "jsv \<Rightarrow> js_error + text_ref list" where
  "chat_extract_texts body =
     (if details_convertible body then Inr (each [Key ''messages''] (fld ''messages'' body) chat_message_refs)
      else Inl TypeError)"

definition messages_redacted_roles :: "string list" where
  "messages_redacted_roles = [''user'', ''assistant'']"

definition messages_block_refs :: "jpath \<Rightarrow> jsv \<Rightarrow> text_ref list" where
  "messages_block_refs path block =
     (if \<not> typeof_object block then []
      else if fld ''type'' block = JStr ''text'' then add_ref (path @ [Key ''text'']) (fld ''text'' block)
      else if fld ''type'' block = JStr ''tool_use'' then add_leaf_refs (path @ [Key ''input'']) (fld ''input'' block)
      else if fld ''type'' block = JStr ''tool_result''
        then content_refs [''text''] (path @ [Key ''content'']) (fld ''content'' block)
      else [])"

definition messages_message_refs :: "jpath \<Rightarrow> jsv \<Rightarrow> text_ref list" where
  "messages_message_refs base m =
     (if \<not> typeof_object m \<or> \<not> has_role messages_redacted_roles (fld ''role'' m) then []
      else if is_str (fld ''content'' m) then add_ref (base @ [Key ''content'']) (fld ''content'' m)
      else each (base @ [Key ''content'']) (fld ''content'' m) messages_block_refs)"

definition messages_extract_texts :: "jsv \<Rightarrow> js_error + text_ref list" where
  "messages_extract_texts body = Inr (each [Key ''messages''] (fld ''messages'' body) messages_message_refs)"

definition responses_item_type :: "jsv \<Rightarrow> jsv" where
  "responses_item_type item =
     nullish (fld ''type'' item) (if truthy (fld ''role'' item) then JStr ''message'' else JUndef)"

definition responses_item_refs :: "jpath \<Rightarrow> jsv \<Rightarrow> text_ref list" where
  "responses_item_refs base item =
     (if \<not> typeof_object item then []
      else
        let type = responses_item_type item
        in if type = JStr ''message'' then
             if has_role messages_redacted_roles (fld ''role'' item)
             then content_refs [''input_text'', ''output_text''] (base @ [Key ''content'']) (fld ''content'' item) else []
           else if type = JStr ''function_call'' then add_json_string_refs (base @ [Key ''arguments'']) (fld ''arguments'' item)
           else if type = JStr ''function_call_output''
             then content_refs [''input_text''] (base @ [Key ''output'']) (fld ''output'' item)
           else if type = JStr ''reasoning''
             then each (base @ [Key ''summary'']) (fld ''summary'' item) (\<lambda>path s. add_ref (path @ [Key ''text'']) (fld ''text'' s))
           else [])"

definition responses_extract_texts :: "jsv \<Rightarrow> js_error + text_ref list" where
  "responses_extract_texts body =
     Inr (if is_str (fld ''input'' body) then add_ref [Key ''input''] (fld ''input'' body)
          else each [Key ''input''] (fld ''input'' body) responses_item_refs)"

subsection \<open>Reads and writes along paths\<close>

definition apart :: "jpath \<Rightarrow> jpath \<Rightarrow> bool" where
  "apart p q \<longleftrightarrow> \<not> prefix p q \<and> \<not> prefix q p"

lemma apart_sym: "apart p q \<Longrightarrow> apart q p"
  by (auto simp: apart_def)

lemma apart_Nil [simp]: "\<not> apart [] q" "\<not> apart p []"
  by (simp_all add: apart_def)

lemma apart_Cons [simp]: "apart (k # p) (j # q) \<longleftrightarrow> k \<noteq> j \<or> apart p q"
  by (auto simp: apart_def)

lemma apart_append [simp]: "apart (b @ p) (b @ q) \<longleftrightarrow> apart p q"
  by (simp add: apart_def)

lemma apart_irrefl [simp]: "\<not> apart p p"
  by (simp add: apart_def)

lemma child_put: "has_child k v \<Longrightarrow> child j (put_child k x v) = (if j = k then x else child j v)"
  by (cases k; cases v; cases j) (auto simp: update_conv')

lemma has_child_put: "has_child k v \<Longrightarrow> has_child j (put_child k x v) = has_child j v"
  by (cases k; cases v; cases j) (auto simp: dom_update)

lemma update_commute:
  "k \<noteq> j \<Longrightarrow> k \<in> fst ` set kvs \<Longrightarrow> j \<in> fst ` set kvs
    \<Longrightarrow> AList.update k x (AList.update j y kvs) = AList.update j y (AList.update k x kvs)"
  by (induction kvs) auto

lemma put_child_commute:
  "k \<noteq> j \<Longrightarrow> has_child k v \<Longrightarrow> has_child j v \<Longrightarrow> put_child k x (put_child j y v) = put_child j y (put_child k x v)"
  by (cases k; cases v; cases j) (auto simp: update_commute list_update_swap)

lemma put_child_twice: "put_child k x (put_child k y v) = put_child k x v"
  by (cases k; cases v) auto

lemma has_set_self: "has_path p v \<Longrightarrow> has_path p (set_at p x v)"
  by (induction p arbitrary: v) (auto simp: child_put has_child_put)

lemma get_set_self: "has_path p v \<Longrightarrow> get_at p (set_at p x v) = x"
  by (induction p arbitrary: v) (auto simp: child_put)

lemma has_set_apart: "apart p q \<Longrightarrow> has_path p v \<Longrightarrow> has_path q (set_at p x v) = has_path q v"
proof (induction p arbitrary: q v)
  case (Cons k p)
  then show ?case by (cases q) (auto simp: child_put has_child_put)
qed simp

lemma get_set_apart: "apart p q \<Longrightarrow> has_path p v \<Longrightarrow> get_at q (set_at p x v) = get_at q v"
proof (induction p arbitrary: q v)
  case (Cons k p)
  then show ?case by (cases q) (auto simp: child_put)
qed simp

lemma set_twice: "has_path p v \<Longrightarrow> set_at p x (set_at p y v) = set_at p x v"
  by (induction p arbitrary: v) (auto simp: child_put put_child_twice)

lemma set_commute:
  "apart p q \<Longrightarrow> has_path p v \<Longrightarrow> has_path q v \<Longrightarrow> set_at p x (set_at q y v) = set_at q y (set_at p x v)"
proof (induction p arbitrary: q v)
  case (Cons k p)
  obtain j q' where q: "q = j # q'" using Cons.prems(1) by (cases q) auto
  show ?case
  proof (cases "k = j")
    case True
    then show ?thesis using Cons q by (auto simp: child_put put_child_twice)
  next
    case False
    then show ?thesis using Cons.prems q by (auto simp: child_put put_child_commute)
  qed
qed simp

text \<open>A value with the places of a list of paths blanked: what a write to these places leaves as it was.\<close>

definition mask :: "jpath list \<Rightarrow> jsv \<Rightarrow> jsv" where
  "mask ps v = fold (\<lambda>p. set_at p JNull) ps v"

definition spread_out :: "jpath list \<Rightarrow> jsv \<Rightarrow> bool" where
  "spread_out ps v \<longleftrightarrow> (\<forall>p \<in> set ps. has_path p v \<and> (\<forall>q \<in> set ps. p = q \<or> apart p q))"

lemma spread_out_set:
  assumes "spread_out ps v" "p \<in> set ps"
  shows "spread_out ps (set_at p x v)"
  unfolding spread_out_def
proof (intro ballI conjI)
  fix q assume q: "q \<in> set ps"
  with assms show "has_path q (set_at p x v)"
    unfolding spread_out_def by (metis has_set_apart has_set_self)
qed (use assms in \<open>auto simp: spread_out_def\<close>)

lemma mask_set: "spread_out ps v \<Longrightarrow> p \<in> set ps \<Longrightarrow> mask ps (set_at p x v) = mask ps v"
proof (induction ps arbitrary: v)
  case (Cons q ps)
  have q: "has_path q v" "has_path p v" "p = q \<or> apart q p"
    using Cons.prems by (auto simp: spread_out_def)
  show ?case
  proof (cases "p = q")
    case True
    then show ?thesis using q by (simp add: mask_def set_twice)
  next
    case False
    have "spread_out (q # ps) (set_at q JNull v)" using Cons.prems(1) by (intro spread_out_set) auto
    then have "spread_out ps (set_at q JNull v)" by (simp add: spread_out_def)
    with Cons.IH Cons.prems(2) False q show ?thesis by (simp add: mask_def set_commute)
  qed
qed simp

definition write_all :: "(jpath \<times> jsv) list \<Rightarrow> jsv \<Rightarrow> jsv" where
  "write_all ws v = fold (\<lambda>(p, x). set_at p x) ws v"

lemma write_all_simps [simp]:
  "write_all [] v = v" "write_all ((p, x) # ws) v = write_all ws (set_at p x v)"
  "write_all (ws @ ws') v = write_all ws' (write_all ws v)"
  by (simp_all add: write_all_def)

lemma write_all_mask:
  "spread_out ps v \<Longrightarrow> set (map fst ws) \<subseteq> set ps \<Longrightarrow> mask ps (write_all ws v) = mask ps v \<and> spread_out ps (write_all ws v)"
  by (induction ws arbitrary: v) (auto simp: mask_set spread_out_set)

lemma write_all_other:
  "spread_out ps v \<Longrightarrow> set (map fst ws) \<subseteq> set ps \<Longrightarrow> q \<in> set ps \<Longrightarrow> q \<notin> set (map fst ws)
    \<Longrightarrow> get_at q (write_all ws v) = get_at q v"
proof (induction ws arbitrary: v)
  case (Cons w ws)
  obtain p x where w: "w = (p, x)" by force
  have "apart p q" "has_path p v" using Cons.prems w by (auto simp: spread_out_def)
  moreover have "spread_out ps (set_at p x v)" using Cons.prems w by (intro spread_out_set) auto
  ultimately show ?case using Cons w by (auto simp: get_set_apart)
qed simp

lemma write_all_read:
  "spread_out ps v \<Longrightarrow> set (map fst ws) \<subseteq> set ps \<Longrightarrow> distinct (map fst ws) \<Longrightarrow> (q, y) \<in> set ws
    \<Longrightarrow> get_at q (write_all ws v) = y"
proof (induction ws arbitrary: v)
  case (Cons w ws)
  obtain p x where w: "w = (p, x)" by force
  have v': "spread_out ps (set_at p x v)" using Cons.prems w by (intro spread_out_set) auto
  show ?case
  proof (cases "(q, y) \<in> set ws")
    case True
    then show ?thesis using Cons.IH [OF v'] Cons.prems w by simp
  next
    case False
    then have qy: "q = p" "y = x" using Cons.prems w by auto
    have "get_at q (write_all ws (set_at p x v)) = get_at q (set_at p x v)"
      using Cons.prems w qy by (intro write_all_other [OF v']) auto
    moreover have "has_path p v" using Cons.prems w by (auto simp: spread_out_def)
    ultimately show ?thesis using w qy by (simp add: get_set_self)
  qed
qed simp

subsection \<open>What makes references sound\<close>

text \<open>What a reference says of the value at its place.\<close>

definition ref_reads :: "text_ref \<Rightarrow> jsv \<Rightarrow> bool" where
  "ref_reads r x \<longleftrightarrow>
     (case rf_json r of
        None \<Rightarrow> x = JStr (rf_text r)
      | Some (source, leaf) \<Rightarrow>
          x = JStr source
          \<and> (\<exists>doc. json_parse source = Some doc \<and> has_path leaf doc \<and> get_at leaf doc = JStr (rf_text r)))"

text \<open>Two references never write to one place: their paths part, or they are leaves of one JSON string.\<close>

definition ref_apart :: "text_ref \<Rightarrow> text_ref \<Rightarrow> bool" where
  "ref_apart r r' \<longleftrightarrow>
     apart (rf_path r) (rf_path r')
     \<or> rf_path r = rf_path r'
       \<and> (case (rf_json r, rf_json r') of (Some (_, l), Some (_, l')) \<Rightarrow> apart l l' | _ \<Rightarrow> False)"

definition refs_in :: "jpath \<Rightarrow> jsv \<Rightarrow> text_ref list \<Rightarrow> bool" where
  "refs_in base v refs \<longleftrightarrow>
     (\<forall>r \<in> set refs. \<exists>q. rf_path r = base @ q \<and> has_path q v \<and> ref_reads r (get_at q v))
     \<and> sorted_wrt ref_apart refs"

lemma refs_in_Nil [simp]: "refs_in base v []"
  by (simp add: refs_in_def)

lemma refs_in_undef: "refs_in base JUndef refs \<Longrightarrow> refs = []"
proof -
  have "\<not> (has_path q JUndef \<and> ref_reads r (get_at q JUndef))" for q r
    by (cases q) (auto simp: ref_reads_def split: option.splits elim!: has_child.elims)
  then show "refs_in base JUndef refs \<Longrightarrow> refs = []"
    by (cases refs) (auto simp: refs_in_def)
qed

lemma child_missing: "\<not> has_child k v \<Longrightarrow> child k v = JUndef"
  by (cases k; cases v) (force split: option.splits dest: map_of_SomeD)+

lemma add_ref_in: "refs_in base v (add_ref base v)"
  by (cases v) (auto simp: refs_in_def add_ref_def ref_reads_def intro!: exI [of _ "[]"])

lemma refs_in_under: "refs_in base v refs \<Longrightarrow> r \<in> set refs \<Longrightarrow> prefix base (rf_path r)"
  by (auto simp: refs_in_def)

text \<open>References below distinct children of a value are references of the value.\<close>

lemma refs_in_children:
  assumes "distinct (map fst parts)" "\<forall>(k, rs) \<in> set parts. refs_in (base @ [k]) (child k v) rs"
  shows "refs_in base v (concat (map snd parts))"
  using assms
proof (induction parts)
  case (Cons part parts)
  obtain k rs where part: "part = (k, rs)" by force
  have here: "refs_in (base @ [k]) (child k v) rs" and rest: "refs_in base v (concat (map snd parts))"
    using Cons part by auto
  have lifted: "\<exists>q. rf_path r = base @ q \<and> has_path q v \<and> ref_reads r (get_at q v)" if r: "r \<in> set rs" for r
  proof -
    have "has_child k v"
      using r here refs_in_undef [of "base @ [k]" rs] child_missing [of k v] by fastforce
    moreover obtain q where "rf_path r = (base @ [k]) @ q" "has_path q (child k v)" "ref_reads r (get_at q (child k v))"
      using here r unfolding refs_in_def by blast
    ultimately show ?thesis by (intro exI [of _ "k # q"]) simp
  qed
  have "ref_apart r r'" if r: "r \<in> set rs" and r': "r' \<in> set (concat (map snd parts))" for r r'
  proof -
    obtain j rs' where j: "(j, rs') \<in> set parts" "r' \<in> set rs'" using r' by auto
    then have "j \<noteq> k" using Cons.prems(1) part by force
    moreover have "prefix (base @ [k]) (rf_path r)" using refs_in_under [OF here r] .
    moreover have "prefix (base @ [j]) (rf_path r')" using j Cons.prems(2) by (auto intro: refs_in_under)
    ultimately show ?thesis by (auto simp: ref_apart_def prefix_def)
  qed
  with lifted here rest show ?case by (simp add: part refs_in_def sorted_wrt_append) blast
qed simp

lemma refs_in_child: "refs_in (base @ [k]) (child k v) rs \<Longrightarrow> refs_in base v rs"
  using refs_in_children [of "[(k, rs)]" base v] by simp

lemma for_each_parts: "for_each f i xs = concat (map snd (map (\<lambda>(j, x). (Idx j, f j x)) (enumerate i xs)))"
  by (induction xs arbitrary: i) auto

lemma distinct_indices: "distinct (map fst (map (\<lambda>(j, x). (Idx j, f j x)) (enumerate i xs)))"
proof -
  have "map fst (map (\<lambda>(j, x). (Idx j, f j x)) (enumerate i xs)) = map Idx (map fst (enumerate i xs))"
    unfolding map_map by (rule map_cong) auto
  then show ?thesis by (simp add: distinct_map inj_on_def)
qed

lemma each_in:
  assumes "\<And>i x. x \<in> set (elems v) \<Longrightarrow> refs_in (base @ [Idx i]) x (f (base @ [Idx i]) x)"
  shows "refs_in base v (each base v f)"
proof (cases v)
  case (JArr xs)
  have "refs_in base v (concat (map snd (map (\<lambda>(j, x). (Idx j, f (base @ [Idx j]) x)) (enumerate 0 xs))))"
  proof (rule refs_in_children [OF distinct_indices])
    show "\<forall>(k, rs) \<in> set (map (\<lambda>(j, x). (Idx j, f (base @ [Idx j]) x)) (enumerate 0 xs)). refs_in (base @ [k]) (child k v) rs"
      using assms JArr by (auto simp: in_set_enumerate_eq)
  qed
  then show ?thesis using JArr by (simp add: each_def for_each_parts)
qed (simp_all add: each_def)

text \<open>An object whose names are distinct, and so is every object in it: what \<open>JSON.parse\<close> builds.\<close>

fun keys_ok :: "jsv \<Rightarrow> bool" where
  "keys_ok (JArr xs) = (\<forall>x \<in> set xs. keys_ok x)"
| "keys_ok (JObj kvs) = (distinct (map fst kvs) \<and> (\<forall>(k, v) \<in> set kvs. keys_ok v))"
| "keys_ok _ = True"

lemma elem_refs_each: "elem_refs path i xs = for_each (\<lambda>i x. add_leaf_refs (path @ [Idx i]) x) i xs"
  by (induction xs arbitrary: i) auto

lemma member_refs_parts: "member_refs path kvs = concat (map snd (map (\<lambda>(k, v). (Key k, add_leaf_refs (path @ [Key k]) v)) kvs))"
  by (induction kvs) auto

lemma leaf_refs_in: "keys_ok v \<Longrightarrow> refs_in base v (add_leaf_refs base v)"
proof (induction v arbitrary: base)
  case (JStr s)
  then show ?case by (simp add: add_ref_in)
next
  case (JArr xs)
  have "refs_in base (JArr xs) (each base (JArr xs) add_leaf_refs)"
    using JArr by (intro each_in) auto
  then show ?case by (simp add: each_def elem_refs_each)
next
  case (JObj kvs)
  have "refs_in base (JObj kvs) (concat (map snd (map (\<lambda>(k, v). (Key k, add_leaf_refs (base @ [Key k]) v)) kvs)))"
  proof (rule refs_in_children)
    have "map fst (map (\<lambda>(k, v). (Key k, add_leaf_refs (base @ [Key k]) v)) kvs) = map Key (map fst kvs)" by auto
    then show "distinct (map fst (map (\<lambda>(k, v). (Key k, add_leaf_refs (base @ [Key k]) v)) kvs))"
      using JObj.prems by (simp add: distinct_map inj_on_def)
    have "map_of kvs k = Some v" if "(k, v) \<in> set kvs" for k v using JObj.prems that by simp
    then show "\<forall>(k, rs) \<in> set (map (\<lambda>(k, v). (Key k, add_leaf_refs (base @ [Key k]) v)) kvs).
        refs_in (base @ [k]) (child k (JObj kvs)) rs"
      using JObj by (fastforce simp: snds.simps)
  qed
  then show ?case by (simp add: member_refs_parts)
qed simp_all

subsection \<open>What \<open>JSON.parse\<close> returns has distinct names\<close>

fun tok_ok :: "jtok \<Rightarrow> bool" where
  "tok_ok (TVal v) = keys_ok v" | "tok_ok _ = True"

fun frame_ok :: "jframe \<Rightarrow> bool" where
  "frame_ok (InArr xs) = keys_ok (JArr xs)" | "frame_ok (InObj kvs k) = keys_ok (JObj kvs)"

fun mode_ok :: "jmode \<Rightarrow> bool" where
  "mode_ok (NeedKey kvs) = keys_ok (JObj kvs)"
| "mode_ok (NeedColon kvs k) = keys_ok (JObj kvs)"
| "mode_ok (Have v) = keys_ok v"
| "mode_ok _ = True"

lemma in_update: "(j, y) \<in> set (AList.update k v kvs) \<Longrightarrow> (j, y) \<in> set kvs \<or> j = k \<and> y = v"
  by (induction kvs) (auto split: if_splits)

lemma insert_keys:
  "keys_ok (JObj (kvs @ kvs')) \<Longrightarrow> keys_ok v \<Longrightarrow> k \<notin> fst ` set (kvs @ kvs') \<Longrightarrow> keys_ok (JObj (kvs @ (k, v) # kvs'))"
  by (auto 0 4)

lemma put_key_keys: "keys_ok (JObj kvs) \<Longrightarrow> keys_ok v \<Longrightarrow> keys_ok (JObj (put_key k v kvs))"
proof -
  assume kvs: "keys_ok (JObj kvs)" and v: "keys_ok v"
  let ?below = "\<lambda>(j, _ :: jsv). is_index j \<and> digits_value j < digits_value k"
  have "keys_ok (JObj (AList.update k v kvs))"
    using kvs v by (force simp: distinct_update dest: in_update)
  moreover have "keys_ok (JObj (kvs @ [(k, v)]))" if "map_of kvs k = None"
    by (rule insert_keys) (use kvs v that in \<open>auto simp: map_of_eq_None_iff simp del: keys_ok.simps\<close>)
  moreover have "keys_ok (JObj (takeWhile ?below kvs @ (k, v) # dropWhile ?below kvs))" if "map_of kvs k = None"
    by (rule insert_keys) (use kvs v that in \<open>auto simp: map_of_eq_None_iff simp del: keys_ok.simps\<close>)
  ultimately show ?thesis by (auto simp: put_key_def Let_def)
qed

lemma json_step_keys:
  assumes "json_step t (st, mode) = Some (st', mode')" "tok_ok t" "list_all frame_ok st" "mode_ok mode"
  shows "list_all frame_ok st' \<and> mode_ok mode'"
proof -
  have val: "list_all frame_ok st' \<and> mode_ok mode'" if "value_token st t = Some (st', mode')"
    using that assms(2,3) by (cases "(st, t)" rule: value_token.cases) (auto split: if_splits)
  have close: "list_all frame_ok st' \<and> mode_ok mode'" if "after_value st v c = Some (st', mode')" "keys_ok v" for v c
    using that assms(3)
    by (cases "(st, v, c)" rule: after_value.cases) (auto split: if_splits simp del: keys_ok.simps(2) intro: put_key_keys)
  have empty: "keys_ok (JObj [])" by simp
  show ?thesis
    using assms val close empty
    by (cases "(t, st, mode)" rule: json_step.cases)
      (auto split: jtok.splits list.splits jframe.splits if_splits simp del: keys_ok.simps(2))
qed

lemma json_run_keys:
  "json_run (st, mode) ts = Some (st', mode') \<Longrightarrow> list_all tok_ok ts \<Longrightarrow> list_all frame_ok st \<Longrightarrow> mode_ok mode
    \<Longrightarrow> list_all frame_ok st' \<and> mode_ok mode'"
proof (induction ts arbitrary: st mode)
  case (Cons t ts)
  then obtain st1 mode1 where "json_step t (st, mode) = Some (st1, mode1)" "json_run (st1, mode1) ts = Some (st', mode')"
    by (auto split: option.splits)
  then show ?case using Cons json_step_keys by (metis list.pred_inject(2))
qed simp

lemma lex_word_keys: "lex_word s = Some (v, r) \<Longrightarrow> keys_ok v"
  by (auto simp: lex_word_def json_words_def split: option.splits if_splits)

lemma json_tokens_keys: "json_tokens s = Some ts \<Longrightarrow> list_all tok_ok ts"
proof (induction s arbitrary: ts rule: json_tokens.induct)
  case (2 c s)
  then show ?case by (fastforce split: if_splits option.splits prod.splits dest: lex_word_keys)
qed simp

lemma json_parse_keys: "json_parse s = Some v \<Longrightarrow> keys_ok v"
  using json_run_keys [of "[]" NeedValue] json_tokens_keys
  by (fastforce simp: json_parse_def split: option.splits jmode.splits if_splits)

lemma leaf_refs_plain:
  "leaf \<in> set (add_leaf_refs b v) \<Longrightarrow> rf_json leaf = None"
  "leaf \<in> set (elem_refs b i xs) \<Longrightarrow> rf_json leaf = None"
  "leaf \<in> set (member_refs b kvs) \<Longrightarrow> rf_json leaf = None"
  by (induction b v and b i xs and b kvs rule: add_leaf_refs_elem_refs_member_refs.induct)
    (auto simp: add_ref_def split: if_splits)

lemma json_string_refs_in: "refs_in base v (add_json_string_refs base v)"
proof (cases v)
  case (JStr s)
  show ?thesis
  proof (cases "json_parse s")
    case None
    then show ?thesis using JStr add_ref_in [of base v] by (simp add: add_json_string_refs_def)
  next
    case (Some doc)
    have doc: "refs_in [] doc (add_leaf_refs [] doc)" by (rule leaf_refs_in [OF json_parse_keys [OF Some]])
    have "refs_in base v (map (\<lambda>leaf. \<lparr>rf_path = base, rf_text = rf_text leaf, rf_json = Some (s, rf_path leaf)\<rparr>)
        (add_leaf_refs [] doc))"
      using doc Some JStr leaf_refs_plain(1) [of _ "[]" doc]
      by (fastforce simp: refs_in_def ref_reads_def ref_apart_def sorted_wrt_map intro: sorted_wrt_mono_rel [rotated])
    then show ?thesis using JStr Some by (simp add: add_json_string_refs_def)
  qed
qed (simp_all add: add_json_string_refs_def)

subsection \<open>The contract of a dialect\<close>

text \<open>What the pipeline relies on: the references of a parsed body are sound.\<close>

locale pii_dialect =
  fixes find_texts :: "jsv \<Rightarrow> js_error + text_ref list"
  assumes found_sound: "keys_ok body \<Longrightarrow> find_texts body = Inr refs \<Longrightarrow> refs_in [] body refs"

definition parts_of :: "jpath \<Rightarrow> jsv \<Rightarrow> (string \<times> text_ref list) list \<Rightarrow> bool" where
  "parts_of base v parts \<longleftrightarrow> distinct (map fst parts) \<and> (\<forall>(k, rs) \<in> set parts. refs_in (base @ [Key k]) (fld k v) rs)"

lemma refs_in_fields:
  assumes "parts_of base v parts"
  shows "refs_in base v (concat (map snd parts))"
proof -
  let ?ps = "map (\<lambda>(k, rs). (Key k, rs)) parts"
  have "map fst ?ps = map Key (map fst parts)" "map snd ?ps = map snd parts" by auto
  moreover have "refs_in base v (concat (map snd ?ps))"
  proof (rule refs_in_children)
    show "distinct (map fst ?ps)"
      unfolding \<open>map fst ?ps = map Key (map fst parts)\<close> using assms by (simp add: parts_of_def distinct_map inj_on_def)
    show "\<forall>(k, rs) \<in> set ?ps. refs_in (base @ [k]) (child k v) rs" using assms by (fastforce simp: parts_of_def)
  qed
  ultimately show ?thesis by metis
qed

lemma refs_in_key: "refs_in (base @ [Key k]) (fld k v) rs \<Longrightarrow> refs_in base v rs"
  using refs_in_child [of base "Key k" v rs] by simp

lemma refs_in_top: "refs_in [Key k] (fld k v) rs \<Longrightarrow> refs_in [] v rs"
  using refs_in_key [of "[]" k v rs] by simp

lemma field_ref_in: "refs_in base v (add_ref (base @ [Key k]) (fld k v))"
  by (rule refs_in_key [OF add_ref_in])

lemma content_refs_in: "refs_in base v (content_refs types base v)"
proof -
  have "refs_in path x (text_part_refs types path x)" for path x
    by (auto simp: text_part_refs_def intro: field_ref_in)
  then show ?thesis by (simp add: content_refs_def add_ref_in each_in)
qed

lemma nested_json_refs_in: "refs_in base v (add_json_string_refs (base @ [Key j, Key k]) (fld k (fld j v)))"
  using refs_in_key [OF refs_in_key [of "base @ [Key j]" k "fld j v"]] json_string_refs_in by simp

lemma detail_refs_in:
  "refs_in base v (case detail_field v of Some f \<Rightarrow> add_ref (base @ [Key f]) (fld f v) | None \<Rightarrow> [])"
  by (simp add: field_ref_in split: option.split)

lemma parts_of_Nil [simp]: "parts_of base v []"
  by (simp add: parts_of_def)

lemma parts_of_Cons [simp]:
  "parts_of base v ((k, rs) # parts) \<longleftrightarrow>
     k \<notin> fst ` set parts \<and> refs_in (base @ [Key k]) (fld k v) rs \<and> parts_of base v parts"
  by (auto simp: parts_of_def)

lemma chat_message_refs_in: "refs_in base m (chat_message_refs base m)"
proof -
  have call: "refs_in (base @ [Key ''function_call'']) (fld ''function_call'' m)
      (add_json_string_refs (base @ [Key ''function_call'', Key ''arguments'']) (fld ''arguments'' (fld ''function_call'' m)))"
    using refs_in_key [of "base @ [Key ''function_call'']" "''arguments''" "fld ''function_call'' m"] json_string_refs_in
    by simp
  have "parts_of base m
     [(''content'', if has_role chat_redacted_roles (fld ''role'' m)
          then content_refs [''text''] (base @ [Key ''content'']) (fld ''content'' m) else []),
      (''reasoning'', if a then add_ref (base @ [Key ''reasoning'']) (fld ''reasoning'' m) else []),
      (''reasoning_content'', if a then add_ref (base @ [Key ''reasoning_content'']) (fld ''reasoning_content'' m) else []),
      (''reasoning_details'', if a then each (base @ [Key ''reasoning_details'']) (fld ''reasoning_details'' m)
         (\<lambda>path entry. case detail_field entry of Some f \<Rightarrow> add_ref (path @ [Key f]) (fld f entry) | None \<Rightarrow> []) else []),
      (''tool_calls'', if a then each (base @ [Key ''tool_calls'']) (fld ''tool_calls'' m)
         (\<lambda>path tc. add_json_string_refs (path @ [Key ''function'', Key ''arguments'']) (fld ''arguments'' (fld ''function'' tc))) else []),
      (''function_call'', if a then add_json_string_refs (base @ [Key ''function_call'', Key ''arguments''])
         (fld ''arguments'' (fld ''function_call'' m)) else [])]" for a
    by (simp add: add_ref_in content_refs_in call each_in [OF detail_refs_in] each_in [OF nested_json_refs_in])
  from refs_in_fields [OF this [of "fld ''role'' m = JStr ''assistant''"]] show ?thesis
    by (simp add: chat_message_refs_def assistant_refs_def split: if_splits)
qed

lemma messages_message_refs_in:
  assumes "keys_ok m"
  shows "refs_in base m (messages_message_refs base m)"
proof -
  have kept: "keys_ok (fld k v)" if "keys_ok v" for k v
    using that by (cases v) (auto split: option.split dest!: map_of_SomeD)
  have block: "refs_in path x (messages_block_refs path x)" if "keys_ok x" for path x
    using refs_in_key [of path "''input''" x] refs_in_key [of path "''content''" x] leaf_refs_in [OF kept [OF that]]
    by (auto simp: messages_block_refs_def content_refs_in intro: field_ref_in)
  have "keys_ok x" if "x \<in> set (elems (fld ''content'' m))" for x
    using kept [OF assms, of "''content''"] that by (cases "fld ''content'' m") auto
  then have "refs_in (base @ [Key ''content'']) (fld ''content'' m)
      (each (base @ [Key ''content'']) (fld ''content'' m) messages_block_refs)"
    by (intro each_in block)
  then show ?thesis by (auto simp: messages_message_refs_def intro: field_ref_in refs_in_key)
qed

lemma responses_item_refs_in: "refs_in base m (responses_item_refs base m)"
proof -
  have "refs_in path x (add_ref (path @ [Key ''text'']) (fld ''text'' x))" for path x
    by (rule field_ref_in)
  then have "refs_in base m (each (base @ [Key ''summary'']) (fld ''summary'' m) (\<lambda>path s. add_ref (path @ [Key ''text'']) (fld ''text'' s)))"
    by (intro refs_in_key [of base "''summary''"] each_in)
  moreover have "refs_in base m (content_refs types (base @ [Key k]) (fld k m))" for types k
    by (rule refs_in_key [OF content_refs_in])
  moreover have "refs_in base m (add_json_string_refs (base @ [Key k]) (fld k m))" for k
    by (rule refs_in_key [OF json_string_refs_in])
  ultimately show ?thesis by (simp add: responses_item_refs_def Let_def)
qed

interpretation chat_dialect: pii_dialect chat_extract_texts
proof
  fix body refs
  assume "chat_extract_texts body = Inr refs"
  moreover have "refs_in ([] @ [Key ''messages'']) (fld ''messages'' body)
      (each ([] @ [Key ''messages'']) (fld ''messages'' body) chat_message_refs)"
    by (intro each_in chat_message_refs_in)
  ultimately show "refs_in [] body refs"
    by (auto simp: chat_extract_texts_def split: if_splits intro: refs_in_top)
qed

interpretation messages_dialect: pii_dialect messages_extract_texts
proof
  fix body refs
  assume body: "keys_ok body" and refs: "messages_extract_texts body = Inr refs"
  have "keys_ok x" if "x \<in> set (elems (fld ''messages'' body))" for x
    using body that by (cases body; cases "fld ''messages'' body") (auto split: option.splits dest!: map_of_SomeD)
  then have "refs_in ([] @ [Key ''messages'']) (fld ''messages'' body)
      (each ([] @ [Key ''messages'']) (fld ''messages'' body) messages_message_refs)"
    by (intro each_in messages_message_refs_in)
  with refs show "refs_in [] body refs"
    by (auto simp: messages_extract_texts_def intro: refs_in_top)
qed

interpretation responses_dialect: pii_dialect responses_extract_texts
proof
  fix body refs
  assume "responses_extract_texts body = Inr refs"
  moreover have "refs_in ([] @ [Key ''input'']) (fld ''input'' body)
      (each ([] @ [Key ''input'']) (fld ''input'' body) responses_item_refs)"
    by (intro each_in responses_item_refs_in)
  moreover have "refs_in [] body (add_ref [Key ''input''] (fld ''input'' body))"
    using field_ref_in [of "[]"] by simp
  ultimately show "refs_in [] body refs"
    by (auto simp: responses_extract_texts_def intro: refs_in_top split: if_splits)
qed

subsection \<open>What \<open>applyTexts\<close> changes\<close>

definition plain_writes :: "(text_ref \<times> string) list \<Rightarrow> (jpath \<times> jsv) list" where
  "plain_writes pairs = concat (map (\<lambda>(r, t). if rf_json r = None then [(rf_path r, JStr t)] else []) pairs)"

definition leaf_writes :: "jpath \<Rightarrow> (text_ref \<times> string) list \<Rightarrow> (jpath \<times> jsv) list" where
  "leaf_writes path pairs =
     concat (map (\<lambda>(r, t). case rf_json r of
         Some (source, leaf) \<Rightarrow> if rf_path r = path then [(leaf, JStr t)] else []
       | None \<Rightarrow> []) pairs)"

lemma writes_simps [simp]:
  "plain_writes [] = []" "leaf_writes path [] = []"
  "plain_writes ((r, t) # pairs) = (if rf_json r = None then [(rf_path r, JStr t)] else []) @ plain_writes pairs"
  "leaf_writes path ((r, t) # pairs) = (case rf_json r of
      Some (source, leaf) \<Rightarrow> if rf_path r = path then [(leaf, JStr t)] else [] | None \<Rightarrow> []) @ leaf_writes path pairs"
  by (simp_all add: plain_writes_def leaf_writes_def)

text \<open>Every JSON reference of a path has one source, which parses.\<close>

definition sources_ok :: "(jpath \<Rightarrow> jsv) \<Rightarrow> text_ref list \<Rightarrow> bool" where
  "sources_ok doc0 refs \<longleftrightarrow>
     (\<forall>r \<in> set refs. case rf_json r of None \<Rightarrow> True | Some (source, leaf) \<Rightarrow> json_parse source = Some (doc0 (rf_path r)))"

lemma apply_refs_run:
  assumes "sources_ok doc0 (map fst pairs)" "distinct (map fst docs)"
  shows "\<exists>docs'. apply_refs pairs (out, docs) = Inr (write_all (plain_writes pairs) out, docs') \<and> distinct (map fst docs')
    \<and> (\<forall>path. map_of docs' path =
         (if leaf_writes path pairs = [] then map_of docs path
          else Some (write_all (leaf_writes path pairs) (case map_of docs path of Some d \<Rightarrow> d | None \<Rightarrow> doc0 path))))"
  using assms
proof (induction pairs arbitrary: out docs)
  case (Cons pair pairs)
  obtain r t where pair: "pair = (r, t)" by force
  have rest: "sources_ok doc0 (map fst pairs)" using Cons.prems(1) by (simp add: sources_ok_def)
  show ?case
  proof (cases "rf_json r")
    case None
    then show ?thesis
      using Cons.IH [OF rest Cons.prems(2), of "set_at (rf_path r) (JStr t) out"] pair by (simp cong: if_cong split del: if_split)
  next
    case (Some sl)
    obtain source leaf where sl: "sl = (source, leaf)" by force
    let ?p = "rf_path r"
    let ?d = "case map_of docs ?p of Some d \<Rightarrow> d | None \<Rightarrow> doc0 ?p"
    let ?docs = "AList.update ?p (set_at leaf (JStr t) ?d) docs"
    have "json_parse source = Some (doc0 ?p)" using Cons.prems(1) Some pair sl by (simp add: sources_ok_def)
    then have "doc_of docs ?p source = Inr ?d" by (simp add: doc_of_def split: option.split)
    moreover have "(if leaf = [] then JStr t else set_at leaf (JStr t) ?d) = set_at leaf (JStr t) ?d" by simp
    ultimately have step: "apply_refs (pair # pairs) (out, docs) = apply_refs pairs (out, ?docs)"
      using pair Some sl by simp
    have docs: "distinct (map fst ?docs)" using Cons.prems(2) by (simp add: distinct_update)
    from Cons.IH [OF rest docs, of out] obtain docs' where docs':
      "apply_refs pairs (out, ?docs) = Inr (write_all (plain_writes pairs) out, docs')" "distinct (map fst docs')"
      "\<forall>path. map_of docs' path =
         (if leaf_writes path pairs = [] then map_of ?docs path
          else Some (write_all (leaf_writes path pairs) (case map_of ?docs path of Some d \<Rightarrow> d | None \<Rightarrow> doc0 path)))"
      by blast
    show ?thesis
    proof (intro exI [of _ docs'] conjI allI)
      show "apply_refs (pair # pairs) (out, docs) = Inr (write_all (plain_writes (pair # pairs)) out, docs')"
        using step docs'(1) pair Some by simp
      show "map_of docs' path =
         (if leaf_writes path (pair # pairs) = [] then map_of docs path
          else Some (write_all (leaf_writes path (pair # pairs)) (case map_of docs path of Some d \<Rightarrow> d | None \<Rightarrow> doc0 path)))" for path
        using docs'(3) [rule_format, of path] pair Some sl by (cases "path = ?p") (simp_all add: update_conv' cong: if_cong option.case_cong)
    qed (rule docs'(2))
  qed
qed simp

lemma write_docs_all: "write_docs docs out = write_all (map (\<lambda>(path, doc). (path, JStr (json_text doc))) docs) out"
  by (induction docs arbitrary: out) (auto simp: write_docs_def)

text \<open>A text stands at the place of its reference. For a leaf of a JSON string the string is the text of the
  document with this leaf set, in which nothing but the referenced leaves has changed.\<close>

definition leaves_of :: "jpath \<Rightarrow> text_ref list \<Rightarrow> jpath list" where
  "leaves_of path refs =
     concat (map (\<lambda>r. case rf_json r of
         Some (source, leaf) \<Rightarrow> if rf_path r = path then [leaf] else [] | None \<Rightarrow> []) refs)"

definition ref_shows :: "text_ref list \<Rightarrow> jsv \<Rightarrow> text_ref \<Rightarrow> string \<Rightarrow> bool" where
  "ref_shows refs out r t \<longleftrightarrow>
     (case rf_json r of
        None \<Rightarrow> get_at (rf_path r) out = JStr t
      | Some (source, leaf) \<Rightarrow>
          \<exists>doc0 doc. json_parse source = Some doc0 \<and> get_at (rf_path r) out = JStr (json_text doc)
            \<and> get_at leaf doc = JStr t \<and> mask (leaves_of (rf_path r) refs) doc = mask (leaves_of (rf_path r) refs) doc0)"

lemma sorted_wrt_two: "sorted_wrt P xs \<Longrightarrow> x \<in> set xs \<Longrightarrow> y \<in> set xs \<Longrightarrow> x = y \<or> P x y \<or> P y x"
  by (induction xs) auto

lemma refs_in_two:
  "refs_in base v refs \<Longrightarrow> r \<in> set refs \<Longrightarrow> r' \<in> set refs \<Longrightarrow> r = r' \<or> ref_apart r r'"
proof -
  have "ref_apart r' r \<Longrightarrow> ref_apart r r'" for r r'
    by (auto simp: ref_apart_def intro: apart_sym split: option.splits)
  then show "refs_in base v refs \<Longrightarrow> r \<in> set refs \<Longrightarrow> r' \<in> set refs \<Longrightarrow> r = r' \<or> ref_apart r r'"
    unfolding refs_in_def by (metis sorted_wrt_two)
qed

lemma ref_apart_paths: "ref_apart r r' \<Longrightarrow> rf_path r = rf_path r' \<or> apart (rf_path r) (rf_path r')"
  by (auto simp: ref_apart_def)

lemma refs_spread_out: "refs_in [] body refs \<Longrightarrow> spread_out (map rf_path refs) body"
  using refs_in_two [of "[]" body refs] by (fastforce simp: spread_out_def refs_in_def dest: ref_apart_paths)

definition source_doc :: "jsv \<Rightarrow> jpath \<Rightarrow> jsv" where
  "source_doc body path = (case json_parse (str_of (get_at path body)) of Some doc \<Rightarrow> doc | None \<Rightarrow> JUndef)"

lemma refs_json:
  assumes "refs_in [] body refs" "r \<in> set refs" "rf_json r = Some (source, leaf)"
  shows "json_parse source = Some (source_doc body (rf_path r))" "has_path leaf (source_doc body (rf_path r))"
  using assms by (fastforce simp: refs_in_def ref_reads_def source_doc_def)+

lemma refs_sources: "refs_in [] body refs \<Longrightarrow> sources_ok (source_doc body) refs"
  by (auto simp: sources_ok_def dest: refs_json split: option.split)

lemma leaf_in_leaves: "leaf \<in> set (leaves_of path refs) \<longleftrightarrow> (\<exists>r \<in> set refs. \<exists>source. rf_json r = Some (source, leaf) \<and> rf_path r = path)"
proof (induction refs)
  case (Cons r refs)
  then show ?case by (cases "rf_json r") (auto simp: leaves_of_def)
qed (simp add: leaves_of_def)

lemma leaves_spread_out:
  assumes "refs_in [] body refs"
  shows "spread_out (leaves_of path refs) (source_doc body path)"
  unfolding spread_out_def
proof (intro ballI conjI)
  fix l assume "l \<in> set (leaves_of path refs)"
  then obtain r s where r: "r \<in> set refs" "rf_json r = Some (s, l)" "rf_path r = path" by (auto simp: leaf_in_leaves)
  then show "has_path l (source_doc body path)" using refs_json(2) [OF assms r(1,2)] by simp
  fix l' assume "l' \<in> set (leaves_of path refs)"
  then obtain r' s' where r': "r' \<in> set refs" "rf_json r' = Some (s', l')" "rf_path r' = path" by (auto simp: leaf_in_leaves)
  show "l = l' \<or> apart l l'"
    using refs_in_two [OF assms r(1) r'(1)] r r' by (auto simp: ref_apart_def)
qed

lemma leaf_writes_fst: "length refs = length texts \<Longrightarrow> map fst (leaf_writes path (zip refs texts)) = leaves_of path refs"
  by (induction refs texts rule: list_induct2) (auto simp: leaves_of_def split: option.splits)

lemma leaves_distinct: "sorted_wrt ref_apart refs \<Longrightarrow> distinct (leaves_of path refs)"
proof (induction refs)
  case (Cons r refs)
  have "leaf \<notin> set (leaves_of path refs)" if "rf_json r = Some (source, leaf)" "rf_path r = path" for source leaf
  proof
    assume "leaf \<in> set (leaves_of path refs)"
    then obtain r' s' where "r' \<in> set refs" "rf_json r' = Some (s', leaf)" "rf_path r' = path"
      by (auto simp: leaf_in_leaves)
    then show False using Cons.prems that by (auto simp: ref_apart_def)
  qed
  with Cons show ?case by (cases "rf_json r") (auto simp: leaves_of_def)
qed (simp add: leaves_of_def)

lemma plain_path: "p \<in> fst ` set (plain_writes pairs) \<longleftrightarrow> (\<exists>(r, t) \<in> set pairs. rf_json r = None \<and> rf_path r = p)"
  by (induction pairs) auto

lemma plain_distinct:
  "length refs = length texts \<Longrightarrow> sorted_wrt ref_apart refs \<Longrightarrow> distinct (map fst (plain_writes (zip refs texts)))"
proof (induction refs texts rule: list_induct2)
  case (Cons r refs t texts)
  have "rf_path r \<notin> fst ` set (plain_writes (zip refs texts))" if "rf_json r = None"
  proof
    assume "rf_path r \<in> fst ` set (plain_writes (zip refs texts))"
    then obtain r' where "r' \<in> set refs" "rf_json r' = None" "rf_path r' = rf_path r"
      by (auto simp: plain_path dest: set_zip_leftD)
    then show False using Cons.prems that by (auto simp: ref_apart_def)
  qed
  with Cons show ?case by (cases "rf_json r") simp_all
qed simp

text \<open>The whole of \<open>applyTexts\<close> on the references of a body: it succeeds, each text is at its place, and
  nothing else has changed.\<close>

lemma apply_texts_sound:
  assumes refs: "refs_in [] body refs" and len: "length refs = length texts"
  obtains out where "apply_texts body refs texts = Inr out"
    and "mask (map rf_path refs) out = mask (map rf_path refs) body"
    and "\<forall>(r, t) \<in> set (zip refs texts). ref_shows refs out r t"
proof -
  let ?pairs = "zip refs texts"
  have sorted: "sorted_wrt ref_apart refs" using refs by (simp add: refs_in_def)
  have fsts: "map fst ?pairs = refs" using len by simp
  obtain docs where run: "apply_refs ?pairs (body, []) = Inr (write_all (plain_writes ?pairs) body, docs)"
    and one: "distinct (map fst docs)"
    and each_doc: "\<forall>path. map_of docs path = (if leaf_writes path ?pairs = [] then map_of [] path
       else Some (write_all (leaf_writes path ?pairs) (case map_of [] path of Some d \<Rightarrow> d | None \<Rightarrow> source_doc body path)))"
    using apply_refs_run [of "source_doc body" ?pairs "[]" body] refs_sources [OF refs] unfolding fsts by auto
  have docs: "distinct (map fst docs)"
    "\<And>path. map_of docs path = (if leaf_writes path ?pairs = [] then None
       else Some (write_all (leaf_writes path ?pairs) (source_doc body path)))"
    using one each_doc by simp_all
  let ?ws = "plain_writes ?pairs @ map (\<lambda>(path, doc). (path, JStr (json_text doc))) docs"
  have out: "apply_texts body refs texts = Inr (write_all ?ws body)"
    by (simp add: apply_texts_def len run write_docs_all)
  have doc_paths: "p \<in> fst ` set docs \<longleftrightarrow> leaves_of p refs \<noteq> []" for p
    using docs(2) [of p] leaf_writes_fst [OF len, of p]
    by (metis list.map_disc_iff map_of_eq_None_iff option.distinct(1))
  have second: "map fst (map (\<lambda>(path, doc). (path, JStr (json_text doc))) docs) = map fst docs" by auto
  have plain: "p \<in> set (map rf_path refs)" if "p \<in> fst ` set (plain_writes ?pairs)" for p
    using that by (auto simp: plain_path dest: set_zip_leftD)
  have json: "p \<in> set (map rf_path refs)" if "leaves_of p refs \<noteq> []" for p
    using that leaf_in_leaves [of _ p refs] by (cases "leaves_of p refs") auto
  have inside: "set (map fst ?ws) \<subseteq> set (map rf_path refs)"
    unfolding map_append second set_append
  proof (intro Un_least subsetI)
    fix p assume "p \<in> set (map fst docs)"
    then have "p \<in> fst ` set docs" by (simp only: set_map)
    then show "p \<in> set (map rf_path refs)" using doc_paths json by blast
  next
    fix p assume "p \<in> set (map fst (plain_writes ?pairs))"
    then show "p \<in> set (map rf_path refs)" using plain by (simp only: set_map)
  qed
  have "leaves_of p refs = []" if p: "p \<in> fst ` set (plain_writes ?pairs)" for p
  proof -
    obtain r where r: "r \<in> set refs" "rf_json r = None" "rf_path r = p"
      using p unfolding plain_path by (blast dest: set_zip_leftD)
    have False if r': "r' \<in> set refs" "rf_json r' = Some (source, leaf)" "rf_path r' = p" for r' source leaf
    proof -
      have "ref_apart r r'" using refs_in_two [OF refs r(1) r'(1)] r(2) r'(2) by auto
      then show False using r r' by (simp add: ref_apart_def)
    qed
    then have "leaf \<notin> set (leaves_of p refs)" for leaf unfolding leaf_in_leaves by blast
    then show ?thesis by (cases "leaves_of p refs") auto
  qed
  then have distinct: "distinct (map fst ?ws)"
    unfolding map_append second using plain_distinct [OF len sorted] docs(1) doc_paths by auto
  note spread = refs_spread_out [OF refs]
  note read = write_all_read [OF spread inside distinct]
  have shown: "ref_shows refs (write_all ?ws body) r t" if rt: "(r, t) \<in> set ?pairs" for r t
  proof (cases "rf_json r")
    case None
    then have "(rf_path r, JStr t) \<in> set ?ws" using rt by (force simp: plain_writes_def)
    from read [OF this] show ?thesis using None by (simp add: ref_shows_def)
  next
    case (Some sl)
    obtain source leaf where sl: "rf_json r = Some (source, leaf)" using Some by (cases sl) auto
    let ?p = "rf_path r"
    let ?lw = "leaf_writes ?p ?pairs"
    let ?doc = "write_all ?lw (source_doc body ?p)"
    have r: "r \<in> set refs" using rt by (rule set_zip_leftD)
    have written: "(leaf, JStr t) \<in> set ?lw" using rt sl by (force simp: leaf_writes_def)
    then have "map_of docs ?p = Some ?doc" using docs(2) [of ?p] by auto
    then have "(?p, JStr (json_text ?doc)) \<in> set ?ws" by (force dest: map_of_SomeD)
    note placed = read [OF this]
    note leaves = leaves_spread_out [OF refs, of ?p]
    have sub: "set (map fst ?lw) \<subseteq> set (leaves_of ?p refs)" "distinct (map fst ?lw)"
      unfolding leaf_writes_fst [OF len] using leaves_distinct [OF sorted] by auto
    show ?thesis
      using placed refs_json(1) [OF refs r sl] write_all_read [OF leaves sub written] write_all_mask [OF leaves sub(1)]
      by (auto simp: ref_shows_def sl)
  qed
  show ?thesis
    using that [OF out] write_all_mask [OF spread inside] shown by blast
qed

end
