(* ===== verification/PiiDetector.thy ===== *)
theory PiiDetector
  imports PiiCore JsConvert ReasoningMirror
begin

text \<open>
  The detector of personal data, \<open>enclave/src/pii/detector.mjs\<close>. The HTTP call of \<open>post\<close> is a parameter that maps
  the payload to what came of it; the spans and the bill are read from its answer. A code point of the model
  is one code unit, so \<open>codePointTable\<close> is the identity on \<open>0..length\<close>.
\<close>

subsection \<open>Constants\<close>

definition hosted_labels :: "(string \<times> string option) list" where
  "hosted_labels =
     [(''private_person'', Some ''PERSON''), (''private_email'', Some ''EMAIL''), (''private_phone'', Some ''PHONE''),
      (''private_address'', Some ''ADDRESS''), (''account_number'', Some ''ID''), (''secret'', Some ''ID''),
      (''private_url'', Some ''IP''), (''private_date'', None)]"

definition edge_chars :: string where
  "edge_chars = [CHR '' '', CHR 0x09, CHR 0x0A, CHR 0x0D] @ ''.,;:!?'' @ [CHR 0x22, CHR 0x27] @ ''()[]<>''"

definition detector_max_input_tokens :: int where "detector_max_input_tokens = 80000"
definition max_billable_input_tokens :: int where "max_billable_input_tokens = 10 * detector_max_input_tokens"

subsection \<open>Errors and the bill\<close>

record detector_usage =
  du_calls :: nat
  du_tokens :: int
  du_estimated :: bool

text \<open>A \<open>DetectorError\<close> by its reason, or a \<open>TypeError\<close> of the language; with the bill of a call that was
  answered, which only a \<open>DetectorError\<close> carries.\<close>

datatype detector_reason = Timeout | Aborted | HttpStatus | Network | BadResponse | UnknownLabel | BadConfig

datatype detector_error = DetectorError detector_reason "detector_usage option" | DetectorTypeError

text \<open>What became of a call: nothing was answered, a 200 whose body is no JSON, or a 200 with its body; the
  billing receipt of a 200 is a header, \<open>None\<close> when absent.\<close>

datatype post_result =
    PostFailed detector_reason
  | PostUnreadable detector_reason "string option"
  | PostAnswered jsv "string option"

definition estimate_input_tokens :: "string \<Rightarrow> int" where
  "estimate_input_tokens s =
     min (max 1 ((int (utf8_length s) + 3) div 4)) max_billable_input_tokens"

definition billable_input_tokens :: "string option \<Rightarrow> int option" where
  "billable_input_tokens header =
     (case header of
        None \<Rightarrow> None
      | Some raw \<Rightarrow>
          let s = trim raw; n = int (digits_value s)
          in if s \<noteq> [] \<and> length s \<le> 8 \<and> list_all is_digit s \<and> 1 \<le> n \<and> n \<le> max_billable_input_tokens
             then Some n else None)"

definition call_usage :: "string \<Rightarrow> string option \<Rightarrow> detector_usage" where
  "call_usage sent header =
     (case billable_input_tokens header of
        Some n \<Rightarrow> \<lparr>du_calls = 1, du_tokens = n, du_estimated = False\<rparr>
      | None \<Rightarrow> \<lparr>du_calls = 1, du_tokens = estimate_input_tokens sent, du_estimated = True\<rparr>)"

subsection \<open>Spans\<close>

function trim_low :: "string \<Rightarrow> nat \<Rightarrow> nat \<Rightarrow> nat" where
  "trim_low s a b = (if a < b \<and> s ! a \<in> set edge_chars then trim_low s (Suc a) b else a)"
  by pat_completeness auto
termination by (relation "measure (\<lambda>(s, a, b). b - a)") auto

function trim_high :: "string \<Rightarrow> nat \<Rightarrow> nat \<Rightarrow> nat" where
  "trim_high s a b = (if a < b \<and> s ! (b - 1) \<in> set edge_chars then trim_high s a (b - 1) else b)"
  by pat_completeness auto
termination by (relation "measure (\<lambda>(s, a, b). b - a)") auto

declare trim_low.simps [simp del] trim_high.simps [simp del]

definition trim_edges :: "string \<Rightarrow> nat \<Rightarrow> nat \<Rightarrow> nat \<times> nat" where
  "trim_edges s a b = (let a' = trim_low s a b in (a', trim_high s a' b))"

definition is_text_index :: "jsv \<Rightarrow> bool" where
  "is_text_index v \<longleftrightarrow> num_integer v \<and> 0 \<le> num_rat v"

definition to_utf16 :: "string \<Rightarrow> jsv \<Rightarrow> jsv \<Rightarrow> detector_error + nat \<times> nat" where
  "to_utf16 s a b =
     (if is_text_index a \<and> is_text_index b \<and> num_rat a \<le> num_rat b \<and> num_rat b < of_nat (length s + 1)
      then Inr (nat \<lfloor>num_rat a\<rfloor>, nat \<lfloor>num_rat b\<rfloor>) else Inl (DetectorError BadResponse None))"

type_synonym found_span = "nat \<times> nat \<times> string"

text \<open>One span of the hosted filter: where it is in the joined text, and its class; \<open>None\<close> for a label that is
  known and of no class.\<close>

definition hosted_span :: "string \<Rightarrow> jsv \<Rightarrow> detector_error + found_span option" where
  "hosted_span joined s =
     (if \<not> typeof_object s then Inl (DetectorError BadResponse None)
      else case js_string (fld ''label'' s) of
        Inl e \<Rightarrow> Inl DetectorTypeError
      | Inr label \<Rightarrow>
          (case map_of hosted_labels label of
             None \<Rightarrow> Inl (DetectorError UnknownLabel None)
           | Some cls \<Rightarrow>
               bind_js (to_utf16 joined (fld ''start'' s) (fld ''end'' s)) (\<lambda>(a, b).
                 Inr (map_option (\<lambda>c. (a, b, c)) cls))))"

fun each_right :: "('a \<Rightarrow> 'e + 'b) \<Rightarrow> 'a list \<Rightarrow> 'e + 'b list" where
  "each_right f [] = Inr []"
| "each_right f (x # xs) = bind_js (f x) (\<lambda>y. bind_js (each_right f xs) (\<lambda>ys. Inr (y # ys)))"

record part =
  pt_index :: nat
  pt_text :: string
  pt_offset :: nat

definition clip_span :: "part \<Rightarrow> found_span \<Rightarrow> found_span list" where
  "clip_span p s =
     (case s of (start, stop, cls) \<Rightarrow>
        let a = max start (pt_offset p) - pt_offset p; b = min stop (pt_offset p + length (pt_text p))
        in if a + pt_offset p < b then [(a, b - pt_offset p, cls)] else [])"

definition hosted_spans :: "string \<Rightarrow> part list \<Rightarrow> jsv \<Rightarrow> detector_error + found_span list list" where
  "hosted_spans joined parts body =
     (case fld ''detected_spans'' body of
        JArr ss \<Rightarrow>
          bind_js (each_right (hosted_span joined) ss) (\<lambda>found.
            Inr (map (\<lambda>p. concat (map (clip_span p) (List.map_filter id found))) parts))
      | _ \<Rightarrow> Inl (DetectorError BadResponse None))"

definition self_span :: "string \<Rightarrow> jsv \<Rightarrow> detector_error + found_span" where
  "self_span s v =
     (if \<not> typeof_object v then Inl (DetectorError BadResponse None)
      else case fld ''cls'' v of
        JStr cls \<Rightarrow>
          if cls \<in> set pii_classes
          then bind_js (to_utf16 s (fld ''start'' v) (fld ''end'' v)) (\<lambda>(a, b). Inr (a, b, cls))
          else Inl (DetectorError UnknownLabel None)
      | _ \<Rightarrow> Inl (DetectorError UnknownLabel None))"

definition self_part :: "part \<times> jsv \<Rightarrow> detector_error + found_span list" where
  "self_part pv =
     (case pv of (p, v) \<Rightarrow>
        (case v of JArr ss \<Rightarrow> each_right (self_span (pt_text p)) ss | _ \<Rightarrow> Inl (DetectorError BadResponse None)))"

definition self_spans :: "part list \<Rightarrow> jsv \<Rightarrow> detector_error + found_span list list" where
  "self_spans parts body =
     (case fld ''spans'' body of
        JArr ls \<Rightarrow>
          if length ls = length parts then each_right self_part (zip parts ls) else Inl (DetectorError BadResponse None)
      | _ \<Rightarrow> Inl (DetectorError BadResponse None))"

subsection \<open>A call\<close>

datatype detector_kind = Hosted | SelfHosted

definition create_detector_ok :: "string \<Rightarrow> jsv \<Rightarrow> jsv \<Rightarrow> bool" where
  "create_detector_ok kind url timeout \<longleftrightarrow>
     kind \<in> {''tinfoil-hosted'', ''tinfoil-self''}
     \<and> (case url of JStr u \<Rightarrow> starts_with u ''http://'' \<or> starts_with u ''https://'' | _ \<Rightarrow> False)
     \<and> num_finite timeout \<and> 0 < num_rat timeout"

text \<open>The texts that are sent, with their positions in the joined text.\<close>

fun parts_from :: "nat \<Rightarrow> nat \<Rightarrow> nat \<Rightarrow> string list \<Rightarrow> part list" where
  "parts_from sep i offset [] = []"
| "parts_from sep i offset (s # ss) =
     (if trim s = [] then parts_from sep (Suc i) offset ss
      else \<lparr>pt_index = i, pt_text = s, pt_offset = offset\<rparr> # parts_from sep (Suc i) (offset + length s + sep) ss)"

definition trimmed_spans :: "part \<Rightarrow> found_span list \<Rightarrow> pii_span list" where
  "trimmed_spans p found =
     concat (map (\<lambda>(a, b, cls). case trim_edges (pt_text p) a b of
        (a', b') \<Rightarrow> if a' < b' then [\<lparr>sp_start = int a', sp_end = int b', sp_cls = cls\<rparr>] else []) found)"

definition spans_of_index :: "part list \<Rightarrow> found_span list list \<Rightarrow> nat \<Rightarrow> pii_span list" where
  "spans_of_index parts found i =
     concat (map (\<lambda>(p, ss). if pt_index p = i then trimmed_spans p ss else []) (zip parts found))"

text \<open>The bill of an answered call is attached to a \<open>DetectorError\<close> and to no other error.\<close>

definition billed_error :: "detector_usage \<Rightarrow> detector_error \<Rightarrow> detector_error" where
  "billed_error u e = (case e of DetectorError reason _ \<Rightarrow> DetectorError reason (Some u) | DetectorTypeError \<Rightarrow> e)"

definition detect_payload :: "detector_kind \<Rightarrow> part list \<Rightarrow> string \<Rightarrow> jsv" where
  "detect_payload kind parts sent =
     (case kind of
        Hosted \<Rightarrow> JObj [(''text'', JStr sent)]
      | SelfHosted \<Rightarrow> JObj [(''texts'', JArr (map (\<lambda>p. JStr (pt_text p)) parts))])"

definition detect ::
    "detector_kind \<Rightarrow> string \<Rightarrow> (jsv \<Rightarrow> post_result) \<Rightarrow> string list \<Rightarrow> detector_error + pii_span list list \<times> detector_usage" where
  "detect kind separator post texts =
     (let parts = parts_from (length separator) 0 0 texts; sent = str_join separator (map pt_text parts)
      in if parts = [] then Inr (map (\<lambda>_. []) texts, \<lparr>du_calls = 0, du_tokens = 0, du_estimated = False\<rparr>)
         else case post (detect_payload kind parts sent) of
           PostFailed reason \<Rightarrow> Inl (DetectorError reason None)
         | PostUnreadable reason header \<Rightarrow> Inl (DetectorError reason (Some (call_usage sent header)))
         | PostAnswered body header \<Rightarrow>
             (case (case kind of Hosted \<Rightarrow> hosted_spans sent parts body | SelfHosted \<Rightarrow> self_spans parts body) of
                Inl e \<Rightarrow> Inl (billed_error (call_usage sent header) e)
              | Inr found \<Rightarrow> Inr (map (spans_of_index parts found) [0..<length texts], call_usage sent header)))"

subsection \<open>Trimming\<close>

lemma trim_low_spec:
  "a \<le> b \<Longrightarrow> a \<le> trim_low s a b \<and> trim_low s a b \<le> b \<and> (\<forall>j. a \<le> j \<and> j < trim_low s a b \<longrightarrow> s ! j \<in> set edge_chars)
    \<and> (trim_low s a b < b \<longrightarrow> s ! trim_low s a b \<notin> set edge_chars)"
proof (induction s a b rule: trim_low.induct)
  case (1 s a b)
  show ?case
  proof (cases "a < b \<and> s ! a \<in> set edge_chars")
    case True
    then have "trim_low s a b = trim_low s (Suc a) b" by (subst trim_low.simps) simp
    moreover have "s ! j \<in> set edge_chars" if "a \<le> j" "j < trim_low s (Suc a) b" for j
      using that True 1 by (cases "j = a") auto
    ultimately show ?thesis using 1 True by auto
  next
    case False
    then have "trim_low s a b = a" by (subst trim_low.simps) (simp only: if_False)
    then show ?thesis using 1 False by auto
  qed
qed

lemma trim_high_spec:
  "a \<le> b \<Longrightarrow> a \<le> trim_high s a b \<and> trim_high s a b \<le> b \<and> (\<forall>j. trim_high s a b \<le> j \<and> j < b \<longrightarrow> s ! j \<in> set edge_chars)
    \<and> (a < trim_high s a b \<longrightarrow> s ! (trim_high s a b - 1) \<notin> set edge_chars)"
proof (induction s a b rule: trim_high.induct)
  case (1 s a b)
  show ?case
  proof (cases "a < b \<and> s ! (b - 1) \<in> set edge_chars")
    case True
    then have eq: "trim_high s a b = trim_high s a (b - 1)" by (subst trim_high.simps) simp
    have IH: "a \<le> trim_high s a (b - 1) \<and> trim_high s a (b - 1) \<le> b - 1
        \<and> (\<forall>j. trim_high s a (b - 1) \<le> j \<and> j < b - 1 \<longrightarrow> s ! j \<in> set edge_chars)
        \<and> (a < trim_high s a (b - 1) \<longrightarrow> s ! (trim_high s a (b - 1) - 1) \<notin> set edge_chars)"
    proof (rule 1)
      show "a \<le> b - 1" using True by linarith
    qed (use True in auto)
    moreover have "s ! j \<in> set edge_chars" if "trim_high s a (b - 1) \<le> j" "j < b" for j
      using that True IH by (cases "j = b - 1") auto
    ultimately show ?thesis unfolding eq by auto
  next
    case False
    then have "trim_high s a b = b" by (subst trim_high.simps) (simp only: if_False)
    then show ?thesis using 1 False by auto
  qed
qed

text \<open>What trimming takes off a span is edge characters only, and it takes all of them.\<close>

lemma trim_edges_spec:
  assumes "trim_edges s a b = (a', b')" "a \<le> b"
  shows "a \<le> a'" "a' \<le> b'" "b' \<le> b"
    and "a \<le> j \<Longrightarrow> j < b \<Longrightarrow> s ! j \<notin> set edge_chars \<Longrightarrow> a' \<le> j \<and> j < b'"
    and "a' < b' \<Longrightarrow> s ! a' \<notin> set edge_chars \<and> s ! (b' - 1) \<notin> set edge_chars"
proof -
  have eq: "a' = trim_low s a b" "b' = trim_high s a' b" using assms(1) by (auto simp: trim_edges_def Let_def)
  note low = trim_low_spec [OF assms(2), of s, folded eq]
  then have "a' \<le> b" by simp
  note high = trim_high_spec [OF this, of s, folded eq]
  show "a \<le> a'" "a' \<le> b'" "b' \<le> b" using low high by simp_all
  show "a \<le> j \<Longrightarrow> j < b \<Longrightarrow> s ! j \<notin> set edge_chars \<Longrightarrow> a' \<le> j \<and> j < b'"
    using low high by (meson not_le)
  show "a' < b' \<Longrightarrow> s ! a' \<notin> set edge_chars \<and> s ! (b' - 1) \<notin> set edge_chars"
    using low high by auto
qed

subsection \<open>The parts\<close>

lemma parts_of_text:
  "p \<in> set (parts_from sep i off ss) \<Longrightarrow> i \<le> pt_index p \<and> pt_index p < i + length ss \<and> pt_text p = ss ! (pt_index p - i)
    \<and> trim (pt_text p) \<noteq> []"
proof (induction ss arbitrary: i off)
  case (Cons s ss)
  then show ?case by (fastforce simp: nth_Cons' split: if_splits)
qed simp

lemma text_has_part:
  "k < length ss \<Longrightarrow> trim (ss ! k) \<noteq> [] \<Longrightarrow> \<exists>p \<in> set (parts_from sep i off ss). pt_index p = i + k \<and> pt_text p = ss ! k"
proof (induction ss arbitrary: i off k)
  case (Cons s ss)
  show ?case
  proof (cases k)
    case (Suc n)
    have "\<exists>p \<in> set (parts_from sep (Suc i) o' ss). pt_index p = Suc i + n \<and> pt_text p = ss ! n" for o'
      using Cons.IH [of n "Suc i" o'] Cons.prems Suc by simp
    then show ?thesis using Suc by fastforce
  qed (use Cons in simp)
qed simp

lemma parts_indices: "distinct (map pt_index (parts_from sep i off ss))"
proof (induction ss arbitrary: i off)
  case (Cons s ss)
  have "i \<noteq> pt_index p" if "p \<in> set (parts_from sep (Suc i) o' ss)" for p o'
    using parts_of_text [OF that] by simp
  with Cons show ?case by auto
qed simp

subsection \<open>What the spans of an answer are\<close>

definition found_ok :: "string \<Rightarrow> found_span \<Rightarrow> bool" where
  "found_ok s f = (case f of (a, b, c) \<Rightarrow> a \<le> b \<and> b \<le> length s \<and> c \<in> set pii_classes)"

definition holds :: "found_span \<Rightarrow> nat \<Rightarrow> bool" where
  "holds f j = (case f of (a, b, c) \<Rightarrow> a \<le> j \<and> j < b)"

lemma no_surrogates: "\<not> is_high c"
proof -
  have "(of_char c :: int) < 256" using char_code_bounds(2) by blast
  then show ?thesis by (simp add: is_high_def)
qed

lemma in_trimmed:
  "s \<in> set (trimmed_spans p fs) \<longleftrightarrow> (\<exists>a b c a' b'. (a, b, c) \<in> set fs \<and> trim_edges (pt_text p) a b = (a', b') \<and> a' < b'
    \<and> s = \<lparr>sp_start = int a', sp_end = int b', sp_cls = c\<rparr>)"
proof -
  have "s \<in> set (trimmed_spans p fs) \<longleftrightarrow> (\<exists>(a, b, c) \<in> set fs. \<exists>a' b'. trim_edges (pt_text p) a b = (a', b') \<and> a' < b'
    \<and> s = \<lparr>sp_start = int a', sp_end = int b', sp_cls = c\<rparr>)"
    unfolding trimmed_spans_def set_concat set_map image_image UN_iff by (rule bex_cong) (auto split: prod.splits)
  then show ?thesis by (simp add: Bex_def split_paired_Ex)
qed

lemma trimmed_spans_ok:
  assumes "\<forall>f \<in> set fs. found_ok (pt_text p) f" "s \<in> set (trimmed_spans p fs)"
  shows "valid_span (pt_text p) s" "sp_start s < sp_end s"
    "pt_text p ! nat (sp_start s) \<notin> set edge_chars" "pt_text p ! nat (sp_end s - 1) \<notin> set edge_chars"
proof -
  obtain a b c a' b' where f: "(a, b, c) \<in> set fs" "trim_edges (pt_text p) a b = (a', b')" "a' < b'"
    and s: "s = \<lparr>sp_start = int a', sp_end = int b', sp_cls = c\<rparr>"
    using assms(2) by (auto simp: in_trimmed)
  have ok: "a \<le> b" "b \<le> length (pt_text p)" "c \<in> set pii_classes" using assms(1) f(1) by (auto simp: found_ok_def)
  note trim = trim_edges_spec [OF f(2) ok(1)]
  show "valid_span (pt_text p) s"
    using s ok trim(1-3) by (simp add: valid_span_def splits_pair_def no_surrogates)
  show "sp_start s < sp_end s" using s f(3) by simp
  show "pt_text p ! nat (sp_start s) \<notin> set edge_chars" using s trim(5) [OF f(3)] by simp
  have "nat (int b' - 1) = b' - 1" by simp
  then show "pt_text p ! nat (sp_end s - 1) \<notin> set edge_chars" using s trim(5) [OF f(3)] by simp
qed

lemma trimmed_spans_covers:
  assumes "\<forall>f \<in> set fs. found_ok (pt_text p) f"
  shows "covers (trimmed_spans p fs) (int j) \<Longrightarrow> \<exists>f \<in> set fs. holds f j"
    and "f \<in> set fs \<Longrightarrow> holds f j \<Longrightarrow> pt_text p ! j \<notin> set edge_chars \<Longrightarrow> covers (trimmed_spans p fs) (int j)"
proof -
  assume "covers (trimmed_spans p fs) (int j)"
  then obtain a b c a' b' where f: "(a, b, c) \<in> set fs" "trim_edges (pt_text p) a b = (a', b')" "a' \<le> j" "j < b'"
    by (auto simp: in_trimmed covers_def)
  moreover have "a \<le> b" using assms f(1) by (auto simp: found_ok_def)
  note trim_edges_spec(1-3) [OF f(2) this]
  ultimately show "\<exists>f \<in> set fs. holds f j" by (intro bexI [of _ "(a, b, c)"]) (auto simp: holds_def)
next
  assume f: "f \<in> set fs" "holds f j" "pt_text p ! j \<notin> set edge_chars"
  obtain a b c where abc: "f = (a, b, c)" by (cases f) auto
  have ab: "a \<le> b" "a \<le> j" "j < b" using f abc assms by (auto simp: found_ok_def holds_def)
  obtain a' b' where t: "trim_edges (pt_text p) a b = (a', b')" by force
  have j: "a' \<le> j \<and> j < b'" using trim_edges_spec(4) [OF t ab(1) ab(2,3) f(3)] .
  have "\<lparr>sp_start = int a', sp_end = int b', sp_cls = c\<rparr> \<in> set (trimmed_spans p fs)"
    using f(1) abc t j by (fastforce simp: in_trimmed)
  then show "covers (trimmed_spans p fs) (int j)" using j by (force simp: covers_def)
qed

lemma spans_of_no_part: "i \<notin> pt_index ` set parts \<Longrightarrow> spans_of_index parts found i = []"
  by (force simp: spans_of_index_def dest: set_zip_leftD)

lemma spans_of_part:
  "distinct (map pt_index parts) \<Longrightarrow> (p, fs) \<in> set (zip parts found) \<Longrightarrow> spans_of_index parts found (pt_index p) = trimmed_spans p fs"
proof (induction parts arbitrary: found)
  case (Cons q parts)
  obtain gs rest where found: "found = gs # rest" using Cons.prems(2) by (cases found) auto
  have none: "spans_of_index parts rest (pt_index q) = []"
    using Cons.prems(1) by (intro spans_of_no_part) simp
  show ?case
  proof (cases "(p, fs) = (q, gs)")
    case True
    then show ?thesis using none found by (simp add: spans_of_index_def)
  next
    case False
    then have "(p, fs) \<in> set (zip parts rest)" using Cons.prems(2) found by auto
    moreover have "pt_index q \<noteq> pt_index p" using calculation Cons.prems(1) by (force dest: set_zip_leftD)
    ultimately show ?thesis using Cons found by (simp add: spans_of_index_def)
  qed
qed simp

lemma each_right_all2: "each_right f xs = Inr ys \<Longrightarrow> list_all2 (\<lambda>x y. f x = Inr y) xs ys"
  by (induction xs arbitrary: ys) (auto simp: bind_js_Inr_iff)

lemma all2_right: "list_all2 P xs ys \<Longrightarrow> y \<in> set ys \<Longrightarrow> \<exists>x \<in> set xs. P x y"
  by (induction rule: list_all2_induct) auto

lemma all2_left: "list_all2 P xs ys \<Longrightarrow> x \<in> set xs \<Longrightarrow> \<exists>y \<in> set ys. P x y"
  by (induction rule: list_all2_induct) auto

text \<open>What the detector says of a position: of the joined text for the hosted filter, of the part otherwise.\<close>

definition in_range :: "jsv \<Rightarrow> nat \<Rightarrow> bool" where
  "in_range s x \<longleftrightarrow> num_rat (fld ''start'' s) \<le> of_nat x \<and> of_nat x < num_rat (fld ''end'' s)"

definition hosted_class :: "jsv \<Rightarrow> string option" where
  "hosted_class s = (case js_string (fld ''label'' s) of Inr label \<Rightarrow> Option.bind (map_of hosted_labels label) id | Inl e \<Rightarrow> None)"

definition marked :: "detector_kind \<Rightarrow> part list \<Rightarrow> jsv \<Rightarrow> part \<Rightarrow> nat \<Rightarrow> bool" where
  "marked kind parts body p j \<longleftrightarrow>
     (case kind of
        Hosted \<Rightarrow> \<exists>s \<in> set (elems (fld ''detected_spans'' body)). hosted_class s \<noteq> None \<and> in_range s (pt_offset p + j)
      | SelfHosted \<Rightarrow> \<exists>(q, v) \<in> set (zip parts (elems (fld ''spans'' body))). q = p \<and> (\<exists>s \<in> set (elems v). in_range s j))"

lemma to_utf16_range:
  assumes "to_utf16 s (fld ''start'' v) (fld ''end'' v) = Inr (a, b)"
  shows "a \<le> b" "b \<le> length s" "in_range v x \<longleftrightarrow> a \<le> x \<and> x < b"
proof -
  let ?s = "num_rat (fld ''start'' v)" let ?e = "num_rat (fld ''end'' v)"
  have ints: "num_integer (fld k v) \<Longrightarrow> num_rat (fld k v) = of_int \<lfloor>num_rat (fld k v)\<rfloor>" for k
    by (cases "fld k v" rule: num_integer.cases) auto
  have h: "num_integer (fld ''start'' v)" "num_integer (fld ''end'' v)" "0 \<le> ?s" "?s \<le> ?e" "?e < of_nat (length s + 1)"
    "a = nat \<lfloor>?s\<rfloor>" "b = nat \<lfloor>?e\<rfloor>"
    using assms by (auto simp: to_utf16_def is_text_index_def split: if_splits)
  have s: "?s = of_nat a"
    using ints [OF h(1)] h(3) of_nat_nat [of "\<lfloor>?s\<rfloor>", where 'a = rat] by (simp add: h(6))
  have e: "?e = of_nat b"
    using ints [OF h(2)] h(3,4) of_nat_nat [of "\<lfloor>?e\<rfloor>", where 'a = rat] by (simp add: h(7))
  show "a \<le> b" using h(4) unfolding s e by simp
  show "b \<le> length s" using h(5) unfolding e by (simp only: of_nat_less_iff)
  show "in_range v x \<longleftrightarrow> a \<le> x \<and> x < b" unfolding in_range_def s e by simp
qed

lemma hosted_span_found:
  assumes "hosted_span joined s = Inr (Some (a, b, c))"
  shows "hosted_class s = Some c" "c \<in> set pii_classes" "a \<le> b" "b \<le> length joined" "in_range s x \<longleftrightarrow> a \<le> x \<and> x < b"
proof -
  obtain label where label: "js_string (fld ''label'' s) = Inr label" "map_of hosted_labels label = Some (Some c)"
    and range: "to_utf16 joined (fld ''start'' s) (fld ''end'' s) = Inr (a, b)"
    using assms by (auto simp: hosted_span_def bind_js_Inr_iff split: if_splits sum.splits option.splits)
  show "hosted_class s = Some c" using label by (simp add: hosted_class_def)
  have "\<forall>e \<in> set hosted_labels. case snd e of Some k \<Rightarrow> k \<in> set pii_classes | None \<Rightarrow> True" by code_simp
  then show "c \<in> set pii_classes" using map_of_SomeD [OF label(2)] by force
  show "a \<le> b" "b \<le> length joined" "in_range s x \<longleftrightarrow> a \<le> x \<and> x < b" using to_utf16_range [OF range] by auto
qed

lemma hosted_span_no_class: "hosted_span joined s = Inr None \<Longrightarrow> hosted_class s = None"
  by (auto simp: hosted_span_def hosted_class_def bind_js_Inr_iff split: if_splits sum.splits option.splits)

lemma clip_span_ok: "found_ok s (a, b, c) \<Longrightarrow> f \<in> set (clip_span p (a, b, c)) \<Longrightarrow> found_ok (pt_text p) f"
  by (auto simp: clip_span_def found_ok_def Let_def split: if_splits)

lemma clip_span_holds:
  "j < length (pt_text p) \<Longrightarrow> (\<exists>f \<in> set (clip_span p (a, b, c)). holds f j) \<longleftrightarrow> a \<le> pt_offset p + j \<and> pt_offset p + j < b"
  by (auto simp: clip_span_def holds_def Let_def max_def min_def)

text \<open>Both placements: each part has spans of its own, within its text, and a position is in one of them
  exactly when the detector says so.\<close>

definition reads_answer :: "detector_kind \<Rightarrow> part list \<Rightarrow> jsv \<Rightarrow> found_span list list \<Rightarrow> bool" where
  "reads_answer kind parts body found \<longleftrightarrow>
     length found = length parts
     \<and> (\<forall>(p, fs) \<in> set (zip parts found). (\<forall>f \<in> set fs. found_ok (pt_text p) f)
          \<and> (\<forall>j < length (pt_text p). (\<exists>f \<in> set fs. holds f j) \<longleftrightarrow> marked kind parts body p j))"

lemma hosted_reads:
  assumes "hosted_spans joined parts body = Inr found"
  shows "reads_answer Hosted parts body found"
proof -
  obtain ss raw where ss: "fld ''detected_spans'' body = JArr ss" and raw: "each_right (hosted_span joined) ss = Inr raw"
    and found: "found = map (\<lambda>p. concat (map (clip_span p) (List.map_filter id raw))) parts"
    using assms by (auto simp: hosted_spans_def bind_js_Inr_iff split: jsv.splits)
  note all = each_right_all2 [OF raw]
  have kept: "(a, b, c) \<in> set (List.map_filter id raw) \<longleftrightarrow> Some (a, b, c) \<in> set raw" for a b c
    by (force simp: List.map_filter_def)
  have from_raw: "\<exists>s \<in> set ss. hosted_span joined s = Inr (Some f)" if "Some f \<in> set raw" for f
    using all2_right [OF all that] .
  have to_raw: "\<exists>f. Some f \<in> set raw \<and> hosted_span joined s = Inr (Some f)" if s: "s \<in> set ss" "hosted_class s \<noteq> None" for s
  proof -
    obtain o' where o': "o' \<in> set raw" "hosted_span joined s = Inr o'"
      using all2_left [OF all s(1)] by blast
    with hosted_span_no_class [of joined s] s(2) show ?thesis by (cases o') auto
  qed
  have ok: "found_ok (pt_text p) f" if f: "f \<in> set (concat (map (clip_span p) (List.map_filter id raw)))" for p f
  proof -
    obtain a b c where abc: "Some (a, b, c) \<in> set raw" "f \<in> set (clip_span p (a, b, c))" using f kept by auto
    obtain s where "hosted_span joined s = Inr (Some (a, b, c))" using from_raw [OF abc(1)] by blast
    then have "found_ok joined (a, b, c)" using hosted_span_found by (simp add: found_ok_def)
    then show ?thesis using abc(2) by (rule clip_span_ok)
  qed
  have holds: "(\<exists>f \<in> set (concat (map (clip_span p) (List.map_filter id raw))). holds f j) \<longleftrightarrow> marked Hosted parts body p j"
    if j: "j < length (pt_text p)" for p j
  proof -
    have "(\<exists>f \<in> set (concat (map (clip_span p) (List.map_filter id raw))). holds f j)
        \<longleftrightarrow> (\<exists>a b c. Some (a, b, c) \<in> set raw \<and> a \<le> pt_offset p + j \<and> pt_offset p + j < b)"
    proof -
      have "(\<exists>f \<in> set (concat (map (clip_span p) (List.map_filter id raw))). holds f j)
          \<longleftrightarrow> (\<exists>r \<in> set (List.map_filter id raw). \<exists>f \<in> set (clip_span p r). holds f j)"
        by auto
      also have "\<dots> \<longleftrightarrow> (\<exists>a b c. Some (a, b, c) \<in> set raw \<and> a \<le> pt_offset p + j \<and> pt_offset p + j < b)"
        unfolding Bex_def split_paired_Ex kept using clip_span_holds [OF j] unfolding Bex_def by simp
      finally show ?thesis .
    qed
    also have "\<dots> \<longleftrightarrow> marked Hosted parts body p j"
    proof
      assume "\<exists>a b c. Some (a, b, c) \<in> set raw \<and> a \<le> pt_offset p + j \<and> pt_offset p + j < b"
      then obtain a b c s where "s \<in> set ss" "hosted_span joined s = Inr (Some (a, b, c))" "a \<le> pt_offset p + j" "pt_offset p + j < b"
        using from_raw by blast
      then show "marked Hosted parts body p j"
        using hosted_span_found [of joined s a b c] ss by (auto simp: marked_def)
    next
      assume "marked Hosted parts body p j"
      then obtain s where s: "s \<in> set ss" "hosted_class s \<noteq> None" "in_range s (pt_offset p + j)"
        using ss by (auto simp: marked_def)
      obtain a b c where "Some (a, b, c) \<in> set raw" "hosted_span joined s = Inr (Some (a, b, c))"
        using to_raw [OF s(1,2)] by auto
      then show "\<exists>a b c. Some (a, b, c) \<in> set raw \<and> a \<le> pt_offset p + j \<and> pt_offset p + j < b"
        using hosted_span_found(5) s(3) by blast
    qed
    finally show ?thesis .
  qed
  show ?thesis
    unfolding reads_answer_def found using ok holds by (auto simp: zip_map2 zip_same_conv_map)
qed

lemma self_span_found:
  assumes "self_span s v = Inr (a, b, c)"
  shows "found_ok s (a, b, c)" "holds (a, b, c) x \<longleftrightarrow> in_range v x"
  using assms to_utf16_range [of s v a b]
  by (auto simp: self_span_def found_ok_def holds_def bind_js_Inr_iff split: if_splits jsv.splits)

lemma self_part_reads:
  assumes "self_part (p, v) = Inr fs"
  shows "\<forall>f \<in> set fs. found_ok (pt_text p) f" "(\<exists>f \<in> set fs. holds f x) \<longleftrightarrow> (\<exists>s \<in> set (elems v). in_range s x)"
proof -
  obtain ss where v: "v = JArr ss" and fs: "each_right (self_span (pt_text p)) ss = Inr fs"
    using assms by (auto simp: self_part_def split: jsv.splits)
  note all = each_right_all2 [OF fs]
  have to: "\<exists>s \<in> set ss. self_span (pt_text p) s = Inr f" if "f \<in> set fs" for f
    using all2_right [OF all that] .
  have fro: "\<exists>f \<in> set fs. self_span (pt_text p) s = Inr f" if "s \<in> set ss" for s
    using all2_left [OF all that] .
  have each: "found_ok (pt_text p) f \<and> (holds f x \<longleftrightarrow> in_range s x)" if "self_span (pt_text p) s = Inr f" for f s
    using that self_span_found by (cases f) blast
  show "\<forall>f \<in> set fs. found_ok (pt_text p) f" using to each by blast
  show "(\<exists>f \<in> set fs. holds f x) \<longleftrightarrow> (\<exists>s \<in> set (elems v). in_range s x)"
    unfolding v elems.simps using to fro each by blast
qed

lemma self_reads:
  assumes "self_spans parts body = Inr found" "distinct parts"
  shows "reads_answer SelfHosted parts body found"
proof -
  obtain ls where ls: "fld ''spans'' body = JArr ls" "length ls = length parts"
    and found: "each_right self_part (zip parts ls) = Inr found"
    using assms by (auto simp: self_spans_def split: jsv.splits if_splits)
  note all = each_right_all2 [OF found]
  have len: "length found = length parts" using list_all2_lengthD [OF all] ls(2) by simp
  have part: "(\<forall>f \<in> set (found ! k). found_ok (pt_text (parts ! k)) f)
      \<and> ((\<exists>f \<in> set (found ! k). holds f j) \<longleftrightarrow> marked SelfHosted parts body (parts ! k) j)" if k: "k < length parts" for k j
  proof -
    have "self_part (parts ! k, ls ! k) = Inr (found ! k)"
      using list_all2_nthD [OF all, of k] k ls(2) by simp
    note reads = self_part_reads [OF this]
    have here: "(parts ! k, ls ! k) \<in> set (zip parts ls)" using k ls(2) by (auto simp: set_zip)
    have only: "v = ls ! k" if "(parts ! k, v) \<in> set (zip parts ls)" for v
      using that k ls(2) assms(2) by (auto simp: set_zip nth_eq_iff_index_eq)
    have "marked SelfHosted parts body (parts ! k) j \<longleftrightarrow> (\<exists>s \<in> set (elems (ls ! k)). in_range s j)"
      using here by (auto simp: marked_def ls(1) dest!: only intro!: bexI [OF _ here])
    with reads show ?thesis by blast
  qed
  show ?thesis
    unfolding reads_answer_def
  proof (intro conjI ballI)
    fix pf assume "pf \<in> set (zip parts found)"
    then obtain k where "k < length parts" "pf = (parts ! k, found ! k)" by (auto simp: set_zip)
    then show "case pf of (p, fs) \<Rightarrow> (\<forall>f \<in> set fs. found_ok (pt_text p) f)
        \<and> (\<forall>j < length (pt_text p). (\<exists>f \<in> set fs. holds f j) \<longleftrightarrow> marked SelfHosted parts body p j)"
      using part by auto
  qed (rule len)
qed

text \<open>A text with its spans: they lie in it, none is empty or begins or ends with an edge character.\<close>

definition clean_spans :: "string \<Rightarrow> pii_span list \<Rightarrow> bool" where
  "clean_spans s ss \<longleftrightarrow>
     (\<forall>x \<in> set ss. valid_span s x \<and> sp_start x < sp_end x
        \<and> s ! nat (sp_start x) \<notin> set edge_chars \<and> s ! nat (sp_end x - 1) \<notin> set edge_chars)"

lemma detect_facts:
  assumes "detect kind separator post texts = Inr (spans, u)"
  shows "length spans = length texts" and "\<And>i. i < length texts \<Longrightarrow> clean_spans (texts ! i) (spans ! i)"
    and "\<And>parts body header p j. parts = parts_from (length separator) 0 0 texts
      \<Longrightarrow> post (detect_payload kind parts (str_join separator (map pt_text parts))) = PostAnswered body header
      \<Longrightarrow> p \<in> set parts \<Longrightarrow> j < length (pt_text p)
      \<Longrightarrow> (covers (spans ! pt_index p) (int j) \<longrightarrow> marked kind parts body p j)
        \<and> (marked kind parts body p j \<and> pt_text p ! j \<notin> set edge_chars \<longrightarrow> covers (spans ! pt_index p) (int j))"
proof -
  let ?parts = "parts_from (length separator) 0 0 texts"
  let ?sent = "str_join separator (map pt_text ?parts)"
  have of_text: "pt_text p = texts ! pt_index p" "pt_index p < length texts" if "p \<in> set ?parts" for p
    using parts_of_text [OF that] by simp_all
  have "distinct ?parts" using parts_indices [of "length separator" 0 0 texts] by (simp add: distinct_map)
  have main: "length spans = length texts \<and> (\<forall>i < length texts. clean_spans (texts ! i) (spans ! i))
    \<and> (\<forall>p j body header. post (detect_payload kind ?parts ?sent) = PostAnswered body header \<longrightarrow> p \<in> set ?parts \<longrightarrow> j < length (pt_text p)
       \<longrightarrow> (covers (spans ! pt_index p) (int j) \<longrightarrow> marked kind ?parts body p j)
        \<and> (marked kind ?parts body p j \<and> pt_text p ! j \<notin> set edge_chars \<longrightarrow> covers (spans ! pt_index p) (int j)))"
  proof (cases "?parts = []")
    case True
    then have "spans = map (\<lambda>_. []) texts" using assms by (simp add: detect_def Let_def)
    then show ?thesis using True by (simp add: clean_spans_def)
  next
    case False
    then obtain body header found where post: "post (detect_payload kind ?parts ?sent) = PostAnswered body header"
      and found: "(case kind of Hosted \<Rightarrow> hosted_spans ?sent ?parts body | SelfHosted \<Rightarrow> self_spans ?parts body) = Inr found"
      and spans: "spans = map (spans_of_index ?parts found) [0..<length texts]"
      using assms by (auto simp: detect_def Let_def split: post_result.splits sum.splits)
    have reads: "reads_answer kind ?parts body found"
      using found hosted_reads self_reads \<open>distinct ?parts\<close> by (auto split: detector_kind.splits)
    have part: "\<exists>fs. spans ! pt_index p = trimmed_spans p fs \<and> (\<forall>f \<in> set fs. found_ok (pt_text p) f)
        \<and> (\<forall>j < length (pt_text p). (\<exists>f \<in> set fs. holds f j) \<longleftrightarrow> marked kind ?parts body p j)" if p: "p \<in> set ?parts" for p
    proof -
      obtain k where k: "k < length ?parts" "p = ?parts ! k" using p by (auto simp: in_set_conv_nth)
      then have in_zip: "(p, found ! k) \<in> set (zip ?parts found)"
        using reads by (auto simp: reads_answer_def set_zip)
      have "spans ! pt_index p = trimmed_spans p (found ! k)"
        using spans_of_part [OF parts_indices in_zip] of_text(2) [OF p] by (simp add: spans)
      with reads in_zip show ?thesis unfolding reads_answer_def by blast
    qed
    have clean: "clean_spans (texts ! i) (spans ! i)" if i: "i < length texts" for i
    proof (cases "i \<in> pt_index ` set ?parts")
      case True
      then obtain p fs where p: "p \<in> set ?parts" "i = pt_index p" "spans ! i = trimmed_spans p fs"
        "\<forall>f \<in> set fs. found_ok (pt_text p) f"
        using part by blast
      then show ?thesis using trimmed_spans_ok [of fs p] of_text [OF p(1)] by (simp add: clean_spans_def)
    next
      case False
      then show ?thesis using i spans by (simp add: spans_of_no_part clean_spans_def)
    qed
    have "(covers (spans ! pt_index p) (int j) \<longrightarrow> marked kind ?parts body p j)
        \<and> (marked kind ?parts body p j \<and> pt_text p ! j \<notin> set edge_chars \<longrightarrow> covers (spans ! pt_index p) (int j))"
      if p: "p \<in> set ?parts" "j < length (pt_text p)" for p j
    proof -
      obtain fs where "spans ! pt_index p = trimmed_spans p fs" "\<forall>f \<in> set fs. found_ok (pt_text p) f"
        "(\<exists>f \<in> set fs. holds f j) \<longleftrightarrow> marked kind ?parts body p j"
        using part [OF p(1)] p(2) by blast
      with trimmed_spans_covers [of fs p] show ?thesis by metis
    qed
    with post clean spans show ?thesis by simp
  qed
  then show "length spans = length texts" "\<And>i. i < length texts \<Longrightarrow> clean_spans (texts ! i) (spans ! i)" by blast+
  show "\<And>parts body header p j. parts = parts_from (length separator) 0 0 texts
      \<Longrightarrow> post (detect_payload kind parts (str_join separator (map pt_text parts))) = PostAnswered body header
      \<Longrightarrow> p \<in> set parts \<Longrightarrow> j < length (pt_text p)
      \<Longrightarrow> (covers (spans ! pt_index p) (int j) \<longrightarrow> marked kind parts body p j)
        \<and> (marked kind parts body p j \<and> pt_text p ! j \<notin> set edge_chars \<longrightarrow> covers (spans ! pt_index p) (int j))"
    using main by blast
qed


definition demo_answer :: jsv where
  "demo_answer = JObj [(''detected_spans'', JArr
     [JObj [(''label'', JStr ''private_person''), (''start'', jnat 2), (''end'', jnat 7)],
      JObj [(''label'', JStr ''private_date''), (''start'', jnat 0), (''end'', jnat 2)]])]"


end
