(* ===== verification/PiiPipeline.thy ===== *)
theory PiiPipeline
  imports PiiDialects PiiDetector PiiRestore Tinfoil Routing
begin

text \<open>
  The redaction step of \<open>enclave/src/pii/pipeline.mjs\<close>: the \<open>pii_redaction\<close> flag, its error bodies, and
  \<open>redactBody\<close>, which finds the texts of a body (\<open>PiiDialects\<close>), has the detector mark them
  (\<open>PiiDetector\<close>), replaces what is marked (\<open>PiiCore\<close>) and puts the texts back. The last section composes the
  four: what a redacted body hides, and that nothing else of it has changed.
\<close>

subsection \<open>The flag\<close>

datatype pii_flag = FlagAbsent | FlagOff | FlagOn | FlagInvalid

definition pii_field :: string where "pii_field = ''pii_redaction''"

definition take_pii_flag :: "jsv \<Rightarrow> pii_flag \<times> jsv" where
  "take_pii_flag body =
     (if \<not> is_obj body \<or> \<not> has_fld pii_field body then (FlagAbsent, body)
      else (if fld pii_field body = JTrue then FlagOn
            else if fld pii_field body = JFalse then FlagOff else FlagInvalid,
            del_fld pii_field body))"

datatype pii_error =
    PiiInvalid
  | PiiUnsupportedModel
  | PiiUnavailable
  | PiiUnsupportedState
  | PiiUnsupportedEndpoint
  | PiiInsufficientBalance

fun pii_error_code :: "pii_error \<Rightarrow> string" where
  "pii_error_code PiiInvalid = ''pii_redaction_invalid''"
| "pii_error_code PiiUnsupportedModel = ''pii_redaction_unsupported_model''"
| "pii_error_code PiiUnavailable = ''pii_redaction_unavailable''"
| "pii_error_code PiiUnsupportedState = ''pii_redaction_unsupported_state''"
| "pii_error_code PiiUnsupportedEndpoint = ''pii_redaction_unsupported_endpoint''"
| "pii_error_code PiiInsufficientBalance = ''pii_redaction_insufficient_balance''"

definition pii_error_message :: "pii_error \<Rightarrow> string" where
  "pii_error_message code =
     (if code = PiiInvalid then ''pii_redaction must be a boolean''
      else if code = PiiUnsupportedModel then ''pii_redaction is not supported for private/* models''
      else if code = PiiUnsupportedState
        then ''pii_redaction is not supported with previous_response_id or conversation; send the full input instead''
      else if code = PiiUnsupportedEndpoint then ''pii_redaction is not supported on count_tokens; send the request without it''
      else ''PII redaction is unavailable; the request was not sent'')"

definition pii_error_body :: "pii_error \<Rightarrow> jsv" where
  "pii_error_body code =
     JObj [(''error'', JObj [(''message'', JStr (pii_error_message code)), (''code'', JStr (pii_error_code code))])]"

subsection \<open>Redacting a body\<close>

datatype dialect = ChatDialect | MessagesDialect | ResponsesDialect

fun dialect_texts :: "dialect \<Rightarrow> jsv \<Rightarrow> js_error + text_ref list" where
  "dialect_texts ChatDialect = chat_extract_texts"
| "dialect_texts MessagesDialect = messages_extract_texts"
| "dialect_texts ResponsesDialect = responses_extract_texts"

record redacted =
  rd_body :: jsv
  rd_map :: pii_map
  rd_usage :: detector_usage
  rd_entities :: nat
  rd_texts :: nat

text \<open>What rejects the promise: the detector, or an exception of the language.\<close>

datatype redact_failure = DetectorFailed detector_error | RedactRaised js_error

definition fails_with :: "('e \<Rightarrow> 'f) \<Rightarrow> 'e + 'a \<Rightarrow> 'f + 'a" where
  "fails_with f m = (case m of Inl e \<Rightarrow> Inl (f e) | Inr a \<Rightarrow> Inr a)"

definition redact_body ::
    "dialect \<Rightarrow> (string list \<Rightarrow> detector_error + pii_span list list \<times> detector_usage) \<Rightarrow> (string \<Rightarrow> string) \<Rightarrow> grammar
     \<Rightarrow> jsv \<Rightarrow> redact_failure + redacted" where
  "redact_body d detector nf g body =
     bind_js (fails_with RedactRaised (dialect_texts d body)) (\<lambda>refs.
       let texts = map rf_text refs
       in bind_js (fails_with DetectorFailed (detector texts)) (\<lambda>(spans, usage).
            bind_js (fails_with RedactRaised (pseudonymize nf g texts spans)) (\<lambda>(outs, m).
              bind_js (fails_with RedactRaised (apply_texts body refs outs)) (\<lambda>out.
                Inr \<lparr>rd_body = out, rd_map = m, rd_usage = usage, rd_entities = length (pm_surfaces m),
                     rd_texts = length texts\<rparr>))))"

subsection \<open>The two handlers\<close>

text \<open>The chat handler and the relay of the other two dialects, at the request and after authorize. A refusal
  is its status and its error; a request goes on with its body and, when it was redacted, the mapping.\<close>

datatype pii_outcome = PiiRefused nat pii_error | PiiProceed jsv "pii_map option"

datatype pii_intake = IntakeRefused nat pii_error | ModelRejected js_error | Intake bool jsv

definition chat_pii_intake :: "jsv \<Rightarrow> pii_intake" where
  "chat_pii_intake payload =
     (case take_pii_flag payload of (flag, body) \<Rightarrow>
        if flag = FlagInvalid then IntakeRefused 400 PiiInvalid
        else (case resolve_model body of
            Inl e \<Rightarrow> ModelRejected e
          | Inr resolved \<Rightarrow>
              if flag = FlagOn \<and> is_private_model (fld ''model'' resolved) then IntakeRefused 400 PiiUnsupportedModel
              else Intake (flag = FlagOn) resolved))"

definition relay_pii_intake :: "dialect option \<Rightarrow> jsv \<Rightarrow> pii_intake" where
  "relay_pii_intake d payload =
     (case take_pii_flag payload of (flag, body) \<Rightarrow>
        if flag = FlagInvalid then IntakeRefused 400 PiiInvalid
        else if flag = FlagOn \<and> d = None then IntakeRefused 400 PiiUnsupportedEndpoint
        else if flag = FlagOn \<and> is_private_model (fld ''model'' body) then IntakeRefused 400 PiiUnsupportedModel
        else if flag = FlagOn \<and> d = Some ResponsesDialect
             \<and> (nullish (fld ''previous_response_id'' body) JUndef \<noteq> JUndef \<or> nullish (fld ''conversation'' body) JUndef \<noteq> JUndef)
        then IntakeRefused 400 PiiUnsupportedState
        else Intake (flag = FlagOn) body)"

text \<open>\<open>detector\<close> is \<open>None\<close> when none is configured.\<close>

definition redact_or_refuse ::
    "dialect \<Rightarrow> (string list \<Rightarrow> detector_error + pii_span list list \<times> detector_usage) option \<Rightarrow> (string \<Rightarrow> string) \<Rightarrow> grammar
     \<Rightarrow> jsv \<Rightarrow> pii_outcome" where
  "redact_or_refuse d detector nf g body =
     (case detector of
        None \<Rightarrow> PiiRefused 503 PiiUnavailable
      | Some det \<Rightarrow>
          (case redact_body d det nf g body of
             Inl failure \<Rightarrow> PiiRefused 503 PiiUnavailable
           | Inr r \<Rightarrow> PiiProceed (rd_body r) (Some (rd_map r))))"

definition chat_pii_step ::
    "bool \<Rightarrow> jsv \<Rightarrow> jsv \<Rightarrow> (string list \<Rightarrow> detector_error + pii_span list list \<times> detector_usage) option
     \<Rightarrow> (string \<Rightarrow> string) \<Rightarrow> grammar \<Rightarrow> jsv \<Rightarrow> pii_outcome" where
  "chat_pii_step on model upstreams detector nf g payload =
     (if \<not> on then PiiProceed payload None
      else if is_private_model model \<or> has_tinfoil_candidate (normalize_candidates upstreams)
      then PiiRefused 400 PiiUnsupportedModel
      else redact_or_refuse ChatDialect detector nf g payload)"

definition relay_pii_step ::
    "bool \<Rightarrow> dialect \<Rightarrow> (string list \<Rightarrow> detector_error + pii_span list list \<times> detector_usage) option
     \<Rightarrow> (string \<Rightarrow> string) \<Rightarrow> grammar \<Rightarrow> jsv \<Rightarrow> pii_outcome" where
  "relay_pii_step on d detector nf g body =
     (if on then redact_or_refuse d detector nf g body else PiiProceed body None)"

subsection \<open>What a redacted body hides\<close>

lemma dialect_refs: "keys_ok body \<Longrightarrow> dialect_texts d body = Inr refs \<Longrightarrow> refs_in [] body refs"
  by (cases d) (simp_all add: chat_dialect.found_sound messages_dialect.found_sound responses_dialect.found_sound)

lemma fails_with_simps [simp]: "fails_with f (Inl e) = Inl (f e)" "fails_with f (Inr a) = Inr a"
  by (simp_all add: fails_with_def)

lemma fails_with_Inr: "fails_with f m = Inr a \<longleftrightarrow> m = Inr a"
  by (cases m) auto

lemma merge_covers:
  assumes "merge_spans t spans = Inr ss" "\<forall>s \<in> set spans. sp_start s < sp_end s"
  shows "covers ss i \<longleftrightarrow> covers spans i"
proof -
  obtain Ms where Ms: "set (concat Ms) = set (filter (\<lambda>s. sp_start s < sp_end s) spans)" "list_all2 union_of ss Ms"
    using merge_spans_unions [OF assms(1)] by metis
  have "set (concat Ms) = set spans" using Ms(1) assms(2) by (auto simp del: set_concat)
  then show ?thesis using union_covers [OF Ms(2)] by (simp add: covers_def del: set_concat)
qed

lemma merge_all_total:
  "list_all (\<lambda>(t, spans). list_all (valid_span t) spans) items \<Longrightarrow> \<exists>merged. merge_all items = Inr merged"
  by (induction items rule: merge_all.induct) (auto simp: merge_spans_def list_ex_iff list_all_iff)

lemma pseudonymize_total:
  assumes "length spans = length texts" "\<And>i. i < length texts \<Longrightarrow> clean_spans (texts ! i) (spans ! i)"
  shows "\<exists>r. pseudonymize nf g texts spans = Inr r"
proof -
  have "list_all (\<lambda>(t, spans). list_all (valid_span t) spans) (zip texts spans)"
    using assms by (fastforce simp: list_all_length clean_spans_def list_all_iff)
  from merge_all_total [OF this] show ?thesis using assms(1) by (auto simp: pseudonymize_def)
qed

lemma pseudonymize_length: "pseudonymize nf g texts spans = Inr (outs, m) \<Longrightarrow> grammar_ok g \<Longrightarrow> length outs = length texts"
proof -
  assume "pseudonymize nf g texts spans = Inr (outs, m)" "grammar_ok g"
  from pseudonymize_facts [OF this(2,1)] obtain merged where m: "merge_all (zip texts spans) = Inr merged" "length texts = length spans"
    "outs = map (\<lambda>(t, ss). replaced (placeholder_of nf m) t 0 ss) merged"
    by metis
  then show "length outs = length texts" using list_all2_lengthD [OF merge_all_items [OF m(1)]] by simp
qed

subsection \<open>Where the texts of a conversation stand\<close>

text \<open>The places whose text the dialects promise to redact, by their paths in the body: a text stands there
  itself, or a JSON document whose string leaves are the texts.\<close>

inductive text_place :: "jsv \<Rightarrow> dialect \<Rightarrow> jpath \<Rightarrow> bool" for body where
  chat_content: "m = [Key ''messages'', Idx i] \<Longrightarrow> has_role chat_redacted_roles (get_at (m @ [Key ''role'']) body)
    \<Longrightarrow> text_place body ChatDialect (m @ [Key ''content''])"
| chat_part: "m = [Key ''messages'', Idx i] \<Longrightarrow> has_role chat_redacted_roles (get_at (m @ [Key ''role'']) body)
    \<Longrightarrow> get_at (m @ [Key ''content'', Idx k, Key ''type'']) body = JStr ''text''
    \<Longrightarrow> text_place body ChatDialect (m @ [Key ''content'', Idx k, Key ''text''])"
| chat_reasoning: "m = [Key ''messages'', Idx i] \<Longrightarrow> get_at (m @ [Key ''role'']) body = JStr ''assistant''
    \<Longrightarrow> f \<in> {''reasoning'', ''reasoning_content''} \<Longrightarrow> text_place body ChatDialect (m @ [Key f])"
| chat_detail: "m = [Key ''messages'', Idx i] \<Longrightarrow> get_at (m @ [Key ''role'']) body = JStr ''assistant''
    \<Longrightarrow> get_at (m @ [Key ''reasoning_details'', Idx k, Key ''type'']) body = JStr t \<Longrightarrow> (t, f) \<in> set detail_text_fields
    \<Longrightarrow> text_place body ChatDialect (m @ [Key ''reasoning_details'', Idx k, Key f])"
| messages_content: "m = [Key ''messages'', Idx i] \<Longrightarrow> has_role messages_redacted_roles (get_at (m @ [Key ''role'']) body)
    \<Longrightarrow> text_place body MessagesDialect (m @ [Key ''content''])"
| messages_text: "m = [Key ''messages'', Idx i] \<Longrightarrow> has_role messages_redacted_roles (get_at (m @ [Key ''role'']) body)
    \<Longrightarrow> get_at (m @ [Key ''content'', Idx k, Key ''type'']) body = JStr ''text''
    \<Longrightarrow> text_place body MessagesDialect (m @ [Key ''content'', Idx k, Key ''text''])"
| messages_input: "m = [Key ''messages'', Idx i] \<Longrightarrow> has_role messages_redacted_roles (get_at (m @ [Key ''role'']) body)
    \<Longrightarrow> get_at (m @ [Key ''content'', Idx k, Key ''type'']) body = JStr ''tool_use''
    \<Longrightarrow> text_place body MessagesDialect (m @ [Key ''content'', Idx k, Key ''input''] @ q)"
| messages_result: "m = [Key ''messages'', Idx i] \<Longrightarrow> has_role messages_redacted_roles (get_at (m @ [Key ''role'']) body)
    \<Longrightarrow> get_at (m @ [Key ''content'', Idx k, Key ''type'']) body = JStr ''tool_result''
    \<Longrightarrow> text_place body MessagesDialect (m @ [Key ''content'', Idx k, Key ''content''])"
| messages_result_part: "m = [Key ''messages'', Idx i] \<Longrightarrow> has_role messages_redacted_roles (get_at (m @ [Key ''role'']) body)
    \<Longrightarrow> get_at (m @ [Key ''content'', Idx k, Key ''type'']) body = JStr ''tool_result''
    \<Longrightarrow> get_at (m @ [Key ''content'', Idx k, Key ''content'', Idx j, Key ''type'']) body = JStr ''text''
    \<Longrightarrow> text_place body MessagesDialect (m @ [Key ''content'', Idx k, Key ''content'', Idx j, Key ''text''])"
| responses_input: "text_place body ResponsesDialect [Key ''input'']"
| responses_content: "m = [Key ''input'', Idx i] \<Longrightarrow> responses_item_type (get_at m body) = JStr ''message''
    \<Longrightarrow> has_role messages_redacted_roles (get_at (m @ [Key ''role'']) body)
    \<Longrightarrow> text_place body ResponsesDialect (m @ [Key ''content''])"
| responses_part: "m = [Key ''input'', Idx i] \<Longrightarrow> responses_item_type (get_at m body) = JStr ''message''
    \<Longrightarrow> has_role messages_redacted_roles (get_at (m @ [Key ''role'']) body)
    \<Longrightarrow> has_role [''input_text'', ''output_text''] (get_at (m @ [Key ''content'', Idx k, Key ''type'']) body)
    \<Longrightarrow> text_place body ResponsesDialect (m @ [Key ''content'', Idx k, Key ''text''])"
| responses_output: "m = [Key ''input'', Idx i] \<Longrightarrow> responses_item_type (get_at m body) = JStr ''function_call_output''
    \<Longrightarrow> text_place body ResponsesDialect (m @ [Key ''output''])"
| responses_output_part: "m = [Key ''input'', Idx i] \<Longrightarrow> responses_item_type (get_at m body) = JStr ''function_call_output''
    \<Longrightarrow> get_at (m @ [Key ''output'', Idx k, Key ''type'']) body = JStr ''input_text''
    \<Longrightarrow> text_place body ResponsesDialect (m @ [Key ''output'', Idx k, Key ''text''])"
| responses_summary: "m = [Key ''input'', Idx i] \<Longrightarrow> responses_item_type (get_at m body) = JStr ''reasoning''
    \<Longrightarrow> text_place body ResponsesDialect (m @ [Key ''summary'', Idx k, Key ''text''])"

inductive json_place :: "jsv \<Rightarrow> dialect \<Rightarrow> jpath \<Rightarrow> bool" for body where
  chat_call: "m = [Key ''messages'', Idx i] \<Longrightarrow> get_at (m @ [Key ''role'']) body = JStr ''assistant''
    \<Longrightarrow> json_place body ChatDialect (m @ [Key ''tool_calls'', Idx k, Key ''function'', Key ''arguments''])"
| chat_function_call: "m = [Key ''messages'', Idx i] \<Longrightarrow> get_at (m @ [Key ''role'']) body = JStr ''assistant''
    \<Longrightarrow> json_place body ChatDialect (m @ [Key ''function_call'', Key ''arguments''])"
| responses_call: "m = [Key ''input'', Idx i] \<Longrightarrow> responses_item_type (get_at m body) = JStr ''function_call''
    \<Longrightarrow> json_place body ResponsesDialect (m @ [Key ''arguments''])"

lemma get_at_append [simp]: "get_at (p @ q) v = get_at q (get_at p v)"
  by (induction p arbitrary: v) auto

lemma child_undef [simp]: "child k JUndef = JUndef"
  by (cases k) auto

lemma get_at_undef [simp]: "get_at p JUndef = JUndef"
  by (induction p) auto

lemma in_for_each: "i < length xs \<Longrightarrow> r \<in> set (f (n + i) (xs ! i)) \<Longrightarrow> r \<in> set (for_each f n xs)"
proof (induction xs arbitrary: n i)
  case (Cons x xs)
  show ?case
  proof (cases i)
    case (Suc j)
    then show ?thesis using Cons.IH [of j "Suc n"] Cons.prems by simp
  qed (use Cons.prems in simp)
qed simp

lemma in_each:
  assumes "child (Idx i) v \<noteq> JUndef" "r \<in> set (f (base @ [Idx i]) (child (Idx i) v))"
  shows "r \<in> set (each base v f)"
proof (cases v)
  case (JArr xs)
  then have "i < length xs" using assms(1) by (auto split: if_splits)
  then show ?thesis using in_for_each [of i xs r _ 0] assms(2) JArr by (simp add: each_def)
qed (use assms in simp_all)

lemma in_add_ref: "trim s \<noteq> [] \<Longrightarrow> \<lparr>rf_path = p, rf_text = s, rf_json = None\<rparr> \<in> set (add_ref p (JStr s))"
  by (simp add: add_ref_def)

lemma leaf_refs_complete:
  "get_at q v = JStr s \<Longrightarrow> trim s \<noteq> [] \<Longrightarrow> \<lparr>rf_path = b @ q, rf_text = s, rf_json = None\<rparr> \<in> set (add_leaf_refs b v)"
proof (induction q arbitrary: b v)
  case Nil
  then show ?case by (simp add: in_add_ref)
next
  case (Cons k q)
  have below: "\<lparr>rf_path = b @ k # q, rf_text = s, rf_json = None\<rparr> \<in> set (add_leaf_refs (b @ [k]) (child k v))"
    using Cons.IH [of "child k v" "b @ [k]"] Cons.prems by simp
  have there: "child k v \<noteq> JUndef" using Cons.prems(1) by auto
  show ?case
  proof (cases v)
    case (JArr xs)
    then obtain i where "k = Idx i" using there by (cases k) auto
    then show ?thesis
      using in_each [of i v _ add_leaf_refs b] below there JArr by (simp add: each_def elem_refs_each)
  next
    case (JObj kvs)
    then obtain x where k: "k = Key x" using there by (cases k) auto
    then have "(x, child k v) \<in> set kvs" using there JObj by (auto split: option.splits dest: map_of_SomeD)
    then show ?thesis using below k JObj by (force simp: member_refs_parts)
  qed (use there in \<open>cases k; simp\<close>)+
qed

definition ref_of :: "jpath \<Rightarrow> string \<Rightarrow> text_ref" where
  "ref_of p s = \<lparr>rf_path = p, rf_text = s, rf_json = None\<rparr>"

definition leaf_ref :: "jpath \<Rightarrow> string \<Rightarrow> jpath \<Rightarrow> string \<Rightarrow> text_ref" where
  "leaf_ref p source leaf s = \<lparr>rf_path = p, rf_text = s, rf_json = Some (source, leaf)\<rparr>"

lemma ref_of_add_ref: "trim s \<noteq> [] \<Longrightarrow> v = JStr s \<Longrightarrow> ref_of p s \<in> set (add_ref p v)"
  by (simp add: ref_of_def in_add_ref)

lemma content_refs_whole: "trim t \<noteq> [] \<Longrightarrow> v = JStr t \<Longrightarrow> ref_of p t \<in> set (content_refs types p v)"
  by (simp add: content_refs_def ref_of_add_ref)

lemma content_refs_part:
  assumes "has_role types (fld ''type'' (child (Idx k) v))" "fld ''text'' (child (Idx k) v) = JStr t" "trim t \<noteq> []"
  shows "ref_of (p @ [Idx k, Key ''text'']) t \<in> set (content_refs types p v)"
proof -
  have there: "child (Idx k) v \<noteq> JUndef" using assms(2) by auto
  then have "\<not> is_str v" by (cases v) auto
  moreover have "ref_of (p @ [Idx k, Key ''text'']) t \<in> set (text_part_refs types (p @ [Idx k]) (child (Idx k) v))"
    using assms by (simp add: text_part_refs_def ref_of_add_ref)
  ultimately show ?thesis using in_each [OF there] by (simp add: content_refs_def)
qed

lemma json_refs_complete:
  assumes "trim t \<noteq> []" "v = JStr t"
  shows "case json_parse t of
      None \<Rightarrow> ref_of p t \<in> set (add_json_string_refs p v)
    | Some doc \<Rightarrow> \<forall>q s. get_at q doc = JStr s \<and> trim s \<noteq> [] \<longrightarrow> leaf_ref p t q s \<in> set (add_json_string_refs p v)"
proof (cases "json_parse t")
  case None
  then show ?thesis using assms by (simp add: add_json_string_refs_def ref_of_add_ref)
next
  case (Some doc)
  have "leaf_ref p t q s \<in> set (add_json_string_refs p v)" if "get_at q doc = JStr s" "trim s \<noteq> []" for q s
    using leaf_refs_complete [OF that, of "[]"] assms Some by (force simp: add_json_string_refs_def leaf_ref_def)
  then show ?thesis using Some by simp
qed

lemma message_there: "fld k v = JStr s \<Longrightarrow> v \<noteq> JUndef \<and> typeof_object v"
  by (cases v) auto

lemma role_there: "has_role roles (fld k v) \<Longrightarrow> v \<noteq> JUndef \<and> typeof_object v"
  by (cases v) (auto simp: has_role_def)

lemma chat_found:
  assumes "dialect_texts ChatDialect body = Inr refs"
    and "get_at [Key ''messages'', Idx i] body \<noteq> JUndef"
    and "r \<in> set (chat_message_refs [Key ''messages'', Idx i] (get_at [Key ''messages'', Idx i] body))"
  shows "r \<in> set refs"
  using assms in_each [of i "fld ''messages'' body" r chat_message_refs "[Key ''messages'']"]
  by (auto simp: chat_extract_texts_def split: if_splits)

lemma messages_found:
  assumes "dialect_texts MessagesDialect body = Inr refs"
    and "get_at [Key ''messages'', Idx i] body \<noteq> JUndef"
    and "r \<in> set (messages_message_refs [Key ''messages'', Idx i] (get_at [Key ''messages'', Idx i] body))"
  shows "r \<in> set refs"
  using assms in_each [of i "fld ''messages'' body" r messages_message_refs "[Key ''messages'']"]
  by (auto simp: messages_extract_texts_def)

lemma responses_found:
  assumes "dialect_texts ResponsesDialect body = Inr refs"
    and "get_at [Key ''input'', Idx i] body \<noteq> JUndef"
    and "r \<in> set (responses_item_refs [Key ''input'', Idx i] (get_at [Key ''input'', Idx i] body))"
  shows "r \<in> set refs"
proof -
  have "\<not> is_str (fld ''input'' body)" using assms(2) by (cases "fld ''input'' body") auto
  then show ?thesis
    using assms in_each [of i "fld ''input'' body" r responses_item_refs "[Key ''input'']"]
    by (simp add: responses_extract_texts_def)
qed

lemma messages_block_found:
  assumes "dialect_texts MessagesDialect body = Inr refs"
    and role: "has_role messages_redacted_roles (get_at [Key ''messages'', Idx i, Key ''role''] body)"
    and block: "get_at [Key ''messages'', Idx i, Key ''content'', Idx k] body = b" "b \<noteq> JUndef"
    and r: "r \<in> set (messages_block_refs [Key ''messages'', Idx i, Key ''content'', Idx k] b)"
  shows "r \<in> set refs"
proof -
  let ?m = "get_at [Key ''messages'', Idx i] body"
  have m: "?m \<noteq> JUndef" "typeof_object ?m" "has_role messages_redacted_roles (fld ''role'' ?m)"
    using role role_there [of messages_redacted_roles "''role''" ?m] by auto
  have b: "child (Idx k) (fld ''content'' ?m) = b" using block(1) by simp
  then have "\<not> is_str (fld ''content'' ?m)" using block(2) by (cases "fld ''content'' ?m") auto
  moreover have "r \<in> set (each [Key ''messages'', Idx i, Key ''content''] (fld ''content'' ?m) messages_block_refs)"
    using in_each [of k "fld ''content'' ?m" r messages_block_refs "[Key ''messages'', Idx i, Key ''content'']"] b block(2) r by simp
  ultimately have "r \<in> set (messages_message_refs [Key ''messages'', Idx i] ?m)"
    using m by (simp add: messages_message_refs_def)
  then show ?thesis by (rule messages_found [OF assms(1) m(1)])
qed

text \<open>Inside one message or item.\<close>

lemma chat_message_content:
  assumes "has_role chat_redacted_roles (fld ''role'' m)"
    and "r \<in> set (content_refs [''text''] (base @ [Key ''content'']) (fld ''content'' m))"
  shows "r \<in> set (chat_message_refs base m)"
  using assms role_there [of chat_redacted_roles "''role''" m] by (simp add: chat_message_refs_def)

lemma chat_message_assistant:
  assumes "fld ''role'' m = JStr ''assistant''" "r \<in> set (assistant_refs base m)"
  shows "r \<in> set (chat_message_refs base m)"
  using assms message_there [OF assms(1)] by (simp add: chat_message_refs_def)

lemma assistant_detail:
  assumes "fld ''type'' (child (Idx k) (fld ''reasoning_details'' m)) = JStr ty" "(ty, f) \<in> set detail_text_fields"
    and "fld f (child (Idx k) (fld ''reasoning_details'' m)) = JStr t" "trim t \<noteq> []"
  shows "ref_of (base @ [Key ''reasoning_details'', Idx k, Key f]) t \<in> set (assistant_refs base m)"
proof -
  let ?e = "child (Idx k) (fld ''reasoning_details'' m)"
  let ?f = "\<lambda>path entry. case detail_field entry of Some f \<Rightarrow> add_ref (path @ [Key f]) (fld f entry) | None \<Rightarrow> []"
  have "detail_field ?e = Some f"
    using assms(1,2) by (auto simp: detail_field_def detail_text_fields_def)
  then have "ref_of (base @ [Key ''reasoning_details'', Idx k, Key f]) t \<in> set (?f ((base @ [Key ''reasoning_details'']) @ [Idx k]) ?e)"
    using assms(3,4) by (simp add: ref_of_add_ref)
  moreover have "?e \<noteq> JUndef" using assms(3) by auto
  ultimately have "ref_of (base @ [Key ''reasoning_details'', Idx k, Key f]) t
      \<in> set (each (base @ [Key ''reasoning_details'']) (fld ''reasoning_details'' m) ?f)"
    using in_each [of k "fld ''reasoning_details'' m" _ ?f "base @ [Key ''reasoning_details'']"] by blast
  then show ?thesis by (simp add: assistant_refs_def)
qed

lemma assistant_call:
  assumes "fld ''arguments'' (fld ''function'' (child (Idx k) (fld ''tool_calls'' m))) = JStr t"
    and "r \<in> set (add_json_string_refs (base @ [Key ''tool_calls'', Idx k, Key ''function'', Key ''arguments'']) (JStr t))"
  shows "r \<in> set (assistant_refs base m)"
proof -
  let ?f = "\<lambda>path tc. add_json_string_refs (path @ [Key ''function'', Key ''arguments'']) (fld ''arguments'' (fld ''function'' tc))"
  have "child (Idx k) (fld ''tool_calls'' m) \<noteq> JUndef" using assms(1) by auto
  moreover have "r \<in> set (?f ((base @ [Key ''tool_calls'']) @ [Idx k]) (child (Idx k) (fld ''tool_calls'' m)))"
    using assms by simp
  ultimately have "r \<in> set (each (base @ [Key ''tool_calls'']) (fld ''tool_calls'' m) ?f)"
    using in_each [of k "fld ''tool_calls'' m" r ?f "base @ [Key ''tool_calls'']"] by blast
  then show ?thesis by (simp add: assistant_refs_def)
qed

lemma chat_places:
  assumes refs: "dialect_texts ChatDialect body = Inr refs" and place: "text_place body ChatDialect p"
    and t: "get_at p body = JStr t" "trim t \<noteq> []"
  shows "ref_of p t \<in> set refs"
  using place
proof cases
  case (chat_content m i)
  let ?m = "get_at m body"
  have role: "has_role chat_redacted_roles (fld ''role'' ?m)" using chat_content by simp
  have "ref_of p t \<in> set (content_refs [''text''] (m @ [Key ''content'']) (fld ''content'' ?m))"
    using content_refs_whole [OF t(2), of "fld ''content'' ?m" "m @ [Key ''content'']"] chat_content t by simp
  then show ?thesis
    using chat_found [OF refs, of i] chat_message_content [OF role] role_there [OF role] chat_content by simp
next
  case (chat_part m i k)
  let ?m = "get_at m body"
  have role: "has_role chat_redacted_roles (fld ''role'' ?m)" using chat_part by simp
  have "ref_of ((m @ [Key ''content'']) @ [Idx k, Key ''text'']) t \<in> set (content_refs [''text''] (m @ [Key ''content'']) (fld ''content'' ?m))"
    using chat_part t by (intro content_refs_part) (simp_all add: has_role_def)
  then show ?thesis
    using chat_found [OF refs, of i] chat_message_content [OF role] role_there [OF role] chat_part by simp
next
  case (chat_reasoning m i f)
  let ?m = "get_at m body"
  have role: "fld ''role'' ?m = JStr ''assistant''" using chat_reasoning by simp
  have "ref_of (m @ [Key f]) t \<in> set (assistant_refs m ?m)"
    using chat_reasoning t ref_of_add_ref [of t "fld f ?m" "m @ [Key f]"] by (auto simp: assistant_refs_def)
  then show ?thesis
    using chat_found [OF refs, of i] chat_message_assistant [OF role] message_there [OF role] chat_reasoning by simp
next
  case (chat_detail m i k ty f)
  let ?m = "get_at m body"
  have role: "fld ''role'' ?m = JStr ''assistant''" using chat_detail by simp
  have "ref_of (m @ [Key ''reasoning_details'', Idx k, Key f]) t \<in> set (assistant_refs m ?m)"
    using chat_detail t by (intro assistant_detail [where ty = ty]) simp_all
  then show ?thesis
    using chat_found [OF refs, of i] chat_message_assistant [OF role] message_there [OF role] chat_detail by simp
qed

lemma messages_places:
  assumes refs: "dialect_texts MessagesDialect body = Inr refs" and place: "text_place body MessagesDialect p"
    and t: "get_at p body = JStr t" "trim t \<noteq> []"
  shows "ref_of p t \<in> set refs"
  using place
proof cases
  case (messages_content m i)
  let ?m = "get_at m body"
  have role: "has_role messages_redacted_roles (fld ''role'' ?m)" using messages_content by simp
  have "fld ''content'' ?m = JStr t" using messages_content t by simp
  then have "ref_of p t \<in> set (messages_message_refs m ?m)"
    using role role_there [OF role] ref_of_add_ref [OF t(2), of "fld ''content'' ?m" p] messages_content
    by (simp add: messages_message_refs_def)
  then show ?thesis using messages_found [OF refs, of i] role_there [OF role] messages_content by simp
next
  case (messages_text m i k)
  let ?b = "get_at (m @ [Key ''content'', Idx k]) body"
  have b: "fld ''type'' ?b = JStr ''text''" "fld ''text'' ?b = JStr t" using messages_text t by simp_all
  have "ref_of p t \<in> set (messages_block_refs (m @ [Key ''content'', Idx k]) ?b)"
    using b message_there [OF b(1)] ref_of_add_ref [OF t(2), of "fld ''text'' ?b" p] messages_text
    by (simp add: messages_block_refs_def)
  then show ?thesis
    using messages_block_found [OF refs, of i k ?b] message_there [OF b(1)] messages_text by simp
next
  case (messages_input m i k q)
  let ?b = "get_at (m @ [Key ''content'', Idx k]) body"
  have b: "fld ''type'' ?b = JStr ''tool_use''" "get_at q (fld ''input'' ?b) = JStr t" using messages_input t by simp_all
  have "ref_of p t \<in> set (messages_block_refs (m @ [Key ''content'', Idx k]) ?b)"
    using b message_there [OF b(1)] leaf_refs_complete [OF b(2) t(2), of "m @ [Key ''content'', Idx k, Key ''input'']"] messages_input
    by (simp add: messages_block_refs_def ref_of_def)
  then show ?thesis
    using messages_block_found [OF refs, of i k ?b] message_there [OF b(1)] messages_input by simp
next
  case (messages_result m i k)
  let ?b = "get_at (m @ [Key ''content'', Idx k]) body"
  have b: "fld ''type'' ?b = JStr ''tool_result''" "fld ''content'' ?b = JStr t" using messages_result t by simp_all
  have "ref_of p t \<in> set (messages_block_refs (m @ [Key ''content'', Idx k]) ?b)"
    using b message_there [OF b(1)] content_refs_whole [OF t(2), of "fld ''content'' ?b" p] messages_result
    by (simp add: messages_block_refs_def)
  then show ?thesis
    using messages_block_found [OF refs, of i k ?b] message_there [OF b(1)] messages_result by simp
next
  case (messages_result_part m i k j)
  let ?b = "get_at (m @ [Key ''content'', Idx k]) body"
  let ?c = "child (Idx j) (fld ''content'' ?b)"
  have b: "fld ''type'' ?b = JStr ''tool_result''" "has_role [''text''] (fld ''type'' ?c)" "fld ''text'' ?c = JStr t"
    using messages_result_part t by (simp_all add: has_role_def)
  have "ref_of p t \<in> set (messages_block_refs (m @ [Key ''content'', Idx k]) ?b)"
    using b(1) message_there [OF b(1)] content_refs_part [OF b(2,3) t(2), of "m @ [Key ''content'', Idx k, Key ''content'']"]
      messages_result_part
    by (simp add: messages_block_refs_def)
  then show ?thesis
    using messages_block_found [OF refs, of i k ?b] message_there [OF b(1)] messages_result_part by simp
qed

lemma responses_item_there: "responses_item_type v = JStr s \<Longrightarrow> v \<noteq> JUndef \<and> typeof_object v"
  by (cases v) (auto simp: responses_item_type_def)

lemma responses_places:
  assumes refs: "dialect_texts ResponsesDialect body = Inr refs" and place: "text_place body ResponsesDialect p"
    and t: "get_at p body = JStr t" "trim t \<noteq> []"
  shows "ref_of p t \<in> set refs"
  using place
proof cases
  case responses_input
  then show ?thesis
    using refs t ref_of_add_ref [OF t(2), of "fld ''input'' body" p] by (simp add: responses_extract_texts_def)
next
  case (responses_content m i)
  let ?m = "get_at m body"
  have m: "responses_item_type ?m = JStr ''message''" using responses_content by simp
  have "ref_of p t \<in> set (responses_item_refs m ?m)"
    using m responses_item_there [OF m] content_refs_whole [OF t(2), of "fld ''content'' ?m" p] responses_content t
    by (simp add: responses_item_refs_def)
  then show ?thesis using responses_found [OF refs, of i] responses_item_there [OF m] responses_content by simp
next
  case (responses_part m i k)
  let ?m = "get_at m body"
  have m: "responses_item_type ?m = JStr ''message''" using responses_part by simp
  have "ref_of ((m @ [Key ''content'']) @ [Idx k, Key ''text'']) t
      \<in> set (content_refs [''input_text'', ''output_text''] (m @ [Key ''content'']) (fld ''content'' ?m))"
    using responses_part t by (intro content_refs_part) simp_all
  then have "ref_of p t \<in> set (responses_item_refs m ?m)"
    using m responses_item_there [OF m] responses_part by (simp add: responses_item_refs_def)
  then show ?thesis using responses_found [OF refs, of i] responses_item_there [OF m] responses_part by simp
next
  case (responses_output m i)
  let ?m = "get_at m body"
  have m: "responses_item_type ?m = JStr ''function_call_output''" using responses_output by simp
  have "ref_of p t \<in> set (responses_item_refs m ?m)"
    using m responses_item_there [OF m] content_refs_whole [OF t(2), of "fld ''output'' ?m" p] responses_output t
    by (simp add: responses_item_refs_def)
  then show ?thesis using responses_found [OF refs, of i] responses_item_there [OF m] responses_output by simp
next
  case (responses_output_part m i k)
  let ?m = "get_at m body"
  have m: "responses_item_type ?m = JStr ''function_call_output''" using responses_output_part by simp
  have "ref_of ((m @ [Key ''output'']) @ [Idx k, Key ''text'']) t
      \<in> set (content_refs [''input_text''] (m @ [Key ''output'']) (fld ''output'' ?m))"
    using responses_output_part t by (intro content_refs_part) (simp_all add: has_role_def)
  then have "ref_of p t \<in> set (responses_item_refs m ?m)"
    using m responses_item_there [OF m] responses_output_part by (simp add: responses_item_refs_def)
  then show ?thesis using responses_found [OF refs, of i] responses_item_there [OF m] responses_output_part by simp
next
  case (responses_summary m i k)
  let ?m = "get_at m body"
  let ?f = "\<lambda>path s. add_ref (path @ [Key ''text'']) (fld ''text'' s)"
  have m: "responses_item_type ?m = JStr ''reasoning''" using responses_summary by simp
  have x: "fld ''text'' (child (Idx k) (fld ''summary'' ?m)) = JStr t" using responses_summary t by simp
  then have "child (Idx k) (fld ''summary'' ?m) \<noteq> JUndef" by auto
  from in_each [OF this, of "ref_of p t" ?f "m @ [Key ''summary'']"]
  have "ref_of p t \<in> set (each (m @ [Key ''summary'']) (fld ''summary'' ?m) ?f)"
    using ref_of_add_ref [OF t(2) x, of p] responses_summary by simp
  then have "ref_of p t \<in> set (responses_item_refs m ?m)"
    using m responses_item_there [OF m] by (simp add: responses_item_refs_def)
  then show ?thesis using responses_found [OF refs, of i] responses_item_there [OF m] responses_summary by simp
qed

lemma json_places:
  assumes refs: "dialect_texts d body = Inr refs" and place: "json_place body d p"
    and t: "get_at p body = JStr t" "trim t \<noteq> []"
  shows "set (add_json_string_refs p (JStr t)) \<subseteq> set refs"
  using place
proof cases
  case (chat_call m i k)
  let ?m = "get_at m body"
  have role: "fld ''role'' ?m = JStr ''assistant''" using chat_call by simp
  have "fld ''arguments'' (fld ''function'' (child (Idx k) (fld ''tool_calls'' ?m))) = JStr t" using chat_call t by simp
  from assistant_call [OF this, of _ m] show ?thesis
    using chat_found [OF refs [unfolded chat_call(1)], of i] chat_message_assistant [OF role] message_there [OF role] chat_call
    by fastforce
next
  case (chat_function_call m i)
  let ?m = "get_at m body"
  have role: "fld ''role'' ?m = JStr ''assistant''" using chat_function_call by simp
  have "fld ''arguments'' (fld ''function_call'' ?m) = JStr t" using chat_function_call t by simp
  then have "set (add_json_string_refs p (JStr t)) \<subseteq> set (assistant_refs m ?m)"
    using chat_function_call by (auto simp: assistant_refs_def)
  then show ?thesis
    using chat_found [OF refs [unfolded chat_function_call(1)], of i] chat_message_assistant [OF role] message_there [OF role]
      chat_function_call by fastforce
next
  case (responses_call m i)
  let ?m = "get_at m body"
  have m: "responses_item_type ?m = JStr ''function_call''" using responses_call by simp
  have "fld ''arguments'' ?m = JStr t" using responses_call t by simp
  then have "set (add_json_string_refs p (JStr t)) \<subseteq> set (responses_item_refs m ?m)"
    using m responses_item_there [OF m] responses_call by (simp add: responses_item_refs_def)
  then show ?thesis
    using responses_found [OF refs [unfolded responses_call(1)], of i] responses_item_there [OF m] responses_call by fastforce
qed

lemma redact_body_facts:
  assumes g: "grammar_ok g" and body: "keys_ok body"
    and red: "redact_body d (detect kind separator post) nf g body = Inr r"
  obtains refs spans u where "dialect_texts d body = Inr refs" and "detect kind separator post (map rf_text refs) = Inr (spans, u)"
    and "mask (map rf_path refs) (rd_body r) = mask (map rf_path refs) body"
    and "\<And>k. k < length refs \<Longrightarrow> \<exists>ss. merge_spans (rf_text (refs ! k)) (spans ! k) = Inr ss
       \<and> ref_shows refs (rd_body r) (refs ! k) (replaced (placeholder_of nf (rd_map r)) (rf_text (refs ! k)) 0 ss)
       \<and> (\<forall>i. covers ss i \<longleftrightarrow> covers (spans ! k) i)
       \<and> (\<forall>s \<in> set ss. placeholder_of nf (rd_map r) (sp_cls s) (surface_of (rf_text (refs ! k)) s) = None
            \<longleftrightarrow> surface_key nf (sp_cls s) (surface_of (rf_text (refs ! k)) s) = [])"
proof -
  obtain refs spans u outs m where refs: "dialect_texts d body = Inr refs"
    and det: "detect kind separator post (map rf_text refs) = Inr (spans, u)"
    and ps: "pseudonymize nf g (map rf_text refs) spans = Inr (outs, m)"
    and app: "apply_texts body refs outs = Inr (rd_body r)" and m: "rd_map r = m"
    using red by (auto simp: redact_body_def bind_js_Inr_iff fails_with_Inr Let_def)
  have len: "length refs = length outs" using pseudonymize_length [OF ps g] by simp
  obtain out where out: "apply_texts body refs outs = Inr out" "mask (map rf_path refs) out = mask (map rf_path refs) body"
    "\<forall>(r, t) \<in> set (zip refs outs). ref_shows refs out r t"
    using apply_texts_sound [OF dialect_refs [OF body refs] len] .
  obtain merged where merged: "merge_all (zip (map rf_text refs) spans) = Inr merged" "length (map rf_text refs) = length spans"
    "outs = map (\<lambda>(t, ss). replaced (placeholder_of nf m) t 0 ss) merged"
    "\<forall>(t, ss) \<in> set merged. \<forall>s \<in> set ss.
       placeholder_of nf m (sp_cls s) (surface_of t s) = None \<longleftrightarrow> surface_key nf (sp_cls s) (surface_of t s) = []"
    by (rule pseudonymize_facts [OF g ps]) (rule that; assumption)
  note items = merge_all_items [OF merged(1)]
  have "\<exists>ss. merge_spans (rf_text (refs ! k)) (spans ! k) = Inr ss
       \<and> ref_shows refs out (refs ! k) (replaced (placeholder_of nf m) (rf_text (refs ! k)) 0 ss)
       \<and> (\<forall>i. covers ss i \<longleftrightarrow> covers (spans ! k) i)
       \<and> (\<forall>s \<in> set ss. placeholder_of nf m (sp_cls s) (surface_of (rf_text (refs ! k)) s) = None
            \<longleftrightarrow> surface_key nf (sp_cls s) (surface_of (rf_text (refs ! k)) s) = [])" if k: "k < length refs" for k
  proof -
    obtain t ss where ts: "merged ! k = (t, ss)" by force
    have lens: "length merged = length refs" using list_all2_lengthD [OF items] merged(2) by simp
    have tm: "t = rf_text (refs ! k)" "merge_spans (rf_text (refs ! k)) (spans ! k) = Inr ss"
      using list_all2_nthD [OF items, of k] k ts merged(2) lens by auto
    have "outs ! k = replaced (placeholder_of nf m) t 0 ss" using merged(3) lens k ts by simp
    moreover have "ref_shows refs out (refs ! k) (outs ! k)"
      using out(3) k len by (force simp: set_zip)
    moreover have "covers ss i \<longleftrightarrow> covers (spans ! k) i" for i
      using merge_covers [OF tm(2)] detect_facts(2) [OF det, of k] k by (simp add: clean_spans_def)
    moreover have "(t, ss) \<in> set merged" using ts lens k nth_mem by metis
    ultimately show ?thesis using tm merged(4) by auto
  qed
  with that [OF refs det] out app m show ?thesis by auto
qed

lemma redact_body_total:
  assumes "keys_ok body" "grammar_ok g" "dialect_texts d body = Inr refs"
    and "detect kind separator post (map rf_text refs) = Inr (spans, u)"
  shows "\<exists>r. redact_body d (detect kind separator post) nf g body = Inr r"
proof -
  have "length spans = length (map rf_text refs)" by (rule detect_facts(1) [OF assms(4)])
  from pseudonymize_total [OF this detect_facts(2) [OF assms(4)]] obtain outs m where
    ps: "pseudonymize nf g (map rf_text refs) spans = Inr (outs, m)" by (metis old.prod.exhaust)
  have "length refs = length outs" using pseudonymize_length [OF ps assms(2)] by simp
  from apply_texts_sound [OF dialect_refs [OF assms(1,3)] this] obtain out where "apply_texts body refs outs = Inr out" .
  then show ?thesis using assms(3,4) ps by (simp add: redact_body_def)
qed

subsection \<open>The contract of a redaction\<close>


definition demo_conversation :: jsv where
  "demo_conversation = JObj [(''messages'', JArr
     [JObj [(''role'', JStr ''user''), (''content'', JStr ''Hi Ann'')],
      JObj [(''role'', JStr ''assistant''),
            (''function_call'', JObj [(''arguments'', JStr (json_text (JObj [(''to'', JStr ''Ann'')])))])]])]"

definition demo_found :: jsv where
  "demo_found = JObj [(''detected_spans'', JArr
     [JObj [(''label'', JStr ''private_person''), (''start'', jnat 3), (''end'', jnat 6)],
      JObj [(''label'', JStr ''private_person''), (''start'', jnat 8), (''end'', jnat 11)]])]"

definition demo_redaction :: "pii_outcome" where
  "demo_redaction = redact_or_refuse ChatDialect (Some (detect Hosted [CHR 0x0A, CHR 0x0A] (\<lambda>_. PostAnswered demo_found None)))
     (\<lambda>s. s) square demo_conversation"


text \<open>C7: The places the dialects promise to redact are all looked at: a text that is not blank at one of them is
  among the texts that are sent to the detector, and of a tool call's arguments every string leaf is,
  or the whole text when it is no JSON.\<close>

theorem redaction_complete:
  assumes "dialect_texts d body = Inr refs" and "get_at p body = JStr t" and "trim t \<noteq> []"
  shows "(text_place body d p \<longrightarrow> ref_of p t \<in> set refs)
    \<and> (json_place body d p \<longrightarrow>
        (case json_parse t of
           None \<Rightarrow> ref_of p t \<in> set refs
         | Some doc \<Rightarrow> \<forall>q s. get_at q doc = JStr s \<and> trim s \<noteq> [] \<longrightarrow> leaf_ref p t q s \<in> set refs))"
proof (intro conjI impI)
  assume "text_place body d p"
  then show "ref_of p t \<in> set refs"
    using assms chat_places messages_places responses_places by (cases d) auto
next
  assume "json_place body d p"
  note inside = json_places [OF assms(1) this assms(2,3)]
  show "case json_parse t of
           None \<Rightarrow> ref_of p t \<in> set refs
         | Some doc \<Rightarrow> \<forall>q s. get_at q doc = JStr s \<and> trim s \<noteq> [] \<longrightarrow> leaf_ref p t q s \<in> set refs"
    using json_refs_complete [OF assms(3) refl, of p] inside by (auto split: option.splits)
qed

theorem redaction_complete_witness:
  "\<exists>refs. dialect_texts ChatDialect demo_conversation = Inr refs
     \<and> ref_of [Key ''messages'', Idx 0, Key ''content''] ''Hi Ann'' \<in> set refs"
proof -
  obtain refs where refs: "dialect_texts ChatDialect demo_conversation = Inr refs"
    by (cases "dialect_texts ChatDialect demo_conversation") (auto simp: chat_extract_texts_def split: if_splits, code_simp)
  have "has_role chat_redacted_roles (get_at ([Key ''messages'', Idx 0] @ [Key ''role'']) demo_conversation)" by code_simp
  from chat_content [OF refl this] have "text_place demo_conversation ChatDialect [Key ''messages'', Idx 0, Key ''content'']" by simp
  moreover have "get_at [Key ''messages'', Idx 0, Key ''content''] demo_conversation = JStr ''Hi Ann''" "trim ''Hi Ann'' \<noteq> []"
    by code_simp+
  ultimately show ?thesis using redaction_complete [OF refs] refs by blast
qed

text \<open>Redaction fails closed: without a detector, and whenever the detector or the reading of the body fails, the
  request is refused; and in no other case.\<close>

lemma redaction_refused:
  assumes "grammar_ok g" "keys_ok body"
  shows "redact_or_refuse d det nf g body = PiiRefused 503 PiiUnavailable
      \<or> (\<exists>out m. redact_or_refuse d det nf g body = PiiProceed out (Some m))"
    and "redact_or_refuse d (Some (detect kind separator post)) nf g body = PiiRefused 503 PiiUnavailable \<longleftrightarrow>
      (\<exists>e. dialect_texts d body = Inl e)
      \<or> (\<exists>refs e. dialect_texts d body = Inr refs \<and> detect kind separator post (map rf_text refs) = Inl e)"
proof -
  show "redact_or_refuse d det nf g body = PiiRefused 503 PiiUnavailable
      \<or> (\<exists>out m. redact_or_refuse d det nf g body = PiiProceed out (Some m))"
    by (auto simp: redact_or_refuse_def split: option.splits sum.splits)
  show "redact_or_refuse d (Some (detect kind separator post)) nf g body = PiiRefused 503 PiiUnavailable \<longleftrightarrow>
      (\<exists>e. dialect_texts d body = Inl e)
      \<or> (\<exists>refs e. dialect_texts d body = Inr refs \<and> detect kind separator post (map rf_text refs) = Inl e)"
  proof (cases "dialect_texts d body")
    case (Inl e)
    then show ?thesis by (simp add: redact_or_refuse_def redact_body_def)
  next
    case (Inr refs)
    show ?thesis
    proof (cases "detect kind separator post (map rf_text refs)")
      case (Inl e)
      then show ?thesis using Inr by (simp add: redact_or_refuse_def redact_body_def)
    next
      case found: (Inr su)
      obtain spans u where su: "su = (spans, u)" by force
      show ?thesis
        using redact_body_total [OF assms(2,1) Inr found [unfolded su], of nf] Inr found
        by (auto simp: redact_or_refuse_def)
    qed
  qed
qed

text \<open>The flag itself is never forwarded, and only the boolean \<open>true\<close> asks for redaction.\<close>

lemma take_flag_sound:
  assumes "take_pii_flag payload = (flag, body)"
  shows "\<not> has_fld pii_field body" "flag = FlagOn \<longleftrightarrow> fld pii_field payload = JTrue"
    "k \<noteq> pii_field \<Longrightarrow> fld k body = fld k payload"
proof -
  have absent: "fld pii_field payload = JUndef" if "\<not> is_obj payload \<or> \<not> has_fld pii_field payload"
    using that fld_not_has [of pii_field payload] by (cases payload) auto
  have no: "\<not> is_obj payload \<Longrightarrow> \<not> has_fld pii_field payload" by (cases payload) simp_all
  show "\<not> has_fld pii_field body" using assms no by (auto simp: take_pii_flag_def has_fld_del_fld split: if_splits)
  show "flag = FlagOn \<longleftrightarrow> fld pii_field payload = JTrue" using assms absent by (auto simp: take_pii_flag_def split: if_splits)
  show "k \<noteq> pii_field \<Longrightarrow> fld k body = fld k payload" using assms by (auto simp: take_pii_flag_def fld_del_fld split: if_splits)
qed

lemma intake_sound:
  assumes "chat_pii_intake payload = Intake on body"
  shows "\<not> has_fld pii_field body" "on \<longleftrightarrow> fld pii_field payload = JTrue" "on \<Longrightarrow> \<not> is_private_model (fld ''model'' body)"
proof -
  obtain flag b where flag: "take_pii_flag payload = (flag, b)" "resolve_model b = Inr body" "on \<longleftrightarrow> flag = FlagOn"
    "on \<longrightarrow> \<not> is_private_model (fld ''model'' body)"
    using assms by (auto simp: chat_pii_intake_def split: prod.splits if_splits sum.splits)
  have "body = b \<or> (\<exists>v. is_obj b \<and> body = set_fld ''model'' v b)"
    using flag(2) by (cases b) (auto simp: resolve_model_def invalid_model_def Let_def split: if_splits)
  moreover have "pii_field \<noteq> ''model''" by code_simp
  ultimately show "\<not> has_fld pii_field body" using take_flag_sound(1) [OF flag(1)] by (auto simp: has_fld_set_fld)
  show "on \<longleftrightarrow> fld pii_field payload = JTrue" "on \<Longrightarrow> \<not> is_private_model (fld ''model'' body)"
    using flag take_flag_sound(2) [OF flag(1)] by auto
qed

text \<open>A refusal that was restored for the client is sent in clear when the client returns it: the field is among
  those \<open>restoreMessage\<close> restores and not among those \<open>extractTexts\<close> reads.\<close>

lemma refusal_not_redacted:
  "chat_extract_texts (JObj [(''messages'', JArr [JObj [(''role'', JStr ''assistant''), (''refusal'', JStr ''No, Ann'')]])]) = Inr []"
  by code_simp

end
