(* ===== verification/PiiAnswers.thy ===== *)
theory PiiAnswers
  imports PiiRestore JsConvert PiiDialects
begin

text \<open>
  The restoration of an answer in its dialect: the response half of \<open>enclave/src/pii/dialects\<close>. Whole
  bodies in the three dialects, and the events of a Messages stream, whose text arrives in deltas of
  several blocks, each with its own restorer. A mapping is a grammar with its \<open>pii_map\<close>.
\<close>

subsection \<open>Whole bodies\<close>

type_synonym pii_mapping = "grammar \<times> pii_map"

definition matcher_for :: "pii_mapping \<Rightarrow> bool \<Rightarrow> matcher" where
  "matcher_for mapping json = (case mapping of (g, m) \<Rightarrow> matcher_of g m json)"

text \<open>\<open>out[k] = v\<close> on a fresh object makes no member when \<open>k\<close> is \<open>__proto__\<close>: the assignment calls the setter.\<close>

fun restore_leaves :: "pii_mapping \<Rightarrow> jsv \<Rightarrow> jsv" where
  "restore_leaves mapping (JStr s) = JStr (restore_text (matcher_for mapping False) s)"
| "restore_leaves mapping (JArr xs) = JArr (map (restore_leaves mapping) xs)"
| "restore_leaves mapping (JObj kvs) =
     JObj (filter (\<lambda>(k, v). k \<noteq> ''__proto__'') (map (\<lambda>(k, v). (k, restore_leaves mapping v)) kvs))"
| "restore_leaves mapping v = v"

definition restore_field :: "pii_mapping \<Rightarrow> bool \<Rightarrow> string \<Rightarrow> jsv \<Rightarrow> jsv" where
  "restore_field mapping json field obj =
     (case fld field obj of
        JStr s \<Rightarrow> set_fld field (JStr (restore_text (matcher_for mapping json) s)) obj
      | _ \<Rightarrow> obj)"

text \<open>\<open>if (Array.isArray(x?.k)) for (const e of x.k) f(e)\<close>, with the elements changed in place.\<close>

definition update_each :: "string \<Rightarrow> (jsv \<Rightarrow> jsv) \<Rightarrow> jsv \<Rightarrow> jsv" where
  "update_each k f x = (case fld k x of JArr es \<Rightarrow> set_fld k (JArr (map f es)) x | _ \<Rightarrow> x)"

text \<open>The same for one member that is an object.\<close>

definition update_member :: "string \<Rightarrow> (jsv \<Rightarrow> jsv) \<Rightarrow> jsv \<Rightarrow> jsv" where
  "update_member k f x = (if typeof_object (fld k x) then set_fld k (f (fld k x)) x else x)"

definition chat_text_fields :: "string list" where
  "chat_text_fields = [''content'', ''reasoning'', ''reasoning_content'', ''refusal'']"

definition restore_detail :: "pii_mapping \<Rightarrow> jsv \<Rightarrow> jsv" where
  "restore_detail mapping entry =
     (case detail_field entry of Some f \<Rightarrow> restore_field mapping False f entry | None \<Rightarrow> entry)"

definition chat_restore_message :: "pii_mapping \<Rightarrow> jsv \<Rightarrow> jsv" where
  "chat_restore_message mapping m =
     (if \<not> typeof_object m then m
      else
        let m1 = fold (restore_field mapping False) chat_text_fields m;
            m2 = update_each ''content'' (restore_field mapping False ''text'') m1;
            m3 = update_each ''reasoning_details'' (restore_detail mapping) m2;
            m4 = update_each ''tool_calls'' (update_member ''function'' (restore_field mapping True ''arguments'')) m3
        in update_member ''function_call'' (restore_field mapping True ''arguments'') m4)"

text \<open>It raises for a reasoning detail whose type cannot be converted to the name of a member.\<close>

definition answer_convertible :: "jsv \<Rightarrow> bool" where
  "answer_convertible body =
     list_all (\<lambda>c. list_all (\<lambda>entry. convertible (fld ''type'' entry))
         (elems (fld ''reasoning_details'' (fld ''message'' c))))
       (elems (fld ''choices'' body))"

definition chat_restore_json :: "pii_mapping \<Rightarrow> jsv \<Rightarrow> js_error + jsv" where
  "chat_restore_json mapping body =
     (if answer_convertible body
      then Inr (update_each ''choices'' (update_member ''message'' (chat_restore_message mapping)) body) else Inl TypeError)"

definition restore_block :: "pii_mapping \<Rightarrow> jsv \<Rightarrow> jsv" where
  "restore_block mapping block =
     (if \<not> typeof_object block then block
      else if fld ''type'' block = JStr ''text'' then restore_field mapping False ''text'' block
      else if fld ''type'' block = JStr ''tool_use'' \<and> fld ''input'' block \<noteq> JUndef
        then set_fld ''input'' (restore_leaves mapping (fld ''input'' block)) block
      else block)"

definition messages_restore_message :: "pii_mapping \<Rightarrow> jsv \<Rightarrow> jsv" where
  "messages_restore_message mapping = update_each ''content'' (restore_block mapping)"

definition restore_part :: "pii_mapping \<Rightarrow> jsv \<Rightarrow> jsv" where
  "restore_part mapping part = restore_field mapping False ''refusal'' (restore_field mapping False ''text'' part)"

definition restore_item :: "pii_mapping \<Rightarrow> jsv \<Rightarrow> jsv" where
  "restore_item mapping item =
     (if \<not> typeof_object item then item
      else
        let i1 = (if fld ''type'' item = JStr ''function_call'' then restore_field mapping True ''arguments'' item else item)
        in update_each ''summary'' (restore_field mapping False ''text'')
             (update_each ''content'' (restore_part mapping) i1))"

definition restore_response :: "pii_mapping \<Rightarrow> jsv \<Rightarrow> jsv" where
  "restore_response mapping resp =
     restore_field mapping False ''output_text'' (update_each ''output'' (restore_item mapping) resp)"

subsection \<open>Restorers by key\<close>

record keyed_entry =
  ke_state :: restorer
  ke_json :: bool
  ke_meta :: "jsv \<times> jsv"

type_synonym keyed = "(string \<times> keyed_entry) list"

text \<open>\<open>meta\<close> is the index and the type of the delta, as the events spell them.\<close>

definition keyed_push :: "pii_mapping \<Rightarrow> string \<Rightarrow> string \<Rightarrow> bool \<Rightarrow> jsv \<times> jsv \<Rightarrow> keyed \<Rightarrow> string \<times> keyed" where
  "keyed_push mapping key chunk json meta kr =
     (let e = (case map_of kr key of Some e \<Rightarrow> e | None \<Rightarrow> \<lparr>ke_state = restorer_start, ke_json = json, ke_meta = meta\<rparr>)
      in case restorer_push (matcher_for mapping (ke_json e)) chunk (ke_state e) of
           (out, st) \<Rightarrow> (out, AList.update key (e\<lparr>ke_state := st, ke_meta := meta\<rparr>) kr))"

definition keyed_flush :: "pii_mapping \<Rightarrow> string \<Rightarrow> keyed \<Rightarrow> string \<times> (jsv \<times> jsv) option \<times> keyed" where
  "keyed_flush mapping key kr =
     (case map_of kr key of
        None \<Rightarrow> ([], None, kr)
      | Some e \<Rightarrow> (fst (restorer_flush (matcher_for mapping (ke_json e)) (ke_state e)), Some (ke_meta e), AList.delete key kr))"

subsection \<open>The events of a Messages stream\<close>

text \<open>\<open>DELTA_FIELDS\<close>: the field of a delta and whether it is JSON. A type named like a member of
  \<open>Object.prototype\<close> finds a value without a \<open>field\<close>, so the field is the one named \<open>undefined\<close>.\<close>

definition delta_fields :: "(string \<times> string \<times> bool) list" where
  "delta_fields = [(''text_delta'', ''text'', False), (''input_json_delta'', ''partial_json'', True)]"

definition delta_spec :: "string \<Rightarrow> (string \<times> bool) option" where
  "delta_spec type =
     (case table_get delta_fields type of Own fj \<Rightarrow> Some fj | Inherited \<Rightarrow> Some (''undefined'', False) | Missing \<Rightarrow> None)"

definition tail_delta :: "jsv \<times> jsv \<Rightarrow> string \<Rightarrow> jsv" where
  "tail_delta meta tail =
     (let field = (case js_string (snd meta) of
          Inr type \<Rightarrow> (case delta_spec type of Some (f, _) \<Rightarrow> f | None \<Rightarrow> ''undefined'') | Inl e \<Rightarrow> ''undefined'')
      in JObj [(''type'', JStr ''content_block_delta''), (''index'', fst meta),
               (''delta'', JObj [(''type'', snd meta), (field, JStr tail)])])"

text \<open>\<open>tailsFor\<close>, over a snapshot of the keys.\<close>

fun tails_of_keys :: "pii_mapping \<Rightarrow> string \<Rightarrow> string list \<Rightarrow> keyed \<Rightarrow> jsv list \<times> keyed" where
  "tails_of_keys mapping index [] kr = ([], kr)"
| "tails_of_keys mapping index (k # ks) kr =
     (if \<not> starts_with k (index @ '':'') then tails_of_keys mapping index ks kr
      else case keyed_flush mapping k kr of
        (tail, meta, kr1) \<Rightarrow>
          (case tails_of_keys mapping index ks kr1 of
             (evs, kr2) \<Rightarrow>
               (case meta of
                  Some mt \<Rightarrow> if tail \<noteq> [] then (tail_delta mt tail # evs, kr2) else (evs, kr2)
                | None \<Rightarrow> (evs, kr2))))"

definition tails_for :: "pii_mapping \<Rightarrow> string \<Rightarrow> keyed \<Rightarrow> jsv list \<times> keyed" where
  "tails_for mapping index kr = tails_of_keys mapping index (map fst kr) kr"

definition push_block_delta :: "pii_mapping \<Rightarrow> jsv \<Rightarrow> keyed \<Rightarrow> js_error + jsv list \<times> keyed" where
  "push_block_delta mapping ev kr =
     (let delta = fld ''delta'' ev
      in bind_js (js_string (fld ''type'' delta)) (\<lambda>type.
           case delta_spec type of
             None \<Rightarrow> Inr ([ev], kr)
           | Some (field, json) \<Rightarrow>
               (case fld field delta of
                  JStr s \<Rightarrow>
                    bind_js (js_string (fld ''index'' ev)) (\<lambda>index.
                      case keyed_push mapping (index @ '':'' @ type) s json (fld ''index'' ev, fld ''type'' delta) kr of
                        (out, kr1) \<Rightarrow> Inr ([set_fld ''delta'' (set_fld field (JStr out) delta) ev], kr1))
                | _ \<Rightarrow> Inr ([ev], kr))))"

definition messages_restore_push :: "pii_mapping \<Rightarrow> jsv \<Rightarrow> keyed \<Rightarrow> js_error + jsv list \<times> keyed" where
  "messages_restore_push mapping ev kr =
     (if fld ''type'' ev = JStr ''content_block_delta'' then push_block_delta mapping ev kr
      else if fld ''type'' ev = JStr ''content_block_stop'' then
        bind_js (js_string (fld ''index'' ev)) (\<lambda>index.
          case tails_for mapping index kr of (evs, kr1) \<Rightarrow> Inr (evs @ [ev], kr1))
      else if fld ''type'' ev = JStr ''content_block_start'' then Inr ([update_member ''content_block'' (restore_block mapping) ev], kr)
      else if fld ''type'' ev = JStr ''message_start'' then Inr ([update_member ''message'' (messages_restore_message mapping) ev], kr)
      else Inr ([ev], kr))"

text \<open>\<open>flush\<close>: the printed indices of the keys, each once, in their order.\<close>

definition key_index :: "string \<Rightarrow> string" where
  "key_index key = takeWhile (\<lambda>c. c \<noteq> CHR '':'') key"

fun flush_indices :: "pii_mapping \<Rightarrow> string list \<Rightarrow> keyed \<Rightarrow> jsv list \<times> keyed" where
  "flush_indices mapping [] kr = ([], kr)"
| "flush_indices mapping (i # is) kr =
     (case tails_for mapping i kr of
        (evs, kr1) \<Rightarrow> (case flush_indices mapping is kr1 of (rest, kr2) \<Rightarrow> (evs @ rest, kr2)))"

definition messages_restore_flush :: "pii_mapping \<Rightarrow> keyed \<Rightarrow> jsv list \<times> keyed" where
  "messages_restore_flush mapping kr = flush_indices mapping (rev (remdups (rev (map (\<lambda>(k, _). key_index k) kr)))) kr"

text \<open>A whole stream of events.\<close>

fun messages_restore_stream :: "pii_mapping \<Rightarrow> keyed \<Rightarrow> jsv list \<Rightarrow> js_error + jsv list" where
  "messages_restore_stream mapping kr [] = Inr (fst (messages_restore_flush mapping kr))"
| "messages_restore_stream mapping kr (ev # evs) =
     bind_js (messages_restore_push mapping ev kr) (\<lambda>(out, kr1).
       bind_js (messages_restore_stream mapping kr1 evs) (\<lambda>rest. Inr (out @ rest)))"

subsection \<open>What the client of a Messages stream reads\<close>

definition block_key :: "string \<Rightarrow> string \<Rightarrow> string" where
  "block_key index type = index @ '':'' @ type"

definition delta_types :: "string list" where
  "delta_types = [''text_delta'', ''input_json_delta'']"

definition json_type :: "string \<Rightarrow> bool" where
  "json_type type \<longleftrightarrow> type = ''input_json_delta''"

definition type_field :: "string \<Rightarrow> string" where
  "type_field type = (if json_type type then ''partial_json'' else ''text'')"

text \<open>The text a delta event carries for one block and type, and the whole of a list of events.\<close>

definition piece :: "string \<Rightarrow> string \<Rightarrow> jsv \<Rightarrow> string" where
  "piece index type ev =
     (if fld ''type'' ev = JStr ''content_block_delta'' \<and> js_string (fld ''index'' ev) = Inr index
         \<and> fld ''type'' (fld ''delta'' ev) = JStr type
      then str_of (fld (type_field type) (fld ''delta'' ev)) else [])"

definition read_text :: "string \<Rightarrow> string \<Rightarrow> jsv list \<Rightarrow> string" where
  "read_text index type evs = concat (map (piece index type) evs)"

lemma read_text_simps [simp]:
  "read_text index type [] = []"
  "read_text index type (ev # evs) = piece index type ev @ read_text index type evs"
  "read_text index type (evs @ evs') = read_text index type evs @ read_text index type evs'"
  by (simp_all add: read_text_def)

definition is_stop :: "string \<Rightarrow> jsv \<Rightarrow> bool" where
  "is_stop index ev \<longleftrightarrow> fld ''type'' ev = JStr ''content_block_stop'' \<and> js_string (fld ''index'' ev) = Inr index"

definition is_delta :: "string \<Rightarrow> string \<Rightarrow> jsv \<Rightarrow> bool" where
  "is_delta index type ev \<longleftrightarrow> fld ''type'' ev = JStr ''content_block_delta'' \<and> js_string (fld ''index'' ev) = Inr index
     \<and> fld ''type'' (fld ''delta'' ev) = JStr type"

text \<open>The chunks of a block's text, those of one life of the block together: a stop ends one.\<close>

fun segments :: "string \<Rightarrow> string \<Rightarrow> jsv list \<Rightarrow> string list list" where
  "segments index type [] = [[]]"
| "segments index type (ev # evs) =
     (let rest = segments index type evs
      in if is_stop index ev then [] # rest
         else if is_delta index type ev then (piece index type ev # hd rest) # tl rest else rest)"

text \<open>An event as the API documents it: a delta of one of the two types with its text, and an index that prints
  without a colon (it is a number) wherever there is one.\<close>

definition event_ok :: "jsv \<Rightarrow> bool" where
  "event_ok ev \<longleftrightarrow>
     (fld ''type'' ev \<in> {JStr ''content_block_delta'', JStr ''content_block_stop''} \<longrightarrow>
        (\<exists>index. js_string (fld ''index'' ev) = Inr index \<and> CHR '':'' \<notin> set index))
     \<and> (fld ''type'' ev = JStr ''content_block_delta'' \<longrightarrow>
         (\<exists>type \<in> set delta_types. \<exists>s. fld ''type'' (fld ''delta'' ev) = JStr type
            \<and> fld (type_field type) (fld ''delta'' ev) = JStr s))"

definition entry_ok :: "string \<times> keyed_entry \<Rightarrow> bool" where
  "entry_ok ke \<longleftrightarrow>
     (\<exists>index type. fst ke = block_key index type \<and> CHR '':'' \<notin> set index \<and> type \<in> set delta_types
        \<and> js_string (fst (ke_meta (snd ke))) = Inr index \<and> snd (ke_meta (snd ke)) = JStr type
        \<and> ke_json (snd ke) = json_type type)"

definition keyed_ok :: "keyed \<Rightarrow> bool" where
  "keyed_ok kr \<longleftrightarrow> distinct (map fst kr) \<and> (\<forall>ke \<in> set kr. entry_ok ke)"

definition state_at :: "keyed \<Rightarrow> string \<Rightarrow> restorer" where
  "state_at kr key = (case map_of kr key of Some e \<Rightarrow> ke_state e | None \<Rightarrow> restorer_start)"

lemma block_key_inj [simp]:
  assumes "CHR '':'' \<notin> set index" "CHR '':'' \<notin> set index'"
  shows "block_key index type = block_key index' type' \<longleftrightarrow> index = index' \<and> type = type'"
proof
  assume eq: "block_key index type = block_key index' type'"
  have "takeWhile (\<lambda>c. c \<noteq> CHR '':'') (block_key i t) = i" if "CHR '':'' \<notin> set i" for i t
    unfolding block_key_def using that by (subst takeWhile_append2) (auto simp: takeWhile_append2)
  with assms eq have "index = index'" by metis
  with eq show "index = index' \<and> type = type'" by (simp add: block_key_def)
qed simp

lemma key_index_block: "CHR '':'' \<notin> set index \<Longrightarrow> key_index (block_key index type) = index"
  unfolding key_index_def block_key_def by (subst takeWhile_append2) auto

lemma block_key_prefix:
  assumes "CHR '':'' \<notin> set index" "CHR '':'' \<notin> set index'"
  shows "starts_with (block_key index type) (index' @ '':'') \<longleftrightarrow> index = index'"
proof
  assume "starts_with (block_key index type) (index' @ '':'')"
  then obtain t where "block_key index type = block_key index' t" by (auto simp: starts_with_iff block_key_def)
  then show "index = index'" using assms by simp
next
  assume "index = index'"
  then show "starts_with (block_key index type) (index' @ '':'')" by (auto simp: starts_with_iff block_key_def)
qed

lemma delta_spec_types: "type \<in> set delta_types \<Longrightarrow> delta_spec type = Some (type_field type, json_type type)"
  by (auto simp: delta_types_def delta_spec_def table_get_def delta_fields_def type_field_def json_type_def)

lemma piece_tail:
  assumes "type \<in> set delta_types" "js_string (fst meta) = Inr index" "snd meta = JStr type"
  shows "piece index' type' (tail_delta meta tail) = (if index' = index \<and> type' = type then tail else [])"
  using assms delta_spec_types [OF assms(1)]
  by (auto simp: piece_def tail_delta_def Let_def delta_types_def type_field_def json_type_def)

lemma flush_start [simp]: "fst (restorer_flush c restorer_start) = []"
  by (simp add: restorer_flush_def restorer_start_def)

lemma keyed_ok_delete: "keyed_ok kr \<Longrightarrow> keyed_ok (AList.delete k kr)"
  using distinct_delete [of kr k] by (auto simp: keyed_ok_def AList.delete_eq)

lemma state_at_delete: "state_at (AList.delete k kr) j = (if j = k then restorer_start else state_at kr j)"
  by (simp add: state_at_def delete_conv')

lemma keyed_entry_at:
  assumes "keyed_ok kr" "map_of kr (block_key index type) = Some e" "CHR '':'' \<notin> set index"
  shows "type \<in> set delta_types" "js_string (fst (ke_meta e)) = Inr index" "snd (ke_meta e) = JStr type"
    "ke_json e = json_type type"
proof -
  have "entry_ok (block_key index type, e)" using assms(1,2) by (auto simp: keyed_ok_def dest: map_of_SomeD)
  then show "type \<in> set delta_types" "js_string (fst (ke_meta e)) = Inr index" "snd (ke_meta e) = JStr type"
    "ke_json e = json_type type"
    using assms(3) by (auto simp: entry_ok_def)
qed

text \<open>A flush of one key: its tail is what the restorer still held.\<close>

lemma keyed_flush_reads:
  assumes ok: "keyed_ok kr" and k: "map_of kr k = Some e" and index: "CHR '':'' \<notin> set index'"
    and fl: "keyed_flush mapping k kr = (tail, Some mt, kr1)"
  shows "kr1 = AList.delete k kr"
    and "piece index' type' (tail_delta mt tail)
      = (if k = block_key index' type' then fst (restorer_flush (matcher_for mapping (json_type type')) (state_at kr k)) else [])"
proof -
  obtain index type where key: "k = block_key index type" "CHR '':'' \<notin> set index" "type \<in> set delta_types"
    "js_string (fst (ke_meta e)) = Inr index" "snd (ke_meta e) = JStr type" "ke_json e = json_type type"
    using ok k by (fastforce simp: keyed_ok_def entry_ok_def dest: map_of_SomeD)
  have "tail = fst (restorer_flush (matcher_for mapping (json_type type)) (state_at kr k))" "mt = ke_meta e"
    and del: "kr1 = AList.delete k kr"
    using fl k key(6) by (simp_all add: keyed_flush_def state_at_def)
  then show "piece index' type' (tail_delta mt tail)
      = (if k = block_key index' type' then fst (restorer_flush (matcher_for mapping (json_type type')) (state_at kr k)) else [])"
    using piece_tail [OF key(3), of "ke_meta e" index] key(1,2,4,5) index by auto
  show "kr1 = AList.delete k kr" by (rule del)
qed

lemma keyed_flush_Some: "map_of kr k = Some e \<Longrightarrow> \<exists>tail. keyed_flush mapping k kr = (tail, Some (ke_meta e), AList.delete k kr)"
  by (simp add: keyed_flush_def)

lemma tails_of_keys_reads:
  assumes "keyed_ok kr" "distinct ks" "set ks \<subseteq> fst ` set kr" "tails_of_keys mapping index ks kr = (evs, kr')"
    and "CHR '':'' \<notin> set index" "CHR '':'' \<notin> set index'"
  shows "keyed_ok kr'"
    and "read_text index' type' evs = (if index' = index \<and> block_key index' type' \<in> set ks
      then fst (restorer_flush (matcher_for mapping (json_type type')) (state_at kr (block_key index' type'))) else [])"
    and "state_at kr' (block_key index' type') = (if index' = index \<and> block_key index' type' \<in> set ks
      then restorer_start else state_at kr (block_key index' type'))"
proof -
  let ?K = "block_key index' type'"
  let ?c = "matcher_for mapping (json_type type')"
  have "keyed_ok kr' \<and> read_text index' type' evs = (if index' = index \<and> ?K \<in> set ks then fst (restorer_flush ?c (state_at kr ?K)) else [])
      \<and> state_at kr' ?K = (if index' = index \<and> ?K \<in> set ks then restorer_start else state_at kr ?K)"
    using assms(1-4)
  proof (induction ks arbitrary: kr evs kr')
    case (Cons k ks)
    obtain e where e: "map_of kr k = Some e" using Cons.prems(3) by (fastforce dest: weak_map_of_SomeI)
    obtain i t where k: "k = block_key i t" "CHR '':'' \<notin> set i"
      using Cons.prems(1) e by (fastforce simp: keyed_ok_def entry_ok_def dest: map_of_SomeD)
    have pre: "starts_with k (index @ '':'') \<longleftrightarrow> i = index" using k assms(5) by (simp add: block_key_prefix)
    show ?case
    proof (cases "i = index")
      case False
      then have "tails_of_keys mapping index ks kr = (evs, kr')" using Cons.prems(4) pre by simp
      from Cons.IH [OF Cons.prems(1) _ _ this] Cons.prems False k assms(6) show ?thesis by auto
    next
      case True
      obtain tail where fl: "keyed_flush mapping k kr = (tail, Some (ke_meta e), AList.delete k kr)"
        using keyed_flush_Some [OF e] by blast
      obtain evs1 where rest: "tails_of_keys mapping index ks (AList.delete k kr) = (evs1, kr')"
        and evs: "evs = (if tail \<noteq> [] then [tail_delta (ke_meta e) tail] else []) @ evs1"
        using Cons.prems(4) pre True fl by (auto split: prod.splits if_splits)
      have sub: "set ks \<subseteq> fst ` set (AList.delete k kr)" using Cons.prems(2,3) by (force simp: AList.delete_eq)
      have IH: "keyed_ok kr' \<and> read_text index' type' evs1
          = (if index' = index \<and> ?K \<in> set ks then fst (restorer_flush ?c (state_at (AList.delete k kr) ?K)) else [])
        \<and> state_at kr' ?K = (if index' = index \<and> ?K \<in> set ks then restorer_start else state_at (AList.delete k kr) ?K)"
        using Cons.IH [OF keyed_ok_delete [OF Cons.prems(1)] _ sub rest] Cons.prems(2) by simp
      have tail: "piece index' type' (tail_delta (ke_meta e) tail)
          = (if k = ?K then fst (restorer_flush ?c (state_at kr k)) else [])"
        by (rule keyed_flush_reads(2) [OF Cons.prems(1) e assms(6) fl])
      have "tail = [] \<Longrightarrow> piece index' type' (tail_delta (ke_meta e) tail) = []"
        using keyed_entry_at [OF Cons.prems(1), of i t e] e k piece_tail [of t "ke_meta e" i index' type' tail] by simp
      then have "read_text index' type' evs = (if k = ?K then fst (restorer_flush ?c (state_at kr k)) else []) @ read_text index' type' evs1"
        using tail evs by auto
      moreover have "k = ?K \<longleftrightarrow> i = index' \<and> t = type'" using k assms(6) by simp
      ultimately show ?thesis using IH Cons.prems(2) True by (auto simp: state_at_delete)
    qed
  qed simp
  then show "keyed_ok kr'"
    and "read_text index' type' evs = (if index' = index \<and> ?K \<in> set ks then fst (restorer_flush ?c (state_at kr ?K)) else [])"
    and "state_at kr' ?K = (if index' = index \<and> ?K \<in> set ks then restorer_start else state_at kr ?K)"
    by blast+
qed

lemma state_at_absent: "k \<notin> fst ` set kr \<Longrightarrow> state_at kr k = restorer_start"
  by (simp add: state_at_def map_of_eq_None_iff [symmetric])

lemma tails_for_reads:
  assumes "keyed_ok kr" "tails_for mapping index kr = (evs, kr')" "CHR '':'' \<notin> set index" "CHR '':'' \<notin> set index'"
  shows "keyed_ok kr'"
    and "read_text index' type' evs = (if index' = index
      then fst (restorer_flush (matcher_for mapping (json_type type')) (state_at kr (block_key index' type'))) else [])"
    and "state_at kr' (block_key index' type') = (if index' = index then restorer_start else state_at kr (block_key index' type'))"
proof -
  have run: "tails_of_keys mapping index (map fst kr) kr = (evs, kr')" "distinct (map fst kr)" "set (map fst kr) \<subseteq> fst ` set kr"
    using assms(1,2) by (simp_all add: tails_for_def keyed_ok_def)
  note all = tails_of_keys_reads [OF assms(1) run(2,3,1) assms(3,4)]
  show "keyed_ok kr'" by (rule all(1))
  show "read_text index' type' evs = (if index' = index
      then fst (restorer_flush (matcher_for mapping (json_type type')) (state_at kr (block_key index' type'))) else [])"
    using all(2) state_at_absent [of "block_key index' type'" kr] by auto
  show "state_at kr' (block_key index' type') = (if index' = index then restorer_start else state_at kr (block_key index' type'))"
    using all(3) state_at_absent [of "block_key index' type'" kr] by auto
qed

lemma flush_indices_reads:
  assumes "keyed_ok kr" "distinct is" "\<forall>i \<in> set is. CHR '':'' \<notin> set i" "CHR '':'' \<notin> set index"
  shows "read_text index type (fst (flush_indices mapping is kr)) = (if index \<in> set is
    then fst (restorer_flush (matcher_for mapping (json_type type)) (state_at kr (block_key index type))) else [])"
  using assms
proof (induction "is" arbitrary: kr)
  case (Cons i "is")
  obtain evs kr1 where t: "tails_for mapping i kr = (evs, kr1)" by force
  have colon: "CHR '':'' \<notin> set i" using Cons.prems(3) by simp
  note reads = tails_for_reads [OF Cons.prems(1) t colon Cons.prems(4)]
  show ?case using Cons.IH [OF reads(1)] Cons.prems reads(2,3) t by (auto split: prod.split)
qed simp

lemma flush_reads:
  assumes "keyed_ok kr" "CHR '':'' \<notin> set index"
  shows "read_text index type (fst (messages_restore_flush mapping kr))
    = fst (restorer_flush (matcher_for mapping (json_type type)) (state_at kr (block_key index type)))"
proof -
  let ?is = "rev (remdups (rev (map (\<lambda>(k, _). key_index k) kr)))"
  have "\<forall>i \<in> set ?is. CHR '':'' \<notin> set i"
    using assms(1) by (auto simp: keyed_ok_def entry_ok_def key_index_block)
  from flush_indices_reads [OF assms(1) _ this assms(2)]
  have all: "read_text index type (fst (messages_restore_flush mapping kr)) = (if index \<in> set ?is
      then fst (restorer_flush (matcher_for mapping (json_type type)) (state_at kr (block_key index type))) else [])"
    by (simp add: messages_restore_flush_def)
  show ?thesis
  proof (cases "index \<in> set ?is")
    case False
    have "block_key index type \<notin> fst ` set kr"
    proof
      assume "block_key index type \<in> fst ` set kr"
      then have "key_index (block_key index type) \<in> set ?is" by force
      with False assms(2) show False by (simp add: key_index_block)
    qed
    then show ?thesis using all False by (simp add: state_at_absent)
  qed (use all in simp)
qed

text \<open>One event.\<close>

lemma keyed_push_reads:
  assumes ok: "keyed_ok kr" and index: "CHR '':'' \<notin> set index" and type: "type \<in> set delta_types"
    and meta: "js_string (fst meta) = Inr index" "snd meta = JStr type"
    and push: "keyed_push mapping (block_key index type) chunk (json_type type) meta kr = (out, kr')"
  shows "keyed_ok kr'"
    and "restorer_push (matcher_for mapping (json_type type)) chunk (state_at kr (block_key index type))
      = (out, state_at kr' (block_key index type))"
    and "k \<noteq> block_key index type \<Longrightarrow> state_at kr' k = state_at kr k"
proof -
  let ?K = "block_key index type"
  define e where "e = (case map_of kr ?K of Some e \<Rightarrow> e | None \<Rightarrow> \<lparr>ke_state = restorer_start, ke_json = json_type type, ke_meta = meta\<rparr>)"
  have json: "ke_json e = json_type type"
    using keyed_entry_at(4) [OF ok _ index] by (auto simp: e_def split: option.split)
  have st: "ke_state e = state_at kr ?K" by (simp add: e_def state_at_def split: option.split)
  obtain st where run: "restorer_push (matcher_for mapping (json_type type)) chunk (state_at kr ?K) = (out, st)"
    and kr': "kr' = AList.update ?K (e\<lparr>ke_state := st, ke_meta := meta\<rparr>) kr"
    using push json st by (auto simp: keyed_push_def Let_def e_def [symmetric] split: prod.splits)
  have "entry_ok (?K, e\<lparr>ke_state := st, ke_meta := meta\<rparr>)"
    using index type meta json by (auto simp: entry_ok_def)
  moreover have "x \<in> set kr \<or> x = (?K, e\<lparr>ke_state := st, ke_meta := meta\<rparr>)" if "x \<in> set kr'" for x
    using in_update [of "fst x" "snd x" ?K "e\<lparr>ke_state := st, ke_meta := meta\<rparr>" kr] that by (auto simp: kr' prod_eq_iff)
  ultimately show "keyed_ok kr'" using ok by (auto simp: keyed_ok_def kr' distinct_update)
  show "restorer_push (matcher_for mapping (json_type type)) chunk (state_at kr ?K) = (out, state_at kr' ?K)"
    using run by (simp add: kr' state_at_def update_conv')
  show "k \<noteq> ?K \<Longrightarrow> state_at kr' k = state_at kr k" by (simp add: kr' state_at_def update_conv')
qed

lemma set_other: "k \<noteq> k' \<Longrightarrow> fld k (set_fld k' v x) = fld k x"
  by (cases x) (auto simp: update_conv')

lemma set_own: "fld k x \<noteq> JUndef \<Longrightarrow> fld k (set_fld k v x) = v"
  by (cases x) (auto simp: update_conv')

lemma push_other_reads:
  assumes "fld ''type'' ev \<noteq> JStr ''content_block_delta''" "fld ''type'' ev \<noteq> JStr ''content_block_stop''"
  shows "\<exists>ev'. messages_restore_push mapping ev kr = Inr ([ev'], kr) \<and> piece index type ev' = []"
proof -
  have "fld ''type'' (update_member k f ev) = fld ''type'' ev" if "k \<noteq> ''type''" for k f
    using that by (simp add: update_member_def set_other)
  then show ?thesis using assms by (auto simp: messages_restore_push_def piece_def)
qed

lemma push_delta_reads:
  assumes ok: "keyed_ok kr" and ev: "event_ok ev" "is_delta index type ev" "CHR '':'' \<notin> set index"
  obtains out ev' kr' where "messages_restore_push mapping ev kr = Inr ([ev'], kr')" "keyed_ok kr'"
    and "restorer_push (matcher_for mapping (json_type type)) (piece index type ev) (state_at kr (block_key index type))
      = (out, state_at kr' (block_key index type))"
    and "\<forall>k. k \<noteq> block_key index type \<longrightarrow> state_at kr' k = state_at kr k"
    and "\<forall>i t. piece i t ev' = (if i = index \<and> t = type then out else [])"
proof -
  let ?d = "fld ''delta'' ev"
  have d: "fld ''type'' ev = JStr ''content_block_delta''" "js_string (fld ''index'' ev) = Inr index" "fld ''type'' ?d = JStr type"
    using ev(2) by (simp_all add: is_delta_def)
  obtain s where type: "type \<in> set delta_types" and s: "fld (type_field type) ?d = JStr s"
    using ev(1) d by (auto simp: event_ok_def)
  have piece: "piece index type ev = s" using d s by (simp add: piece_def)
  obtain out kr' where push: "keyed_push mapping (block_key index type) s (json_type type) (fld ''index'' ev, fld ''type'' ?d) kr = (out, kr')"
    by force
  note reads = keyed_push_reads [OF ok ev(3) type _ _ push]
  let ?ev = "set_fld ''delta'' (set_fld (type_field type) (JStr out) ?d) ev"
  have run: "messages_restore_push mapping ev kr = Inr ([?ev], kr')"
    using d s push by (simp add: messages_restore_push_def push_block_delta_def delta_spec_types [OF type] Let_def block_key_def)
  have f: "type_field type \<noteq> ''type''" by (simp add: type_field_def)
  have d': "fld ''delta'' ?ev = set_fld (type_field type) (JStr out) ?d"
    by (rule set_own) (use d(3) in auto)
  have "fld (type_field type) (set_fld (type_field type) (JStr out) ?d) = JStr out" by (rule set_own) (simp add: s)
  then have "piece i t ?ev = (if i = index \<and> t = type then out else [])" for i t
    using d f by (auto simp: piece_def d' set_other)
  with that [OF run] reads d piece show ?thesis by simp
qed

lemma push_stop_reads:
  assumes ok: "keyed_ok kr" and ev: "is_stop index ev" "CHR '':'' \<notin> set index" "CHR '':'' \<notin> set index'"
  shows "\<exists>evs kr'. messages_restore_push mapping ev kr = Inr (evs, kr') \<and> keyed_ok kr'
    \<and> read_text index' type' evs = (if index' = index
        then fst (restorer_flush (matcher_for mapping (json_type type')) (state_at kr (block_key index' type'))) else [])
    \<and> state_at kr' (block_key index' type') = (if index' = index then restorer_start else state_at kr (block_key index' type'))"
proof -
  obtain evs kr' where t: "tails_for mapping index kr = (evs, kr')" by force
  note reads = tails_for_reads [OF ok t ev(2,3)]
  have "messages_restore_push mapping ev kr = Inr (evs @ [ev], kr')" "piece index' type' ev = []"
    using ev(1) t by (simp_all add: is_stop_def messages_restore_push_def piece_def)
  with reads show ?thesis by auto
qed

lemma segments_nonempty [simp]: "segments index type evs \<noteq> []"
  by (induction evs) (auto simp: Let_def)

text \<open>From any state of the restorers: what a block's client still reads.\<close>

lemma stream_reads:
  assumes "keyed_ok kr" "\<forall>ev \<in> set evs. event_ok ev" "CHR '':'' \<notin> set index"
  shows "\<exists>outs. messages_restore_stream mapping kr evs = Inr outs
    \<and> read_text index type outs
      = restorer_stream (matcher_for mapping (json_type type)) (state_at kr (block_key index type)) (hd (segments index type evs))
        @ concat (map (restorer_stream (matcher_for mapping (json_type type)) restorer_start) (tl (segments index type evs)))"
  using assms(1,2)
proof (induction evs arbitrary: kr)
  case Nil
  then show ?case using flush_reads [OF _ assms(3)] by simp
next
  case (Cons ev evs)
  let ?c = "matcher_for mapping (json_type type)" let ?K = "block_key index type"
  let ?seg = "segments index type evs"
  have ev: "event_ok ev" and evs: "\<forall>ev \<in> set evs. event_ok ev" using Cons.prems(2) by auto
  have step: "\<exists>outs. messages_restore_stream mapping kr (ev # evs) = Inr outs \<and> read_text index type outs
      = read_text index type out @ restorer_stream ?c (state_at kr' ?K) (hd ?seg) @ concat (map (restorer_stream ?c restorer_start) (tl ?seg))"
    if "messages_restore_push mapping ev kr = Inr (out, kr')" "keyed_ok kr'" for out kr'
    using Cons.IH [OF that(2) evs] that(1) by auto
  show ?case
  proof (cases "fld ''type'' ev = JStr ''content_block_delta''")
    case True
    then obtain i t where d: "is_delta i t ev" "CHR '':'' \<notin> set i"
      using ev by (auto simp: event_ok_def is_delta_def)
    obtain out ev' kr' where push: "messages_restore_push mapping ev kr = Inr ([ev'], kr')" "keyed_ok kr'"
      "restorer_push (matcher_for mapping (json_type t)) (piece i t ev) (state_at kr (block_key i t)) = (out, state_at kr' (block_key i t))"
      "\<forall>k. k \<noteq> block_key i t \<longrightarrow> state_at kr' k = state_at kr k"
      "\<forall>i' t'. piece i' t' ev' = (if i' = i \<and> t' = t then out else [])"
      by (rule push_delta_reads [OF Cons.prems(1) ev d, of mapping]) (rule that; assumption)
    have stop: "\<not> is_stop index ev" using True by (simp add: is_stop_def)
    show ?thesis
    proof (cases "i = index \<and> t = type")
      case True
      then have "segments index type (ev # evs) = (piece index type ev # hd ?seg) # tl ?seg"
        using stop d by (simp add: Let_def)
      then show ?thesis using step [OF push(1,2)] push(3,5) True by simp
    next
      case False
      then have "\<not> is_delta index type ev" using d by (auto simp: is_delta_def)
      then have "segments index type (ev # evs) = ?seg" using stop by (simp add: Let_def)
      moreover have "state_at kr' ?K = state_at kr ?K" using False push(4) d(2) assms(3) by auto
      moreover have "piece index type ev' = []" using push(5) False by auto
      ultimately show ?thesis using step [OF push(1,2)] by simp
    qed
  next
    case no_delta: False
    then have nd: "\<not> is_delta index type ev" by (simp add: is_delta_def)
    show ?thesis
    proof (cases "fld ''type'' ev = JStr ''content_block_stop''")
      case True
      then obtain i where i: "is_stop i ev" "CHR '':'' \<notin> set i" using ev by (auto simp: event_ok_def is_stop_def)
      obtain out kr' where push: "messages_restore_push mapping ev kr = Inr (out, kr')" "keyed_ok kr'"
        "read_text index type out = (if index = i then fst (restorer_flush ?c (state_at kr ?K)) else [])"
        "state_at kr' ?K = (if index = i then restorer_start else state_at kr ?K)"
        using push_stop_reads [OF Cons.prems(1) i assms(3)] by blast
      show ?thesis
      proof (cases "index = i")
        case True
        then have seg: "segments index type (ev # evs) = [] # ?seg" using i by (simp add: Let_def)
        obtain s ss where "?seg = s # ss" using segments_nonempty by (cases ?seg) auto
        with step [OF push(1,2)] push(3,4) True show ?thesis unfolding seg by simp
      next
        case False
        then have "\<not> is_stop index ev" using i by (auto simp: is_stop_def)
        then have "segments index type (ev # evs) = ?seg" using nd by (simp add: Let_def)
        then show ?thesis using step [OF push(1,2)] push(3,4) False by simp
      qed
    next
      case False
      then have "segments index type (ev # evs) = ?seg" using nd by (simp add: Let_def is_stop_def)
      moreover obtain ev' where "messages_restore_push mapping ev kr = Inr ([ev'], kr)" "piece index type ev' = []"
        using push_other_reads [OF no_delta False] by blast
      ultimately show ?thesis using step [OF _ Cons.prems(1)] by simp
    qed
  qed
qed


definition demo_mapping :: pii_mapping where
  "demo_mapping = (square, \<lparr>pm_keys = Map.empty, pm_surfaces = [(''[PERSON_1]'', ''Ann'')], pm_counts = (\<lambda>_. 0)\<rparr>)"

definition demo_delta :: "int \<Rightarrow> string \<Rightarrow> jsv" where
  "demo_delta i s = JObj [(''type'', JStr ''content_block_delta''), (''index'', jint i),
     (''delta'', JObj [(''type'', JStr ''text_delta''), (''text'', JStr s)])]"

definition demo_events :: "jsv list" where
  "demo_events = [demo_delta 0 ''Hi [PER'', demo_delta 1 ''x'', demo_delta 0 ''SON_1'',
     JObj [(''type'', JStr ''content_block_stop''), (''index'', jint 0)]]"


text \<open>A member named \<open>__proto__\<close> of a tool call's input is not in the restored input.\<close>

lemma proto_member_lost: "restore_leaves mapping (JObj [(''__proto__'', v), (k, JNull)]) = JObj (if k = ''__proto__'' then [] else [(k, JNull)])"
  by simp

end
