(* ===== verification/PiiSse.thy ===== *)
theory PiiSse
  imports PiiAnswers ReasoningMirror
begin

text \<open>
  The restorers of an answer's bytes in \<open>enclave/src/pii/pipeline.mjs\<close>: of an event stream, which is split
  into blocks on blank lines, and of a JSON body. The restorer of a dialect's events is a parameter, the
  function \<open>push\<close> on one event and \<open>flush\<close>, over its own state. A chunk is its decoded text. The count of
  placeholders left over, which is only logged, is not modelled.
\<close>

subsection \<open>Line ends\<close>

text \<open>\<open>text.replace(/\r\n?/g, '\n')\<close>.\<close>

fun unix_from :: "bool \<Rightarrow> string \<Rightarrow> string" where
  "unix_from cr [] = []"
| "unix_from cr (c # s) =
     (if c = CHR 0x0D then CHR 0x0A # unix_from True s
      else if cr \<and> c = CHR 0x0A then unix_from False s else c # unix_from False s)"

definition unix_lines :: "string \<Rightarrow> string" where
  "unix_lines = unix_from False"

subsection \<open>Blocks\<close>

text \<open>The loop of \<open>drain\<close>: what comes before each blank line, and the rest.\<close>

fun take_block :: "string \<Rightarrow> (string \<times> string) option" where
  "take_block [] = None"
| "take_block (c # s) =
     (if starts_with (c # s) [CHR 0x0A, CHR 0x0A] then Some ([], drop 2 (c # s))
      else map_option (\<lambda>(b, r). (c # b, r)) (take_block s))"

lemma take_block_shorter: "take_block s = Some (b, r) \<Longrightarrow> length r < length s"
  by (induction s arbitrary: b) (auto split: if_splits)

function sse_blocks_of :: "string \<Rightarrow> string list \<times> string" where
  "sse_blocks_of s =
     (case take_block s of
        None \<Rightarrow> ([], s)
      | Some (b, r) \<Rightarrow> (case sse_blocks_of r of (bs, rest) \<Rightarrow> (b # bs, rest)))"
  by pat_completeness auto
termination by (relation "measure length") (auto dest: take_block_shorter)

declare sse_blocks_of.simps [simp del]

subsection \<open>One block\<close>

record 's sse_restorer =
  sr_buf :: string
  sr_named :: bool
  sr_events :: 's

definition render_event :: "bool \<Rightarrow> string \<Rightarrow> jsv \<Rightarrow> string" where
  "render_event named fallback ev =
     (if named then ''event: '' @ (case fld ''type'' ev of JStr t \<Rightarrow> t | _ \<Rightarrow> fallback) @ [CHR 0x0A] else [])
     @ ''data: '' @ json_text ev @ [CHR 0x0A, CHR 0x0A]"

definition render_events :: "bool \<Rightarrow> string \<Rightarrow> jsv list \<Rightarrow> string" where
  "render_events named fallback evs = concat (map (render_event named fallback) evs)"

definition data_of_line :: "string \<Rightarrow> string" where
  "data_of_line l = (case drop 5 l of c # r \<Rightarrow> if c = CHR '' '' then r else c # r | [] \<Rightarrow> [])"

definition restore_block_text ::
    "(jsv \<Rightarrow> 's \<Rightarrow> js_error + jsv list \<times> 's) \<Rightarrow> ('s \<Rightarrow> jsv list \<times> 's) \<Rightarrow> string \<Rightarrow> 's sse_restorer \<Rightarrow> js_error + string \<times> 's sse_restorer" where
  "restore_block_text push flush b st =
     (let ls = split_char (CHR 0x0A) b;
          data = map data_of_line (filter (\<lambda>l. starts_with l ''data:'') ls);
          payload = str_join [CHR 0x0A] data;
          raw = b @ [CHR 0x0A, CHR 0x0A]
      in if data = [] then Inr (raw, st)
         else if trim payload = ''[DONE]'' then
           (case flush (sr_events st) of
              (evs, es) \<Rightarrow> Inr (render_events (sr_named st) ''message'' evs @ raw, st\<lparr>sr_events := es\<rparr>))
         else (case json_parse payload of
             None \<Rightarrow> Inr (raw, st)
           | Some ev \<Rightarrow>
               let name = List.find (\<lambda>l. starts_with l ''event:'') ls;
                   named = (sr_named st \<or> name \<noteq> None);
                   keep = filter (\<lambda>l. \<not> starts_with l ''data:'' \<and> \<not> starts_with l ''event:'') ls;
                   pre = (if keep \<noteq> [] then str_join [CHR 0x0A] keep @ [CHR 0x0A] else []);
                   fallback = (case name of Some l \<Rightarrow> trim (drop 6 l) | None \<Rightarrow> ''message'')
               in bind_js (push ev (sr_events st)) (\<lambda>(evs, es).
                    Inr (pre @ render_events named fallback evs, st\<lparr>sr_named := named, sr_events := es\<rparr>))))"

fun restore_blocks ::
    "(jsv \<Rightarrow> 's \<Rightarrow> js_error + jsv list \<times> 's) \<Rightarrow> ('s \<Rightarrow> jsv list \<times> 's) \<Rightarrow> string list \<Rightarrow> 's sse_restorer \<Rightarrow> js_error + string \<times> 's sse_restorer" where
  "restore_blocks push flush [] st = Inr ([], st)"
| "restore_blocks push flush (b # bs) st =
     bind_js (restore_block_text push flush b st) (\<lambda>(out, st1).
       bind_js (restore_blocks push flush bs st1) (\<lambda>(rest, st2). Inr (out @ rest, st2)))"

subsection \<open>The stream\<close>

text \<open>\<open>drain\<close>; \<open>limit\<close> bounds what one incomplete event may hold. The exception leaves the restorer unusable.\<close>

definition sse_drain ::
    "(jsv \<Rightarrow> 's \<Rightarrow> js_error + jsv list \<times> 's) \<Rightarrow> ('s \<Rightarrow> jsv list \<times> 's) \<Rightarrow> nat option \<Rightarrow> bool \<Rightarrow> 's sse_restorer
     \<Rightarrow> js_error + string \<times> 's sse_restorer" where
  "sse_drain push flush limit final st =
     (let buf = sr_buf st;
          held = (if \<not> final \<and> ends_with buf [CHR 0x0D] then [CHR 0x0D] else []);
          s = unix_lines (take (length buf - length held) buf)
      in case sse_blocks_of s of
           (bs, rest) \<Rightarrow>
             bind_js (restore_blocks push flush bs st) (\<lambda>(out, st1).
               if (case limit of Some n \<Rightarrow> n < length (rest @ held) | None \<Rightarrow> False)
               then Inl (Thrown ''pii restorer buffer limit exceeded'')
               else Inr (out, st1\<lparr>sr_buf := rest @ held\<rparr>)))"

definition sse_restore_push ::
    "(jsv \<Rightarrow> 's \<Rightarrow> js_error + jsv list \<times> 's) \<Rightarrow> ('s \<Rightarrow> jsv list \<times> 's) \<Rightarrow> nat option \<Rightarrow> string \<Rightarrow> 's sse_restorer
     \<Rightarrow> js_error + string \<times> 's sse_restorer" where
  "sse_restore_push push flush limit chunk st = sse_drain push flush limit False (st\<lparr>sr_buf := sr_buf st @ chunk\<rparr>)"

definition strip_newlines :: "string \<Rightarrow> string" where
  "strip_newlines s = rev (dropWhile (\<lambda>c. c = CHR 0x0A) (rev s))"

text \<open>What is done with the last, unended event.\<close>

definition sse_last ::
    "(jsv \<Rightarrow> 's \<Rightarrow> js_error + jsv list \<times> 's) \<Rightarrow> ('s \<Rightarrow> jsv list \<times> 's) \<Rightarrow> string \<times> 's sse_restorer \<Rightarrow> js_error + string" where
  "sse_last push flush r =
     (case r of (out, st1) \<Rightarrow>
        bind_js (if trim (sr_buf st1) \<noteq> [] then restore_block_text push flush (strip_newlines (sr_buf st1)) st1 else Inr ([], st1))
          (\<lambda>(more, st2). Inr (out @ more @ render_events (sr_named st2) ''message'' (fst (flush (sr_events st2))))))"

definition sse_restore_finish ::
    "(jsv \<Rightarrow> 's \<Rightarrow> js_error + jsv list \<times> 's) \<Rightarrow> ('s \<Rightarrow> jsv list \<times> 's) \<Rightarrow> nat option \<Rightarrow> 's sse_restorer \<Rightarrow> js_error + string" where
  "sse_restore_finish push flush limit st =
     bind_js (sse_drain push flush limit True st) (sse_last push flush)"

fun sse_restore_run ::
    "(jsv \<Rightarrow> 's \<Rightarrow> js_error + jsv list \<times> 's) \<Rightarrow> ('s \<Rightarrow> jsv list \<times> 's) \<Rightarrow> nat option \<Rightarrow> 's sse_restorer \<Rightarrow> string list \<Rightarrow> js_error + string" where
  "sse_restore_run push flush limit st [] = sse_restore_finish push flush limit st"
| "sse_restore_run push flush limit st (c # cs) =
     bind_js (sse_restore_push push flush limit c st) (\<lambda>(out, st1).
       bind_js (sse_restore_run push flush limit st1 cs) (\<lambda>rest. Inr (out @ rest)))"

definition sse_restore_start :: "'s \<Rightarrow> 's sse_restorer" where
  "sse_restore_start es = \<lparr>sr_buf = [], sr_named = False, sr_events = es\<rparr>"

subsection \<open>A JSON body, and the choice between the two\<close>

definition json_restore_text :: "(jsv \<Rightarrow> js_error + jsv) \<Rightarrow> string \<Rightarrow> js_error + string" where
  "json_restore_text restore s =
     (case json_parse s of None \<Rightarrow> Inr s | Some v \<Rightarrow> bind_js (restore v) (\<lambda>w. Inr (json_text w)))"

fun json_restore_run :: "(jsv \<Rightarrow> js_error + jsv) \<Rightarrow> nat option \<Rightarrow> string \<Rightarrow> string list \<Rightarrow> js_error + string" where
  "json_restore_run restore limit held [] = json_restore_text restore held"
| "json_restore_run restore limit held (c # cs) =
     (if (case limit of Some n \<Rightarrow> n < utf8_length (held @ c) | None \<Rightarrow> False)
      then Inl (Thrown ''pii restorer buffer limit exceeded'') else json_restore_run restore limit (held @ c) cs)"

text \<open>\<open>/text\/event-stream/i\<close> on the content type, absent as the empty string.\<close>

definition is_event_stream :: "string option \<Rightarrow> bool" where
  "is_event_stream content_type \<longleftrightarrow> str_includes (lower (case content_type of Some s \<Rightarrow> s | None \<Rightarrow> [])) ''text/event-stream''"

text \<open>The answer of a Messages request: \<open>createResponseRestorer\<close> with that dialect.\<close>

definition restore_messages_answer :: "pii_mapping \<Rightarrow> nat option \<Rightarrow> string option \<Rightarrow> string list \<Rightarrow> js_error + string" where
  "restore_messages_answer mapping limit content_type chunks =
     (if is_event_stream content_type
      then sse_restore_run (messages_restore_push mapping) (messages_restore_flush mapping) limit (sse_restore_start []) chunks
      else json_restore_run (\<lambda>v. Inr (messages_restore_message mapping v)) limit [] chunks)"

subsection \<open>Chunks do not matter\<close>

lemma unix_from_append:
  "unix_from cr (s @ t) = unix_from cr s @ unix_from (if s = [] then cr else last s = CHR 0x0D) t"
  by (induction s arbitrary: cr) auto

lemma unix_from_start: "t = [] \<or> hd t \<noteq> CHR 0x0A \<Longrightarrow> unix_from cr t = unix_from cr' t"
  by (cases t) auto

lemma unix_from_no_cr: "CHR 0x0D \<notin> set (unix_from cr s)"
  by (induction s arbitrary: cr) auto

lemma unix_from_idle: "CHR 0x0D \<notin> set s \<Longrightarrow> unix_from False s = s"
  by (induction s) auto

lemma take_block_split: "take_block s = Some (b, r) \<Longrightarrow> s = b @ [CHR 0x0A, CHR 0x0A] @ r"
proof (induction s arbitrary: b)
  case (Cons c s)
  show ?case
  proof (cases "starts_with (c # s) [CHR 0x0A, CHR 0x0A]")
    case True
    then obtain u where "c # s = [CHR 0x0A, CHR 0x0A] @ u" by (auto simp: starts_with_iff)
    then show ?thesis using Cons.prems by (auto simp: str_simps)
  qed (use Cons in \<open>auto split: option.splits\<close>)
qed simp

lemma take_block_append: "take_block s = Some (b, r) \<Longrightarrow> take_block (s @ t) = Some (b, r @ t)"
proof (induction s arbitrary: b)
  case (Cons c s)
  show ?case
  proof (cases "starts_with (c # s) [CHR 0x0A, CHR 0x0A]")
    case True
    then obtain u where "c # s = [CHR 0x0A, CHR 0x0A] @ u" by (auto simp: starts_with_iff)
    then show ?thesis using Cons.prems by (auto simp: str_simps)
  next
    case False
    then obtain b' where b': "take_block s = Some (b', r)" "b = c # b'" using Cons.prems by (auto split: option.splits)
    have "s \<noteq> []" using b' by auto
    then have "\<not> starts_with (c # s @ t) [CHR 0x0A, CHR 0x0A]"
      using False by (cases s) (auto simp: starts_with_def)
    then show ?thesis using Cons.IH [OF b'(1)] b'(2) by simp
  qed
qed simp

lemma sse_blocks_of_append:
  "sse_blocks_of s = (bs, rest) \<Longrightarrow> sse_blocks_of (rest @ t) = (bs', rest') \<Longrightarrow> sse_blocks_of (s @ t) = (bs @ bs', rest')"
proof (induction s arbitrary: bs rule: sse_blocks_of.induct)
  case (1 s)
  show ?case
  proof (cases "take_block s")
    case None
    then have "bs = []" "rest = s" using 1(2) by (simp_all add: sse_blocks_of.simps [of s])
    then show ?thesis using 1(3) by simp
  next
    case (Some br)
    obtain b r where br: "br = (b, r)" by force
    obtain bs1 where bs1: "sse_blocks_of r = (bs1, rest)" "bs = b # bs1"
      using 1(2) Some br by (auto simp: sse_blocks_of.simps [of s] split: prod.splits)
    have "sse_blocks_of (r @ t) = (bs1 @ bs', rest')" by (rule 1(1) [OF Some br [symmetric] bs1(1) 1(3)])
    then show ?thesis
      using take_block_append [of s b r t] Some br bs1(2) by (simp add: sse_blocks_of.simps [of "s @ t"])
  qed
qed

lemma sse_blocks_of_rest: "sse_blocks_of s = (bs, rest) \<Longrightarrow> set rest \<subseteq> set s"
proof (induction s arbitrary: bs rule: sse_blocks_of.induct)
  case (1 s)
  show ?case
  proof (cases "take_block s")
    case None
    then show ?thesis using 1(2) by (simp add: sse_blocks_of.simps [of s])
  next
    case (Some br)
    obtain b r where br: "br = (b, r)" by force
    obtain bs1 where "sse_blocks_of r = (bs1, rest)" using 1(2) Some br by (auto simp: sse_blocks_of.simps [of s] split: prod.splits)
    from 1(1) [OF Some br [symmetric] this] take_block_split [OF Some [unfolded br]] show ?thesis by auto
  qed
qed

text \<open>The buffer of a restorer plays no part in a block.\<close>

definition with_buf :: "string \<Rightarrow> js_error + string \<times> 's sse_restorer \<Rightarrow> js_error + string \<times> 's sse_restorer" where
  "with_buf x m = bind_js m (\<lambda>(out, st). Inr (out, st\<lparr>sr_buf := x\<rparr>))"

lemma block_buf:
  "restore_block_text push flush b (st\<lparr>sr_buf := x\<rparr>) = with_buf x (restore_block_text push flush b st)"
  by (simp add: restore_block_text_def with_buf_def Let_def bind_js_def split: prod.split option.split sum.split)

lemma bind_assoc: "bind_js (bind_js m f) g = bind_js m (\<lambda>x. bind_js (f x) g)"
  by (cases m) simp_all

lemma blocks_buf:
  "restore_blocks push flush bs (st\<lparr>sr_buf := x\<rparr>) = with_buf x (restore_blocks push flush bs st)"
proof (induction bs arbitrary: st)
  case (Cons b bs)
  show ?case
  proof (cases "restore_block_text push flush b st")
    case (Inr r)
    then show ?thesis by (cases r) (simp add: block_buf with_buf_def Cons.IH [unfolded with_buf_def] bind_assoc case_prod_beta)
  qed (simp add: block_buf with_buf_def)
qed (simp add: with_buf_def)

lemma restore_blocks_append:
  "restore_blocks push flush (bs @ bs') st =
     bind_js (restore_blocks push flush bs st) (\<lambda>(out, st1).
       bind_js (restore_blocks push flush bs' st1) (\<lambda>(rest, st2). Inr (out @ rest, st2)))"
  by (induction bs arbitrary: st) (simp_all add: bind_js_def split: sum.split prod.split)

definition held_back :: "string \<Rightarrow> string" where
  "held_back s = (if ends_with s [CHR 0x0D] then [CHR 0x0D] else [])"

lemma held_back_split:
  obtains body where "s = body @ held_back s" "take (length s - length (held_back s)) s = body"
    "held_back s = [] \<Longrightarrow> body = [] \<or> last body \<noteq> CHR 0x0D"
proof (cases "s = [] \<or> last s \<noteq> CHR 0x0D")
  case True
  then have "held_back s = []"
    by (cases s rule: rev_cases) (auto simp: held_back_def ends_with_def)
  with that [of s] True show ?thesis by simp
next
  case False
  then obtain body where "s = body @ [CHR 0x0D]" by (cases s rule: rev_cases) auto
  then show ?thesis using that [of body] by (simp add: held_back_def ends_with_def)
qed

text \<open>What is drained early and what is drained later make what is drained at once.\<close>

lemma early_drain:
  assumes "sse_blocks_of (unix_lines (take (length s - length (held_back s)) s)) = (bs, rest)"
    and "sse_blocks_of (unix_lines (rest @ held_back s @ t)) = (bs', rest')"
  shows "sse_blocks_of (unix_lines (s @ t)) = (bs @ bs', rest')"
proof -
  obtain body where body: "s = body @ held_back s" "take (length s - length (held_back s)) s = body"
    "held_back s = [] \<Longrightarrow> body = [] \<or> last body \<noteq> CHR 0x0D"
    using held_back_split by blast
  let ?t = "held_back s @ t"
  have "unix_lines (body @ ?t) = unix_lines body @ unix_lines ?t"
  proof (cases "held_back s = []")
    case True
    then show ?thesis using body(3) by (auto simp: unix_lines_def unix_from_append)
  next
    case False
    then have "hd ?t \<noteq> CHR 0x0A" by (simp add: held_back_def split: if_splits)
    then show ?thesis using unix_from_start [of ?t] by (simp add: unix_lines_def unix_from_append)
  qed
  moreover have "unix_lines (rest @ ?t) = rest @ unix_lines ?t"
  proof -
    have "CHR 0x0D \<notin> set rest" using sse_blocks_of_rest [OF assms(1)] unix_from_no_cr unfolding unix_lines_def by blast
    moreover have "rest \<noteq> [] \<Longrightarrow> last rest \<noteq> CHR 0x0D" using calculation last_in_set by metis
    ultimately show ?thesis
      using unix_from_idle [of rest] by (cases "rest = []") (simp_all add: unix_lines_def unix_from_append [of _ rest])
  qed
  ultimately show ?thesis
    using sse_blocks_of_append [OF assms(1), of "unix_lines ?t"] assms(2) body(1,2) by (metis append.assoc)
qed

lemma drain_final:
  "sse_drain push flush None True st = (case sse_blocks_of (unix_lines (sr_buf st)) of (bs, rest) \<Rightarrow>
     with_buf rest (restore_blocks push flush bs st))"
  by (simp add: sse_drain_def with_buf_def split: prod.split)

lemma drain_early:
  "sse_drain push flush None False st =
     (case sse_blocks_of (unix_lines (take (length (sr_buf st) - length (held_back (sr_buf st))) (sr_buf st))) of (bs, rest) \<Rightarrow>
        with_buf (rest @ held_back (sr_buf st)) (restore_blocks push flush bs st))"
  by (simp add: sse_drain_def with_buf_def held_back_def Let_def split: prod.split)

text \<open>A chunk handed in before the end of the stream changes nothing of what the client reads.\<close>

lemma push_then_finish:
  "bind_js (sse_drain push flush None False st) (\<lambda>(out, st1).
      bind_js (sse_restore_finish push flush None (st1\<lparr>sr_buf := sr_buf st1 @ t\<rparr>)) (\<lambda>rest. Inr (out @ rest)))
    = sse_restore_finish push flush None (st\<lparr>sr_buf := sr_buf st @ t\<rparr>)"
proof -
  obtain bs rest where early: "sse_blocks_of (unix_lines (take (length (sr_buf st) - length (held_back (sr_buf st))) (sr_buf st))) = (bs, rest)"
    by force
  obtain bs' rest' where late: "sse_blocks_of (unix_lines (rest @ held_back (sr_buf st) @ t)) = (bs', rest')" by force
  note all = early_drain [OF early late]
  have last: "bind_js (sse_last push flush (o2, st2)) (\<lambda>rest. Inr (out @ rest)) = sse_last push flush (out @ o2, st2)" for o2 st2 out
    by (simp add: sse_last_def bind_js_def split: prod.split sum.split)
  have finish: "sse_restore_finish push flush None (s\<lparr>sr_buf := x\<rparr>)
      = bind_js (restore_blocks push flush cs s) (\<lambda>(out, s1). sse_last push flush (out, s1\<lparr>sr_buf := r\<rparr>))"
    if "sse_blocks_of (unix_lines x) = (cs, r)" for x cs r s
    by (simp add: sse_restore_finish_def drain_final that blocks_buf with_buf_def bind_js_def split: prod.split sum.split)
  show ?thesis
  proof (cases "restore_blocks push flush bs st")
    case (Inl e)
    then show ?thesis using finish [OF all] by (simp add: drain_early early with_buf_def restore_blocks_append)
  next
    case (Inr r)
    obtain out st1 where r: "r = (out, st1)" by force
    have "bind_js (sse_drain push flush None False st) (\<lambda>(out, st1).
        bind_js (sse_restore_finish push flush None (st1\<lparr>sr_buf := sr_buf st1 @ t\<rparr>)) (\<lambda>rest. Inr (out @ rest)))
      = bind_js (sse_restore_finish push flush None (st1\<lparr>sr_buf := rest @ held_back (sr_buf st) @ t\<rparr>)) (\<lambda>rest. Inr (out @ rest))"
      by (simp add: drain_early early Inr r with_buf_def)
    also have "\<dots> = sse_restore_finish push flush None (st\<lparr>sr_buf := sr_buf st @ t\<rparr>)"
      unfolding finish [OF late] finish [OF all]
      by (cases "restore_blocks push flush bs' st1") (auto simp: restore_blocks_append Inr r last)
    finally show ?thesis .
  qed
qed

lemma sse_run_whole:
  "sse_restore_run push flush None st chunks = sse_restore_finish push flush None (st\<lparr>sr_buf := sr_buf st @ concat chunks\<rparr>)"
proof (induction chunks arbitrary: st)
  case (Cons c cs)
  show ?case
    using push_then_finish [of push flush "st\<lparr>sr_buf := sr_buf st @ c\<rparr>" "concat cs"]
    by (simp add: sse_restore_push_def Cons.IH)
qed simp


lemma json_any_chunking: "json_restore_run restore None held chunks = json_restore_text restore (held @ concat chunks)"
  by (induction chunks arbitrary: held) simp_all

text \<open>So the answer of a Messages request, of either kind.\<close>

lemma messages_answer_any_chunking:
  "restore_messages_answer mapping None content_type chunks = restore_messages_answer mapping None content_type [concat chunks]"
  by (simp add: restore_messages_answer_def sse_run_whole json_any_chunking del: sse_restore_run.simps json_restore_run.simps)

end
