(* ===== verification/Spec2Isabelle.thy ===== *)
theory Spec2Isabelle
  imports UpstreamBinding SettleQueue BalanceBackoff Counters ProxyListener Routing CandidateLoop
    StreamRewrite PiiRestore AnthropicRequest ResponsesRequest MessagesStream ResponsesStream CostExtract
    Settlement OutputCount FirstToken SmartRouting ReasoningMirror VeniceCitations ErrorBody Authorize
    PiiPipeline PiiSse
begin

text \<open>
  The verification library of the PPQ enclave proxy (\<open>enclave/src\<close>): the part of the program that
  runs inside the enclave, terminates the client's TLS, decides with horse-power's authorize answer
  which upstream may serve a request, shapes the body for it, and reports what is owed.

  How the parts work together. A connection arrives through \<open>proxyListener.mjs\<close>, which reads the
  client's address from the PROXY header that \<open>proxyProtocol.mjs\<close> parses. A chat request is checked
  against the remembered refusals of \<open>balanceBackoff.mjs\<close>, authorized by horse-power (with the headers of
  \<open>authorizeHeaders.mjs\<close> and the sizes of \<open>inputEstimate.mjs\<close>, at a host of \<open>hpHosts.mjs\<close>), routed to a concrete
  model by \<open>smartRouting.mjs\<close> where the client asked for a smart route, and shaped for
  OpenRouter by \<open>routing.mjs\<close> with \<open>webSearchTransforms.mjs\<close>. The handler in \<open>server.mjs\<close> then walks
  the candidate list of the answer (\<open>upstreams.mjs\<close>): each candidate passes the provider and family
  checks of \<open>upstreamBinding.mjs\<close>, its builder runs the gate of \<open>eligibility.mjs\<close> on the body and
  projects it, and the request is attempted; \<open>directOnly.mjs\<close> and \<open>tinfoil.mjs\<close> decide when OpenRouter
  is no fallback. \<open>counters.mjs\<close> counts the outcome and \<open>settleQueue.mjs\<close> delivers the bill.

  The theories, in the order of their imports:

  JsPrelude: JavaScript values (\<open>jsv\<close>), the operations of the language that the code uses, and the
  hint collections. Transition: reachability, and the locales \<open>invariant_system\<close> and \<open>event_system\<close>
  that every stateful component interprets on its own step function.

  UpstreamBinding: \<open>checkBindings\<close> and \<open>checkProviderBinding\<close> with their published tables; which
  hosts, credentials and providers an accepted candidate can name.

  SettleQueue, BalanceBackoff, Counters: the state of each object as a record, one definition per
  operation, its invariant, and its behaviour over any history of calls and callbacks.

  ProxyProtocol, ProxyListener: both header parsers with their builders (round trips), and the read
  loop and address tables of the listener as a machine over socket events.

  WebSearch, CacheMarks, Routing: the transforms of the OpenRouter body and their order in the
  handler; the spend cap, zero data retention, the provider directives.

  DirectGate, Projection, ResponsesGate: \<open>evaluateDirectEligibility\<close> with the checks in the code's
  order for the three dialects, and the bodies that are projected for a provider.

  Upstreams, DirectOnly, Tinfoil, CandidateLoop: the candidate list, the builders, the direct-only
  refusals, the private path with its sealed answers, and \<open>serve_request\<close>, which composes all of it:
  what is ever sent upstream, and when a request is sure to be served.

  Json, JsConvert, TextLines, SseEvents, ChatFrames: what the adapters stand on. \<open>JSON.stringify\<close> and
  \<open>JSON.parse\<close> with their round trip, \<open>String(x)\<close> and \<open>Number(x)\<close>, text that arrives in chunks, the reader of
  server-sent events (locale \<open>sse_translator\<close>) and the contract of a translator to chat frames (locales
  \<open>chat_translator\<close> and \<open>staged_translator\<close>, interpreted by both translators): chunks do not matter, and
  an answer is plain frames and one terminal frame.

  Adapter, AnthropicRequest, ResponsesRequest: the request half of \<open>anthropic.mjs\<close> and \<open>bedrock.mjs\<close>. What
  a conversation says is defined on both sides, and a translated body says the same.

  MessagesStream, ResponsesStream: the answer half of the two, with the arguments of tool calls and the
  usage of an answer. CostExtract: \<open>cost.mjs\<close>, the usage that is read out of the frames for the bill.
  Settlement joins the two: the tokens billed for an Anthropic answer are those it reports. OutputCount and
  FirstToken: \<open>outputCount.mjs\<close>, the count a settle falls back to when no usage arrived, and \<open>firstToken.mjs\<close>.

  Authorize: the question to horse-power. The hosts that may be asked (\<open>hpHosts.mjs\<close>), the headers the
  client may have forwarded (\<open>authorizeHeaders.mjs\<close>), the sizes and the reasoning effort that are reported
  (\<open>inputEstimate.mjs\<close>, \<open>reasoningEffort.mjs\<close>), and the request \<open>authorizeWithHorsepower\<close> makes of them.
  SmartRouting: \<open>smartRouting.mjs\<close>, the parser of the directive, the rule-based classifier with its tiers as
  a linear order, the promotions and the model that is chosen.

  ReasoningMirror, VeniceCitations, ErrorBody: the rewriters of \<open>reasoningMirror.mjs\<close>,
  \<open>veniceCitations.mjs\<close> and \<open>upstreamErrorBody.mjs\<close>, which stand between an upstream's answer and the client:
  a reasoning text under both of its names, the searches counted for the bill, and error bodies without
  the account and the provider behind a model.

  StreamRewrite: the carry-buffer replacer of \<open>rebrand.mjs\<close> and why cutting an answer into chunks does
  not change what it rewrites. PiiCore, PiiRestore: \<open>pii/core.mjs\<close> and \<open>pii/restore.mjs\<close>, the spans that
  are hidden, the placeholders issued for them, and the restoration of an answer in one pass or in chunks,
  with the round trip of the two. PiiDialects: \<open>pii/dialects\<close>, the texts of a body in the three dialects as
  references to paths, and their replacement; the locale \<open>pii_dialect\<close> is what the pipeline relies on, and a body
  with the referenced places blanked (\<open>mask\<close>) states that nothing else changes. PiiDetector: \<open>pii/detector.mjs\<close>,
  the spans read from a detector's answer in both placements. PiiPipeline: \<open>pii/pipeline.mjs\<close> with the steps of the
  chat handler and the relay around it, and the composition of the four: what a redacted body hides, which places
  are looked at, and that a redaction fails closed. PiiAnswers and PiiSse: the way back. Whole answers in the three
  dialects, the events of a Messages stream with a restorer for each block, and the restorers of an answer's bytes.

  Conventions. A thrown exception is \<open>Inl\<close> of a \<open>js_error\<close>; a mutated object is the value returned.
  A string is the list of its code units below 256; a number is an exact rational, an infinity or
  NaN. An object is an association list in key order, so a name such as \<open>constructor\<close>, which the
  code would find on \<open>Object.prototype\<close>, is written out where a lookup can meet it. Hashes, HMAC,
  HPKE sealing and opening, the AWS signature, the tokenizer, the logistic function of the classifier, clocks and the answers of
  upstreams are parameters or fields of an environment
  record; the candidate loop takes the Bedrock, OpenAI and
  Anthropic builders as fields too, so that its theorems hold for whatever they build. The loops are structural or proved to
  terminate; no fuel is used. The tables and limits are the code's own.

  Not modelled: sockets, TLS, HTTP and timers, logging, traces and error reports,
  the dialect, speech and decisions relays, the credential channel of Bedrock, ACME, the sealed store, the
  events of a chat and a Responses stream in the PII dialects, the detector's HTTP call and attestation, and the operators' scripts. Where a modelled operation calls one of
  these, its result is a parameter.
\<close>

end
